(* ===== verification/OxPrelude.thy ===== *)
theory OxPrelude
  imports Main "HOL-Library.Word"
begin

unbundle bit_operations_syntax

text \<open>
  The prelude of the development: the machine integers, the slice and byte operations of Rust's
  standard library that the modelled crates use, the little-endian codecs, the binary search
  behind \<open>partition_point\<close> with its contract as a locale, and the generic lemmas on ordered
  association lists that the two n-gram containers share.
\<close>

section \<open>Types\<close>

type_synonym u8 = "8 word"
type_synonym u16 = "16 word"
type_synonym u32 = "32 word"
type_synonym u64 = "64 word"
type_synonym bytes = "u8 list"

text \<open>
  \<open>usize\<close> is \<open>nat\<close> with the 64-bit bound written out where the code checks it. A Rust slice never
  holds more than \<open>isize::MAX\<close> bytes; \<open>slice_ok\<close> names that guarantee of the language.
\<close>

definition usize_max :: nat where
  "usize_max = 2 ^ 64 - 1"

definition slice_ok :: "'a list \<Rightarrow> bool" where
  "slice_ok xs \<longleftrightarrow> length xs < 2 ^ 63"

definition checked_add :: "nat \<Rightarrow> nat \<Rightarrow> nat option" where
  "checked_add a b = (if a + b \<le> usize_max then Some (a + b) else None)"

definition checked_mul :: "nat \<Rightarrow> nat \<Rightarrow> nat option" where
  "checked_mul a b = (if a * b \<le> usize_max then Some (a * b) else None)"

definition saturating_add :: "nat \<Rightarrow> nat \<Rightarrow> nat" where
  "saturating_add a b = min (a + b) usize_max"

text \<open>\<open>checked_add\<close> on \<open>u32\<close>, and \<open>u32::try_from\<close> of a \<open>usize\<close>.\<close>

definition checked_add_u32 :: "u32 \<Rightarrow> u32 \<Rightarrow> u32 option" where
  "checked_add_u32 a b = (if unat a + unat b < 2 ^ 32 then Some (a + b) else None)"

definition try_u32 :: "nat \<Rightarrow> u32 option" where
  "try_u32 n = (if n < 2 ^ 32 then Some (of_nat n) else None)"

named_theorems slices "facts on ranges, chunks and byte slices"
named_theorems codecs "round trips of the byte encodings"

section \<open>Slices\<close>

text \<open>\<open>xs.get(a..b)\<close>, \<open>xs.get(i)\<close>, overwriting a range, splicing and draining.\<close>

definition get_range :: "'a list \<Rightarrow> nat \<Rightarrow> nat \<Rightarrow> 'a list option" where
  "get_range xs a b = (if a \<le> b \<and> b \<le> length xs then Some (take (b - a) (drop a xs)) else None)"

definition get_at :: "'a list \<Rightarrow> nat \<Rightarrow> 'a option" where
  "get_at xs i = (if i < length xs then Some (xs ! i) else None)"

definition get_from :: "'a list \<Rightarrow> nat \<Rightarrow> 'a list option" where
  "get_from xs a = (if a \<le> length xs then Some (drop a xs) else None)"

definition overwrite :: "'a list \<Rightarrow> nat \<Rightarrow> 'a list \<Rightarrow> 'a list" where
  "overwrite xs a ys = take a xs @ ys @ drop (a + length ys) xs"

definition splice_at :: "'a list \<Rightarrow> nat \<Rightarrow> 'a list \<Rightarrow> 'a list" where
  "splice_at xs a ys = take a xs @ ys @ drop a xs"

definition drain :: "'a list \<Rightarrow> nat \<Rightarrow> nat \<Rightarrow> 'a list" where
  "drain xs a b = take a xs @ drop b xs"

definition resize :: "'a list \<Rightarrow> nat \<Rightarrow> 'a \<Rightarrow> 'a list" where
  "resize xs n x = take n xs @ replicate (n - length xs) x"

lemma get_range_append_exact [slices]:
  "get_range (xs @ ys @ zs) (length xs) (length xs + length ys) = Some ys"
  by (simp add: get_range_def)

lemma get_range_at: "length xs = a \<Longrightarrow> a + length ys = b \<Longrightarrow> get_range (xs @ ys @ zs) a b = Some ys"
  by (auto simp: get_range_append_exact)

lemma get_range_SomeD: "get_range xs a b = Some ys \<Longrightarrow> length ys = b - a \<and> b \<le> length xs \<and> a \<le> b"
  by (auto simp: get_range_def split: if_splits)

lemma length_resize [simp]: "length (resize xs n x) = n"
  by (simp add: resize_def)

lemma resize_ge: "length xs \<le> n \<Longrightarrow> resize xs n x = xs @ replicate (n - length xs) x"
  by (simp add: resize_def)

lemma nth_resize: "i < n \<Longrightarrow> resize xs n x ! i = (if i < length xs then xs ! i else x)"
  by (auto simp: resize_def nth_append)

lemma length_overwrite [simp]:
  "a + length ys \<le> length xs \<Longrightarrow> length (overwrite xs a ys) = length xs"
  by (simp add: overwrite_def)

lemma overwrite_append_exact [slices]:
  "length ys = length ys' \<Longrightarrow> overwrite (xs @ ys @ zs) (length xs) ys' = xs @ ys' @ zs"
  by (simp add: overwrite_def)

text \<open>\<open>Iterator::map_while\<close>: map until the first \<open>None\<close>.\<close>

fun map_while :: "('a \<Rightarrow> 'b option) \<Rightarrow> 'a list \<Rightarrow> 'b list" where
  "map_while f [] = []"
| "map_while f (x # xs) = (case f x of None \<Rightarrow> [] | Some y \<Rightarrow> y # map_while f xs)"

lemma map_while_total: "(\<And>x. x \<in> set xs \<Longrightarrow> f x = Some (h x)) \<Longrightarrow> map_while f xs = map h xs"
  by (induction xs) auto

text \<open>\<open>as_chunks::<n>()\<close>: the whole blocks of \<open>n\<close> elements, and what is left after them.\<close>

fun chunks :: "nat \<Rightarrow> 'a list \<Rightarrow> 'a list list" where
  "chunks n xs = (if n = 0 \<or> length xs < n then [] else take n xs # chunks n (drop n xs))"

declare chunks.simps [simp del]

fun chunks_tail :: "nat \<Rightarrow> 'a list \<Rightarrow> 'a list" where
  "chunks_tail n xs = (if n = 0 \<or> length xs < n then xs else chunks_tail n (drop n xs))"

declare chunks_tail.simps [simp del]

lemma chunks_short [slices]: "length xs < n \<Longrightarrow> chunks n xs = []"
  by (simp add: chunks.simps)

lemma chunks_tail_short [slices]: "length xs < n \<Longrightarrow> chunks_tail n xs = xs"
  by (simp add: chunks_tail.simps)

lemma chunks_append [slices]:
  "0 < length b \<Longrightarrow> n = length b \<Longrightarrow> chunks n (b @ xs) = b # chunks n xs"
  by (subst chunks.simps) auto

lemma chunks_tail_append [slices]:
  "0 < length b \<Longrightarrow> n = length b \<Longrightarrow> chunks_tail n (b @ xs) = chunks_tail n xs"
  by (subst chunks_tail.simps) auto

lemma chunks_concat:
  assumes "0 < n" "\<forall>b \<in> set bs. length b = n" "length rest < n"
  shows "chunks n (concat bs @ rest) = bs" and "chunks_tail n (concat bs @ rest) = rest"
  using assms
  by (induction bs) (auto simp: chunks_short chunks_tail_short chunks_append chunks_tail_append)

lemma chunks_decompose: "concat (chunks n xs) @ chunks_tail n xs = xs"
proof (induction n xs rule: chunks.induct)
  case (1 n xs)
  show ?case
  proof (cases "n = 0 \<or> length xs < n")
    case True
    then show ?thesis by (simp add: chunks.simps chunks_tail.simps)
  next
    case False
    with "1.IH" have "concat (chunks n (drop n xs)) @ chunks_tail n (drop n xs) = drop n xs"
      by simp
    moreover have "chunks n xs = take n xs # chunks n (drop n xs)"
      and "chunks_tail n xs = chunks_tail n (drop n xs)"
      using False by (simp_all add: chunks.simps [of n xs] chunks_tail.simps [of n xs])
    ultimately show ?thesis by simp
  qed
qed

lemma length_chunks_elem: "b \<in> set (chunks n xs) \<Longrightarrow> length b = n"
proof (induction n xs rule: chunks.induct)
  case (1 n xs)
  then show ?case
    by (subst (asm) (2) chunks.simps) (auto split: if_splits)
qed

lemma length_chunks_tail: "0 < n \<Longrightarrow> length (chunks_tail n xs) < n"
proof (induction n xs rule: chunks_tail.induct)
  case (1 n xs)
  then show ?case
    by (subst chunks_tail.simps) (auto split: if_splits)
qed

lemma length_concat_const: "\<forall>b \<in> set bs. length b = n \<Longrightarrow> length (concat bs) = n * length bs"
  by (induction bs) auto

lemma length_chunks: "0 < n \<Longrightarrow> length (chunks n xs) = length xs div n"
proof -
  assume n: "0 < n"
  have "length xs = n * length (chunks n xs) + length (chunks_tail n xs)"
    using arg_cong [OF chunks_decompose [of n xs], of length]
      length_concat_const [of "chunks n xs" n] length_chunks_elem
    by (metis length_append)
  with length_chunks_tail [OF n, of xs] show ?thesis
    by (metis add.right_neutral div_less div_mult_self4 n nat_neq_iff)
qed

lemma nth_concat_const:
  assumes "\<forall>b \<in> set bs. length b = n" "i < length bs"
  shows "take n (drop (n * i) (concat bs @ rest)) = bs ! i"
  using assms
proof (induction bs arbitrary: i)
  case Nil
  then show ?case by simp
next
  case (Cons b bs)
  then show ?case by (cases i) auto
qed

lemma take_concat_const:
  assumes "\<forall>b \<in> set bs. length b = n" "i \<le> length bs"
  shows "take (n * i) (concat bs @ rest) = concat (take i bs)"
  using assms
proof (induction bs arbitrary: i)
  case Nil
  then show ?case by simp
next
  case (Cons b bs)
  then show ?case by (cases i) auto
qed

lemma drop_concat_const:
  assumes "\<forall>b \<in> set bs. length b = n" "i \<le> length bs"
  shows "drop (n * i) (concat bs @ rest) = concat (drop i bs) @ rest"
  using assms
proof (induction bs arbitrary: i)
  case Nil
  then show ?case by simp
next
  case (Cons b bs)
  then show ?case by (cases i) auto
qed

section \<open>Little-endian bytes\<close>

text \<open>\<open>from_le_bytes\<close> and \<open>to_le_bytes\<close> at any width.\<close>

fun le_word :: "bytes \<Rightarrow> 'a::len word" where
  "le_word [] = 0"
| "le_word (b # bs) = ucast b OR push_bit 8 (le_word bs)"

fun le_bytes :: "nat \<Rightarrow> 'a::len word \<Rightarrow> bytes" where
  "le_bytes 0 w = []"
| "le_bytes (Suc n) w = ucast w # le_bytes n (drop_bit 8 w)"

abbreviation u16_le :: "u16 \<Rightarrow> bytes" where
  "u16_le \<equiv> le_bytes 2"

abbreviation u32_le :: "u32 \<Rightarrow> bytes" where
  "u32_le \<equiv> le_bytes 4"

abbreviation le_u16 :: "bytes \<Rightarrow> u16" where
  "le_u16 \<equiv> le_word"

abbreviation le_u32 :: "bytes \<Rightarrow> u32" where
  "le_u32 \<equiv> le_word"

lemma le_bytes_numeral:
  "le_bytes (numeral k) w = ucast w # le_bytes (pred_numeral k) (drop_bit 8 w)"
  by (simp add: numeral_eq_Suc)

lemma length_le_bytes [simp]: "length (le_bytes n w) = n"
  by (induction n arbitrary: w) auto

lemma le_bytes_not_Nil [simp]: "0 < n \<Longrightarrow> le_bytes n w \<noteq> []"
  by (metis length_le_bytes less_numeral_extra(3) list.size(3))

lemma le_word_le_bytes: "le_word (le_bytes n w) = take_bit (8 * n) w"
proof (induction n arbitrary: w)
  case 0
  then show ?case by simp
next
  case (Suc n)
  show ?case
    unfolding le_bytes.simps le_word.simps Suc.IH
    by (rule bit_word_eqI)
       (auto simp: bit_or_iff bit_push_bit_iff bit_take_bit_iff bit_drop_bit_eq bit_ucast_iff)
qed

lemma le_bytes_le_word:
  "8 * length bs \<le> LENGTH('a::len) \<Longrightarrow> le_bytes (length bs) (le_word bs :: 'a word) = bs"
proof (induction bs)
  case Nil
  then show ?case by simp
next
  case (Cons b bs)
  have 1: "ucast (ucast b OR push_bit 8 (le_word bs :: 'a word)) = b"
    using Cons.prems
    by (intro bit_word_eqI) (auto simp: bit_or_iff bit_push_bit_iff bit_ucast_iff)
  have tb: "take_bit (8 * length bs) (le_word bs :: 'a word) = le_word bs"
    using Cons by (metis Suc_leD add_leD2 le_word_le_bytes length_Cons mult_Suc_right)
  have 2: "drop_bit 8 (ucast b OR push_bit 8 (le_word bs :: 'a word)) = le_word bs"
  proof (rule bit_word_eqI)
    fix n
    assume n: "n < LENGTH('a)"
    have "bit (le_word bs :: 'a word) n \<Longrightarrow> n + 8 < LENGTH('a)"
      using Cons.prems arg_cong [OF tb, of "\<lambda>w. bit w n"] by (auto simp: bit_take_bit_iff)
    then show "bit (drop_bit 8 (ucast b OR push_bit 8 (le_word bs :: 'a word))) n
        = bit (le_word bs :: 'a word) n"
      by (auto simp: bit_drop_bit_eq bit_or_iff bit_push_bit_iff bit_ucast_iff bit_imp_le_length
          dest: bit_imp_le_length)
  qed
  from 1 2 Cons show ?case by simp
qed

lemma u32_codec [simp, codecs]: "le_u32 (u32_le w) = w"
  by (simp add: le_word_le_bytes take_bit_word_eq_self)

lemma u16_codec [simp, codecs]: "le_u16 (u16_le w) = w"
  by (simp add: le_word_le_bytes take_bit_word_eq_self)

lemma u32_codec_bytes [simp, codecs]: "length bs = 4 \<Longrightarrow> u32_le (le_u32 bs) = bs"
  using le_bytes_le_word [of bs, where 'a = 32] by simp

lemma u16_codec_bytes [simp, codecs]: "length bs = 2 \<Longrightarrow> u16_le (le_u16 bs) = bs"
  using le_bytes_le_word [of bs, where 'a = 16] by simp

lemma u32_le_inject [simp]: "u32_le a = u32_le b \<longleftrightarrow> a = b"
  by (metis u32_codec)

lemma u16_le_inject [simp]: "u16_le a = u16_le b \<longleftrightarrow> a = b"
  by (metis u16_codec)

text \<open>\<open>u32_at\<close>: the little-endian word at an offset, if it lies inside the slice.\<close>

definition u32_at :: "bytes \<Rightarrow> nat \<Rightarrow> u32 option" where
  "u32_at bs off = (case checked_add off 4 of
     None \<Rightarrow> None
   | Some e \<Rightarrow> map_option le_u32 (get_range bs off e))"

lemma slice_ok_index: "slice_ok xs \<Longrightarrow> i \<le> length xs \<Longrightarrow> i + 65536 \<le> usize_max"
  by (simp add: slice_ok_def usize_max_def)

lemma u32_at_append:
  assumes "length pre = n" "n + 4 \<le> usize_max"
  shows "u32_at (pre @ u32_le w @ suf) n = Some w"
  using assms get_range_append_exact [of pre "u32_le w" suf]
  by (simp add: u32_at_def checked_add_def)

section \<open>Binary search\<close>

text \<open>
  \<open>slice::partition_point\<close> as the standard library implements it: \<open>binary_search_by\<close> with a
  comparator that answers only \<open>Less\<close> or \<open>Greater\<close>, halving \<open>size\<close> from \<open>base\<close>.
\<close>

function pp_loop :: "(nat \<Rightarrow> bool) \<Rightarrow> nat \<Rightarrow> nat \<Rightarrow> nat" where
  "pp_loop P base sz =
     (if 1 < sz then
        (let half = sz div 2; mid = base + half
         in pp_loop P (if P mid then mid else base) (sz - half))
      else base + (if P base then 1 else 0))"
  by pat_completeness auto
termination
  by (relation "measure (\<lambda>(P, base, sz). sz)") auto

declare pp_loop.simps [simp del]

definition partition_point :: "('a \<Rightarrow> bool) \<Rightarrow> 'a list \<Rightarrow> nat" where
  "partition_point P xs = (if xs = [] then 0 else pp_loop (\<lambda>i. P (xs ! i)) 0 (length xs))"

lemma pp_loop_bounds: "0 < sz \<Longrightarrow> base \<le> pp_loop P base sz \<and> pp_loop P base sz \<le> base + sz"
proof (induction P base sz rule: pp_loop.induct)
  case (1 P base sz)
  show ?case
  proof (cases "1 < sz")
    case True
    let ?b = "if P (base + sz div 2) then base + sz div 2 else base"
    have "?b \<le> pp_loop P ?b (sz - sz div 2) \<and>
        pp_loop P ?b (sz - sz div 2) \<le> ?b + (sz - sz div 2)"
      using "1.IH" [OF True] True by simp
    with True show ?thesis
      by (subst (1 2) pp_loop.simps) (auto simp: Let_def split: if_splits)
  next
    case False
    with "1.prems" show ?thesis by (auto simp: pp_loop.simps [of P base sz])
  qed
qed

lemma pp_loop_partitioned:
  assumes "0 < sz" "base \<le> k" "k \<le> base + sz"
    and "\<And>i. base \<le> i \<Longrightarrow> i < base + sz \<Longrightarrow> P i \<longleftrightarrow> i < k"
  shows "pp_loop P base sz = k"
  using assms
proof (induction P base sz rule: pp_loop.induct)
  case (1 P base sz)
  show ?case
  proof (cases "1 < sz")
    case True
    let ?m = "base + sz div 2"
    let ?b = "if P ?m then ?m else base"
    have m: "P ?m \<longleftrightarrow> ?m < k" using "1.prems"(4) [of ?m] True by simp
    have "pp_loop P ?b (sz - sz div 2) = k"
      using "1.prems" m True by (intro "1.IH" [OF True refl refl]) (auto split: if_splits)
    with True show ?thesis by (simp add: pp_loop.simps [of P base sz] Let_def)
  next
    case False
    with "1.prems" "1.prems"(4) [of base] show ?thesis
      by (auto simp: pp_loop.simps [of P base sz])
  qed
qed

definition partitioned :: "('a \<Rightarrow> bool) \<Rightarrow> 'a list \<Rightarrow> bool" where
  "partitioned P xs \<longleftrightarrow> (\<forall>x \<in> set (dropWhile P xs). \<not> P x)"

lemma nth_partitioned:
  assumes "partitioned P xs" "i < length xs"
  shows "P (xs ! i) \<longleftrightarrow> i < length (takeWhile P xs)"
proof
  assume "i < length (takeWhile P xs)"
  then show "P (xs ! i)"
    by (metis nth_mem set_takeWhileD takeWhile_nth)
next
  assume p: "P (xs ! i)"
  show "i < length (takeWhile P xs)"
  proof (rule ccontr)
    assume "\<not> i < length (takeWhile P xs)"
    then have "xs ! i = dropWhile P xs ! (i - length (takeWhile P xs))"
      and "i - length (takeWhile P xs) < length (dropWhile P xs)"
      using assms(2) nth_append [of "takeWhile P xs" "dropWhile P xs" i]
        length_append [of "takeWhile P xs" "dropWhile P xs"]
      by auto
    then show False using assms(1) p by (auto simp: partitioned_def)
  qed
qed

text \<open>
  The contract of a partition search: the answer is an index of the slice or its length, and on a
  slice that the predicate partitions it is the number of leading elements that satisfy it. On
  other slices the answer is unspecified, and no client may use more than the bound.
\<close>

locale partition_search =
  fixes pp :: "('a \<Rightarrow> bool) \<Rightarrow> 'a list \<Rightarrow> nat"
  assumes pp_le: "pp P xs \<le> length xs"
    and pp_partitioned: "partitioned P xs \<Longrightarrow> pp P xs = length (takeWhile P xs)"
begin

lemma take_pp: "partitioned P xs \<Longrightarrow> take (pp P xs) xs = takeWhile P xs"
  by (simp add: pp_partitioned takeWhile_eq_take [symmetric])

lemma drop_pp: "partitioned P xs \<Longrightarrow> drop (pp P xs) xs = dropWhile P xs"
  by (simp add: pp_partitioned dropWhile_eq_drop [symmetric])

lemma nth_pp: "partitioned P xs \<Longrightarrow> i < length xs \<Longrightarrow> P (xs ! i) \<longleftrightarrow> i < pp P xs"
  by (simp add: pp_partitioned nth_partitioned)

end

lemma partition_point_le: "partition_point P xs \<le> length xs"
  using pp_loop_bounds [of "length xs" 0] by (simp add: partition_point_def)

lemma partition_point_partitioned:
  assumes "partitioned P xs"
  shows "partition_point P xs = length (takeWhile P xs)"
proof (cases "xs = []")
  case False
  then show ?thesis
    unfolding partition_point_def
    by (auto intro!: pp_loop_partitioned simp: nth_partitioned [OF assms] length_takeWhile_le)
qed (simp add: partition_point_def)

interpretation std_pp: partition_search partition_point
  by unfold_locales (simp_all add: partition_point_le partition_point_partitioned)

section \<open>Ordered association lists\<close>

text \<open>
  What the n-gram containers store: token-keyed entries, strictly ascending. The three operations
  below are the reference behaviour of insert, replace and remove on such a list.
\<close>

definition ordered :: "('k::linorder \<times> 'v) list \<Rightarrow> bool" where
  "ordered xs \<longleftrightarrow> sorted_wrt (<) (map fst xs)"

definition below :: "'k::linorder \<Rightarrow> 'k \<times> 'v \<Rightarrow> bool" where
  "below t e \<longleftrightarrow> fst e < t"

definition oinsert :: "'k::linorder \<Rightarrow> 'v \<Rightarrow> ('k \<times> 'v) list \<Rightarrow> ('k \<times> 'v) list" where
  "oinsert t v xs = takeWhile (below t) xs @ (t, v) # dropWhile (below t) xs"

definition oupdate :: "'k \<Rightarrow> 'v \<Rightarrow> ('k \<times> 'v) list \<Rightarrow> ('k \<times> 'v) list" where
  "oupdate t v xs = map (\<lambda>(k, w). (k, if k = t then v else w)) xs"

definition oremove :: "'k \<Rightarrow> ('k \<times> 'v) list \<Rightarrow> ('k \<times> 'v) list" where
  "oremove t xs = filter (\<lambda>e. fst e \<noteq> t) xs"

lemma ordered_Nil [simp]: "ordered []"
  by (simp add: ordered_def)

lemma ordered_Cons: "ordered (x # xs) \<longleftrightarrow> (\<forall>y \<in> set xs. fst x < fst y) \<and> ordered xs"
  by (auto simp: ordered_def)

lemma ordered_append:
  "ordered (xs @ ys) \<longleftrightarrow> ordered xs \<and> ordered ys \<and> (\<forall>x \<in> set xs. \<forall>y \<in> set ys. fst x < fst y)"
  by (auto simp: ordered_def sorted_wrt_append)

lemma ordered_distinct: "ordered xs \<Longrightarrow> distinct (map fst xs)"
  by (induction xs) (auto simp: ordered_Cons)

lemma ordered_partitioned: "ordered xs \<Longrightarrow> partitioned (below t) xs"
  by (induction xs) (auto simp: ordered_Cons partitioned_def below_def)

lemma ordered_nth: "ordered xs \<Longrightarrow> i < j \<Longrightarrow> j < length xs \<Longrightarrow> fst (xs ! i) < fst (xs ! j)"
  unfolding ordered_def sorted_wrt_iff_nth_less by auto

lemma ordered_filter: "ordered xs \<Longrightarrow> ordered (filter P xs)"
  by (induction xs) (auto simp: ordered_Cons)

lemma ordered_oupdate: "ordered (oupdate t v xs) \<longleftrightarrow> ordered xs"
  by (simp add: ordered_def oupdate_def case_prod_unfold comp_def)

lemma ordered_oremove: "ordered xs \<Longrightarrow> ordered (oremove t xs)"
  by (simp add: oremove_def ordered_filter)

lemma takeWhile_below: "x \<in> set (takeWhile (below t) xs) \<Longrightarrow> x \<in> set xs \<and> fst x < t"
  by (auto dest: set_takeWhileD simp: below_def)

lemma dropWhile_above:
  assumes "ordered xs" "y \<in> set (dropWhile (below t) xs)"
  shows "y \<in> set xs \<and> t \<le> fst y"
  using assms ordered_partitioned [OF assms(1), of t]
  by (auto simp: partitioned_def below_def not_less dest: set_dropWhileD)

lemma ordered_splits:
  assumes "ordered xs"
  shows "ordered (takeWhile (below t) xs)" and "ordered (dropWhile (below t) xs)"
  using assms ordered_append [of "takeWhile (below t) xs" "dropWhile (below t) xs"] by auto

lemma ordered_oinsert:
  assumes "ordered xs" "t \<notin> fst ` set xs"
  shows "ordered (oinsert t v xs)"
proof -
  have "\<forall>y \<in> set (dropWhile (below t) xs). t < fst y"
    using assms by (metis dropWhile_above image_eqI order_neq_le_trans)
  then show ?thesis
    using ordered_splits [OF assms(1), of t]
    unfolding oinsert_def ordered_append ordered_Cons
    by (fastforce dest: takeWhile_below)
qed

lemma map_of_oinsert:
  assumes "t \<notin> fst ` set xs"
  shows "map_of (oinsert t v xs) k = (if k = t then Some v else map_of xs k)"
  using assms by (induction xs) (auto simp: oinsert_def below_def)

lemma map_of_oupdate: "map_of (oupdate t v xs) k = (if k = t then map_option (\<lambda>_. v) (map_of xs t) else map_of xs k)"
  by (induction xs) (auto simp: oupdate_def)

lemma map_of_oremove: "map_of (oremove t xs) k = (if k = t then None else map_of xs k)"
  by (induction xs) (auto simp: oremove_def)

lemma oremove_absent: "t \<notin> fst ` set xs \<Longrightarrow> oremove t xs = xs"
  unfolding oremove_def by (rule filter_True) auto

lemma oremove_append: "oremove t (xs @ ys) = oremove t xs @ oremove t ys"
  by (simp add: oremove_def)

lemma oremove_Cons: "oremove t (x # xs) = (if fst x = t then oremove t xs else x # oremove t xs)"
  by (simp add: oremove_def)

lemma oremove_oinsert:
  assumes "t \<notin> fst ` set xs"
  shows "oremove t (oinsert t v xs) = xs"
proof -
  have "oremove t (oinsert t v xs) = oremove t (takeWhile (below t) xs @ dropWhile (below t) xs)"
    by (simp add: oremove_def oinsert_def del: takeWhile_dropWhile_id)
  then show ?thesis using oremove_absent [OF assms] by simp
qed

lemma map_of_below_head:
  assumes "ordered xs"
  shows "map_of xs t = (case dropWhile (below t) xs of
      [] \<Rightarrow> None | e # _ \<Rightarrow> if fst e = t then Some (snd e) else None)"
  using assms
proof (induction xs)
  case (Cons x xs)
  show ?case
  proof (cases "below t x")
    case True
    with Cons show ?thesis by (cases x) (auto simp: ordered_Cons below_def)
  next
    case False
    have "t \<notin> fst ` set xs"
      using Cons.prems False by (auto simp: ordered_Cons below_def)
    with False show ?thesis by (cases x) (simp add: map_of_eq_None_iff)
  qed
qed simp

end
