(* ===== verification/TokenRow.thy ===== *)
theory TokenRow
  imports OxPrelude
begin

text \<open>
  The contract of a token-keyed row: what both n-gram containers of the program promise their
  callers (the raw gram bytes of \<open>single_gram.rs\<close>, and the in-memory \<open>SingleGram\<close> of
  \<open>flexible_ngram.rs\<close>). A row answers the entries it stores in ascending token order; insert
  refuses a present token, replace and remove refuse an absent one. \<open>room\<close> says that the storage
  can still take one entry.
\<close>

locale token_row =
  fixes entries :: "'g \<Rightarrow> (u32 \<times> 'v) list"
    and inv :: "'g \<Rightarrow> bool"
    and room :: "'g \<Rightarrow> bool"
    and get :: "'g \<Rightarrow> u32 \<Rightarrow> 'v option"
    and ins :: "'g \<Rightarrow> u32 \<Rightarrow> 'v \<Rightarrow> bool \<times> 'g"
    and upd :: "'g \<Rightarrow> u32 \<Rightarrow> 'v \<Rightarrow> bool \<times> 'g"
    and del :: "'g \<Rightarrow> u32 \<Rightarrow> 'v option \<times> 'g"
  assumes inv_ordered: "inv g \<Longrightarrow> ordered (entries g)"
    and get_law: "inv g \<Longrightarrow> get g t = map_of (entries g) t"
    and ins_present: "inv g \<Longrightarrow> t \<in> fst ` set (entries g) \<Longrightarrow> ins g t v = (False, g)"
    and ins_absent: "inv g \<Longrightarrow> room g \<Longrightarrow> t \<notin> fst ` set (entries g) \<Longrightarrow>
      fst (ins g t v) \<and> inv (snd (ins g t v)) \<and> entries (snd (ins g t v)) = oinsert t v (entries g)"
    and upd_present: "inv g \<Longrightarrow> t \<in> fst ` set (entries g) \<Longrightarrow>
      fst (upd g t v) \<and> inv (snd (upd g t v)) \<and> entries (snd (upd g t v)) = oupdate t v (entries g)"
    and upd_absent: "inv g \<Longrightarrow> t \<notin> fst ` set (entries g) \<Longrightarrow> upd g t v = (False, g)"
    and del_present: "inv g \<Longrightarrow> t \<in> fst ` set (entries g) \<Longrightarrow>
      fst (del g t) = map_of (entries g) t \<and> inv (snd (del g t)) \<and>
      entries (snd (del g t)) = oremove t (entries g)"
    and del_absent: "inv g \<Longrightarrow> t \<notin> fst ` set (entries g) \<Longrightarrow> del g t = (None, g)"
begin

lemma present_iff: "inv g \<Longrightarrow> t \<in> fst ` set (entries g) \<longleftrightarrow> get g t \<noteq> None"
  by (simp add: get_law map_of_eq_None_iff)

lemma ins_flag: "inv g \<Longrightarrow> room g \<Longrightarrow> fst (ins g t v) \<longleftrightarrow> get g t = None"
  using present_iff [of g t] ins_present [of g t v] ins_absent [of g t v] by auto

lemma ins_inv: "inv g \<Longrightarrow> room g \<Longrightarrow> inv (snd (ins g t v))"
  by (cases "t \<in> fst ` set (entries g)") (simp_all add: ins_present ins_absent)

lemma upd_inv: "inv g \<Longrightarrow> inv (snd (upd g t v))"
  by (cases "t \<in> fst ` set (entries g)") (simp_all add: upd_present upd_absent)

lemma del_inv: "inv g \<Longrightarrow> inv (snd (del g t))"
  by (cases "t \<in> fst ` set (entries g)") (simp_all add: del_present del_absent)

lemma get_ins:
  assumes "inv g" "room g"
  shows "get (snd (ins g t v)) k =
      (if k = t then Some (case get g t of Some w \<Rightarrow> w | None \<Rightarrow> v) else get g k)"
proof (cases "t \<in> fst ` set (entries g)")
  case True
  then show ?thesis using assms present_iff [of g t] by (auto simp: ins_present)
next
  case False
  with assms present_iff [of g t] ins_absent [of g t v] ins_inv [of g t v] show ?thesis
    by (auto simp: get_law map_of_oinsert)
qed

lemma get_upd:
  assumes "inv g"
  shows "get (snd (upd g t v)) k = (if k = t then map_option (\<lambda>_. v) (get g t) else get g k)"
proof (cases "t \<in> fst ` set (entries g)")
  case True
  with assms upd_present [of g t v] upd_inv [of g t v] show ?thesis
    by (simp add: get_law map_of_oupdate)
next
  case False
  then show ?thesis using assms present_iff [of g t] by (auto simp: upd_absent)
qed

lemma get_del:
  assumes "inv g"
  shows "fst (del g t) = get g t" and "get (snd (del g t)) k = (if k = t then None else get g k)"
  using assms present_iff [of g t] del_present [of g t] del_inv [of g t] del_absent [of g t]
  by (cases "t \<in> fst ` set (entries g)"; auto simp: get_law map_of_oremove)+

lemma del_ins:
  assumes "inv g" "room g" "get g t = None"
  shows "fst (del (snd (ins g t v)) t) = Some v"
    and "entries (snd (del (snd (ins g t v)) t)) = entries g"
proof -
  have t: "t \<notin> fst ` set (entries g)" using assms present_iff by simp
  note a = ins_absent [OF assms(1,2) t, of v]
  have m: "t \<in> fst ` set (entries (snd (ins g t v)))" using a by (force simp: oinsert_def)
  note d = del_present [of "snd (ins g t v)" t, OF _ m]
  show "fst (del (snd (ins g t v)) t) = Some v"
    using a d by (simp add: map_of_oinsert [OF t])
  show "entries (snd (del (snd (ins g t v)) t)) = entries g"
    using a d by (simp add: oremove_oinsert [OF t])
qed

end

end
