(* ===== verification/SingleGram.thy ===== *)
theory SingleGram
  imports TokenRow
begin

text \<open>
  \<open>crates/oxpinyin-core/src/single_gram.rs\<close>: the operations on one raw gram value, the bytes a
  bigram container stores under a predecessor token. A gram is a little-endian total followed by
  packed eight-byte records, and may end in a partial record; every operation works on the bytes
  in place and nothing is decoded or re-sorted.

  The first part translates the file operation by operation. The second part relates the bytes
  to their items (\<open>mk_gram\<close>, \<open>gram_items\<close>) and shows what each operation does to them.
\<close>

section \<open>The operations\<close>

definition TOTAL_LEN :: nat where
  "TOTAL_LEN = 4"

definition ITEM_LEN :: nat where
  "ITEM_LEN = 8"

lemmas gram_sizes = TOTAL_LEN_def ITEM_LEN_def

definition get_length :: "bytes \<Rightarrow> nat" where
  "get_length gram = (length gram - TOTAL_LEN) div ITEM_LEN"

definition word :: "bytes \<Rightarrow> nat \<Rightarrow> u32" where
  "word gram offset = (case get_range gram offset (saturating_add offset 4) of
     Some quad \<Rightarrow> le_u32 quad
   | None \<Rightarrow> le_u32 [0, 0, 0, 0])"

definition put_word :: "bytes \<Rightarrow> nat \<Rightarrow> u32 \<Rightarrow> bytes" where
  "put_word gram offset v = (case get_range gram offset (saturating_add offset 4) of
     Some quad \<Rightarrow> overwrite gram offset (u32_le v)
   | None \<Rightarrow> gram)"

definition item_offset :: "nat \<Rightarrow> nat option" where
  "item_offset index = (case checked_mul index ITEM_LEN of
     Some b \<Rightarrow> checked_add b TOTAL_LEN
   | None \<Rightarrow> None)"

definition item_token :: "bytes \<Rightarrow> nat \<Rightarrow> u32 option" where
  "item_token gram index =
     (if index < get_length gram then map_option (word gram) (item_offset index) else None)"

definition item_freq :: "bytes \<Rightarrow> nat \<Rightarrow> u32 option" where
  "item_freq gram index =
     Option.bind (item_offset index) (\<lambda>at. Option.bind (checked_add at 4) (\<lambda>offset.
       if index < get_length gram then Some (word gram offset) else None))"

definition records :: "bytes \<Rightarrow> (bytes list \<times> bytes) option" where
  "records gram = map_option (\<lambda>body. (chunks ITEM_LEN body, chunks_tail ITEM_LEN body))
     (get_from gram TOTAL_LEN)"

definition record_token :: "bytes \<Rightarrow> u32" where
  "record_token r = le_u32 (take 4 r)"

definition record_freq :: "bytes \<Rightarrow> u32" where
  "record_freq r = le_u32 (take 4 (drop 4 r))"

definition get_total_freq :: "bytes \<Rightarrow> u32 option" where
  "get_total_freq gram = (if TOTAL_LEN \<le> length gram then Some (word gram 0) else None)"

definition set_total_freq :: "bytes \<Rightarrow> u32 \<Rightarrow> bytes" where
  "set_total_freq gram tot =
     put_word (if length gram < TOTAL_LEN then resize gram TOTAL_LEN 0 else gram) 0 tot"

definition lower_bound_records :: "bytes list \<Rightarrow> u32 \<Rightarrow> nat" where
  "lower_bound_records rs token = partition_point (\<lambda>r. record_token r < token) rs"

definition lower_bound :: "bytes \<Rightarrow> u32 \<Rightarrow> nat" where
  "lower_bound gram token = (case records gram of
     None \<Rightarrow> 0
   | Some (rs, _) \<Rightarrow> lower_bound_records rs token)"

text \<open>The walk that \<open>get_freq\<close>, \<open>set_freq\<close> and \<open>remove_freq\<close> share: \<open>for index in
  lower_bound..get_length\<close>.\<close>

fun find_walk :: "bytes \<Rightarrow> u32 \<Rightarrow> nat list \<Rightarrow> nat option" where
  "find_walk gram token [] = None"
| "find_walk gram token (index # rest) = (case item_token gram index of
     None \<Rightarrow> None
   | Some item \<Rightarrow>
       if token < item then None
       else if item = token then Some index
       else find_walk gram token rest)"

definition find_item :: "bytes \<Rightarrow> u32 \<Rightarrow> nat option" where
  "find_item gram token = find_walk gram token [lower_bound gram token ..< get_length gram]"

definition get_freq :: "bytes \<Rightarrow> u32 \<Rightarrow> u32 option" where
  "get_freq gram token = Option.bind (find_item gram token) (item_freq gram)"

datatype gram_fault = Short | OverRead

definition has_partial_tail :: "bytes \<Rightarrow> bool" where
  "has_partial_tail gram \<longleftrightarrow> TOTAL_LEN \<le> length gram \<and> (length gram - TOTAL_LEN) mod ITEM_LEN \<noteq> 0"

fun checked_get_walk :: "bytes \<Rightarrow> u32 \<Rightarrow> nat list \<Rightarrow> gram_fault + u32 option" where
  "checked_get_walk gram token [] = (if has_partial_tail gram then Inl OverRead else Inr None)"
| "checked_get_walk gram token (index # rest) =
     (case (item_token gram index, item_freq gram index) of
        (Some item, Some freq) \<Rightarrow>
          if token < item then Inr None
          else if item = token then Inr (Some freq)
          else checked_get_walk gram token rest
      | _ \<Rightarrow> Inl OverRead)"

definition checked_get_freq :: "bytes \<Rightarrow> u32 \<Rightarrow> gram_fault + u32 option" where
  "checked_get_freq gram token =
     (if length gram < TOTAL_LEN then Inl OverRead
      else checked_get_walk gram token [lower_bound gram token ..< get_length gram])"

text \<open>\<open>checked_search\<close> appends to \<open>out\<close> and keeps what it appended when it faults, so the model
  returns the status and the vector.\<close>

fun checked_search_walk ::
    "bytes list \<Rightarrow> bytes \<Rightarrow> u32 \<Rightarrow> (u32 \<times> u32) list \<Rightarrow> (gram_fault + unit) \<times> (u32 \<times> u32) list" where
  "checked_search_walk [] tail range_end out = (if tail \<noteq> [] then (Inl OverRead, out) else (Inr (), out))"
| "checked_search_walk (r # rs) tail range_end out =
     (let item = record_token r; freq = record_freq r
      in if range_end \<le> item then (Inr (), out)
         else checked_search_walk rs tail range_end (out @ [(item, freq)]))"

definition checked_search ::
    "bytes \<Rightarrow> u32 \<Rightarrow> u32 \<Rightarrow> (u32 \<times> u32) list \<Rightarrow> (gram_fault + unit) \<times> (u32 \<times> u32) list" where
  "checked_search gram range_begin range_end out = (case records gram of
     None \<Rightarrow> (Inl Short, out)
   | Some (rs, tail) \<Rightarrow>
       checked_search_walk (drop (lower_bound_records rs range_begin) rs) tail range_end out)"

definition set_freq :: "bytes \<Rightarrow> u32 \<Rightarrow> u32 \<Rightarrow> bool \<times> bytes" where
  "set_freq gram token freq =
     (case Option.bind (Option.bind (find_item gram token) item_offset) (\<lambda>offset. checked_add offset 4) of
        None \<Rightarrow> (False, gram)
      | Some offset \<Rightarrow> (True, put_word gram offset freq))"

fun insert_walk :: "bytes \<Rightarrow> u32 \<Rightarrow> bytes \<Rightarrow> nat list \<Rightarrow> bool \<times> bytes" where
  "insert_walk gram token r [] = (True, gram @ r)"
| "insert_walk gram token r (index # rest) = (case item_token gram index of
     None \<Rightarrow> (False, gram)
   | Some item \<Rightarrow>
       if token < item then
         (case item_offset index of
            None \<Rightarrow> (False, gram)
          | Some offset \<Rightarrow> (True, splice_at gram offset r))
       else if item = token then (False, gram)
       else insert_walk gram token r rest)"

definition insert_freq :: "bytes \<Rightarrow> u32 \<Rightarrow> u32 \<Rightarrow> bool \<times> bytes" where
  "insert_freq gram token freq =
     insert_walk gram token (u32_le token @ u32_le freq) [lower_bound gram token ..< get_length gram]"

definition remove_freq :: "bytes \<Rightarrow> u32 \<Rightarrow> u32 option \<times> bytes" where
  "remove_freq gram token =
     (case Option.bind (find_item gram token) (\<lambda>index. Option.bind (item_freq gram index)
        (\<lambda>freq. Option.bind (item_offset index) (\<lambda>offset. Option.bind (checked_add offset ITEM_LEN)
          (\<lambda>range_end. Some (freq, offset, range_end))))) of
        None \<Rightarrow> (None, gram)
      | Some (freq, offset, range_end) \<Rightarrow> (Some freq, drain gram offset range_end))"

text \<open>
  \<open>mask_out\<close>'s \<open>while\<close> loop over \<open>(gram, index, total, removed)\<close>; \<open>None\<close> would be a loop that
  does not stop.
\<close>

partial_function (option) mask_loop ::
    "u32 \<Rightarrow> u32 \<Rightarrow> bytes \<Rightarrow> nat \<Rightarrow> u32 \<Rightarrow> u32 \<Rightarrow> (bytes \<times> u32 \<times> u32) option" where
  "mask_loop msk v gram index tot removed =
     (if index < get_length gram then
        (case (item_token gram index, item_freq gram index, item_offset index) of
           (Some item, Some freq, Some offset) \<Rightarrow>
             if item AND msk \<noteq> v then mask_loop msk v gram (index + 1) tot removed
             else mask_loop msk v (drain gram offset (saturating_add offset ITEM_LEN)) index
                    (tot - freq) (removed + 1)
         | _ \<Rightarrow> Some (gram, tot, removed))
      else Some (gram, tot, removed))"

definition mask_out :: "bytes \<Rightarrow> u32 \<Rightarrow> u32 \<Rightarrow> (u32 \<times> bytes) option" where
  "mask_out gram msk v = (case get_total_freq gram of
     None \<Rightarrow> Some (0, gram)
   | Some tot \<Rightarrow>
       map_option (\<lambda>(gram', tot', removed). (removed, set_total_freq gram' tot'))
         (mask_loop msk v gram 0 tot 0))"

definition item_pair :: "bytes \<Rightarrow> nat \<Rightarrow> (u32 \<times> u32) option" where
  "item_pair gram index = Option.bind (item_token gram index) (\<lambda>t.
     Option.bind (item_freq gram index) (\<lambda>f. Some (t, f)))"

definition retrieve_all :: "bytes \<Rightarrow> (u32 \<times> u32) list" where
  "retrieve_all gram = map_while (item_pair gram) [0 ..< get_length gram]"

definition search :: "bytes \<Rightarrow> u32 \<Rightarrow> u32 \<Rightarrow> (u32 \<times> u32) list" where
  "search gram range_begin range_end = takeWhile (\<lambda>(token, _). token < range_end)
     (map_while (item_pair gram) [lower_bound gram range_begin ..< get_length gram])"

definition opt_or_zero :: "u32 option \<Rightarrow> u32" where
  "opt_or_zero r = (case r of None \<Rightarrow> 0 | Some x \<Rightarrow> x)"

definition item_or_zero :: "bytes \<Rightarrow> nat \<Rightarrow> u32 \<times> u32" where
  "item_or_zero gram index = (opt_or_zero (item_token gram index), opt_or_zero (item_freq gram index))"

definition append_item :: "bytes \<Rightarrow> u32 \<Rightarrow> u32 \<Rightarrow> bytes" where
  "append_item merged token freq = merged @ u32_le token @ u32_le freq"

text \<open>The merging \<open>while\<close> loop, and the two \<open>for\<close> loops that append the rests.\<close>

function merge_loop :: "bytes \<Rightarrow> bytes \<Rightarrow> nat \<Rightarrow> nat \<Rightarrow> bytes \<Rightarrow> bytes \<times> nat \<times> nat" where
  "merge_loop system user left right merged =
     (if left < get_length system \<and> right < get_length user then
        (let (system_token, system_freq) = item_or_zero system left;
             (user_token, user_freq) = item_or_zero user right
         in if system_token < user_token then
              merge_loop system user (left + 1) right (append_item merged system_token system_freq)
            else if user_token < system_token then
              merge_loop system user left (right + 1) (append_item merged user_token user_freq)
            else
              merge_loop system user (left + 1) (right + 1)
                (append_item merged system_token (system_freq + user_freq)))
      else (merged, left, right))"
  by pat_completeness auto
termination
  by (relation "measure (\<lambda>(s, u, l, r, m). (get_length s - l) + (get_length u - r))") auto

declare merge_loop.simps [simp del]

fun append_rest :: "bytes \<Rightarrow> nat list \<Rightarrow> bytes \<Rightarrow> bytes" where
  "append_rest gram [] merged = merged"
| "append_rest gram (index # rest) merged =
     (let (token, freq) = item_or_zero gram index
      in append_rest gram rest (append_item merged token freq))"

definition merge_rows :: "bytes \<Rightarrow> bytes \<Rightarrow> bytes" where
  "merge_rows system user =
     (let tot = opt_or_zero (get_total_freq system) + opt_or_zero (get_total_freq user);
          (merged, left, right) = merge_loop system user 0 0 (u32_le tot);
          merged = append_rest system [left ..< get_length system] merged
      in append_rest user [right ..< get_length user] merged)"

definition merge_single_gram :: "bytes \<Rightarrow> bytes option \<Rightarrow> bytes option \<Rightarrow> bool \<times> bytes" where
  "merge_single_gram merged system user = (case (system, user) of
     (None, None) \<Rightarrow> (False, merged)
   | (None, Some only) \<Rightarrow> (True, only)
   | (Some only, None) \<Rightarrow> (True, only)
   | (Some s, Some u) \<Rightarrow> (True, merge_rows s u))"

text \<open>\<open>records.windows(2).all(..)\<close>.\<close>

fun windows_ascend :: "bytes list \<Rightarrow> bool" where
  "windows_ascend (a # b # rs) \<longleftrightarrow> record_token a < record_token b \<and> windows_ascend (b # rs)"
| "windows_ascend _ \<longleftrightarrow> True"

definition is_strictly_ordered :: "bytes \<Rightarrow> bool" where
  "is_strictly_ordered gram \<longleftrightarrow> (case records gram of
     None \<Rightarrow> True
   | Some (rs, _) \<Rightarrow> windows_ascend rs)"

definition get_freq_merged :: "bytes \<Rightarrow> bytes \<Rightarrow> u32 \<Rightarrow> u32 option" where
  "get_freq_merged system user token = (case (get_freq system token, get_freq user token) of
     (Some s, Some u) \<Rightarrow> Some (s + u)
   | (freq, None) \<Rightarrow> freq
   | (None, freq) \<Rightarrow> freq)"

definition search_side :: "bytes \<Rightarrow> u32 \<Rightarrow> (u32 \<times> u32) list" where
  "search_side gram range_begin =
     (let rs = (case records gram of None \<Rightarrow> [] | Some (rs, _) \<Rightarrow> rs)
      in map (\<lambda>r. (record_token r, record_freq r)) (drop (lower_bound_records rs range_begin) rs))"

fun search_merged_loop ::
    "(u32 \<times> u32) list \<Rightarrow> (u32 \<times> u32) list \<Rightarrow> u32 \<Rightarrow> (u32 \<times> u32) list \<Rightarrow> (u32 \<times> u32) list" where
  "search_merged_loop [] [] range_end out = out"
| "search_merged_loop (s # ss) [] range_end out =
     (if range_end \<le> fst s then out else search_merged_loop ss [] range_end (out @ [s]))"
| "search_merged_loop [] (u # us) range_end out =
     (if range_end \<le> fst u then out else search_merged_loop [] us range_end (out @ [u]))"
| "search_merged_loop (s # ss) (u # us) range_end out =
     (if fst s < fst u then
        (if range_end \<le> fst s then out else search_merged_loop ss (u # us) range_end (out @ [s]))
      else if fst u < fst s then
        (if range_end \<le> fst u then out else search_merged_loop (s # ss) us range_end (out @ [u]))
      else
        (if range_end \<le> fst s then out
         else search_merged_loop ss us range_end (out @ [(fst s, snd s + snd u)])))"

definition search_merged ::
    "bytes \<Rightarrow> bytes \<Rightarrow> u32 \<Rightarrow> u32 \<Rightarrow> (u32 \<times> u32) list \<Rightarrow> (u32 \<times> u32) list" where
  "search_merged system user range_begin range_end out =
     search_merged_loop (search_side system range_begin) (search_side user range_begin) range_end out"

definition new_gram :: bytes where
  "new_gram = replicate TOTAL_LEN 0"

section \<open>Bytes and items\<close>

text \<open>
  A value with a whole total is \<open>mk_gram\<close> of its total, its items and the partial record after
  them. The lemmas below read every access of the code back through that decomposition.
\<close>

definition enc_item :: "u32 \<times> u32 \<Rightarrow> bytes" where
  "enc_item e = u32_le (fst e) @ u32_le (snd e)"

definition mk_gram :: "u32 \<Rightarrow> (u32 \<times> u32) list \<Rightarrow> bytes \<Rightarrow> bytes" where
  "mk_gram tot items tail = u32_le tot @ concat (map enc_item items) @ tail"

definition dec_item :: "bytes \<Rightarrow> u32 \<times> u32" where
  "dec_item r = (record_token r, record_freq r)"

named_theorems gram "how the accesses read a value built by mk_gram"

lemma length_enc_item [simp]: "length (enc_item e) = 8"
  by (simp add: enc_item_def)

lemma enc_items_lengths: "\<forall>b \<in> set (map enc_item items). length b = 8"
  by simp

lemma length_enc_items [simp]: "length (concat (map enc_item items)) = 8 * length items"
  using length_concat_const [OF enc_items_lengths, of items] by simp

lemma record_enc_item [simp]:
  "record_token (enc_item e) = fst e" "record_freq (enc_item e) = snd e"
  by (simp_all add: record_token_def record_freq_def enc_item_def)

lemma dec_enc_item [simp]: "dec_item (enc_item e) = e"
  by (simp add: dec_item_def)

lemma enc_dec_item: "length r = 8 \<Longrightarrow> enc_item (dec_item r) = r"
  by (simp add: enc_item_def dec_item_def record_token_def record_freq_def)

lemma length_mk_gram [gram]: "length (mk_gram tot items tail) = 4 + 8 * length items + length tail"
  by (simp add: mk_gram_def length_concat_const [of _ 8])

lemma get_length_mk [gram]: "length tail < 8 \<Longrightarrow> get_length (mk_gram tot items tail) = length items"
  by (simp add: get_length_def length_mk_gram gram_sizes)

lemma records_mk [gram]:
  assumes "length tail < 8"
  shows "records (mk_gram tot items tail) = Some (map enc_item items, tail)"
proof -
  have "drop 4 (mk_gram tot items tail) = concat (map enc_item items) @ tail"
    by (simp add: mk_gram_def)
  then show ?thesis
    using chunks_concat [of 8 "map enc_item items" tail] assms
    by (simp add: records_def get_from_def length_mk_gram gram_sizes)
qed

lemma gram_decompose:
  assumes "4 \<le> length g"
  obtains tot items tail where "g = mk_gram tot items tail" "length tail < 8"
proof
  let ?b = "drop 4 g"
  show "length (chunks_tail 8 ?b) < 8" by (simp add: length_chunks_tail)
  have "map enc_item (map dec_item (chunks 8 ?b)) = chunks 8 ?b"
    by (simp add: map_idI enc_dec_item length_chunks_elem)
  then have "concat (map enc_item (map dec_item (chunks 8 ?b))) @ chunks_tail 8 ?b = ?b"
    using chunks_decompose [of 8 ?b] by simp
  then show "g = mk_gram (le_u32 (take 4 g)) (map dec_item (chunks 8 ?b)) (chunks_tail 8 ?b)"
    using assms append_take_drop_id [of 4 g] by (simp add: mk_gram_def)
qed

text \<open>An item splits the value: the bytes before it, its two words, and the bytes after it.\<close>

lemma mk_gram_split:
  assumes "i < length items"
  shows "mk_gram tot items tail =
      (u32_le tot @ concat (map enc_item (take i items))) @ u32_le (fst (items ! i)) @
      u32_le (snd (items ! i)) @ concat (map enc_item (drop (Suc i) items)) @ tail"
proof -
  have "concat (map enc_item items) = concat (map enc_item (take i items)) @ enc_item (items ! i) @
      concat (map enc_item (drop (Suc i) items))"
    using arg_cong [OF id_take_nth_drop [OF assms], of "\<lambda>l. concat (map enc_item l)"] by simp
  then show ?thesis by (simp add: mk_gram_def enc_item_def)
qed

lemma word_at:
  assumes "length pre = n" "n + 4 \<le> usize_max"
  shows "word (pre @ u32_le w @ suf) n = w"
  using assms get_range_append_exact [of pre "u32_le w" suf]
  by (simp add: word_def saturating_add_def)

lemma put_word_at:
  assumes "length pre = n" "n + 4 \<le> usize_max"
  shows "put_word (pre @ u32_le w @ suf) n v = pre @ u32_le v @ suf"
  using assms get_range_append_exact [of pre "u32_le w" suf]
    overwrite_append_exact [of "u32_le w" "u32_le v" pre suf]
  by (simp add: put_word_def saturating_add_def)

lemma index_fits:
  assumes "slice_ok (mk_gram tot items tail)" "i < length items"
  shows "8 * i + 16 \<le> usize_max"
  using assms by (simp add: slice_ok_def length_mk_gram usize_max_def)

lemma item_offset_mk [gram]:
  "slice_ok (mk_gram tot items tail) \<Longrightarrow> i < length items \<Longrightarrow> item_offset i = Some (8 * i + 4)"
  using index_fits [of tot items tail i]
  by (simp add: item_offset_def checked_mul_def checked_add_def gram_sizes mult.commute)

lemma item_token_mk [gram]:
  assumes "slice_ok (mk_gram tot items tail)" "length tail < 8" "i < length items"
  shows "item_token (mk_gram tot items tail) i = Some (fst (items ! i))"
proof -
  have "word (mk_gram tot items tail) (8 * i + 4) = fst (items ! i)"
    unfolding mk_gram_split [OF assms(3)]
    using index_fits [OF assms(1,3)] assms(3) by (intro word_at) simp_all
  then show ?thesis
    using assms by (simp add: item_token_def gram)
qed

lemma item_freq_mk [gram]:
  assumes "slice_ok (mk_gram tot items tail)" "length tail < 8" "i < length items"
  shows "item_freq (mk_gram tot items tail) i = Some (snd (items ! i))"
proof -
  let ?pre = "(u32_le tot @ concat (map enc_item (take i items))) @ u32_le (fst (items ! i))"
  have "word (mk_gram tot items tail) (8 * i + 8) = snd (items ! i)"
    using word_at [of ?pre "8 * i + 8"] index_fits [OF assms(1,3)] assms(3)
    by (simp add: mk_gram_split [OF assms(3)] del: append_assoc) (simp add: append_assoc)
  then show ?thesis
    using assms index_fits [OF assms(1,3)] by (simp add: item_freq_def checked_add_def gram add.commute)
qed

lemma item_beyond [gram]:
  assumes "length tail < 8" "length items \<le> i"
  shows "item_token (mk_gram tot items tail) i = None" "item_freq (mk_gram tot items tail) i = None"
  using assms by (simp_all add: item_token_def item_freq_def gram split: Option.bind_splits)

lemma item_pair_mk [gram]:
  assumes "slice_ok (mk_gram tot items tail)" "length tail < 8" "i < length items"
  shows "item_pair (mk_gram tot items tail) i = Some (items ! i)"
  using assms by (simp add: item_pair_def gram)

lemma get_total_freq_mk [gram]: "get_total_freq (mk_gram tot items tail) = Some tot"
  using word_at [of "[]" 0 tot "concat (map enc_item items) @ tail"]
  by (simp add: get_total_freq_def length_mk_gram gram_sizes mk_gram_def usize_max_def)

lemma set_total_freq_mk [gram]: "set_total_freq (mk_gram tot items tail) t = mk_gram t items tail"
  using put_word_at [of "[]" 0 tot "concat (map enc_item items) @ tail" t]
  by (simp add: set_total_freq_def length_mk_gram gram_sizes mk_gram_def usize_max_def)

lemma retrieve_all_mk [gram]:
  assumes "slice_ok (mk_gram tot items tail)" "length tail < 8"
  shows "retrieve_all (mk_gram tot items tail) = items"
proof -
  have "retrieve_all (mk_gram tot items tail) = map (\<lambda>i. items ! i) [0 ..< length items]"
    using assms by (auto simp: retrieve_all_def gram intro!: map_while_total)
  then show ?thesis by (simp add: map_nth)
qed

lemma lower_bound_records_mk:
  "lower_bound_records (map enc_item items) t = partition_point (below t) items"
proof -
  have "pp_loop (\<lambda>i. record_token (map enc_item items ! i) < t) b n = pp_loop (\<lambda>i. below t (items ! i)) b n"
    if "b + n \<le> length items" "0 < n" for b n
    using that
  proof (induction n arbitrary: b rule: less_induct)
    case (less n)
    show ?case
    proof (cases "1 < n")
      case True
      have "record_token (map enc_item items ! (b + n div 2)) < t \<longleftrightarrow> below t (items ! (b + n div 2))"
        using less.prems True by (simp add: below_def)
      with less True show ?thesis
        by (subst (1 2) pp_loop.simps) (auto simp: Let_def intro!: less.IH)
    next
      case False
      with less.prems show ?thesis by (subst (1 2) pp_loop.simps) (auto simp: below_def)
    qed
  qed
  then show ?thesis
    by (cases "items = []") (simp_all add: lower_bound_records_def partition_point_def)
qed

lemma lower_bound_mk [gram]:
  "length tail < 8 \<Longrightarrow> lower_bound (mk_gram tot items tail) t = partition_point (below t) items"
  by (simp add: lower_bound_def records_mk lower_bound_records_mk)

lemma is_strictly_ordered_mk [gram]:
  assumes "length tail < 8"
  shows "is_strictly_ordered (mk_gram tot items tail) \<longleftrightarrow> ordered items"
proof -
  have "windows_ascend (map enc_item items) \<longleftrightarrow> ordered items"
  proof (induction items)
    case (Cons a items)
    then show ?case
      by (cases items) (auto simp: ordered_Cons intro: less_trans)
  qed (simp add: ordered_def)
  then show ?thesis using assms by (simp add: is_strictly_ordered_def records_mk)
qed

lemma has_partial_tail_mk [gram]:
  "length tail < 8 \<Longrightarrow> has_partial_tail (mk_gram tot items tail) \<longleftrightarrow> tail \<noteq> []"
  by (auto simp: has_partial_tail_def length_mk_gram gram_sizes)

section \<open>Lookup, insert, replace and remove\<close>

lemma pp_at_or_above:
  assumes "ordered items" "partition_point (below t) items < length items"
  shows "t \<le> fst (items ! partition_point (below t) items)"
  using std_pp.nth_pp [OF ordered_partitioned [OF assms(1)] assms(2), of t]
  by (simp add: below_def not_less)

lemma pp_before:
  assumes "ordered items" "i < length items" "i < partition_point (below t) items"
  shows "fst (items ! i) < t"
  using std_pp.nth_pp [OF ordered_partitioned [OF assms(1)] assms(2), of t] assms(3)
  by (simp add: below_def)

lemma find_item_ordered:
  assumes "slice_ok (mk_gram tot items tail)" "length tail < 8" "ordered items"
  shows "find_item (mk_gram tot items tail) t =
      (let k = partition_point (below t) items
       in if k < length items \<and> fst (items ! k) = t then Some k else None)"
proof (cases "partition_point (below t) items < length items")
  case True
  then show ?thesis
    using assms pp_at_or_above [OF assms(3) True]
    by (auto simp: find_item_def gram upt_conv_Cons Let_def)
next
  case False
  then show ?thesis using assms by (simp add: find_item_def gram)
qed

lemma present_at_pp:
  assumes "ordered items"
  shows "t \<in> fst ` set items \<longleftrightarrow>
      partition_point (below t) items < length items \<and>
      fst (items ! partition_point (below t) items) = t"
proof
  let ?k = "partition_point (below t) items"
  assume "t \<in> fst ` set items"
  then obtain i where i: "i < length items" "fst (items ! i) = t"
    by (auto simp: in_set_conv_nth image_iff)
  then have "?k \<le> i" using pp_before [OF assms i(1), of t] by (metis leI less_irrefl)
  with i have "?k < length items" by simp
  moreover have "fst (items ! ?k) = t"
    using pp_at_or_above [OF assms \<open>?k < length items\<close>] ordered_nth [OF assms, of ?k i] i \<open>?k \<le> i\<close>
    by (cases "?k = i") auto
  ultimately show "?k < length items \<and> fst (items ! ?k) = t" by simp
qed (metis image_eqI nth_mem)

lemma map_of_at_pp:
  assumes "ordered items"
  shows "map_of items t =
      (let k = partition_point (below t) items
       in if k < length items \<and> fst (items ! k) = t then Some (snd (items ! k)) else None)"
proof (cases "t \<in> fst ` set items")
  case True
  then have "(t, snd (items ! partition_point (below t) items)) \<in> set items"
    using present_at_pp [OF assms, of t] by (metis nth_mem prod.collapse)
  then have "map_of items t = Some (snd (items ! partition_point (below t) items))"
    using ordered_distinct [OF assms] by (simp add: map_of_is_SomeI)
  then show ?thesis using True present_at_pp [OF assms, of t] by (simp add: Let_def)
next
  case False
  then show ?thesis
    using present_at_pp [OF assms, of t] by (auto simp: Let_def map_of_eq_None_iff)
qed

lemma get_freq_ordered:
  assumes "slice_ok (mk_gram tot items tail)" "length tail < 8" "ordered items"
  shows "get_freq (mk_gram tot items tail) t = map_of items t"
  using assms
  by (simp add: get_freq_def find_item_ordered map_of_at_pp Let_def item_freq_mk)

lemma splice_mk:
  assumes "k \<le> length items"
  shows "splice_at (mk_gram tot items tail) (8 * k + 4) (enc_item e) =
      mk_gram tot (take k items @ e # drop k items) tail"
  using take_concat_const [OF enc_items_lengths, of k items tail]
    drop_concat_const [OF enc_items_lengths, of k items tail] assms
  by (simp add: splice_at_def mk_gram_def take_map drop_map add.commute)

lemma drain_mk:
  assumes "k < length items"
  shows "drain (mk_gram tot items tail) (8 * k + 4) (8 * k + 12) =
      mk_gram tot (take k items @ drop (Suc k) items) tail"
  using take_concat_const [OF enc_items_lengths, of k items tail]
    drop_concat_const [OF enc_items_lengths, of "Suc k" items tail] assms
  by (simp add: drain_def mk_gram_def take_map drop_map add.commute)

lemma mk_gram_snoc: "mk_gram tot items [] @ enc_item e = mk_gram tot (items @ [e]) []"
  by (simp add: mk_gram_def)

lemma oinsert_at_pp:
  "ordered items \<Longrightarrow> oinsert t f items =
     (let k = partition_point (below t) items in take k items @ (t, f) # drop k items)"
  by (simp add: oinsert_def std_pp.take_pp std_pp.drop_pp ordered_partitioned)

lemma insert_freq_ordered:
  assumes "slice_ok (mk_gram tot items [])" "ordered items"
  shows "insert_freq (mk_gram tot items []) t f =
      (if t \<in> fst ` set items then (False, mk_gram tot items [])
       else (True, mk_gram tot (oinsert t f items) []))"
proof (cases "partition_point (below t) items < length items")
  case True
  then show ?thesis
    using assms pp_at_or_above [OF assms(2) True] present_at_pp [OF assms(2), of t]
      splice_mk [of "partition_point (below t) items" items tot "[]" "(t, f)"]
    by (auto simp: insert_freq_def gram upt_conv_Cons oinsert_at_pp enc_item_def Let_def)
next
  case False
  then have "partition_point (below t) items = length items"
    using partition_point_le [of "below t" items] by simp
  then show ?thesis
    using assms present_at_pp [OF assms(2), of t] mk_gram_snoc [of tot items "(t, f)"]
    by (auto simp: insert_freq_def gram oinsert_at_pp enc_item_def Let_def)
qed

lemma oupdate_at_pp:
  assumes "ordered items" "t \<in> fst ` set items"
  shows "oupdate t f items = items[partition_point (below t) items := (t, f)]"
proof (rule nth_equalityI)
  show "length (oupdate t f items) = length (items[partition_point (below t) items := (t, f)])"
    by (simp add: oupdate_def)
next
  fix i
  assume "i < length (oupdate t f items)"
  then have i: "i < length items" by (simp add: oupdate_def)
  let ?k = "partition_point (below t) items"
  have k: "?k < length items" "fst (items ! ?k) = t" using present_at_pp assms by auto
  have "fst (items ! i) = t \<longleftrightarrow> i = ?k"
    using ordered_nth [OF assms(1), of i ?k] ordered_nth [OF assms(1), of ?k i] i k
    by (metis less_irrefl linorder_neqE_nat)
  then show "oupdate t f items ! i = items[?k := (t, f)] ! i"
    using i k by (auto simp: oupdate_def nth_list_update case_prod_unfold prod_eq_iff)
qed

lemma oremove_at_pp:
  assumes "ordered items" "t \<in> fst ` set items"
  shows "oremove t items =
      (let k = partition_point (below t) items in take k items @ drop (Suc k) items)"
proof -
  let ?k = "partition_point (below t) items"
  have k: "?k < length items" "fst (items ! ?k) = t" using present_at_pp assms by auto
  have split: "items = take ?k items @ items ! ?k # drop (Suc ?k) items"
    using k by (simp add: id_take_nth_drop)
  have "distinct (map fst (take ?k items @ items ! ?k # drop (Suc ?k) items))"
    using ordered_distinct [OF assms(1)] split by simp
  then have "t \<notin> fst ` set (take ?k items)" "t \<notin> fst ` set (drop (Suc ?k) items)"
    using k by auto
  then have "oremove t (take ?k items @ items ! ?k # drop (Suc ?k) items) =
      take ?k items @ drop (Suc ?k) items"
    using k by (simp add: oremove_append oremove_Cons oremove_absent)
  then show ?thesis using split by (simp add: Let_def)
qed

lemma put_freq_mk:
  assumes "slice_ok (mk_gram tot items tail)" "k < length items"
  shows "put_word (mk_gram tot items tail) (8 * k + 8) f =
      mk_gram tot (items[k := (fst (items ! k), f)]) tail"
proof -
  let ?pre = "(u32_le tot @ concat (map enc_item (take k items))) @ u32_le (fst (items ! k))"
  let ?suf = "concat (map enc_item (drop (Suc k) items)) @ tail"
  have "put_word (?pre @ u32_le (snd (items ! k)) @ ?suf) (8 * k + 8) f = ?pre @ u32_le f @ ?suf"
    using index_fits [OF assms] assms(2) by (intro put_word_at) simp_all
  then show ?thesis
    using assms(2)
    by (simp add: mk_gram_split [OF assms(2)] mk_gram_split [of k "items[k := (fst (items ! k), f)]"])
qed

lemma set_freq_ordered:
  assumes "slice_ok (mk_gram tot items tail)" "length tail < 8" "ordered items"
  shows "set_freq (mk_gram tot items tail) t f =
      (if t \<in> fst ` set items then (True, mk_gram tot (oupdate t f items) tail)
       else (False, mk_gram tot items tail))"
proof (cases "t \<in> fst ` set items")
  case True
  let ?k = "partition_point (below t) items"
  have k: "?k < length items" "fst (items ! ?k) = t" using present_at_pp assms True by auto
  have "set_freq (mk_gram tot items tail) t f = (True, put_word (mk_gram tot items tail) (8 * ?k + 8) f)"
    using assms k index_fits [OF assms(1) k(1)]
    by (simp add: set_freq_def find_item_ordered item_offset_mk checked_add_def Let_def add.commute)
  then show ?thesis
    using put_freq_mk [OF assms(1) k(1)] k oupdate_at_pp [OF assms(3) True] True by simp
next
  case False
  then show ?thesis
    using assms present_at_pp [OF assms(3), of t]
    by (auto simp: set_freq_def find_item_ordered Let_def)
qed

lemma remove_freq_ordered:
  assumes "slice_ok (mk_gram tot items tail)" "length tail < 8" "ordered items"
  shows "remove_freq (mk_gram tot items tail) t =
      (map_of items t, mk_gram tot (oremove t items) tail)"
proof (cases "t \<in> fst ` set items")
  case True
  let ?k = "partition_point (below t) items"
  have k: "?k < length items" "fst (items ! ?k) = t" using present_at_pp assms True by auto
  have "remove_freq (mk_gram tot items tail) t =
      (Some (snd (items ! ?k)), drain (mk_gram tot items tail) (8 * ?k + 4) (8 * ?k + 12))"
    using assms k index_fits [OF assms(1) k(1)]
    by (simp add: remove_freq_def find_item_ordered item_offset_mk item_freq_mk checked_add_def
        Let_def ITEM_LEN_def add.commute)
  then show ?thesis
    using drain_mk [OF k(1)] k oremove_at_pp [OF assms(3) True] map_of_at_pp [OF assms(3), of t]
    by (simp add: Let_def)
next
  case False
  then have "map_of items t = None" by (simp add: map_of_eq_None_iff)
  with False show ?thesis
    using assms present_at_pp [OF assms(3), of t]
    by (auto simp: remove_freq_def find_item_ordered Let_def oremove_absent)
qed

section \<open>The row contract\<close>

text \<open>
  The rows the container's callers keep: a whole total, whole records, tokens strictly ascending.
\<close>

definition gram_ok :: "bytes \<Rightarrow> bool" where
  "gram_ok g \<longleftrightarrow> slice_ok g \<and> TOTAL_LEN \<le> length g \<and> \<not> has_partial_tail g \<and> is_strictly_ordered g"

definition gram_room :: "bytes \<Rightarrow> bool" where
  "gram_room g \<longleftrightarrow> length g + ITEM_LEN < 2 ^ 63"

lemma gram_okE:
  assumes "gram_ok g"
  obtains tot items where "g = mk_gram tot items []" "ordered items" "slice_ok g"
proof -
  from assms have len: "4 \<le> length g" by (simp add: gram_ok_def gram_sizes)
  obtain tot items tail where g: "g = mk_gram tot items tail" "length tail < 8"
    by (rule gram_decompose [OF len])
  with assms have "tail = []" "ordered items" "slice_ok g"
    by (auto simp: gram_ok_def has_partial_tail_mk is_strictly_ordered_mk)
  with g that show thesis by blast
qed

lemma gram_okI: "slice_ok (mk_gram tot items []) \<Longrightarrow> ordered items \<Longrightarrow> gram_ok (mk_gram tot items [])"
  by (simp add: gram_ok_def gram_sizes gram)

lemma slice_ok_fewer:
  "slice_ok (mk_gram tot items tail) \<Longrightarrow> length items' \<le> length items \<Longrightarrow> slice_ok (mk_gram tot' items' tail)"
  by (simp add: slice_ok_def length_mk_gram)

lemma length_oupdate [simp]: "length (oupdate t v xs) = length xs"
  by (simp add: oupdate_def)

lemma length_oremove: "length (oremove t xs) \<le> length xs"
  by (simp add: oremove_def)

lemma length_oinsert [simp]: "length (oinsert t v xs) = Suc (length xs)"
  using length_append [of "takeWhile (below t) xs" "dropWhile (below t) xs"]
  by (simp add: oinsert_def)

interpretation gram_row: token_row retrieve_all gram_ok gram_room get_freq insert_freq set_freq remove_freq
proof (unfold_locales, goal_cases)
  case (1 g)
  then show ?case by (auto elim!: gram_okE simp: retrieve_all_mk)
next
  case (2 g t)
  then show ?case by (auto elim!: gram_okE simp: retrieve_all_mk get_freq_ordered)
next
  case (3 g t v)
  then show ?case by (elim gram_okE) (simp add: retrieve_all_mk insert_freq_ordered)
next
  case (4 g t v)
  then obtain tot items where g: "g = mk_gram tot items []" "ordered items" "slice_ok g"
    by (auto elim: gram_okE)
  moreover have "slice_ok (mk_gram tot (oinsert t v items) [])"
    using 4(2) g(1) by (simp add: gram_room_def slice_ok_def length_mk_gram gram_sizes)
  ultimately show ?case
    using 4(3) by (simp add: retrieve_all_mk insert_freq_ordered gram_okI ordered_oinsert)
next
  case (5 g t v)
  then obtain tot items where g: "g = mk_gram tot items []" "ordered items" "slice_ok g"
    by (auto elim: gram_okE)
  moreover have "slice_ok (mk_gram tot (oupdate t v items) [])"
    using g by (auto intro: slice_ok_fewer)
  ultimately show ?case
    using 5(2) by (simp add: retrieve_all_mk set_freq_ordered gram_okI ordered_oupdate)
next
  case (6 g t v)
  then show ?case by (auto elim!: gram_okE simp: retrieve_all_mk set_freq_ordered)
next
  case (7 g t)
  then obtain tot items where g: "g = mk_gram tot items []" "ordered items" "slice_ok g"
    by (auto elim: gram_okE)
  moreover have "slice_ok (mk_gram tot (oremove t items) [])"
    using g length_oremove [of t items] by (auto intro: slice_ok_fewer)
  ultimately show ?case
    by (simp add: retrieve_all_mk remove_freq_ordered gram_okI ordered_oremove)
next
  case (8 g t)
  then show ?case
    by (auto elim!: gram_okE simp: retrieve_all_mk remove_freq_ordered oremove_absent map_of_eq_None_iff)
qed

section \<open>Masking\<close>

definition keeps :: "u32 \<Rightarrow> u32 \<Rightarrow> u32 \<times> u32 \<Rightarrow> bool" where
  "keeps msk v e \<longleftrightarrow> fst e AND msk \<noteq> v"

lemma mask_loop_mk:
  assumes "slice_ok (mk_gram tot (done @ todo) tail)" "length tail < 8"
  shows "mask_loop msk v (mk_gram tot (done @ todo) tail) (length done) acc removed =
      Some (mk_gram tot (done @ filter (keeps msk v) todo) tail,
            acc - sum_list (map snd (filter (\<lambda>e. \<not> keeps msk v e) todo)),
            removed + of_nat (length (filter (\<lambda>e. \<not> keeps msk v e) todo)))"
  using assms
proof (induction todo arbitrary: "done" acc removed)
  case Nil
  then show ?case by (subst mask_loop.simps) (simp add: gram)
next
  case (Cons e todo)
  let ?g = "mk_gram tot (done @ e # todo) tail"
  have at: "item_token ?g (length done) = Some (fst e)" "item_freq ?g (length done) = Some (snd e)"
    "item_offset (length done) = Some (8 * length done + 4)"
    using Cons.prems item_offset_mk [OF Cons.prems(1), of "length done"] by (simp_all add: gram)
  show ?case
  proof (cases "keeps msk v e")
    case True
    have "mask_loop msk v ?g (length done) acc removed =
        mask_loop msk v (mk_gram tot ((done @ [e]) @ todo) tail) (length (done @ [e])) acc removed"
      using at True Cons.prems by (subst mask_loop.simps) (simp add: gram keeps_def)
    also have "\<dots> = Some (mk_gram tot ((done @ [e]) @ filter (keeps msk v) todo) tail,
        acc - sum_list (map snd (filter (\<lambda>e. \<not> keeps msk v e) todo)),
        removed + of_nat (length (filter (\<lambda>e. \<not> keeps msk v e) todo)))"
      using Cons.prems by (intro Cons.IH) simp_all
    finally show ?thesis using True by simp
  next
    case False
    have fits: "saturating_add (8 * length done + 4) ITEM_LEN = 8 * length done + 12"
      using index_fits [OF Cons.prems(1), of "length done"]
      by (simp add: saturating_add_def ITEM_LEN_def)
    have "mask_loop msk v ?g (length done) acc removed =
        mask_loop msk v (drain ?g (8 * length done + 4) (8 * length done + 12)) (length done)
          (acc - snd e) (removed + 1)"
      using at False fits Cons.prems by (subst mask_loop.simps) (simp add: gram keeps_def)
    also have "drain ?g (8 * length done + 4) (8 * length done + 12) = mk_gram tot (done @ todo) tail"
      using drain_mk [of "length done" "done @ e # todo" tot tail] by simp
    also have "mask_loop msk v (mk_gram tot (done @ todo) tail) (length done) (acc - snd e) (removed + 1) =
        Some (mk_gram tot (done @ filter (keeps msk v) todo) tail,
          acc - snd e - sum_list (map snd (filter (\<lambda>e. \<not> keeps msk v e) todo)),
          removed + 1 + of_nat (length (filter (\<lambda>e. \<not> keeps msk v e) todo)))"
      using Cons.prems by (intro Cons.IH) (auto intro: slice_ok_fewer)
    finally show ?thesis using False by (simp add: algebra_simps)
  qed
qed

lemma mask_out_mk:
  assumes "slice_ok (mk_gram tot items tail)" "length tail < 8"
  shows "mask_out (mk_gram tot items tail) msk v =
      Some (of_nat (length (filter (\<lambda>e. \<not> keeps msk v e) items)),
            mk_gram (tot - sum_list (map snd (filter (\<lambda>e. \<not> keeps msk v e) items)))
              (filter (keeps msk v) items) tail)"
  using mask_loop_mk [of tot "[]" items tail msk v tot 0] assms
  by (simp add: mask_out_def gram)

section \<open>Merging two rows\<close>

text \<open>The merge on item lists, which the byte loops implement.\<close>

fun merge_items :: "(u32 \<times> u32) list \<Rightarrow> (u32 \<times> u32) list \<Rightarrow> (u32 \<times> u32) list" where
  "merge_items [] us = us"
| "merge_items ss [] = ss"
| "merge_items (s # ss) (u # us) =
     (if fst s < fst u then s # merge_items ss (u # us)
      else if fst u < fst s then u # merge_items (s # ss) us
      else (fst s, snd s + snd u) # merge_items ss us)"

lemma merge_items_Nil2 [simp]: "merge_items ss [] = ss"
  by (cases ss) auto

lemma append_item_mk: "append_item (mk_gram tot items []) t f = mk_gram tot (items @ [(t, f)]) []"
  by (simp add: append_item_def mk_gram_def enc_item_def)

lemma item_or_zero_mk:
  assumes "slice_ok (mk_gram tot items tail)" "length tail < 8" "i < length items"
  shows "item_or_zero (mk_gram tot items tail) i = items ! i"
  using assms by (simp add: item_or_zero_def opt_or_zero_def gram)

lemma append_rest_mk:
  assumes "slice_ok (mk_gram tot items tail)" "length tail < 8" "set idx \<subseteq> {..< length items}"
  shows "append_rest (mk_gram tot items tail) idx (mk_gram t out []) =
      mk_gram t (out @ map (\<lambda>i. items ! i) idx) []"
  using assms
  by (induction idx arbitrary: out) (auto simp: item_or_zero_mk append_item_mk case_prod_unfold)

lemma map_nth_rest: "map (\<lambda>j. items ! j) [i ..< length items] = drop i items"
  by (rule nth_equalityI) auto

definition append_rests :: "bytes \<Rightarrow> bytes \<Rightarrow> bytes \<times> nat \<times> nat \<Rightarrow> bytes" where
  "append_rests system user = (\<lambda>(merged, left, right).
     append_rest user [right ..< get_length user] (append_rest system [left ..< get_length system] merged))"

lemma merge_rows_alt:
  "merge_rows system user = append_rests system user (merge_loop system user 0 0
     (u32_le (opt_or_zero (get_total_freq system) + opt_or_zero (get_total_freq user))))"
  by (simp add: merge_rows_def append_rests_def Let_def case_prod_unfold)

lemma append_rests_mk:
  assumes "slice_ok (mk_gram st ss stail)" "length stail < 8"
    and "slice_ok (mk_gram ut us utail)" "length utail < 8"
  shows "append_rests (mk_gram st ss stail) (mk_gram ut us utail) (mk_gram t out [], left, right) =
      mk_gram t (out @ drop left ss @ drop right us) []"
  using assms by (simp add: append_rests_def get_length_mk append_rest_mk map_nth_rest subset_eq)

lemma merge_loop_mk:
  assumes s: "slice_ok (mk_gram st ss stail)" "length stail < 8"
    and u: "slice_ok (mk_gram ut us utail)" "length utail < 8"
  defines "S \<equiv> mk_gram st ss stail" and "U \<equiv> mk_gram ut us utail"
  shows "append_rests S U (merge_loop S U left right (mk_gram t out [])) =
      mk_gram t (out @ merge_items (drop left ss) (drop right us)) []"
proof (induction "(length ss - left) + (length us - right)" arbitrary: left right out rule: less_induct)
  case less
  show ?case
  proof (cases "left < length ss \<and> right < length us")
    case False
    then have "merge_loop S U left right (mk_gram t out []) = (mk_gram t out [], left, right)"
      by (subst merge_loop.simps) (auto simp: S_def U_def get_length_mk s u)
    then show ?thesis
      using False append_rests_mk [OF s u, of t out left right] by (auto simp: S_def U_def)
  next
    case True
    define a b where "a = ss ! left" and "b = us ! right"
    have dl: "drop left ss = a # drop (Suc left) ss" and dr: "drop right us = b # drop (Suc right) us"
      using True by (simp_all add: a_def b_def Cons_nth_drop_Suc)
    have step: "merge_loop S U left right (mk_gram t out []) =
        (if fst a < fst b then merge_loop S U (Suc left) right (mk_gram t (out @ [a]) [])
         else if fst b < fst a then merge_loop S U left (Suc right) (mk_gram t (out @ [b]) [])
         else merge_loop S U (Suc left) (Suc right) (mk_gram t (out @ [(fst a, snd a + snd b)]) []))"
      using True s u
      by (subst merge_loop.simps)
         (simp add: S_def U_def get_length_mk item_or_zero_mk append_item_mk a_def b_def
            case_prod_unfold Let_def)
    have IH: "append_rests S U (merge_loop S U l r (mk_gram t o' [])) =
        mk_gram t (o' @ merge_items (drop l ss) (drop r us)) []"
      if "left \<le> l" "right \<le> r" "left < l \<or> right < r" for l r o'
      using that True by (intro less.hyps) auto
    show ?thesis
      unfolding step dl dr by (simp add: IH dl dr)
  qed
qed

lemma merge_rows_mk:
  assumes s: "slice_ok (mk_gram st ss stail)" "length stail < 8"
    and u: "slice_ok (mk_gram ut us utail)" "length utail < 8"
  shows "merge_rows (mk_gram st ss stail) (mk_gram ut us utail) = mk_gram (st + ut) (merge_items ss us) []"
  using merge_loop_mk [OF s u, of 0 0 "st + ut" "[]"]
  by (simp add: merge_rows_alt get_total_freq_mk opt_or_zero_def mk_gram_def [of _ "[]"])

lemma merge_items_keys: "fst ` set (merge_items ss us) = fst ` set ss \<union> fst ` set us"
  by (induction ss us rule: merge_items.induct) (auto simp: image_iff)

lemma merge_items_above:
  "\<forall>e \<in> set ss. x < fst e \<Longrightarrow> \<forall>e \<in> set us. x < fst e \<Longrightarrow> \<forall>e \<in> set (merge_items ss us). x < fst e"
  by (induction ss us rule: merge_items.induct) auto

lemma ordered_merge_items: "ordered ss \<Longrightarrow> ordered us \<Longrightarrow> ordered (merge_items ss us)"
proof (induction ss us rule: merge_items.induct)
  case (3 s ss u us)
  note above = merge_items_above [of ss "fst s" "u # us"] merge_items_above [of "s # ss" "fst u" us]
    merge_items_above [of ss "fst s" us]
  have os: "\<forall>e \<in> set ss. fst s < fst e" "ordered ss" and ou: "\<forall>e \<in> set us. fst u < fst e" "ordered us"
    using "3.prems" by (auto simp: ordered_Cons)
  consider "fst s < fst u" | "fst u < fst s" | "fst s = fst u" by force
  then show ?case
  proof cases
    case 1
    then have "\<forall>e \<in> set (u # us). fst s < fst e" using ou by auto
    with 1 above(1) os have "\<forall>e \<in> set (merge_items ss (u # us)). fst s < fst e" by blast
    with 1 os "3.IH"(1) "3.prems" show ?thesis by (simp add: ordered_Cons)
  next
    case 2
    then have "\<forall>e \<in> set (s # ss). fst u < fst e" using os by auto
    with 2 above(2) ou have "\<forall>e \<in> set (merge_items (s # ss) us). fst u < fst e" by blast
    moreover have "\<not> fst s < fst u" using 2 by simp
    ultimately show ?thesis using 2 ou "3.IH"(2) "3.prems" by (simp add: ordered_Cons)
  next
    case 3
    with above(3) os ou "3.IH"(3) show ?thesis by (simp add: ordered_Cons)
  qed
qed simp_all

lemma map_of_above:
  fixes k :: u32
  shows "\<forall>e \<in> set xs. k < fst e \<Longrightarrow> map_of xs k = None"
  by (fastforce simp: map_of_eq_None_iff)

definition sum_freqs :: "u32 option \<Rightarrow> u32 option \<Rightarrow> u32 option" where
  "sum_freqs a b = (case (a, b) of
     (Some x, Some y) \<Rightarrow> Some (x + y) | (freq, None) \<Rightarrow> freq | (None, freq) \<Rightarrow> freq)"

lemma map_of_merge_items:
  "ordered ss \<Longrightarrow> ordered us \<Longrightarrow>
   map_of (merge_items ss us) t = sum_freqs (map_of ss t) (map_of us t)"
proof (induction ss us rule: merge_items.induct)
  case (3 s ss u us)
  have os: "\<forall>e \<in> set ss. fst s < fst e" "ordered ss" and ou: "\<forall>e \<in> set us. fst u < fst e" "ordered us"
    using "3.prems" by (auto simp: ordered_Cons)
  have sm: "map_of (e # xs) k = (if k = fst e then Some (snd e) else map_of xs k)"
    for e k and xs :: "(u32 \<times> u32) list"
    by (cases e) auto
  consider "fst s < fst u" | "fst u < fst s" | "fst s = fst u" by force
  then show ?case
  proof cases
    case 1
    then have "map_of (u # us) (fst s) = None" using ou by (intro map_of_above) auto
    with 1 "3.IH"(1) os "3.prems" show ?thesis
      by (auto simp: sm sum_freqs_def simp del: map_of.simps)
  next
    case 2
    then have "map_of (s # ss) (fst u) = None" using os by (intro map_of_above) auto
    with 2 "3.IH"(2) ou "3.prems" show ?thesis
      by (auto simp: sm sum_freqs_def simp del: map_of.simps split: option.splits)
  next
    case 3
    with "3.IH"(3) os ou show ?thesis
      by (auto simp: sm sum_freqs_def simp del: map_of.simps split: option.splits)
  qed
qed (auto simp: sum_freqs_def split: option.splits)

section \<open>Searches and the accesses that report faults\<close>

lemma search_mk:
  assumes "slice_ok (mk_gram tot items tail)" "length tail < 8"
  shows "search (mk_gram tot items tail) b e =
      takeWhile (below e) (drop (partition_point (below b) items) items)"
proof -
  have "map_while (item_pair (mk_gram tot items tail)) [k ..< length items] =
      map (\<lambda>i. items ! i) [k ..< length items]" for k
    using assms by (intro map_while_total) (simp add: gram)
  moreover have "(\<lambda>(token :: u32, _ :: u32). token < e) = below e" by (auto simp: below_def)
  ultimately show ?thesis using assms by (simp add: search_def gram map_nth_rest)
qed

lemma checked_search_walk_mk:
  "checked_search_walk (map enc_item items) tail e out =
     (if tail \<noteq> [] \<and> (\<forall>i \<in> set items. below e i) then Inl OverRead else Inr (),
      out @ takeWhile (below e) items)"
  by (induction items arbitrary: out) (auto simp: below_def Let_def not_le)

lemma checked_search_mk:
  assumes "length tail < 8"
  shows "checked_search (mk_gram tot items tail) b e out =
     (if tail \<noteq> [] \<and> (\<forall>i \<in> set (drop (partition_point (below b) items) items). below e i)
      then Inl OverRead else Inr (),
      out @ takeWhile (below e) (drop (partition_point (below b) items) items))"
  using checked_search_walk_mk [of "drop (partition_point (below b) items) items"] assms
  by (simp add: checked_search_def records_mk lower_bound_records_mk drop_map)

lemma checked_get_walk_find:
  assumes "\<forall>i \<in> set idx. item_token gram i \<noteq> None \<and> item_freq gram i \<noteq> None"
  shows "checked_get_walk gram token idx =
      (if has_partial_tail gram \<and> (\<forall>i \<in> set idx. the (item_token gram i) < token)
       then Inl OverRead
       else Inr (Option.bind (find_walk gram token idx) (item_freq gram)))"
  using assms by (induction idx) (auto split: option.splits)

lemma side_mk: "length tail < 8 \<Longrightarrow>
    search_side (mk_gram tot items tail) b = drop (partition_point (below b) items) items"
  by (simp add: search_side_def records_mk lower_bound_records_mk drop_map map_idI Let_def)

lemma search_merged_loop_items:
  assumes "ordered ss" "ordered us"
  shows "search_merged_loop ss us e out = out @ takeWhile (below e) (merge_items ss us)"
  using assms
  by (induction ss us e out rule: search_merged_loop.induct)
     (auto simp: below_def not_le ordered_Cons)

lemma takeWhile_below_ordered: "ordered xs \<Longrightarrow> takeWhile (below e) xs = filter (below e) xs"
proof (induction xs)
  case (Cons x xs)
  moreover have "\<not> below e x \<Longrightarrow> \<forall>y \<in> set xs. \<not> below e y"
    using Cons.prems by (force simp: ordered_Cons below_def)
  ultimately show ?case by (auto simp: ordered_Cons filter_empty_conv)
qed simp

lemma dropWhile_below_ordered: "ordered xs \<Longrightarrow> dropWhile (below b) xs = filter (\<lambda>x. \<not> below b x) xs"
  by (induction xs) (force simp: ordered_Cons below_def intro!: filter_True [symmetric])+

lemma filter_merge_items:
  assumes "ordered ss" "ordered us"
  shows "filter (\<lambda>x. \<not> below b x) (merge_items ss us) =
      merge_items (filter (\<lambda>x. \<not> below b x) ss) (filter (\<lambda>x. \<not> below b x) us)"
  using assms
  by (induction ss us rule: merge_items.induct) (auto simp: ordered_Cons below_def)

lemma search_merged_mk:
  assumes "length stail < 8" "length utail < 8" "ordered ss" "ordered us"
  shows "search_merged (mk_gram st ss stail) (mk_gram ut us utail) b e out =
      out @ takeWhile (below e) (drop (partition_point (below b) (merge_items ss us)) (merge_items ss us))"
  using assms ordered_merge_items [OF assms(3,4)]
  by (simp add: search_merged_def side_mk std_pp.drop_pp ordered_partitioned dropWhile_below_ordered
      search_merged_loop_items ordered_filter filter_merge_items)

section \<open>Properties\<close>

text \<open>C8: inserting into a well-formed row. \<open>insert_freq\<close> answers whether the token was absent; the
  row stays well-formed with its total untouched; afterwards the token reads back (the new
  frequency, or the old one when it was already there) and every other token reads as before; and
  removing a freshly inserted token answers its frequency and restores the very same bytes.\<close>

theorem insert_freq_row:
  assumes "gram_ok g" "gram_room g"
  shows "(fst (insert_freq g t f) \<longleftrightarrow> get_freq g t = None) \<and>
    gram_ok (snd (insert_freq g t f)) \<and>
    get_total_freq (snd (insert_freq g t f)) = get_total_freq g \<and>
    get_freq (snd (insert_freq g t f)) k =
      (if k = t then Some (case get_freq g t of Some w \<Rightarrow> w | None \<Rightarrow> f) else get_freq g k) \<and>
    (get_freq g t = None \<longrightarrow> remove_freq (snd (insert_freq g t f)) t = (Some f, g))"
proof (intro conjI impI)
  obtain tot items where g: "g = mk_gram tot items []" "ordered items" "slice_ok g"
    using assms(1) by (rule gram_okE)
  show "fst (insert_freq g t f) \<longleftrightarrow> get_freq g t = None"
    using assms by (rule gram_row.ins_flag)
  show "gram_ok (snd (insert_freq g t f))" using assms by (rule gram_row.ins_inv)
  show "get_total_freq (snd (insert_freq g t f)) = get_total_freq g"
    using g by (simp add: insert_freq_ordered get_total_freq_mk)
  show "get_freq (snd (insert_freq g t f)) k =
      (if k = t then Some (case get_freq g t of Some w \<Rightarrow> w | None \<Rightarrow> f) else get_freq g k)"
    using assms by (rule gram_row.get_ins)
  assume absent: "get_freq g t = None"
  then have t: "t \<notin> fst ` set items"
    using gram_row.present_iff [OF assms(1), of t] g by (simp add: retrieve_all_mk)
  have ok: "gram_ok (mk_gram tot (oinsert t f items) [])"
    using gram_row.ins_inv [OF assms, of t f] g t by (simp add: insert_freq_ordered)
  have "remove_freq (mk_gram tot (oinsert t f items) []) t =
      (map_of (oinsert t f items) t, mk_gram tot (oremove t (oinsert t f items)) [])"
    using ok g(2) t by (intro remove_freq_ordered) (simp_all add: gram_ok_def ordered_oinsert)
  then show "remove_freq (snd (insert_freq g t f)) t = (Some f, g)"
    using g t by (simp add: insert_freq_ordered map_of_oinsert oremove_oinsert)
qed

definition sample_row :: bytes where
  "sample_row = [9,0,0,0, 5,0,0,0, 3,0,0,0, 7,0,0,1, 6,0,0,0]"

lemma sample_row_items: "sample_row = mk_gram 9 [(5, 3), (0x1000007, 6)] []"
  by code_simp

lemma sample_row_ok: "gram_ok sample_row" "gram_room sample_row"
  by (simp_all add: sample_row_items gram_okI slice_ok_def gram_room_def gram ITEM_LEN_def ordered_def)

lemma sample_row_get: "get_freq sample_row t = map_of [(5, 3), (0x1000007, 6)] t"
  unfolding sample_row_items
  by (rule get_freq_ordered) (simp_all add: slice_ok_def length_mk_gram ordered_def)

theorem insert_freq_row_witness:
  "gram_ok sample_row \<and> gram_room sample_row \<and> get_freq sample_row 6 = None \<and>
   remove_freq (snd (insert_freq sample_row 6 11)) 6 = (Some 11, sample_row)"
proof -
  have "get_freq sample_row 6 = None" by (simp add: sample_row_get)
  then show ?thesis
    using insert_freq_row [OF sample_row_ok, of 6 11 0] sample_row_ok by blast
qed

text \<open>C9: replacing and removing in a well-formed row. \<open>set_freq\<close> answers whether the token is there
  and changes that token's frequency only; \<open>remove_freq\<close> answers the frequency it removes and
  forgets that token only; both keep the row well-formed and leave the stored total alone.\<close>

theorem set_remove_row:
  assumes "gram_ok g"
  shows "fst (set_freq g t f) = (get_freq g t \<noteq> None) \<and> gram_ok (snd (set_freq g t f)) \<and>
    get_freq (snd (set_freq g t f)) k = (if k = t then map_option (\<lambda>_. f) (get_freq g t) else get_freq g k) \<and>
    get_total_freq (snd (set_freq g t f)) = get_total_freq g \<and>
    fst (remove_freq g t) = get_freq g t \<and> gram_ok (snd (remove_freq g t)) \<and>
    get_freq (snd (remove_freq g t)) k = (if k = t then None else get_freq g k) \<and>
    get_total_freq (snd (remove_freq g t)) = get_total_freq g"
proof -
  obtain tot items where g: "g = mk_gram tot items []" "ordered items" "slice_ok g"
    using assms by (rule gram_okE)
  have "get_total_freq (snd (set_freq g t f)) = get_total_freq g"
    "get_total_freq (snd (remove_freq g t)) = get_total_freq g"
    using g by (simp_all add: set_freq_ordered remove_freq_ordered get_total_freq_mk)
  moreover have "fst (set_freq g t f) = (get_freq g t \<noteq> None)"
    using g by (simp add: set_freq_ordered get_freq_ordered map_of_eq_None_iff)
  ultimately show ?thesis
    using assms gram_row.upd_inv gram_row.del_inv gram_row.get_upd gram_row.get_del by blast
qed

theorem set_remove_row_witness:
  "fst (set_freq sample_row 5 8) \<and> get_freq (snd (set_freq sample_row 5 8)) 5 = Some 8 \<and>
   fst (remove_freq sample_row 5) = Some 3 \<and> get_freq (snd (remove_freq sample_row 5)) 5 = None"
  using set_remove_row [OF sample_row_ok(1), of 5 8 5] by (simp add: sample_row_get)

text \<open>C10: \<open>mask_out\<close> stops on every value and, on any value with a whole total, well-formed or not,
  drops exactly the items whose masked token is the value, keeps the others in stored order with
  the bytes after them, subtracts the dropped frequencies from the total modulo \<open>2\<^sup>32\<close>, and counts
  them; a value shorter than its total is left alone.\<close>

theorem mask_out_effect:
  assumes "slice_ok g"
  shows "\<exists>removed g'. mask_out g msk v = Some (removed, g') \<and>
    (if length g < TOTAL_LEN then removed = 0 \<and> g' = g
     else let gone = filter (\<lambda>e. fst e AND msk = v) (retrieve_all g) in
       retrieve_all g' = filter (\<lambda>e. fst e AND msk \<noteq> v) (retrieve_all g) \<and>
       get_total_freq g' = map_option (\<lambda>tot. tot - sum_list (map snd gone)) (get_total_freq g) \<and>
       removed = of_nat (length gone) \<and>
       length g' + ITEM_LEN * length gone = length g \<and>
       (is_strictly_ordered g \<longrightarrow> is_strictly_ordered g'))"
proof (cases "length g < 4")
  case True
  then show ?thesis by (simp add: mask_out_def get_total_freq_def gram_sizes)
next
  case False
  then obtain tot items tail where g: "g = mk_gram tot items tail" "length tail < 8"
    using gram_decompose [of g] by (metis not_less)
  note ok = assms [unfolded g(1)]
  let ?kept = "filter (keeps msk v) items"
  have ok': "slice_ok (mk_gram t ?kept tail)" for t
    using ok by (rule slice_ok_fewer) simp
  have lens: "length ?kept + length (filter (\<lambda>e. fst e AND msk = v) items) = length items"
    using sum_length_filter_compl [of "keeps msk v" items] by (simp add: keeps_def)
  have k: "filter (\<lambda>e. fst e AND msk \<noteq> v) items = ?kept" "filter (\<lambda>e. \<not> keeps msk v e) items =
      filter (\<lambda>e. fst e AND msk = v) items"
    by (simp_all add: keeps_def [abs_def])
  show ?thesis
    unfolding g(1) mask_out_mk [OF ok g(2)]
    using lens g(2) by (simp add: gram ok ok' k gram_sizes Let_def ordered_filter)
qed

theorem mask_out_effect_witness:
  "\<exists>removed g'. mask_out sample_row 0xff000000 0x1000000 = Some (removed, g') \<and>
     retrieve_all g' = [(5, 3)] \<and> get_total_freq g' = Some 3 \<and> removed = 1 \<and> length g' = 12"
proof -
  have "slice_ok sample_row" using sample_row_ok by (simp add: gram_ok_def)
  moreover have "retrieve_all sample_row = [(5, 3), (0x1000007, 6)]" "get_total_freq sample_row = Some 9"
    using \<open>slice_ok sample_row\<close> by (simp_all add: sample_row_items gram)
  moreover have "length sample_row = 20" by (simp add: sample_row_def)
  ultimately show ?thesis
    using mask_out_effect [of sample_row "0xff000000" "0x1000000"]
    by (simp add: gram_sizes Let_def) fastforce
qed

text \<open>C11: the merged view. On two well-formed rows, \<open>merge_single_gram\<close> builds a well-formed row whose
  total is the wrapped sum of the totals, on which every lookup answers the wrapped sum of the two
  sides; and the two functions that avoid building it agree with it: \<open>get_freq_merged\<close> with
  \<open>get_freq\<close>, and \<open>search_merged\<close> with \<open>checked_search\<close>, which then never faults.\<close>

theorem merged_view:
  assumes "gram_ok s" "gram_ok u" "length s + length u < 2 ^ 63"
  shows "let (present, m) = merge_single_gram old (Some s) (Some u) in
    present \<and> gram_ok m \<and>
    get_total_freq m = Some (the (get_total_freq s) + the (get_total_freq u)) \<and>
    get_freq m t = get_freq_merged s u t \<and>
    checked_search m b e out = (Inr (), search_merged s u b e out)"
proof -
  obtain st ss where s: "s = mk_gram st ss []" "ordered ss" "slice_ok s"
    using assms(1) by (rule gram_okE)
  obtain ut us where u: "u = mk_gram ut us []" "ordered us" "slice_ok u"
    using assms(2) by (rule gram_okE)
  let ?m = "mk_gram (st + ut) (merge_items ss us) []"
  have m: "merge_rows s u = ?m" using s u by (simp add: merge_rows_mk)
  have "length (merge_items ss us) \<le> length ss + length us"
    by (induction ss us rule: merge_items.induct) auto
  then have ok: "slice_ok ?m" using assms(3) s(1) u(1) by (simp add: slice_ok_def length_mk_gram)
  have om: "ordered (merge_items ss us)" using s u by (simp add: ordered_merge_items)
  have "get_freq ?m t = get_freq_merged s u t"
    using ok om s u map_of_merge_items [OF s(2) u(2), of t]
    by (simp add: get_freq_ordered get_freq_merged_def sum_freqs_def)
  moreover have "checked_search ?m b e out = (Inr (), search_merged s u b e out)"
    using s u by (simp add: checked_search_mk search_merged_mk)
  ultimately show ?thesis
    using m ok om s(1) u(1) by (simp add: merge_single_gram_def gram_okI get_total_freq_mk)
qed

theorem merged_view_witness:
  "let (present, m) = merge_single_gram [] (Some sample_row) (Some sample_row) in
     present \<and> get_total_freq m = Some 18 \<and> get_freq m 5 = Some 6"
  using merged_view [OF sample_row_ok(1) sample_row_ok(1), of "[]" 5]
  by (simp add: sample_row_get get_freq_merged_def case_prod_unfold Let_def)
     (simp add: sample_row_items gram slice_ok_def length_mk_gram)

text \<open>The accesses that report faults, on every value. \<open>checked_get_freq\<close> faults exactly when the
  value is shorter than its total, or when a partial record follows and every record from the
  lower bound on is below the token; otherwise it is \<open>get_freq\<close>. \<open>checked_search\<close> faults exactly
  when the total is missing (\<open>Short\<close>) or the walk reaches a partial record (\<open>OverRead\<close>), and what
  it appends is what \<open>search\<close> answers, faults included.\<close>

theorem checked_accesses:
  assumes "slice_ok g"
  shows "checked_get_freq g t =
      (if length g < TOTAL_LEN \<or>
          has_partial_tail g \<and> (\<forall>e \<in> set (drop (lower_bound g t) (retrieve_all g)). fst e < t)
       then Inl OverRead else Inr (get_freq g t)) \<and>
    checked_search g b e out =
      (if length g < TOTAL_LEN then Inl Short
       else if has_partial_tail g \<and> (\<forall>i \<in> set (drop (lower_bound g b) (retrieve_all g)). fst i < e)
       then Inl OverRead else Inr (), out @ search g b e)"
proof (cases "length g < 4")
  case True
  then show ?thesis
    by (simp add: checked_get_freq_def checked_search_def records_def get_from_def gram_sizes
        search_def get_length_def)
next
  case False
  then obtain tot items tail where g: "g = mk_gram tot items tail" "length tail < 8"
    using gram_decompose [of g] by (metis not_less)
  note ok = assms [unfolded g(1)]
  let ?k = "partition_point (below t) items"
  have "\<forall>i \<in> set [?k ..< length items]. item_token g i \<noteq> None \<and> item_freq g i \<noteq> None"
    using ok g by (simp add: gram)
  moreover have "(\<forall>i \<in> set [?k ..< length items]. the (item_token g i) < t) \<longleftrightarrow>
      (\<forall>e \<in> set (drop ?k items). fst e < t)"
    using ok g unfolding map_nth_rest [symmetric] by (simp add: gram)
  ultimately have "checked_get_freq g t =
      (if tail \<noteq> [] \<and> (\<forall>e \<in> set (drop ?k items). fst e < t) then Inl OverRead else Inr (get_freq g t))"
    using False ok g
    by (simp add: checked_get_freq_def checked_get_walk_find gram gram_sizes get_freq_def find_item_def)
  then show ?thesis
    using False ok g
    by (simp add: gram gram_sizes checked_search_mk search_mk below_def)
qed

end
