(* ===== verification/PhraseText.thy ===== *)
theory PhraseText
  imports OxPrelude
begin

text \<open>
  \<open>crates/oxpinyin-core/src/ucs4.rs\<close>: a phrase's text, kept as ordinary UTF-8 or, when a word is not
  a nonzero Unicode scalar, as the stored UCS-4 words behind their declared count. A \<open>str\<close> is the
  list of its characters (Unicode scalars); its bytes are their UTF-8 encoding, which the ordering
  of two ordinary texts compares while the other cases compare words.
\<close>

section \<open>Strings of the standard library\<close>

type_synonym str = "u32 list"

definition is_scalar :: "u32 \<Rightarrow> bool" where
  "is_scalar w \<longleftrightarrow> w < 0xD800 \<or> 0xDFFF < w \<and> w \<le> 0x10FFFF"

definition char_from_u32 :: "u32 \<Rightarrow> u32 option" where
  "char_from_u32 w = (if is_scalar w then Some w else None)"

definition str_ok :: "str \<Rightarrow> bool" where
  "str_ok s \<longleftrightarrow> (\<forall>c \<in> set s. is_scalar c)"

text \<open>UTF-8, on the code point as a number.\<close>

definition utf8_bytes :: "nat \<Rightarrow> nat list" where
  "utf8_bytes n =
     (if n < 0x80 then [n]
      else if n < 0x800 then [0xC0 + n div 64, 0x80 + n mod 64]
      else if n < 0x10000 then [0xE0 + n div 4096, 0x80 + n div 64 mod 64, 0x80 + n mod 64]
      else [0xF0 + n div 262144, 0x80 + n div 4096 mod 64, 0x80 + n div 64 mod 64, 0x80 + n mod 64])"

definition utf8 :: "u32 \<Rightarrow> bytes" where
  "utf8 c = map of_nat (utf8_bytes (unat c))"

definition as_bytes :: "str \<Rightarrow> bytes" where
  "as_bytes s = concat (map utf8 s)"

text \<open>\<open>Ord::cmp\<close> on slices: lexicographic.\<close>

datatype ordering = Less | Equal | Greater

definition cmp_of :: "'a::linorder \<Rightarrow> 'a \<Rightarrow> ordering" where
  "cmp_of a b = (if a < b then Less else if b < a then Greater else Equal)"

fun lex_cmp :: "'a::linorder list \<Rightarrow> 'a list \<Rightarrow> ordering" where
  "lex_cmp [] [] = Equal"
| "lex_cmp [] (b # bs) = Less"
| "lex_cmp (a # as) [] = Greater"
| "lex_cmp (a # as) (b # bs) = (case cmp_of a b of Equal \<Rightarrow> lex_cmp as bs | c \<Rightarrow> c)"

section \<open>The operations\<close>

datatype text_storage = Scalar str | Stored "u32 list"

type_synonym phrase_text = text_storage

definition u32_max :: u32 where
  "u32_max = 0xFFFFFFFF"

text \<open>\<open>text.split_once('\0').map_or(text, |(prefix, _)| prefix)\<close>, and the first piece of
  \<open>words.split(|&word| word == 0)\<close>: the prefix before the first zero.\<close>

definition scalar_outward :: "str \<Rightarrow> str" where
  "scalar_outward chs = takeWhile (\<lambda>c. c \<noteq> 0) chs"

definition stored_outward :: "u32 list \<Rightarrow> u32 list" where
  "stored_outward buffer = takeWhile (\<lambda>word. word \<noteq> 0) (drop 1 buffer)"

definition stored :: "u32 list \<Rightarrow> nat \<Rightarrow> phrase_text" where
  "stored words len = Stored ((case try_u32 len of Some l \<Rightarrow> l | None \<Rightarrow> u32_max) # words)"

text \<open>The loop of \<open>from_stored_words\<close>, over \<open>(text, raw, past_zero, total)\<close>.\<close>

fun from_stored_loop ::
    "u32 option list \<Rightarrow> str \<Rightarrow> u32 list option \<Rightarrow> bool \<Rightarrow> nat \<Rightarrow> phrase_text option" where
  "from_stored_loop [] chs raw past_zero tot = Some (case raw of
     Some words \<Rightarrow> stored words tot
   | None \<Rightarrow> Scalar chs)"
| "from_stored_loop (None # rest) chs raw past_zero tot = None"
| "from_stored_loop (Some word # rest) chs raw past_zero tot =
     (if \<not> past_zero \<and> 0x80000000 \<le> word then None
      else let tot = saturating_add tot 1; past_zero = (past_zero \<or> word = 0) in
        (case raw of
           Some ws \<Rightarrow> from_stored_loop rest chs (Some (ws @ [word])) past_zero tot
         | None \<Rightarrow>
             (case Option.bind (char_from_u32 word) (\<lambda>c. if word \<noteq> 0 then Some c else None) of
                Some c \<Rightarrow> from_stored_loop rest (chs @ [c]) None past_zero tot
              | None \<Rightarrow> from_stored_loop rest chs (Some (chs @ [word])) past_zero tot)))"

definition from_stored_words :: "u32 option list \<Rightarrow> phrase_text option" where
  "from_stored_words words = from_stored_loop words [] None False 0"

definition from_words :: "u32 list \<Rightarrow> phrase_text option" where
  "from_words words = from_stored_words (map Some words)"

definition from_stored_parts :: "u32 list \<Rightarrow> nat \<Rightarrow> phrase_text" where
  "from_stored_parts words len = stored words len"

definition from_compact :: "str \<Rightarrow> phrase_text" where
  "from_compact chs =
     (if 0 \<in> set (as_bytes chs) then stored chs (length chs) else Scalar chs)"

fun as_str :: "phrase_text \<Rightarrow> str option" where
  "as_str (Scalar chs) = Some chs"
| "as_str (Stored _) = None"

fun outward_bytes :: "phrase_text \<Rightarrow> bytes option" where
  "outward_bytes (Scalar chs) = Some (as_bytes chs)"
| "outward_bytes (Stored _) = None"

fun stored_words :: "phrase_text \<Rightarrow> u32 list option" where
  "stored_words (Stored buffer) = Some (drop 1 buffer)"
| "stored_words (Scalar _) = None"

fun outward_words :: "phrase_text \<Rightarrow> u32 list" where
  "outward_words (Stored buffer) = stored_outward buffer"
| "outward_words (Scalar chs) = chs"

fun phrase_length :: "phrase_text \<Rightarrow> nat" where
  "phrase_length (Scalar chs) = length chs"
| "phrase_length (Stored buffer) =
     (let first = (case buffer of [] \<Rightarrow> 0 | l # _ \<Rightarrow> l)
      in if first = 0 then length buffer - 1 else unat first)"

definition skip_chars :: "phrase_text \<Rightarrow> nat \<Rightarrow> phrase_text" where
  "skip_chars t count = (case as_str t of
     Some chs \<Rightarrow> from_compact (drop count chs)
   | None \<Rightarrow> stored (drop count (outward_words t)) (phrase_length t - count))"

fun char_count :: "phrase_text \<Rightarrow> nat option" where
  "char_count (Stored _) = None"
| "char_count (Scalar chs) = Some (phrase_length (Scalar chs))"

definition text_is_empty :: "phrase_text \<Rightarrow> bool" where
  "text_is_empty t = (case outward_bytes t of
     None \<Rightarrow> outward_words t = []
   | Some bs \<Rightarrow> bs = [])"

subsection \<open>Concatenation\<close>

record phrase_text_concat =
  concat_scalar :: str
  concat_words :: "u32 list option"
  concat_len :: nat

definition concat_new :: phrase_text_concat where
  "concat_new = \<lparr>concat_scalar = [], concat_words = None, concat_len = 0\<rparr>"

definition switch_to_words :: "phrase_text_concat \<Rightarrow> phrase_text_concat" where
  "switch_to_words c = (case concat_words c of
     None \<Rightarrow> c\<lparr>concat_scalar := [], concat_words := Some (concat_scalar c)\<rparr>
   | Some _ \<Rightarrow> c)"

definition push :: "phrase_text_concat \<Rightarrow> phrase_text \<Rightarrow> phrase_text_concat" where
  "push c part =
     (let c = c\<lparr>concat_len := saturating_add (concat_len c) (phrase_length part)\<rparr> in
      (case part of
         Stored _ \<Rightarrow>
           (let c = switch_to_words c in
            (case concat_words c of
               Some ws \<Rightarrow> c\<lparr>concat_words := Some (ws @ outward_words part)\<rparr>
             | None \<Rightarrow> c))
       | Scalar _ \<Rightarrow>
           (case concat_words c of
              Some ws \<Rightarrow> c\<lparr>concat_words := Some (ws @ outward_words part)\<rparr>
            | None \<Rightarrow>
                (case as_str part of
                   Some chs \<Rightarrow> c\<lparr>concat_scalar := concat_scalar c @ chs\<rparr>
                 | None \<Rightarrow> c))))"

definition finish :: "phrase_text_concat \<Rightarrow> phrase_text" where
  "finish c = (case concat_words c of
     Some ws \<Rightarrow> from_stored_parts ws (concat_len c)
   | None \<Rightarrow> Scalar (concat_scalar c))"

subsection \<open>Equality, order and hash\<close>

fun eq_stored :: "phrase_text \<Rightarrow> phrase_text \<Rightarrow> bool" where
  "eq_stored (Stored left) (Stored right) \<longleftrightarrow> stored_outward left = stored_outward right"
| "eq_stored a b \<longleftrightarrow> outward_words a = outward_words b"

definition text_eq :: "phrase_text \<Rightarrow> phrase_text \<Rightarrow> bool" where
  "text_eq a b = (case (as_str a, as_str b) of
     (Some left, Some right) \<Rightarrow> as_bytes left = as_bytes right
   | _ \<Rightarrow> eq_stored a b)"

definition text_eq_str :: "phrase_text \<Rightarrow> str \<Rightarrow> bool" where
  "text_eq_str a other =
     (let other = scalar_outward other in
      (case outward_bytes a of
         Some bs \<Rightarrow> bs = as_bytes other
       | None \<Rightarrow> outward_words a = other))"

definition text_cmp :: "phrase_text \<Rightarrow> phrase_text \<Rightarrow> ordering" where
  "text_cmp a b = (case (as_str a, as_str b) of
     (Some left, Some right) \<Rightarrow> lex_cmp (as_bytes left) (as_bytes right)
   | _ \<Rightarrow>
       (case (a, b) of
          (Stored left, Stored right) \<Rightarrow> lex_cmp (stored_outward left) (stored_outward right)
        | _ \<Rightarrow> lex_cmp (outward_words a) (outward_words b)))"

text \<open>What \<open>hash\<close> feeds the hasher, which is the caller's.\<close>

datatype hash_write = HashStr bytes | HashU8 u8 | HashWords "u32 list"

fun text_hash :: "phrase_text \<Rightarrow> hash_write list" where
  "text_hash (Scalar chs) = [HashStr (as_bytes chs)]"
| "text_hash (Stored buffer) =
     (let ws = stored_outward buffer in
      (case those (map char_from_u32 ws) of
         Some chs \<Rightarrow> [HashStr (as_bytes chs)]
       | None \<Rightarrow> [HashU8 1, HashWords ws]))"

section \<open>UTF-8 keeps the order of code points\<close>

definition then_cmp :: "ordering \<Rightarrow> ordering \<Rightarrow> ordering" where
  "then_cmp c d = (case c of Equal \<Rightarrow> d | _ \<Rightarrow> c)"

lemma then_cmp_simps [simp]:
  "then_cmp Equal d = d" "then_cmp Less d = Less" "then_cmp Greater d = Greater" "then_cmp c Equal = c"
  by (cases c; simp add: then_cmp_def)+

lemma then_cmp_assoc: "then_cmp (then_cmp a b) c = then_cmp a (then_cmp b c)"
  by (cases a) simp_all

lemma lex_cmp_Cons: "lex_cmp (a # as) (b # bs) = then_cmp (cmp_of a b) (lex_cmp as bs)"
  by (cases "cmp_of a b") simp_all

declare lex_cmp.simps(4) [simp del]
declare lex_cmp_Cons [simp]

lemma cmp_of_Equal [simp]: "cmp_of a b = Equal \<longleftrightarrow> a = b"
  by (auto simp: cmp_of_def)

lemma cmp_of_refl [simp]: "cmp_of a a = Equal"
  by simp

lemma lex_cmp_Equal: "lex_cmp xs ys = Equal \<longleftrightarrow> xs = ys"
  by (induction xs ys rule: lex_cmp.induct) (auto simp: then_cmp_def split: ordering.splits)

lemma cmp_of_digits:
  "cmp_of n m = then_cmp (cmp_of (n div 64) (m div 64)) (cmp_of (n mod 64) (m mod (64 :: nat)))"
proof -
  define a b c d where "a = n div 64" and "b = n mod 64" and "c = m div 64" and "d = m mod 64"
  have "n = 64 * a + b" "m = 64 * c + d" "b < 64" "d < 64" by (simp_all add: a_def b_def c_def d_def)
  then show ?thesis
    unfolding a_def [symmetric] b_def [symmetric] c_def [symmetric] d_def [symmetric]
    by (auto simp: cmp_of_def then_cmp_def split: ordering.splits if_splits)
qed

lemma cmp_of_shift: "cmp_of (k + a) (k + b) = cmp_of a (b :: nat)"
  by (simp add: cmp_of_def)

lemma utf8_bytes_shorter:
  assumes "length (utf8_bytes n) < length (utf8_bytes m)" "m < 0x110000"
  shows "n < m \<and> hd (utf8_bytes n) < hd (utf8_bytes m)"
  using assms by (auto simp: utf8_bytes_def split: if_splits)

lemma utf8_bytes_same:
  assumes "length (utf8_bytes n) = length (utf8_bytes m)"
  shows "lex_cmp (utf8_bytes n @ xs) (utf8_bytes m @ ys) = then_cmp (cmp_of n m) (lex_cmp xs ys)"
proof -
  have d: "k div 4096 = k div 64 div 64" "k div 262144 = k div 64 div 64 div 64" for k :: nat
    by (simp_all add: div_mult2_eq [symmetric])
  consider "n < 0x80" "m < 0x80" | "0x80 \<le> n" "n < 0x800" "0x80 \<le> m" "m < 0x800"
    | "0x800 \<le> n" "n < 0x10000" "0x800 \<le> m" "m < 0x10000" | "0x10000 \<le> n" "0x10000 \<le> m"
    using assms by (simp add: utf8_bytes_def split: if_splits)
  then show ?thesis
  proof cases
    case 1
    then show ?thesis by (simp add: utf8_bytes_def lex_cmp_Cons)
  next
    case 2
    then show ?thesis
      by (simp add: utf8_bytes_def lex_cmp_Cons cmp_of_shift then_cmp_assoc cmp_of_digits [of n m])
  next
    case 3
    then show ?thesis
      by (simp add: utf8_bytes_def lex_cmp_Cons cmp_of_shift then_cmp_assoc d
          cmp_of_digits [of n m] cmp_of_digits [of "n div 64" "m div 64"])
  next
    case 4
    then show ?thesis
      by (simp add: utf8_bytes_def lex_cmp_Cons cmp_of_shift then_cmp_assoc d
          cmp_of_digits [of n m] cmp_of_digits [of "n div 64" "m div 64"]
          cmp_of_digits [of "n div 64 div 64" "m div 64 div 64"])
  qed
qed

lemma utf8_bytes_not_Nil [simp]: "utf8_bytes n \<noteq> []"
  by (simp add: utf8_bytes_def)

lemma lex_cmp_heads:
  assumes "xs \<noteq> []" "ys \<noteq> []" "hd xs \<noteq> hd ys"
  shows "lex_cmp (xs @ as) (ys @ bs) = cmp_of (hd xs) (hd ys)"
  using assms by (cases xs; cases ys; cases "cmp_of (hd xs) (hd ys)") (auto simp: lex_cmp_Cons)

lemma utf8_bytes_cmp:
  assumes "n < 0x110000" "m < 0x110000"
  shows "lex_cmp (utf8_bytes n @ xs) (utf8_bytes m @ ys) = then_cmp (cmp_of n m) (lex_cmp xs ys)"
proof -
  consider "length (utf8_bytes n) < length (utf8_bytes m)" | "length (utf8_bytes m) < length (utf8_bytes n)"
    | "length (utf8_bytes n) = length (utf8_bytes m)" by linarith
  then show ?thesis
  proof cases
    case 1
    from utf8_bytes_shorter [OF 1 assms(2)] show ?thesis by (simp add: lex_cmp_heads) (simp add: cmp_of_def)
  next
    case 2
    from utf8_bytes_shorter [OF 2 assms(1)] show ?thesis by (simp add: lex_cmp_heads) (simp add: cmp_of_def)
  next
    case 3
    then show ?thesis by (rule utf8_bytes_same)
  qed
qed

definition byte_values :: "str \<Rightarrow> nat list" where
  "byte_values s = concat (map (\<lambda>c. utf8_bytes (unat c)) s)"

lemma as_bytes_values: "as_bytes s = map of_nat (byte_values s)"
  by (induction s) (simp_all add: as_bytes_def byte_values_def utf8_def)

lemma scalar_bound: "is_scalar c \<Longrightarrow> unat c < 0x110000"
  by (auto simp: is_scalar_def word_less_nat_alt word_le_nat_alt)

lemma utf8_bytes_small: "n < 0x110000 \<Longrightarrow> b \<in> set (utf8_bytes n) \<Longrightarrow> b < 256"
  by (auto simp: utf8_bytes_def split: if_splits)

lemma byte_values_small: "str_ok s \<Longrightarrow> b \<in> set (byte_values s) \<Longrightarrow> b < 256"
  by (auto simp: byte_values_def str_ok_def dest!: scalar_bound utf8_bytes_small)

lemma lex_cmp_map:
  assumes "\<And>x y. x \<in> set xs \<Longrightarrow> y \<in> set ys \<Longrightarrow> cmp_of (f x) (f y) = cmp_of x y"
  shows "lex_cmp (map f xs) (map f ys) = lex_cmp xs ys"
  using assms by (induction xs ys rule: lex_cmp.induct) (auto simp: then_cmp_def split: ordering.splits)

lemma cmp_of_unat: "cmp_of (unat a) (unat b) = cmp_of a b"
  by (simp add: cmp_of_def word_less_nat_alt)

lemma byte_values_cmp: "str_ok a \<Longrightarrow> str_ok b \<Longrightarrow> lex_cmp (byte_values a) (byte_values b) = lex_cmp a b"
proof (induction a b rule: lex_cmp.induct)
  case (2 b bs)
  then show ?case by (cases "utf8_bytes (unat b)") (auto simp: byte_values_def)
next
  case (3 a as)
  then show ?case by (cases "utf8_bytes (unat a)") (auto simp: byte_values_def)
next
  case (4 a as b bs)
  then have "lex_cmp (byte_values (a # as)) (byte_values (b # bs)) =
      then_cmp (cmp_of (unat a) (unat b)) (lex_cmp (byte_values as) (byte_values bs))"
    using utf8_bytes_cmp [of "unat a" "unat b" "byte_values as" "byte_values bs"]
    by (simp add: byte_values_def str_ok_def scalar_bound)
  with 4 show ?case
    by (cases "cmp_of a b") (auto simp: lex_cmp_Cons cmp_of_unat str_ok_def)
qed (simp add: byte_values_def)

lemma as_bytes_cmp:
  assumes "str_ok a" "str_ok b"
  shows "lex_cmp (as_bytes a) (as_bytes b) = lex_cmp a b"
proof -
  have "cmp_of (of_nat x :: u8) (of_nat y) = cmp_of x y" if "x < 256" "y < 256" for x y
    using that by (simp add: cmp_of_unat [symmetric] unat_of_nat take_bit_nat_eq_self)
  then have "lex_cmp (as_bytes a) (as_bytes b) = lex_cmp (byte_values a) (byte_values b)"
    unfolding as_bytes_values using assms by (intro lex_cmp_map) (simp add: byte_values_small)
  with byte_values_cmp [OF assms] show ?thesis by simp
qed

lemma as_bytes_eq: "str_ok a \<Longrightarrow> str_ok b \<Longrightarrow> as_bytes a = as_bytes b \<longleftrightarrow> a = b"
  using as_bytes_cmp [of a b] lex_cmp_Equal [of a b] lex_cmp_Equal [of "as_bytes a" "as_bytes b"] by simp

lemma zero_in_as_bytes:
  assumes "str_ok s"
  shows "0 \<in> set (as_bytes s) \<longleftrightarrow> 0 \<in> set s"
proof -
  have z: "0 \<in> set (utf8_bytes n) \<longleftrightarrow> n = 0" for n by (auto simp: utf8_bytes_def)
  have "(of_nat b :: u8) = 0 \<longleftrightarrow> b = 0" if "b \<in> set (byte_values s)" for b
    using byte_values_small [OF assms that] by (simp add: word_of_nat_eq_0_iff nat_dvd_not_less dvd_imp_le leD)
       (metis dvd_imp_le gr0I leD zero_less_iff_neq_zero dvd_0_right)
  then have "0 \<in> set (as_bytes s) \<longleftrightarrow> 0 \<in> set (byte_values s)"
    unfolding as_bytes_values by force
  also have "\<dots> \<longleftrightarrow> 0 \<in> set s"
    by (force simp: byte_values_def z unat_eq_zero)
  finally show ?thesis .
qed

section \<open>Reading, skipping and joining\<close>

text \<open>The texts the constructors build: an ordinary text has no zero, and stored words declare at
  least as many characters as they show.\<close>

fun text_ok :: "phrase_text \<Rightarrow> bool" where
  "text_ok (Scalar chs) \<longleftrightarrow> str_ok chs \<and> 0 \<notin> set chs"
| "text_ok (Stored buffer) \<longleftrightarrow> buffer \<noteq> [] \<and> length buffer \<le> 2 ^ 32 \<and>
     length (stored_outward buffer) \<le> phrase_length (Stored buffer)"

definition plain_char :: "u32 \<Rightarrow> bool" where
  "plain_char w \<longleftrightarrow> w \<noteq> 0 \<and> is_scalar w"

lemma plain_str: "(\<forall>w \<in> set chs. plain_char w) \<longleftrightarrow> str_ok chs \<and> 0 \<notin> set chs"
  by (auto simp: plain_char_def str_ok_def)

lemma outward_stored [simp]: "outward_words (stored ws n) = takeWhile (\<lambda>w. w \<noteq> 0) ws"
  by (simp add: stored_def stored_outward_def)

lemma phrase_length_stored:
  "n < 2 ^ 32 \<Longrightarrow> phrase_length (stored ws n) = (if n = 0 then length ws else n)"
  by (simp add: stored_def try_u32_def unat_of_nat take_bit_nat_eq_self word_of_nat_eq_0_iff nat_dvd_not_less)

lemma text_ok_stored:
  assumes "n < 2 ^ 32" "length ws < 2 ^ 32" "length (takeWhile (\<lambda>w. w \<noteq> 0) ws) \<le> n"
  shows "text_ok (stored ws n)"
proof -
  have "length (takeWhile (\<lambda>w. w \<noteq> 0) ws) \<le> phrase_length (stored ws n)"
    using assms by (simp add: phrase_length_stored length_takeWhile_le)
  then show ?thesis using assms(2) by (simp add: stored_def stored_outward_def)
qed

lemma from_stored_loop_raw:
  assumes "tot + length ws \<le> usize_max"
  shows "from_stored_loop (map Some ws) chs (Some rs) past tot =
      (if \<not> past \<and> (\<exists>w \<in> set (takeWhile (\<lambda>w. w \<noteq> 0) ws). 0x80000000 \<le> w) then None
       else Some (stored (rs @ ws) (tot + length ws)))"
  using assms
proof (induction ws arbitrary: rs past tot)
  case (Cons w ws)
  have "saturating_add tot 1 = Suc tot" using Cons.prems by (simp add: saturating_add_def)
  moreover have "\<not> (0x80000000 :: u32) \<le> 0" by simp
  ultimately show ?case using Cons by (auto simp: Let_def)
qed simp

lemma from_stored_loop_text:
  assumes "length chs + length ws \<le> usize_max" "\<forall>w \<in> set chs. plain_char w"
  shows "from_stored_loop (map Some ws) chs None False (length chs) =
      (if \<exists>w \<in> set (takeWhile (\<lambda>w. w \<noteq> 0) ws). 0x80000000 \<le> w then None
       else Some (if \<forall>w \<in> set ws. plain_char w then Scalar (chs @ ws)
         else stored (chs @ ws) (length chs + length ws)))"
  using assms
proof (induction ws arbitrary: chs)
  case (Cons w ws)
  have sat: "saturating_add (length chs) 1 = Suc (length chs)"
    using Cons.prems by (simp add: saturating_add_def)
  show ?case
  proof (cases "plain_char w")
    case True
    then have "\<not> 0x80000000 \<le> w"
      using scalar_bound [of w] by (auto simp: plain_char_def word_le_nat_alt)
    with True Cons.IH [of "chs @ [w]"] Cons.prems sat show ?thesis
      by (simp add: char_from_u32_def plain_char_def)
  next
    case False
    then have "Option.bind (char_from_u32 w) (\<lambda>c. if w \<noteq> 0 then Some c else None) = None"
      by (auto simp: char_from_u32_def plain_char_def)
    with False Cons.prems sat from_stored_loop_raw [of "Suc (length chs)" ws chs "chs @ [w]" "w = 0"]
    show ?thesis by (auto simp: Let_def)
  qed
qed simp

lemma from_words_eq:
  assumes "slice_ok ws"
  shows "from_words ws =
      (if \<exists>w \<in> set (takeWhile (\<lambda>w. w \<noteq> 0) ws). 0x80000000 \<le> w then None
       else Some (if \<forall>w \<in> set ws. plain_char w then Scalar ws else stored ws (length ws)))"
  using from_stored_loop_text [of "[]" ws] assms
  by (simp add: from_words_def from_stored_words_def slice_ok_def usize_max_def)

lemma from_stored_loop_unreadable: "None \<in> set ws \<Longrightarrow> from_stored_loop ws chs raw past tot = None"
  by (induction ws chs raw past tot rule: from_stored_loop.induct)
     (auto simp: Let_def split: option.splits)

lemma from_compact_eq:
  "str_ok s \<Longrightarrow> from_compact s = (if 0 \<in> set s then stored s (length s) else Scalar s)"
  by (simp add: from_compact_def zero_in_as_bytes)

lemma those_chars: "those (map char_from_u32 ws) = (if str_ok ws then Some ws else None)"
  by (induction ws) (auto simp: char_from_u32_def str_ok_def)

lemma as_str_outward: "as_str t = Some chs \<Longrightarrow> t = Scalar chs"
  by (cases t) simp_all

lemma takeWhile_nonzero_idem: "0 \<notin> set ws \<Longrightarrow> takeWhile (\<lambda>w. w \<noteq> (0 :: u32)) ws = ws"
  by (induction ws) auto

lemma outward_nonzero: "text_ok t \<Longrightarrow> 0 \<notin> set (outward_words t)"
  by (cases t) (auto simp: stored_outward_def dest: set_takeWhileD)

lemma outward_le_length: "text_ok t \<Longrightarrow> length (outward_words t) \<le> phrase_length t"
  by (cases t) auto

text \<open>The state of a concatenation after pushing \<open>parts\<close>.\<close>

definition concat_state :: "phrase_text list \<Rightarrow> phrase_text_concat \<Rightarrow> bool" where
  "concat_state parts c \<longleftrightarrow>
     concat_len c = sum_list (map phrase_length parts) \<and>
     (if list_all (\<lambda>p. as_str p \<noteq> None) parts
      then concat_words c = None \<and> concat_scalar c = concat (map outward_words parts)
      else concat_words c = Some (concat (map outward_words parts)))"

lemma push_state:
  assumes "concat_state parts c" "sum_list (map phrase_length (parts @ [p])) \<le> usize_max"
  shows "concat_state (parts @ [p]) (push c p)"
  using assms
  by (cases p) (auto simp: concat_state_def push_def switch_to_words_def saturating_add_def Let_def
      split: option.splits if_splits)

lemma pushes_state:
  "sum_list (map phrase_length parts) \<le> usize_max \<Longrightarrow> concat_state parts (foldl push concat_new parts)"
proof (induction parts rule: rev_induct)
  case Nil
  then show ?case by (simp add: concat_state_def concat_new_def)
next
  case (snoc p parts)
  then show ?case using push_state [of parts "foldl push concat_new parts" p] by simp
qed

lemma skip_chars_spec:
  assumes "text_ok t" "phrase_length t < 2 ^ 32"
  shows "outward_words (skip_chars t n) = drop n (outward_words t)"
    and "phrase_length (skip_chars t n) = phrase_length t - n" and "text_ok (skip_chars t n)"
proof -
  have nz: "0 \<notin> set (drop n (outward_words t))"
    using outward_nonzero [OF assms(1)] by (auto dest: in_set_dropD)
  have le: "length (outward_words t) \<le> phrase_length t" by (rule outward_le_length [OF assms(1)])
  have "outward_words (skip_chars t n) = drop n (outward_words t) \<and>
      phrase_length (skip_chars t n) = phrase_length t - n \<and> text_ok (skip_chars t n)"
  proof (cases t)
    case (Scalar chs)
    then have ok: "str_ok (drop n chs)" using assms(1) by (auto simp: str_ok_def dest: in_set_dropD)
    with Scalar nz show ?thesis by (simp add: skip_chars_def from_compact_eq)
  next
    case (Stored buffer)
    then have "skip_chars t n = stored (drop n (outward_words t)) (phrase_length t - n)"
      by (simp add: skip_chars_def)
    moreover have "text_ok (stored (drop n (outward_words t)) (phrase_length t - n))"
      using le assms(2) nz by (intro text_ok_stored) (simp_all add: takeWhile_nonzero_idem)
    ultimately show ?thesis
      using nz le assms(2) by (simp add: takeWhile_nonzero_idem phrase_length_stored)
  qed
  then show "outward_words (skip_chars t n) = drop n (outward_words t)"
    and "phrase_length (skip_chars t n) = phrase_length t - n" and "text_ok (skip_chars t n)"
    by simp_all
qed

lemma outward_concat:
  assumes "\<forall>p \<in> set parts. text_ok p"
  shows "0 \<notin> set (concat (map outward_words parts))"
    and "length (concat (map outward_words parts)) \<le> sum_list (map phrase_length parts)"
  using assms by (induction parts) (auto dest: outward_nonzero outward_le_length intro: add_mono)

lemma joined_spec:
  assumes "\<forall>p \<in> set parts. text_ok p" "sum_list (map phrase_length parts) < 2 ^ 32"
  defines "joined \<equiv> finish (foldl push concat_new parts)"
  shows "outward_words joined = concat (map outward_words parts) \<and>
      phrase_length joined = sum_list (map phrase_length parts) \<and> text_ok joined \<and>
      (as_str joined = None \<longleftrightarrow> (\<exists>p \<in> set parts. as_str p = None))"
proof -
  let ?c = "foldl push concat_new parts"
  have st: "concat_state parts ?c"
    using assms(2) by (intro pushes_state) (simp add: usize_max_def)
  note out = outward_concat [OF assms(1)]
  show ?thesis
  proof (cases "list_all (\<lambda>p. as_str p \<noteq> None) parts")
    case True
    then have scal: "\<exists>chs. p = Scalar chs" if "p \<in> set parts" for p
      using that by (cases p) (auto simp: list_all_iff)
    then have "sum_list (map phrase_length parts) = length (concat (map outward_words parts))"
      by (induction parts) fastforce+
    moreover have "str_ok (concat (map outward_words parts))"
      using scal assms(1) by (fastforce simp: str_ok_def)
    moreover have "\<not> (\<exists>p \<in> set parts. as_str p = None)" using True by (simp add: list_all_iff)
    ultimately show ?thesis
      using True st out(1) by (simp add: joined_def finish_def concat_state_def)
  next
    case False
    let ?ws = "concat (map outward_words parts)" and ?n = "sum_list (map phrase_length parts)"
    have j: "joined = stored ?ws ?n"
      using False st by (simp add: joined_def finish_def concat_state_def from_stored_parts_def)
    have "text_ok (stored ?ws ?n)"
      using out assms(2) by (intro text_ok_stored) (simp_all add: takeWhile_nonzero_idem)
    moreover have "as_str (stored ?ws ?n) = None" by (simp add: stored_def)
    moreover have "\<exists>p \<in> set parts. as_str p = None" using False by (simp add: list_all_iff)
    moreover have "phrase_length (stored ?ws ?n) = ?n"
      using out(2) phrase_length_stored [OF assms(2), of ?ws] by (metis le_zero_eq)
    ultimately show ?thesis
      unfolding j using out(1) by (simp add: takeWhile_nonzero_idem)
  qed
qed

lemma text_eq_words: "text_ok a \<Longrightarrow> text_ok b \<Longrightarrow> text_eq a b \<longleftrightarrow> outward_words a = outward_words b"
  by (cases a; cases b) (auto simp: text_eq_def as_bytes_eq those_chars Let_def split: if_splits)

section \<open>Properties\<close>

text \<open>C33: the three faces of a text agree across the two representations, although two ordinary texts
  are compared by their UTF-8 bytes and every other pair by words. Equality is equality of the
  outward code points, the order is their lexicographic order (UTF-8 keeps the order of code
  points), and equal texts, and only they, feed a hasher the same way.\<close>

theorem text_eq_cmp_hash:
  assumes "text_ok a" "text_ok b"
  shows "(text_eq a b \<longleftrightarrow> outward_words a = outward_words b) \<and>
    text_cmp a b = lex_cmp (outward_words a) (outward_words b) \<and>
    (text_cmp a b = Equal \<longleftrightarrow> text_eq a b) \<and>
    (text_hash a = text_hash b \<longleftrightarrow> text_eq a b)"
  using assms
  by (cases a; cases b)
     (auto simp: text_eq_def text_cmp_def as_bytes_eq as_bytes_cmp lex_cmp_Equal those_chars Let_def
        split: if_splits)

theorem text_eq_cmp_hash_witness:
  "text_eq (Scalar [0x4F60]) (stored [0x4F60, 0, 0x110000] 3) \<and>
   text_hash (Scalar [0x4F60]) = text_hash (stored [0x4F60, 0, 0x110000] 3) \<and>
   text_cmp (Scalar [0xFF5E]) (Scalar [0x1F600]) = Less"
proof -
  have ok: "text_ok (Scalar [0x4F60])" "text_ok (stored [0x4F60, 0, 0x110000] 3)"
    "text_ok (Scalar [0xFF5E])" "text_ok (Scalar [0x1F600])"
    by (auto simp: str_ok_def is_scalar_def intro!: text_ok_stored)
  show ?thesis
    using text_eq_cmp_hash [OF ok(1,2)] text_eq_cmp_hash [OF ok(3,4)] by (simp add: cmp_of_def)
qed

text \<open>Reading stored words. The whole item is refused exactly when a word of \<open>0x80000000\<close> or above
  comes before the first zero, or a word cannot be read; otherwise the outward text is the prefix
  before the first zero, the declared length is the number of words, all words are kept unless
  every one is a nonzero scalar (then the text is ordinary), and the result is well-formed.\<close>

theorem from_words_spec:
  assumes "length ws < 2 ^ 32"
  shows "(from_words ws = None \<longleftrightarrow> (\<exists>w \<in> set (takeWhile (\<lambda>w. w \<noteq> 0) ws). 0x80000000 \<le> w)) \<and>
    (\<forall>t. from_words ws = Some t \<longrightarrow>
       outward_words t = takeWhile (\<lambda>w. w \<noteq> 0) ws \<and> phrase_length t = length ws \<and> text_ok t \<and>
       (if \<forall>w \<in> set ws. w \<noteq> 0 \<and> is_scalar w then as_str t = Some ws \<and> stored_words t = None
        else as_str t = None \<and> stored_words t = Some ws)) \<and>
    (None \<in> set opts \<longrightarrow> from_stored_words opts = None)"
proof -
  have ok: "slice_ok ws" using assms by (simp add: slice_ok_def)
  have "text_ok (stored ws (length ws))"
    using assms by (intro text_ok_stored) (simp_all add: length_takeWhile_le)
  moreover have "\<forall>w \<in> set ws. plain_char w \<Longrightarrow> takeWhile (\<lambda>w. w \<noteq> 0) ws = ws"
    by (auto intro: takeWhile_nonzero_idem simp: plain_char_def)
  moreover have "phrase_length (stored ws (length ws)) = length ws"
    using assms by (simp add: phrase_length_stored)
  moreover have "as_str (stored ws n) = None" "stored_words (stored ws n) = Some ws" for n
    by (simp_all add: stored_def)
  moreover have "None \<in> set opts \<Longrightarrow> from_stored_words opts = None"
    by (simp add: from_stored_words_def from_stored_loop_unreadable)
  ultimately show ?thesis
    using from_words_eq [OF ok] plain_str [of ws]
    by (auto simp: plain_char_def [symmetric] takeWhile_nonzero_idem)
qed

text \<open>Skipping and joining. Skipping characters drops them from the outward text and from the
  declared length; joining well-formed texts, whichever way each is stored, gives the joined
  outward texts and the sum of the declared lengths; both results are well-formed, and a join of
  ordinary texts is ordinary.\<close>

theorem skip_concat_spec:
  assumes "\<forall>p \<in> set parts. text_ok p" "sum_list (map phrase_length parts) < 2 ^ 32"
    and "text_ok t" "phrase_length t < 2 ^ 32"
  shows "outward_words (skip_chars t n) = drop n (outward_words t) \<and>
    phrase_length (skip_chars t n) = phrase_length t - n \<and> text_ok (skip_chars t n) \<and>
    (let joined = finish (foldl push concat_new parts) in
      outward_words joined = concat (map outward_words parts) \<and>
      phrase_length joined = sum_list (map phrase_length parts) \<and> text_ok joined \<and>
      (as_str joined = None \<longleftrightarrow> (\<exists>p \<in> set parts. as_str p = None)))"
  using skip_chars_spec [OF assms(3,4), of n] joined_spec [OF assms(1,2)] by (simp add: Let_def)

end
