(* ===== verification/Constraint.thy ===== *)
theory Constraint
  imports PhraseText
begin

text \<open>
  \<open>crates/oxpinyin-engine/src/constraint.rs\<close>: the store of forced phrases, one cell per column of
  the matrix. A run is a \<open>OneStep\<close> cell and the \<open>NoSearch\<close> back-pointers after it. The operations
  are translated on the cell array, with a slice index that would panic as \<open>None\<close>; the lemmas show
  that no well-formed store panics and that each operation is the expected one on the set of runs.
\<close>

section \<open>The store\<close>

type_synonym phrase_token = u32

datatype cell = FreeCell | OneStep phrase_token nat phrase_text | NoSearch nat

record phrase_span =
  span_start :: nat
  span_token :: phrase_token
  span_text :: phrase_text

type_synonym store = "cell list"

definition is_active :: "store \<Rightarrow> bool" where
  "is_active cells \<longleftrightarrow> (\<exists>c \<in> set cells. c \<noteq> FreeCell)"

definition clear :: "store \<Rightarrow> store" where
  "clear cells = []"

definition cell_at :: "store \<Rightarrow> nat \<Rightarrow> cell option" where
  "cell_at cells index = get_at cells index"

definition cell_count :: "store \<Rightarrow> nat" where
  "cell_count cells = length cells"

definition one_step_token_at :: "store \<Rightarrow> nat \<Rightarrow> phrase_token option" where
  "one_step_token_at cells index = (case cell_at cells index of
     Some (OneStep token _ _) \<Rightarrow> Some token
   | _ \<Rightarrow> None)"

definition is_one_step_at :: "store \<Rightarrow> nat \<Rightarrow> bool" where
  "is_one_step_at cells index = (case cell_at cells index of
     Some (OneStep _ _ _) \<Rightarrow> True
   | _ \<Rightarrow> False)"

definition resize_cells :: "store \<Rightarrow> nat \<Rightarrow> store" where
  "resize_cells cells n = resize cells n FreeCell"

text \<open>\<open>for cell in &mut cells[a..b] { *cell = Cell::None }\<close>: \<open>None\<close> where the slice panics.\<close>

definition free_range :: "store \<Rightarrow> nat \<Rightarrow> nat \<Rightarrow> store option" where
  "free_range cells a b =
     (if a \<le> b \<and> b \<le> length cells
      then Some (take a cells @ replicate (b - a) FreeCell @ drop b cells) else None)"

definition clear_by_offset :: "store \<Rightarrow> nat \<Rightarrow> (bool \<times> store) option" where
  "clear_by_offset cells index =
     (case (case get_at cells index of
              Some (NoSearch start) \<Rightarrow> Some start
            | Some (OneStep _ _ _) \<Rightarrow> Some index
            | _ \<Rightarrow> None) of
        None \<Rightarrow> Some (False, cells)
      | Some run_start \<Rightarrow>
          (case get_at cells run_start of
             Some (OneStep _ run_end _) \<Rightarrow>
               map_option (Pair True) (free_range cells run_start (min run_end (length cells)))
           | _ \<Rightarrow> Some (False, cells)))"

fun clear_offsets :: "store \<Rightarrow> nat list \<Rightarrow> store option" where
  "clear_offsets cells [] = Some cells"
| "clear_offsets cells (index # rest) =
     Option.bind (clear_by_offset cells index) (\<lambda>(_, cells). clear_offsets cells rest)"

fun write_back_pointers :: "store \<Rightarrow> nat \<Rightarrow> nat list \<Rightarrow> store" where
  "write_back_pointers cells start [] = cells"
| "write_back_pointers cells start (index # rest) =
     write_back_pointers (cells[index := NoSearch start]) start rest"

definition add :: "store \<Rightarrow> nat \<Rightarrow> nat \<Rightarrow> phrase_token \<Rightarrow> phrase_text \<Rightarrow> (nat \<times> store) option" where
  "add cells start run_end token phrase =
     (if length cells < run_end \<or> run_end \<le> start then Some (0, cells)
      else map_option
        (\<lambda>cells. (run_end - start,
           write_back_pointers (cells[start := OneStep token run_end phrase]) start
             [start + 1 ..< run_end]))
        (clear_offsets cells [start ..< run_end]))"

text \<open>\<open>validate\<close>: the forcings gathered first, then one pass; a failing probe stops it and leaves what
  was cleared so far. The probe carries a state of its caller (the phrase item it last read), which the
  pass threads through: every run is probed, the overrunning ones too.\<close>

fun forcings_from :: "nat \<Rightarrow> store \<Rightarrow> (nat \<times> phrase_token \<times> nat \<times> nat) list" where
  "forcings_from index [] = []"
| "forcings_from index (OneStep token run_end phrase # rest) =
     (index, token, run_end, phrase_length phrase) # forcings_from (index + 1) rest"
| "forcings_from index (_ # rest) = forcings_from (index + 1) rest"

type_synonym ('s, 'e) spelling_probe = "nat \<Rightarrow> nat \<Rightarrow> phrase_token \<Rightarrow> nat \<Rightarrow> 's \<Rightarrow> ('e + bool) \<times> 's"

fun validate_loop ::
    "('s, 'e) spelling_probe \<Rightarrow> (nat \<times> phrase_token \<times> nat \<times> nat) list \<Rightarrow> bool \<Rightarrow> 's \<Rightarrow> store \<Rightarrow>
     (('e + bool) \<times> 's \<times> store) option" where
  "validate_loop still_spells [] dropped s cells = Some (Inr dropped, s, cells)"
| "validate_loop still_spells ((index, token, run_end, len) # rest) dropped s cells =
     (let (spells, s') = still_spells index run_end token len s;
          overruns = length cells \<le> run_end
      in if overruns then
           Option.bind (free_range cells index (min run_end (length cells)))
             (validate_loop still_spells rest True s')
         else
           (case spells of
              Inl e \<Rightarrow> Some (Inl e, s', cells)
            | Inr True \<Rightarrow> validate_loop still_spells rest dropped s' cells
            | Inr False \<Rightarrow>
                Option.bind (free_range cells index (min run_end (length cells)))
                  (validate_loop still_spells rest True s')))"

definition validate ::
    "store \<Rightarrow> nat \<Rightarrow> ('s, 'e) spelling_probe \<Rightarrow> 's \<Rightarrow> (('e + bool) \<times> 's \<times> store) option" where
  "validate cells n still_spells s =
     (let cells = resize cells n FreeCell
      in validate_loop still_spells (forcings_from 0 cells) False s cells)"

definition best_token :: "phrase_span list \<Rightarrow> nat \<Rightarrow> phrase_token option" where
  "best_token best start =
     map_option span_token (List.find (\<lambda>candidate. span_start candidate = start) best)"

fun diff_loop :: "phrase_span list \<Rightarrow> nat \<Rightarrow> phrase_span list \<Rightarrow> bool \<Rightarrow> store \<Rightarrow> (bool \<times> store) option" where
  "diff_loop best tail [] changed cells = Some (changed, cells)"
| "diff_loop best tail (span # rest) changed cells =
     (if best_token best (span_start span) = Some (span_token span)
      then diff_loop best tail rest changed cells
      else
        let next_pos = (case rest of [] \<Rightarrow> tail | next # _ \<Rightarrow> span_start next) in
        Option.bind (add cells (span_start span) next_pos (span_token span) (span_text span))
          (\<lambda>(n, cells). diff_loop best tail rest (0 < n \<or> changed) cells))"

definition diff_result ::
    "store \<Rightarrow> phrase_span list \<Rightarrow> phrase_span list \<Rightarrow> nat \<Rightarrow> (bool \<times> store) option" where
  "diff_result cells best other tail = diff_loop best tail other False cells"

fun runs_from :: "nat \<Rightarrow> store \<Rightarrow> (nat \<times> nat \<times> phrase_token \<times> phrase_text) list" where
  "runs_from start [] = []"
| "runs_from start (OneStep token run_end phrase # rest) =
     (start, run_end, token, phrase) # runs_from (start + 1) rest"
| "runs_from start (_ # rest) = runs_from (start + 1) rest"

definition runs :: "store \<Rightarrow> (nat \<times> nat \<times> phrase_token \<times> phrase_text) list" where
  "runs cells = runs_from 0 cells"

section \<open>Well-formed stores\<close>

text \<open>
  Every \<open>OneStep\<close> is followed by its back-pointers as far as the array goes, and every back-pointer
  belongs to a run that covers it. \<open>fits\<close> adds that no run leaves the array.
\<close>

definition cell_ok :: "store \<Rightarrow> nat \<Rightarrow> bool" where
  "cell_ok cells i = (case cells ! i of
     FreeCell \<Rightarrow> True
   | OneStep _ e _ \<Rightarrow> i < e \<and> (\<forall>j \<in> {i + 1 ..< min e (length cells)}. cells ! j = NoSearch i)
   | NoSearch s \<Rightarrow> s < i \<and> (case cells ! s of OneStep _ e _ \<Rightarrow> i < e | _ \<Rightarrow> False))"

definition store_ok :: "store \<Rightarrow> bool" where
  "store_ok cells \<longleftrightarrow> (\<forall>i \<in> {0 ..< length cells}. cell_ok cells i)"

definition fits :: "store \<Rightarrow> bool" where
  "fits cells \<longleftrightarrow> (\<forall>(s, e, _) \<in> set (runs cells). e \<le> length cells)"

text \<open>The run a cell belongs to.\<close>

definition in_run :: "nat \<Rightarrow> nat \<times> nat \<times> phrase_token \<times> phrase_text \<Rightarrow> bool" where
  "in_run i r \<longleftrightarrow> fst r \<le> i \<and> i < fst (snd r)"

lemma in_runs_from:
  "(a, e, t, x) \<in> set (runs_from k cells) \<longleftrightarrow>
     (\<exists>i < length cells. a = k + i \<and> cells ! i = OneStep t e x)"
proof (induction cells arbitrary: k)
  case (Cons c cells)
  then show ?case by (cases c) (auto simp: Ex_less_Suc2)
qed simp

lemma in_runs:
  "(s, e, t, x) \<in> set (runs cells) \<longleftrightarrow> s < length cells \<and> cells ! s = OneStep t e x"
  by (auto simp: runs_def in_runs_from)

lemma runs_ascending: "sorted_wrt (<) (map fst (runs cells))"
proof -
  have "sorted_wrt (<) (map fst (runs_from k cells))" for k
  proof (induction cells arbitrary: k)
    case (Cons c cells)
    have "k < a" if "(a, e, t, x) \<in> set (runs_from (k + 1) cells)" for a e t x
      using that by (auto simp: in_runs_from)
    then show ?case using Cons by (cases c) auto
  qed simp
  then show ?thesis by (simp add: runs_def)
qed

lemma store_okD:
  assumes "store_ok cells"
  shows "(s, e, t, x) \<in> set (runs cells) \<Longrightarrow> s < e"
    and "(s, e, t, x) \<in> set (runs cells) \<Longrightarrow> s < j \<Longrightarrow> j < e \<Longrightarrow> j < length cells \<Longrightarrow> cells ! j = NoSearch s"
    and "i < length cells \<Longrightarrow> cells ! i = NoSearch s \<Longrightarrow>
      s < i \<and> (\<exists>e t x. (s, e, t, x) \<in> set (runs cells) \<and> i < e)"
proof -
  have ok: "cell_ok cells i" if "i < length cells" for i using assms that by (simp add: store_ok_def)
  show "(s, e, t, x) \<in> set (runs cells) \<Longrightarrow> s < e"
    using ok [of s] by (auto simp: in_runs cell_ok_def)
  show "(s, e, t, x) \<in> set (runs cells) \<Longrightarrow> s < j \<Longrightarrow> j < e \<Longrightarrow> j < length cells \<Longrightarrow> cells ! j = NoSearch s"
    using ok [of s] by (auto simp: in_runs cell_ok_def)
  show "i < length cells \<Longrightarrow> cells ! i = NoSearch s \<Longrightarrow>
      s < i \<and> (\<exists>e t x. (s, e, t, x) \<in> set (runs cells) \<and> i < e)"
    using ok [of i] by (auto simp: in_runs cell_ok_def split: cell.splits)
qed

lemma store_okI:
  assumes "\<And>s e t x. (s, e, t, x) \<in> set (runs cells) \<Longrightarrow> s < e"
    and "\<And>s e t x j. (s, e, t, x) \<in> set (runs cells) \<Longrightarrow> s < j \<Longrightarrow> j < e \<Longrightarrow> j < length cells \<Longrightarrow>
      cells ! j = NoSearch s"
    and "\<And>i s. i < length cells \<Longrightarrow> cells ! i = NoSearch s \<Longrightarrow>
      s < i \<and> (\<exists>e t x. (s, e, t, x) \<in> set (runs cells) \<and> i < e)"
  shows "store_ok cells"
  unfolding store_ok_def
proof
  fix i
  assume "i \<in> {0 ..< length cells}"
  then have i: "i < length cells" by simp
  show "cell_ok cells i"
  proof (cases "cells ! i")
    case (OneStep t e x)
    then have "(i, e, t, x) \<in> set (runs cells)" using i by (simp add: in_runs)
    from assms(1) [OF this] assms(2) [OF this] OneStep show ?thesis by (simp add: cell_ok_def)
  next
    case (NoSearch s)
    from assms(3) [OF i this] NoSearch show ?thesis by (auto simp: cell_ok_def in_runs)
  qed (simp add: cell_ok_def)
qed

text \<open>Two runs never share a cell.\<close>

lemma runs_disjoint:
  assumes "store_ok cells" "r \<in> set (runs cells)" "r' \<in> set (runs cells)" "in_run i r" "in_run i r'"
  shows "r = r'"
proof -
  obtain s e t x where r: "r = (s, e, t, x)" by (cases r) auto
  obtain s' e' t' x' where r': "r' = (s', e', t', x')" by (cases r') auto
  have c: "s < length cells" "cells ! s = OneStep t e x" "s' < length cells" "cells ! s' = OneStep t' e' x'"
    using assms(2,3) r r' by (auto simp: in_runs)
  have "\<not> s < s'" "\<not> s' < s"
    using store_okD(2) [OF assms(1), of s e t x s'] store_okD(2) [OF assms(1), of s' e' t' x' s]
      assms r r' c by (auto simp: in_run_def)
  then show ?thesis using c r r' by simp
qed

section \<open>Clearing\<close>

lemma length_free_range: "free_range cells a b = Some cells' \<Longrightarrow> length cells' = length cells"
  by (auto simp: free_range_def split: if_splits)

lemma nth_free_range:
  assumes "free_range cells a b = Some cells'" "i < length cells"
  shows "cells' ! i = (if a \<le> i \<and> i < b then FreeCell else cells ! i)"
  using assms by (auto simp: free_range_def nth_append split: if_splits)

text \<open>Freeing the cells of one run removes that run and nothing else.\<close>

lemma free_run:
  assumes ok: "store_ok cells" and r: "r \<in> set (runs cells)"
  shows "\<exists>cells'. free_range cells (fst r) (min (fst (snd r)) (length cells)) = Some cells' \<and>
    store_ok cells' \<and> length cells' = length cells \<and> set (runs cells') = set (runs cells) - {r}"
proof -
  obtain s e t x where req: "r = (s, e, t, x)" by (cases r) auto
  with r have se: "(s, e, t, x) \<in> set (runs cells)" by simp
  have lt: "s < e" "s < length cells" using store_okD(1) [OF ok se] se by (auto simp: in_runs)
  then obtain cells' where f: "free_range cells s (min e (length cells)) = Some cells'"
    by (auto simp: free_range_def)
  have len: "length cells' = length cells" by (rule length_free_range [OF f])
  have nth: "cells' ! i = (if s \<le> i \<and> i < e then FreeCell else cells ! i)" if "i < length cells" for i
    using nth_free_range [OF f that] that by auto
  have runs': "(a, b, u, y) \<in> set (runs cells') \<longleftrightarrow> (a, b, u, y) \<in> set (runs cells) \<and> (a, b, u, y) \<noteq> r" for a b u y
  proof
    assume "(a, b, u, y) \<in> set (runs cells')"
    then show "(a, b, u, y) \<in> set (runs cells) \<and> (a, b, u, y) \<noteq> r"
      using nth [of a] lt by (auto simp: in_runs len req split: if_splits)
  next
    assume a: "(a, b, u, y) \<in> set (runs cells) \<and> (a, b, u, y) \<noteq> r"
    then have "\<not> (s \<le> a \<and> a < e)"
      using runs_disjoint [OF ok, of "(a, b, u, y)" r a] store_okD(1) [OF ok, of a b u y] r
      by (auto simp: in_run_def req)
    with a nth [of a] show "(a, b, u, y) \<in> set (runs cells')" by (auto simp: in_runs len)
  qed
  have "store_ok cells'"
  proof (rule store_okI)
    fix a b u y
    assume m: "(a, b, u, y) \<in> set (runs cells')"
    then show "a < b" using runs' store_okD(1) [OF ok] by blast
    fix j
    assume j: "a < j" "j < b" "j < length cells'"
    then have "\<not> (s \<le> j \<and> j < e)"
      using m runs' runs_disjoint [OF ok, of "(a, b, u, y)" r j] r by (auto simp: in_run_def req)
    with j nth [of j] store_okD(2) [OF ok, of a b u y j] m runs' show "cells' ! j = NoSearch a"
      by (auto simp: len)
  next
    fix i s'
    assume i: "i < length cells'" "cells' ! i = NoSearch s'"
    then have old: "cells ! i = NoSearch s'" "\<not> (s \<le> i \<and> i < e)" using nth [of i]
      by (auto simp: len split: if_splits)
    then obtain e' t' x' where "s' < i" "(s', e', t', x') \<in> set (runs cells)" "i < e'"
      using store_okD(3) [OF ok, of i s'] i by (auto simp: len)
    moreover have "(s', e', t', x') \<noteq> r" using old calculation by (auto simp: req)
    ultimately show "s' < i \<and> (\<exists>e t x. (s', e, t, x) \<in> set (runs cells') \<and> i < e)"
      using runs' by blast
  qed
  moreover have "set (runs cells') = set (runs cells) - {r}" using runs' by force
  ultimately show ?thesis using f len req by auto
qed

lemma clear_by_offset_run:
  assumes ok: "store_ok cells" and r: "r \<in> set (runs cells)" "in_run i r" "i < length cells"
  shows "\<exists>cells'. clear_by_offset cells i = Some (True, cells') \<and>
    store_ok cells' \<and> length cells' = length cells \<and> set (runs cells') = set (runs cells) - {r}"
proof -
  obtain s e t x where req: "r = (s, e, t, x)" by (cases r) auto
  have c: "s < length cells" "cells ! s = OneStep t e x" using r(1) by (auto simp: req in_runs)
  have "cells ! i = NoSearch s \<or> i = s"
    using store_okD(2) [OF ok, of s e t x i] r by (auto simp: req in_run_def)
  then have "clear_by_offset cells i = map_option (Pair True) (free_range cells s (min e (length cells)))"
    using c r(3) by (auto simp: clear_by_offset_def get_at_def)
  then show ?thesis using free_run [OF ok r(1)] by (auto simp: req)
qed

lemma clear_by_offset_free:
  assumes ok: "store_ok cells" and r: "\<forall>r \<in> set (runs cells). \<not> in_run i r"
  shows "clear_by_offset cells i = Some (False, cells)"
proof (cases "i < length cells")
  case True
  have "cells ! i \<noteq> OneStep t e x" for t e x
    using bspec [OF r, of "(i, e, t, x)"] True store_okD(1) [OF ok, of i e t x]
    by (auto simp: in_runs in_run_def)
  moreover have "cells ! i \<noteq> NoSearch s" for s
    using r store_okD(3) [OF ok True, of s] by (fastforce simp: in_run_def)
  ultimately show ?thesis by (cases "cells ! i") (auto simp: clear_by_offset_def get_at_def)
qed (simp add: clear_by_offset_def get_at_def)

lemma clear_offsets_runs:
  assumes "store_ok cells" "set idx \<subseteq> {..< length cells}"
  shows "\<exists>cells'. clear_offsets cells idx = Some cells' \<and> store_ok cells' \<and> length cells' = length cells \<and>
    set (runs cells') = {r \<in> set (runs cells). \<forall>i \<in> set idx. \<not> in_run i r}"
  using assms
proof (induction idx arbitrary: cells)
  case (Cons i idx)
  show ?case
  proof (cases "\<exists>r \<in> set (runs cells). in_run i r")
    case True
    then obtain r where r: "r \<in> set (runs cells)" "in_run i r" by blast
    then obtain c where c: "clear_by_offset cells i = Some (True, c)" "store_ok c"
      "length c = length cells" "set (runs c) = set (runs cells) - {r}"
      using clear_by_offset_run [OF Cons.prems(1) r] Cons.prems(2) by auto
    have only: "in_run i r' \<longleftrightarrow> r' = r" if "r' \<in> set (runs cells)" for r'
      using runs_disjoint [OF Cons.prems(1) that r(1) _ r(2)] r(2) by blast
    have "{r' \<in> set (runs cells). \<forall>j \<in> set (i # idx). \<not> in_run j r'} =
        {r' \<in> set (runs c). \<forall>j \<in> set idx. \<not> in_run j r'}"
      unfolding c(4) using only by (simp add: set_eq_iff) blast
    moreover obtain c' where "clear_offsets c idx = Some c'" "store_ok c'" "length c' = length c"
      "set (runs c') = {r \<in> set (runs c). \<forall>i \<in> set idx. \<not> in_run i r}"
      using Cons.IH [of c] Cons.prems(2) c by auto
    ultimately show ?thesis using c by (intro exI [of _ c']) simp
  next
    case False
    then have "clear_by_offset cells i = Some (False, cells)"
      by (intro clear_by_offset_free [OF Cons.prems(1)]) blast
    moreover obtain c where "clear_offsets cells idx = Some c" "store_ok c" "length c = length cells"
      "set (runs c) = {r \<in> set (runs cells). \<forall>i \<in> set idx. \<not> in_run i r}"
      using Cons.IH [of cells] Cons.prems by auto
    ultimately show ?thesis using False by auto
  qed
qed simp

lemma uncovered_free:
  assumes "store_ok cells" "i < length cells" "\<forall>r \<in> set (runs cells). \<not> in_run i r"
  shows "cells ! i = FreeCell"
proof (cases "cells ! i")
  case (OneStep t e x)
  then show ?thesis
    using bspec [OF assms(3), of "(i, e, t, x)"] assms(2) store_okD(1) [OF assms(1), of i e t x]
    by (auto simp: in_runs in_run_def)
next
  case (NoSearch s)
  then show ?thesis using assms(3) store_okD(3) [OF assms(1,2), of s] by (fastforce simp: in_run_def)
qed simp

section \<open>Forcing a span\<close>

lemma length_write_back [simp]: "length (write_back_pointers cells s idx) = length cells"
  by (induction idx arbitrary: cells) auto

lemma nth_write_back:
  "i < length cells \<Longrightarrow>
   write_back_pointers cells s idx ! i = (if i \<in> set idx then NoSearch s else cells ! i)"
  by (induction idx arbitrary: cells) (auto simp: nth_list_update)

text \<open>Writing a run over cells that no run covers adds exactly that run.\<close>

lemma write_run:
  assumes ok: "store_ok cells" and se: "s < e" "e \<le> length cells"
    and free: "\<forall>r \<in> set (runs cells). \<forall>i \<in> {s ..< e}. \<not> in_run i r"
    and cells': "cells' = write_back_pointers (cells[s := OneStep t e x]) s [s + 1 ..< e]"
  shows "store_ok cells'" and "length cells' = length cells"
    and "set (runs cells') = insert (s, e, t, x) (set (runs cells))"
proof -
  show len: "length cells' = length cells" by (simp add: cells')
  have nth: "cells' ! i = (if i = s then OneStep t e x else if s < i \<and> i < e then NoSearch s else cells ! i)"
    if "i < length cells" for i
    using that se by (auto simp: cells' nth_write_back)
  have out: "\<not> (s \<le> a \<and> a < e)" if "(a, b, u, y) \<in> set (runs cells)" for a b u y
    using bspec [OF free that] store_okD(1) [OF ok that] by (auto simp: in_run_def)
  have runs': "(a, b, u, y) \<in> set (runs cells') \<longleftrightarrow>
      (a, b, u, y) = (s, e, t, x) \<or> (a, b, u, y) \<in> set (runs cells)" for a b u y
    using nth [of a] se out [of a b u y] by (auto simp: in_runs len split: if_splits)
  then show "set (runs cells') = insert (s, e, t, x) (set (runs cells))" by force
  show "store_ok cells'"
  proof (rule store_okI)
    fix a b u y
    assume m: "(a, b, u, y) \<in> set (runs cells')"
    then show "a < b" using runs' [of a b u y] store_okD(1) [OF ok, of a b u y] se by auto
    fix j
    assume j: "a < j" "j < b" "j < length cells'"
    have "\<not> (s \<le> j \<and> j < e)" if "(a, b, u, y) \<in> set (runs cells)"
      using bspec [OF free that] j by (auto simp: in_run_def)
    with m j nth [of j] runs' store_okD(2) [OF ok, of a b u y j] se show "cells' ! j = NoSearch a"
      by (auto simp: len)
  next
    fix i s'
    assume i: "i < length cells'" "cells' ! i = NoSearch s'"
    show "s' < i \<and> (\<exists>e t x. (s', e, t, x) \<in> set (runs cells') \<and> i < e)"
    proof (cases "s < i \<and> i < e")
      case True
      with i nth [of i] have "s' = s" by (auto simp: len)
      with True runs' show ?thesis by blast
    next
      case False
      with i nth [of i] have "cells ! i = NoSearch s'" by (auto simp: len split: if_splits)
      with store_okD(3) [OF ok, of i s'] i runs' show ?thesis by (auto simp: len)
    qed
  qed
qed

lemma add_runs:
  assumes "store_ok cells" "s < e" "e \<le> length cells"
  shows "\<exists>cells'. add cells s e t x = Some (e - s, cells') \<and> store_ok cells' \<and>
    length cells' = length cells \<and>
    set (runs cells') = insert (s, e, t, x) {r \<in> set (runs cells). \<forall>i \<in> {s ..< e}. \<not> in_run i r}"
proof -
  obtain c where c: "clear_offsets cells [s ..< e] = Some c" "store_ok c" "length c = length cells"
    "set (runs c) = {r \<in> set (runs cells). \<forall>i \<in> {s ..< e}. \<not> in_run i r}"
    using clear_offsets_runs [OF assms(1), of "[s ..< e]"] assms(3) by (auto simp: subset_eq)
  have "\<forall>r \<in> set (runs c). \<forall>i \<in> {s ..< e}. \<not> in_run i r" using c(4) by auto
  from write_run [OF c(2) assms(2) _ this, OF _ refl, of t x] c assms show ?thesis
    by (auto simp: add_def)
qed

section \<open>Validating\<close>

definition forcing :: "nat \<times> nat \<times> phrase_token \<times> phrase_text \<Rightarrow> nat \<times> phrase_token \<times> nat \<times> nat" where
  "forcing = (\<lambda>(s, e, t, x). (s, t, e, phrase_length x))"

lemma forcings_runs: "forcings_from k cells = map forcing (runs_from k cells)"
  by (induction k cells rule: forcings_from.induct) (simp_all add: forcing_def)

type_synonym run = "nat \<times> nat \<times> phrase_token \<times> phrase_text"

definition probe :: "('s, 'e) spelling_probe \<Rightarrow> run \<Rightarrow> 's \<Rightarrow> ('e + bool) \<times> 's" where
  "probe still_spells = (\<lambda>(start, e, t, x). still_spells start e t (phrase_length x))"

text \<open>A verdict on a run of an array of \<open>n\<close> cells: it drops the run, or it stops the pass.\<close>

fun stale :: "nat \<Rightarrow> run \<times> ('e + bool) \<Rightarrow> bool" where
  "stale n ((start, e, t, x), v) \<longleftrightarrow> n \<le> e \<or> v = Inr False"

fun failing :: "nat \<Rightarrow> run \<times> ('e + bool) \<Rightarrow> bool" where
  "failing n ((start, e, t, x), v) \<longleftrightarrow> e < n \<and> isl v"

text \<open>Verdicts that the probe gives when it is asked about the runs in turn, each in the state the one before left.\<close>

fun probed :: "('s, 'e) spelling_probe \<Rightarrow> (run \<times> ('e + bool)) list \<Rightarrow> 's \<Rightarrow> 's \<Rightarrow> bool" where
  "probed sp [] s s' \<longleftrightarrow> s' = s"
| "probed sp ((r, v) # vs) s s' \<longleftrightarrow> fst (probe sp r s) = v \<and> probed sp vs (snd (probe sp r s)) s'"

definition verdict_answer :: "nat \<Rightarrow> (run \<times> ('e + bool)) list \<Rightarrow> 'e + bool" where
  "verdict_answer n vs = (case List.find (failing n) vs of Some (_, Inl err) \<Rightarrow> Inl err | _ \<Rightarrow> Inr (\<exists>x \<in> set vs. stale n x))"

lemma verdict_cases:
  fixes v :: "'e + bool"
  obtains (stale) "stale n (r, v)" | (failing) err where "failing n (r, v)" "v = Inl err" "\<not> stale n (r, v)"
    | (keep) "v = Inr True" "\<not> stale n (r, v)" "\<not> failing n (r, v)"
proof (cases r)
  case (fields start e t x)
  then show thesis using that by (cases v; cases "n \<le> e"; cases "v = Inr True") (auto simp: not_le)
qed

lemma validate_step:
  assumes "store_ok cells" "r \<in> set (runs cells)" "probe sp r s = (v, s')" "stale (length cells) (r, v)"
  shows "\<exists>c. validate_loop sp (forcing r # rs) dropped s cells = validate_loop sp rs True s' c \<and>
    store_ok c \<and> length c = length cells \<and> set (runs c) = set (runs cells) - {r}"
proof -
  obtain c where "free_range cells (fst r) (min (fst (snd r)) (length cells)) = Some c"
    "store_ok c" "length c = length cells" "set (runs c) = set (runs cells) - {r}"
    using free_run [OF assms(1,2)] by blast
  with assms(3,4) show ?thesis
    by (cases r) (auto simp: forcing_def probe_def Let_def)
qed

lemma validate_loop_verdicts:
  assumes "store_ok cells" "set rs \<subseteq> set (runs cells)" "distinct rs" "n = length cells"
  shows "\<exists>vs rest s' c. rs = map fst vs @ rest \<and> probed sp vs s s' \<and> (\<forall>x \<in> set (butlast vs). \<not> failing n x) \<and>
    (rest \<noteq> [] \<longrightarrow> vs \<noteq> [] \<and> failing n (last vs)) \<and>
    validate_loop sp (map forcing rs) dropped s cells = Some ((case verdict_answer n vs of Inl err \<Rightarrow> Inl err | Inr a \<Rightarrow> Inr (a \<or> dropped)), s', c) \<and>
    store_ok c \<and> length c = n \<and> set (runs c) = set (runs cells) - fst ` {x \<in> set vs. stale n x}"
  using assms
proof (induction rs arbitrary: cells dropped s)
  case Nil
  then show ?case by (intro exI [of _ "[]"]) (simp add: verdict_answer_def)
next
  case (Cons r rs)
  obtain v s1 where p: "probe sp r s = (v, s1)" by fastforce
  have later: ?case
    if nf: "\<not> failing n (r, v)" and c: "validate_loop sp (map forcing (r # rs)) dropped s cells = validate_loop sp (map forcing rs) d s1 c"
      "store_ok c" "length c = n" "set (runs c) = set (runs cells) - (if stale n (r, v) then {r} else {})" "d \<longleftrightarrow> stale n (r, v) \<or> dropped" for d c
  proof -
    have "set rs \<subseteq> set (runs c)" "distinct rs" "n = length c" using Cons.prems c(3,4) by auto
    from Cons.IH [OF c(2) this, where s = s1 and dropped = d] obtain vs rest s' c' where vs: "rs = map fst vs @ rest" "probed sp vs s1 s'" "\<forall>x \<in> set (butlast vs). \<not> failing n x"
        "rest \<noteq> [] \<longrightarrow> vs \<noteq> [] \<and> failing n (last vs)"
        "validate_loop sp (map forcing rs) d s1 c = Some ((case verdict_answer n vs of Inl err \<Rightarrow> Inl err | Inr a \<Rightarrow> Inr (a \<or> d)), s', c')"
        "store_ok c'" "length c' = n" "set (runs c') = set (runs c) - fst ` {x \<in> set vs. stale n x}"
      by blast
    have "(case verdict_answer n ((r, v) # vs) of Inl err \<Rightarrow> Inl err | Inr a \<Rightarrow> Inr (a \<or> dropped)) =
        (case verdict_answer n vs of Inl err \<Rightarrow> Inl err | Inr a \<Rightarrow> Inr (a \<or> d))"
      using nf c(5) by (auto simp: verdict_answer_def simp del: failing.simps stale.simps split: option.split sum.split)
    moreover have "{x \<in> set ((r, v) # vs). stale n x} = (if stale n (r, v) then {(r, v)} else {}) \<union> {x \<in> set vs. stale n x}"
      by (auto simp del: stale.simps)
    then have "set (runs c') = set (runs cells) - fst ` {x \<in> set ((r, v) # vs). stale n x}"
      unfolding vs(8) c(4) by (auto simp del: stale.simps)
    ultimately show ?thesis
      using vs c(1) p nf by (intro exI [of _ "(r, v) # vs"] exI [of _ rest] exI [of _ s'] exI [of _ c']) (auto simp del: failing.simps stale.simps)
  qed
  show ?case
  proof (cases rule: verdict_cases [of n r v])
    case stale
    obtain c where "validate_loop sp (forcing r # map forcing rs) dropped s cells = validate_loop sp (map forcing rs) True s1 c"
        "store_ok c" "length c = length cells" "set (runs c) = set (runs cells) - {r}"
      using validate_step [of cells r sp s v s1 "map forcing rs" dropped] Cons.prems p stale by auto
    moreover have "\<not> failing n (r, v)" using stale by (cases r) auto
    ultimately show ?thesis using later [of True c] stale Cons.prems(4) by (simp del: failing.simps stale.simps)
  next
    case (failing err)
    then have "validate_loop sp (map forcing (r # rs)) dropped s cells = Some (Inl err, s1, cells)"
      using p Cons.prems(4) by (cases r) (simp add: forcing_def probe_def)
    then show ?thesis
      using failing p Cons.prems by (intro exI [of _ "[(r, v)]"] exI [of _ rs] exI [of _ s1] exI [of _ cells])
        (auto simp: verdict_answer_def simp del: failing.simps stale.simps)
  next
    case keep
    then have "validate_loop sp (map forcing (r # rs)) dropped s cells = validate_loop sp (map forcing rs) dropped s1 cells"
      using p Cons.prems(4) by (cases r) (simp add: forcing_def probe_def not_le)
    then show ?thesis using keep(2,3) Cons.prems(1,4) by (intro later [of dropped cells]) simp_all
  qed
qed

lemma resize_runs:
  assumes "store_ok cells" "fits cells"
  shows "store_ok (resize cells n FreeCell)"
    and "set (runs (resize cells n FreeCell)) = {r \<in> set (runs cells). fst r < n}"
proof -
  let ?c = "resize cells n FreeCell"
  have nth: "?c ! i = (if i < length cells then cells ! i else FreeCell)" if "i < n" for i
    using that by (rule nth_resize)
  have runs': "(a, b, u, y) \<in> set (runs ?c) \<longleftrightarrow> (a, b, u, y) \<in> set (runs cells) \<and> a < n" for a b u y
    using nth [of a] by (auto simp: in_runs split: if_splits)
  then show "set (runs ?c) = {r \<in> set (runs cells). fst r < n}" by force
  show "store_ok ?c"
  proof (rule store_okI)
    fix a b u y
    assume m: "(a, b, u, y) \<in> set (runs ?c)"
    then show "a < b" using runs' store_okD(1) [OF assms(1)] by blast
    fix j
    assume j: "a < j" "j < b" "j < length ?c"
    have "b \<le> length cells" using m runs' assms(2) by (auto simp: fits_def)
    with j m nth [of j] runs' store_okD(2) [OF assms(1), of a b u y j] show "?c ! j = NoSearch a" by auto
  next
    fix i s
    assume i: "i < length ?c" "?c ! i = NoSearch s"
    then have "i < length cells" "cells ! i = NoSearch s" "i < n" using nth [of i] by (auto split: if_splits)
    with store_okD(3) [OF assms(1), of i s] runs' show "s < i \<and> (\<exists>e t x. (s, e, t, x) \<in> set (runs ?c) \<and> i < e)"
      by auto
  qed
qed

lemma runs_from_append: "runs_from k (xs @ ys) = runs_from k xs @ runs_from (k + length xs) ys"
  by (induction k xs rule: runs_from.induct) simp_all

lemma runs_from_free: "runs_from k (replicate m FreeCell) = []"
  by (induction m arbitrary: k) simp_all

lemma runs_from_take: "runs_from k (take n xs) = filter (\<lambda>r. fst r < k + n) (runs_from k xs)"
proof (induction xs arbitrary: k n)
  case (Cons c xs)
  show ?case
  proof (cases n)
    case 0
    have "\<forall>r \<in> set (runs_from k (c # xs)). \<not> fst r < k" by (auto simp: in_runs_from)
    then show ?thesis using 0 by (auto simp: filter_empty_conv [symmetric])
  next
    case (Suc m)
    then show ?thesis using Cons [of "k + 1" m] by (cases c) simp_all
  qed
qed simp

lemma runs_resize: "runs (resize cells n FreeCell) = filter (\<lambda>r. fst r < n) (runs cells)"
  using runs_from_take [of 0 n cells] by (simp add: runs_def resize_def runs_from_append runs_from_free)

lemma distinct_runs: "distinct (runs cells)"
  using runs_ascending [of cells] by (metis distinct_map strict_sorted_iff)

section \<open>Choosing another row\<close>

definition overlaps :: "nat \<times> nat \<times> phrase_token \<times> phrase_text \<Rightarrow> nat \<times> nat \<times> phrase_token \<times> phrase_text \<Rightarrow> bool" where
  "overlaps r d \<longleftrightarrow> fst r < fst (snd d) \<and> fst d < fst (snd r)"

text \<open>The phrases of a row as runs, up to the tail, and those that differ from the best row.\<close>

definition next_pos :: "phrase_span list \<Rightarrow> nat \<Rightarrow> nat" where
  "next_pos rest tail = (case rest of [] \<Rightarrow> tail | next # _ \<Rightarrow> span_start next)"

fun row_runs :: "phrase_span list \<Rightarrow> nat \<Rightarrow> (nat \<times> nat \<times> phrase_token \<times> phrase_text) list" where
  "row_runs [] tail = []"
| "row_runs (span # rest) tail =
     (span_start span, next_pos rest tail, span_token span, span_text span) # row_runs rest tail"

fun row_ok :: "phrase_span list \<Rightarrow> nat \<Rightarrow> bool" where
  "row_ok [] tail \<longleftrightarrow> True"
| "row_ok (span # rest) tail \<longleftrightarrow> span_start span < next_pos rest tail \<and> row_ok rest tail"

definition differs :: "phrase_span list \<Rightarrow> nat \<times> nat \<times> phrase_token \<times> phrase_text \<Rightarrow> bool" where
  "differs best r \<longleftrightarrow> best_token best (fst r) \<noteq> Some (fst (snd (snd r)))"

definition changes :: "phrase_span list \<Rightarrow> phrase_span list \<Rightarrow> nat \<Rightarrow> (nat \<times> nat \<times> phrase_token \<times> phrase_text) list" where
  "changes best other tail = filter (differs best) (row_runs other tail)"

lemma row_runs_bounds:
  assumes "row_ok row tail"
  shows "r \<in> set (row_runs row tail) \<Longrightarrow> next_pos row tail \<le> fst r \<and> fst r < fst (snd r) \<and> fst (snd r) \<le> tail"
    and "next_pos row tail \<le> tail"
  using assms
proof (induction row)
  case Nil
  {
    case 1
    then show ?case by simp
  next
    case 2
    then show ?case by (simp add: next_pos_def)
  }
next
  case (Cons span row)
  {
    case 1
    then show ?case using Cons.IH by (force simp: next_pos_def)
  next
    case 2
    then show ?case using Cons.IH by (simp add: next_pos_def)
  }
qed

lemma overlaps_in_run:
  assumes "fst r < fst (snd r)" "s < e"
  shows "(\<forall>i \<in> {s ..< e}. \<not> in_run i r) \<longleftrightarrow> \<not> overlaps r (s, e, t, x)"
proof
  assume "\<forall>i \<in> {s ..< e}. \<not> in_run i r"
  then have "\<not> in_run (max s (fst r)) r" if "fst r < e" using that assms by auto
  then show "\<not> overlaps r (s, e, t, x)" using assms by (auto simp: overlaps_def in_run_def)
qed (auto simp: overlaps_def in_run_def)

lemma diff_loop_runs:
  assumes "store_ok cells" "row_ok row tail" "tail \<le> length cells"
  shows "\<exists>c. diff_loop best tail row changed cells = Some (changed \<or> changes best row tail \<noteq> [], c) \<and>
    store_ok c \<and> length c = length cells \<and>
    set (runs c) = set (changes best row tail) \<union>
      {r \<in> set (runs cells). \<forall>d \<in> set (changes best row tail). \<not> overlaps r d}"
  using assms
proof (induction row arbitrary: cells changed)
  case Nil
  then show ?case by (simp add: changes_def)
next
  case (Cons span row)
  define d where "d = (span_start span, next_pos row tail, span_token span, span_text span)"
  show ?case
  proof (cases "differs best d")
    case False
    then have "changes best (span # row) tail = changes best row tail"
      "diff_loop best tail (span # row) changed cells = diff_loop best tail row changed cells"
      by (simp_all add: changes_def d_def differs_def)
    then show ?thesis using Cons by simp
  next
    case True
    let ?s = "span_start span" and ?e = "next_pos row tail"
    have se: "?s < ?e" "?e \<le> length cells"
      using Cons.prems row_runs_bounds(2) [of row tail] by auto
    obtain c where c: "add cells ?s ?e (span_token span) (span_text span) = Some (?e - ?s, c)"
      "store_ok c" "length c = length cells"
      "set (runs c) = insert d {r \<in> set (runs cells). \<forall>i \<in> {?s ..< ?e}. \<not> in_run i r}"
      using add_runs [OF Cons.prems(1) se, of "span_token span" "span_text span"] by (auto simp: d_def)
    have kept: "set (runs c) = insert d {r \<in> set (runs cells). \<not> overlaps r d}"
    proof -
      have "(\<forall>i \<in> {?s ..< ?e}. \<not> in_run i r) \<longleftrightarrow> \<not> overlaps r d" if "r \<in> set (runs cells)" for r
        unfolding d_def using that store_okD(1) [OF Cons.prems(1)] se(1)
        by (intro overlaps_in_run) (cases r, auto)
      then show ?thesis unfolding c(4) by blast
    qed
    have step: "diff_loop best tail (span # row) changed cells = diff_loop best tail row True c"
      using True c(1) se by (simp add: d_def differs_def next_pos_def Let_def)
    have ch: "changes best (span # row) tail = d # changes best row tail"
      using True by (simp add: changes_def d_def)
    have apart: "\<not> overlaps d q" if "q \<in> set (changes best row tail)" for q
      using that row_runs_bounds(1) [of row tail q] Cons.prems(2)
      by (auto simp: changes_def d_def overlaps_def)
    obtain c' where c': "diff_loop best tail row True c = Some (True, c')" "store_ok c'" "length c' = length c"
      "set (runs c') = set (changes best row tail) \<union>
        {r \<in> set (runs c). \<forall>d \<in> set (changes best row tail). \<not> overlaps r d}"
      using Cons.IH [of c True] Cons.prems c by auto
    have "set (runs c') = set (changes best (span # row) tail) \<union>
        {r \<in> set (runs cells). \<forall>q \<in> set (changes best (span # row) tail). \<not> overlaps r q}"
      unfolding c'(4) kept ch using apart by auto
    with c c' step ch show ?thesis by (intro exI [of _ c']) simp
  qed
qed

section \<open>Properties\<close>

text \<open>C7: forcing a span. On every well-formed store and every span inside the array, \<open>add\<close> does not
  panic, answers the span's length, keeps the store well-formed and of the same size, and the runs
  are then the new one and exactly the old runs that share no cell with it; a span that is empty or
  leaves the array is refused with 0 and changes nothing.\<close>

theorem add_spec:
  assumes "store_ok cells"
  shows "if s < e \<and> e \<le> length cells then
      \<exists>cells'. add cells s e t x = Some (e - s, cells') \<and> store_ok cells' \<and>
        length cells' = length cells \<and>
        set (runs cells') = insert (s, e, t, x) {r \<in> set (runs cells). \<forall>i \<in> {s ..< e}. \<not> in_run i r}
    else add cells s e t x = Some (0, cells)"
  using add_runs [OF assms] by (auto simp: add_def)

definition sample_store :: store where
  "sample_store = [OneStep 7 2 (Scalar [0x4F60]), NoSearch 0, FreeCell, OneStep 8 5 (Scalar [0x597D]), NoSearch 3, FreeCell]"

lemma sample_store_ok: "store_ok sample_store"
  by (simp add: store_ok_def sample_store_def cell_ok_def atLeast0_lessThan_Suc numeral_nat)

lemma sample_store_runs:
  "set (runs sample_store) = {(0, 2, 7, Scalar [0x4F60]), (3, 5, 8, Scalar [0x597D])}"
  "length sample_store = 6"
  by (simp_all add: sample_store_def runs_def numeral_3_eq_3)

theorem add_spec_witness:
  "\<exists>cells'. add sample_store 1 3 9 (Scalar [0x4E2D]) = Some (2, cells') \<and>
     set (runs cells') = {(1, 3, 9, Scalar [0x4E2D]), (3, 5, 8, Scalar [0x597D])}"
proof -
  have "{r \<in> set (runs sample_store). \<forall>i \<in> {1 ..< 3}. \<not> in_run i r} = {(3, 5, 8, Scalar [0x597D])}"
    unfolding sample_store_runs by (auto simp: in_run_def intro: bspec [of _ _ "1 :: nat"] dest: bspec [of _ _ "1 :: nat"])
  then show ?thesis using add_spec [OF sample_store_ok, of 1 3 9 "Scalar [0x4E2D]"] by (auto simp: sample_store_runs)
qed

text \<open>Clearing. \<open>clear_by_offset\<close> never panics on a well-formed store; at an offset that a run
  covers it answers true and frees that whole run and no other, and anywhere else, also past the
  end, it answers false and changes nothing.\<close>

theorem clear_by_offset_spec:
  assumes "store_ok cells"
  shows "\<exists>hit cells'. clear_by_offset cells i = Some (hit, cells') \<and>
    store_ok cells' \<and> length cells' = length cells \<and>
    (hit \<longleftrightarrow> i < length cells \<and> (\<exists>r \<in> set (runs cells). in_run i r)) \<and>
    set (runs cells') = {r \<in> set (runs cells). \<not> (i < length cells \<and> in_run i r)}"
proof (cases "i < length cells \<and> (\<exists>r \<in> set (runs cells). in_run i r)")
  case True
  then obtain r where r: "i < length cells" "r \<in> set (runs cells)" "in_run i r" by blast
  then have "set (runs cells) - {r} = {q \<in> set (runs cells). \<not> (i < length cells \<and> in_run i q)}"
    using runs_disjoint [OF assms] by blast
  then show ?thesis using clear_by_offset_run [OF assms r(2,3,1)] True by auto
next
  case False
  then have "clear_by_offset cells i = Some (False, cells)"
    by (cases "i < length cells")
       (simp_all add: clear_by_offset_free [OF assms], simp add: clear_by_offset_def get_at_def)
  then show ?thesis using False assms by auto
qed

text \<open>C31: validating. On a well-formed store whose runs lie inside the array, \<open>validate\<close> to \<open>n\<close> cells probes the runs
  that start inside the new array from left to right, overrunning ones included, each in the state the
  probe before it left, and stops after the first failed probe of a run that does not overrun; the state
  it leaves is that of the last probe. It drops exactly the probed runs that overrun or no longer spell.
  The answer is the error it stopped at or whether a run was dropped; after success every run ends before
  the tail slot. The store stays well-formed either way.\<close>

theorem validate_spec:
  fixes sp :: "('s, 'e) spelling_probe"
  assumes "store_ok cells" "fits cells"
  shows "\<exists>vs rest s' c. validate cells n sp s = Some (verdict_answer n vs, s', c) \<and>
    filter (\<lambda>r. fst r < n) (runs cells) = map fst vs @ rest \<and> probed sp vs s s' \<and>
    (\<forall>x \<in> set (butlast vs). \<not> failing n x) \<and> (rest \<noteq> [] \<longrightarrow> vs \<noteq> [] \<and> failing n (last vs)) \<and>
    store_ok c \<and> length c = n \<and> set (runs c) = {r \<in> set (runs cells). fst r < n} - fst ` {x \<in> set vs. stale n x} \<and>
    (\<not> isl (verdict_answer n vs) \<longrightarrow> rest = [] \<and> fits c \<and> (\<forall>(r, v) \<in> set vs. r \<in> set (runs c) \<longrightarrow> v = Inr True))"
proof -
  let ?c0 = "resize cells n FreeCell" and ?inside = "filter (\<lambda>r. fst r < n) (runs cells)"
  have ok: "store_ok ?c0" by (rule resize_runs [OF assms])
  have runs0: "runs ?c0 = ?inside" by (rule runs_resize)
  have v: "validate cells n sp s = validate_loop sp (map forcing ?inside) False s ?c0"
    using runs0 by (simp add: validate_def forcings_runs runs_def Let_def)
  have inside: "set ?inside \<subseteq> set (runs ?c0)" "distinct ?inside" "n = length ?c0"
    using distinct_runs [of cells] by (simp_all add: runs0)
  have same: "(case x of Inl err \<Rightarrow> Inl err | Inr a \<Rightarrow> Inr (a \<or> False)) = x" for x :: "'e + bool" by (cases x) simp_all
  from validate_loop_verdicts [OF ok inside, of sp s False, folded v, unfolded same runs0] obtain vs rest s' c
    where vs: "?inside = map fst vs @ rest" "probed sp vs s s'" "\<forall>x \<in> set (butlast vs). \<not> failing n x"
      "rest \<noteq> [] \<longrightarrow> vs \<noteq> [] \<and> failing n (last vs)" "validate cells n sp s = Some (verdict_answer n vs, s', c)"
      "store_ok c" "length c = n" "set (runs c) = set ?inside - fst ` {x \<in> set vs. stale n x}"
    by (elim exE conjE) (rule that; assumption)
  have "rest = [] \<and> fits c \<and> (\<forall>(r, v) \<in> set vs. r \<in> set (runs c) \<longrightarrow> v = Inr True)" if succ: "\<not> isl (verdict_answer n vs)"
  proof -
    have none: "\<not> failing n x" if x: "x \<in> set vs" for x
    proof
      assume "failing n x"
      then obtain y where y: "List.find (failing n) vs = Some y" "failing n y"
        using x by (metis find_None_iff find_Some_iff not_None_eq)
      then show False using succ by (cases y; cases "fst y") (auto simp: verdict_answer_def isl_def)
    qed
    then have rest: "rest = []" using vs(4) last_in_set by blast
    have kept: "v = Inr True \<and> fst (snd r) < n" if "(r, v) \<in> set vs" "r \<in> set (runs c)" for r v
    proof -
      have "\<not> stale n (r, v)" using that vs(8) by force
      then show ?thesis using none [OF that(1)] by (cases r; cases rule: verdict_cases [of n r v]) auto
    qed
    have "\<exists>v. (r, v) \<in> set vs" if "r \<in> set (runs c)" for r
    proof -
      have "r \<in> set (map fst vs @ rest)" unfolding vs(1) [symmetric] using that vs(8) by blast
      then show ?thesis using rest by force
    qed
    then have "fits c" using kept vs(7) by (fastforce simp: fits_def)
    then show ?thesis using rest kept by blast
  qed
  moreover have "set (runs c) = {r \<in> set (runs cells). fst r < n} - fst ` {x \<in> set vs. stale n x}" using vs(8) by simp
  ultimately show ?thesis using vs(1-7) by (intro exI [of _ vs] exI [of _ rest] exI [of _ s'] exI [of _ c] conjI) (assumption | blast)+
qed

text \<open>A probe that carries the token it last read. The run at 3 overruns five cells; its probe still happens.\<close>

definition carrying_probe :: "(u32, nat) spelling_probe" where
  "carrying_probe start run_end token len carried = (Inr (token = 7 \<and> carried = 0), token)"

theorem validate_spec_witness:
  "\<exists>c. validate sample_store 5 carrying_probe 0 = Some (Inr True, 8, c) \<and> set (runs c) = {(0, 2, 7, Scalar [0x4F60])} \<and> fits c"
proof -
  have fits: "fits sample_store" by (simp add: fits_def sample_store_runs)
  have runs: "runs sample_store = [(0, 2, 7, Scalar [0x4F60]), (3, 5, 8, Scalar [0x597D])]"
    by (simp add: sample_store_def runs_def numeral_3_eq_3)
  have never: "\<not> failing 5 x" if "probed carrying_probe vs a b" "x \<in> set vs" for x a b vs
    using that by (induction vs arbitrary: a) (auto simp: probe_def carrying_probe_def)
  from validate_spec [OF sample_store_ok fits, of 5 carrying_probe 0] show ?thesis
  proof (elim exE conjE, goal_cases)
    case v: (1 vs rest s' c)
    have "rest = []" using v(3,5) never last_in_set by blast
    then have "map fst vs = [(0, 2, 7, Scalar [0x4F60]), (3, 5, 8, Scalar [0x597D])]" using v(2) by (simp add: runs)
    then obtain a b where vs: "vs = [((0, 2, 7, Scalar [0x4F60]), a), ((3, 5, 8, Scalar [0x597D]), b)]"
      by (auto simp: map_eq_Cons_conv)
    have "a = Inr True" "b = Inr False" "s' = 8" using v(3) by (simp_all add: vs probe_def carrying_probe_def)
    then have answer: "verdict_answer 5 vs = Inr True" "{x \<in> set vs. stale 5 x} = {((3, 5, 8, Scalar [0x597D]), b)}"
      by (auto simp: vs verdict_answer_def)
    then have "set (runs c) = {(0, 2, 7, Scalar [0x4F60])}" using v(8) by (auto simp: runs)
    then show ?thesis using v(1,9) answer(1) \<open>s' = 8\<close> by simp
  qed
qed

text \<open>C32: choosing another sentence row. For a row of ascending phrases up to the tail, \<open>diff_result\<close>
  does not panic, forces exactly the phrases whose token differs from the best row's token at the
  same start, each up to the next phrase, frees exactly the old runs that overlap one of them, keeps
  the store well-formed, and answers whether the rows differ at all.\<close>

theorem diff_result_spec:
  assumes "store_ok cells" "row_ok other tail" "tail \<le> length cells"
  shows "\<exists>c. diff_result cells best other tail = Some (\<exists>r \<in> set (row_runs other tail). differs best r, c) \<and>
    store_ok c \<and> length c = length cells \<and>
    set (runs c) = {d \<in> set (row_runs other tail). differs best d} \<union>
      {r \<in> set (runs cells). \<forall>d \<in> set (row_runs other tail). differs best d \<longrightarrow> \<not> overlaps r d}"
proof -
  obtain c where c: "diff_loop best tail other False cells = Some (False \<or> changes best other tail \<noteq> [], c)"
    "store_ok c" "length c = length cells"
    "set (runs c) = set (changes best other tail) \<union>
      {r \<in> set (runs cells). \<forall>d \<in> set (changes best other tail). \<not> overlaps r d}"
    using diff_loop_runs [OF assms, of best False] by blast
  have "(changes best other tail \<noteq> []) = (\<exists>r \<in> set (row_runs other tail). differs best r)"
    by (simp add: changes_def filter_empty_conv)
  moreover have "set (runs c) = {d \<in> set (row_runs other tail). differs best d} \<union>
      {r \<in> set (runs cells). \<forall>d \<in> set (row_runs other tail). differs best d \<longrightarrow> \<not> overlaps r d}"
    unfolding c(4) changes_def set_filter by blast
  ultimately show ?thesis using c(1-3) by (intro exI [of _ c]) (simp add: diff_result_def)
qed

definition sample_best :: "phrase_span list" where
  "sample_best = [\<lparr>span_start = 0, span_token = 7, span_text = Scalar [0x4F60]\<rparr>,
     \<lparr>span_start = 2, span_token = 9, span_text = Scalar [0x597D]\<rparr>]"

definition sample_other :: "phrase_span list" where
  "sample_other = [\<lparr>span_start = 0, span_token = 7, span_text = Scalar [0x4F60]\<rparr>,
     \<lparr>span_start = 2, span_token = 11, span_text = Scalar [0x53F7]\<rparr>]"

theorem diff_result_spec_witness:
  "\<exists>c. diff_result sample_store sample_best sample_other 5 = Some (True, c) \<and>
     set (runs c) = {(2, 5, 11, Scalar [0x53F7]), (0, 2, 7, Scalar [0x4F60])}"
proof -
  have row: "row_runs sample_other 5 = [(0, 2, 7, Scalar [0x4F60]), (2, 5, 11, Scalar [0x53F7])]"
    by (simp add: sample_other_def next_pos_def)
  have "row_ok sample_other 5" by (simp add: sample_other_def next_pos_def)
  moreover have d: "\<not> differs sample_best (0, 2, 7, Scalar [0x4F60])" "differs sample_best (2, 5, 11, Scalar [0x53F7])"
    by (simp_all add: differs_def best_token_def sample_best_def)
  moreover have "{d \<in> set (row_runs sample_other 5). differs sample_best d} = {(2, 5, 11, Scalar [0x53F7])}"
    using d by (auto simp: row)
  moreover have "{r \<in> set (runs sample_store). \<forall>d \<in> set (row_runs sample_other 5). differs sample_best d \<longrightarrow> \<not> overlaps r d} =
      {(0, 2, 7, Scalar [0x4F60])}"
    using d by (auto simp: row sample_store_runs overlaps_def)
  ultimately show ?thesis
    using diff_result_spec [OF sample_store_ok, of sample_other 5 sample_best]
    by (auto simp: sample_store_runs row)
qed

end
