(* ===== verification/ChewingKey.thy ===== *)
theory ChewingKey
  imports PhraseText
begin

text \<open>
  \<open>crates/oxpinyin-chewing/src/chewing_key.rs\<close> and \<open>chewing_key_data.rs\<close>: one pinyin key, its packed
  16-bit form, its row in the content table, its renderings and the lookup of a spelling. The
  content tables themselves are generated data: the flat index table, the display strings and the
  sorted spelling rows are arguments.
\<close>

section \<open>The key\<close>

record chewing_key =
  key_initial :: u8
  key_middle :: u8
  key_final :: u8
  key_tone :: u8

definition key_new :: "u8 \<Rightarrow> u8 \<Rightarrow> u8 \<Rightarrow> u8 \<Rightarrow> chewing_key" where
  "key_new i m f t = \<lparr>key_initial = i, key_middle = m, key_final = f, key_tone = t\<rparr>"

definition key_zero :: chewing_key where
  "key_zero = key_new 0 0 0 0"

definition with_tone :: "chewing_key \<Rightarrow> u8 \<Rightarrow> chewing_key" where
  "with_tone k t = k\<lparr>key_tone := t\<rparr>"

definition NUM_INITIALS :: nat where
  "NUM_INITIALS = 24"

definition NUM_MIDDLES :: nat where
  "NUM_MIDDLES = 4"

definition NUM_FINALS :: nat where
  "NUM_FINALS = 18"

definition elements_in_dims :: "chewing_key \<Rightarrow> bool" where
  "elements_in_dims k \<longleftrightarrow> unat (key_initial k) < NUM_INITIALS \<and> unat (key_middle k) < NUM_MIDDLES \<and>
     unat (key_final k) < NUM_FINALS"

definition tone_in_dims :: "chewing_key \<Rightarrow> bool" where
  "tone_in_dims k \<longleftrightarrow> key_tone k < 6"

text \<open>\<open>CHEWING_KEY_TABLE\<close> is the argument \<open>table\<close>; \<open>usize::try_from(entry).unwrap_or(0)\<close> maps the
  invalid \<open>-1\<close> to 0. \<open>None\<close> stands for an index past the table.\<close>

definition table_index :: "int list \<Rightarrow> chewing_key \<Rightarrow> nat option" where
  "table_index table k =
     (let i = unat (key_initial k); m = unat (key_middle k); f = unat (key_final k) in
      if NUM_INITIALS \<le> i \<or> NUM_MIDDLES \<le> m \<or> NUM_FINALS \<le> f then Some 0
      else map_option nat (get_at table ((i * NUM_MIDDLES + m) * NUM_FINALS + f)))"

definition to_packed :: "chewing_key \<Rightarrow> u16" where
  "to_packed k =
     (ucast (key_initial k) AND 0x1f) OR
     push_bit 5 (ucast (key_middle k) AND 0x3) OR
     push_bit 7 (ucast (key_final k) AND 0x1f) OR
     push_bit 12 (ucast (key_tone k) AND 0x7)"

definition from_packed :: "u16 \<Rightarrow> chewing_key" where
  "from_packed bits = \<lparr>
     key_initial = ucast (bits AND 0x1f),
     key_middle = ucast (drop_bit 5 bits AND 0x3),
     key_final = ucast (drop_bit 7 bits AND 0x1f),
     key_tone = ucast (drop_bit 12 bits AND 0x7)\<rparr>"

section \<open>Renderings\<close>

datatype key_text = Plain str | Digit str u8 | Mark str str

definition CHEWING_ZERO_TONE :: u8 where
  "CHEWING_ZERO_TONE = 0"

definition digit :: "u8 \<Rightarrow> u32 option" where
  "digit t = (if t \<le> 9 then Some (ucast (0x30 + t)) else None)"

definition digit_text :: "str \<Rightarrow> u8 \<Rightarrow> key_text" where
  "digit_text b t = (if t = CHEWING_ZERO_TONE \<or> digit t = None then Plain b else Digit b t)"

definition tone_symbol :: "u8 \<Rightarrow> str" where
  "tone_symbol t =
     (if t = 1 then [0x20] else if t = 2 then [0x2CA] else if t = 3 then [0x2C7]
      else if t = 4 then [0x2CB] else if t = 5 then [0x2D9] else [])"

text \<open>The decimal digits of a \<open>u8\<close>, as \<open>Display\<close> writes them.\<close>

definition u8_display :: "u8 \<Rightarrow> str" where
  "u8_display t =
     (let n = unat t in
      (if 100 \<le> n then [0x30 + of_nat (n div 100)] else []) @
      (if 10 \<le> n then [0x30 + of_nat (n div 10 mod 10)] else []) @
      [0x30 + of_nat (n mod 10)])"

fun key_text_display :: "key_text \<Rightarrow> str" where
  "key_text_display (Plain b) = b"
| "key_text_display (Digit b t) = b @ u8_display t"
| "key_text_display (Mark b m) = b @ m"

text \<open>The display strings are the argument \<open>field\<close>: row and column to a string.\<close>

definition content_string :: "int list \<Rightarrow> (nat \<Rightarrow> nat \<Rightarrow> str option) \<Rightarrow> chewing_key \<Rightarrow> nat \<Rightarrow> str" where
  "content_string table field k column =
     (case Option.bind (table_index table k) (\<lambda>row. field row column) of Some s \<Rightarrow> s | None \<Rightarrow> [])"

definition pinyin_spelling :: "int list \<Rightarrow> (nat \<Rightarrow> nat \<Rightarrow> str option) \<Rightarrow> chewing_key \<Rightarrow> str" where
  "pinyin_spelling table field k = content_string table field k 0"

definition pinyin_text :: "int list \<Rightarrow> (nat \<Rightarrow> nat \<Rightarrow> str option) \<Rightarrow> chewing_key \<Rightarrow> key_text" where
  "pinyin_text table field k = digit_text (content_string table field k 0) (key_tone k)"

definition shengmu_string :: "int list \<Rightarrow> (nat \<Rightarrow> nat \<Rightarrow> str option) \<Rightarrow> chewing_key \<Rightarrow> str" where
  "shengmu_string table field k = content_string table field k 1"

definition yunmu_string :: "int list \<Rightarrow> (nat \<Rightarrow> nat \<Rightarrow> str option) \<Rightarrow> chewing_key \<Rightarrow> str" where
  "yunmu_string table field k = content_string table field k 2"

definition zhuyin_text :: "int list \<Rightarrow> (nat \<Rightarrow> nat \<Rightarrow> str option) \<Rightarrow> chewing_key \<Rightarrow> key_text" where
  "zhuyin_text table field k =
     (let b = content_string table field k 3 in
      if 2 \<le> key_tone k \<and> key_tone k \<le> 5 then Mark b (tone_symbol (key_tone k)) else Plain b)"

definition luoma_pinyin_text :: "int list \<Rightarrow> (nat \<Rightarrow> nat \<Rightarrow> str option) \<Rightarrow> chewing_key \<Rightarrow> key_text" where
  "luoma_pinyin_text table field k = digit_text (content_string table field k 4) (key_tone k)"

definition secondary_zhuyin_text :: "int list \<Rightarrow> (nat \<Rightarrow> nat \<Rightarrow> str option) \<Rightarrow> chewing_key \<Rightarrow> key_text" where
  "secondary_zhuyin_text table field k = digit_text (content_string table field k 5) (key_tone k)"

section \<open>Lookup of a spelling\<close>

record content_key =
  row_spelling :: u64
  row_initial :: u8
  row_middle :: u8
  row_final :: u8

text \<open>\<open>u64::from_be_bytes\<close>.\<close>

definition be_u64 :: "bytes \<Rightarrow> u64" where
  "be_u64 bs = le_word (rev bs)"

definition spelling_key :: "str \<Rightarrow> u64 option" where
  "spelling_key s =
     (let bs = as_bytes s in
      if 8 < length bs \<or> 0 \<in> set bs then None
      else Some (be_u64 (overwrite (replicate 8 0) 0 bs)))"

text \<open>\<open>binary_search_by\<close> of the standard library: the same halving as \<open>partition_point\<close>, moving to \<open>mid\<close>
  unless the probe is greater, then one comparison at \<open>base\<close>.\<close>

function bs_loop :: "(nat \<Rightarrow> ordering) \<Rightarrow> nat \<Rightarrow> nat \<Rightarrow> nat" where
  "bs_loop cmp base sz =
     (if 1 < sz then
        (let half = sz div 2; mid = base + half
         in bs_loop cmp (if cmp mid = Greater then base else mid) (sz - half))
      else base)"
  by pat_completeness auto
termination
  by (relation "measure (\<lambda>(cmp, base, sz). sz)") auto

declare bs_loop.simps [simp del]

definition binary_search_by :: "('a \<Rightarrow> ordering) \<Rightarrow> 'a list \<Rightarrow> nat option" where
  "binary_search_by f xs =
     (if xs = [] then None
      else let b = bs_loop (\<lambda>i. f (xs ! i)) 0 (length xs)
           in if f (xs ! b) = Equal then Some b else None)"

definition from_pinyin :: "content_key list \<Rightarrow> str \<Rightarrow> chewing_key option" where
  "from_pinyin content_keys s =
     Option.bind (spelling_key s) (\<lambda>spelling.
     Option.bind (binary_search_by (\<lambda>row. cmp_of (row_spelling row) spelling) content_keys) (\<lambda>position.
     map_option (\<lambda>row. \<lparr>key_initial = row_initial row, key_middle = row_middle row,
         key_final = row_final row, key_tone = CHEWING_ZERO_TONE\<rparr>)
       (get_at content_keys position)))"

section \<open>Packing\<close>

text \<open>The keys whose elements fit their bit fields.\<close>

definition key_fits :: "chewing_key \<Rightarrow> bool" where
  "key_fits k \<longleftrightarrow> key_initial k < 32 \<and> key_middle k < 4 \<and> key_final k < 32 \<and> key_tone k < 8"

lemma mask_bits:
  "(0x1f :: 'a::len word) = mask 5" "(0x3 :: 'a::len word) = mask 2" "(0x7 :: 'a::len word) = mask 3"
  by (simp_all add: mask_eq_exp_minus_1)

lemma small_take_bit:
  "n \<in> {2, 3, 5} \<Longrightarrow> take_bit n b = b \<longleftrightarrow> (b :: u8) < 2 ^ n"
  by (auto simp: word_unat_eq_iff unsigned_take_bit_eq take_bit_nat_eq_self_iff word_less_nat_alt)

lemma to_packed_bits:
  "bit (to_packed k) n \<longleftrightarrow>
     (if n < 5 then bit (key_initial k) n
      else if n < 7 then bit (key_middle k) (n - 5)
      else if n < 12 then bit (key_final k) (n - 7)
      else n < 15 \<and> bit (key_tone k) (n - 12))"
  by (auto simp: to_packed_def mask_bits bit_or_iff bit_push_bit_iff bit_and_iff bit_mask_iff bit_ucast_iff)

lemma from_to_packed:
  assumes "key_fits k"
  shows "from_packed (to_packed k) = k"
proof -
  have small: "take_bit 5 (key_initial k) = key_initial k" "take_bit 2 (key_middle k) = key_middle k"
    "take_bit 5 (key_final k) = key_final k" "take_bit 3 (key_tone k) = key_tone k"
    using assms by (simp_all add: small_take_bit key_fits_def)
  have "ucast (to_packed k AND 0x1f) = take_bit 5 (key_initial k)"
    "ucast (drop_bit 5 (to_packed k) AND 0x3) = take_bit 2 (key_middle k)"
    "ucast (drop_bit 7 (to_packed k) AND 0x1f) = take_bit 5 (key_final k)"
    "ucast (drop_bit 12 (to_packed k) AND 0x7) = take_bit 3 (key_tone k)"
    unfolding mask_bits
    by (rule bit_word_eqI; auto simp: bit_ucast_iff bit_and_iff bit_mask_iff bit_take_bit_iff
        bit_drop_bit_eq to_packed_bits)+
  then show ?thesis using small by (cases k) (simp add: from_packed_def)
qed

lemma to_from_packed: "to_packed (from_packed bits) = take_bit 15 bits"
proof (rule bit_word_eqI)
  fix n
  show "bit (to_packed (from_packed bits)) n = bit (take_bit 15 bits) n"
    by (auto simp: to_packed_bits from_packed_def bit_ucast_iff bit_and_iff mask_bits bit_mask_iff
        bit_drop_bit_eq bit_take_bit_iff)
qed

lemma from_packed_fits: "key_fits (from_packed bits)"
proof -
  have m: "ucast (w AND mask n) < (2 ^ n :: u8)" if "n \<in> {2, 3, 5}" for w :: u16 and n
  proof -
    have "take_bit n (ucast (w AND mask n) :: u8) = ucast (w AND mask n)"
      by (rule bit_word_eqI) (auto simp: bit_take_bit_iff bit_ucast_iff bit_and_iff bit_mask_iff)
    then show ?thesis using that by (simp add: small_take_bit)
  qed
  show ?thesis
    using m [of 5] m [of 2] m [of 3] by (simp add: key_fits_def from_packed_def mask_bits)
qed

section \<open>Spellings\<close>

lemma bs_loop_spec:
  assumes "0 < sz" "\<And>i j. base \<le> i \<Longrightarrow> i < j \<Longrightarrow> j < base + sz \<Longrightarrow> cmp i \<noteq> Less \<Longrightarrow> cmp j = Greater"
    and "base \<le> k" "k < base + sz" "cmp k = Equal"
  shows "bs_loop cmp base sz = k"
  using assms
proof (induction cmp base sz rule: bs_loop.induct)
  case (1 cmp base sz)
  show ?case
  proof (cases "1 < sz")
    case True
    let ?m = "base + sz div 2"
    have "cmp ?m = Greater \<longleftrightarrow> k < ?m"
    proof
      assume g: "cmp ?m = Greater"
      show "k < ?m"
      proof (rule ccontr)
        assume "\<not> k < ?m"
        then have "?m < k \<or> ?m = k" by auto
        then show False using g "1.prems"(2) [of ?m k] "1.prems" True by auto
      qed
    next
      assume "k < ?m"
      then show "cmp ?m = Greater" using "1.prems"(2) [of k ?m] "1.prems" True by simp
    qed
    moreover have "base \<le> i \<Longrightarrow> i < j \<Longrightarrow> j < base + sz \<Longrightarrow> cmp i \<noteq> Less \<Longrightarrow> cmp j = Greater" for i j
      by (rule "1.prems"(2))
    ultimately have "bs_loop cmp (if cmp ?m = Greater then base else ?m) (sz - sz div 2) = k"
      using "1.prems"(3-5) True by (intro "1.IH") (auto split: if_splits dest: add_leD1)
    then show ?thesis using True by (subst bs_loop.simps) (simp add: Let_def)
  next
    case False
    then show ?thesis using "1.prems" by (subst bs_loop.simps) auto
  qed
qed

lemma bs_loop_bound: "0 < sz \<Longrightarrow> base \<le> bs_loop cmp base sz \<and> bs_loop cmp base sz < base + sz"
proof (induction cmp base sz rule: bs_loop.induct)
  case (1 cmp base sz)
  show ?case
  proof (cases "1 < sz")
    case True
    let ?m = "base + sz div 2"
    let ?b = "if cmp ?m = Greater then base else ?m"
    have "?b \<le> bs_loop cmp ?b (sz - sz div 2) \<and> bs_loop cmp ?b (sz - sz div 2) < ?b + (sz - sz div 2)"
      using "1.IH" [OF True] True by simp
    moreover have "?b + (sz - sz div 2) \<le> base + sz" "base \<le> ?b" by auto
    ultimately show ?thesis using True by (subst (1 2) bs_loop.simps) (simp add: Let_def)
  next
    case False
    then show ?thesis using "1.prems" by (subst (1 2) bs_loop.simps) auto
  qed
qed

lemma le_word_inject:
  "8 * length as \<le> LENGTH('a::len) \<Longrightarrow> length bs = length as \<Longrightarrow>
   (le_word as :: 'a word) = le_word bs \<longleftrightarrow> as = bs"
  by (metis le_bytes_le_word)

lemma spelling_key_inject:
  assumes "str_ok a" "str_ok b" "spelling_key a = Some x" "spelling_key b = Some x"
  shows "a = b"
proof -
  let ?pad = "\<lambda>s. as_bytes s @ replicate (8 - length (as_bytes s)) 0"
  have key: "spelling_key s = Some x \<Longrightarrow> length (as_bytes s) \<le> 8 \<and> 0 \<notin> set (as_bytes s) \<and>
      x = le_word (rev (?pad s))" for s
    by (auto simp: spelling_key_def be_u64_def overwrite_def Let_def split: if_splits)
  have pad: "takeWhile (\<lambda>b. b \<noteq> 0) (?pad s) = as_bytes s" if "0 \<notin> set (as_bytes s)" for s
    using that by (cases "8 - length (as_bytes s)") (auto simp: takeWhile_append takeWhile_eq_all_conv)
  from key [OF assms(3)] key [OF assms(4)] have "rev (?pad a) = rev (?pad b)"
    using le_word_inject [of "rev (?pad a)" "rev (?pad b)", where 'a = 64] by simp
  then have "as_bytes a = as_bytes b"
    using pad [of a] pad [of b] key [OF assms(3)] key [OF assms(4)] by (metis rev_rev_ident)
  then show ?thesis using as_bytes_eq assms by blast
qed

lemma ascending_cmp:
  assumes "sorted_wrt (<) (map row_spelling rows)" "i < j" "j < length rows"
    and "cmp_of (row_spelling (rows ! i)) x \<noteq> Less"
  shows "cmp_of (row_spelling (rows ! j)) x = Greater"
proof -
  have "row_spelling (rows ! i) < row_spelling (rows ! j)"
    using assms(1-3) by (simp add: sorted_wrt_iff_nth_less)
  then show ?thesis using assms(4) by (auto simp: cmp_of_def split: if_splits)
qed

lemma binary_search_rows:
  assumes "sorted_wrt (<) (map row_spelling rows)"
  shows "binary_search_by (\<lambda>row. cmp_of (row_spelling row) x) rows = Some p \<longleftrightarrow>
      p < length rows \<and> row_spelling (rows ! p) = x"
proof
  assume "binary_search_by (\<lambda>row. cmp_of (row_spelling row) x) rows = Some p"
  then show "p < length rows \<and> row_spelling (rows ! p) = x"
    using bs_loop_bound [of "length rows" 0 "\<lambda>i. cmp_of (row_spelling (rows ! i)) x"]
    by (auto simp: binary_search_by_def Let_def split: if_splits)
next
  assume p: "p < length rows \<and> row_spelling (rows ! p) = x"
  then have "bs_loop (\<lambda>i. cmp_of (row_spelling (rows ! i)) x) 0 (length rows) = p"
    using ascending_cmp [OF assms] by (intro bs_loop_spec) auto
  with p show "binary_search_by (\<lambda>row. cmp_of (row_spelling row) x) rows = Some p"
    by (auto simp: binary_search_by_def Let_def)
qed

section \<open>Properties\<close>

text \<open>Packing. A key survives the packed form exactly when each element fits its bit field, every
  unpacked key fits, and repacking any 16 bits clears the padding bit and nothing else.\<close>

theorem packed_roundtrip:
  "(from_packed (to_packed k) = k \<longleftrightarrow> key_fits k) \<and> key_fits (from_packed bits) \<and>
   to_packed (from_packed bits) = bits AND 0x7FFF"
proof -
  have "(0x7FFF :: u16) = mask 15" by (simp add: mask_eq_exp_minus_1)
  then have "bits AND 0x7FFF = take_bit 15 bits" by (simp add: take_bit_eq_mask)
  then show ?thesis
    using from_to_packed [of k] from_packed_fits [of "to_packed k"] from_packed_fits [of bits]
      to_from_packed [of bits] by auto
qed

text \<open>Looking a spelling up. On a content table with strictly ascending spelling keys,
  \<open>from_pinyin\<close> answers the tone-zero key of the one row that carries the spelling's integer key,
  and \<open>None\<close> when there is none; and two different spellings never share an integer key, so the row
  found is that spelling's own.\<close>

theorem from_pinyin_spec:
  assumes "sorted_wrt (<) (map row_spelling rows)" "str_ok s" "str_ok s'"
  shows "(from_pinyin rows s = Some k \<longleftrightarrow>
      (\<exists>row \<in> set rows. spelling_key s = Some (row_spelling row) \<and>
         k = key_new (row_initial row) (row_middle row) (row_final row) 0)) \<and>
    (spelling_key s \<noteq> None \<and> spelling_key s = spelling_key s' \<longrightarrow> s = s')"
proof
  show "spelling_key s \<noteq> None \<and> spelling_key s = spelling_key s' \<longrightarrow> s = s'"
    using spelling_key_inject [OF assms(2,3)] by (metis not_Some_eq)
  show "from_pinyin rows s = Some k \<longleftrightarrow>
      (\<exists>row \<in> set rows. spelling_key s = Some (row_spelling row) \<and>
         k = key_new (row_initial row) (row_middle row) (row_final row) 0)"
  proof (cases "spelling_key s")
    case (Some x)
    have "from_pinyin rows s = Some k \<longleftrightarrow>
        (\<exists>p. p < length rows \<and> row_spelling (rows ! p) = x \<and>
          k = key_new (row_initial (rows ! p)) (row_middle (rows ! p)) (row_final (rows ! p)) 0)"
      using Some binary_search_rows [OF assms(1), of x]
      by (auto simp: from_pinyin_def get_at_def key_new_def CHEWING_ZERO_TONE_def bind_eq_Some_conv)
    also have "\<dots> \<longleftrightarrow> (\<exists>row \<in> set rows. row_spelling row = x \<and>
        k = key_new (row_initial row) (row_middle row) (row_final row) 0)"
      by (metis in_set_conv_nth)
    finally show ?thesis using Some by auto
  qed (simp add: from_pinyin_def)
qed

end
