(* ===== verification/RecordCodec.thy ===== *)
theory RecordCodec
  imports OxPrelude
begin

text \<open>
  The contract of a fixed-width record: what every packed array of the program's file formats relies
  on. A record encodes to exactly \<open>width\<close> bytes and decodes back from them; the array of records is
  their concatenation, read back by \<open>as_chunks\<close>. The client lemmas are proved once for all widths
  and interpreted on the codecs of the model.
\<close>

locale fixed_record =
  fixes width :: nat
    and valid :: "'a \<Rightarrow> bool"
    and enc :: "'a \<Rightarrow> bytes"
    and dec :: "bytes \<Rightarrow> 'a"
  assumes width_pos: "0 < width"
    and enc_width: "valid a \<Longrightarrow> length (enc a) = width"
    and dec_enc: "valid a \<Longrightarrow> dec (enc a) = a"
begin

lemma enc_widths: "\<forall>a \<in> set as. valid a \<Longrightarrow> \<forall>b \<in> set (map enc as). length b = width"
  by (auto simp: enc_width)

lemma length_array: "\<forall>a \<in> set as. valid a \<Longrightarrow> length (concat (map enc as)) = width * length as"
  using length_concat_const [OF enc_widths] by simp

lemma chunks_array:
  "\<forall>a \<in> set as. valid a \<Longrightarrow> length rest < width \<Longrightarrow> chunks width (concat (map enc as) @ rest) = map enc as"
  by (rule chunks_concat(1) [OF width_pos enc_widths])

lemma array_codec:
  assumes "\<forall>a \<in> set as. valid a" "length rest < width"
  shows "map dec (chunks width (concat (map enc as) @ rest)) = as"
  using assms by (simp add: chunks_array map_idI dec_enc)

lemma array_codec_exact:
  assumes "\<forall>a \<in> set as. valid a"
  shows "map dec (chunks width (concat (map enc as))) = as"
  using array_codec [OF assms, of "[]"] width_pos by simp

lemma nth_array:
  assumes "\<forall>a \<in> set as. valid a" "i < length as"
  shows "take width (drop (width * i) (concat (map enc as) @ rest)) = enc (as ! i)"
  using nth_concat_const [OF enc_widths [OF assms(1)], of i rest] assms(2) by simp

lemma enc_inject: "valid a \<Longrightarrow> valid b \<Longrightarrow> enc a = enc b \<longleftrightarrow> a = b"
  by (metis dec_enc)

end

interpretation u32s: fixed_record 4 "\<lambda>_. True" u32_le le_u32
  by unfold_locales simp_all

interpretation u16s: fixed_record 2 "\<lambda>_. True" u16_le le_u16
  by unfold_locales simp_all

text \<open>Back to bytes: an array of whole little-endian words is the encoding of its decoding.\<close>

lemma u32s_bytes: "length bs mod 4 = 0 \<Longrightarrow> concat (map u32_le (map le_u32 (chunks 4 bs))) = bs"
proof -
  assume m: "length bs mod 4 = 0"
  have "map u32_le (map le_u32 (chunks 4 bs)) = chunks 4 bs"
    by (simp add: map_idI length_chunks_elem)
  moreover have "length bs = 4 * length (chunks 4 bs) + length (chunks_tail 4 bs)"
    using arg_cong [OF chunks_decompose [of 4 bs], of length]
      length_concat_const [of "chunks 4 bs" 4] length_chunks_elem [of _ 4 bs]
    by (metis length_append)
  then have "length (chunks_tail 4 bs) mod 4 = 0" using m by (metis mod_mult_self4)
  then have "chunks_tail 4 bs = []" using length_chunks_tail [of 4 bs] by simp
  ultimately show ?thesis using chunks_decompose [of 4 bs] by simp
qed

end
