(* ===== verification/RowFormat.thy ===== *)
theory RowFormat
  imports RecordCodec ChewingKey SingleGram
begin

text \<open>
  \<open>crates/oxpinyin-data/src/row_format.rs\<close>: the key and value layouts of the four table files, each
  with its encoder and its decoder. The reader and the compiler both go through these functions, so
  what has to hold is that every value one half writes is the value the other half reads.
\<close>

section \<open>The encoders and decoders\<close>

definition encode_token_key :: "u32 \<Rightarrow> bytes" where
  "encode_token_key token = u32_le token"

definition push_ucs4 :: "bytes \<Rightarrow> u32 list \<Rightarrow> bytes" where
  "push_ucs4 buf codes = foldl (\<lambda>buf code. buf @ u32_le code) buf codes"

text \<open>The refusals, all \<open>DictError::Parse\<close> with these messages.\<close>

datatype dict_error =
    NoPhraseLength
  | PinyinStride nat nat nat
  | PhraseValueLength nat
  | BigramValueLength nat

subsection \<open>\<open>pinyin_index.bin\<close>\<close>

text \<open>\<open>(raw + 3) & !3\<close>.\<close>

definition item2_stride :: "nat \<Rightarrow> nat" where
  "item2_stride phrase_len = (let raw = 4 + 2 * phrase_len in (raw + 3) div 4 * 4)"

definition pack :: "chewing_key \<Rightarrow> bytes" where
  "pack key = u16_le (to_packed key)"

definition encode_complete_key :: "chewing_key list \<Rightarrow> bytes" where
  "encode_complete_key keys = foldl (\<lambda>buf key.
     buf @ pack (key_new (key_initial key) (key_middle key) (key_final key) 0)) [] keys"

definition encode_incomplete_key :: "chewing_key list \<Rightarrow> bytes" where
  "encode_incomplete_key keys = foldl (\<lambda>buf key. buf @ pack (key_new (key_initial key) 0 0 0)) [] keys"

record pinyin_index_item =
  item_tok :: u32
  item_keys :: "chewing_key list"

definition view_keys :: "bytes \<Rightarrow> chewing_key list" where
  "view_keys packed = map (\<lambda>b. from_packed (le_u16 b)) (chunks 2 packed)"

definition item_views :: "bytes \<Rightarrow> nat \<Rightarrow> dict_error + (u32 \<times> bytes) list" where
  "item_views val phrase_len =
     (let check =
        (if val = [] then Inr (1, 0)
         else if phrase_len = 0 then Inl NoPhraseLength
         else let stride = item2_stride phrase_len in
           if length val mod stride \<noteq> 0 then Inl (PinyinStride (length val) stride phrase_len)
           else Inr (stride, 2 * phrase_len))
      in case check of
           Inl e \<Rightarrow> Inl e
         | Inr (stride, key_bytes) \<Rightarrow>
             Inr (map (\<lambda>r. (le_u32 (take 4 r), take key_bytes (drop 4 r))) (chunks stride val)))"

fun put_keys :: "bytes \<Rightarrow> nat \<Rightarrow> chewing_key list \<Rightarrow> bytes" where
  "put_keys buf index [] = buf"
| "put_keys buf index (key # keys) = put_keys (overwrite buf (4 + 2 * index) (pack key)) (index + 1) keys"

definition encode_item :: "u32 \<Rightarrow> chewing_key list \<Rightarrow> bytes" where
  "encode_item token keys =
     (let buf = replicate (item2_stride (length keys)) 0;
          buf = overwrite buf 0 (u32_le token)
      in put_keys buf 0 keys)"

definition decode_items :: "bytes \<Rightarrow> nat \<Rightarrow> dict_error + pinyin_index_item list" where
  "decode_items val phrase_len = (case item_views val phrase_len of
     Inl e \<Rightarrow> Inl e
   | Inr views \<Rightarrow> Inr (map (\<lambda>(t, ks). \<lparr>item_tok = t, item_keys = view_keys ks\<rparr>) views))"

subsection \<open>\<open>phrase_index.bin\<close>\<close>

definition encode_ucs4_key :: "str \<Rightarrow> bytes" where
  "encode_ucs4_key chs = push_ucs4 [] chs"

definition encode_ucs4_key_scalars :: "u32 list \<Rightarrow> bytes" where
  "encode_ucs4_key_scalars codes = push_ucs4 [] codes"

fun decode_ucs4_loop :: "bytes list \<Rightarrow> str \<Rightarrow> str option" where
  "decode_ucs4_loop [] chs = Some chs"
| "decode_ucs4_loop (chunk # rest) chs = (case char_from_u32 (le_u32 chunk) of
     None \<Rightarrow> None
   | Some c \<Rightarrow> decode_ucs4_loop rest (chs @ [c]))"

definition decode_ucs4_key :: "bytes \<Rightarrow> str option" where
  "decode_ucs4_key key = (if length key mod 4 \<noteq> 0 then None else decode_ucs4_loop (chunks 4 key) [])"

definition encode_tokens :: "u32 list \<Rightarrow> bytes" where
  "encode_tokens tokens = foldl (\<lambda>buf token. buf @ u32_le token) [] tokens"

definition decode_tokens :: "bytes \<Rightarrow> dict_error + u32 list" where
  "decode_tokens val =
     (if val = [] then Inr []
      else if length val mod 4 \<noteq> 0 then Inl (PhraseValueLength (length val))
      else Inr (map le_u32 (chunks 4 val)))"

subsection \<open>\<open>bigram.db\<close>\<close>

record bigram_row =
  row_total :: u32
  row_records :: "(u32 \<times> u32) list"

definition encode_value :: "bigram_row \<Rightarrow> bytes" where
  "encode_value row = foldl (\<lambda>buf (next, count). buf @ u32_le next @ u32_le count)
     (u32_le (row_total row)) (row_records row)"

definition parse_value :: "bytes \<Rightarrow> dict_error + bigram_row" where
  "parse_value data =
     (if length data < 4 \<or> (length data - 4) mod 8 \<noteq> 0 then Inl (BigramValueLength (length data))
      else Inr \<lparr>row_total = le_u32 (take 4 data),
        row_records = map (\<lambda>c. (le_u32 (take 4 c), le_u32 (take 4 (drop 4 c)))) (chunks 8 (drop 4 data))\<rparr>)"

subsection \<open>\<open>punct.bin\<close>\<close>

definition encode_puncts :: "str list \<Rightarrow> bytes" where
  "encode_puncts puncts = foldl (\<lambda>buf punct. push_ucs4 buf punct @ u32_le 0) [] puncts"

definition punct_text :: "u32 list \<Rightarrow> phrase_text" where
  "punct_text ws =
     (case those (map (\<lambda>w. Option.bind (char_from_u32 w) (\<lambda>c. if w \<noteq> 0 then Some c else None)) ws) of
        None \<Rightarrow> from_stored_parts ws (length ws)
      | Some chs \<Rightarrow> from_compact chs)"

text \<open>The \<open>while\<close> loop over the cursor; \<open>run\<close> is at least one, so the cursor advances by two or more.\<close>

function decode_puncts_loop :: "u32 list \<Rightarrow> nat \<Rightarrow> phrase_text list" where
  "decode_puncts_loop ws cursor =
     (if cursor < length ws then
        (let rest = drop cursor ws;
             run = (case rest of [] \<Rightarrow> 0 | _ # tail \<Rightarrow> 1 + length (takeWhile (\<lambda>w. w \<noteq> 0) tail))
         in punct_text (take run rest) # decode_puncts_loop ws (cursor + run + 1))
      else [])"
  by pat_completeness auto
termination
  by (relation "measure (\<lambda>(ws, cursor). length ws - cursor)") auto

declare decode_puncts_loop.simps [simp del]

definition decode_puncts :: "bytes \<Rightarrow> phrase_text list" where
  "decode_puncts val = decode_puncts_loop (map le_u32 (chunks 4 val)) 0"

section \<open>The layouts\<close>

lemma foldl_append_concat: "foldl (\<lambda>buf x. buf @ f x) buf xs = buf @ concat (map f xs)"
  by (induction xs arbitrary: buf) simp_all

lemma push_ucs4_eq: "push_ucs4 buf codes = buf @ concat (map u32_le codes)"
  by (simp add: push_ucs4_def foldl_append_concat)

lemma encode_tokens_eq: "encode_tokens tokens = concat (map u32_le tokens)"
  by (simp add: encode_tokens_def foldl_append_concat)

lemma encode_puncts_eq: "encode_puncts puncts = concat (map u32_le (concat (map (\<lambda>p. p @ [0]) puncts)))"
proof -
  have "foldl (\<lambda>buf punct. push_ucs4 buf punct @ u32_le 0) buf puncts =
      buf @ concat (map u32_le (concat (map (\<lambda>p. p @ [0]) puncts)))" for buf
    by (induction puncts arbitrary: buf) (simp_all add: push_ucs4_eq)
  then show ?thesis by (simp add: encode_puncts_def)
qed

lemma stride_bounds: "4 + 2 * n \<le> item2_stride n" "item2_stride n < 8 + 2 * n" "item2_stride n mod 4 = 0"
proof -
  define raw where "raw = 4 + 2 * n"
  have "item2_stride n = (raw + 3) div 4 * 4" by (simp add: item2_stride_def raw_def)
  moreover have "raw + 3 = (raw + 3) div 4 * 4 + (raw + 3) mod 4" by simp
  moreover have "(raw + 3) mod 4 < 4" by simp
  ultimately show "4 + 2 * n \<le> item2_stride n" "item2_stride n < 8 + 2 * n" "item2_stride n mod 4 = 0"
    by (auto simp: raw_def)
qed

lemma put_keys_eq:
  "length pre = 4 + 2 * index \<Longrightarrow> 2 * length keys \<le> length rest \<Longrightarrow>
   put_keys (pre @ rest) index keys = pre @ concat (map pack keys) @ drop (2 * length keys) rest"
proof (induction keys arbitrary: pre index rest)
  case (Cons key keys)
  have "overwrite (pre @ rest) (4 + 2 * index) (pack key) = (pre @ pack key) @ drop 2 rest"
    using Cons.prems by (simp add: overwrite_def pack_def add.commute)
  then show ?case
    using Cons.prems Cons.IH [of "pre @ pack key" "Suc index" "drop 2 rest"]
    by (simp add: pack_def add.commute)
qed simp

lemma encode_item_eq:
  "encode_item token keys = u32_le token @ concat (map pack keys) @
     replicate (item2_stride (length keys) - (4 + 2 * length keys)) 0"
proof -
  have "overwrite (replicate (item2_stride (length keys)) 0) 0 (u32_le token) =
      u32_le token @ replicate (item2_stride (length keys) - 4) 0"
    using stride_bounds(1) [of "length keys"] by (simp add: overwrite_def)
  then show ?thesis
    using stride_bounds(1) [of "length keys"]
      put_keys_eq [of "u32_le token" 0 keys "replicate (item2_stride (length keys) - 4) 0"]
    by (simp add: encode_item_def)
qed

interpretation packed_keys: fixed_record 2 key_fits pack "\<lambda>b. from_packed (le_u16 b)"
  by unfold_locales (simp_all add: pack_def from_to_packed)

text \<open>One pinyin index record of \<open>n\<close> keys.\<close>

definition item_ok :: "nat \<Rightarrow> pinyin_index_item \<Rightarrow> bool" where
  "item_ok n item \<longleftrightarrow> length (item_keys item) = n \<and> (\<forall>k \<in> set (item_keys item). key_fits k)"

definition encode_index_item :: "pinyin_index_item \<Rightarrow> bytes" where
  "encode_index_item item = encode_item (item_tok item) (item_keys item)"

definition decode_index_item :: "nat \<Rightarrow> bytes \<Rightarrow> pinyin_index_item" where
  "decode_index_item n r = \<lparr>item_tok = le_u32 (take 4 r), item_keys = view_keys (take (2 * n) (drop 4 r))\<rparr>"

lemma length_packs: "\<forall>k \<in> set keys. key_fits k \<Longrightarrow> length (concat (map pack keys)) = 2 * length keys"
  by (rule packed_keys.length_array)

lemma pinyin_index_codec: "fixed_record (item2_stride n) (item_ok n) encode_index_item (decode_index_item n)"
proof
  show "0 < item2_stride n" using stride_bounds(1) [of n] by simp
  fix item
  assume ok: "item_ok n item"
  then have len: "length (concat (map pack (item_keys item))) = 2 * n"
    using length_packs [of "item_keys item"] by (simp add: item_ok_def)
  show "length (encode_index_item item) = item2_stride n"
    using ok len stride_bounds(1) [of n] by (simp add: encode_index_item_def encode_item_eq item_ok_def)
  show "decode_index_item n (encode_index_item item) = item"
    using ok len packed_keys.array_codec_exact [of "item_keys item"]
    by (simp add: encode_index_item_def decode_index_item_def encode_item_eq item_ok_def view_keys_def)
qed

interpretation index_items: fixed_record "item2_stride n" "item_ok n" encode_index_item "decode_index_item n" for n
  by (rule pinyin_index_codec)

interpretation gram_items: fixed_record 8 "\<lambda>_. True" enc_item dec_item
  by unfold_locales simp_all

text \<open>The search key of a key sequence: the elements that survive in each key space.\<close>

definition complete_of :: "chewing_key \<Rightarrow> chewing_key" where
  "complete_of k = key_new (key_initial k) (key_middle k) (key_final k) 0"

definition incomplete_of :: "chewing_key \<Rightarrow> chewing_key" where
  "incomplete_of k = key_new (key_initial k) 0 0 0"

lemma reduced_fits: "key_fits k \<Longrightarrow> key_fits (complete_of k)" "key_fits k \<Longrightarrow> key_fits (incomplete_of k)"
  by (simp_all add: key_fits_def complete_of_def incomplete_of_def key_new_def)

lemma complete_key_eq: "encode_complete_key keys = concat (map pack (map complete_of keys))"
  by (simp add: encode_complete_key_def foldl_append_concat complete_of_def comp_def)

lemma incomplete_key_eq: "encode_incomplete_key keys = concat (map pack (map incomplete_of keys))"
  by (simp add: encode_incomplete_key_def foldl_append_concat incomplete_of_def comp_def)

lemma packs_inject:
  assumes "\<forall>k \<in> set as. key_fits k" "\<forall>k \<in> set bs. key_fits k"
  shows "concat (map pack as) = concat (map pack bs) \<longleftrightarrow> as = bs"
  using packed_keys.array_codec_exact [OF assms(1)] packed_keys.array_codec_exact [OF assms(2)] by metis

lemma decode_ucs4_loop_eq:
  "decode_ucs4_loop cs acc = (if str_ok (map le_u32 cs) then Some (acc @ map le_u32 cs) else None)"
  by (induction cs arbitrary: acc) (auto simp: char_from_u32_def str_ok_def)

lemma encode_value_mk: "encode_value row = mk_gram (row_total row) (row_records row) []"
proof -
  have "(\<lambda>buf (next, count). buf @ u32_le next @ u32_le count) = (\<lambda>buf e. buf @ enc_item e)"
    by (auto simp: enc_item_def fun_eq_iff)
  then show ?thesis by (simp add: encode_value_def foldl_append_concat mk_gram_def)
qed

lemma parse_value_mk:
  "length tail < 8 \<Longrightarrow> parse_value (mk_gram tot items tail) =
     (if tail = [] then Inr \<lparr>row_total = tot, row_records = items\<rparr>
      else Inl (BigramValueLength (length (mk_gram tot items tail))))"
proof -
  assume t: "length tail < 8"
  have "(8 * length items + length tail) mod 8 = 0 \<longleftrightarrow> tail = []" using t by (cases tail) auto
  moreover have "drop 4 (mk_gram tot items []) = concat (map enc_item items)" "take 4 (mk_gram tot items []) = u32_le tot"
    by (simp_all add: mk_gram_def)
  moreover have "map (\<lambda>c. (le_u32 (take 4 c), le_u32 (take 4 (drop 4 c)))) (chunks 8 (concat (map enc_item items))) = items"
    using gram_items.array_codec_exact [of items] by (simp add: dec_item_def [abs_def] record_token_def record_freq_def)
  ultimately show ?thesis by (auto simp: parse_value_def length_mk_gram)
qed

lemma punct_text_plain: "p \<noteq> [] \<Longrightarrow> \<forall>c \<in> set p. plain_char c \<Longrightarrow> punct_text p = Scalar p"
proof -
  assume p: "\<forall>c \<in> set p. plain_char c"
  then have "those (map (\<lambda>w. Option.bind (char_from_u32 w) (\<lambda>c. if w \<noteq> 0 then Some c else None)) p) = Some p"
    by (induction p) (auto simp: char_from_u32_def plain_char_def)
  then show ?thesis
    using p plain_str [of p] by (simp add: punct_text_def from_compact_eq)
qed

lemma decode_puncts_loop_runs:
  assumes "\<forall>p \<in> set ps. p \<noteq> [] \<and> (\<forall>c \<in> set p. plain_char c)" "length pre = cursor"
  shows "decode_puncts_loop (pre @ concat (map (\<lambda>p. p @ [0]) ps)) cursor = map Scalar ps"
  using assms
proof (induction ps arbitrary: pre cursor)
  case Nil
  then show ?case by (simp add: decode_puncts_loop.simps)
next
  case (Cons p ps)
  then obtain c p' where p: "p = c # p'" by (cases p) auto
  have "takeWhile (\<lambda>w. w \<noteq> 0) (p' @ 0 # concat (map (\<lambda>p. p @ [0]) ps)) = p'"
    using Cons.prems p by (auto simp: plain_char_def takeWhile_tail)
  then have "decode_puncts_loop (pre @ concat (map (\<lambda>p. p @ [0]) (p # ps))) cursor =
      punct_text p # decode_puncts_loop ((pre @ p @ [0]) @ concat (map (\<lambda>p. p @ [0]) ps)) (cursor + length p + 1)"
    using Cons.prems(2) by (subst decode_puncts_loop.simps) (simp add: p)
  also have "\<dots> = Scalar p # map Scalar ps"
    using Cons.prems Cons.IH [of "pre @ p @ [0]" "cursor + length p + 1"] punct_text_plain [of p] by simp
  finally show ?case by simp
qed

section \<open>Properties\<close>

text \<open>\<open>pinyin_index.bin\<close> values. Records of one phrase length, packed by \<open>encode_item\<close> with their
  padding, are read back by \<open>decode_items\<close> exactly, tones included; and a value is refused exactly
  when it is not empty and either the length is zero or it is not a whole number of strides.\<close>

theorem pinyin_index_roundtrip:
  assumes "0 < n" "\<forall>item \<in> set items. length (item_keys item) = n \<and> (\<forall>k \<in> set (item_keys item). key_fits k)"
  shows "decode_items (concat (map (\<lambda>i. encode_item (item_tok i) (item_keys i)) items)) n = Inr items \<and>
    ((\<exists>e. decode_items val m = Inl e) \<longleftrightarrow> val \<noteq> [] \<and> (m = 0 \<or> length val mod item2_stride m \<noteq> 0))"
proof
  let ?v = "concat (map encode_index_item items)"
  have ok: "\<forall>item \<in> set items. item_ok n item" using assms(2) by (simp add: item_ok_def)
  have "length ?v mod item2_stride n = 0" using index_items.length_array [OF ok] by simp
  moreover have "map (decode_index_item n) (chunks (item2_stride n) ?v) = items"
    by (rule index_items.array_codec_exact [OF ok])
  moreover have "items \<noteq> [] \<longleftrightarrow> ?v \<noteq> []"
    using index_items.length_array [OF ok] index_items.width_pos [of n] by (metis length_greater_0_conv nat_0_less_mult_iff)
  ultimately have "decode_items ?v n = Inr items"
    using assms(1)
    by (cases "items = []")
       (auto simp: decode_items_def item_views_def decode_index_item_def [abs_def] comp_def chunks_short Let_def)
  then show "decode_items (concat (map (\<lambda>i. encode_item (item_tok i) (item_keys i)) items)) n = Inr items"
    by (simp add: encode_index_item_def [abs_def])
  show "(\<exists>e. decode_items val m = Inl e) \<longleftrightarrow> val \<noteq> [] \<and> (m = 0 \<or> length val mod item2_stride m \<noteq> 0)"
    by (auto simp: decode_items_def item_views_def Let_def split: sum.splits)
qed

text \<open>\<open>pinyin_index.bin\<close> keys. Two sequences of keys that fit their fields have the same complete
  key exactly when they agree in initial, middle and final at every position, and the same
  incomplete key exactly when they agree in every initial; a prefix of the keys is a byte prefix,
  two bytes to a key.\<close>

theorem pinyin_index_keys:
  assumes "\<forall>k \<in> set as. key_fits k" "\<forall>k \<in> set bs. key_fits k"
  shows "(encode_complete_key as = encode_complete_key bs \<longleftrightarrow>
      map (\<lambda>k. (key_initial k, key_middle k, key_final k)) as =
      map (\<lambda>k. (key_initial k, key_middle k, key_final k)) bs) \<and>
    (encode_incomplete_key as = encode_incomplete_key bs \<longleftrightarrow> map key_initial as = map key_initial bs) \<and>
    encode_complete_key (as @ bs) = encode_complete_key as @ encode_complete_key bs \<and>
    encode_incomplete_key (as @ bs) = encode_incomplete_key as @ encode_incomplete_key bs \<and>
    length (encode_complete_key as) = 2 * length as \<and> length (encode_incomplete_key as) = 2 * length as"
proof -
  have c: "\<forall>k \<in> set (map complete_of ks). key_fits k" "\<forall>k \<in> set (map incomplete_of ks). key_fits k"
    if "\<forall>k \<in> set ks. key_fits k" for ks
    using that by (auto simp: reduced_fits)
  have eq: "map complete_of as = map complete_of bs \<longleftrightarrow>
      map (\<lambda>k. (key_initial k, key_middle k, key_final k)) as =
      map (\<lambda>k. (key_initial k, key_middle k, key_final k)) bs"
    "map incomplete_of as = map incomplete_of bs \<longleftrightarrow> map key_initial as = map key_initial bs"
    by (simp_all add: list_eq_iff_nth_eq complete_of_def incomplete_of_def key_new_def cong: conj_cong)
  show ?thesis
    using packs_inject [OF c(1) c(1), OF assms] packs_inject [OF c(2) c(2), OF assms] eq
      length_packs [OF c(1) [OF assms(1)]] length_packs [OF c(2) [OF assms(1)]]
    by (simp add: complete_key_eq incomplete_key_eq)
qed

text \<open>\<open>phrase_index.bin\<close>. Every string is read back from its key, and a key decodes only to the
  string that encodes to it; every token list is read back from its value and every accepted value
  is the encoding of the tokens it decodes to; a value is refused exactly when its length is not a
  multiple of four.\<close>

theorem phrase_index_roundtrip:
  "(str_ok chs \<longrightarrow> decode_ucs4_key (encode_ucs4_key chs) = Some chs) \<and>
   (decode_ucs4_key key = Some chs \<longrightarrow> encode_ucs4_key chs = key \<and> str_ok chs) \<and>
   decode_tokens (encode_tokens tokens) = Inr tokens \<and>
   (decode_tokens val = Inr tokens \<longrightarrow> encode_tokens tokens = val) \<and>
   ((\<exists>e. decode_tokens val = Inl e) \<longleftrightarrow> length val mod 4 \<noteq> 0)"
proof (intro conjI impI)
  have len: "length (concat (map u32_le xs)) = 4 * length xs" for xs
    using u32s.length_array [of xs] by simp
  have dec: "map le_u32 (chunks 4 (concat (map u32_le xs))) = xs" for xs
    using u32s.array_codec_exact [of xs] by simp
  show "str_ok chs \<Longrightarrow> decode_ucs4_key (encode_ucs4_key chs) = Some chs"
    by (simp add: decode_ucs4_key_def encode_ucs4_key_def push_ucs4_eq len dec decode_ucs4_loop_eq)
  show "encode_ucs4_key chs = key" "str_ok chs" if "decode_ucs4_key key = Some chs"
    using that u32s_bytes [of key]
    by (auto simp: decode_ucs4_key_def encode_ucs4_key_def push_ucs4_eq decode_ucs4_loop_eq split: if_splits)
  show "decode_tokens (encode_tokens tokens) = Inr tokens"
    using dec [of tokens] by (cases "tokens = []") (auto simp: decode_tokens_def encode_tokens_eq len)
  show "encode_tokens tokens = val" if "decode_tokens val = Inr tokens"
    using that u32s_bytes [of val] by (auto simp: decode_tokens_def encode_tokens_eq split: if_splits)
  show "(\<exists>e. decode_tokens val = Inl e) \<longleftrightarrow> length val mod 4 \<noteq> 0"
    by (auto simp: decode_tokens_def)
qed

text \<open>C37: \<open>bigram.db\<close>, where the file format and the raw-row operations meet. Every row is read back
  from its value; an accepted value is the encoding of the row it parses to, and that row's total
  and records are what \<open>get_total_freq\<close> and \<open>retrieve_all\<close> read from the same bytes; a value is
  refused exactly when it is shorter than its total or ends in a partial record.\<close>

theorem bigram_roundtrip:
  assumes "slice_ok val"
  shows "parse_value (encode_value row) = Inr row \<and>
    (parse_value val = Inr row \<longrightarrow> encode_value row = val \<and>
       get_total_freq val = Some (row_total row) \<and> retrieve_all val = row_records row) \<and>
    ((\<exists>e. parse_value val = Inl e) \<longleftrightarrow> length val < TOTAL_LEN \<or> has_partial_tail val)"
proof (cases "length val < 4")
  case True
  then show ?thesis by (simp add: encode_value_mk parse_value_mk) (simp add: parse_value_def TOTAL_LEN_def)
next
  case False
  then obtain tot items tail where v: "val = mk_gram tot items tail" "length tail < 8"
    using gram_decompose [of val] by (metis not_less)
  have "parse_value (encode_value row) = Inr row" by (simp add: encode_value_mk parse_value_mk)
  then show ?thesis
    using assms v by (auto simp: parse_value_mk gram gram_sizes encode_value_mk)
qed

theorem bigram_roundtrip_witness:
  "parse_value sample_row = Inr \<lparr>row_total = 9, row_records = [(5, 3), (0x1000007, 6)]\<rparr> \<and>
   retrieve_all sample_row = [(5, 3), (0x1000007, 6)]"
proof -
  have "encode_value \<lparr>row_total = 9, row_records = [(5, 3), (0x1000007, 6)]\<rparr> = sample_row"
    by (simp add: encode_value_mk sample_row_items)
  moreover have "slice_ok sample_row" by (simp add: slice_ok_def sample_row_def)
  ultimately show ?thesis
    using bigram_roundtrip [of sample_row "\<lparr>row_total = 9, row_records = [(5, 3), (0x1000007, 6)]\<rparr>"] by simp
qed

text \<open>\<open>punct.bin\<close>. A list of punctuations, each a nonempty string of nonzero characters, is read
  back from its zero-terminated runs as ordinary texts, in order, with any bytes of a partial word
  after them ignored.\<close>

theorem puncts_roundtrip:
  assumes "\<forall>p \<in> set puncts. p \<noteq> [] \<and> (\<forall>c \<in> set p. c \<noteq> 0 \<and> is_scalar c)" "length partial < 4"
  shows "decode_puncts (encode_puncts puncts @ partial) = map Scalar puncts"
proof -
  have "map le_u32 (chunks 4 (encode_puncts puncts @ partial)) = concat (map (\<lambda>p. p @ [0]) puncts)"
    unfolding encode_puncts_eq using assms(2) by (intro u32s.array_codec) simp_all
  then show ?thesis
    using decode_puncts_loop_runs [of puncts "[]" 0] assms(1) by (simp add: decode_puncts_def plain_char_def)
qed

end
