(* ===== verification/ChunkFormat.thy ===== *)
theory ChunkFormat
  imports RecordCodec
begin

text \<open>
  \<open>crates/oxpinyin-data/src/chunk_format.rs\<close> and the frame check of \<open>user_files.rs\<close>: the framed file
  that every per-library phrase index and every diff log is, a length and a checksum ahead of the
  payload, with the writer's two framing functions and the reader's check.
\<close>

section \<open>The format\<close>

definition PHRASE_MASK :: u32 where
  "PHRASE_MASK = 0x00FFFFFF"

definition SEPARATOR :: u8 where
  "SEPARATOR = 0x23"

definition CHUNK_HEADER_SIZE :: nat where
  "CHUNK_HEADER_SIZE = 8"

definition INDEX_ONE :: u32 where
  "INDEX_ONE = 17"

definition FIRST_ITEM_OFFSET :: u32 where
  "FIRST_ITEM_OFFSET = 8"

definition ITEM_HEADER_SIZE :: nat where
  "ITEM_HEADER_SIZE = 6"

definition CHEWING_KEY_SIZE :: nat where
  "CHEWING_KEY_SIZE = 2"

text \<open>\<open>chunk_checksum\<close>: the loop over the whole words, then the loop over the tail bytes with their
  shift.\<close>

fun tail_checksum :: "bytes \<Rightarrow> nat \<Rightarrow> u32 \<Rightarrow> u32" where
  "tail_checksum [] shift checksum = checksum"
| "tail_checksum (byte # rest) shift checksum =
     tail_checksum rest (shift + 8) (checksum XOR push_bit shift (ucast byte))"

definition chunk_checksum :: "bytes \<Rightarrow> u32" where
  "chunk_checksum payload =
     (let aligned = length payload div 4 * 4;
          checksum = foldl (\<lambda>checksum quad. checksum XOR le_u32 quad) 0 (chunks 4 (take aligned payload))
      in tail_checksum (drop aligned payload) 0 checksum)"

text \<open>\<open>ChunkFrameError\<close> carries the refused length.\<close>

datatype chunk_frame_error = ChunkFrameError nat

definition build_memory_chunk :: "bytes \<Rightarrow> chunk_frame_error + bytes" where
  "build_memory_chunk payload = (case try_u32 (length payload) of
     None \<Rightarrow> Inl (ChunkFrameError (length payload))
   | Some len \<Rightarrow> Inr (u32_le len @ u32_le (chunk_checksum payload) @ payload))"

text \<open>The in-place variant: grow by the header, move the payload up (\<open>copy_within\<close>), write the header.\<close>

definition build_memory_chunk_owned :: "bytes \<Rightarrow> chunk_frame_error + bytes" where
  "build_memory_chunk_owned payload = (case try_u32 (length payload) of
     None \<Rightarrow> Inl (ChunkFrameError (length payload))
   | Some len \<Rightarrow>
       (let checksum = chunk_checksum payload;
            n = length payload;
            buf = resize payload (n + CHUNK_HEADER_SIZE) 0;
            buf = overwrite buf CHUNK_HEADER_SIZE (take n buf);
            buf = overwrite buf 0 (u32_le len);
            buf = overwrite buf 4 (u32_le checksum)
        in Inr buf))"

datatype chunk_read_error = ShortHeader | TruncatedPayload | ChecksumMismatch

definition read_chunk_payload :: "bytes \<Rightarrow> chunk_read_error + bytes" where
  "read_chunk_payload bs = (case get_range bs 0 CHUNK_HEADER_SIZE of
     None \<Rightarrow> Inl ShortHeader
   | Some header \<Rightarrow>
       (let len = unat (le_u32 (take 4 header));
            checksum = le_u32 (take 4 (drop 4 header))
        in if (of_nat len :: u32) \<noteq> of_nat (length bs - CHUNK_HEADER_SIZE) then Inl TruncatedPayload
           else (case checked_add CHUNK_HEADER_SIZE len of
                   None \<Rightarrow> Inl TruncatedPayload
                 | Some e \<Rightarrow> (case get_range bs CHUNK_HEADER_SIZE e of
                     None \<Rightarrow> Inl TruncatedPayload
                   | Some payload \<Rightarrow>
                       if chunk_checksum payload \<noteq> checksum then Inl ChecksumMismatch
                       else Inr payload))))"

section \<open>The checksum as one sum\<close>

text \<open>Byte \<open>k\<close> of the payload enters at position \<open>k mod 4\<close> of the word.\<close>

fun byte_sum :: "nat \<Rightarrow> bytes \<Rightarrow> u32" where
  "byte_sum k [] = 0"
| "byte_sum k (b # bs) = push_bit (8 * (k mod 4)) (ucast b) XOR byte_sum (k + 1) bs"

lemma byte_sum_append: "byte_sum k (xs @ ys) = byte_sum k xs XOR byte_sum (k + length xs) ys"
  by (induction xs arbitrary: k) (simp_all add: xor.assoc)

lemma byte_sum_mod: "byte_sum (k + 4 * n) bs = byte_sum k bs"
proof (induction bs arbitrary: k)
  case (Cons b bs)
  show ?case using Cons [of "k + 1"] by simp
qed simp

lemma or_byte: "(ucast (b :: u8) :: u32) OR push_bit 8 w = ucast b XOR push_bit 8 w"
  by (rule bit_word_eqI)
     (auto simp: bit_or_iff bit_xor_iff bit_ucast_iff bit_push_bit_iff dest: bit_imp_le_length)

lemma quad_sum: "length quad = 4 \<Longrightarrow> le_u32 quad = byte_sum 0 quad"
proof -
  assume "length quad = 4"
  then obtain a b c d where q: "quad = [a, b, c, d]"
    by (auto simp: length_Suc_conv eval_nat_numeral)
  have "le_u32 quad = ucast a XOR push_bit 8 (ucast b XOR push_bit 8 (ucast c XOR push_bit 8 (ucast d)))"
    unfolding q le_word.simps or_byte by simp
  then show ?thesis
    by (simp add: q push_bit_xor)
qed

lemma foldl_xor: "foldl (\<lambda>c q. c XOR f q) acc qs = acc XOR foldl (\<lambda>c q. c XOR f q) (0 :: u32) qs"
proof (induction qs arbitrary: acc)
  case (Cons q qs)
  show ?case using Cons [of "acc XOR f q"] Cons [of "f q"] by (simp add: xor.assoc)
qed simp

lemma words_sum:
  assumes "\<forall>q \<in> set qs. length q = 4"
  shows "foldl (\<lambda>c q. c XOR le_u32 q) 0 qs = byte_sum 0 (concat qs)"
  using assms
proof (induction qs)
  case (Cons q qs)
  have "foldl (\<lambda>c q. c XOR le_u32 q) 0 (q # qs) = le_u32 q XOR foldl (\<lambda>c q. c XOR le_u32 q) 0 qs"
    using foldl_xor [of le_u32 "le_u32 q" qs] by simp
  then show ?case
    using Cons byte_sum_mod [of 0 1 "concat qs"] by (simp add: quad_sum byte_sum_append)
qed simp

lemma tail_sum: "length bs \<le> 4 - n \<Longrightarrow> n \<le> 4 \<Longrightarrow> tail_checksum bs (8 * n) c = c XOR byte_sum n bs"
proof (induction bs arbitrary: n c)
  case (Cons b bs)
  then have "n mod 4 = n" by simp
  then show ?case using Cons.prems Cons.IH [of "n + 1" "c XOR push_bit (8 * n) (ucast b)"]
    by (simp add: xor.assoc add.commute)
qed simp

lemma checksum_sum: "chunk_checksum payload = byte_sum 0 payload"
proof -
  let ?a = "length payload div 4 * 4"
  have al: "length (take ?a payload) = 4 * (length payload div 4)" by simp
  have "chunks_tail 4 (take ?a payload) = []"
  proof -
    have "length (take ?a payload) = 4 * length (chunks 4 (take ?a payload)) + length (chunks_tail 4 (take ?a payload))"
      using arg_cong [OF chunks_decompose [of 4 "take ?a payload"], of length]
        length_concat_const [of "chunks 4 (take ?a payload)" 4] length_chunks_elem [of _ 4 "take ?a payload"]
      by (metis length_append)
    then show ?thesis using al length_chunks_tail [of 4 "take ?a payload"] by (simp add: length_chunks)
  qed
  then have c: "concat (chunks 4 (take ?a payload)) = take ?a payload"
    using chunks_decompose [of 4 "take ?a payload"] by simp
  have "\<forall>q \<in> set (chunks 4 (take ?a payload)). length q = 4" by (simp add: length_chunks_elem)
  then have w: "foldl (\<lambda>c q. c XOR le_u32 q) 0 (chunks 4 (take ?a payload)) = byte_sum 0 (take ?a payload)"
    using words_sum c by metis
  have "length (drop ?a payload) \<le> 4 - 0"
    by (simp add: minus_div_mult_eq_mod less_imp_le)
  then have "chunk_checksum payload = byte_sum 0 (take ?a payload) XOR byte_sum 0 (drop ?a payload)"
    using tail_sum [of "drop ?a payload" 0] by (simp add: chunk_checksum_def w Let_def)
  moreover have "byte_sum 0 payload = byte_sum 0 (take ?a payload) XOR byte_sum (length (take ?a payload)) (drop ?a payload)"
    using byte_sum_append [of 0 "take ?a payload" "drop ?a payload"] by simp
  ultimately show ?thesis using byte_sum_mod [of 0 "length payload div 4" "drop ?a payload"] al by (simp add: mult.commute)
qed

lemma byte_sum_update:
  assumes "i < length bs"
  shows "byte_sum k (bs[i := b]) = byte_sum k bs XOR push_bit (8 * ((k + i) mod 4)) (ucast (bs ! i) XOR ucast b)"
  using assms
proof (induction bs arbitrary: i k)
  case (Cons x bs)
  show ?case
  proof (cases i)
    case 0
    have "p XOR z = (q XOR z) XOR (q XOR p)" for p q z :: u32
      by (rule bit_word_eqI) (auto simp: bit_xor_iff)
    then show ?thesis by (simp add: 0 push_bit_xor)
  next
    case (Suc j)
    then show ?thesis using Cons by (simp add: xor.assoc)
  qed
qed simp

lemma xor_cancel: "a XOR d = a \<Longrightarrow> d = (0 :: u32)"
  by (metis xor.assoc xor.left_neutral xor_self_eq)

section \<open>Framing\<close>

definition frame :: "bytes \<Rightarrow> bytes" where
  "frame payload = u32_le (of_nat (length payload)) @ u32_le (chunk_checksum payload) @ payload"

lemma build_memory_chunk_eq:
  "build_memory_chunk payload =
     (if length payload < 2 ^ 32 then Inr (frame payload) else Inl (ChunkFrameError (length payload)))"
  by (simp add: build_memory_chunk_def try_u32_def frame_def)

lemma build_owned_eq: "build_memory_chunk_owned payload = build_memory_chunk payload"
proof -
  let ?n = "length payload"
  have r: "resize payload (?n + 8) 0 = payload @ replicate 8 0" by (simp add: resize_ge)
  have m: "\<exists>h. overwrite (payload @ replicate 8 0) 8 payload = h @ payload \<and> length h = 8"
    by (intro exI [of _ "take 8 (payload @ replicate 8 0)"]) (simp add: overwrite_def)
  then obtain h where h: "overwrite (payload @ replicate 8 0) 8 payload = h @ payload" "length h = 8"
    by blast
  have "overwrite (overwrite (h @ payload) 0 (u32_le l)) 4 (u32_le c) = u32_le l @ u32_le c @ payload" for l c
    using h(2) by (simp add: overwrite_def)
  then show ?thesis
    by (simp add: build_memory_chunk_owned_def build_memory_chunk_def CHUNK_HEADER_SIZE_def r h(1) Let_def
        split: option.split)
qed

lemma read_frame_bytes:
  assumes "length payload < 2 ^ 32" "length payload' = length payload"
  shows "read_chunk_payload (u32_le (of_nat (length payload)) @ u32_le c @ payload') =
      (if chunk_checksum payload' = c then Inr payload' else Inl ChecksumMismatch)"
  using assms
  by (simp add: read_chunk_payload_def get_range_def CHUNK_HEADER_SIZE_def checked_add_def usize_max_def
      unat_of_nat take_bit_nat_eq_self Let_def)

lemma read_accepts:
  assumes "read_chunk_payload bs = Inr payload" "length bs < 2 ^ 32 + 8"
  shows "bs = frame payload"
proof -
  have len: "8 \<le> length bs"
    using assms(1) by (auto simp: read_chunk_payload_def get_range_def CHUNK_HEADER_SIZE_def split: if_splits)
  define l c p where "l = take 4 bs" and "c = take 4 (drop 4 bs)" and "p = drop 8 bs"
  have bs: "bs = l @ c @ p"
    by (simp add: l_def c_def p_def) (metis append_take_drop_id drop_drop numeral_Bit0)
  have lens: "length l = 4" "length c = 4" "length p < 2 ^ 32" using len assms(2) by (auto simp: l_def c_def p_def)
  have pl: "unat (le_u32 l) = length p"
  proof -
    have "(of_nat (unat (le_u32 l)) :: u32) = of_nat (length p)"
      using assms(1) len lens
      by (auto simp: bs read_chunk_payload_def get_range_def CHUNK_HEADER_SIZE_def Let_def split: if_splits)
    then show ?thesis using lens(3) by (simp add: unat_of_nat take_bit_nat_eq_self)
  qed
  then have "le_u32 l = of_nat (length p)" 
    using lens(3) by (simp add: word_unat_eq_iff unat_of_nat take_bit_nat_eq_self)
  then have l: "l = u32_le (of_nat (length p))" using lens(1) by (metis u32_codec_bytes)
  have "bs = u32_le (of_nat (length p)) @ u32_le (le_u32 c) @ p" using bs l lens(2) by simp
  then have "payload = p \<and> le_u32 c = chunk_checksum p"
    using assms(1) read_frame_bytes [of p p "le_u32 c"] lens(3) by (auto split: if_splits)
  then show ?thesis using bs l lens(2) by (metis frame_def u32_codec_bytes)
qed

section \<open>Properties\<close>

text \<open>The frame. Both framing functions agree; a payload below \<open>2\<^sup>32\<close> bytes is framed and read
  back unchanged and a larger one is refused; and every file the reader accepts (below the length
  field's wrap) is the frame of the payload it answers.\<close>

theorem frame_roundtrip:
  assumes "length bs < 2 ^ 32 + 8"
  shows "build_memory_chunk_owned payload = build_memory_chunk payload \<and>
    (if length payload < 2 ^ 32
     then \<exists>file. build_memory_chunk payload = Inr file \<and> read_chunk_payload file = Inr payload
     else build_memory_chunk payload = Inl (ChunkFrameError (length payload))) \<and>
    (read_chunk_payload bs = Inr payload \<longrightarrow> build_memory_chunk payload = Inr bs)"
proof (intro conjI impI)
  show "build_memory_chunk_owned payload = build_memory_chunk payload" by (rule build_owned_eq)
  show "if length payload < 2 ^ 32
     then \<exists>file. build_memory_chunk payload = Inr file \<and> read_chunk_payload file = Inr payload
     else build_memory_chunk payload = Inl (ChunkFrameError (length payload))"
    using read_frame_bytes [of payload payload "chunk_checksum payload"]
    by (simp add: build_memory_chunk_eq frame_def)
  show "build_memory_chunk payload = Inr bs" if "read_chunk_payload bs = Inr payload"
  proof -
    have "bs = frame payload" by (rule read_accepts [OF that assms])
    moreover from this have "length payload < 2 ^ 32" using assms by (simp add: frame_def)
    ultimately show ?thesis by (simp add: build_memory_chunk_eq)
  qed
qed

text \<open>C36: corruption. A frame with one payload byte changed, whichever byte and to whatever value, is
  refused with a checksum mismatch.\<close>

theorem corruption_detected:
  assumes "build_memory_chunk payload = Inr file" "i < length payload" "b \<noteq> payload ! i"
  shows "read_chunk_payload (file[CHUNK_HEADER_SIZE + i := b]) = Inl ChecksumMismatch"
proof -
  have f: "file = frame payload" "length payload < 2 ^ 32"
    using assms(1) by (auto simp: build_memory_chunk_eq split: if_splits)
  have "file[8 + i := b] = u32_le (of_nat (length payload)) @ u32_le (chunk_checksum payload) @ payload[i := b]"
    by (simp add: f frame_def list_update_append)
  moreover have "chunk_checksum (payload[i := b]) \<noteq> chunk_checksum payload"
  proof
    let ?d = "(ucast (payload ! i) :: u32) XOR ucast b" and ?s = "8 * (i mod 4)"
    assume "chunk_checksum (payload[i := b]) = chunk_checksum payload"
    then have "push_bit ?s ?d = 0"
      using byte_sum_update [OF assms(2), of 0 b] xor_cancel by (simp add: checksum_sum)
    then have z: "\<not> bit (push_bit ?s ?d) n" for n by simp
    have "payload ! i = b"
    proof (rule bit_word_eqI)
      fix n
      assume n: "n < LENGTH(8)"
      have "i mod 4 < 4" by simp
      then have "n + ?s < 32" using n by simp
      then show "bit (payload ! i) n = bit b n"
        using z [of "n + ?s"] n by (simp add: bit_push_bit_iff bit_xor_iff bit_ucast_iff)
    qed
    with assms(3) show False by simp
  qed
  ultimately show ?thesis
    using read_frame_bytes [of payload "payload[i := b]" "chunk_checksum payload"] f(2)
    by (simp add: CHUNK_HEADER_SIZE_def)
qed

theorem corruption_detected_witness:
  "read_chunk_payload ([3, 0, 0, 0, 1, 2, 3, 0, 1, 2, 3][CHUNK_HEADER_SIZE + 2 := 7]) = Inl ChecksumMismatch"
proof -
  have "build_memory_chunk [1, 2, 3] = Inr [3, 0, 0, 0, 1, 2, 3, 0, 1, 2, 3]"
    by (simp add: build_memory_chunk_eq frame_def) code_simp
  then show ?thesis by (rule corruption_detected) simp_all
qed

end
