(* ===== verification/ChunkWrite.thy ===== *)
theory ChunkWrite
  imports ChunkFormat
begin

text \<open>
  \<open>crates/oxpinyin-data/src/chunk_write.rs\<close>: the writer of a library's phrase-index file, the wire
  form of one phrase item with its encoder, validator and decoder, and the decoder of the whole
  sub-index. Errors are constructors, one per message of the source.
\<close>

section \<open>The operations\<close>

record chunk_item =
  item_phrase :: "u32 list"
  item_unigram :: u32
  item_prons :: "(u16 list \<times> u32) list"

datatype chunk_write_error =
    SlotAboveMask u32
  | SlotsNotAscending u32 u32
  | PhraseLengthRange u32 nat
  | TooManyProns u32 nat
  | OffsetOverflow u32
  | PronKeys u32 nat nat
  | TotalOverflow
  | FrameRefused nat
  | ItemPhraseLength nat
  | ItemProns nat
  | ItemPronKeys nat nat
  | NoPhraseLengthByte
  | NoPronCountByte
  | NoUnigram
  | TextTruncated
  | KeysTruncated
  | FreqTruncated
  | SubShortHeader
  | SubNoLeadSeparator
  | SubIndexOne nat
  | SubNoOffsetSeparator
  | SubNoEntrySeparator
  | SubPastEnd
  | SubNoOffsetArray
  | SubNoEntryArea
  | SubSlotOffset nat
  | SubSlotItem nat chunk_write_error

definition u8_or_max :: "nat \<Rightarrow> u8" where
  "u8_or_max n = (if n < 256 then of_nat n else 255)"

text \<open>The pronunciation loop of \<open>build_chunk\<close>, writing at the end of the entry area.\<close>

fun put_prons :: "u32 \<Rightarrow> nat \<Rightarrow> (u16 list \<times> u32) list \<Rightarrow> bytes \<Rightarrow> chunk_write_error + bytes" where
  "put_prons slot phrase_len [] area = Inr area"
| "put_prons slot phrase_len ((keys, freq) # rest) area =
     (if length keys \<noteq> phrase_len then Inl (PronKeys slot (length keys) phrase_len)
      else put_prons slot phrase_len rest (area @ concat (map u16_le keys) @ u32_le freq))"

record chunk_state =
  st_content :: bytes
  st_offsets :: "u32 list"
  st_total :: nat
  st_last :: "u32 option"

definition put_item :: "u32 \<Rightarrow> chunk_item \<Rightarrow> chunk_state \<Rightarrow> chunk_write_error + chunk_state" where
  "put_item slot item st =
     (if PHRASE_MASK < slot then Inl (SlotAboveMask slot)
      else case (case st_last st of Some prev \<Rightarrow> if slot \<le> prev then Some prev else None | None \<Rightarrow> None) of
        Some prev \<Rightarrow> Inl (SlotsNotAscending slot prev)
      | None \<Rightarrow>
         (let phrase_len = length (item_phrase item) in
          if phrase_len = 0 \<or> 255 < phrase_len then Inl (PhraseLengthRange slot phrase_len)
          else if 255 < length (item_prons item) then Inl (TooManyProns slot (length (item_prons item)))
          else
            let area = (if st_content st = [] then resize (st_content st) (unat FIRST_ITEM_OFFSET) 0 else st_content st) in
            (case try_u32 (length area) of
               None \<Rightarrow> Inl (OffsetOverflow slot)
             | Some offset \<Rightarrow>
                 let offsets = (resize (st_offsets st) (unat slot + 1) 0)[unat slot := offset];
                     area = area @ [u8_or_max phrase_len, u8_or_max (length (item_prons item))] @
                       u32_le (item_unigram item) @ concat (map u32_le (item_phrase item))
                 in (case put_prons slot phrase_len (item_prons item) area of
                       Inl e \<Rightarrow> Inl e
                     | Inr area \<Rightarrow>
                         Inr \<lparr>st_content = area, st_offsets = offsets,
                           st_total = st_total st + unat (item_unigram item), st_last = Some slot\<rparr>))))"

fun put_items :: "(u32 \<times> chunk_item) list \<Rightarrow> chunk_state \<Rightarrow> chunk_write_error + chunk_state" where
  "put_items [] st = Inr st"
| "put_items ((slot, item) # rest) st = (case put_item slot item st of
     Inl e \<Rightarrow> Inl e
   | Inr st \<Rightarrow> put_items rest st)"

text \<open>\<open>u32::try_from(n).unwrap_or(u32::MAX)\<close>. The two sums below wrap as \<open>u32\<close> does in a release build;
  an overflow there always ends in the frame's refusal.\<close>

definition u32_or_max :: "nat \<Rightarrow> u32" where
  "u32_or_max n = (case try_u32 n of Some w \<Rightarrow> w | None \<Rightarrow> 0xFFFFFFFF)"

definition assemble_payload :: "u32 \<Rightarrow> u32 list \<Rightarrow> bytes \<Rightarrow> bytes" where
  "assemble_payload total_freq offsets area =
     (let index_two = INDEX_ONE + u32_or_max (length offsets * 4) + 1;
          index_three = index_two + u32_or_max (length area) + 1
      in u32_le total_freq @ u32_le INDEX_ONE @ u32_le index_two @ u32_le index_three @ [SEPARATOR] @
         concat (map u32_le offsets) @ [SEPARATOR] @ area @ [SEPARATOR])"

definition build_chunk :: "(u32 \<times> chunk_item) list \<Rightarrow> chunk_write_error + bytes" where
  "build_chunk items =
     (case put_items items \<lparr>st_content = [], st_offsets = [], st_total = 0, st_last = None\<rparr> of
        Inl e \<Rightarrow> Inl e
      | Inr st \<Rightarrow>
          (case try_u32 (st_total st) of
             None \<Rightarrow> Inl TotalOverflow
           | Some total_freq \<Rightarrow>
               (case build_memory_chunk (assemble_payload total_freq (st_offsets st) (st_content st)) of
                  Inl (ChunkFrameError n) \<Rightarrow> Inl (FrameRefused n)
                | Inr file \<Rightarrow> Inr file)))"

fun check_pron_keys :: "nat \<Rightarrow> (u16 list \<times> u32) list \<Rightarrow> chunk_write_error + unit" where
  "check_pron_keys phrase_len [] = Inr ()"
| "check_pron_keys phrase_len ((keys, _) # rest) =
     (if length keys \<noteq> phrase_len then Inl (ItemPronKeys (length keys) phrase_len)
      else check_pron_keys phrase_len rest)"

definition encode_phrase_item :: "chunk_item \<Rightarrow> chunk_write_error + bytes" where
  "encode_phrase_item item =
     (let phrase_len = length (item_phrase item) in
      if phrase_len = 0 \<or> 255 < phrase_len then Inl (ItemPhraseLength phrase_len)
      else if 255 < length (item_prons item) then Inl (ItemProns (length (item_prons item)))
      else (case check_pron_keys phrase_len (item_prons item) of
              Inl e \<Rightarrow> Inl e
            | Inr _ \<Rightarrow> Inr ([u8_or_max phrase_len, u8_or_max (length (item_prons item))] @
                u32_le (item_unigram item) @ concat (map u32_le (item_phrase item)) @
                concat (map (\<lambda>(keys, freq). concat (map u16_le keys) @ u32_le freq) (item_prons item)))))"

definition validate_phrase_item :: "bytes \<Rightarrow> chunk_write_error + unit" where
  "validate_phrase_item bs = (case get_at bs 0 of
     None \<Rightarrow> Inl NoPhraseLengthByte
   | Some b0 \<Rightarrow> (case get_at bs 1 of
       None \<Rightarrow> Inl NoPronCountByte
     | Some b1 \<Rightarrow>
        (let len = unat b0; prons = unat b1 in
         if length bs < ITEM_HEADER_SIZE then Inl NoUnigram
         else let text_end = ITEM_HEADER_SIZE + 4 * len in
           if length bs < text_end then Inl TextTruncated
           else let keys = CHEWING_KEY_SIZE * len; row = keys + 4; remaining = length bs - text_end in
             if remaining < prons * row then
               Inl (if remaining mod row < keys then KeysTruncated else FreqTruncated)
             else Inr ())))"

fun decode_prons :: "bytes \<Rightarrow> nat \<Rightarrow> nat \<Rightarrow> nat \<Rightarrow> chunk_write_error + (u16 list \<times> u32) list" where
  "decode_prons bs phrase_len offset 0 = Inr []"
| "decode_prons bs phrase_len offset (Suc n) =
     (let keys_end = offset + CHEWING_KEY_SIZE * phrase_len in
      case get_range bs offset keys_end of
        None \<Rightarrow> Inl KeysTruncated
      | Some keys_area \<Rightarrow>
          (case get_range bs keys_end (keys_end + 4) of
             None \<Rightarrow> Inl FreqTruncated
           | Some b \<Rightarrow>
               (case decode_prons bs phrase_len (keys_end + 4) n of
                  Inl e \<Rightarrow> Inl e
                | Inr prons \<Rightarrow> Inr ((map le_u16 (chunks 2 keys_area), le_u32 b) # prons))))"

definition decode_phrase_item :: "bytes \<Rightarrow> chunk_write_error + chunk_item" where
  "decode_phrase_item bs = (case get_at bs 0 of
     None \<Rightarrow> Inl NoPhraseLengthByte
   | Some b0 \<Rightarrow> (case get_at bs 1 of
       None \<Rightarrow> Inl NoPronCountByte
     | Some b1 \<Rightarrow>
        (let phrase_len = unat b0; n_prons = unat b1 in
         (case get_range bs 2 6 of
            None \<Rightarrow> Inl NoUnigram
          | Some u \<Rightarrow>
              (let phrase_end = 6 + 4 * phrase_len in
               (case get_range bs 6 phrase_end of
                  None \<Rightarrow> Inl TextTruncated
                | Some phrase_area \<Rightarrow>
                    (case decode_prons bs phrase_len phrase_end n_prons of
                       Inl e \<Rightarrow> Inl e
                     | Inr prons \<Rightarrow>
                         Inr \<lparr>item_phrase = map le_u32 (chunks 4 phrase_area), item_unigram = le_u32 u,
                           item_prons = prons\<rparr>)))))))"

definition sub_phrase_index_sections :: "bytes \<Rightarrow> chunk_write_error + u32 \<times> bytes \<times> bytes" where
  "sub_phrase_index_sections payload = (case get_range payload 0 16 of
     None \<Rightarrow> Inl SubShortHeader
   | Some header \<Rightarrow>
      (let at = (\<lambda>offset. le_u32 (take 4 (drop offset header)));
           tot = at 0; index_one = unat (at 4); index_two = unat (at 8); index_three = unat (at 12);
           sep = (\<lambda>index. 0 < index \<and> get_at payload (index - 1) = Some SEPARATOR)
       in if get_at payload (unat INDEX_ONE - 1) \<noteq> Some SEPARATOR then Inl SubNoLeadSeparator
          else if index_one \<noteq> unat INDEX_ONE then Inl (SubIndexOne index_one)
          else if \<not> sep index_two then Inl SubNoOffsetSeparator
          else if \<not> sep index_three then Inl SubNoEntrySeparator
          else if length payload < index_three then Inl SubPastEnd
          else (case get_range payload index_one (index_two - 1) of
                  None \<Rightarrow> Inl SubNoOffsetArray
                | Some offset_array \<Rightarrow>
                    (case get_range payload index_two (index_three - 1) of
                       None \<Rightarrow> Inl SubNoEntryArea
                     | Some entry_area \<Rightarrow> Inr (tot, offset_array, entry_area)))))"

fun decode_slots :: "bytes \<Rightarrow> nat \<Rightarrow> bytes list \<Rightarrow> chunk_write_error + (u32 \<times> chunk_item) list" where
  "decode_slots entry_area slot [] = Inr []"
| "decode_slots entry_area slot (window # rest) =
     (let offset = unat (le_u32 window) in
      if offset = 0 then decode_slots entry_area (slot + 1) rest
      else (case get_from entry_area offset of
              None \<Rightarrow> Inl (SubSlotOffset slot)
            | Some bs \<Rightarrow>
                (case decode_phrase_item bs of
                   Inl e \<Rightarrow> Inl (SubSlotItem slot e)
                 | Inr item \<Rightarrow>
                     (case decode_slots entry_area (slot + 1) rest of
                        Inl e \<Rightarrow> Inl e
                      | Inr items \<Rightarrow> Inr ((u32_or_max slot, item) # items)))))"

definition decode_sub_phrase_index :: "bytes \<Rightarrow> chunk_write_error + u32 \<times> (u32 \<times> chunk_item) list" where
  "decode_sub_phrase_index payload = (case sub_phrase_index_sections payload of
     Inl e \<Rightarrow> Inl e
   | Inr (tot, offset_array, entry_area) \<Rightarrow>
       (case decode_slots entry_area 0 (chunks 4 offset_array) of
          Inl e \<Rightarrow> Inl e
        | Inr items \<Rightarrow> Inr (tot, items)))"

section \<open>One item\<close>

definition shape_ok :: "chunk_item \<Rightarrow> bool" where
  "shape_ok item \<longleftrightarrow> 0 < length (item_phrase item) \<and> length (item_phrase item) < 256 \<and>
     length (item_prons item) < 256 \<and> (\<forall>(keys, _) \<in> set (item_prons item). length keys = length (item_phrase item))"

definition pron_bytes :: "u16 list \<times> u32 \<Rightarrow> bytes" where
  "pron_bytes p = concat (map u16_le (fst p)) @ u32_le (snd p)"

definition item_bytes :: "chunk_item \<Rightarrow> bytes" where
  "item_bytes item = [of_nat (length (item_phrase item)), of_nat (length (item_prons item))] @
     u32_le (item_unigram item) @ concat (map u32_le (item_phrase item)) @ concat (map pron_bytes (item_prons item))"

lemma check_pron_keys_ok:
  "check_pron_keys n prons = Inr () \<longleftrightarrow> (\<forall>(keys, _) \<in> set prons. length keys = n)"
  by (induction n prons rule: check_pron_keys.induct) auto

lemma encode_phrase_item_ok:
  "(if shape_ok item then encode_phrase_item item = Inr (item_bytes item) else \<exists>e. encode_phrase_item item = Inl e)"
proof -
  have "(\<lambda>(keys, freq). concat (map u16_le keys) @ u32_le freq) = pron_bytes"
    by (auto simp: pron_bytes_def fun_eq_iff)
  moreover have "(case r of Inl e \<Rightarrow> Inl e | Inr _ \<Rightarrow> Inr x) = (if r = Inr () then Inr x else Inl (projl r))"
    for r :: "chunk_write_error + unit" and x :: bytes
    by (cases r) auto
  ultimately show ?thesis
    using check_pron_keys_ok [of "length (item_phrase item)" "item_prons item"]
    by (auto simp: encode_phrase_item_def shape_ok_def item_bytes_def u8_or_max_def Let_def)
qed

lemma length_words: "length (concat (map u32_le ws)) = 4 * length ws" "length (concat (map u16_le ks)) = 2 * length ks"
  using u32s.length_array [of ws] u16s.length_array [of ks] by simp_all

lemma words_codec: "map le_u32 (chunks 4 (concat (map u32_le ws))) = ws" "map le_u16 (chunks 2 (concat (map u16_le ks))) = ks"
  using u32s.array_codec_exact [of ws] u16s.array_codec_exact [of ks] by simp_all

lemma decode_prons_bytes:
  assumes "\<forall>(keys, _) \<in> set prons. length keys = n"
  shows "decode_prons (pre @ concat (map pron_bytes prons) @ rest) n (length pre) (length prons) = Inr prons"
  using assms
proof (induction prons arbitrary: pre)
  case (Cons p prons)
  obtain keys freq where p: "p = (keys, freq)" by (cases p)
  let ?k = "concat (map u16_le keys)" and ?r = "concat (map pron_bytes prons) @ rest"
  define bs where "bs = pre @ concat (map pron_bytes (p # prons)) @ rest"
  have len: "length ?k = 2 * n" using Cons.prems p by (simp add: length_words)
  have bs: "bs = pre @ ?k @ (u32_le freq @ ?r)" "bs = (pre @ ?k) @ u32_le freq @ ?r"
    "bs = (pre @ ?k @ u32_le freq) @ ?r"
    by (simp_all add: bs_def p pron_bytes_def)
  have "get_range bs (length pre) (length pre + 2 * n) = Some ?k"
    unfolding bs(1) by (rule get_range_at) (simp_all add: len)
  moreover have "get_range bs (length pre + 2 * n) (length pre + 2 * n + 4) = Some (u32_le freq)"
    unfolding bs(2) by (rule get_range_at) (simp_all add: len)
  moreover have "decode_prons bs n (length pre + 2 * n + 4) (length prons) = Inr prons"
    unfolding bs(3) using Cons.IH [of "pre @ ?k @ u32_le freq"] Cons.prems len by (simp add: add.assoc)
  ultimately show ?case
    unfolding bs_def [symmetric] by (simp add: p CHEWING_KEY_SIZE_def words_codec Let_def)
qed simp

lemma decode_item_bytes:
  assumes "shape_ok item"
  shows "decode_phrase_item (item_bytes item @ rest) = Inr item"
proof -
  let ?n = "length (item_phrase item)" and ?m = "length (item_prons item)"
  let ?hd = "[of_nat ?n, of_nat ?m] :: bytes" and ?u = "u32_le (item_unigram item)"
  let ?t = "concat (map u32_le (item_phrase item))" and ?p = "concat (map pron_bytes (item_prons item))"
  have small: "unat (of_nat ?n :: u8) = ?n" "unat (of_nat ?m :: u8) = ?m"
    using assms by (simp_all add: shape_ok_def unat_of_nat take_bit_nat_eq_self)
  have b: "item_bytes item @ rest = ?hd @ ?u @ ?t @ ?p @ rest" by (simp add: item_bytes_def)
  have "get_range (?hd @ ?u @ (?t @ ?p @ rest)) 2 6 = Some ?u"
    by (rule get_range_at) simp_all
  moreover have "get_range ((?hd @ ?u) @ ?t @ (?p @ rest)) 6 (6 + 4 * ?n) = Some ?t"
    by (rule get_range_at) (simp_all add: length_words)
  moreover have "decode_prons ((?hd @ ?u @ ?t) @ ?p @ rest) ?n (6 + 4 * ?n) ?m = Inr (item_prons item)"
    using decode_prons_bytes [of "item_prons item" ?n "?hd @ ?u @ ?t" rest] assms
    by (simp add: shape_ok_def length_words)
  ultimately show ?thesis
    unfolding b by (simp add: decode_phrase_item_def get_at_def small words_codec)
qed

text \<open>The validator finds the error the decoder would find, without walking the rows.\<close>

definition prons_status :: "nat \<Rightarrow> nat \<Rightarrow> nat \<Rightarrow> chunk_write_error + unit" where
  "prons_status len remaining n =
     (let keys = 2 * len; row = keys + 4 in
      if remaining < n * row then Inl (if remaining mod row < keys then KeysTruncated else FreqTruncated)
      else Inr ())"

lemma prons_status_Suc:
  "prons_status len remaining (Suc n) =
     (if remaining < 2 * len then Inl KeysTruncated
      else if remaining < 2 * len + 4 then Inl FreqTruncated
      else prons_status len (remaining - (2 * len + 4)) n)"
proof (cases "remaining < 2 * len + 4")
  case False
  then have "remaining mod (2 * len + 4) = (remaining - (2 * len + 4)) mod (2 * len + 4)"
    by (simp add: le_mod_geq)
  moreover have "remaining < Suc n * (2 * len + 4) \<longleftrightarrow> remaining - (2 * len + 4) < n * (2 * len + 4)"
    using False by simp arith
  ultimately show ?thesis using False by (simp add: prons_status_def Let_def)
qed (auto simp: prons_status_def Let_def)

lemma decode_prons_status:
  assumes "off \<le> length bs"
  shows "(case decode_prons bs len off n of Inl e \<Rightarrow> Inl e | Inr _ \<Rightarrow> Inr ()) = prons_status len (length bs - off) n"
  using assms
proof (induction n arbitrary: off)
  case 0
  then show ?case by (simp add: prons_status_def)
next
  case (Suc n)
  let ?e = "off + 2 * len"
  consider "length bs - off < 2 * len" | "2 * len \<le> length bs - off" "length bs - off < 2 * len + 4"
    | "2 * len + 4 \<le> length bs - off" by linarith
  then show ?case
  proof cases
    case 1
    then have "get_range bs off ?e = None" using Suc.prems by (simp add: get_range_def)
    with 1 show ?thesis by (simp add: prons_status_Suc CHEWING_KEY_SIZE_def)
  next
    case 2
    then have "\<exists>a. get_range bs off ?e = Some a" "get_range bs ?e (?e + 4) = None"
      using Suc.prems by (simp_all add: get_range_def)
    with 2 show ?thesis by (auto simp: prons_status_Suc CHEWING_KEY_SIZE_def)
  next
    case 3
    then have "\<exists>a. get_range bs off ?e = Some a" "\<exists>b. get_range bs ?e (?e + 4) = Some b"
      using Suc.prems by (simp_all add: get_range_def)
    moreover have "(case decode_prons bs len (?e + 4) n of Inl e \<Rightarrow> Inl e | Inr _ \<Rightarrow> Inr ()) =
        prons_status len (length bs - (?e + 4)) n"
      using 3 Suc.prems by (intro Suc.IH) simp
    moreover have "length bs - (?e + 4) = length bs - off - (2 * len + 4)" using 3 by simp
    ultimately show ?thesis
      using 3 by (cases "decode_prons bs len (?e + 4) n") (auto simp: prons_status_Suc CHEWING_KEY_SIZE_def)
  qed
qed

lemma validate_is_decode_status:
  "validate_phrase_item bs = (case decode_phrase_item bs of Inl e \<Rightarrow> Inl e | Inr _ \<Rightarrow> Inr ())"
proof (cases "length bs < 6")
  case True
  then show ?thesis
    by (cases "length bs = 0"; cases "length bs = 1")
       (auto simp: validate_phrase_item_def decode_phrase_item_def get_at_def get_range_def
         ITEM_HEADER_SIZE_def Let_def)
next
  case False
  define len n where "len = unat (bs ! 0)" and "n = unat (bs ! Suc 0)"
  have at: "get_at bs 0 = Some (bs ! 0)" "get_at bs (Suc 0) = Some (bs ! Suc 0)"
    using False by (auto simp: get_at_def)
  have u: "get_range bs 2 6 = Some (take 4 (drop 2 bs))" using False by (simp add: get_range_def)
  show ?thesis
  proof (cases "length bs < 6 + 4 * len")
    case True
    then have "get_range bs 6 (6 + 4 * len) = None" by (simp add: get_range_def)
    then show ?thesis
      using True False u
      by (simp add: validate_phrase_item_def decode_phrase_item_def at ITEM_HEADER_SIZE_def len_def [symmetric] Let_def)
  next
    case fits: False
    then obtain t where "get_range bs 6 (6 + 4 * len) = Some t" by (simp add: get_range_def)
    moreover have "(case decode_prons bs len (6 + 4 * len) n of Inl e \<Rightarrow> Inl e | Inr _ \<Rightarrow> Inr ()) =
        prons_status len (length bs - (6 + 4 * len)) n"
      using fits by (intro decode_prons_status) simp
    ultimately show ?thesis
      using fits False u
      by (cases "decode_prons bs len (6 + 4 * len) n")
         (auto simp: validate_phrase_item_def decode_phrase_item_def at ITEM_HEADER_SIZE_def CHEWING_KEY_SIZE_def
           len_def [symmetric] n_def [symmetric] prons_status_def Let_def)
  qed
qed

section \<open>The whole library\<close>

text \<open>The offset array of items in ascending slots, from slot \<open>k\<close> on and the entry area's offset \<open>off\<close>.\<close>

fun offset_words :: "nat \<Rightarrow> nat \<Rightarrow> (u32 \<times> chunk_item) list \<Rightarrow> u32 list" where
  "offset_words k off [] = []"
| "offset_words k off ((slot, item) # rest) =
     replicate (unat slot - k) 0 @ of_nat off # offset_words (unat slot + 1) (off + length (item_bytes item)) rest"

definition area_bytes :: "(u32 \<times> chunk_item) list \<Rightarrow> bytes" where
  "area_bytes items = concat (map (item_bytes \<circ> snd) items)"

fun slots_from :: "nat \<Rightarrow> (u32 \<times> chunk_item) list \<Rightarrow> bool" where
  "slots_from k [] \<longleftrightarrow> True"
| "slots_from k ((slot, _) # rest) \<longleftrightarrow> k \<le> unat slot \<and> slot \<le> PHRASE_MASK \<and> slots_from (unat slot + 1) rest"

text \<open>The items a library file can hold.\<close>

definition chunk_items_ok :: "(u32 \<times> chunk_item) list \<Rightarrow> bool" where
  "chunk_items_ok items \<longleftrightarrow> slots_from 0 items \<and> (\<forall>(_, item) \<in> set items. shape_ok item)"

definition entry_area_of :: "(u32 \<times> chunk_item) list \<Rightarrow> bytes" where
  "entry_area_of items = (if items = [] then [] else replicate 8 0 @ area_bytes items)"

lemma length_offset_words:
  "slots_from k items \<Longrightarrow> length (offset_words k off items) = (if items = [] then 0 else unat (fst (last items)) + 1 - k)"
proof (induction k off items rule: offset_words.induct)
  case (2 k off slot item rest)
  then show ?case
    by (cases rest) auto
qed simp

lemma slots_from_snoc:
  "slots_from k (items @ [(slot, item)]) \<longleftrightarrow> slots_from k items \<and>
     (if items = [] then k else unat (fst (last items)) + 1) \<le> unat slot \<and> slot \<le> PHRASE_MASK"
  by (induction k items rule: slots_from.induct) auto

lemma offset_words_snoc:
  assumes "slots_from k (items @ [(slot, item)])"
  shows "offset_words k off (items @ [(slot, item)]) = offset_words k off items @
      replicate (unat slot - (if items = [] then k else unat (fst (last items)) + 1)) 0 @
      [of_nat (off + length (area_bytes items))]"
  using assms
proof (induction k off items rule: offset_words.induct)
  case (2 k off s i rest)
  then show ?case by (simp add: area_bytes_def add.assoc)
qed (simp add: area_bytes_def)

lemma pron_bytes_pair: "pron_bytes (keys, freq) = concat (map u16_le keys) @ u32_le freq"
  by (simp add: pron_bytes_def)

lemma put_prons_ok:
  "\<forall>(keys, _) \<in> set prons. length keys = n \<Longrightarrow>
   put_prons slot n prons area = Inr (area @ concat (map pron_bytes prons))"
  by (induction slot n prons area rule: put_prons.induct) (auto simp: pron_bytes_pair)

lemma put_prons_bad:
  "\<not> (\<forall>(keys, _) \<in> set prons. length keys = n) \<Longrightarrow> \<exists>e. put_prons slot n prons area = Inl e"
  by (induction slot n prons area rule: put_prons.induct) auto

text \<open>The writer's state after the items \<open>done\<close>.\<close>

definition state_of :: "(u32 \<times> chunk_item) list \<Rightarrow> chunk_state" where
  "state_of items = \<lparr>st_content = entry_area_of items, st_offsets = offset_words 0 8 items,
     st_total = (\<Sum>(_, item) \<leftarrow> items. unat (item_unigram item)),
     st_last = (if items = [] then None else Some (fst (last items)))\<rparr>"

lemma entry_area_snoc:
  "entry_area_of (items @ [(slot, item)]) =
     (if items = [] then replicate 8 0 else entry_area_of items) @ item_bytes item"
  by (simp add: entry_area_of_def area_bytes_def)

lemma entry_area_not_Nil: "items \<noteq> [] \<Longrightarrow> entry_area_of items \<noteq> []"
  by (simp add: entry_area_of_def)

lemma length_entry_area: "items \<noteq> [] \<Longrightarrow> length (entry_area_of items) = 8 + length (area_bytes items)"
  by (simp add: entry_area_of_def)

lemma resize_update_last:
  "length xs \<le> n \<Longrightarrow> (resize xs (n + 1) z)[n := w] = xs @ replicate (n - length xs) z @ [w]"
  by (simp add: resize_ge list_update_append Suc_diff_le replicate_append_same [symmetric])

definition start_area :: "(u32 \<times> chunk_item) list \<Rightarrow> bytes" where
  "start_area items = replicate 8 0 @ area_bytes items"

lemma start_area_eq:
  "(if st_content (state_of items) = [] then resize (st_content (state_of items)) (unat FIRST_ITEM_OFFSET) 0
    else st_content (state_of items)) = start_area items"
  by (simp add: state_of_def entry_area_of_def start_area_def FIRST_ITEM_OFFSET_def resize_def area_bytes_def)

lemma put_item_order:
  "(case st_last (state_of items) of Some prev \<Rightarrow> if slot \<le> prev then Some prev else None | None \<Rightarrow> None) = None \<longleftrightarrow>
     (items = [] \<or> unat (fst (last items)) + 1 \<le> unat slot)"
  by (auto simp: state_of_def word_le_nat_alt)

lemma put_item_state:
  assumes "slots_from 0 items" "slots_from 0 (items @ [(slot, item)])" "shape_ok item"
    "8 + length (area_bytes items) < 2 ^ 32"
  shows "put_item slot item (state_of items) = Inr (state_of (items @ [(slot, item)]))"
proof -
  let ?n = "length (item_phrase item)"
  let ?head = "[u8_or_max ?n, u8_or_max (length (item_prons item))] @
      u32_le (item_unigram item) @ concat (map u32_le (item_phrase item))"
  have "put_prons slot ?n (item_prons item) (start_area items @ ?head) =
      Inr (start_area items @ ?head @ concat (map pron_bytes (item_prons item)))"
    using assms(3) put_prons_ok [of "item_prons item" ?n slot "start_area items @ ?head"]
    by (simp add: shape_ok_def)
  also have "start_area items @ ?head @ concat (map pron_bytes (item_prons item)) =
      entry_area_of (items @ [(slot, item)])"
    using assms(3) by (simp add: entry_area_of_def area_bytes_def start_area_def item_bytes_def shape_ok_def u8_or_max_def)
  finally have prons: "put_prons slot ?n (item_prons item) (start_area items @ ?head) =
      Inr (entry_area_of (items @ [(slot, item)]))" .
  have offs: "(resize (st_offsets (state_of items)) (unat slot + 1) 0)[unat slot := of_nat (length (start_area items))] =
      offset_words 0 8 (items @ [(slot, item)])"
    using offset_words_snoc [OF assms(2), of 8] length_offset_words [OF assms(1), of 8]
      assms(2) resize_update_last [of "offset_words 0 8 items" "unat slot"]
    by (cases "items = []") (simp_all add: state_of_def slots_from_snoc start_area_def)
  have "try_u32 (length (start_area items)) = Some (of_nat (length (start_area items)))"
    using assms(4) by (simp add: try_u32_def start_area_def)
  moreover have "\<not> PHRASE_MASK < slot" "items = [] \<or> unat (fst (last items)) + 1 \<le> unat slot"
    using assms(2) by (auto simp: slots_from_snoc not_less split: if_splits)
  moreover from this have
    "(case st_last (state_of items) of Some prev \<Rightarrow> if slot \<le> prev then Some prev else None | None \<Rightarrow> None) = None"
    using put_item_order [of slot items] by simp
  moreover have "state_of (items @ [(slot, item)]) = \<lparr>st_content = entry_area_of (items @ [(slot, item)]),
      st_offsets = offset_words 0 8 (items @ [(slot, item)]),
      st_total = st_total (state_of items) + unat (item_unigram item), st_last = Some slot\<rparr>"
    by (simp add: state_of_def)
  ultimately show ?thesis
    using assms(3) prons offs unfolding put_item_def start_area_eq
    by (simp add: shape_ok_def Let_def)
qed

lemma put_item_refused:
  assumes "slots_from 0 items" "\<not> (slots_from 0 (items @ [(slot, item)]) \<and> shape_ok item)"
  shows "\<exists>e. put_item slot item (state_of items) = Inl e"
proof (cases "slots_from 0 (items @ [(slot, item)])")
  case False
  then show ?thesis
    using assms(1) put_item_order [of slot items]
    by (cases "PHRASE_MASK < slot")
       (auto simp: put_item_def slots_from_snoc not_less split: option.splits if_splits)
next
  case True
  then have bad: "\<not> shape_ok item" using assms(2) by simp
  show ?thesis
  proof (cases "\<forall>(keys, _) \<in> set (item_prons item). length keys = length (item_phrase item)")
    case True
    then show ?thesis
      using bad by (auto simp: put_item_def shape_ok_def Let_def not_less split: option.splits)
  next
    case False
    then have no: "put_prons slot (length (item_phrase item)) (item_prons item) area \<noteq> Inr x" for area x
      using put_prons_bad by (metis sum.distinct(1))
    have "put_item slot item (state_of items) \<noteq> Inr st" for st
      unfolding put_item_def start_area_eq by (auto simp: no Let_def split: option.splits sum.splits)
    then show ?thesis by (metis sumE)
  qed
qed

lemma put_item_fits:
  assumes "put_item slot item (state_of items) = Inr st"
  shows "8 + length (area_bytes items) < 2 ^ 32"
proof -
  have "try_u32 (length (start_area items)) \<noteq> None"
    using assms unfolding put_item_def start_area_eq
    by (auto simp: Let_def split: if_splits option.splits)
  then show ?thesis by (simp add: try_u32_def start_area_def split: if_splits)
qed

lemma slots_from_append: "slots_from k (xs @ ys) \<Longrightarrow> slots_from k xs"
  by (induction k xs rule: slots_from.induct) auto

lemma put_items_ok:
  assumes "chunk_items_ok (pre @ items)" "8 + length (area_bytes (pre @ items)) < 2 ^ 32"
  shows "put_items items (state_of pre) = Inr (state_of (pre @ items))"
  using assms
proof (induction items arbitrary: pre)
  case (Cons x items)
  obtain slot item where x: "x = (slot, item)" by (cases x)
  have ok: "slots_from 0 pre" "slots_from 0 (pre @ [(slot, item)])" "shape_ok item"
    using Cons.prems(1) slots_from_append [of 0 pre "x # items"] slots_from_append [of 0 "pre @ [x]" items]
    by (auto simp: chunk_items_ok_def x)
  have "8 + length (area_bytes pre) < 2 ^ 32" using Cons.prems(2) by (simp add: area_bytes_def)
  from put_item_state [OF ok this] show ?case
    using Cons.IH [of "pre @ [x]"] Cons.prems by (simp add: x)
qed simp

lemma put_items_sound:
  assumes "put_items items (state_of pre) = Inr st" "slots_from 0 pre"
  shows "slots_from 0 (pre @ items) \<and> (\<forall>(_, item) \<in> set items. shape_ok item)"
  using assms
proof (induction items arbitrary: pre)
  case (Cons x items)
  obtain slot item where x: "x = (slot, item)" by (cases x)
  obtain st' where st': "put_item slot item (state_of pre) = Inr st'" "put_items items st' = Inr st"
    using Cons.prems(1) by (auto simp: x split: sum.splits)
  then have ok: "slots_from 0 (pre @ [x])" "shape_ok item"
    using put_item_refused [OF Cons.prems(2), of slot item] by (auto simp: x)
  have "8 + length (area_bytes pre) < 2 ^ 32" using st'(1) by (rule put_item_fits)
  then have "st' = state_of (pre @ [x])"
    using put_item_state [OF Cons.prems(2)] ok st' by (simp add: x)
  then show ?case using Cons.IH [of "pre @ [x]"] st' ok by (simp add: x)
qed simp

lemma put_items_state:
  assumes "put_items items (state_of pre) = Inr st" "slots_from 0 pre"
  shows "st = state_of (pre @ items)"
  using assms
proof (induction items arbitrary: pre)
  case (Cons x items)
  obtain slot item where x: "x = (slot, item)" by (cases x)
  obtain st' where st': "put_item slot item (state_of pre) = Inr st'" "put_items items st' = Inr st"
    using Cons.prems(1) by (auto simp: x split: sum.splits)
  then have ok: "slots_from 0 (pre @ [x])" "shape_ok item"
    using put_item_refused [OF Cons.prems(2), of slot item] by (auto simp: x)
  have "st' = state_of (pre @ [x])"
    using put_item_state [OF Cons.prems(2) _ _ put_item_fits [OF st'(1)]] ok st' by (simp add: x)
  then show ?case using Cons.IH [of "pre @ [x]"] st' ok by (simp add: x)
qed simp

section \<open>Reading the library back\<close>

lemma decode_slots_zeros:
  "decode_slots area k (replicate n (u32_le 0) @ rest) = decode_slots area (k + n) rest"
  by (induction n arbitrary: k) simp_all

lemma unat_small: "n < 2 ^ 32 \<Longrightarrow> unat (of_nat n :: u32) = n"
  by (simp add: unat_of_nat take_bit_nat_eq_self)

lemma u32_or_max_unat: "u32_or_max (unat (w :: u32)) = w"
proof -
  have "unat w < 2 ^ 32" using unsigned_less [of w] by simp
  then show ?thesis by (simp add: u32_or_max_def try_u32_def)
qed

lemma decode_slots_words:
  assumes "slots_from k items" "\<forall>(_, item) \<in> set items. shape_ok item" "0 < off"
    and "area = pre @ area_bytes items" "length pre = off" "length area < 2 ^ 32"
  shows "decode_slots area k (map u32_le (offset_words k off items)) = Inr items"
  using assms
proof (induction k off items arbitrary: pre rule: offset_words.induct)
  case (2 k off slot item rest)
  have off: "unat (of_nat off :: u32) = off"
    using "2.prems"(4-6) by (intro unat_small) simp
  have "get_from area off = Some (item_bytes item @ area_bytes rest)"
    using "2.prems"(4,5) by (simp add: get_from_def area_bytes_def)
  moreover have "decode_phrase_item (item_bytes item @ area_bytes rest) = Inr item"
    using "2.prems"(2) by (intro decode_item_bytes) simp
  moreover have "decode_slots area (unat slot + 1) (map u32_le (offset_words (unat slot + 1) (off + length (item_bytes item)) rest)) = Inr rest"
    using "2.prems" by (intro "2.IH" [of "pre @ item_bytes item"]) (simp_all add: area_bytes_def)
  moreover have "k + (unat slot - k) = unat slot" using "2.prems"(1) by simp
  ultimately show ?case
    using "2.prems"(3) off by (simp add: decode_slots_zeros u32_or_max_unat)
qed simp

lemma length_assemble: "length (assemble_payload tot offs area) = 19 + 4 * length offs + length area"
  by (simp add: assemble_payload_def length_words Let_def)

lemma assemble_eq:
  assumes "length (assemble_payload tot offs area) < 2 ^ 32"
  shows "assemble_payload tot offs area =
      (u32_le tot @ u32_le 17 @ u32_le (of_nat (18 + 4 * length offs)) @
       u32_le (of_nat (19 + 4 * length offs + length area))) @ [SEPARATOR] @
      concat (map u32_le offs) @ [SEPARATOR] @ area @ [SEPARATOR]"
proof -
  have "19 + 4 * length offs + length area < 2 ^ 32" using assms by (simp add: length_assemble)
  then have "u32_or_max (length offs * 4) = of_nat (4 * length offs)" "u32_or_max (length area) = of_nat (length area)"
    by (simp_all add: u32_or_max_def try_u32_def mult.commute)
  then show ?thesis by (simp add: assemble_payload_def INDEX_ONE_def Let_def algebra_simps)
qed

lemma sections_of_payload:
  assumes "length (assemble_payload tot offs area) < 2 ^ 32"
  shows "sub_phrase_index_sections (assemble_payload tot offs area) = Inr (tot, concat (map u32_le offs), area)"
proof -
  let ?n = "length offs" and ?m = "length area"
  let ?two = "of_nat (18 + 4 * ?n) :: u32" and ?three = "of_nat (19 + 4 * ?n + ?m) :: u32"
  have fit: "19 + 4 * ?n + ?m < 2 ^ 32" using assms by (simp add: length_assemble)
  note p = assemble_eq [OF assms]
  define h where "h = u32_le tot @ u32_le 17 @ u32_le ?two @ u32_le ?three"
  define o' where "o' = concat (map u32_le offs)"
  define payload where "payload = assemble_payload tot offs area"
  have P: "payload = h @ [SEPARATOR] @ o' @ [SEPARATOR] @ area @ [SEPARATOR]"
    using p by (simp add: payload_def h_def o'_def)
  have lens: "length h = 16" "length o' = 4 * ?n" by (simp_all add: h_def o'_def length_words)
  have words: "le_u32 (take 4 (drop 0 h)) = tot" "le_u32 (take 4 (drop 4 h)) = 17" "le_u32 (take 4 (drop 8 h)) = ?two"
    "le_u32 (take 4 (drop 12 h)) = ?three"
    by (simp_all add: h_def del: of_nat_add of_nat_mult)
  have un: "unat ?two = 18 + 4 * ?n" "unat ?three = 19 + 4 * ?n + ?m"
    using fit by (intro unat_small; simp)+
  have hd: "get_range payload 0 16 = Some h" using lens by (simp add: P get_range_def)
  have seps: "get_at payload 16 = Some SEPARATOR" "get_at payload (17 + 4 * ?n) = Some SEPARATOR"
    "get_at payload (18 + 4 * ?n + ?m) = Some SEPARATOR"
    using lens by (simp_all add: P get_at_def nth_append)
  have "get_range ((h @ [SEPARATOR]) @ o' @ ([SEPARATOR] @ area @ [SEPARATOR])) 17 (17 + 4 * ?n) = Some o'"
    by (rule get_range_at) (simp_all add: lens)
  moreover have "get_range ((h @ [SEPARATOR] @ o' @ [SEPARATOR]) @ area @ [SEPARATOR]) (18 + 4 * ?n) (18 + 4 * ?n + ?m) = Some area"
    by (rule get_range_at) (simp_all add: lens)
  ultimately have rs: "get_range payload 17 (17 + 4 * ?n) = Some o'"
    "get_range payload (18 + 4 * ?n) (18 + 4 * ?n + ?m) = Some area"
    by (simp_all add: P)
  have "length payload = 19 + 4 * ?n + ?m" by (simp add: payload_def length_assemble)
  then show ?thesis
    unfolding payload_def [symmetric] o'_def [symmetric]
    by (simp add: sub_phrase_index_sections_def hd words un seps rs seps(3) [unfolded add.assoc] rs(2) [unfolded add.assoc] INDEX_ONE_def Let_def
        del: of_nat_add of_nat_mult drop0)
qed

lemma decode_assembled:
  assumes "chunk_items_ok items" "length (assemble_payload tot (offset_words 0 8 items) (entry_area_of items)) < 2 ^ 32"
  shows "decode_sub_phrase_index (assemble_payload tot (offset_words 0 8 items) (entry_area_of items)) = Inr (tot, items)"
proof -
  have "chunks 4 (concat (map u32_le (offset_words 0 8 items))) = map u32_le (offset_words 0 8 items)"
    using u32s.chunks_array [of "offset_words 0 8 items" "[]"] by simp
  moreover have "decode_slots (entry_area_of items) 0 (map u32_le (offset_words 0 8 items)) = Inr items"
  proof (cases "items = []")
    case False
    then have e: "entry_area_of items = replicate 8 0 @ area_bytes items" by (simp add: entry_area_of_def)
    show ?thesis
      using assms by (intro decode_slots_words [OF _ _ _ e]) (auto simp: chunk_items_ok_def length_assemble)
  qed simp
  ultimately show ?thesis using sections_of_payload [OF assms(2)] by (simp add: decode_sub_phrase_index_def)
qed

lemma build_chunk_Inr:
  "build_chunk items = Inr chunk \<longleftrightarrow> chunk_items_ok items \<and> (\<Sum>(_, item) \<leftarrow> items. unat (item_unigram item)) < 2 ^ 32 \<and>
     length (assemble_payload 0 (offset_words 0 8 items) (entry_area_of items)) < 2 ^ 32 \<and>
     chunk = frame (assemble_payload (of_nat (\<Sum>(_, item) \<leftarrow> items. unat (item_unigram item)))
       (offset_words 0 8 items) (entry_area_of items))"
  (is "?l \<longleftrightarrow> ?ok \<and> ?sum < _ \<and> ?fits \<and> ?chunk")
proof -
  have start: "state_of [] = \<lparr>st_content = [], st_offsets = [], st_total = 0, st_last = None\<rparr>"
    by (simp add: state_of_def entry_area_of_def)
  have result: "?l \<longleftrightarrow> ?sum < 2 ^ 32 \<and> ?fits \<and> ?chunk" if "put_items items (state_of []) = Inr (state_of items)"
  proof -
    have "st_total (state_of items) = ?sum" "st_offsets (state_of items) = offset_words 0 8 items"
      "st_content (state_of items) = entry_area_of items"
      by (simp_all add: state_of_def)
    then have "build_chunk items = (case try_u32 ?sum of None \<Rightarrow> Inl TotalOverflow
      | Some t \<Rightarrow> (case build_memory_chunk (assemble_payload t (offset_words 0 8 items) (entry_area_of items)) of
          Inl (ChunkFrameError n) \<Rightarrow> Inl (FrameRefused n) | Inr chunk \<Rightarrow> Inr chunk))"
      using that unfolding build_chunk_def start [symmetric] by (simp cong: option.case_cong)
    then show ?thesis
      by (cases "?sum < 2 ^ 32"; cases ?fits) (auto simp: build_memory_chunk_eq try_u32_def length_assemble)
  qed
  have small: "8 + length (area_bytes items) < 2 ^ 32" if "?fits"
    using that by (cases "items = []") (simp_all add: length_assemble entry_area_of_def area_bytes_def)
  show ?thesis
  proof
    assume l: ?l
    then obtain st where st: "put_items items (state_of []) = Inr st"
      by (auto simp: build_chunk_def start split: sum.splits)
    have ok: ?ok using put_items_sound [OF st] by (simp add: chunk_items_ok_def)
    have "st = state_of items" using put_items_state [OF st] by simp
    with st result l ok show "?ok \<and> ?sum < 2 ^ 32 \<and> ?fits \<and> ?chunk" by simp
  next
    assume r: "?ok \<and> ?sum < 2 ^ 32 \<and> ?fits \<and> ?chunk"
    then have "put_items items (state_of []) = Inr (state_of items)"
      using put_items_ok [of "[]" items] small by simp
    with result r show ?l by simp
  qed
qed

section \<open>Properties\<close>

text \<open>C34: the wire form of one item. An item is encoded exactly when its shape fits the header's two
  count bytes and every pronunciation has one key per character; the encoding, whatever bytes follow
  it, decodes to the same item; and the validator answers, on every byte string, exactly the
  decoder's success or its first error, without decoding.\<close>

theorem phrase_item_codec:
  "((\<exists>bs. encode_phrase_item item = Inr bs) \<longleftrightarrow>
      0 < length (item_phrase item) \<and> length (item_phrase item) < 256 \<and> length (item_prons item) < 256 \<and>
      (\<forall>(keys, _) \<in> set (item_prons item). length keys = length (item_phrase item))) \<and>
   (encode_phrase_item item = Inr bs \<longrightarrow> decode_phrase_item (bs @ rest) = Inr item) \<and>
   validate_phrase_item val = (case decode_phrase_item val of Inl e \<Rightarrow> Inl e | Inr _ \<Rightarrow> Inr ())"
  using encode_phrase_item_ok [of item] decode_item_bytes [of item rest] validate_is_decode_status [of val]
  by (auto simp: shape_ok_def split: if_splits)

definition sample_item :: chunk_item where
  "sample_item = \<lparr>item_phrase = [0x4F60, 0x597D], item_unigram = 7, item_prons = [([11, 12], 5)]\<rparr>"

theorem phrase_item_codec_witness:
  "\<exists>bs. encode_phrase_item sample_item = Inr bs \<and> decode_phrase_item (bs @ [1, 2, 3]) = Inr sample_item"
proof -
  obtain bs where "encode_phrase_item sample_item = Inr bs"
    using phrase_item_codec [of sample_item "[]" "[]" "[]"] by (auto simp: sample_item_def)
  then show ?thesis using phrase_item_codec [of sample_item bs "[1, 2, 3]" "[]"] by blast
qed

text \<open>C5: the library file. \<open>build_chunk\<close> succeeds exactly on items in strictly ascending slots below the
  mask, each of an encodable shape, whose frequencies and whose file fit 32 bits; and the file it
  writes passes the frame check and decodes to the frequency total and the very same items.\<close>

theorem build_chunk_roundtrip:
  "((\<exists>chunk. build_chunk items = Inr chunk) \<longleftrightarrow> chunk_items_ok items \<and>
      (\<Sum>(_, item) \<leftarrow> items. unat (item_unigram item)) < 2 ^ 32 \<and>
      length (assemble_payload 0 (offset_words 0 8 items) (entry_area_of items)) < 2 ^ 32) \<and>
   (build_chunk items = Inr chunk \<longrightarrow> (\<exists>payload. read_chunk_payload chunk = Inr payload \<and>
      decode_sub_phrase_index payload = Inr (of_nat (\<Sum>(_, item) \<leftarrow> items. unat (item_unigram item)), items)))"
proof (intro conjI impI)
  show "(\<exists>chunk. build_chunk items = Inr chunk) \<longleftrightarrow> chunk_items_ok items \<and>
      (\<Sum>(_, item) \<leftarrow> items. unat (item_unigram item)) < 2 ^ 32 \<and>
      length (assemble_payload 0 (offset_words 0 8 items) (entry_area_of items)) < 2 ^ 32"
    by (simp add: build_chunk_Inr)
  let ?p = "assemble_payload (of_nat (\<Sum>(_, item) \<leftarrow> items. unat (item_unigram item)))
      (offset_words 0 8 items) (entry_area_of items)"
  assume "build_chunk items = Inr chunk"
  then have ok: "chunk_items_ok items" "length ?p < 2 ^ 32" "chunk = frame ?p"
    by (simp_all add: build_chunk_Inr length_assemble)
  have "read_chunk_payload chunk = Inr ?p"
    using read_frame_bytes [OF ok(2) refl] by (simp add: ok(3) frame_def)
  then show "\<exists>payload. read_chunk_payload chunk = Inr payload \<and>
      decode_sub_phrase_index payload = Inr (of_nat (\<Sum>(_, item) \<leftarrow> items. unat (item_unigram item)), items)"
    using decode_assembled [OF ok(1,2)] by blast
qed

theorem build_chunk_roundtrip_witness:
  "\<exists>chunk payload. build_chunk [(1, sample_item), (4, sample_item)] = Inr chunk \<and>
     read_chunk_payload chunk = Inr payload \<and>
     decode_sub_phrase_index payload = Inr (14, [(1, sample_item), (4, sample_item)])"
proof -
  let ?items = "[(1, sample_item), (4, sample_item)]"
  have "chunk_items_ok ?items"
    by (simp add: chunk_items_ok_def shape_ok_def sample_item_def PHRASE_MASK_def)
  moreover have "length (assemble_payload 0 (offset_words 0 8 ?items) (entry_area_of ?items)) < 2 ^ 32"
    by (simp add: length_assemble entry_area_of_def area_bytes_def sample_item_def item_bytes_def pron_bytes_def)
  ultimately obtain chunk where "build_chunk ?items = Inr chunk"
    using build_chunk_roundtrip [of ?items "[]"] by (auto simp: sample_item_def)
  then show ?thesis using build_chunk_roundtrip [of ?items chunk] by (auto simp: sample_item_def)
qed

end
