(* ===== verification/PhraseLibrary.thy ===== *)
theory PhraseLibrary
  imports ChunkWrite PhraseText
begin

text \<open>
  \<open>crates/oxpinyin-data/src/phrase_library.rs\<close>: the reader of one library file. The view of a phrase
  item over its bytes, the layout checks on a payload, and the accesses through the offset array.
  Opening and mapping the file are the operating system's; a library starts here from the bytes of
  the file and the range of its payload.
\<close>

section \<open>The item view\<close>

text \<open>A view is the bytes it borrows.\<close>

type_synonym item_view = bytes

definition byte_or_zero :: "bytes \<Rightarrow> nat \<Rightarrow> nat" where
  "byte_or_zero bs i = (case get_at bs i of Some b \<Rightarrow> unat b | None \<Rightarrow> 0)"

definition view_phrase_length :: "item_view \<Rightarrow> nat" where
  "view_phrase_length v = byte_or_zero v 0"

definition n_pronunciations :: "item_view \<Rightarrow> nat" where
  "n_pronunciations v = byte_or_zero v 1"

definition view_unigram :: "item_view \<Rightarrow> u32" where
  "view_unigram v = (case u32_at v 2 of Some w \<Rightarrow> w | None \<Rightarrow> 0)"

definition phrase_codes :: "item_view \<Rightarrow> u32 option list" where
  "phrase_codes v = map (\<lambda>index. Option.bind (checked_add ITEM_HEADER_SIZE (4 * index)) (u32_at v))
     [0 ..< view_phrase_length v]"

definition phrase_chars :: "item_view \<Rightarrow> u32 option list" where
  "phrase_chars v = map (\<lambda>code. Option.bind code char_from_u32) (phrase_codes v)"

definition view_phrase_text :: "item_view \<Rightarrow> phrase_text option" where
  "view_phrase_text v = from_stored_words (phrase_codes v)"

definition view_total_size :: "item_view \<Rightarrow> nat option" where
  "view_total_size v =
     (let len = view_phrase_length v in
      Option.bind (checked_mul CHEWING_KEY_SIZE len) (\<lambda>a.
      Option.bind (checked_add a 4) (\<lambda>b.
      Option.bind (checked_mul b (n_pronunciations v)) (\<lambda>per_pron.
      Option.bind (checked_add ITEM_HEADER_SIZE (4 * len)) (\<lambda>c. checked_add c per_pron)))))"

definition view_from_bytes :: "bytes \<Rightarrow> item_view option" where
  "view_from_bytes bs = (case validate_phrase_item bs of
     Inl _ \<Rightarrow> None
   | Inr _ \<Rightarrow> Option.bind (view_total_size bs) (get_range bs 0))"

definition pronunciation :: "item_view \<Rightarrow> nat \<Rightarrow> (bytes \<times> u32) option" where
  "pronunciation v index =
     (if n_pronunciations v \<le> index then None
      else Option.bind (Option.bind (checked_mul CHEWING_KEY_SIZE (view_phrase_length v)) (\<lambda>a. checked_add a 4)) (\<lambda>stride.
        Option.bind (checked_add ITEM_HEADER_SIZE (4 * view_phrase_length v)) (\<lambda>text_end.
        Option.bind (Option.bind (checked_mul index stride) (checked_add text_end)) (\<lambda>keys_start.
        Option.bind (if stride < 4 then None else checked_add keys_start (stride - 4)) (\<lambda>freq_start.
        Option.bind (checked_add keys_start (CHEWING_KEY_SIZE * view_phrase_length v)) (\<lambda>keys_end.
        Option.bind (get_range v keys_start keys_end) (\<lambda>keys.
        Option.bind (u32_at v freq_start) (\<lambda>freq. Some (keys, freq)))))))))"

definition pronunciations :: "item_view \<Rightarrow> (bytes \<times> u32) list" where
  "pronunciations v = map (\<lambda>index. case pronunciation v index of Some p \<Rightarrow> p | None \<Rightarrow> ([], 0))
     [0 ..< n_pronunciations v]"

section \<open>The library\<close>

datatype library_bytes = Mapped bytes | Owned bytes

fun lib_slice :: "library_bytes \<Rightarrow> bytes" where
  "lib_slice (Mapped bs) = bs"
| "lib_slice (Owned bs) = bs"

record phrase_library =
  lib_file :: "library_bytes option"
  lib_payload :: "nat \<times> nat"
  lib_total :: u32
  lib_offsets :: "nat \<times> nat"
  lib_content :: "nat \<times> nat"
  lib_layout_failed :: bool
  lib_detached :: "u32 option"

record phrase_content =
  pc_mapping :: bytes
  pc_offsets :: "nat \<times> nat"
  pc_area :: "nat \<times> nat"

datatype library_format_error =
    PayloadTooShort
  | OffsetSeparatorBounds
  | EntrySeparatorBounds
  | SectionsOutOfOrder
  | OffsetArrayNotWords

definition lib_empty :: "u32 \<Rightarrow> phrase_library" where
  "lib_empty tot = \<lparr>lib_file = None, lib_payload = (0, 0), lib_total = tot, lib_offsets = (0, 0),
     lib_content = (0, 0), lib_layout_failed = True, lib_detached = None\<rparr>"

definition lib_from_bytes :: "library_bytes \<Rightarrow> nat \<times> nat \<Rightarrow> library_format_error + phrase_library" where
  "lib_from_bytes img extent =
     (let payload = take (snd extent - fst extent) (drop (fst extent) (lib_slice img));
          tot = (case u32_at payload 0 of Some w \<Rightarrow> w | None \<Rightarrow> 0);
          layout = \<lparr>lib_file = Some img, lib_payload = extent, lib_total = tot, lib_offsets = (0, 0),
            lib_content = (0, 0), lib_layout_failed = True, lib_detached = None\<rparr>
      in if length payload < unat INDEX_ONE \<or> payload ! (unat INDEX_ONE - 1) \<noteq> SEPARATOR then Inr layout
         else case (u32_at payload 4, u32_at payload 8, u32_at payload 12) of
           (Some w1, Some w2, Some w3) \<Rightarrow>
             (let one = unat w1; two = unat w2; three = unat w3
              in if two = 0 \<or> length payload \<le> two - 1 then Inl OffsetSeparatorBounds
                 else if payload ! (two - 1) \<noteq> SEPARATOR then Inr layout
                 else if three = 0 \<or> length payload \<le> three - 1 then Inl EntrySeparatorBounds
                 else if payload ! (three - 1) \<noteq> SEPARATOR then Inr layout
                 else if two \<le> one \<or> three \<le> two then Inl SectionsOutOfOrder
                 else if (two - one - 1) mod 4 \<noteq> 0 then Inl OffsetArrayNotWords
                 else Inr \<lparr>lib_file = Some img, lib_payload = extent, lib_total = tot,
                   lib_offsets = (one, two - 1), lib_content = (two, three - 1),
                   lib_layout_failed = False, lib_detached = None\<rparr>)
         | _ \<Rightarrow> Inl PayloadTooShort)"

definition lib_from_payload :: "bytes \<Rightarrow> library_format_error + phrase_library" where
  "lib_from_payload payload = lib_from_bytes (Owned payload) (0, length payload)"

definition lib_compact :: "phrase_library \<Rightarrow> phrase_library" where
  "lib_compact lib = (if lib_layout_failed lib then lib\<lparr>lib_total := 0\<rparr> else lib)"

definition payload_of :: "phrase_library \<Rightarrow> bytes" where
  "payload_of lib =
     (case get_range (case lib_file lib of None \<Rightarrow> [] | Some f \<Rightarrow> lib_slice f) (fst (lib_payload lib)) (snd (lib_payload lib)) of
        Some bs \<Rightarrow> bs
      | None \<Rightarrow> [])"

fun trim_slots :: "bytes \<Rightarrow> nat \<Rightarrow> nat \<Rightarrow> nat" where
  "trim_slots payload start e =
     (if 1 < e then
        (case u32_at payload (start + 4 * (e - 1)) of
           Some w \<Rightarrow> if w \<noteq> 0 then e else trim_slots payload start (e - 1)
         | None \<Rightarrow> trim_slots payload start (e - 1))
      else e)"

declare trim_slots.simps [simp del]

definition token_range :: "phrase_library \<Rightarrow> u32 \<times> u32" where
  "token_range lib = (case lib_detached lib of
     Some e \<Rightarrow> (1, e)
   | None \<Rightarrow>
       (let slots = (snd (lib_offsets lib) - fst (lib_offsets lib)) div 4;
            e = trim_slots (payload_of lib) (fst (lib_offsets lib)) slots
        in (1, u32_or_max (max e 1))))"

definition has_items :: "phrase_library \<Rightarrow> bool" where
  "has_items lib \<longleftrightarrow> fst (lib_content lib) < snd (lib_content lib)"

definition slot_offset :: "phrase_library \<Rightarrow> nat \<Rightarrow> u32 option" where
  "slot_offset lib slot =
     Option.bind (Option.bind (checked_mul slot 4) (\<lambda>a. checked_add a (fst (lib_offsets lib)))) (\<lambda>start.
     Option.bind (checked_add start 4) (\<lambda>e.
     if snd (lib_offsets lib) < e then None else u32_at (payload_of lib) start))"

definition content_area :: "phrase_library \<Rightarrow> bytes option" where
  "content_area lib = get_range (payload_of lib) (fst (lib_content lib)) (snd (lib_content lib))"

definition item_at_slot :: "phrase_library \<Rightarrow> nat \<Rightarrow> item_view option" where
  "item_at_slot lib slot = Option.bind (slot_offset lib slot) (\<lambda>w.
     (let offset = unat w in
      if offset = 0 then None
      else Option.bind (content_area lib) (\<lambda>area.
        Option.bind (get_from area offset) (\<lambda>bs.
        Option.bind (view_total_size bs) (\<lambda>tot.
        Option.bind (checked_add offset tot) (\<lambda>e.
        if length area < e then None else get_range area offset (offset + tot)))))))"

definition lib_item :: "phrase_library \<Rightarrow> u32 \<Rightarrow> item_view option" where
  "lib_item lib token = item_at_slot lib (unat (token AND PHRASE_MASK))"

definition pronunciation_count :: "phrase_library \<Rightarrow> u32 \<Rightarrow> u32 option" where
  "pronunciation_count lib token = Option.bind (slot_offset lib (unat (token AND PHRASE_MASK))) (\<lambda>w.
     (let offset = unat w in
      if offset = 0 then None
      else Option.bind (content_area lib) (\<lambda>area.
        Option.bind (get_at area offset) (\<lambda>_.
        Option.bind (checked_add offset 1) (\<lambda>at. map_option ucast (get_at area at))))))"

definition content_offset :: "phrase_library \<Rightarrow> u32 \<Rightarrow> u32 option" where
  "content_offset lib token = Option.bind (slot_offset lib (unat (token AND PHRASE_MASK)))
     (\<lambda>offset. if offset \<noteq> 0 then Some offset else None)"

definition slot_offset_word :: "phrase_library \<Rightarrow> u32 \<Rightarrow> u32 option" where
  "slot_offset_word lib slot = slot_offset lib (unat slot)"

definition lib_items :: "phrase_library \<Rightarrow> (u32 \<times> item_view) list" where
  "lib_items lib = List.map_filter (\<lambda>slot. map_option (Pair (u32_or_max slot)) (item_at_slot lib slot))
     [0 ..< (snd (lib_offsets lib) - fst (lib_offsets lib)) div 4]"

definition item_total :: "phrase_library \<Rightarrow> u32" where
  "item_total lib = foldl (\<lambda>tot (_, v). tot + view_unigram v) 0 (filter (\<lambda>(slot, _). 1 \<le> slot) (lib_items lib))"

definition original_item_count :: "phrase_library \<Rightarrow> nat" where
  "original_item_count lib = length (lib_items lib)"

definition take_live_content :: "phrase_library \<Rightarrow> phrase_content option \<times> phrase_library" where
  "take_live_content lib =
     (if lib_detached lib \<noteq> None then (None, lib)
      else case lib_file lib of
        Some (Mapped bs) \<Rightarrow>
          (let p = fst (lib_payload lib); o' = lib_offsets lib; c = lib_content lib
           in (Some \<lparr>pc_mapping = bs, pc_offsets = (p + fst o', p + snd o'), pc_area = (p + fst c, p + snd c)\<rparr>,
               lib\<lparr>lib_file := None, lib_detached := Some (snd (token_range lib))\<rparr>))
      | _ \<Rightarrow> (None, lib))"

definition byte_identical :: "phrase_library \<Rightarrow> phrase_library \<Rightarrow> bool" where
  "byte_identical lib other \<longleftrightarrow> map_option lib_slice (lib_file lib) = map_option lib_slice (lib_file other)"

section \<open>Views of encoded items\<close>

lemma small_counts: "byte_or_zero v i < 256"
proof -
  have "unat (b :: u8) < 256" for b using unsigned_less [of b] by simp
  then show ?thesis by (simp add: byte_or_zero_def split: option.splits)
qed

definition view_size :: "item_view \<Rightarrow> nat" where
  "view_size v = 6 + 4 * view_phrase_length v + (2 * view_phrase_length v + 4) * n_pronunciations v"

lemma counts_fit: "(2 * view_phrase_length v + 4) * n_pronunciations v \<le> 514 * 255"
  using small_counts [of v 0] small_counts [of v 1]
  by (intro mult_mono) (auto simp: view_phrase_length_def n_pronunciations_def)

lemma view_total_size_eq [simp]: "view_total_size v = Some (view_size v)"
  using counts_fit [of v] small_counts [of v 0]
  by (simp add: view_total_size_def view_size_def checked_mul_def checked_add_def CHEWING_KEY_SIZE_def
      ITEM_HEADER_SIZE_def usize_max_def view_phrase_length_def Let_def)

lemma item_counts:
  assumes "shape_ok item"
  shows "view_phrase_length (item_bytes item @ rest) = length (item_phrase item)"
    and "n_pronunciations (item_bytes item @ rest) = length (item_prons item)"
  using assms
  by (simp_all add: view_phrase_length_def n_pronunciations_def byte_or_zero_def get_at_def item_bytes_def
      shape_ok_def unat_of_nat take_bit_nat_eq_self)

lemma length_pron_bytes: "length (pron_bytes p) = 2 * length (fst p) + 4"
  by (simp add: pron_bytes_def length_words)

lemma pron_widths:
  assumes "shape_ok item"
  shows "\<forall>b \<in> set (map pron_bytes (item_prons item)). length b = 2 * length (item_phrase item) + 4"
  using assms by (auto simp: shape_ok_def length_pron_bytes)

lemma length_item_bytes:
  assumes "shape_ok item"
  shows "length (item_bytes item) = 6 + 4 * length (item_phrase item) + (2 * length (item_phrase item) + 4) * length (item_prons item)"
  using length_concat_const [OF pron_widths [OF assms]]
  by (simp add: item_bytes_def length_words)

lemma view_size_item: "shape_ok item \<Longrightarrow> view_size (item_bytes item @ rest) = length (item_bytes item)"
  by (simp add: view_size_def item_counts length_item_bytes)

lemma view_of_item:
  assumes "shape_ok item"
  shows "view_from_bytes (item_bytes item @ rest) = Some (item_bytes item)"
proof -
  have "validate_phrase_item (item_bytes item @ rest) = Inr ()"
    using decode_item_bytes [OF assms, of rest] by (simp add: validate_is_decode_status)
  then show ?thesis
    using view_size_item [OF assms, of rest] by (simp add: view_from_bytes_def get_range_def)
qed

lemma u32_at_array:
  assumes "length pre = n" "i < length ws" "n + 4 * i + 4 \<le> usize_max"
  shows "u32_at (pre @ concat (map u32_le ws) @ rest) (n + 4 * i) = Some (ws ! i)"
proof -
  have "concat (map u32_le ws) = concat (map u32_le (take i ws)) @ u32_le (ws ! i) @ concat (map u32_le (drop (Suc i) ws))"
    using arg_cong [OF id_take_nth_drop [OF assms(2)], of "\<lambda>l. concat (map u32_le l)"] by simp
  then have "pre @ concat (map u32_le ws) @ rest =
      (pre @ concat (map u32_le (take i ws))) @ u32_le (ws ! i) @ (concat (map u32_le (drop (Suc i) ws)) @ rest)"
    by simp
  then show ?thesis
    using assms u32_at_append [of "pre @ concat (map u32_le (take i ws))" "n + 4 * i" "ws ! i"]
    by (simp add: length_words)
qed

lemma view_reads:
  assumes "shape_ok item"
  shows "view_unigram (item_bytes item) = item_unigram item"
    and "phrase_codes (item_bytes item) = map Some (item_phrase item)"
proof -
  let ?n = "length (item_phrase item)" and ?m = "length (item_prons item)"
  let ?hd = "[of_nat ?n, of_nat ?m] :: bytes" and ?u = "u32_le (item_unigram item)"
  let ?p = "concat (map pron_bytes (item_prons item))"
  have small: "?n < 256" using assms by (simp add: shape_ok_def)
  have "u32_at (?hd @ ?u @ (concat (map u32_le (item_phrase item)) @ ?p)) 2 = Some (item_unigram item)"
    by (rule u32_at_append) (simp_all add: usize_max_def)
  then show "view_unigram (item_bytes item) = item_unigram item"
    by (simp add: view_unigram_def item_bytes_def)
  have "u32_at ((?hd @ ?u) @ concat (map u32_le (item_phrase item)) @ ?p) (6 + 4 * i) = Some (item_phrase item ! i)"
    if "i < ?n" for i
    using that small by (intro u32_at_array) (simp_all add: usize_max_def)
  then show "phrase_codes (item_bytes item) = map Some (item_phrase item)"
    using item_counts(1) [OF assms, of "[]"] small
    by (intro nth_equalityI)
       (simp_all add: phrase_codes_def item_bytes_def checked_add_def ITEM_HEADER_SIZE_def usize_max_def)
qed

lemma view_pronunciation:
  assumes "shape_ok item" "i < length (item_prons item)"
  shows "pronunciation (item_bytes item) i =
      Some (concat (map u16_le (fst (item_prons item ! i))), snd (item_prons item ! i))"
proof -
  let ?n = "length (item_phrase item)" and ?ps = "item_prons item"
  define k f where "k = concat (map u16_le (fst (?ps ! i)))" and "f = snd (?ps ! i)"
  define pre where "pre = [of_nat ?n, of_nat (length ?ps)] @ u32_le (item_unigram item) @
      concat (map u32_le (item_phrase item)) @ concat (map pron_bytes (take i ?ps))"
  define post where "post = concat (map pron_bytes (drop (Suc i) ?ps))"
  have len_k: "length k = 2 * ?n"
    using pron_widths [OF assms(1)] nth_mem [OF assms(2)] by (simp add: k_def length_words length_pron_bytes)
  have "\<forall>b \<in> set (map pron_bytes (take i ?ps)). length b = 2 * ?n + 4"
    using pron_widths [OF assms(1)] by (auto dest: in_set_takeD)
  then have len_pre: "length pre = 6 + 4 * ?n + i * (2 * ?n + 4)"
    using length_concat_const [of "map pron_bytes (take i ?ps)" "2 * ?n + 4"] assms(2)
    by (simp add: pre_def length_words mult.commute)
  have b: "item_bytes item = pre @ k @ (u32_le f @ post)"
    using arg_cong [OF id_take_nth_drop [OF assms(2)], of "\<lambda>l. concat (map pron_bytes l)"]
    by (simp add: item_bytes_def pre_def post_def k_def f_def pron_bytes_def)
  have small: "?n < 256" "i < 256" using assms by (auto simp: shape_ok_def)
  then have small: "?n < 256" "i < 256" "i * (2 * ?n + 4) \<le> 256 * 516"
    using mult_le_mono [of i 256 "2 * ?n + 4" 516] by auto
  have "get_range (item_bytes item) (length pre) (length pre + 2 * ?n) = Some k"
    unfolding b by (rule get_range_at) (simp_all add: len_k)
  moreover have "u32_at ((pre @ k) @ u32_le f @ post) (length pre + 2 * ?n) = Some f"
    by (rule u32_at_append) (use small in \<open>simp_all add: len_k len_pre usize_max_def\<close>)
  ultimately show ?thesis
    using assms(2) item_counts [OF assms(1), of "[]"] small
    by (simp add: pronunciation_def checked_mul_def checked_add_def CHEWING_KEY_SIZE_def ITEM_HEADER_SIZE_def
        usize_max_def len_pre b k_def [symmetric] f_def [symmetric] add.assoc)
qed

section \<open>The library of an assembled payload\<close>

definition library_of :: "bytes \<Rightarrow> u32 \<Rightarrow> nat \<Rightarrow> nat \<Rightarrow> phrase_library" where
  "library_of payload tot n m = \<lparr>lib_file = Some (Owned payload), lib_payload = (0, length payload), lib_total = tot,
     lib_offsets = (17, 17 + 4 * n), lib_content = (18 + 4 * n, 18 + 4 * n + m),
     lib_layout_failed = False, lib_detached = None\<rparr>"

lemma payload_of_library [simp]: "payload_of (library_of payload tot n m) = payload"
  by (simp add: payload_of_def library_of_def get_range_def)

lemma library_from_payload:
  assumes "payload = assemble_payload tot offs area" "length payload < 2 ^ 32"
  shows "lib_from_payload payload = Inr (library_of payload tot (length offs) (length area))"
proof -
  let ?n = "length offs" and ?m = "length area"
  let ?two = "of_nat (18 + 4 * ?n) :: u32" and ?three = "of_nat (19 + 4 * ?n + ?m) :: u32"
  have P: "payload = (u32_le tot @ u32_le 17 @ u32_le ?two @ u32_le ?three) @ [SEPARATOR] @
      concat (map u32_le offs) @ [SEPARATOR] @ area @ [SEPARATOR]"
    using assemble_eq [of tot offs area] assms by simp
  define tl where "tl = [SEPARATOR] @ concat (map u32_le offs) @ [SEPARATOR] @ area @ [SEPARATOR]"
  have len: "length payload = 19 + 4 * ?n + ?m" by (simp add: assms(1) length_assemble)
  then have fit: "19 + 4 * ?n + ?m < 2 ^ 32" using assms(2) by simp
  have Q: "payload = [] @ u32_le tot @ (u32_le 17 @ u32_le ?two @ u32_le ?three @ tl)"
    "payload = u32_le tot @ u32_le 17 @ (u32_le ?two @ u32_le ?three @ tl)"
    "payload = (u32_le tot @ u32_le 17) @ u32_le ?two @ (u32_le ?three @ tl)"
    "payload = (u32_le tot @ u32_le 17 @ u32_le ?two) @ u32_le ?three @ tl"
    by (simp_all add: P tl_def)
  have w: "u32_at payload 0 = Some tot" "u32_at payload 4 = Some 17" "u32_at payload 8 = Some ?two"
    "u32_at payload 12 = Some ?three"
    by (subst Q(1), rule u32_at_append, simp, simp add: usize_max_def)
       (subst Q(2), rule u32_at_append, simp, simp add: usize_max_def,
        subst Q(3), rule u32_at_append, simp, simp add: usize_max_def,
        subst Q(4), rule u32_at_append, simp, simp add: usize_max_def)
  have un: "unat ?two = 18 + 4 * ?n" "unat ?three = 19 + 4 * ?n + ?m"
    using fit by (intro unat_small; simp)+
  have seps: "payload ! 16 = SEPARATOR" "payload ! (17 + 4 * ?n) = SEPARATOR"
    "payload ! (18 + 4 * ?n + ?m) = SEPARATOR"
    by (simp_all add: P nth_append length_words)
  show ?thesis
    by (simp add: lib_from_payload_def lib_from_bytes_def w un seps seps(3) [unfolded add.assoc] len INDEX_ONE_def
        library_of_def Let_def del: of_nat_add of_nat_mult)
qed

lemma library_slots:
  assumes "payload = assemble_payload tot offs area" "length payload < 2 ^ 32"
  shows "slot_offset (library_of payload tot (length offs) (length area)) slot =
      (if slot < length offs then Some (offs ! slot) else None)"
proof (cases "slot < length offs")
  case True
  let ?h = "(u32_le tot @ u32_le 17 @ u32_le (of_nat (18 + 4 * length offs)) @
       u32_le (of_nat (19 + 4 * length offs + length area))) @ [SEPARATOR]"
  have P: "payload = ?h @ concat (map u32_le offs) @ ([SEPARATOR] @ area @ [SEPARATOR])"
    using assemble_eq [of tot offs area] assms by simp
  have fit: "17 + 4 * slot + 4 \<le> usize_max"
    using True assms by (simp add: length_assemble usize_max_def)
  have "u32_at payload (17 + 4 * slot) = Some (offs ! slot)"
    unfolding P by (rule u32_at_array [OF _ True fit]) simp
  then show ?thesis
    using True fit payload_of_library [of payload tot "length offs" "length area"]
    by (simp add: slot_offset_def checked_mul_def checked_add_def library_of_def mult.commute add.commute)
next
  case False
  then show ?thesis
    by (auto simp: slot_offset_def library_of_def checked_mul_def checked_add_def split: Option.bind_splits if_splits)
qed

lemma library_area:
  assumes "payload = assemble_payload tot offs area" "length payload < 2 ^ 32"
  shows "content_area (library_of payload tot (length offs) (length area)) = Some area"
proof -
  let ?h = "(u32_le tot @ u32_le 17 @ u32_le (of_nat (18 + 4 * length offs)) @
       u32_le (of_nat (19 + 4 * length offs + length area))) @ [SEPARATOR] @ concat (map u32_le offs) @ [SEPARATOR]"
  have P: "payload = ?h @ area @ [SEPARATOR]"
    using assemble_eq [of tot offs area] assms by simp
  have "get_range payload (18 + 4 * length offs) (18 + 4 * length offs + length area) = Some area"
    unfolding P by (rule get_range_at) (simp_all add: length_words)
  then show ?thesis
    using payload_of_library [of payload tot "length offs" "length area"]
    by (simp add: content_area_def library_of_def)
qed

text \<open>Where the offset array points.\<close>

definition slot_map :: "(u32 \<times> chunk_item) list \<Rightarrow> nat \<Rightarrow> chunk_item option" where
  "slot_map items = map_of (map (\<lambda>(slot, item). (unat slot, item)) items)"

lemma slot_map_below: "slots_from k items \<Longrightarrow> s < k \<Longrightarrow> slot_map items s = None"
  by (induction k items rule: slots_from.induct) (auto simp: slot_map_def)

lemma offset_words_nth:
  assumes "slots_from k items" "k \<le> s" "s - k < length (offset_words k off items)" "0 < off"
    and "area = pre @ area_bytes items" "length pre = off" "length area < 2 ^ 32"
  shows "case slot_map items s of
      None \<Rightarrow> offset_words k off items ! (s - k) = 0
    | Some item \<Rightarrow> 0 < unat (offset_words k off items ! (s - k)) \<and>
        (\<exists>rest. get_from area (unat (offset_words k off items ! (s - k))) = Some (item_bytes item @ rest))"
  using assms
proof (induction k off items arbitrary: pre rule: offset_words.induct)
  case (2 k off slot item rest)
  have off: "unat (of_nat off :: u32) = off"
    using "2.prems"(5-7) by (intro unat_small) simp
  consider "s < unat slot" | "s = unat slot" | "unat slot < s" by linarith
  then show ?case
  proof cases
    case 1
    then have "slot_map ((slot, item) # rest) s = None"
      using "2.prems"(1) slot_map_below [of "unat slot + 1" rest s] by (simp add: slot_map_def)
    moreover have "offset_words k off ((slot, item) # rest) ! (s - k) = 0"
      using diff_less_mono [OF 1 "2.prems"(2)] by (simp add: nth_append)
    ultimately show ?thesis by simp
  next
    case 2
    then have "slot_map ((slot, item) # rest) s = Some item" by (simp add: slot_map_def)
    moreover have "offset_words k off ((slot, item) # rest) ! (s - k) = of_nat off"
      using 2 by (simp add: nth_append)
    moreover have "get_from area off = Some (item_bytes item @ area_bytes rest)"
      using "2.prems"(5,6) by (simp add: get_from_def area_bytes_def)
    ultimately show ?thesis using off "2.prems"(4) by simp
  next
    case 3
    let ?ws = "offset_words (unat slot + 1) (off + length (item_bytes item)) rest"
    have m: "slot_map ((slot, item) # rest) s = slot_map rest s" using 3 by (simp add: slot_map_def)
    have nth: "offset_words k off ((slot, item) # rest) ! (s - k) = ?ws ! (s - (unat slot + 1))"
    proof -
      have "k \<le> unat slot" using "2.prems"(1) by simp
      then have eq: "s - k = (unat slot - k) + Suc (s - (unat slot + 1))" using 3 by arith
      have "(replicate (unat slot - k) 0 @ of_nat off # ?ws) ! ((unat slot - k) + Suc (s - (unat slot + 1))) =
          ?ws ! (s - (unat slot + 1))"
        using nth_append_length_plus [of "replicate (unat slot - k) 0" "of_nat off # ?ws"] by (metis length_replicate nth_Cons_Suc)
      then show ?thesis unfolding eq offset_words.simps .
    qed
    show ?thesis
      unfolding m nth using 3 "2.prems"
      by (intro "2.IH" [of "pre @ item_bytes item"]) (auto simp: area_bytes_def)
  qed
qed simp

lemma slot_map_above:
  "slots_from k items \<Longrightarrow> k + length (offset_words k off items) \<le> s \<Longrightarrow> slot_map items s = None"
proof (induction k off items rule: offset_words.induct)
  case (2 k off slot item rest)
  then show ?case by (simp add: slot_map_def)
qed (simp add: slot_map_def)

lemma slot_map_shape:
  "chunk_items_ok items \<Longrightarrow> slot_map items s = Some item \<Longrightarrow> shape_ok item"
  by (auto simp: slot_map_def chunk_items_ok_def dest!: map_of_SomeD)

lemma library_item_at:
  assumes "chunk_items_ok items" "length payload < 2 ^ 32"
    and "payload = assemble_payload tot (offset_words 0 8 items) (entry_area_of items)"
  shows "item_at_slot (library_of payload tot (length (offset_words 0 8 items)) (length (entry_area_of items))) slot =
      map_option item_bytes (slot_map items slot)"
proof -
  let ?offs = "offset_words 0 8 items" and ?area = "entry_area_of items"
  let ?lib = "library_of payload tot (length ?offs) (length ?area)"
  have ok: "slots_from 0 items" using assms(1) by (simp add: chunk_items_ok_def)
  show ?thesis
  proof (cases "slot < length ?offs")
    case False
    then have "slot_map items slot = None" using slot_map_above [OF ok, of 8 slot] by simp
    with False show ?thesis by (simp add: item_at_slot_def library_slots [OF assms(3,2)])
  next
    case True
    then have "items \<noteq> []" by auto
    then have area: "?area = replicate 8 0 @ area_bytes items" by (simp add: entry_area_of_def)
    have small: "length ?area < 2 ^ 32" using assms(2,3) by (simp add: length_assemble)
    note nth = offset_words_nth [OF ok _ _ _ area, of slot 8]
    show ?thesis
    proof (cases "slot_map items slot")
      case None
      with nth True small have "?offs ! slot = 0" by simp
      with None True show ?thesis by (simp add: item_at_slot_def library_slots [OF assms(3,2)])
    next
      case (Some item)
      define off where "off = unat (?offs ! slot)"
      obtain rest where off: "0 < off" "get_from ?area off = Some (item_bytes item @ rest)"
        using nth True small Some by (auto simp: off_def)
      then have d: "off \<le> length ?area" "drop off ?area = item_bytes item @ rest"
        by (auto simp: get_from_def split: if_splits)
      then have le: "off + length (item_bytes item) \<le> length ?area"
        by (metis add_leD1 le_add1 le_diff_conv2 length_append length_drop add.commute)
      have "view_size (item_bytes item @ rest) = length (item_bytes item)"
        by (rule view_size_item [OF slot_map_shape [OF assms(1) Some]])
      moreover have "get_range ?area off (off + length (item_bytes item)) = Some (item_bytes item)"
        using le d by (simp add: get_range_def)
      moreover have "off + length (item_bytes item) \<le> usize_max" using le small by (simp add: usize_max_def)
      ultimately show ?thesis
        using True off le Some
        by (simp add: item_at_slot_def library_slots [OF assms(3,2)] library_area [OF assms(3,2)]
            off_def [symmetric] checked_add_def Let_def)
    qed
  qed
qed

lemma view_size_take:
  assumes "view_size bs \<le> length bs"
  shows "view_size (take (view_size bs) bs) = view_size bs"
proof -
  have "6 \<le> view_size bs" by (simp add: view_size_def)
  then have "byte_or_zero (take (view_size bs) bs) i = byte_or_zero bs i" if "i < 2" for i
    using that assms by (auto simp: byte_or_zero_def get_at_def)
  then show ?thesis by (simp add: view_size_def [of "take _ _"] view_phrase_length_def n_pronunciations_def)
     (simp add: view_size_def view_phrase_length_def n_pronunciations_def)
qed

lemma item_at_slot_whole: "item_at_slot lib slot = Some v \<Longrightarrow> view_size v = length v"
  using view_size_take
  by (auto simp: item_at_slot_def bind_eq_Some_conv get_range_def get_from_def Let_def split: if_splits)

lemma view_from_bytes_whole: "view_from_bytes bs = Some v \<Longrightarrow> view_size v = length v"
  using view_size_take [of bs]
  by (auto simp: view_from_bytes_def get_range_def split: if_splits sum.splits)

lemma library_sections:
  assumes "lib_from_payload payload = Inr lib"
  shows "lib_file lib = Some (Owned payload)" "lib_payload lib = (0, length payload)"
    and "fst (lib_offsets lib) \<le> snd (lib_offsets lib)" "snd (lib_offsets lib) \<le> length payload"
    and "fst (lib_content lib) \<le> snd (lib_content lib)" "snd (lib_content lib) \<le> length payload"
    and "(snd (lib_offsets lib) - fst (lib_offsets lib)) mod 4 = 0"
  using assms
  by (auto simp: lib_from_payload_def lib_from_bytes_def Let_def split: if_splits option.splits)

section \<open>Properties\<close>

text \<open>The view of an item. Over the bytes of any encodable item, whatever follows them, \<open>from_bytes\<close>
  hands out exactly the item's own bytes, and every read of the view answers what was encoded: the
  counts, the unigram, each stored word, and each pronunciation's packed keys and frequency, with
  \<open>None\<close> past the last pronunciation.\<close>

theorem item_view_reads:
  assumes "encode_phrase_item item = Inr bs"
  shows "view_from_bytes (bs @ rest) = Some bs \<and>
    view_phrase_length bs = length (item_phrase item) \<and> n_pronunciations bs = length (item_prons item) \<and>
    view_unigram bs = item_unigram item \<and> phrase_codes bs = map Some (item_phrase item) \<and>
    pronunciation bs i = (if i < length (item_prons item)
      then Some (concat (map u16_le (fst (item_prons item ! i))), snd (item_prons item ! i)) else None)"
proof -
  have ok: "shape_ok item" and bs: "bs = item_bytes item"
    using assms encode_phrase_item_ok [of item] by (auto split: if_splits)
  have "\<not> i < length (item_prons item) \<Longrightarrow> pronunciation bs i = None"
    using item_counts(2) [OF ok, of "[]"] by (simp add: bs pronunciation_def)
  then show ?thesis
    using view_of_item [OF ok] item_counts [OF ok, of "[]"] view_reads [OF ok] view_pronunciation [OF ok]
    by (simp add: bs)
qed

text \<open>C6: the reader against the writer. A library opened on the payload of any file that \<open>build_chunk\<close>
  wrote is accepted with its layout intact, carries the frequency total, and answers for every slot
  exactly the bytes of the item written there, and \<open>None\<close> for every other slot.\<close>

theorem library_reads_chunk:
  assumes "build_chunk items = Inr img" "read_chunk_payload img = Inr payload"
  shows "\<exists>lib. lib_from_payload payload = Inr lib \<and> \<not> lib_layout_failed lib \<and>
    lib_total lib = of_nat (\<Sum>(_, item) \<leftarrow> items. unat (item_unigram item)) \<and>
    item_at_slot lib slot = map_option item_bytes (map_of (map (\<lambda>(slot, item). (unat slot, item)) items) slot)"
proof -
  let ?tot = "of_nat (\<Sum>(_, item) \<leftarrow> items. unat (item_unigram item)) :: u32"
  let ?p = "assemble_payload ?tot (offset_words 0 8 items) (entry_area_of items)"
  have ok: "chunk_items_ok items" "length ?p < 2 ^ 32" "img = frame ?p"
    using assms(1) by (simp_all add: build_chunk_Inr length_assemble)
  then have p: "payload = ?p"
    using assms(2) read_frame_bytes [OF ok(2) refl, of "chunk_checksum ?p"] by (simp add: frame_def)
  let ?lib = "library_of payload ?tot (length (offset_words 0 8 items)) (length (entry_area_of items))"
  have "lib_from_payload payload = Inr ?lib"
    using ok(2) p by (intro library_from_payload) simp_all
  moreover have "item_at_slot ?lib slot = map_option item_bytes (slot_map items slot)"
    using ok p by (intro library_item_at) simp_all
  ultimately show ?thesis by (intro exI [of _ ?lib]) (simp add: library_of_def slot_map_def)
qed

theorem library_reads_chunk_witness:
  "\<exists>img payload lib. build_chunk [(1, sample_item)] = Inr img \<and> read_chunk_payload img = Inr payload \<and>
     lib_from_payload payload = Inr lib \<and> item_at_slot lib 1 = Some (item_bytes sample_item)"
proof -
  let ?items = "[(1, sample_item)]"
  have ok: "chunk_items_ok ?items"
    by (simp add: chunk_items_ok_def shape_ok_def sample_item_def PHRASE_MASK_def)
  have len: "length (assemble_payload t (offset_words 0 8 ?items) (entry_area_of ?items)) < 2 ^ 32" for t
    by (simp add: length_assemble entry_area_of_def area_bytes_def sample_item_def item_bytes_def pron_bytes_def)
  obtain img where img: "build_chunk ?items = Inr img"
    using ok len [of 0] by (simp add: build_chunk_Inr sample_item_def)
  obtain payload where "read_chunk_payload img = Inr payload"
    using img read_frame_bytes [OF len refl] by (auto simp: build_chunk_Inr frame_def)
  then show ?thesis using img library_reads_chunk [OF img, of payload 1] by auto
qed

text \<open>C35: no access leaves the bytes. On any payload whatsoever, malformed or truncated, an accepted
  library's sections lie inside the payload in order, its offset array is a whole number of words,
  and every view \<open>item_at_slot\<close> or \<open>from_bytes\<close> hands out is complete: it is as long as its own
  header declares.\<close>

theorem library_accesses_inside:
  assumes "lib_from_payload payload = Inr lib"
  shows "payload_of lib = payload \<and> fst (lib_offsets lib) \<le> snd (lib_offsets lib) \<and>
    snd (lib_offsets lib) \<le> length payload \<and> fst (lib_content lib) \<le> snd (lib_content lib) \<and>
    snd (lib_content lib) \<le> length payload \<and> (snd (lib_offsets lib) - fst (lib_offsets lib)) mod 4 = 0 \<and>
    (item_at_slot lib slot = Some v \<longrightarrow> view_total_size v = Some (length v)) \<and>
    (view_from_bytes bs = Some v \<longrightarrow> view_total_size v = Some (length v))"
proof -
  have "payload_of lib = payload"
    using library_sections(1,2) [OF assms] by (simp add: payload_of_def get_range_def)
  then show ?thesis
    using library_sections(3-7) [OF assms] item_at_slot_whole [of lib slot v] view_from_bytes_whole [of bs v] by simp
qed

theorem library_accesses_inside_witness:
  "\<exists>lib. lib_from_payload [1, 2, 3] = Inr lib \<and> payload_of lib = [1, 2, 3] \<and> snd (lib_offsets lib) \<le> 3"
proof -
  obtain lib where "lib_from_payload [1, 2, 3] = Inr lib"
    by (simp add: lib_from_payload_def lib_from_bytes_def INDEX_ONE_def Let_def)
  then show ?thesis using library_accesses_inside [of "[1, 2, 3]" lib 0 "[]" "[]"] by auto
qed

end
