(* ===== verification/Syllables.thy ===== *)
theory Syllables
  imports ChewingKey
begin

text \<open>
  \<open>crates/oxpinyin-core/src/options.rs\<close>, \<open>syllables.rs\<close> with its pinned inventories under
  \<open>table_data/\<close>, and the \<open>SyllableKey\<close> of \<open>vocab.rs\<close>: the option word, the frozen spellings and their
  dense ids, the option-gated spelling aliases, and the lookup the segment graph makes for every
  span. A \<open>&str\<close> is here the \<open>string\<close> of its UTF-8 bytes.
\<close>

section \<open>The option word\<close>

type_synonym option_bits = u32

definition PINYIN_INCOMPLETE :: u32 where "PINYIN_INCOMPLETE = push_bit 3 1"
definition USE_TONE :: u32 where "USE_TONE = push_bit 5 1"
definition FORCE_TONE :: u32 where "FORCE_TONE = push_bit 6 1"
definition USE_DIVIDED_TABLE :: u32 where "USE_DIVIDED_TABLE = push_bit 7 1"
definition USE_RESPLIT_TABLE :: u32 where "USE_RESPLIT_TABLE = push_bit 8 1"
definition DYNAMIC_ADJUST :: u32 where "DYNAMIC_ADJUST = push_bit 9 1"
definition PINYIN_AMB_C_CH :: u32 where "PINYIN_AMB_C_CH = push_bit 10 1"
definition PINYIN_AMB_S_SH :: u32 where "PINYIN_AMB_S_SH = push_bit 11 1"
definition PINYIN_AMB_Z_ZH :: u32 where "PINYIN_AMB_Z_ZH = push_bit 12 1"
definition PINYIN_AMB_F_H :: u32 where "PINYIN_AMB_F_H = push_bit 13 1"
definition PINYIN_AMB_G_K :: u32 where "PINYIN_AMB_G_K = push_bit 14 1"
definition PINYIN_AMB_L_N :: u32 where "PINYIN_AMB_L_N = push_bit 15 1"
definition PINYIN_AMB_L_R :: u32 where "PINYIN_AMB_L_R = push_bit 16 1"
definition PINYIN_AMB_AN_ANG :: u32 where "PINYIN_AMB_AN_ANG = push_bit 17 1"
definition PINYIN_AMB_EN_ENG :: u32 where "PINYIN_AMB_EN_ENG = push_bit 18 1"
definition PINYIN_AMB_IN_ING :: u32 where "PINYIN_AMB_IN_ING = push_bit 19 1"
definition PINYIN_CORRECT_GN_NG :: u32 where "PINYIN_CORRECT_GN_NG = push_bit 21 1"
definition PINYIN_CORRECT_MG_NG :: u32 where "PINYIN_CORRECT_MG_NG = push_bit 22 1"
definition PINYIN_CORRECT_IOU_IU :: u32 where "PINYIN_CORRECT_IOU_IU = push_bit 23 1"
definition PINYIN_CORRECT_UEI_UI :: u32 where "PINYIN_CORRECT_UEI_UI = push_bit 24 1"
definition PINYIN_CORRECT_UEN_UN :: u32 where "PINYIN_CORRECT_UEN_UN = push_bit 25 1"
definition PINYIN_CORRECT_UE_VE :: u32 where "PINYIN_CORRECT_UE_VE = push_bit 26 1"
definition PINYIN_CORRECT_V_U :: u32 where "PINYIN_CORRECT_V_U = push_bit 27 1"
definition PINYIN_CORRECT_ON_ONG :: u32 where "PINYIN_CORRECT_ON_ONG = push_bit 28 1"
definition PINYIN_CORRECT_ALL :: u32 where "PINYIN_CORRECT_ALL = push_bit 21 0xff"

lemmas option_consts = PINYIN_INCOMPLETE_def USE_TONE_def FORCE_TONE_def USE_DIVIDED_TABLE_def
  USE_RESPLIT_TABLE_def DYNAMIC_ADJUST_def PINYIN_AMB_C_CH_def PINYIN_AMB_S_SH_def
  PINYIN_AMB_Z_ZH_def PINYIN_AMB_F_H_def PINYIN_AMB_G_K_def PINYIN_AMB_L_N_def PINYIN_AMB_L_R_def
  PINYIN_AMB_AN_ANG_def PINYIN_AMB_EN_ENG_def PINYIN_AMB_IN_ING_def PINYIN_CORRECT_GN_NG_def
  PINYIN_CORRECT_MG_NG_def PINYIN_CORRECT_IOU_IU_def PINYIN_CORRECT_UEI_UI_def
  PINYIN_CORRECT_UEN_UN_def PINYIN_CORRECT_UE_VE_def PINYIN_CORRECT_V_U_def
  PINYIN_CORRECT_ON_ONG_def PINYIN_CORRECT_ALL_def

definition contains :: "option_bits \<Rightarrow> u32 \<Rightarrow> bool" where
  "contains opts b \<longleftrightarrow> opts AND b \<noteq> 0"

definition has_incomplete :: "option_bits \<Rightarrow> bool" where
  "has_incomplete opts \<longleftrightarrow> contains opts PINYIN_INCOMPLETE"

definition has_divided_table :: "option_bits \<Rightarrow> bool" where
  "has_divided_table opts \<longleftrightarrow> contains opts USE_DIVIDED_TABLE"

definition has_resplit_table :: "option_bits \<Rightarrow> bool" where
  "has_resplit_table opts \<longleftrightarrow> contains opts USE_RESPLIT_TABLE"

definition has_dynamic_adjust :: "option_bits \<Rightarrow> bool" where
  "has_dynamic_adjust opts \<longleftrightarrow> contains opts DYNAMIC_ADJUST"

definition has_force_tone :: "option_bits \<Rightarrow> bool" where
  "has_force_tone opts \<longleftrightarrow> contains opts FORCE_TONE"

definition with_bit :: "option_bits \<Rightarrow> u32 \<Rightarrow> bool \<Rightarrow> option_bits" where
  "with_bit opts b enabled = (if enabled then opts OR b else opts AND NOT b)"

section \<open>The pinned inventories\<close>

definition FULL_PINYIN_SYLLABLE_COUNT :: nat where "FULL_PINYIN_SYLLABLE_COUNT = 405"
definition MAX_SYLLABLE_LEN :: nat where "MAX_SYLLABLE_LEN = 6"
definition INCOMPLETE_PINYIN_KEY_COUNT :: nat where "INCOMPLETE_PINYIN_KEY_COUNT = 23"
definition OPTION_ONLY_COMPLETE_SYLLABLE_COUNT :: nat where "OPTION_ONLY_COMPLETE_SYLLABLE_COUNT = 2"
definition ZHUYIN_ONLY_COMPLETE_SYLLABLE_COUNT :: nat where "ZHUYIN_ONLY_COMPLETE_SYLLABLE_COUNT = 10"

definition FULL_PINYIN_SYLLABLES :: "string list" where
  "FULL_PINYIN_SYLLABLES =
    [''a'', ''ai'', ''an'', ''ang'', ''ao'', ''ba'', ''bai'', ''ban'', ''bang'', ''bao'', ''bei'',
     ''ben'', ''beng'', ''bi'', ''bian'', ''biao'', ''bie'', ''bin'', ''bing'', ''bo'', ''bu'',
     ''ca'', ''cai'', ''can'', ''cang'', ''cao'', ''ce'', ''cen'', ''ceng'', ''ci'', ''cong'',
     ''cou'', ''cu'', ''cuan'', ''cui'', ''cun'', ''cuo'', ''cha'', ''chai'', ''chan'', ''chang'',
     ''chao'', ''che'', ''chen'', ''cheng'', ''chi'', ''chong'', ''chou'', ''chu'', ''chuai'',
     ''chuan'', ''chuang'', ''chui'', ''chun'', ''chuo'', ''da'', ''dai'', ''dan'', ''dang'',
     ''dao'', ''de'', ''dei'', ''deng'', ''di'', ''dia'', ''dian'', ''diao'', ''die'', ''ding'',
     ''diu'', ''dong'', ''dou'', ''du'', ''duan'', ''dui'', ''dun'', ''duo'', ''e'', ''ei'',
     ''en'', ''er'', ''fa'', ''fan'', ''fang'', ''fei'', ''fen'', ''feng'', ''fo'', ''fou'',
     ''fu'', ''ga'', ''gai'', ''gan'', ''gang'', ''gao'', ''ge'', ''gei'', ''gen'', ''geng'',
     ''gong'', ''gou'', ''gu'', ''gua'', ''guai'', ''guan'', ''guang'', ''gui'', ''gun'', ''guo'',
     ''ha'', ''hai'', ''han'', ''hang'', ''hao'', ''he'', ''hei'', ''hen'', ''heng'', ''hong'',
     ''hou'', ''hu'', ''hua'', ''huai'', ''huan'', ''huang'', ''hui'', ''hun'', ''huo'', ''ji'',
     ''jia'', ''jian'', ''jiang'', ''jiao'', ''jie'', ''jin'', ''jing'', ''jiong'', ''jiu'',
     ''ju'', ''juan'', ''jue'', ''jun'', ''ka'', ''kai'', ''kan'', ''kang'', ''kao'', ''ke'',
     ''ken'', ''keng'', ''kong'', ''kou'', ''ku'', ''kua'', ''kuai'', ''kuan'', ''kuang'', ''kui'',
     ''kun'', ''kuo'', ''la'', ''lai'', ''lan'', ''lang'', ''lao'', ''le'', ''lei'', ''leng'',
     ''li'', ''lia'', ''lian'', ''liang'', ''liao'', ''lie'', ''lin'', ''ling'', ''liu'', ''lo'',
     ''long'', ''lou'', ''lu'', ''luan'', ''lun'', ''luo'', ''lv'', ''lve'', ''ma'', ''mai'',
     ''man'', ''mang'', ''mao'', ''me'', ''mei'', ''men'', ''meng'', ''mi'', ''mian'', ''miao'',
     ''mie'', ''min'', ''ming'', ''miu'', ''mo'', ''mou'', ''mu'', ''na'', ''nai'', ''nan'',
     ''nang'', ''nao'', ''ne'', ''nei'', ''nen'', ''neng'', ''ni'', ''nian'', ''niang'', ''niao'',
     ''nie'', ''nin'', ''ning'', ''niu'', ''ng'', ''nong'', ''nou'', ''nu'', ''nuan'', ''nuo'',
     ''nv'', ''nve'', ''o'', ''ou'', ''pa'', ''pai'', ''pan'', ''pang'', ''pao'', ''pei'', ''pen'',
     ''peng'', ''pi'', ''pian'', ''piao'', ''pie'', ''pin'', ''ping'', ''po'', ''pou'', ''pu'',
     ''qi'', ''qia'', ''qian'', ''qiang'', ''qiao'', ''qie'', ''qin'', ''qing'', ''qiong'',
     ''qiu'', ''qu'', ''quan'', ''que'', ''qun'', ''ran'', ''rang'', ''rao'', ''re'', ''ren'',
     ''reng'', ''ri'', ''rong'', ''rou'', ''ru'', ''ruan'', ''rui'', ''run'', ''ruo'', ''sa'',
     ''sai'', ''san'', ''sang'', ''sao'', ''se'', ''sen'', ''seng'', ''si'', ''song'', ''sou'',
     ''su'', ''suan'', ''sui'', ''sun'', ''suo'', ''sha'', ''shai'', ''shan'', ''shang'', ''shao'',
     ''she'', ''shei'', ''shen'', ''sheng'', ''shi'', ''shou'', ''shu'', ''shua'', ''shuai'',
     ''shuan'', ''shuang'', ''shui'', ''shun'', ''shuo'', ''ta'', ''tai'', ''tan'', ''tang'',
     ''tao'', ''te'', ''teng'', ''ti'', ''tian'', ''tiao'', ''tie'', ''ting'', ''tong'', ''tou'',
     ''tu'', ''tuan'', ''tui'', ''tun'', ''tuo'', ''wa'', ''wai'', ''wan'', ''wang'', ''wei'',
     ''wen'', ''weng'', ''wo'', ''wu'', ''xi'', ''xia'', ''xian'', ''xiang'', ''xiao'', ''xie'',
     ''xin'', ''xing'', ''xiong'', ''xiu'', ''xu'', ''xuan'', ''xue'', ''xun'', ''ya'', ''yan'',
     ''yang'', ''yao'', ''ye'', ''yi'', ''yin'', ''ying'', ''yo'', ''yong'', ''you'', ''yu'',
     ''yuan'', ''yue'', ''yun'', ''za'', ''zai'', ''zan'', ''zang'', ''zao'', ''ze'', ''zei'',
     ''zen'', ''zeng'', ''zi'', ''zong'', ''zou'', ''zu'', ''zuan'', ''zui'', ''zun'', ''zuo'',
     ''zha'', ''zhai'', ''zhan'', ''zhang'', ''zhao'', ''zhe'', ''zhen'', ''zheng'', ''zhi'',
     ''zhong'', ''zhou'', ''zhu'', ''zhua'', ''zhuai'', ''zhuan'', ''zhuang'', ''zhui'', ''zhun'',
     ''zhuo'']"

definition INCOMPLETE_PINYIN_KEYS :: "string list" where
  "INCOMPLETE_PINYIN_KEYS =
    [''b'', ''c'', ''ch'', ''d'', ''f'', ''g'', ''h'', ''j'', ''k'', ''l'', ''m'', ''n'', ''p'',
     ''q'', ''r'', ''s'', ''sh'', ''t'', ''w'', ''x'', ''y'', ''z'', ''zh'']"

definition OPTION_ONLY_COMPLETE_SYLLABLES :: "string list" where
  "OPTION_ONLY_COMPLETE_SYLLABLES =
    [''eng'', ''nun'']"

definition ZHUYIN_ONLY_COMPLETE_SYLLABLES :: "string list" where
  "ZHUYIN_ONLY_COMPLETE_SYLLABLES =
    [''chua'', ''den'', ''din'', ''fe'', ''kei'', ''len'', ''nia'', ''rua'', ''yai'', ''zhei'']"

definition SYLLABLE_KEY_COUNT :: nat where
  "SYLLABLE_KEY_COUNT = FULL_PINYIN_SYLLABLE_COUNT + INCOMPLETE_PINYIN_KEY_COUNT
     + OPTION_ONLY_COMPLETE_SYLLABLE_COUNT + ZHUYIN_ONLY_COMPLETE_SYLLABLE_COUNT"

text \<open>The build script writes each inventory as a perfect-hash map from spelling to position.\<close>

fun spelling_map_from :: "nat \<Rightarrow> string list \<Rightarrow> string \<Rightarrow> nat option" where
  "spelling_map_from i [] t = None"
| "spelling_map_from i (x # xs) t = (if x = t then Some i else spelling_map_from (Suc i) xs t)"

definition spelling_map :: "string list \<Rightarrow> string \<Rightarrow> nat option" where
  "spelling_map xs t = spelling_map_from 0 xs t"

definition full_pinyin_syllable :: "nat \<Rightarrow> string option" where
  "full_pinyin_syllable i = get_at FULL_PINYIN_SYLLABLES i"

section \<open>Option-gated aliases\<close>

definition canonical_complete_syllable :: "string \<Rightarrow> string option" where
  "canonical_complete_syllable t =
     (case Option.bind (spelling_map FULL_PINYIN_SYLLABLES t) full_pinyin_syllable of
        Some s \<Rightarrow> Some s
      | None \<Rightarrow> Option.bind (spelling_map OPTION_ONLY_COMPLETE_SYLLABLES t)
                  (get_at OPTION_ONLY_COMPLETE_SYLLABLES))"

definition ends_with :: "string \<Rightarrow> string \<Rightarrow> bool" where
  "ends_with t s \<longleftrightarrow> length s \<le> length t \<and> drop (length t - length s) t = s"

definition checked_canonical :: "string \<Rightarrow> nat \<Rightarrow> string \<Rightarrow> string option" where
  "checked_canonical t suffix_len suffix =
     (if length t < suffix_len then None
      else let base_len = length t - suffix_len in
        if base_len = 0 then None
        else canonical_complete_syllable (take base_len t @ suffix))"

definition correction_canonical :: "string \<Rightarrow> option_bits \<Rightarrow> string option" where
  "correction_canonical t opts =
     (if contains opts PINYIN_CORRECT_GN_NG \<and> ends_with t ''gn'' then checked_canonical t 2 ''ng''
      else if contains opts PINYIN_CORRECT_MG_NG \<and> ends_with t ''mg'' then checked_canonical t 2 ''ng''
      else if contains opts PINYIN_CORRECT_IOU_IU \<and> ends_with t ''iou'' then checked_canonical t 3 ''iu''
      else if contains opts PINYIN_CORRECT_UEI_UI \<and> ends_with t ''uei'' then checked_canonical t 3 ''ui''
      else if contains opts PINYIN_CORRECT_UEN_UN \<and> ends_with t ''uen'' then checked_canonical t 3 ''un''
      else if contains opts PINYIN_CORRECT_UE_VE \<and> ends_with t ''ue'' then checked_canonical t 2 ''ve''
      else if contains opts PINYIN_CORRECT_V_U \<and> 2 \<le> length t \<and> t ! 0 \<in> set ''jqxy'' \<and>
          t ! 1 = CHR ''v'' then
        canonical_complete_syllable (t ! 0 # CHR ''u'' # drop 2 t)
      else if contains opts PINYIN_CORRECT_ON_ONG \<and> ends_with t ''on'' \<and> 2 < length t then
        canonical_complete_syllable (t @ ''g'')
      else None)"

definition ambiguity_canonical :: "string \<Rightarrow> option_bits \<Rightarrow> string option" where
  "ambiguity_canonical t opts =
     (if t = ''sua'' \<and> contains opts PINYIN_AMB_S_SH then Some ''shua''
      else if t = ''zua'' \<and> contains opts PINYIN_AMB_Z_ZH then Some ''zhua''
      else None)"

definition option_alias_canonical :: "string \<Rightarrow> option_bits \<Rightarrow> string option" where
  "option_alias_canonical t opts =
     (if opts AND (PINYIN_CORRECT_ALL OR PINYIN_AMB_S_SH OR PINYIN_AMB_Z_ZH) = 0 then None
      else case correction_canonical t opts of
             Some s \<Rightarrow> Some s
           | None \<Rightarrow> ambiguity_canonical t opts)"

text \<open>The longest initial-only key that prefixes a spelling: \<open>max_by_key\<close> keeps the last maximum.\<close>

definition syllable_initial :: "string \<Rightarrow> string option" where
  "syllable_initial t =
     fold (\<lambda>k best. case best of None \<Rightarrow> Some k
                     | Some b \<Rightarrow> if length b \<le> length k then Some k else Some b)
       (filter (\<lambda>k. take (length k) t = k) INCOMPLETE_PINYIN_KEYS) None"

definition phonetic_initial :: "string \<Rightarrow> string option" where
  "phonetic_initial t = (if t = ''ng'' then None else syllable_initial t)"

section \<open>Syllable keys\<close>

datatype completeness = Complete | Partial

datatype syllable_key = SyllableKey (key_id: u16)

definition key_index :: "syllable_key \<Rightarrow> nat" where
  "key_index k = unat (key_id k)"

definition key_from_index :: "nat \<Rightarrow> syllable_key option" where
  "key_from_index i =
     (if SYLLABLE_KEY_COUNT \<le> i then None
      else if i < 2 ^ 16 then Some (SyllableKey (of_nat i)) else None)"

definition from_text :: "string \<Rightarrow> syllable_key option" where
  "from_text t =
     (case spelling_map FULL_PINYIN_SYLLABLES t of
        Some i \<Rightarrow> key_from_index i
      | None \<Rightarrow> Option.bind (spelling_map INCOMPLETE_PINYIN_KEYS t)
                  (\<lambda>i. key_from_index (FULL_PINYIN_SYLLABLE_COUNT + i)))"

definition from_canonical_text :: "string \<Rightarrow> syllable_key option" where
  "from_canonical_text t =
     (case spelling_map FULL_PINYIN_SYLLABLES t of
        Some i \<Rightarrow> key_from_index i
      | None \<Rightarrow>
     (case spelling_map INCOMPLETE_PINYIN_KEYS t of
        Some i \<Rightarrow> key_from_index (FULL_PINYIN_SYLLABLE_COUNT + i)
      | None \<Rightarrow>
     (let option_start = FULL_PINYIN_SYLLABLE_COUNT + INCOMPLETE_PINYIN_KEY_COUNT in
      case spelling_map OPTION_ONLY_COMPLETE_SYLLABLES t of
        Some i \<Rightarrow> key_from_index (option_start + i)
      | None \<Rightarrow>
     (let zhuyin_start = option_start + OPTION_ONLY_COMPLETE_SYLLABLE_COUNT in
      Option.bind (spelling_map ZHUYIN_ONLY_COMPLETE_SYLLABLES t)
        (\<lambda>i. key_from_index (zhuyin_start + i))))))"

definition from_option_text_with_distance ::
    "string \<Rightarrow> option_bits \<Rightarrow> (syllable_key \<times> u8) option" where
  "from_option_text_with_distance t opts =
     (case from_text t of
        Some k \<Rightarrow> Some (k, 0)
      | None \<Rightarrow> Option.bind (option_alias_canonical t opts)
                  (\<lambda>canonical. map_option (\<lambda>k. (k, 1)) (from_canonical_text canonical)))"

definition from_option_text :: "string \<Rightarrow> option_bits \<Rightarrow> syllable_key option" where
  "from_option_text t opts = map_option fst (from_option_text_with_distance t opts)"

text \<open>The subtractions of \<open>text\<close> are on \<open>usize\<close>; each is guarded by the lookup before it.\<close>

definition syllable_text :: "syllable_key \<Rightarrow> string" where
  "syllable_text k =
     (let index = key_index k in
      case full_pinyin_syllable index of Some s \<Rightarrow> s
      | None \<Rightarrow>
     (case get_at INCOMPLETE_PINYIN_KEYS (index - FULL_PINYIN_SYLLABLE_COUNT) of Some s \<Rightarrow> s
      | None \<Rightarrow>
     (let option_start = FULL_PINYIN_SYLLABLE_COUNT + INCOMPLETE_PINYIN_KEY_COUNT in
      case get_at OPTION_ONLY_COMPLETE_SYLLABLES (index - option_start) of Some s \<Rightarrow> s
      | None \<Rightarrow>
     (let zhuyin_start = option_start + OPTION_ONLY_COMPLETE_SYLLABLE_COUNT in
      case get_at ZHUYIN_ONLY_COMPLETE_SYLLABLES (index - zhuyin_start) of Some s \<Rightarrow> s
      | None \<Rightarrow> []))))"

definition key_completeness :: "syllable_key \<Rightarrow> completeness" where
  "key_completeness k =
     (if key_index k < FULL_PINYIN_SYLLABLE_COUNT \<or>
         FULL_PINYIN_SYLLABLE_COUNT + INCOMPLETE_PINYIN_KEY_COUNT \<le> key_index k
      then Complete else Partial)"

definition key_len :: "syllable_key \<Rightarrow> nat" where
  "key_len k = length (syllable_text k)"

section \<open>Lookup laws\<close>

lemma spelling_map_from_eq:
  "spelling_map_from i xs t = map_option ((+) i) (spelling_map_from 0 xs t)"
proof (induction xs arbitrary: i)
  case (Cons x xs)
  show ?case using Cons [of "Suc i"] Cons [of "Suc 0"] by (cases "spelling_map_from 0 xs t") auto
qed simp

lemma spelling_map_Cons:
  "spelling_map (x # xs) t = (if x = t then Some 0 else map_option Suc (spelling_map xs t))"
  using spelling_map_from_eq [of "Suc 0" xs t] by (cases "spelling_map_from 0 xs t") (auto simp: spelling_map_def)

lemma spelling_map_Nil: "spelling_map [] t = None"
  by (simp add: spelling_map_def)

lemma spelling_map_Some: "spelling_map xs t = Some i \<Longrightarrow> i < length xs \<and> xs ! i = t"
proof (induction xs arbitrary: i)
  case (Cons x xs)
  then show ?case by (auto simp: spelling_map_Cons split: if_splits)
qed (simp add: spelling_map_Nil)

lemma spelling_map_None: "spelling_map xs t = None \<longleftrightarrow> t \<notin> set xs"
  by (induction xs) (auto simp: spelling_map_Cons spelling_map_Nil)

lemma spelling_map_nth: "distinct xs \<Longrightarrow> i < length xs \<Longrightarrow> spelling_map xs (xs ! i) = Some i"
proof (induction xs arbitrary: i)
  case (Cons x xs)
  then show ?case by (cases i) (auto simp: spelling_map_Cons)
qed simp

lemma inventory_lengths:
  "length FULL_PINYIN_SYLLABLES = FULL_PINYIN_SYLLABLE_COUNT"
  "length INCOMPLETE_PINYIN_KEYS = INCOMPLETE_PINYIN_KEY_COUNT"
  "length OPTION_ONLY_COMPLETE_SYLLABLES = OPTION_ONLY_COMPLETE_SYLLABLE_COUNT"
  "length ZHUYIN_ONLY_COMPLETE_SYLLABLES = ZHUYIN_ONLY_COMPLETE_SYLLABLE_COUNT"
  by (simp_all add: FULL_PINYIN_SYLLABLES_def INCOMPLETE_PINYIN_KEYS_def
      OPTION_ONLY_COMPLETE_SYLLABLES_def ZHUYIN_ONLY_COMPLETE_SYLLABLES_def
      FULL_PINYIN_SYLLABLE_COUNT_def INCOMPLETE_PINYIN_KEY_COUNT_def
      OPTION_ONLY_COMPLETE_SYLLABLE_COUNT_def ZHUYIN_ONLY_COMPLETE_SYLLABLE_COUNT_def)

lemmas inventory_defs = FULL_PINYIN_SYLLABLES_def INCOMPLETE_PINYIN_KEYS_def
  OPTION_ONLY_COMPLETE_SYLLABLES_def ZHUYIN_ONLY_COMPLETE_SYLLABLES_def

lemmas inventory_counts = FULL_PINYIN_SYLLABLE_COUNT_def INCOMPLETE_PINYIN_KEY_COUNT_def
  OPTION_ONLY_COMPLETE_SYLLABLE_COUNT_def ZHUYIN_ONLY_COMPLETE_SYLLABLE_COUNT_def
  SYLLABLE_KEY_COUNT_def

lemma spelling_map_iff:
  "distinct xs \<Longrightarrow> spelling_map xs t = Some i \<longleftrightarrow> i < length xs \<and> xs ! i = t"
  using spelling_map_Some spelling_map_nth by blast

lemma spelling_map_append:
  "spelling_map (xs @ ys) t =
     (case spelling_map xs t of Some i \<Rightarrow> Some i
      | None \<Rightarrow> map_option ((+) (length xs)) (spelling_map ys t))"
proof (induction xs)
  case (Cons x xs)
  then show ?case
    by (cases "spelling_map ys t"; cases "spelling_map xs t") (auto simp: spelling_map_Cons)
qed (cases "spelling_map ys t"; simp add: spelling_map_Nil)

text \<open>All spellings in the order of their dense ids.\<close>

definition all_spellings :: "string list" where
  "all_spellings = FULL_PINYIN_SYLLABLES @ INCOMPLETE_PINYIN_KEYS @ OPTION_ONLY_COMPLETE_SYLLABLES
     @ ZHUYIN_ONLY_COMPLETE_SYLLABLES"

text \<open>The full inventory ascends under this number, in which the digraphs \<open>zh\<close>, \<open>ch\<close>, \<open>sh\<close> sort after their
  first letter's other syllables and \<open>ng\<close> sits between \<open>niu\<close> and \<open>nong\<close>.\<close>

definition letter_code :: "char \<Rightarrow> int" where
  "letter_code c = of_char c - 96"

definition spelling_rank :: "string \<Rightarrow> int" where
  "spelling_rank t =
     (let t = (if t = ''ng'' then ''niz'' else t);
          ds = map letter_code t;
          ds = (if 2 \<le> length t \<and> t ! 0 \<in> set ''zcs'' \<and> t ! 1 = CHR ''h'' then ds[1 := 27] else ds)
      in foldl (\<lambda>r d. r * 28 + d) 0 (ds @ replicate (6 - length ds) 0))"

lemma full_ascends: "successively (\<lambda>s t. spelling_rank s < spelling_rank t) FULL_PINYIN_SYLLABLES"
  by code_simp

lemma distinct_ascending:
  fixes f :: "'a \<Rightarrow> 'b::linorder"
  assumes "successively (\<lambda>s t. f s < f t) xs"
  shows "distinct xs"
proof -
  have "sorted_wrt (\<lambda>s t. f s < f t) xs"
    using assms by (subst (asm) successively_conv_sorted_wrt) (auto intro!: transpI)
  then show ?thesis
    by (induction xs) fastforce+
qed

text \<open>Every full syllable but \<open>ng\<close> has a vowel, no initial-only key has one.\<close>

definition is_vowel :: "char \<Rightarrow> bool" where
  "is_vowel c \<longleftrightarrow> c \<in> set ''aeiouv''"

lemma full_vowels: "list_all (\<lambda>s. s = ''ng'' \<or> list_ex is_vowel s) FULL_PINYIN_SYLLABLES"
  by (simp add: inventory_defs is_vowel_def)

lemma initials_no_vowels: "list_all (\<lambda>s. s \<noteq> ''ng'' \<and> \<not> list_ex is_vowel s) INCOMPLETE_PINYIN_KEYS"
  by (simp add: inventory_defs is_vowel_def)

lemma option_only_fresh: "list_all (\<lambda>s. s \<notin> set FULL_PINYIN_SYLLABLES) OPTION_ONLY_COMPLETE_SYLLABLES"
  by (simp add: inventory_defs)

lemma zhuyin_only_fresh: "list_all (\<lambda>s. s \<notin> set FULL_PINYIN_SYLLABLES) ZHUYIN_ONLY_COMPLETE_SYLLABLES"
  by (simp add: inventory_defs)

lemma distinct_all_spellings: "distinct all_spellings"
proof -
  have "distinct FULL_PINYIN_SYLLABLES"
    by (rule distinct_ascending [OF full_ascends])
  moreover have "set FULL_PINYIN_SYLLABLES \<inter> set INCOMPLETE_PINYIN_KEYS = {}"
    using full_vowels initials_no_vowels by (fastforce simp: list_all_iff)
  moreover have "set FULL_PINYIN_SYLLABLES \<inter> set OPTION_ONLY_COMPLETE_SYLLABLES = {}"
    using option_only_fresh by (fastforce simp: list_all_iff)
  moreover have "set FULL_PINYIN_SYLLABLES \<inter> set ZHUYIN_ONLY_COMPLETE_SYLLABLES = {}"
    using zhuyin_only_fresh by (fastforce simp: list_all_iff)
  moreover have "distinct (INCOMPLETE_PINYIN_KEYS @ OPTION_ONLY_COMPLETE_SYLLABLES @ ZHUYIN_ONLY_COMPLETE_SYLLABLES)"
    by (simp add: INCOMPLETE_PINYIN_KEYS_def OPTION_ONLY_COMPLETE_SYLLABLES_def ZHUYIN_ONLY_COMPLETE_SYLLABLES_def)
  ultimately show ?thesis
    by (auto simp: all_spellings_def)
qed

lemma spelling_lengths:
  "list_all (\<lambda>s. s \<noteq> [] \<and> (length s \<le> 5 \<or> length s = 6 \<and> drop 4 s = ''ng'')) all_spellings"
  by (simp add: all_spellings_def inventory_defs)

lemma length_all_spellings: "length all_spellings = SYLLABLE_KEY_COUNT"
  by (simp add: all_spellings_def inventory_lengths SYLLABLE_KEY_COUNT_def)

lemma syllable_text_nth:
  "key_index k < SYLLABLE_KEY_COUNT \<Longrightarrow> syllable_text k = all_spellings ! key_index k"
  by (auto simp: syllable_text_def full_pinyin_syllable_def get_at_def all_spellings_def nth_append
      inventory_lengths inventory_counts Let_def)

lemma key_from_index_eq:
  "key_from_index i = Some k \<longleftrightarrow> key_index k = i \<and> i < SYLLABLE_KEY_COUNT"
  by (cases k) (auto simp: key_from_index_def key_index_def inventory_counts unat_of_nat take_bit_nat_eq_self
      word_unat_eq_iff)

lemma bind_key_from_index:
  "Option.bind m key_from_index = Some k \<longleftrightarrow> m = Some (key_index k) \<and> key_index k < SYLLABLE_KEY_COUNT"
  by (cases m) (auto simp: key_from_index_eq)

lemma from_canonical_text_eq:
  "from_canonical_text t = Option.bind (spelling_map all_spellings t) key_from_index"
  by (cases "spelling_map ZHUYIN_ONLY_COMPLETE_SYLLABLES t")
    (auto simp: from_canonical_text_def all_spellings_def spelling_map_append inventory_lengths Let_def
      ac_simps split: option.splits)

lemma from_text_eq:
  "from_text t = Option.bind (spelling_map (FULL_PINYIN_SYLLABLES @ INCOMPLETE_PINYIN_KEYS) t) key_from_index"
  by (cases "spelling_map INCOMPLETE_PINYIN_KEYS t")
    (auto simp: from_text_def spelling_map_append inventory_lengths split: option.splits)

lemma from_canonical_text_iff:
  "from_canonical_text t = Some k \<longleftrightarrow> key_index k < SYLLABLE_KEY_COUNT \<and> syllable_text k = t"
  by (auto simp: from_canonical_text_eq bind_key_from_index spelling_map_iff [OF distinct_all_spellings]
      length_all_spellings syllable_text_nth)

lemma distinct_plain: "distinct (FULL_PINYIN_SYLLABLES @ INCOMPLETE_PINYIN_KEYS)"
  using distinct_all_spellings by (auto simp: all_spellings_def)

lemma plain_nth:
  "i < FULL_PINYIN_SYLLABLE_COUNT + INCOMPLETE_PINYIN_KEY_COUNT \<Longrightarrow>
   (FULL_PINYIN_SYLLABLES @ INCOMPLETE_PINYIN_KEYS) ! i = all_spellings ! i"
  by (auto simp: all_spellings_def nth_append inventory_lengths)

lemma from_text_iff:
  "from_text t = Some k \<longleftrightarrow>
     key_index k < FULL_PINYIN_SYLLABLE_COUNT + INCOMPLETE_PINYIN_KEY_COUNT \<and> syllable_text k = t"
proof -
  have "FULL_PINYIN_SYLLABLE_COUNT + INCOMPLETE_PINYIN_KEY_COUNT \<le> SYLLABLE_KEY_COUNT"
    by (simp add: SYLLABLE_KEY_COUNT_def)
  then show ?thesis
    by (auto simp: from_text_eq bind_key_from_index spelling_map_iff [OF distinct_plain] inventory_lengths
        plain_nth syllable_text_nth)
qed

section \<open>Properties\<close>

lemma key_spelling_bounds:
  "key_index k < SYLLABLE_KEY_COUNT \<Longrightarrow>
   syllable_text k \<noteq> [] \<and> (length (syllable_text k) \<le> 5 \<or> length (syllable_text k) = 6 \<and> drop 4 (syllable_text k) = ''ng'')"
  using spelling_lengths by (simp add: syllable_text_nth list_all_iff length_all_spellings)

lemma key_below_plain:
  "key_index k < FULL_PINYIN_SYLLABLE_COUNT + INCOMPLETE_PINYIN_KEY_COUNT \<Longrightarrow> key_index k < SYLLABLE_KEY_COUNT"
  by (simp add: SYLLABLE_KEY_COUNT_def)

lemma canonical_complete_syllable_eq:
  "canonical_complete_syllable t = Some s \<longleftrightarrow>
     s = t \<and> t \<in> set FULL_PINYIN_SYLLABLES \<union> set OPTION_ONLY_COMPLETE_SYLLABLES"
proof (cases "spelling_map FULL_PINYIN_SYLLABLES t")
  case None
  then have "t \<notin> set FULL_PINYIN_SYLLABLES"
    by (simp add: spelling_map_None)
  then show ?thesis
    using None spelling_map_None [of OPTION_ONLY_COMPLETE_SYLLABLES t]
    by (cases "spelling_map OPTION_ONLY_COMPLETE_SYLLABLES t")
      (auto simp: canonical_complete_syllable_def get_at_def dest: spelling_map_Some)
next
  case (Some i)
  then have "i < length FULL_PINYIN_SYLLABLES" "FULL_PINYIN_SYLLABLES ! i = t"
    using spelling_map_Some by blast+
  then show ?thesis
    using Some by (auto simp: canonical_complete_syllable_def full_pinyin_syllable_def get_at_def)
qed

lemma ends_with_append: "ends_with t s \<Longrightarrow> t = take (length t - length s) t @ s"
  by (metis append_take_drop_id ends_with_def)

text \<open>What a correction or an ambiguity row answers: a canonical complete syllable, from a spelling that
  is no longer than \<open>MAX_SYLLABLE_LEN\<close>.\<close>

lemma checked_canonical_Some:
  "checked_canonical t n suffix = Some s \<Longrightarrow>
     n < length t \<and> s = take (length t - n) t @ suffix \<and>
     s \<in> set FULL_PINYIN_SYLLABLES \<union> set OPTION_ONLY_COMPLETE_SYLLABLES"
  by (auto simp: checked_canonical_def canonical_complete_syllable_eq Let_def split: if_splits)

lemma complete_spelling_lengths:
  "s \<in> set FULL_PINYIN_SYLLABLES \<union> set OPTION_ONLY_COMPLETE_SYLLABLES \<Longrightarrow>
     s \<noteq> [] \<and> (length s \<le> 5 \<or> length s = 6 \<and> drop 4 s = ''ng'')"
  using spelling_lengths by (auto simp: all_spellings_def list_all_iff)

lemma checked_canonical_length:
  assumes "checked_canonical t n suffix = Some s" "length suffix = 2" "n = 2 \<or> n = 3 \<and> suffix \<noteq> ''ng''"
  shows "length t \<le> 6"
proof -
  have s: "n < length t" "s = take (length t - n) t @ suffix"
      "s \<in> set FULL_PINYIN_SYLLABLES \<union> set OPTION_ONLY_COMPLETE_SYLLABLES"
    using checked_canonical_Some [OF assms(1)] by auto
  have "length s = length t - n + 2"
    using s(1,2) assms(2) by simp
  moreover have "suffix \<noteq> ''ng'' \<Longrightarrow> length s \<le> 5"
    using complete_spelling_lengths [OF s(3)] s(2) assms(2) by auto
  moreover have "length s \<le> 6"
    using complete_spelling_lengths [OF s(3)] by auto
  ultimately show ?thesis
    using assms(3) s(1) by auto
qed

definition correctable :: "string \<Rightarrow> string \<Rightarrow> bool" where
  "correctable t s \<longleftrightarrow>
     s \<in> set FULL_PINYIN_SYLLABLES \<union> set OPTION_ONLY_COMPLETE_SYLLABLES \<and> t \<noteq> [] \<and> length t \<le> 6"

lemma checked_correctable:
  "checked_canonical t n suffix = Some s \<Longrightarrow> length suffix = 2 \<Longrightarrow> n = 2 \<or> n = 3 \<and> suffix \<noteq> ''ng'' \<Longrightarrow>
   correctable t s"
  using checked_canonical_Some [of t n suffix s] checked_canonical_length [of t n suffix s]
  by (auto simp: correctable_def)

lemma direct_correctable:
  "canonical_complete_syllable u = Some s \<Longrightarrow> 2 \<le> length t \<Longrightarrow> length t \<le> length u \<Longrightarrow> correctable t s"
  using complete_spelling_lengths [of s] by (auto simp: correctable_def canonical_complete_syllable_eq)

lemma if_eqE:
  "(if c then a else b) = y \<Longrightarrow> (c \<Longrightarrow> a = y \<Longrightarrow> P) \<Longrightarrow> (b = y \<Longrightarrow> P) \<Longrightarrow> P"
  by (cases c) auto

lemma correction_correctable: "correction_canonical t opts = Some s \<Longrightarrow> correctable t s"
  unfolding correction_canonical_def
  by (elim if_eqE conjE; ((erule checked_correctable; simp) | (erule direct_correctable; simp) | simp))

lemma ambiguity_correctable: "ambiguity_canonical t opts = Some s \<Longrightarrow> correctable t s"
proof -
  have "''shua'' \<in> set FULL_PINYIN_SYLLABLES" "''zhua'' \<in> set FULL_PINYIN_SYLLABLES"
    by (simp_all add: FULL_PINYIN_SYLLABLES_def)
  then show "ambiguity_canonical t opts = Some s \<Longrightarrow> correctable t s"
    by (auto simp: ambiguity_canonical_def correctable_def split: if_splits)
qed

lemma option_alias_correctable: "option_alias_canonical t opts = Some s \<Longrightarrow> correctable t s"
  by (auto simp: option_alias_canonical_def intro: correction_correctable ambiguity_correctable
      split: if_splits option.splits)

lemma complete_member_key:
  assumes "s \<in> set FULL_PINYIN_SYLLABLES \<union> set OPTION_ONLY_COMPLETE_SYLLABLES" "syllable_text k = s"
    "key_index k < SYLLABLE_KEY_COUNT"
  shows "key_completeness k = Complete \<and>
    key_index k < FULL_PINYIN_SYLLABLE_COUNT + INCOMPLETE_PINYIN_KEY_COUNT + OPTION_ONLY_COMPLETE_SYLLABLE_COUNT"
proof -
  have "all_spellings ! key_index k = s"
    using assms(2,3) by (simp add: syllable_text_nth)
  moreover obtain j where "all_spellings ! j = s" "j < SYLLABLE_KEY_COUNT"
     "j < FULL_PINYIN_SYLLABLE_COUNT \<or> FULL_PINYIN_SYLLABLE_COUNT + INCOMPLETE_PINYIN_KEY_COUNT \<le> j \<and>
      j < FULL_PINYIN_SYLLABLE_COUNT + INCOMPLETE_PINYIN_KEY_COUNT + OPTION_ONLY_COMPLETE_SYLLABLE_COUNT"
  proof -
    from assms(1) consider (full) i where "i < FULL_PINYIN_SYLLABLE_COUNT" "FULL_PINYIN_SYLLABLES ! i = s"
      | (opt) i where "i < OPTION_ONLY_COMPLETE_SYLLABLE_COUNT" "OPTION_ONLY_COMPLETE_SYLLABLES ! i = s"
      by (auto simp: in_set_conv_nth inventory_lengths)
    then show ?thesis
    proof cases
      case full
      then show ?thesis
        by (intro that [of i]) (auto simp: all_spellings_def nth_append inventory_lengths SYLLABLE_KEY_COUNT_def)
    next
      case opt
      then show ?thesis
        by (intro that [of "FULL_PINYIN_SYLLABLE_COUNT + INCOMPLETE_PINYIN_KEY_COUNT + i"])
          (auto simp: all_spellings_def nth_append inventory_lengths SYLLABLE_KEY_COUNT_def)
    qed
  qed
  ultimately show ?thesis
    using nth_eq_iff_index_eq [OF distinct_all_spellings, of "key_index k" j] assms(3)
    by (auto simp: key_completeness_def length_all_spellings)
qed

text \<open>The dense ids and the spellings are in bijection: \<open>from_canonical_text\<close> finds exactly the key
  whose \<open>text\<close> is the spelling, \<open>from_text\<close> finds it exactly when its id is below the option-only
  tier, every dense id has a key, and every spelling is non-empty and within \<open>MAX_SYLLABLE_LEN\<close>.\<close>

theorem syllable_key_bijection:
  "(from_canonical_text t = Some k \<longleftrightarrow> key_index k < SYLLABLE_KEY_COUNT \<and> syllable_text k = t) \<and>
   (from_text t = Some k \<longleftrightarrow>
     key_index k < FULL_PINYIN_SYLLABLE_COUNT + INCOMPLETE_PINYIN_KEY_COUNT \<and> syllable_text k = t) \<and>
   (key_from_index i = Some k \<longleftrightarrow> key_index k = i \<and> i < SYLLABLE_KEY_COUNT) \<and>
   (from_canonical_text t = Some k \<longrightarrow> 0 < key_len k \<and> key_len k \<le> MAX_SYLLABLE_LEN)"
  using key_spelling_bounds [of k]
  by (auto simp: from_canonical_text_iff from_text_iff key_from_index_eq key_len_def MAX_SYLLABLE_LEN_def)

text \<open>C39: what the parser's lookup answers under an option word. Distance 0 is an exact spelling of a
  complete syllable or an initial-only key, whatever the options. Distance 1 is an alias: no exact
  spelling exists, an alias bit is set, and the key is a complete syllable of the pinyin-reachable
  tiers, never a zhuyin-only one. Any spelling it answers for has between 1 and \<open>MAX_SYLLABLE_LEN\<close>
  bytes, so a toneless span longer than that has no key.\<close>

theorem option_lookup_spec:
  assumes "from_option_text_with_distance t opts = Some (k, d)"
  shows "0 < length t \<and> length t \<le> MAX_SYLLABLE_LEN \<and>
    (d = 0 \<and> from_text t = Some k \<and> syllable_text k = t \<or>
     d = 1 \<and> from_text t = None \<and> option_alias_canonical t opts = Some (syllable_text k) \<and>
       opts AND (PINYIN_CORRECT_ALL OR PINYIN_AMB_S_SH OR PINYIN_AMB_Z_ZH) \<noteq> 0 \<and>
       key_completeness k = Complete \<and>
       key_index k < FULL_PINYIN_SYLLABLE_COUNT + INCOMPLETE_PINYIN_KEY_COUNT + OPTION_ONLY_COMPLETE_SYLLABLE_COUNT)"
proof (cases "from_text t")
  case None
  then obtain s where s: "option_alias_canonical t opts = Some s" "from_canonical_text s = Some k" "d = 1"
    using assms by (auto simp: from_option_text_with_distance_def bind_eq_Some_conv)
  then show ?thesis
    using None option_alias_correctable [OF s(1)] complete_member_key [of s k]
    by (auto simp: correctable_def from_canonical_text_iff MAX_SYLLABLE_LEN_def option_alias_canonical_def
        split: if_splits)
next
  case (Some k')
  then have "from_text t = Some k" "d = 0"
    using assms by (auto simp: from_option_text_with_distance_def)
  then show ?thesis
    using key_spelling_bounds [OF key_below_plain, of k]
    by (auto simp: from_text_iff MAX_SYLLABLE_LEN_def)
qed

theorem option_lookup_spec_witness:
  "length ''lue'' \<le> MAX_SYLLABLE_LEN \<and>
   from_option_text_with_distance ''lue'' PINYIN_CORRECT_UE_VE = Some (SyllableKey 185, 1)"
proof -
  have "spelling_map FULL_PINYIN_SYLLABLES ''lue'' = None" "spelling_map INCOMPLETE_PINYIN_KEYS ''lue'' = None"
    unfolding spelling_map_None by (simp_all add: inventory_defs)
  then have "from_text ''lue'' = None"
    by (simp add: from_text_def)
  moreover have "canonical_complete_syllable ''lve'' = Some ''lve''"
    by (simp add: canonical_complete_syllable_eq FULL_PINYIN_SYLLABLES_def)
  then have "option_alias_canonical ''lue'' PINYIN_CORRECT_UE_VE = Some ''lve''"
    by (simp add: option_alias_canonical_def correction_canonical_def checked_canonical_def contains_def
        ends_with_def option_consts)
  moreover have "syllable_text (SyllableKey 185) = ''lve''" "key_index (SyllableKey 185) < SYLLABLE_KEY_COUNT"
    by (simp_all add: syllable_text_def full_pinyin_syllable_def get_at_def key_index_def inventory_counts
        FULL_PINYIN_SYLLABLES_def)
  then have "from_canonical_text ''lve'' = Some (SyllableKey 185)"
    by (simp add: from_canonical_text_iff)
  ultimately have "from_option_text_with_distance ''lue'' PINYIN_CORRECT_UE_VE = Some (SyllableKey 185, 1)"
    by (simp add: from_option_text_with_distance_def)
  then show ?thesis
    using option_lookup_spec by blast
qed

end
