(* ===== verification/SegmentGraph.thy ===== *)
theory SegmentGraph
  imports Syllables
begin

text \<open>
  \<open>crates/oxpinyin-core/src/graph.rs\<close>: the weighted segment graph over the byte positions of one
  input. The build loop with its apostrophe-run cache, the edges of one node, the reachability sweep,
  the graph of an already parsed input, the accessors and the fewest-keys path. Node positions are
  \<open>u32\<close> in the edges and \<open>nat\<close> (\<open>usize\<close>) elsewhere, the packed rank of the path search is a \<open>u64\<close>.
\<close>

section \<open>Data\<close>

definition MAX_GRAPH_POSITION :: nat where
  "MAX_GRAPH_POSITION = 2 ^ 32 - 1 - 1"

datatype graph_error = InputTooLong nat nat | ExactSegmentsInvalid

record exact_segment =
  seg_start :: nat
  seg_end :: nat
  seg_key :: syllable_key
  seg_tone :: u8

datatype edge_kind = Exact | Segmentation | Incomplete

fun kind_completeness :: "edge_kind \<Rightarrow> completeness" where
  "kind_completeness Exact = Complete"
| "kind_completeness Segmentation = Complete"
| "kind_completeness Incomplete = Partial"

record edge =
  edge_from :: u32
  edge_to :: u32
  edge_syllable_start :: u32
  edge_key :: syllable_key
  edge_kind :: edge_kind
  edge_tone :: u8
  edge_distance :: u8

definition from_node :: "edge \<Rightarrow> nat" where
  "from_node e = unat (edge_from e)"

definition to_node :: "edge \<Rightarrow> nat" where
  "to_node e = unat (edge_to e)"

definition syllable_start :: "edge \<Rightarrow> nat" where
  "syllable_start e = unat (edge_syllable_start e)"

definition crosses_separator :: "edge \<Rightarrow> bool" where
  "crosses_separator e \<longleftrightarrow> edge_from e < edge_syllable_start e"

record segment_graph =
  graph_input_len :: nat
  graph_edges :: "edge list"
  graph_starts :: "nat list"
  graph_reachable :: "bool list"
  graph_consumed :: nat

section \<open>The edges of one node\<close>

definition APOSTROPHE :: u8 where
  "APOSTROPHE = 0x27"

definition is_ascii_lowercase :: "u8 \<Rightarrow> bool" where
  "is_ascii_lowercase b \<longleftrightarrow> 0x61 \<le> b \<and> b \<le> 0x7A"

text \<open>\<open>Iterator::position\<close> and \<open>rposition\<close>.\<close>

fun position :: "('a \<Rightarrow> bool) \<Rightarrow> 'a list \<Rightarrow> nat option" where
  "position P [] = None"
| "position P (x # xs) = (if P x then Some 0 else map_option Suc (position P xs))"

definition rposition :: "('a \<Rightarrow> bool) \<Rightarrow> 'a list \<Rightarrow> nat option" where
  "rposition P xs = map_option (\<lambda>i. length xs - 1 - i) (position P (rev xs))"

definition tone_split :: "bytes \<Rightarrow> bool \<Rightarrow> bool \<Rightarrow> (bytes \<times> u8) option" where
  "tone_split t use_tone force_tone =
     (let (core, tone) =
        (if t \<noteq> [] \<and> 0x31 \<le> last t \<and> last t \<le> 0x35 \<and> use_tone then (butlast t, last t - 0x30)
         else (t, 0)) in
      if force_tone \<and> tone = 0 then None
      else let core = take (case position (\<lambda>b. b = 0) core of Some i \<Rightarrow> i | None \<Rightarrow> length core) core in
        if core \<noteq> [] \<and> list_all is_ascii_lowercase core then Some (core, tone) else None)"

text \<open>\<open>core::str::from_utf8\<close>: the well-formed sequences of the Unicode standard, table 3-7.\<close>

definition cont_byte :: "u8 \<Rightarrow> bool" where
  "cont_byte b \<longleftrightarrow> 0x80 \<le> b \<and> b \<le> 0xBF"

fun valid_utf8 :: "bytes \<Rightarrow> bool" where
  "valid_utf8 [] = True"
| "valid_utf8 (b # bs) =
     (if b < 0x80 then valid_utf8 bs
      else if 0xC2 \<le> b \<and> b \<le> 0xDF then
        (case bs of c # cs \<Rightarrow> cont_byte c \<and> valid_utf8 cs | _ \<Rightarrow> False)
      else if 0xE0 \<le> b \<and> b \<le> 0xEF then
        (case bs of c # d # cs \<Rightarrow>
           (if b = 0xE0 then 0xA0 \<le> c \<and> c \<le> 0xBF else if b = 0xED then 0x80 \<le> c \<and> c \<le> 0x9F
            else cont_byte c) \<and> cont_byte d \<and> valid_utf8 cs
         | _ \<Rightarrow> False)
      else if 0xF0 \<le> b \<and> b \<le> 0xF4 then
        (case bs of c # d # e # cs \<Rightarrow>
           (if b = 0xF0 then 0x90 \<le> c \<and> c \<le> 0xBF else if b = 0xF4 then 0x80 \<le> c \<and> c \<le> 0x8F
            else cont_byte c) \<and> cont_byte d \<and> cont_byte e \<and> valid_utf8 cs
         | _ \<Rightarrow> False)
      else False)"

definition byte_char :: "u8 \<Rightarrow> char" where
  "byte_char b = char_of (unat b)"

definition key_for_spelling :: "bytes \<Rightarrow> option_bits \<Rightarrow> (syllable_key \<times> u8) option" where
  "key_for_spelling t opts =
     (if valid_utf8 t then from_option_text_with_distance (map byte_char t) opts else None)"

text \<open>The key that may begin at \<open>node\<close>, with the cached end of the last apostrophe run.\<close>

definition key_start :: "bytes \<Rightarrow> nat \<Rightarrow> nat \<Rightarrow> nat option \<times> nat" where
  "key_start input node run_end =
     (case get_at input node of
        None \<Rightarrow> (None, run_end)
      | Some byte \<Rightarrow>
          if byte = APOSTROPHE then
            let run_end = (if run_end \<le> node then
                  (case position (\<lambda>b. b \<noteq> APOSTROPHE) (drop node input) of
                     None \<Rightarrow> length input | Some offset \<Rightarrow> node + offset)
                else run_end)
            in (if run_end < length input then Some run_end else None, run_end)
          else (Some node, run_end))"

definition parse_span :: "bytes \<Rightarrow> nat \<Rightarrow> option_bits \<Rightarrow> nat \<Rightarrow> (syllable_key \<times> u8 \<times> u8) option" where
  "parse_span input start opts index =
     (let available = length input - start;
          use_tone = contains opts USE_TONE;
          force_tone = (use_tone \<and> contains opts FORCE_TONE);
          max_span = MAX_SYLLABLE_LEN + 1;
          span_len = index + 1 in
      if min max_span available < span_len then None
      else Option.bind (tone_split (take span_len (drop start input)) use_tone force_tone)
        (\<lambda>(core, tone). map_option (\<lambda>(key, distance). (key, tone, distance)) (key_for_spelling core opts)))"

definition span_complete :: "(syllable_key \<times> u8 \<times> u8) option \<Rightarrow> bool" where
  "span_complete span = (case span of Some (key, _, _) \<Rightarrow> key_completeness key = Complete | None \<Rightarrow> False)"

definition span_kind :: "nat option \<Rightarrow> nat \<Rightarrow> syllable_key \<Rightarrow> edge_kind" where
  "span_kind longest_complete span_len key =
     (case key_completeness key of
        Complete \<Rightarrow> if longest_complete = Some span_len then Exact else Segmentation
      | Partial \<Rightarrow> Incomplete)"

definition span_edge :: "nat \<Rightarrow> nat \<Rightarrow> nat option \<Rightarrow> nat \<times> (syllable_key \<times> u8 \<times> u8) option \<Rightarrow> edge list" where
  "span_edge node start longest_complete = (\<lambda>(index, span).
     case span of None \<Rightarrow> []
     | Some (key, tone, distance) \<Rightarrow>
         (let span_len = index + 1; stop = start + span_len in
          case (try_u32 node, try_u32 stop, try_u32 start) of
            (Some f, Some t, Some s) \<Rightarrow>
              [\<lparr>edge_from = f, edge_to = t, edge_syllable_start = s, edge_key = key,
                edge_kind = span_kind longest_complete span_len key, edge_tone = tone,
                edge_distance = distance\<rparr>]
          | _ \<Rightarrow> []))"

definition emit_edges :: "bytes \<Rightarrow> nat \<Rightarrow> nat \<Rightarrow> option_bits \<Rightarrow> edge list \<Rightarrow> edge list" where
  "emit_edges input node start opts edges =
     (let parsed_spans = map (parse_span input start opts) [0..<MAX_SYLLABLE_LEN + 1];
          longest_complete = map_option (\<lambda>i. i + 1) (rposition span_complete parsed_spans)
      in edges @ concat (map (span_edge node start longest_complete) (rev (enumerate 0 parsed_spans))))"

section \<open>Building\<close>

definition build_node :: "bytes \<Rightarrow> option_bits \<Rightarrow> nat \<Rightarrow> edge list \<times> nat list \<times> nat \<Rightarrow> edge list \<times> nat list \<times> nat" where
  "build_node input opts node = (\<lambda>(edges, starts, run_end).
     let starts = starts @ [length edges]; (ks, run_end) = key_start input node run_end
     in case ks of
          Some start \<Rightarrow> (emit_edges input node start opts edges, starts, run_end)
        | None \<Rightarrow> (edges, starts, run_end))"

definition reach_node :: "bytes \<Rightarrow> edge list \<Rightarrow> nat list \<Rightarrow> nat \<Rightarrow> bool list \<times> nat \<Rightarrow> bool list \<times> nat" where
  "reach_node input edges starts node = (\<lambda>(reachable, consumed).
     if \<not> reachable ! node then (reachable, consumed)
     else
       let reachable = (if node + 1 < length input + 1 \<and> input ! node = APOSTROPHE
             then reachable[node + 1 := True] else reachable);
           out = take (starts ! (node + 1) - starts ! node) (drop (starts ! node) edges)
       in (fold (\<lambda>e r. r[to_node e := True]) out reachable, node))"

definition build_with_options :: "bytes \<Rightarrow> option_bits \<Rightarrow> graph_error + segment_graph" where
  "build_with_options input opts =
     (if MAX_GRAPH_POSITION < length input then Inl (InputTooLong (length input) MAX_GRAPH_POSITION)
      else
        let node_count = length input + 1;
            (edges, starts, run_end) = fold (build_node input opts) [0..<node_count] ([], [], 0);
            starts = starts @ [length edges];
            (reachable, consumed) = fold (reach_node input edges starts) [0..<node_count]
              ((replicate node_count False)[0 := True], 0)
        in Inr \<lparr>graph_input_len = length input, graph_edges = edges, graph_starts = starts,
                graph_reachable = reachable, graph_consumed = consumed\<rparr>)"

definition build :: "bytes \<Rightarrow> graph_error + segment_graph" where
  "build input = build_with_options input 0"

text \<open>The graph of an already parsed input.\<close>

definition segment_invalid :: "bytes \<Rightarrow> nat \<Rightarrow> exact_segment \<Rightarrow> bool" where
  "segment_invalid input previous_end s \<longleftrightarrow>
     seg_end s \<le> seg_start s \<or> seg_start s < previous_end \<or> length input < seg_end s \<or>
     \<not> list_all (\<lambda>b. b = APOSTROPHE) (take (seg_start s - previous_end) (drop previous_end input))"

fun exact_edges :: "bytes \<Rightarrow> nat \<Rightarrow> nat \<Rightarrow> exact_segment list \<Rightarrow> graph_error + edge list" where
  "exact_edges input index previous_end [] = Inr []"
| "exact_edges input index previous_end (s # ss) =
     (if segment_invalid input previous_end s then Inl ExactSegmentsInvalid
      else case (try_u32 (if index = 0 then 0 else previous_end), try_u32 (seg_end s), try_u32 (seg_start s)) of
          (Some f, Some t, Some st) \<Rightarrow>
            (case exact_edges input (index + 1) (seg_end s) ss of
               Inl err \<Rightarrow> Inl err
             | Inr es \<Rightarrow> Inr (\<lparr>edge_from = f, edge_to = t, edge_syllable_start = st, edge_key = seg_key s,
                  edge_kind = Exact, edge_tone = seg_tone s, edge_distance = 0\<rparr> # es))
        | _ \<Rightarrow> Inl ExactSegmentsInvalid)"

function advance_cursor :: "edge list \<Rightarrow> nat \<Rightarrow> nat \<Rightarrow> nat" where
  "advance_cursor edges node cursor =
     (if cursor < length edges \<and> from_node (edges ! cursor) < node
      then advance_cursor edges node (cursor + 1) else cursor)"
  by pat_completeness auto
termination
  by (relation "measure (\<lambda>(edges, node, cursor). length edges - cursor)") auto

declare advance_cursor.simps [simp del]

definition exact_starts_step :: "edge list \<Rightarrow> nat \<Rightarrow> nat list \<times> nat \<Rightarrow> nat list \<times> nat" where
  "exact_starts_step edges node = (\<lambda>(starts, cursor).
     let cursor = advance_cursor edges node cursor in (starts @ [cursor], cursor))"

definition exact_reach_step :: "edge \<Rightarrow> bool list \<times> nat \<Rightarrow> bool list \<times> nat" where
  "exact_reach_step e = (\<lambda>(reachable, consumed).
     if reachable ! from_node e then (reachable[to_node e := True], max consumed (to_node e))
     else (reachable, consumed))"

definition build_exact :: "bytes \<Rightarrow> exact_segment list \<Rightarrow> graph_error + segment_graph" where
  "build_exact input segments =
     (if MAX_GRAPH_POSITION < length input then Inl (InputTooLong (length input) MAX_GRAPH_POSITION)
      else case exact_edges input 0 0 segments of
        Inl err \<Rightarrow> Inl err
      | Inr edges \<Rightarrow>
          let node_count = length input + 1;
              (starts, cursor) = fold (exact_starts_step edges) [0..<node_count + 1] ([], 0);
              (reachable, consumed) = fold exact_reach_step edges ((replicate node_count False)[0 := True], 0)
          in Inr \<lparr>graph_input_len = length input, graph_edges = edges, graph_starts = starts,
                  graph_reachable = reachable, graph_consumed = consumed\<rparr>)"

section \<open>Reading a graph\<close>

definition node_count :: "segment_graph \<Rightarrow> nat" where
  "node_count g = graph_input_len g + 1"

definition edge_at :: "segment_graph \<Rightarrow> nat \<Rightarrow> edge option" where
  "edge_at g i = get_at (graph_edges g) i"

definition outgoing :: "segment_graph \<Rightarrow> nat \<Rightarrow> edge list" where
  "outgoing g node =
     (case get_at (graph_starts g) node of None \<Rightarrow> []
      | Some a \<Rightarrow>
     (case get_at (graph_starts g) (node + 1) of None \<Rightarrow> []
      | Some b \<Rightarrow> take (b - a) (drop a (graph_edges g))))"

definition outgoing_ids :: "segment_graph \<Rightarrow> nat \<Rightarrow> nat list" where
  "outgoing_ids g node =
     (let a = (case get_at (graph_starts g) node of Some a \<Rightarrow> a | None \<Rightarrow> 0);
          b = max (case get_at (graph_starts g) (node + 1) of Some b \<Rightarrow> b | None \<Rightarrow> a) a
      in [a..<b])"

definition is_reachable :: "segment_graph \<Rightarrow> nat \<Rightarrow> bool" where
  "is_reachable g node = (case get_at (graph_reachable g) node of Some r \<Rightarrow> r | None \<Rightarrow> False)"

definition fully_consumed :: "segment_graph \<Rightarrow> bool" where
  "fully_consumed g \<longleftrightarrow> graph_consumed g = graph_input_len g"

definition find_edge :: "segment_graph \<Rightarrow> nat \<Rightarrow> syllable_key \<Rightarrow> nat \<Rightarrow> nat option" where
  "find_edge g node key start =
     List.find (\<lambda>i. case edge_at g i of Some e \<Rightarrow> edge_key e = key \<and> syllable_start e = start | None \<Rightarrow> False)
       (outgoing_ids g node)"

section \<open>The fewest-keys path\<close>

type_synonym steps = "(u64 \<times> edge) option list"

definition ONE_KEY :: u64 where
  "ONE_KEY = push_bit 32 1"

definition relax_edge :: "nat \<Rightarrow> u64 \<Rightarrow> edge \<Rightarrow> steps \<Rightarrow> steps" where
  "relax_edge bound rank e steps =
     (let t = to_node e in
      if bound < t then steps
      else
        let candidate = rank + ONE_KEY + ucast (edge_distance e);
            replace = (case steps ! t of None \<Rightarrow> True | Some (seen, _) \<Rightarrow> candidate < seen)
        in if replace then steps[t := Some (candidate, e)] else steps)"

definition edge_allowed :: "bool \<Rightarrow> edge \<Rightarrow> bool" where
  "edge_allowed allow_incomplete e \<longleftrightarrow> allow_incomplete \<or> edge_kind e \<noteq> Incomplete"

definition relax_node :: "segment_graph \<Rightarrow> bool \<Rightarrow> nat \<Rightarrow> steps \<Rightarrow> steps" where
  "relax_node g allow_incomplete node steps =
     (case (if node = 0 then Some 0 else map_option fst (steps ! node)) of
        None \<Rightarrow> steps
      | Some rank \<Rightarrow> fold (relax_edge (graph_consumed g) rank)
          (filter (edge_allowed allow_incomplete) (outgoing g node)) steps)"

fun furthest_step :: "steps \<Rightarrow> nat \<Rightarrow> nat" where
  "furthest_step steps 0 = 0"
| "furthest_step steps (Suc n) = (if steps ! Suc n = None then furthest_step steps n else Suc n)"

text \<open>The reconstruction follows \<open>from\<close> as long as the node is not 0: \<open>None\<close> is not returning.\<close>

partial_function (option) walk_back :: "steps \<Rightarrow> nat \<Rightarrow> edge list \<Rightarrow> edge list option" where
  "walk_back steps node path =
     (if node = 0 then Some path
      else case steps ! node of
        None \<Rightarrow> Some path
      | Some (_, e) \<Rightarrow> walk_back steps (from_node e) (path @ [e]))"

definition fewest_keys :: "segment_graph \<Rightarrow> bool \<Rightarrow> edge list option" where
  "fewest_keys g allow_incomplete =
     (let bound = graph_consumed g;
          steps = fold (relax_node g allow_incomplete) [0..<bound] (replicate (bound + 1) None)
      in map_option rev (walk_back steps (furthest_step steps bound) []))"

text \<open>\<open>FewestKeys::parse\<close>; the outer \<open>option\<close> is whether the path search returns.\<close>

definition fewest_keys_parse :: "bytes \<Rightarrow> syllable_key list option option" where
  "fewest_keys_parse pinyin =
     (case build pinyin of
        Inl _ \<Rightarrow> Some None
      | Inr g \<Rightarrow> map_option (\<lambda>edges.
          if edges = [] \<and> 0 < graph_consumed g then None else Some (map edge_key edges))
          (fewest_keys g False))"

fun join_apostrophe :: "string list \<Rightarrow> string" where
  "join_apostrophe [] = []"
| "join_apostrophe [s] = s"
| "join_apostrophe (s # t # ss) = s @ CHR 0x27 # join_apostrophe (t # ss)"

definition canonical_spelling :: "syllable_key list \<Rightarrow> string" where
  "canonical_spelling keys = join_apostrophe (map syllable_text keys)"

section \<open>The apostrophe-run cache\<close>

lemma position_takeWhile:
  "position P xs = (let k = length (takeWhile (\<lambda>x. \<not> P x) xs) in if k < length xs then Some k else None)"
  by (induction xs) (auto simp: Let_def)

definition run_stop :: "bytes \<Rightarrow> nat \<Rightarrow> nat" where
  "run_stop input n = n + length (takeWhile (\<lambda>b. b = APOSTROPHE) (drop n input))"

text \<open>Where a key may begin for an edge leaving \<open>n\<close>, without a cache: past the run of apostrophes.\<close>

definition key_begin :: "bytes \<Rightarrow> nat \<Rightarrow> nat option" where
  "key_begin input n = (if n < length input \<and> run_stop input n < length input then Some (run_stop input n) else None)"

lemma run_stop_apostrophe:
  "n < length input \<Longrightarrow> input ! n = APOSTROPHE \<Longrightarrow> run_stop input (Suc n) = run_stop input n"
  by (simp add: run_stop_def Cons_nth_drop_Suc [symmetric])

lemma run_stop_other: "n < length input \<Longrightarrow> input ! n \<noteq> APOSTROPHE \<Longrightarrow> run_stop input n = n"
  by (simp add: run_stop_def Cons_nth_drop_Suc [symmetric])

lemma run_stop_past: "length input \<le> n \<Longrightarrow> run_stop input n = n"
  by (simp add: run_stop_def)

lemma run_stop_bounds: "n \<le> run_stop input n" "n \<le> length input \<Longrightarrow> run_stop input n \<le> length input"
  using length_takeWhile_le [of "\<lambda>b. b = APOSTROPHE" "drop n input"] by (auto simp: run_stop_def)

lemma run_stop_scan:
  "n < length input \<Longrightarrow>
   (case position (\<lambda>b. b \<noteq> APOSTROPHE) (drop n input) of None \<Rightarrow> length input | Some k \<Rightarrow> n + k) = run_stop input n"
  using run_stop_bounds(2) [of n input] by (auto simp: position_takeWhile run_stop_def Let_def)

definition cache_ok :: "bytes \<Rightarrow> nat \<Rightarrow> nat \<Rightarrow> bool" where
  "cache_ok input n r \<longleftrightarrow> r \<le> n \<or> r = run_stop input n"

lemma key_start_cached:
  assumes "cache_ok input n r"
  shows "fst (key_start input n r) = key_begin input n \<and> cache_ok input (Suc n) (snd (key_start input n r))"
proof (cases "n < length input")
  case True
  then show ?thesis
    using assms run_stop_scan [OF True] run_stop_apostrophe [OF True] run_stop_other [OF True]
    by (auto simp: key_start_def get_at_def key_begin_def cache_ok_def Let_def)
next
  case False
  then show ?thesis
    using assms run_stop_past [of input n] by (auto simp: key_start_def get_at_def key_begin_def cache_ok_def)
qed

section \<open>The layout of the edge vector\<close>

text \<open>The edges of node \<open>n\<close>, and the whole vector as their concatenation.\<close>

definition node_edges :: "bytes \<Rightarrow> option_bits \<Rightarrow> nat \<Rightarrow> edge list" where
  "node_edges input opts n = (case key_begin input n of None \<Rightarrow> [] | Some s \<Rightarrow> emit_edges input n s opts [])"

definition upto_node :: "(nat \<Rightarrow> 'a list) \<Rightarrow> nat \<Rightarrow> 'a list" where
  "upto_node f k = concat (map f [0..<k])"

lemma upto_node_simps [simp]: "upto_node f 0 = []" "upto_node f (Suc k) = upto_node f k @ f k"
  by (simp_all add: upto_node_def)

lemma upto_node_split: "k \<le> m \<Longrightarrow> upto_node f m = upto_node f k @ concat (map f [k..<m])"
proof (induction m)
  case (Suc m)
  then show ?case by (cases "k = Suc m") auto
qed simp

lemma upto_node_slice:
  assumes "n < m"
  shows "take (length (upto_node f (Suc n)) - length (upto_node f n)) (drop (length (upto_node f n)) (upto_node f m)) = f n"
  using upto_node_split [of "Suc n" m f] assms by simp

lemma emit_edges_append: "emit_edges input n s opts edges = edges @ emit_edges input n s opts []"
  by (simp add: emit_edges_def Let_def)

lemma build_node_eq:
  assumes "cache_ok input k r"
  shows "\<exists>r'. build_node input opts k (es, st, r) = (es @ node_edges input opts k, st @ [length es], r') \<and>
     cache_ok input (Suc k) r'"
proof -
  obtain ks r' where ks: "key_start input k r = (ks, r')" by fastforce
  then have "ks = key_begin input k" "cache_ok input (Suc k) r'"
    using key_start_cached [OF assms] by auto
  then show ?thesis
    using ks by (auto simp: build_node_def node_edges_def emit_edges_append [of _ _ _ _ es] split: option.splits)
qed

lemma build_fold:
  "\<exists>r. fold (build_node input opts) [0..<k] ([], [], 0) =
     (upto_node (node_edges input opts) k, map (\<lambda>i. length (upto_node (node_edges input opts) i)) [0..<k], r) \<and>
     cache_ok input k r"
proof (induction k)
  case 0
  show ?case by (simp add: cache_ok_def)
next
  case (Suc k)
  then show ?case
    using build_node_eq [of input k _ opts] by fastforce
qed

section \<open>Reachability\<close>

text \<open>A position is reached from the start by following edges and stepping over apostrophes.\<close>

inductive reached :: "bytes \<Rightarrow> (nat \<Rightarrow> edge list) \<Rightarrow> nat \<Rightarrow> bool" for input out where
  reached_start: "reached input out 0"
| reached_hop: "reached input out n \<Longrightarrow> n < length input \<Longrightarrow> input ! n = APOSTROPHE \<Longrightarrow> reached input out (Suc n)"
| reached_edge: "reached input out n \<Longrightarrow> e \<in> set (out n) \<Longrightarrow> reached input out (to_node e)"

inductive_cases reached_cases: "reached input out n"

definition advances :: "bytes \<Rightarrow> (nat \<Rightarrow> edge list) \<Rightarrow> nat \<Rightarrow> nat \<Rightarrow> bool" where
  "advances input out m n \<longleftrightarrow> m < length input \<and> input ! m = APOSTROPHE \<and> n = Suc m \<or> n \<in> to_node ` set (out m)"

lemma reached_advances:
  "reached input out n \<longleftrightarrow> n = 0 \<or> (\<exists>m. reached input out m \<and> advances input out m n)"
  by (auto simp: advances_def intro: reached.intros elim: reached_cases)

lemma mark_nth:
  "m < length r \<Longrightarrow> fold (\<lambda>e r. r[to_node e := True]) es r ! m \<longleftrightarrow> r ! m \<or> m \<in> to_node ` set es"
proof (induction es arbitrary: r)
  case (Cons e es)
  then show ?case by (cases "to_node e = m") auto
qed simp

lemma length_mark [simp]: "length (fold (\<lambda>e r. r[to_node e := True]) es r) = length r"
  by (induction es arbitrary: r) auto

definition sweep_inv :: "bytes \<Rightarrow> (nat \<Rightarrow> edge list) \<Rightarrow> nat \<Rightarrow> bool list \<times> nat \<Rightarrow> bool" where
  "sweep_inv input out k = (\<lambda>(r, c). length r = length input + 1 \<and>
     (\<forall>n \<le> length input. r ! n \<longleftrightarrow> n = 0 \<or> (\<exists>m < k. reached input out m \<and> advances input out m n)) \<and>
     reached input out c \<and> (\<forall>n < k. reached input out n \<longrightarrow> n \<le> c))"

lemma reach_node_inv:
  assumes inv: "sweep_inv input out k rc" and k: "k \<le> length input"
    and out: "take (starts ! (k + 1) - starts ! k) (drop (starts ! k) edges) = out k"
    and forward: "\<And>m n. advances input out m n \<Longrightarrow> m < n"
  shows "sweep_inv input out (Suc k) (reach_node input edges starts k rc)"
proof -
  obtain r c where rc: "rc = (r, c)" by fastforce
  have here: "r ! k \<longleftrightarrow> reached input out k"
    using inv k forward reached_advances [of input out k] by (auto simp: rc sweep_inv_def)
  show ?thesis
  proof (cases "r ! k")
    case True
    define r' where "r' = fold (\<lambda>e r. r[to_node e := True]) (out k)
      (if k < length input \<and> input ! k = APOSTROPHE then r[k + 1 := True] else r)"
    have len: "length r = length input + 1" "length r' = length input + 1"
      using inv by (auto simp: rc sweep_inv_def r'_def)
    have nth: "r' ! n \<longleftrightarrow> r ! n \<or> advances input out k n" if "n \<le> length input" for n
    proof (cases "n = Suc k")
      case True
      then show ?thesis using that len by (auto simp: r'_def mark_nth advances_def)
    next
      case False
      then show ?thesis using that len by (auto simp: r'_def mark_nth advances_def)
    qed
    have "reach_node input edges starts k rc = (r', k)"
      using True by (auto simp: rc reach_node_def r'_def out [simplified] Let_def)
    moreover have "sweep_inv input out (Suc k) (r', k)"
      using inv here True unfolding rc sweep_inv_def prod.case by (simp add: nth len less_Suc_eq) blast
    ultimately show ?thesis by simp
  next
    case False
    then show ?thesis
      using inv here unfolding rc sweep_inv_def reach_node_def prod.case by (simp add: less_Suc_eq) blast
  qed
qed

section \<open>What an edge is\<close>

text \<open>A key \<open>k\<close> with tone \<open>t\<close> and distance \<open>d\<close> spans the \<open>l\<close> bytes from \<open>s\<close>.\<close>

definition parses_at :: "bytes \<Rightarrow> option_bits \<Rightarrow> nat \<Rightarrow> nat \<Rightarrow> syllable_key \<Rightarrow> u8 \<Rightarrow> u8 \<Rightarrow> bool" where
  "parses_at input opts s l k t d \<longleftrightarrow> 1 \<le> l \<and> l \<le> MAX_SYLLABLE_LEN + 1 \<and> s + l \<le> length input \<and>
     (\<exists>core. tone_split (take l (drop s input)) (contains opts USE_TONE)
          (contains opts USE_TONE \<and> contains opts FORCE_TONE) = Some (core, t) \<and>
        key_for_spelling core opts = Some (k, d))"

definition matched_kind :: "bytes \<Rightarrow> option_bits \<Rightarrow> nat \<Rightarrow> nat \<Rightarrow> syllable_key \<Rightarrow> edge_kind" where
  "matched_kind input opts s l k =
     (if key_completeness k = Partial then Incomplete
      else if \<exists>l' k' t' d'. l < l' \<and> parses_at input opts s l' k' t' d' \<and> key_completeness k' = Complete
      then Segmentation else Exact)"

definition match_edge :: "bytes \<Rightarrow> option_bits \<Rightarrow> nat \<Rightarrow> nat \<Rightarrow> nat \<Rightarrow> syllable_key \<Rightarrow> u8 \<Rightarrow> u8 \<Rightarrow> edge" where
  "match_edge input opts n s l k t d =
     \<lparr>edge_from = of_nat n, edge_to = of_nat (s + l), edge_syllable_start = of_nat s, edge_key = k,
      edge_kind = matched_kind input opts s l k, edge_tone = t, edge_distance = d\<rparr>"

lemma parse_span_iff:
  "s \<le> length input \<Longrightarrow> parse_span input s opts i = Some (k, t, d) \<longleftrightarrow> parses_at input opts s (i + 1) k t d"
  by (auto simp: parse_span_def parses_at_def Let_def bind_eq_Some_conv min_def split: if_splits)

lemma position_iff:
  "position P xs = Some i \<longleftrightarrow> i < length xs \<and> P (xs ! i) \<and> (\<forall>j < i. \<not> P (xs ! j))"
proof (induction xs arbitrary: i)
  case (Cons x xs)
  then show ?case by (cases i) (auto simp: less_Suc_eq_0_disj All_less_Suc2)
qed simp

lemma rposition_iff:
  "rposition P xs = Some i \<longleftrightarrow> i < length xs \<and> P (xs ! i) \<and> (\<forall>j. i < j \<longrightarrow> j < length xs \<longrightarrow> \<not> P (xs ! j))"
proof -
  have "rposition P xs = Some i \<longleftrightarrow> i < length xs \<and> position P (rev xs) = Some (length xs - 1 - i)"
    by (auto simp: rposition_def position_iff)
  also have "\<dots> \<longleftrightarrow> i < length xs \<and> P (xs ! i) \<and> (\<forall>j < length xs - 1 - i. \<not> P (xs ! (length xs - Suc j)))"
    by (auto simp: position_iff rev_nth)
  also have "\<dots> \<longleftrightarrow> i < length xs \<and> P (xs ! i) \<and> (\<forall>j. i < j \<longrightarrow> j < length xs \<longrightarrow> \<not> P (xs ! j))"
  proof (intro conj_cong refl iffI allI impI)
    fix j assume *: "\<forall>j < length xs - 1 - i. \<not> P (xs ! (length xs - Suc j))" "i < j" "j < length xs"
    show "\<not> P (xs ! j)"
      using *(1) [rule_format, of "length xs - Suc j"] *(2,3) by simp
  next
    fix j assume *: "\<forall>j. i < j \<longrightarrow> j < length xs \<longrightarrow> \<not> P (xs ! j)" "j < length xs - 1 - i"
    then show "\<not> P (xs ! (length xs - Suc j))" by simp
  qed
  finally show ?thesis .
qed

lemma span_kind_matched:
  assumes "s \<le> length input" "parses_at input opts s l k t d"
  shows "span_kind (map_option (\<lambda>i. i + 1) (rposition span_complete
           (map (parse_span input s opts) [0..<MAX_SYLLABLE_LEN + 1]))) l k = matched_kind input opts s l k"
proof (cases "key_completeness k")
  case Complete
  let ?spans = "map (parse_span input s opts) [0..<MAX_SYLLABLE_LEN + 1]"
  obtain i where i: "l = Suc i" "i < MAX_SYLLABLE_LEN + 1"
    using assms(2) by (cases l) (auto simp: parses_at_def)
  have span: "span_complete (?spans ! j) \<longleftrightarrow> (\<exists>k t d. parses_at input opts s (Suc j) k t d \<and> key_completeness k = Complete)"
    if "j < MAX_SYLLABLE_LEN + 1" for j
    using that
    by (auto simp: span_complete_def parse_span_iff [OF assms(1), of opts j, simplified, symmetric]
        simp del: upt_Suc split: option.splits)
  have "span_complete (?spans ! i)"
    using span [OF i(2)] assms(2) i(1) Complete by blast
  then have "rposition span_complete ?spans = Some i \<longleftrightarrow>
      (\<forall>j. i < j \<longrightarrow> j < MAX_SYLLABLE_LEN + 1 \<longrightarrow> \<not> span_complete (?spans ! j))"
    using i(2) by (auto simp: rposition_iff simp del: upt_Suc)
  also have "\<dots> \<longleftrightarrow> \<not> (\<exists>l' k' t' d'. l < l' \<and> parses_at input opts s l' k' t' d' \<and> key_completeness k' = Complete)"
  proof -
    have "(\<exists>j. i < j \<and> j < MAX_SYLLABLE_LEN + 1 \<and> span_complete (?spans ! j)) \<longleftrightarrow>
      (\<exists>l' k' t' d'. l < l' \<and> parses_at input opts s l' k' t' d' \<and> key_completeness k' = Complete)" (is "?A \<longleftrightarrow> ?B")
    proof
      assume ?A then show ?B using span i by fastforce
    next
      assume ?B
      then obtain l' k' t' d' where *: "l < l'" "parses_at input opts s l' k' t' d'" "key_completeness k' = Complete" by blast
      moreover from * have "l' - 1 < MAX_SYLLABLE_LEN + 1" by (auto simp: parses_at_def)
      ultimately show ?A using span [of "l' - 1"] i by (intro exI [of _ "l' - 1"]) auto
    qed
    then show ?thesis by blast
  qed
  finally show ?thesis
    using Complete i(1) by (auto simp: span_kind_def matched_kind_def)
qed (simp add: span_kind_def matched_kind_def)

lemma try_u32_Some: "n \<le> MAX_GRAPH_POSITION \<Longrightarrow> try_u32 n = Some (of_nat n)"
  by (simp add: try_u32_def MAX_GRAPH_POSITION_def)

lemma unat_position: "n \<le> MAX_GRAPH_POSITION \<Longrightarrow> unat (of_nat n :: u32) = n"
  by (simp add: unat_of_nat take_bit_nat_eq_self MAX_GRAPH_POSITION_def)

lemma key_begin_bounds: "key_begin input n = Some s \<Longrightarrow> n \<le> s \<and> s < length input"
  using run_stop_bounds(1) [of n input] by (auto simp: key_begin_def split: if_splits)

lemma node_edges_iff:
  assumes "length input \<le> MAX_GRAPH_POSITION"
  shows "e \<in> set (node_edges input opts n) \<longleftrightarrow>
    (\<exists>s l k t d. key_begin input n = Some s \<and> parses_at input opts s l k t d \<and> e = match_edge input opts n s l k t d)"
proof (cases "key_begin input n")
  case (Some s)
  let ?spans = "map (parse_span input s opts) [0..<MAX_SYLLABLE_LEN + 1]"
  let ?lc = "map_option (\<lambda>i. i + 1) (rposition span_complete ?spans)"
  have s: "n \<le> s" "s \<le> length input" using key_begin_bounds [OF Some] by auto
  have edge: "set (span_edge n s ?lc (i, Some (k, t, d))) = {match_edge input opts n s (Suc i) k t d}"
    if "parses_at input opts s (Suc i) k t d" for i k t d
    using that s assms span_kind_matched [OF s(2) that]
    by (simp add: span_edge_def match_edge_def try_u32_Some parses_at_def Let_def)
  have "e \<in> set (node_edges input opts n) \<longleftrightarrow> (\<exists>i < MAX_SYLLABLE_LEN + 1. e \<in> set (span_edge n s ?lc (i, ?spans ! i)))"
    by (auto simp: node_edges_def Some emit_edges_def Let_def in_set_enumerate_eq simp del: upt_Suc)
  also have "\<dots> \<longleftrightarrow> (\<exists>i < MAX_SYLLABLE_LEN + 1. \<exists>k t d. parses_at input opts s (Suc i) k t d \<and>
      e = match_edge input opts n s (Suc i) k t d)"
  proof (intro ex_cong1 conj_cong refl)
    fix i assume i: "i < MAX_SYLLABLE_LEN + 1"
    show "e \<in> set (span_edge n s ?lc (i, ?spans ! i)) \<longleftrightarrow>
      (\<exists>k t d. parses_at input opts s (Suc i) k t d \<and> e = match_edge input opts n s (Suc i) k t d)"
    proof (cases "parse_span input s opts i")
      case None
      then show ?thesis
        using i parse_span_iff [OF s(2), of opts i] by (auto simp: span_edge_def simp del: upt_Suc)
    next
      case (Some m)
      then obtain k t d where ktd: "parse_span input s opts i = Some (k, t, d)" by (cases m) auto
      then have "?spans ! i = Some (k, t, d)" "parses_at input opts s (Suc i) k t d"
        using i parse_span_iff [OF s(2), of opts i] by (simp_all del: upt_Suc)
      moreover have "k' = k \<and> t' = t \<and> d' = d" if "parses_at input opts s (Suc i) k' t' d'" for k' t' d'
        using that ktd parse_span_iff [OF s(2), of opts i k' t' d'] by simp
      ultimately show ?thesis
        using edge by (metis singleton_iff)
    qed
  qed
  also have "\<dots> \<longleftrightarrow> (\<exists>l k t d. parses_at input opts s l k t d \<and> e = match_edge input opts n s l k t d)"
    by (metis Suc_eq_plus1 Suc_le_lessD le_add_diff_inverse2 less_Suc_eq_le parses_at_def plus_1_eq_Suc less_imp_Suc_add Suc_le_mono)
  finally show ?thesis by (simp add: Some)
qed (simp add: node_edges_def)

lemma sorted_wrt_concat_map:
  "sorted_wrt (\<lambda>x y. \<forall>a \<in> set (f x). \<forall>b \<in> set (f y). R a b) xs \<Longrightarrow> (\<And>x. x \<in> set xs \<Longrightarrow> sorted_wrt R (f x)) \<Longrightarrow>
   sorted_wrt R (concat (map f xs))"
  by (induction xs) (auto simp: sorted_wrt_append)

lemma sorted_enumerate: "sorted_wrt (\<lambda>x y. fst x < fst y) (enumerate n xs)"
proof -
  have "sorted_wrt (<) (map fst (enumerate n xs))" by simp
  then show ?thesis by (simp only: sorted_wrt_map)
qed

lemma try_u32_unat: "try_u32 n = Some w \<Longrightarrow> unat w = n"
  by (auto simp: try_u32_def unat_of_nat take_bit_nat_eq_self split: if_splits)

lemma span_edge_to:
  "e \<in> set (span_edge n s lc (i, span)) \<Longrightarrow> to_node e = s + i + 1"
  by (auto simp: span_edge_def to_node_def Let_def dest: try_u32_unat [OF sym] split: option.splits)

lemma span_edge_single: "sorted_wrt R (span_edge n s lc x)"
  by (cases x) (auto simp: span_edge_def Let_def split: option.splits)

lemma node_edges_descend: "sorted_wrt (\<lambda>a b. to_node b < to_node a) (node_edges input opts n)"
proof (cases "key_begin input n")
  case (Some s)
  let ?f = "\<lambda>lc. span_edge n s lc"
  have "sorted_wrt (\<lambda>x y. fst y < fst x) (rev (enumerate 0 xs))" for xs :: "(syllable_key \<times> u8 \<times> u8) option list"
    by (simp add: sorted_wrt_rev sorted_enumerate)
  then have "sorted_wrt (\<lambda>x y. \<forall>a \<in> set (?f lc x). \<forall>b \<in> set (?f lc y). to_node b < to_node a) (rev (enumerate 0 xs))"
    for lc and xs :: "(syllable_key \<times> u8 \<times> u8) option list"
    by (rule sorted_wrt_mono_rel [rotated]) (auto dest!: span_edge_to)
  then show ?thesis
    unfolding node_edges_def Some emit_edges_def option.case Let_def append_Nil
    by (intro sorted_wrt_concat_map span_edge_single)
qed (simp add: node_edges_def)

lemma key_for_spelling_distance: "key_for_spelling c opts = Some (k, d) \<Longrightarrow> d \<le> 1"
  by (auto simp: key_for_spelling_def from_option_text_with_distance_def bind_eq_Some_conv
      split: if_splits option.splits)

lemma node_edges_forward:
  assumes "length input \<le> MAX_GRAPH_POSITION" "e \<in> set (node_edges input opts n)"
  shows "from_node e = n \<and> n < to_node e \<and> to_node e \<le> length input \<and> edge_distance e \<le> 1"
proof -
  obtain s l k t d where e: "key_begin input n = Some s" "parses_at input opts s l k t d" "e = match_edge input opts n s l k t d"
    using assms node_edges_iff by blast
  then have "n \<le> s" "s + l \<le> length input" "0 < l" "d \<le> 1"
    using key_begin_bounds key_for_spelling_distance by (auto simp: parses_at_def)
  then show ?thesis
    using assms(1) unat_position [of n] unat_position [of "s + l"]
    by (simp add: e match_edge_def from_node_def to_node_def)
qed

section \<open>The built graph\<close>

lemma build_shape:
  assumes "build_with_options input opts = Inr g"
  shows "length input \<le> MAX_GRAPH_POSITION" "graph_input_len g = length input"
    "graph_edges g = upto_node (node_edges input opts) (length input + 1)"
    "graph_starts g = map (\<lambda>i. length (upto_node (node_edges input opts) i)) [0..<length input + 2]"
    "sweep_inv input (node_edges input opts) (length input + 1) (graph_reachable g, graph_consumed g)"
proof -
  let ?N = "length input + 1" and ?out = "node_edges input opts"
  define es where "es = upto_node ?out ?N"
  define st where "st = map (\<lambda>i. length (upto_node ?out i)) [0..<length input + 2]"
  define start where "start = ((replicate ?N False)[0 := True], 0 :: nat)"
  define rc where "rc = fold (reach_node input es st) [0..<?N] start"
  show len: "length input \<le> MAX_GRAPH_POSITION"
    using assms by (auto simp: build_with_options_def split: if_splits)
  obtain r where r: "fold (build_node input opts) [0..<?N] ([], [], 0) =
      (es, map (\<lambda>i. length (upto_node ?out i)) [0..<?N], r)"
    using build_fold unfolding es_def by blast
  have st: "map (\<lambda>i. length (upto_node ?out i)) [0..<?N] @ [length es] = st"
    by (simp add: st_def es_def numeral_2_eq_2)
  have forward: "m < n" if "advances input ?out m n" for m n
    using that node_edges_forward [OF len] by (auto simp: advances_def)
  have out: "take (st ! (k + 1) - st ! k) (drop (st ! k) es) = ?out k" if "k \<le> length input" for k
    using that upto_node_slice [of k ?N ?out] by (simp add: st_def es_def del: upto_node_simps upt_Suc)
  have "sweep_inv input ?out k (fold (reach_node input es st) [0..<k] start)" if "k \<le> ?N" for k
    using that
  proof (induction k)
    case 0
    show ?case by (auto simp: start_def sweep_inv_def nth_Cons' intro: reached_start)
  next
    case (Suc k)
    then show ?case
      using reach_node_inv [of input ?out k "fold (reach_node input es st) [0..<k] start" st es] out [of k] forward
      by simp
  qed
  then have inv: "sweep_inv input ?out ?N rc"
    by (simp only: rc_def order_refl)
  have g: "g = \<lparr>graph_input_len = length input, graph_edges = es, graph_starts = st,
                graph_reachable = fst rc, graph_consumed = snd rc\<rparr>"
    using assms len unfolding build_with_options_def Let_def r prod.case st rc_def start_def by (simp add: split_beta)
  show "graph_input_len g = length input" "graph_edges g = upto_node ?out ?N"
      "graph_starts g = map (\<lambda>i. length (upto_node ?out i)) [0..<length input + 2]"
      "sweep_inv input ?out ?N (graph_reachable g, graph_consumed g)"
    using inv by (simp_all add: g es_def st_def)
qed

lemma build_outgoing:
  assumes "build_with_options input opts = Inr g"
  shows "outgoing g n = node_edges input opts n"
  using upto_node_slice [of n "length input + 1" "node_edges input opts"]
  by (cases "n \<le> length input")
    (auto simp: outgoing_def get_at_def build_shape [OF assms] node_edges_def key_begin_def
      simp del: upto_node_simps upt_Suc)

lemma build_ok: "(\<exists>g. build_with_options input opts = Inr g) \<longleftrightarrow> length input \<le> MAX_GRAPH_POSITION"
  by (auto simp: build_with_options_def Let_def split: prod.splits)

lemma reached_bound:
  assumes "reached input out n" "\<And>m e. e \<in> set (out m) \<Longrightarrow> to_node e \<le> length input"
  shows "n \<le> length input"
  using assms by induction auto

lemma build_reached:
  assumes "build_with_options input opts = Inr g"
  shows "is_reachable g n \<longleftrightarrow> reached input (outgoing g) n"
    and "reached input (outgoing g) (graph_consumed g)"
    and "reached input (outgoing g) n \<Longrightarrow> n \<le> graph_consumed g"
proof -
  note shape = build_shape [OF assms]
  have out: "outgoing g = node_edges input opts" using build_outgoing [OF assms] by blast
  have to: "to_node e \<le> length input" "m < to_node e" if "e \<in> set (node_edges input opts m)" for m e
    using node_edges_forward [OF shape(1) that] by auto
  have inv: "sweep_inv input (outgoing g) (length input + 1) (graph_reachable g, graph_consumed g)"
    using shape(5) by (simp add: out)
  have le: "reached input (outgoing g) n \<Longrightarrow> n \<le> length input" for n
    using reached_bound to out by metis
  have "\<exists>m < Suc (length input). reached input (outgoing g) m \<and> advances input (outgoing g) m n"
    if "reached input (outgoing g) m" "advances input (outgoing g) m n" for m n
    using that le [of m] by (meson less_Suc_eq_le)
  then show "is_reachable g n \<longleftrightarrow> reached input (outgoing g) n"
    using inv le [of n] reached_advances [of input "outgoing g" n]
    by (cases "n \<le> length input") (auto simp: sweep_inv_def is_reachable_def get_at_def)
  show "reached input (outgoing g) (graph_consumed g)"
    "reached input (outgoing g) n \<Longrightarrow> n \<le> graph_consumed g"
    using inv le [of n] by (auto simp: sweep_inv_def)
qed

section \<open>Properties of the parsed graph\<close>

text \<open>C4: the edges of a built graph are exactly the matches of the input. A build fails only for an
  input past \<open>MAX_GRAPH_POSITION\<close>; otherwise an edge leaves node \<open>n\<close> exactly when a key begins right
  after the apostrophe run at \<open>n\<close> and spans the bytes up to the edge's target, with its tone,
  correction distance and kind: \<open>Incomplete\<close> for an initial-only key, \<open>Exact\<close> for the longest complete
  syllable there and \<open>Segmentation\<close> for a shorter one. The edges of a node come longest first, and the
  edge vector lists the nodes in order.\<close>

theorem build_edges_spec:
  "(case build_with_options input opts of
      Inl err \<Rightarrow> MAX_GRAPH_POSITION < length input \<and> err = InputTooLong (length input) MAX_GRAPH_POSITION
    | Inr g \<Rightarrow> length input \<le> MAX_GRAPH_POSITION \<and>
        (\<forall>n e. e \<in> set (outgoing g n) \<longleftrightarrow>
          (\<exists>s l k t d. key_begin input n = Some s \<and> parses_at input opts s l k t d \<and>
            e = match_edge input opts n s l k t d)) \<and>
        (\<forall>n. sorted_wrt (\<lambda>a b. to_node b < to_node a) (outgoing g n)) \<and>
        graph_edges g = concat (map (outgoing g) [0..<node_count g]))"
proof (cases "length input \<le> MAX_GRAPH_POSITION")
  case True
  then obtain g where g: "build_with_options input opts = Inr g" using build_ok by blast
  have "outgoing g = node_edges input opts" using build_outgoing [OF g] by blast
  then show ?thesis
    using g True node_edges_iff [OF True] node_edges_descend build_shape(2,3) [OF g]
    by (simp add: upto_node_def node_count_def)
qed (simp add: build_with_options_def)

text \<open>The reachability sweep is exact. A node is marked reachable exactly when it is reached from
  the start by following edges and stepping over apostrophes, and \<open>consumed\<close> is the furthest such
  node.\<close>

theorem reachable_spec:
  assumes "build_with_options input opts = Inr g"
  shows "(is_reachable g n \<longleftrightarrow> reached input (outgoing g) n) \<and> is_reachable g (graph_consumed g) \<and>
    (is_reachable g n \<longrightarrow> n \<le> graph_consumed g \<and> n \<le> length input)"
proof -
  have "to_node e \<le> length input" if "e \<in> set (outgoing g m)" for m e
    using that node_edges_forward [OF build_shape(1) [OF assms]] by (auto simp: build_outgoing [OF assms])
  then show ?thesis
    using build_reached [OF assms] reached_bound by metis
qed

section \<open>The graph of an already parsed input\<close>

text \<open>The end of the segment before \<open>i\<close>, and the walk condition on a segment list.\<close>

definition previous_end :: "exact_segment list \<Rightarrow> nat \<Rightarrow> nat" where
  "previous_end ss i = (if i = 0 then 0 else seg_end (ss ! (i - 1)))"

definition segments_walk :: "bytes \<Rightarrow> exact_segment list \<Rightarrow> bool" where
  "segments_walk input ss \<longleftrightarrow> (\<forall>i < length ss.
     previous_end ss i \<le> seg_start (ss ! i) \<and> seg_start (ss ! i) < seg_end (ss ! i) \<and>
     seg_end (ss ! i) \<le> length input \<and>
     (\<forall>j. previous_end ss i \<le> j \<and> j < seg_start (ss ! i) \<longrightarrow> input ! j = APOSTROPHE))"

definition segment_edge :: "nat \<Rightarrow> exact_segment \<Rightarrow> edge" where
  "segment_edge p s = \<lparr>edge_from = of_nat p, edge_to = of_nat (seg_end s), edge_syllable_start = of_nat (seg_start s),
     edge_key = seg_key s, edge_kind = Exact, edge_tone = seg_tone s, edge_distance = 0\<rparr>"

fun segment_edges :: "nat \<Rightarrow> exact_segment list \<Rightarrow> edge list" where
  "segment_edges p [] = []"
| "segment_edges p (s # ss) = segment_edge p s # segment_edges (seg_end s) ss"

fun walk_from :: "bytes \<Rightarrow> nat \<Rightarrow> exact_segment list \<Rightarrow> bool" where
  "walk_from input p [] = True"
| "walk_from input p (s # ss) = (\<not> segment_invalid input p s \<and> walk_from input (seg_end s) ss)"

lemma exact_edges_eq:
  assumes "length input \<le> MAX_GRAPH_POSITION" "index = 0 \<Longrightarrow> p = 0" "p \<le> length input"
  shows "exact_edges input index p ss =
    (if walk_from input p ss then Inr (segment_edges p ss) else Inl ExactSegmentsInvalid)"
  using assms(2,3)
proof (induction ss arbitrary: index p)
  case (Cons s ss)
  show ?case
  proof (cases "segment_invalid input p s")
    case False
    then have "p \<le> MAX_GRAPH_POSITION" "seg_end s \<le> MAX_GRAPH_POSITION" "seg_start s \<le> MAX_GRAPH_POSITION"
      "seg_end s \<le> length input"
      using Cons.prems assms(1) by (auto simp: segment_invalid_def)
    moreover have "(if index = 0 then 0 else p) = p" using Cons.prems by simp
    ultimately show ?thesis
      using False Cons.IH [of "index + 1" "seg_end s"] by (simp add: try_u32_Some segment_edge_def)
  qed simp
qed simp

lemma segment_valid_iff:
  assumes "p \<le> length input"
  shows "\<not> segment_invalid input p s \<longleftrightarrow> p \<le> seg_start s \<and> seg_start s < seg_end s \<and> seg_end s \<le> length input \<and>
    (\<forall>j. p \<le> j \<and> j < seg_start s \<longrightarrow> input ! j = APOSTROPHE)"
proof -
  have "list_all (\<lambda>b. b = APOSTROPHE) (take (a - p) (drop p input)) \<longleftrightarrow>
      (\<forall>j. p \<le> j \<and> j < a \<longrightarrow> input ! j = APOSTROPHE)" if "p \<le> a" "a \<le> length input" for a
  proof -
    have "(\<forall>i < a - p. input ! (p + i) = APOSTROPHE) \<longleftrightarrow> (\<forall>j. p \<le> j \<and> j < a \<longrightarrow> input ! j = APOSTROPHE)"
      by (metis add_less_cancel_left le_add1 le_add_diff_inverse less_or_eq_imp_le that(1))
    then show ?thesis using that by (auto simp: list_all_length)
  qed
  then show ?thesis by (auto simp: segment_invalid_def)
qed

lemma previous_end_Cons: "previous_end (s # ss) (Suc i) = (if i = 0 then seg_end s else previous_end ss i)"
  by (cases i) (auto simp: previous_end_def)

lemma walk_from_iff:
  assumes "p \<le> length input"
  shows "walk_from input p ss \<longleftrightarrow> (\<forall>i < length ss.
     (if i = 0 then p else previous_end ss i) \<le> seg_start (ss ! i) \<and> seg_start (ss ! i) < seg_end (ss ! i) \<and>
     seg_end (ss ! i) \<le> length input \<and>
     (\<forall>j. (if i = 0 then p else previous_end ss i) \<le> j \<and> j < seg_start (ss ! i) \<longrightarrow> input ! j = APOSTROPHE))"
  using assms
proof (induction ss arbitrary: p)
  case (Cons s ss)
  show ?case
  proof (cases "seg_end s \<le> length input")
    case True
    show ?thesis
      unfolding walk_from.simps segment_valid_iff [OF Cons.prems] Cons.IH [OF True] length_Cons All_less_Suc2
      by (simp add: previous_end_Cons)
  qed (auto simp: segment_invalid_def)
qed simp

lemma segments_walk_iff: "segments_walk input ss \<longleftrightarrow> walk_from input 0 ss"
proof -
  have "(if i = 0 then 0 else previous_end ss i) = previous_end ss i" for i
    by (simp add: previous_end_def)
  then show ?thesis by (simp add: walk_from_iff segments_walk_def)
qed

lemma segment_edge_nodes:
  assumes "length input \<le> MAX_GRAPH_POSITION" "p \<le> length input" "\<not> segment_invalid input p s"
  shows "from_node (segment_edge p s) = p" "to_node (segment_edge p s) = seg_end s" "p < seg_end s"
  using assms by (auto simp: from_node_def to_node_def segment_edge_def segment_invalid_def unat_position)

lemma segment_edges_ascend:
  assumes "length input \<le> MAX_GRAPH_POSITION" "p \<le> length input" "walk_from input p ss"
  shows "sorted_wrt (\<lambda>a b. from_node a < from_node b) (segment_edges p ss) \<and>
    (\<forall>e \<in> set (segment_edges p ss). p \<le> from_node e \<and> from_node e < to_node e \<and> to_node e \<le> length input)"
  using assms(2,3)
proof (induction ss arbitrary: p)
  case (Cons s ss)
  then have valid: "\<not> segment_invalid input p s" "seg_end s \<le> length input"
    by (auto simp: segment_invalid_def)
  note nodes = segment_edge_nodes [OF assms(1) Cons.prems(1) valid(1)]
  show ?case
    using Cons.IH [of "seg_end s"] Cons.prems valid nodes by fastforce
qed simp

definition edges_below :: "edge list \<Rightarrow> nat \<Rightarrow> nat" where
  "edges_below edges n = length (takeWhile (\<lambda>e. from_node e < n) edges)"

lemma advance_cursor_eq: "c \<le> edges_below edges n \<Longrightarrow> advance_cursor edges n c = edges_below edges n"
proof (induction edges n c rule: advance_cursor.induct)
  case (1 edges n c)
  have le: "edges_below edges n \<le> length edges"
    by (simp add: edges_below_def length_takeWhile_le)
  show ?case
  proof (cases "c < edges_below edges n")
    case True
    then have "edges ! c \<in> set (takeWhile (\<lambda>e. from_node e < n) edges)" "c < length edges"
      using le nth_mem [of c "takeWhile (\<lambda>e. from_node e < n) edges"] by (auto simp: edges_below_def takeWhile_nth)
    then have "from_node (edges ! c) < n" "c < length edges"
      by (auto dest: set_takeWhileD)
    then show ?thesis
      using 1 True by (subst advance_cursor.simps) simp
  next
    case False
    then have "c = edges_below edges n" using 1(2) by simp
    moreover from this have "\<not> (c < length edges \<and> from_node (edges ! c) < n)"
      using nth_length_takeWhile [of "\<lambda>e. from_node e < n" edges] by (auto simp: edges_below_def)
    ultimately show ?thesis by (subst advance_cursor.simps) auto
  qed
qed

lemma edges_below_mono: "m \<le> n \<Longrightarrow> edges_below edges m \<le> edges_below edges n"
  by (induction edges) (auto simp: edges_below_def)

lemma exact_starts_fold:
  "fold (exact_starts_step edges) [0..<k] ([], 0) =
     (map (edges_below edges) [0..<k], if k = 0 then 0 else edges_below edges (k - 1))"
proof (induction k)
  case (Suc k)
  then show ?case
    using edges_below_mono [of "k - 1" k edges] by (auto simp: exact_starts_step_def advance_cursor_eq Let_def)
qed simp

lemma sorted_split_at:
  fixes f :: "'a \<Rightarrow> nat"
  assumes "sorted_wrt (\<lambda>a b. f a < f b) xs"
  shows "takeWhile (\<lambda>x. f x < n) xs = filter (\<lambda>x. f x < n) xs"
    "xs = filter (\<lambda>x. f x < n) xs @ filter (\<lambda>x. f x = n) xs @ filter (\<lambda>x. n < f x) xs"
proof -
  have rest: "(\<And>y. y \<in> set ys \<Longrightarrow> n \<le> f y) \<Longrightarrow> filter (\<lambda>y. f y < n) ys = []" for ys :: "'a list"
    by (fastforce simp: filter_empty_conv)
  show "takeWhile (\<lambda>x. f x < n) xs = filter (\<lambda>x. f x < n) xs"
    using assms
  proof (induction xs)
    case (Cons x xs)
    show ?case
    proof (cases "f x < n")
      case False
      then have "filter (\<lambda>y. f y < n) xs = []" using Cons.prems by (intro rest) fastforce
      then show ?thesis using False by simp
    qed (use Cons in simp)
  qed simp
  show "xs = filter (\<lambda>x. f x < n) xs @ filter (\<lambda>x. f x = n) xs @ filter (\<lambda>x. n < f x) xs"
    using assms
  proof (induction xs)
    case (Cons x xs)
    consider "f x < n" | "f x = n" | "n < f x" by linarith
    then show ?case
    proof cases
      case 1
      then show ?thesis using Cons by simp
    next
      case 2
      then have "filter (\<lambda>x. f x < n) xs = []" using Cons.prems by (intro rest) (auto simp: less_imp_le)
      then show ?thesis using Cons 2 by simp
    next
      case 3
      then have "filter (\<lambda>x. f x < n) xs = []" "filter (\<lambda>x. f x = n) xs = []"
        using Cons.prems by (fastforce simp: filter_empty_conv)+
      then show ?thesis using Cons 3 by simp
    qed
  qed simp
qed

lemma sorted_slice:
  assumes "sorted_wrt (\<lambda>a b. from_node a < from_node b) es"
  shows "take (edges_below es (Suc n) - edges_below es n) (drop (edges_below es n) es) = filter (\<lambda>e. from_node e = n) es"
proof -
  let ?lt = "filter (\<lambda>e. from_node e < n) es" and ?eq = "filter (\<lambda>e. from_node e = n) es"
  have below: "edges_below es m = length (filter (\<lambda>e. from_node e < m) es)" for m
    using sorted_split_at(1) [OF assms] by (simp add: edges_below_def)
  have "length (filter (\<lambda>e. from_node e < Suc n) es) = length ?lt + length ?eq"
    by (induction es) auto
  moreover have "take (length ?eq) (drop (length ?lt) es) = ?eq"
    by (subst (3) sorted_split_at(2) [OF assms, of n]) simp
  ultimately show ?thesis by (simp add: below)
qed

lemma exact_reach_fold:
  assumes "length input \<le> MAX_GRAPH_POSITION" "p \<le> length input" "walk_from input p ss"
    "length r = length input + 1" "r ! p" "c \<le> p"
  shows "case fold exact_reach_step (segment_edges p ss) (r, c) of (r', c') \<Rightarrow>
    length r' = length input + 1 \<and> (\<forall>n \<le> length input. r' ! n \<longleftrightarrow> r ! n \<or> n \<in> seg_end ` set ss) \<and>
    c' = (if ss = [] then c else seg_end (last ss))"
  using assms(2-)
proof (induction ss arbitrary: p r c)
  case (Cons s ss)
  then have valid: "\<not> segment_invalid input p s" "seg_end s \<le> length input"
    by (auto simp: segment_invalid_def)
  note nodes = segment_edge_nodes [OF assms(1) Cons.prems(1) valid(1)]
  have step: "exact_reach_step (segment_edge p s) (r, c) = (r[seg_end s := True], seg_end s)"
    using Cons.prems nodes by (simp add: exact_reach_step_def)
  show ?case
    using Cons.IH [of "seg_end s" "r[seg_end s := True]" "seg_end s"] Cons.prems valid
    by (auto simp: step nth_list_update split: if_splits)
qed simp

lemma build_exact_shape:
  assumes "length input \<le> MAX_GRAPH_POSITION" "segments_walk input ss"
  shows "\<exists>g. build_exact input ss = Inr g \<and> graph_input_len g = length input \<and> graph_edges g = segment_edges 0 ss \<and>
    graph_starts g = map (edges_below (segment_edges 0 ss)) [0..<length input + 2] \<and>
    length (graph_reachable g) = length input + 1 \<and>
    (\<forall>n \<le> length input. graph_reachable g ! n \<longleftrightarrow> n = 0 \<or> n \<in> seg_end ` set ss) \<and>
    graph_consumed g = (if ss = [] then 0 else seg_end (last ss))"
proof -
  let ?es = "segment_edges 0 ss" and ?N = "length input + 1"
  have walk: "walk_from input 0 ss" using assms(2) by (simp add: segments_walk_iff)
  have edges: "exact_edges input 0 0 ss = Inr ?es"
    using exact_edges_eq [OF assms(1), of 0 0 ss] walk by simp
  define start where "start = ((replicate ?N False)[0 := True], 0 :: nat)"
  obtain r c where rc: "fold exact_reach_step ?es start = (r, c)" by fastforce
  have inv: "length r = ?N" "\<forall>n \<le> length input. r ! n \<longleftrightarrow> n = 0 \<or> n \<in> seg_end ` set ss"
    "c = (if ss = [] then 0 else seg_end (last ss))"
    using exact_reach_fold [OF assms(1) _ walk, of "(replicate ?N False)[0 := True]" 0] rc
    by (auto simp: start_def nth_Cons')
  have "build_exact input ss = Inr \<lparr>graph_input_len = length input, graph_edges = ?es,
      graph_starts = map (edges_below ?es) [0..<?N + 1], graph_reachable = r, graph_consumed = c\<rparr>"
    using assms(1) edges
    unfolding build_exact_def Let_def exact_starts_fold prod.case start_def [symmetric] by (simp add: rc)
  then show ?thesis using inv by simp
qed

lemma build_exact_long:
  "MAX_GRAPH_POSITION < length input \<Longrightarrow>
   build_exact input ss = Inl (InputTooLong (length input) MAX_GRAPH_POSITION)"
  by (simp add: build_exact_def)

lemma build_exact_invalid:
  "length input \<le> MAX_GRAPH_POSITION \<Longrightarrow> \<not> segments_walk input ss \<Longrightarrow> build_exact input ss = Inl ExactSegmentsInvalid"
  using exact_edges_eq [of input 0 0 ss] by (simp add: build_exact_def segments_walk_iff)

lemma build_exact_Inr:
  assumes "build_exact input ss = Inr g"
  shows "length input \<le> MAX_GRAPH_POSITION" "segments_walk input ss" "graph_input_len g = length input"
    "graph_edges g = segment_edges 0 ss"
    "graph_starts g = map (edges_below (segment_edges 0 ss)) [0..<length input + 2]"
    "is_reachable g n \<longleftrightarrow> n = 0 \<or> n \<in> seg_end ` set ss"
    "graph_consumed g = (if ss = [] then 0 else seg_end (last ss))"
proof -
  show len: "length input \<le> MAX_GRAPH_POSITION" and walk: "segments_walk input ss"
    using assms build_exact_long [of input ss] build_exact_invalid [of input ss] by fastforce+
  have "\<forall>s \<in> set ss. seg_end s < Suc (length input)"
    using walk by (auto simp: segments_walk_def in_set_conv_nth less_Suc_eq_le)
  then show "graph_input_len g = length input"
    "graph_edges g = segment_edges 0 ss"
    "graph_starts g = map (edges_below (segment_edges 0 ss)) [0..<length input + 2]"
    "is_reachable g n \<longleftrightarrow> n = 0 \<or> n \<in> seg_end ` set ss"
    "graph_consumed g = (if ss = [] then 0 else seg_end (last ss))"
    using build_exact_shape [OF len walk] assms by (auto simp: is_reachable_def get_at_def)
qed

lemma build_exact_ascend:
  assumes "build_exact input ss = Inr g"
  shows "sorted_wrt (\<lambda>a b. from_node a < from_node b) (graph_edges g) \<and>
    (\<forall>e \<in> set (graph_edges g). from_node e < to_node e \<and> to_node e \<le> length input)"
  using segment_edges_ascend [OF build_exact_Inr(1) [OF assms], of 0 ss] build_exact_Inr(2) [OF assms]
  by (simp add: build_exact_Inr(4) [OF assms] segments_walk_iff)

lemma build_exact_outgoing:
  assumes "build_exact input ss = Inr g"
  shows "outgoing g n = filter (\<lambda>e. from_node e = n) (graph_edges g)"
proof (cases "n \<le> length input")
  case True
  then show ?thesis
    using sorted_slice [of "graph_edges g" n] build_exact_ascend [OF assms]
    by (simp add: outgoing_def get_at_def build_exact_Inr(4,5) [OF assms] del: upt_Suc)
next
  case False
  then have "filter (\<lambda>e. from_node e = n) (graph_edges g) = []"
    using build_exact_ascend [OF assms] by (fastforce simp: filter_empty_conv)
  then show ?thesis
    using False by (auto simp: outgoing_def get_at_def build_exact_Inr(5) [OF assms] simp del: upt_Suc)
qed

lemma segment_edges_nth:
  "i < length ss \<Longrightarrow> segment_edges p ss ! i = segment_edge (if i = 0 then p else previous_end ss i) (ss ! i)"
proof (induction ss arbitrary: p i)
  case (Cons s ss)
  then show ?case by (cases i) (auto simp: previous_end_Cons)
qed simp

lemma length_segment_edges [simp]: "length (segment_edges p ss) = length ss"
  by (induction ss arbitrary: p) auto

text \<open>The exact-mode graph accepts exactly the walks. Segments are accepted when each is a non-empty
  span inside the input, starts at or after the previous end, and only apostrophes lie between;
  anything else is \<open>ExactSegmentsInvalid\<close>. An accepted walk becomes one \<open>Exact\<close> edge per segment, from the
  previous segment's end to its own end, \<open>outgoing\<close> reads back the edges of a node, the reachable
  nodes are the start and the segment ends, and the last end is \<open>consumed\<close>.\<close>

theorem build_exact_spec:
  "(case build_exact input ss of
      Inl err \<Rightarrow> (if MAX_GRAPH_POSITION < length input then err = InputTooLong (length input) MAX_GRAPH_POSITION
                else \<not> segments_walk input ss \<and> err = ExactSegmentsInvalid)
    | Inr g \<Rightarrow> length input \<le> MAX_GRAPH_POSITION \<and> segments_walk input ss \<and>
        graph_edges g = map (\<lambda>i. segment_edge (previous_end ss i) (ss ! i)) [0..<length ss] \<and>
        (\<forall>n. outgoing g n = filter (\<lambda>e. from_node e = n) (graph_edges g)) \<and>
        (\<forall>n. is_reachable g n \<longleftrightarrow> n = 0 \<or> n \<in> seg_end ` set ss) \<and>
        graph_consumed g = (if ss = [] then 0 else seg_end (last ss)))"
proof (cases "build_exact input ss")
  case (Inl err)
  then show ?thesis
    using build_exact_long [of input ss] build_exact_shape [of input ss] build_exact_invalid [of input ss]
    by (cases "length input \<le> MAX_GRAPH_POSITION"; cases "segments_walk input ss") auto
next
  case (Inr g)
  have "segment_edges 0 ss = map (\<lambda>i. segment_edge (previous_end ss i) (ss ! i)) [0..<length ss]"
    by (rule nth_equalityI) (auto simp: segment_edges_nth previous_end_def)
  then show ?thesis
    using build_exact_Inr [OF Inr] build_exact_outgoing [OF Inr] by (simp add: Inr)
qed

end
