(* ===== verification/FewestKeys.thy ===== *)
theory FewestKeys
  imports SegmentGraph
begin

text \<open>
  The fewest-keys path of \<open>crates/oxpinyin-core/src/graph.rs\<close>: \<open>fewest_keys\<close> is a dynamic program over
  packed 64-bit ranks. What it relies on of a graph is the locale \<open>graph_builder\<close>; both builders
  interpret it, and the optimality of the selected path is proved once inside it.
\<close>

section \<open>Paths and their cost\<close>

fun edge_path :: "segment_graph \<Rightarrow> bool \<Rightarrow> nat \<Rightarrow> edge list \<Rightarrow> nat \<Rightarrow> bool" where
  "edge_path g al m [] n \<longleftrightarrow> m = n"
| "edge_path g al m (e # es) n \<longleftrightarrow>
     e \<in> set (outgoing g m) \<and> edge_allowed al e \<and> edge_path g al (to_node e) es n"

definition path_distance :: "edge list \<Rightarrow> nat" where
  "path_distance es = sum_list (map (\<lambda>e. unat (edge_distance e)) es)"

definition path_rank :: "edge list \<Rightarrow> nat" where
  "path_rank es = length es * 2 ^ 32 + path_distance es"

text \<open>The order of the selection: fewer keys, then less total correction distance.\<close>

definition no_worse :: "edge list \<Rightarrow> edge list \<Rightarrow> bool" where
  "no_worse es fs \<longleftrightarrow>
     length es < length fs \<or> length es = length fs \<and> path_distance es \<le> path_distance fs"

lemma path_rank_simps [simp]:
  "path_rank [] = 0" "path_rank (es @ [e]) = path_rank es + 2 ^ 32 + unat (edge_distance e)"
  by (simp_all add: path_rank_def path_distance_def)

lemma edge_path_snoc:
  "edge_path g al m (es @ [e]) n \<longleftrightarrow>
     (\<exists>p. edge_path g al m es p \<and> e \<in> set (outgoing g p) \<and> edge_allowed al e \<and> to_node e = n)"
  by (induction es arbitrary: m) auto

lemma no_worse_rank:
  assumes "path_rank es \<le> path_rank fs" "path_distance es < 2 ^ 32" "path_distance fs < 2 ^ 32"
  shows "no_worse es fs"
  using assms by (auto simp: no_worse_def path_rank_def)

section \<open>Relaxing the edges of a node\<close>

definition candidate_rank :: "u64 \<Rightarrow> edge \<Rightarrow> u64" where
  "candidate_rank rank e = rank + ONE_KEY + ucast (edge_distance e)"

text \<open>What relaxing the edges \<open>es\<close> of one node with rank \<open>b\<close> does to the steps.\<close>

definition relaxed :: "nat \<Rightarrow> u64 \<Rightarrow> edge list \<Rightarrow> steps \<Rightarrow> steps \<Rightarrow> bool" where
  "relaxed bound b es st st' \<longleftrightarrow> length st' = length st \<and>
     (\<forall>t. t \<notin> to_node ` set es \<longrightarrow> st' ! t = st ! t) \<and>
     (\<forall>t \<le> bound. \<forall>r e. st' ! t = Some (r, e) \<longrightarrow>
        st ! t = Some (r, e) \<or> e \<in> set es \<and> to_node e = t \<and> r = candidate_rank b e) \<and>
     (\<forall>e \<in> set es. to_node e \<le> bound \<longrightarrow> (\<exists>r e'. st' ! to_node e = Some (r, e') \<and> r \<le> candidate_rank b e)) \<and>
     (\<forall>t \<le> bound. \<forall>r e. st ! t = Some (r, e) \<longrightarrow> (\<exists>r' e'. st' ! t = Some (r', e') \<and> r' \<le> r))"

lemma relax_edge_relaxed: "length st = bound + 1 \<Longrightarrow> relaxed bound b [e] st (relax_edge bound b e st)"
  by (auto simp: relaxed_def relax_edge_def Let_def candidate_rank_def nth_list_update split: option.splits)

lemma relaxed_trans:
  assumes "relaxed bound b [e] st st1" "relaxed bound b es st1 st2"
  shows "relaxed bound b (e # es) st st2"
proof -
  have mono1: "\<exists>r' f'. st1 ! t = Some (r', f') \<and> r' \<le> r" if "t \<le> bound" "st ! t = Some (r, f)" for t r f
    using that assms(1) unfolding relaxed_def by blast
  have mono2: "\<exists>r' f'. st2 ! t = Some (r', f') \<and> r' \<le> r" if "t \<le> bound" "st1 ! t = Some (r, f)" for t r f
    using that assms(2) unfolding relaxed_def by blast
  have mono: "\<exists>r' f'. st2 ! t = Some (r', f') \<and> r' \<le> r" if "t \<le> bound" "st ! t = Some (r, f)" for t r f
    using mono1 [OF that] mono2 [OF that(1)] order_trans by blast
  have offer: "\<exists>r f'. st2 ! to_node f = Some (r, f') \<and> r \<le> candidate_rank b f"
    if "f \<in> set (e # es)" "to_node f \<le> bound" for f
  proof -
    note prem = that
    show ?thesis
  proof (cases "f \<in> set es")
    case True
    then show ?thesis using prem assms(2) unfolding relaxed_def by blast
  next
    case False
    then have "f = e" using prem(1) by simp
    then obtain r f' where "st1 ! to_node f = Some (r, f')" "r \<le> candidate_rank b f"
      using prem(2) assms(1) unfolding relaxed_def by (meson list.set_intros(1))
    then show ?thesis using mono2 [OF prem(2)] order_trans by blast
  qed
  qed
  have source: "st ! t = Some (r, f) \<or> f \<in> set (e # es) \<and> to_node f = t \<and> r = candidate_rank b f"
    if "t \<le> bound" "st2 ! t = Some (r, f)" for t r f
  proof -
    have "st1 ! t = Some (r, f) \<or> f \<in> set es \<and> to_node f = t \<and> r = candidate_rank b f"
      using that assms(2) unfolding relaxed_def by blast
    moreover have "st1 ! t = Some (r, f) \<Longrightarrow> st ! t = Some (r, f) \<or> f = e \<and> to_node f = t \<and> r = candidate_rank b f"
      using that(1) assms(1) unfolding relaxed_def by auto
    ultimately show ?thesis by auto
  qed
  have "length st2 = length st" "\<forall>t. t \<notin> to_node ` set (e # es) \<longrightarrow> st2 ! t = st ! t"
    using assms unfolding relaxed_def by auto
  then show ?thesis
    unfolding relaxed_def using mono offer source by blast
qed

lemma relax_fold: "length st = bound + 1 \<Longrightarrow> relaxed bound b es st (fold (relax_edge bound b) es st)"
proof (induction es arbitrary: st)
  case Nil
  show ?case by (auto simp: relaxed_def)
next
  case (Cons e es)
  have "length (relax_edge bound b e st) = bound + 1"
    using relax_edge_relaxed [OF Cons.prems] Cons.prems by (simp add: relaxed_def)
  then show ?case
    using relaxed_trans [OF relax_edge_relaxed [OF Cons.prems] Cons.IH] by simp
qed

section \<open>The interface of a built graph\<close>

locale graph_builder =
  fixes builds :: "segment_graph \<Rightarrow> bool"
  assumes built_forward: "builds g \<Longrightarrow> e \<in> set (outgoing g n) \<Longrightarrow>
      from_node e = n \<and> n < to_node e \<and> edge_distance e \<le> 1"
    and built_start: "builds g \<Longrightarrow> is_reachable g 0"
    and built_closed: "builds g \<Longrightarrow> is_reachable g n \<Longrightarrow> e \<in> set (outgoing g n) \<Longrightarrow> is_reachable g (to_node e)"
    and built_consumed: "builds g \<Longrightarrow> is_reachable g n \<Longrightarrow> n \<le> graph_consumed g"
    and built_limit: "builds g \<Longrightarrow> graph_consumed g \<le> MAX_GRAPH_POSITION"

text \<open>The rank a node hands to its edges, and the invariant of the sweep before node \<open>k\<close>: every stored
  step is an allowed edge whose rank is the rank of its source plus one key and its distance, and no
  edge relaxed so far offers less.\<close>

definition node_rank :: "steps \<Rightarrow> nat \<Rightarrow> u64 option" where
  "node_rank st n = (if n = 0 then Some 0 else map_option fst (st ! n))"

definition step_sound :: "segment_graph \<Rightarrow> bool \<Rightarrow> nat \<Rightarrow> steps \<Rightarrow> nat \<Rightarrow> bool" where
  "step_sound g al k st t \<longleftrightarrow> (\<forall>r e. st ! t = Some (r, e) \<longrightarrow>
     e \<in> set (outgoing g (from_node e)) \<and> edge_allowed al e \<and> to_node e = t \<and> from_node e < k \<and>
     (\<exists>b. node_rank st (from_node e) = Some b \<and> unat r = unat b + 2 ^ 32 + unat (edge_distance e)) \<and>
     unat r \<le> t * (2 ^ 32 + 1))"

definition step_least :: "segment_graph \<Rightarrow> bool \<Rightarrow> nat \<Rightarrow> steps \<Rightarrow> bool" where
  "step_least g al k st \<longleftrightarrow> (\<forall>n < k. \<forall>e \<in> set (outgoing g n). \<forall>b.
     edge_allowed al e \<longrightarrow> node_rank st n = Some b \<longrightarrow> to_node e \<le> graph_consumed g \<longrightarrow>
     (\<exists>r e'. st ! to_node e = Some (r, e') \<and> unat r \<le> unat b + 2 ^ 32 + unat (edge_distance e)))"

definition steps_inv :: "segment_graph \<Rightarrow> bool \<Rightarrow> nat \<Rightarrow> steps \<Rightarrow> bool" where
  "steps_inv g al k st \<longleftrightarrow> length st = graph_consumed g + 1 \<and> st ! 0 = None \<and>
     (\<forall>t \<le> graph_consumed g. step_sound g al k st t) \<and> step_least g al k st"

lemma candidate_rank_unat:
  assumes "unat b \<le> k * (2 ^ 32 + 1)" "k < MAX_GRAPH_POSITION" "edge_distance e \<le> 1"
  shows "unat (candidate_rank b e) = unat b + 2 ^ 32 + unat (edge_distance e)"
proof -
  have d: "unat (edge_distance e) \<le> 1" "unat (ucast (edge_distance e) :: u64) = unat (edge_distance e)"
    using assms(3) unsigned_less [of "edge_distance e"]
    by (simp_all add: word_le_nat_alt unsigned_ucast_eq take_bit_nat_eq_self)
  have "unat b + 2 ^ 32 + unat (edge_distance e) < 2 ^ 64"
    using assms(1,2) d by (simp add: MAX_GRAPH_POSITION_def)
  then show ?thesis
    using d by (simp add: candidate_rank_def ONE_KEY_def unat_word_ariths push_bit_eq_mult)
qed

lemma step_sound_node_rank:
  assumes "steps_inv g al k st" "node_rank st n = Some b" "n \<le> graph_consumed g"
  shows "unat b \<le> n * (2 ^ 32 + 1)"
  using assms by (fastforce simp: steps_inv_def step_sound_def node_rank_def split: if_splits)

lemma relax_node_rank:
  "relax_node g al n st = (case node_rank st n of None \<Rightarrow> st
     | Some b \<Rightarrow> fold (relax_edge (graph_consumed g) b) (filter (edge_allowed al) (outgoing g n)) st)"
  by (simp add: relax_node_def node_rank_def)

context graph_builder
begin

lemma relax_node_inv:
  assumes g: "builds g" and inv: "steps_inv g al k st" and k: "k < graph_consumed g"
  shows "steps_inv g al (Suc k) (relax_node g al k st)"
proof (cases "node_rank st k")
  case None
  have "step_sound g al (Suc k) st t" if "step_sound g al k st t" for t
    using that by (auto simp: step_sound_def)
  then show ?thesis
    using inv None by (auto simp: relax_node_rank steps_inv_def step_least_def less_Suc_eq)
next
  case (Some b)
  let ?es = "filter (edge_allowed al) (outgoing g k)"
  define st' where "st' = fold (relax_edge (graph_consumed g) b) ?es st"
  have len: "length st = graph_consumed g + 1" using inv by (simp add: steps_inv_def)
  have rel: "relaxed (graph_consumed g) b ?es st st'"
    unfolding st'_def by (rule relax_fold [OF len])
  have es: "from_node e = k" "k < to_node e" "edge_distance e \<le> 1" "edge_allowed al e" "e \<in> set (outgoing g k)"
    if "e \<in> set ?es" for e
    using that built_forward [OF g, of e k] by auto
  have b: "unat b \<le> k * (2 ^ 32 + 1)"
    using step_sound_node_rank [OF inv Some] k by simp
  have cand: "unat (candidate_rank b e) = unat b + 2 ^ 32 + unat (edge_distance e)" "unat (edge_distance e) \<le> 1"
    if "e \<in> set ?es" for e
    using candidate_rank_unat [OF b _ es(3) [OF that]] es(3) [OF that] k built_limit [OF g] by (auto simp: word_le_nat_alt)
  have keep: "st' ! n = st ! n" if "n \<le> k" for n
    using rel that es(2) unfolding relaxed_def by (metis imageE linorder_not_less)
  then have rank: "node_rank st' n = node_rank st n" if "n \<le> k" for n
    using that by (simp add: node_rank_def)
  have sound: "step_sound g al (Suc k) st' t" if t: "t \<le> graph_consumed g" for t
    unfolding step_sound_def
  proof (intro allI impI)
    fix r e assume re: "st' ! t = Some (r, e)"
    let ?P = "\<lambda>j. e \<in> set (outgoing g (from_node e)) \<and> edge_allowed al e \<and> to_node e = t \<and> from_node e < j \<and>
       (\<exists>b. node_rank st' (from_node e) = Some b \<and> unat r = unat b + 2 ^ 32 + unat (edge_distance e)) \<and>
       unat r \<le> t * (2 ^ 32 + 1)"
    consider "st ! t = Some (r, e)" | "e \<in> set ?es" "to_node e = t" "r = candidate_rank b e"
      using rel t re unfolding relaxed_def by blast
    then show "?P (Suc k)"
    proof cases
      case 1
      then have "step_sound g al k st t" using inv t by (simp add: steps_inv_def)
      then show ?thesis using 1 rank unfolding step_sound_def by fastforce
    next
      case 2
      have "unat r \<le> Suc k * (2 ^ 32 + 1)" using cand [OF 2(1)] b 2(3) by simp
      also have "\<dots> \<le> t * (2 ^ 32 + 1)" using es(2) [OF 2(1)] 2(2) by (intro mult_right_mono) auto
      finally show ?thesis using 2 es [OF 2(1)] cand [OF 2(1)] rank [of k] Some by simp
    qed
  qed
  have "step_least g al (Suc k) st'"
    unfolding step_least_def
  proof (intro allI impI ballI)
    fix n e c assume n: "n < Suc k" and e: "e \<in> set (outgoing g n)" "edge_allowed al e" "to_node e \<le> graph_consumed g"
      and c: "node_rank st' n = Some c"
    show "\<exists>r e'. st' ! to_node e = Some (r, e') \<and> unat r \<le> unat c + 2 ^ 32 + unat (edge_distance e)"
    proof (cases "n = k")
      case True
      then have "e \<in> set ?es" "c = b" using e c rank [of k] Some by auto
      then show ?thesis
        using rel e(3) cand [of e] unfolding relaxed_def word_le_nat_alt by metis
    next
      case False
      then have "n < k" "node_rank st n = Some c" using n c rank by auto
      then obtain r e' where "st ! to_node e = Some (r, e')" "unat r \<le> unat c + 2 ^ 32 + unat (edge_distance e)"
        using inv e unfolding steps_inv_def step_least_def by blast
      moreover from this obtain r' f where "st' ! to_node e = Some (r', f)" "unat r' \<le> unat r"
        using rel e(3) unfolding relaxed_def word_le_nat_alt by blast
      ultimately show ?thesis by auto
    qed
  qed
  moreover have "st' ! 0 = None" "length st' = graph_consumed g + 1"
    using keep [of 0] inv len rel by (auto simp: steps_inv_def relaxed_def)
  ultimately have "steps_inv g al (Suc k) st'"
    using sound by (simp add: steps_inv_def)
  then show ?thesis by (simp add: relax_node_rank Some st'_def)
qed

lemma steps_final:
  assumes "builds g"
  shows "steps_inv g al (graph_consumed g) (fold (relax_node g al) [0..<graph_consumed g] (replicate (graph_consumed g + 1) None))"
proof -
  have "steps_inv g al k (fold (relax_node g al) [0..<k] (replicate (graph_consumed g + 1) None))"
    if "k \<le> graph_consumed g" for k
    using that
  proof (induction k)
    case 0
    have "(None # replicate (graph_consumed g) (None :: (u64 \<times> edge) option)) ! t = None" if "t \<le> graph_consumed g" for t
      using that by (cases t) auto
    then show ?case by (simp add: steps_inv_def step_sound_def step_least_def)
  next
    case (Suc k)
    then show ?case using relax_node_inv [OF assms, of al k] by simp
  qed
  then show ?thesis by blast
qed

lemma path_reachable:
  assumes g: "builds g"
  shows "edge_path g al m es n \<Longrightarrow> is_reachable g m \<Longrightarrow> is_reachable g n"
proof (induction es arbitrary: m)
  case (Cons e es)
  then show ?case using built_closed [OF g] by simp blast
qed simp

lemma path_from_start: "builds g \<Longrightarrow> edge_path g al 0 es n \<Longrightarrow> n \<le> graph_consumed g"
  using path_reachable built_start built_consumed by blast

lemma path_measures:
  assumes g: "builds g"
  shows "edge_path g al m es n \<Longrightarrow> m + length es \<le> n \<and> path_distance es \<le> length es"
proof (induction es arbitrary: m)
  case (Cons e es)
  then have "m < to_node e" "unat (edge_distance e) \<le> 1"
    using built_forward [OF g, of e m] by (auto simp: word_le_nat_alt)
  then show ?case using Cons.IH [of "to_node e"] Cons.prems by (auto simp: path_distance_def)
qed (simp add: path_distance_def)

lemma walk_back_path:
  assumes g: "builds g" and inv: "steps_inv g al k st"
  shows "t \<le> graph_consumed g \<Longrightarrow> node_rank st t = Some b \<Longrightarrow>
    \<exists>path. (\<forall>acc. walk_back st t acc = Some (acc @ rev path)) \<and> edge_path g al 0 path t \<and> path_rank path = unat b"
proof (induction t arbitrary: b rule: less_induct)
  case (less t)
  show ?case
  proof (cases "t = 0")
    case True
    then show ?thesis
      using less.prems by (intro exI [of _ "[]"]) (simp add: node_rank_def walk_back.simps)
  next
    case False
    then obtain e where e: "st ! t = Some (b, e)" using less.prems by (auto simp: node_rank_def)
    then obtain c where sound: "e \<in> set (outgoing g (from_node e))" "edge_allowed al e" "to_node e = t"
        "node_rank st (from_node e) = Some c" "unat b = unat c + 2 ^ 32 + unat (edge_distance e)"
      using inv less.prems(1) unfolding steps_inv_def step_sound_def by blast
    have "from_node e < t" using built_forward [OF g sound(1)] sound(3) by simp
    then obtain path where path: "\<forall>acc. walk_back st (from_node e) acc = Some (acc @ rev path)"
        "edge_path g al 0 path (from_node e)" "path_rank path = unat c"
      using less.IH [OF _ _ sound(4)] less.prems(1) by auto
    have "walk_back st t acc = Some (acc @ rev (path @ [e]))" for acc
      using False e path(1) by (subst walk_back.simps) simp
    moreover have "edge_path g al 0 (path @ [e]) t"
      using path(2) sound(1-3) by (auto simp: edge_path_snoc)
    ultimately show ?thesis
      using path(3) sound(5) by (intro exI [of _ "path @ [e]"]) simp
  qed
qed

lemma least_path:
  assumes g: "builds g" and inv: "steps_inv g al (graph_consumed g) st"
  shows "edge_path g al 0 es t \<Longrightarrow> \<exists>b. node_rank st t = Some b \<and> unat b \<le> path_rank es"
proof (induction es arbitrary: t rule: rev_induct)
  case Nil
  then show ?case by (simp add: node_rank_def)
next
  case (snoc e es)
  then obtain p where p: "edge_path g al 0 es p" "e \<in> set (outgoing g p)" "edge_allowed al e" "to_node e = t"
    by (auto simp: edge_path_snoc)
  then obtain b where b: "node_rank st p = Some b" "unat b \<le> path_rank es" using snoc.IH by blast
  have t: "t \<le> graph_consumed g" "p < t"
    using path_from_start [OF g snoc.prems] built_forward [OF g p(2)] p(4) by auto
  have least: "step_least g al (graph_consumed g) st"
    using inv by (simp add: steps_inv_def)
  obtain r e' where "st ! t = Some (r, e')" "unat r \<le> unat b + 2 ^ 32 + unat (edge_distance e)"
    using least [unfolded step_least_def, rule_format, of p e b] p(2-4) b(1) t by auto
  then show ?case
    using t b(2) by (simp add: node_rank_def)
qed

lemma furthest_step_spec:
  assumes "st ! 0 = None"
  shows "(furthest_step st n = 0 \<or> st ! furthest_step st n \<noteq> None) \<and> furthest_step st n \<le> n \<and>
    (\<forall>m. furthest_step st n < m \<and> m \<le> n \<longrightarrow> st ! m = None)"
  by (induction n) (auto simp: le_Suc_eq)

lemma fewest_keys_optimal:
  assumes g: "builds g"
  shows "\<exists>path n. fewest_keys g al = Some path \<and> edge_path g al 0 path n \<and>
    (\<forall>es m. edge_path g al 0 es m \<longrightarrow> m < n \<or> m = n \<and> no_worse path es)"
proof -
  define st where "st = fold (relax_node g al) [0..<graph_consumed g] (replicate (graph_consumed g + 1) None)"
  define n where "n = furthest_step st (graph_consumed g)"
  have inv: "steps_inv g al (graph_consumed g) st"
    unfolding st_def by (rule steps_final [OF g])
  have far: "n = 0 \<or> st ! n \<noteq> None" "n \<le> graph_consumed g" "\<And>m. n < m \<Longrightarrow> m \<le> graph_consumed g \<Longrightarrow> st ! m = None"
    using furthest_step_spec [of st "graph_consumed g"] inv by (auto simp: n_def steps_inv_def)
  obtain b where b: "node_rank st n = Some b"
    using far(1) by (cases "n = 0") (auto simp: node_rank_def)
  obtain path where path: "\<And>acc. walk_back st n acc = Some (acc @ rev path)" "edge_path g al 0 path n" "path_rank path = unat b"
    using walk_back_path [OF g inv far(2) b] by blast
  have "fewest_keys g al = Some path"
    unfolding fewest_keys_def Let_def st_def [symmetric] n_def [symmetric] path(1) by simp
  moreover have "m < n \<or> m = n \<and> no_worse path es" if es: "edge_path g al 0 es m" for es m
  proof -
    obtain c where c: "node_rank st m = Some c" "unat c \<le> path_rank es" using least_path [OF g inv es] by blast
    have m: "m \<le> graph_consumed g" by (rule path_from_start [OF g es])
    then have "m \<le> n" using c(1) far(3) [of m] by (cases "m \<le> n") (auto simp: node_rank_def)
    moreover have "no_worse path es" if "m = n"
    proof (rule no_worse_rank)
      show "path_rank path \<le> path_rank es" using that b c path(3) by simp
      show "path_distance path < 2 ^ 32" "path_distance es < 2 ^ 32"
        using path_measures [OF g path(2)] path_measures [OF g es] m far(2) built_limit [OF g]
        by (auto simp: MAX_GRAPH_POSITION_def)
    qed
    ultimately show ?thesis by auto
  qed
  ultimately show ?thesis using path(2) by blast
qed

end

section \<open>Both builders provide it\<close>

interpretation parsed: graph_builder "\<lambda>g. \<exists>input opts. build_with_options input opts = Inr g"
proof (unfold_locales, goal_cases)
  case (1 g e n)
  then obtain input opts where b: "build_with_options input opts = Inr g" by blast
  then show ?case
    using 1(2) node_edges_forward [OF build_shape(1) [OF b], of e opts n] by (simp add: build_outgoing [OF b])
next
  case (2 g)
  then show ?case using build_reached(1) reached_start by blast
next
  case (3 g n e)
  then show ?case using build_reached(1) reached_edge by blast
next
  case (4 g n)
  then show ?case using build_reached(1,3) by blast
next
  case (5 g)
  then obtain input opts where b: "build_with_options input opts = Inr g" by blast
  have "graph_consumed g \<le> length input"
    using node_edges_forward [OF build_shape(1) [OF b]]
    by (intro reached_bound [OF build_reached(2) [OF b]]) (auto simp: build_outgoing [OF b])
  then show ?case using build_shape(1) [OF b] by simp
qed

lemma walk_from_last:
  "walk_from input p ss \<Longrightarrow> s \<in> set ss \<Longrightarrow> p \<le> seg_end s \<and> seg_end s \<le> seg_end (last ss)"
proof (induction ss arbitrary: p s)
  case (Cons x xs)
  have "p \<le> seg_end x" "walk_from input (seg_end x) xs"
    using Cons.prems by (auto simp: segment_invalid_def)
  then show ?case
    using Cons.IH [of "seg_end x" s] Cons.IH [of "seg_end x" "last xs"] Cons.prems(2) by auto
qed simp

lemma exact_edge_to:
  assumes "build_exact input ss = Inr g" "e \<in> set (graph_edges g)"
  shows "to_node e \<in> seg_end ` set ss \<and> edge_distance e = 0"
proof -
  note shape = build_exact_Inr [OF assms(1)]
  obtain i where i: "i < length ss" "e = segment_edge (previous_end ss i) (ss ! i)"
    using assms(2) segment_edges_nth [of _ ss 0]
    by (auto simp: shape(4) in_set_conv_nth previous_end_def split: if_splits)
  then have "seg_end (ss ! i) \<le> MAX_GRAPH_POSITION"
    using shape(1,2) by (auto simp: segments_walk_def)
  then show ?thesis
    using i by (auto simp: segment_edge_def to_node_def unat_position)
qed

interpretation exact: graph_builder "\<lambda>g. \<exists>input ss. build_exact input ss = Inr g"
proof (unfold_locales, goal_cases)
  case (1 g e n)
  then obtain input ss where b: "build_exact input ss = Inr g" by blast
  then show ?case
    using 1 build_exact_outgoing [OF b] build_exact_ascend [OF b] exact_edge_to [OF b] by auto
next
  case (2 g)
  then show ?case using build_exact_Inr(6) by blast
next
  case (3 g n e)
  then obtain input ss where b: "build_exact input ss = Inr g" by blast
  then show ?case
    using 3 build_exact_outgoing [OF b] exact_edge_to [OF b] build_exact_Inr(6) [OF b] by auto
next
  case (4 g n)
  then obtain input ss where b: "build_exact input ss = Inr g" by blast
  then show ?case
    using 4(2) build_exact_Inr(6,7) [OF b] walk_from_last [of input 0 ss] build_exact_Inr(2) [OF b]
    by (auto simp: segments_walk_iff)
next
  case (5 g)
  then obtain input ss where b: "build_exact input ss = Inr g" by blast
  have "\<forall>s \<in> set ss. seg_end s \<le> length input"
    using build_exact_Inr(2) [OF b] by (auto simp: segments_walk_def in_set_conv_nth)
  then have "graph_consumed g \<le> length input"
    using build_exact_Inr(7) [OF b] by (cases "ss = []") auto
  then show ?case
    using build_exact_Inr(1) [OF b] by simp
qed

section \<open>Properties\<close>

text \<open>C2: \<open>fewest_keys\<close> always returns, and returns an optimal path of a parsed graph. The edges it
  selects are a path from byte zero under the incomplete-edge filter; no filtered path reaches
  further, and among those that reach as far none has fewer keys, or as many keys and a smaller
  total correction distance. The packed 64-bit rank never overflows.\<close>

theorem fewest_keys_spec:
  assumes "build_with_options input opts = Inr g"
  shows "\<exists>path n. fewest_keys g al = Some path \<and> edge_path g al 0 path n \<and> n \<le> graph_consumed g \<and>
    (\<forall>es m. edge_path g al 0 es m \<longrightarrow> m < n \<or> m = n \<and> no_worse path es)"
  using parsed.fewest_keys_optimal [of g al] parsed.path_from_start [of g al] assms by blast

theorem fewest_keys_spec_witness:
  "\<exists>g path n. build_with_options [0x6e, 0x69] 0 = Inr g \<and> fewest_keys g True = Some path \<and> edge_path g True 0 path n"
proof -
  obtain g where g: "build_with_options [0x6e, 0x69] 0 = Inr g"
    using build_ok [of "[0x6e, 0x69]" 0] by (auto simp: MAX_GRAPH_POSITION_def)
  show ?thesis using fewest_keys_spec [OF g, of True] g by blast
qed

lemma exact_outgoing_single:
  assumes "build_exact input ss = Inr g" "e \<in> set (outgoing g n)" "f \<in> set (outgoing g n)"
  shows "e = f"
proof -
  have "sorted_wrt (<) (map from_node (graph_edges g))"
    using build_exact_ascend [OF assms(1)] by (simp add: sorted_wrt_map)
  then have "distinct (map from_node (graph_edges g))"
    using strict_sorted_iff by blast
  then show ?thesis
    using assms(2,3) build_exact_outgoing [OF assms(1)] by (auto simp: distinct_map inj_on_def)
qed

lemma exact_path_unique:
  assumes "build_exact input ss = Inr g"
  shows "edge_path g al m es n \<Longrightarrow> edge_path g al' m fs n \<Longrightarrow> es = fs"
proof (induction es arbitrary: m fs)
  case Nil
  then show ?case using exact.path_measures [of g al' m fs n] assms by auto
next
  case (Cons e es)
  then show ?case
    using exact.path_measures [of g al m "e # es" n] assms exact_outgoing_single [OF assms, of e m]
    by (cases fs) auto
qed

lemma segment_edges_path:
  assumes len: "length input \<le> MAX_GRAPH_POSITION"
    and out: "\<And>e. e \<in> set (segment_edges p ss) \<Longrightarrow> e \<in> set (outgoing g (from_node e))"
  shows "p \<le> length input \<Longrightarrow> walk_from input p ss \<Longrightarrow>
    edge_path g al p (segment_edges p ss) (if ss = [] then p else seg_end (last ss))"
  using out
proof (induction ss arbitrary: p)
  case (Cons s ss)
  then have valid: "\<not> segment_invalid input p s" "seg_end s \<le> length input"
    by (auto simp: segment_invalid_def)
  note nodes = segment_edge_nodes [OF len Cons.prems(1) valid(1)]
  have "segment_edge p s \<in> set (outgoing g p)"
    using Cons.prems(3) [of "segment_edge p s"] nodes by simp
  moreover have "edge_allowed al (segment_edge p s)"
    by (simp add: edge_allowed_def segment_edge_def)
  ultimately show ?case
    using Cons.IH [of "seg_end s"] Cons.prems(2,3) valid(2) nodes by auto
qed simp

text \<open>Exact mode decodes the segments it was given. Whatever the filter, the fewest-keys path of an
  exact graph is the edges of all the segments, in order: pre-parsed keys are never re-segmented.\<close>

theorem exact_fewest_keys:
  assumes "build_exact input ss = Inr g"
  shows "fewest_keys g al = Some (graph_edges g) \<and> map edge_key (graph_edges g) = map seg_key ss"
proof -
  note shape = build_exact_Inr [OF assms]
  have walk: "edge_path g al 0 (graph_edges g) (graph_consumed g)"
    using segment_edges_path [OF shape(1), of 0 ss g al] shape(2) build_exact_outgoing [OF assms]
    by (auto simp: shape(4,7) segments_walk_iff)
  obtain path n where path: "fewest_keys g al = Some path" "edge_path g al 0 path n"
      "\<And>es m. edge_path g al 0 es m \<Longrightarrow> m < n \<or> m = n \<and> no_worse path es"
    using exact.fewest_keys_optimal [of g al] assms by blast
  have "n = graph_consumed g"
    using path(3) [OF walk] exact.path_from_start [OF _ path(2)] assms by fastforce
  then have "path = graph_edges g"
    using exact_path_unique [OF assms path(2)] walk by simp
  moreover have "map edge_key (segment_edges p ss) = map seg_key ss" for p
    by (induction ss arbitrary: p) (auto simp: segment_edge_def)
  ultimately show ?thesis using path(1) by (simp add: shape(4))
qed

lemma fewest_keys_parse_complete:
  assumes "build pinyin = Inr g" "\<And>es m. edge_path g False 0 es m \<longleftrightarrow> es = [] \<and> m = 0 \<or> es = [e] \<and> m = to_node e"
  shows "fewest_keys_parse pinyin = Some (Some [edge_key e])"
proof -
  have g: "\<exists>input opts. build_with_options input opts = Inr g" using assms(1) by (auto simp: build_def)
  have one: "edge_path g False 0 [e] (to_node e)" using assms(2) by blast
  then have "e \<in> set (outgoing g 0)" by simp
  then have "0 < to_node e" using parsed.built_forward [OF g] by blast
  obtain path n where path: "fewest_keys g False = Some path" "edge_path g False 0 path n"
      "\<And>es m. edge_path g False 0 es m \<Longrightarrow> m < n \<or> m = n \<and> no_worse path es"
    using parsed.fewest_keys_optimal [OF g, of False] by blast
  have "n \<noteq> 0" using path(3) [OF one] \<open>0 < to_node e\<close> by auto
  then have "path = [e]" using path(2) assms(2) by simp
  then show ?thesis using assms(1) path(1) by (simp add: fewest_keys_parse_def)
qed

text \<open>C38: \<open>FewestKeys::parse\<close> always returns. It answers \<open>None\<close> exactly for an input past
  \<open>MAX_GRAPH_POSITION\<close>, or when something of the input is reachable and no complete key leaves byte
  zero; otherwise the keys of an optimal complete-key path, which need not reach the furthest
  reachable node.\<close>

theorem fewest_keys_parse_spec:
  "\<exists>r. fewest_keys_parse pinyin = Some r \<and>
     (case build pinyin of
        Inl _ \<Rightarrow> r = None \<and> MAX_GRAPH_POSITION < length pinyin
      | Inr g \<Rightarrow> \<exists>path n. fewest_keys g False = Some path \<and> edge_path g False 0 path n \<and>
          (\<forall>es m. edge_path g False 0 es m \<longrightarrow> m < n \<or> m = n \<and> no_worse path es) \<and>
          (r = None \<longleftrightarrow> 0 < graph_consumed g \<and> (\<forall>e \<in> set (outgoing g 0). edge_kind e = Incomplete)) \<and>
          (r \<noteq> None \<longrightarrow> r = Some (map edge_key path)))"
proof (cases "build pinyin")
  case (Inl err)
  then have "MAX_GRAPH_POSITION < length pinyin"
    using build_ok [of pinyin 0] by (auto simp: build_def)
  then show ?thesis using Inl by (simp add: fewest_keys_parse_def)
next
  case (Inr g)
  then have g: "\<exists>input opts. build_with_options input opts = Inr g" by (auto simp: build_def)
  obtain path n where path: "fewest_keys g False = Some path" "edge_path g False 0 path n"
      "\<And>es m. edge_path g False 0 es m \<Longrightarrow> m < n \<or> m = n \<and> no_worse path es"
    using parsed.fewest_keys_optimal [OF g, of False] by blast
  have "path = [] \<longleftrightarrow> (\<forall>e \<in> set (outgoing g 0). edge_kind e = Incomplete)"
  proof
    assume "path = []"
    then have "n = 0" using path(2) by simp
    show "\<forall>e \<in> set (outgoing g 0). edge_kind e = Incomplete"
    proof (rule ballI, rule ccontr)
      fix e assume e: "e \<in> set (outgoing g 0)" "edge_kind e \<noteq> Incomplete"
      then have "edge_path g False 0 [e] (to_node e)" by (simp add: edge_allowed_def)
      then have "to_node e = 0" using path(3) [of "[e]" "to_node e"] \<open>n = 0\<close> by simp
      then show False using parsed.built_forward [OF g e(1)] by simp
    qed
  next
    assume "\<forall>e \<in> set (outgoing g 0). edge_kind e = Incomplete"
    then show "path = []" using path(2) by (cases path) (auto simp: edge_allowed_def)
  qed
  then show ?thesis
    using Inr path by (auto simp: fewest_keys_parse_def)
qed

theorem fewest_keys_parse_spec_witness:
  "\<exists>r. fewest_keys_parse [0x61, 0x62] = Some r"
  using fewest_keys_parse_spec [of "[0x61, 0x62]"] by blast

section \<open>A reachable tail without a complete key\<close>

text \<open>On \<open>ab\<close> the furthest reachable node is 2, through the initial-only key \<open>b\<close>; no complete-key path
  reaches it, and the parse still answers the key of \<open>a\<close>.\<close>

lemma lookup_ab:
  "key_for_spelling [0x61] 0 = Some (SyllableKey 0, 0)"
  "key_for_spelling [0x62] 0 = Some (SyllableKey 405, 0)"
  "key_for_spelling [0x61, 0x62] 0 = None"
proof -
  have chars: "map byte_char [0x61] = ''a''" "map byte_char [0x62] = ''b''" "map byte_char [0x61, 0x62] = ''ab''"
    by code_simp+
  have "syllable_text (SyllableKey 0) = ''a''"
    by (simp add: syllable_text_def full_pinyin_syllable_def get_at_def key_index_def FULL_PINYIN_SYLLABLES_def)
  then have a: "from_text ''a'' = Some (SyllableKey 0)"
    by (simp add: from_text_iff key_index_def inventory_counts)
  have "syllable_text (SyllableKey 405) = ''b''"
    by (simp add: syllable_text_def full_pinyin_syllable_def get_at_def key_index_def inventory_lengths
        inventory_counts INCOMPLETE_PINYIN_KEYS_def)
  then have b: "from_text ''b'' = Some (SyllableKey 405)"
    by (simp add: from_text_iff key_index_def inventory_counts)
  have "spelling_map FULL_PINYIN_SYLLABLES ''ab'' = None" "spelling_map INCOMPLETE_PINYIN_KEYS ''ab'' = None"
    unfolding spelling_map_None by (simp_all add: inventory_defs)
  then have ab: "from_text ''ab'' = None" by (simp add: from_text_def)
  show "key_for_spelling [0x61] 0 = Some (SyllableKey 0, 0)"
    "key_for_spelling [0x62] 0 = Some (SyllableKey 405, 0)" "key_for_spelling [0x61, 0x62] 0 = None"
    unfolding key_for_spelling_def chars
    by (simp_all add: from_option_text_with_distance_def a b ab option_alias_canonical_def)
qed

lemma tone_split_ab:
  "tone_split [0x61] False False = Some ([0x61], 0)" "tone_split [0x62] False False = Some ([0x62], 0)"
  "tone_split [0x61, 0x62] False False = Some ([0x61, 0x62], 0)"
  by code_simp+

lemma parses_ab:
  "parses_at [0x61, 0x62] 0 s l k t d \<longleftrightarrow>
     l = 1 \<and> t = 0 \<and> d = 0 \<and> (s = 0 \<and> k = SyllableKey 0 \<or> s = 1 \<and> k = SyllableKey 405)"
proof -
  consider "s = 0" "l = 1" | "s = 1" "l = 1" | "s = 0" "l = 2" | "\<not> (1 \<le> l \<and> s + l \<le> 2)" by linarith
  then show ?thesis
    by cases (auto simp: parses_at_def MAX_SYLLABLE_LEN_def contains_def tone_split_ab lookup_ab)
qed

lemma parse_ignores_reachable_tail:
  "\<exists>g. build [0x61, 0x62] = Inr g \<and> graph_consumed g = 2 \<and> \<not> (\<exists>es. edge_path g False 0 es 2) \<and>
     fewest_keys_parse [0x61, 0x62] = Some (Some [SyllableKey 0])"
proof -
  let ?in = "[0x61, 0x62] :: bytes"
  obtain g where g: "build_with_options ?in 0 = Inr g"
    using build_ok [of ?in 0] by (auto simp: MAX_GRAPH_POSITION_def)
  then have g': "build ?in = Inr g" by (simp add: build_def)
  note shape = build_shape [OF g]
  have kb: "key_begin ?in 0 = Some 0" "key_begin ?in (Suc 0) = Some 1" "2 \<le> n \<Longrightarrow> key_begin ?in n = None" for n
    by (auto simp: key_begin_def run_stop_def APOSTROPHE_def)
  define ea where "ea = match_edge ?in 0 0 0 1 (SyllableKey 0) 0 0"
  define eb where "eb = match_edge ?in 0 1 1 1 (SyllableKey 405) 0 0"
  have out: "e \<in> set (outgoing g n) \<longleftrightarrow> n = 0 \<and> e = ea \<or>
      n = Suc 0 \<and> e = eb" for e n
  proof -
    consider "n = 0" | "n = Suc 0" | "2 \<le> n" by linarith
    then show ?thesis
      using node_edges_iff [OF shape(1), of e 0 n]
      by cases (auto simp: build_outgoing [OF g] kb parses_ab ea_def eb_def)
  qed
  have kinds: "edge_kind ea = Exact"
      "edge_kind eb = Incomplete"
    by (auto simp: ea_def eb_def match_edge_def matched_kind_def parses_ab key_completeness_def key_index_def inventory_counts)
  have nodes: "to_node ea = Suc 0"
      "to_node eb = 2"
    by (simp_all add: ea_def eb_def match_edge_def to_node_def)
  have path: "edge_path g False 0 es n \<longleftrightarrow>
      es = [] \<and> n = 0 \<or> es = [ea] \<and> n = Suc 0" for es n
  proof (cases es)
    case (Cons e fs)
    then show ?thesis by (cases fs) (auto simp: out kinds nodes edge_allowed_def)
  qed auto
  have "reached ?in (outgoing g) 2"
    using reached_edge [OF reached_edge [OF reached_start]] out nodes by metis
  then have two: "graph_consumed g = 2"
    using build_reached(3) [OF g, of 2] build_reached(2) [OF g] reached_bound [of ?in "outgoing g" "graph_consumed g"] out nodes
    by fastforce
  have "fewest_keys_parse ?in = Some (Some [SyllableKey 0])"
    using fewest_keys_parse_complete [OF g', of ea] path nodes(1)
    by (simp add: ea_def match_edge_def)
  then show ?thesis using g' two path by auto
qed

end
