(* ===== verification/KBest.thy ===== *)
theory KBest
  imports FewestKeys
begin

text \<open>
  \<open>crates/oxpinyin-core/src/kbest.rs\<close>: the k-best paths over a segment graph under a first-order edge
  cost. The arena of partial paths, the counting sort of the edges by target, the sweep over the
  nodes with one bucket per last edge, and the reconstruction. The scorer is the argument
  \<open>scorer\<close>; a \<open>Cost\<close> is an \<open>i64\<close>, added with saturation. What the sweep relies on of a graph is the
  locale \<open>indexed_graph\<close>, which both builders interpret.
\<close>

section \<open>Data\<close>

type_synonym cost = int

definition COST_MIN :: cost where "COST_MIN = - (2 ^ 63)"
definition COST_MAX :: cost where "COST_MAX = 2 ^ 63 - 1"

definition cost_saturating_add :: "cost \<Rightarrow> cost \<Rightarrow> cost" where
  "cost_saturating_add a b = max COST_MIN (min COST_MAX (a + b))"

definition MAX_K :: nat where
  "MAX_K = 4096"

datatype decode_error = KTooLarge nat nat | TooManyEdges nat | TooManyEntries nat

record decoded_path =
  path_cost :: cost
  path_edges :: "nat list"

record kb_entry =
  ent_cost :: cost
  ent_last :: "nat option"
  ent_previous :: "nat option"

record incoming =
  inc_starts :: "nat list"
  inc_ids :: "nat list"

text \<open>A loop whose body may return early with an error.\<close>

fun fold_result :: "('a \<Rightarrow> 's \<Rightarrow> 'e + 's) \<Rightarrow> 'a list \<Rightarrow> 's \<Rightarrow> 'e + 's" where
  "fold_result f [] s = Inr s"
| "fold_result f (x # xs) s = (case f x s of Inl err \<Rightarrow> Inl err | Inr s' \<Rightarrow> fold_result f xs s')"

section \<open>The edges entering a node\<close>

definition count_step :: "edge \<Rightarrow> nat list \<Rightarrow> nat list" where
  "count_step e starts = starts[to_node e + 1 := starts ! (to_node e + 1) + 1]"

definition prefix_step :: "nat \<Rightarrow> nat list \<Rightarrow> nat list" where
  "prefix_step node starts = starts[node + 1 := starts ! (node + 1) + starts ! node]"

definition place_step :: "nat \<times> edge \<Rightarrow> nat list \<times> nat list \<Rightarrow> nat list \<times> nat list" where
  "place_step = (\<lambda>(index, e) (cursor, ids).
     let slot = cursor ! to_node e in (cursor[to_node e := slot + 1], ids[slot := index]))"

definition incoming_index :: "segment_graph \<Rightarrow> decode_error + incoming" where
  "incoming_index g =
     (let edges = length (graph_edges g) in
      if 2 ^ 32 \<le> edges then Inl (TooManyEdges edges)
      else
        let starts = fold count_step (graph_edges g) (replicate (node_count g + 1) 0);
            starts = fold prefix_step [0..<node_count g] starts;
            (cursor, ids) = fold place_step (enumerate 0 (graph_edges g)) (starts, replicate edges 0)
        in Inr \<lparr>inc_starts = starts, inc_ids = ids\<rparr>)"

definition states_at :: "incoming \<Rightarrow> nat \<Rightarrow> nat list" where
  "states_at inc node =
     (if node = 0 then [0] else []) @
     (case (get_at (inc_starts inc) node, get_at (inc_starts inc) (node + 1)) of
        (Some a, Some b) \<Rightarrow> map (\<lambda>i. i + 1) (take (b - a) (drop a (inc_ids inc)))
      | _ \<Rightarrow> [])"

section \<open>The sweep\<close>

type_synonym kb_state = "kb_entry list \<times> nat list list"

definition rank_state :: "nat \<Rightarrow> kb_entry list \<Rightarrow> nat \<Rightarrow> nat list list \<Rightarrow> nat list list" where
  "rank_state k arena s buckets =
     buckets[s := take k (sort_key (\<lambda>i. ent_cost (arena ! i)) (buckets ! s))]"

definition push_edge :: "segment_graph \<Rightarrow> (edge option \<Rightarrow> edge \<Rightarrow> cost) \<Rightarrow> nat \<Rightarrow> nat \<Rightarrow> nat \<Rightarrow> kb_entry \<Rightarrow> edge option \<Rightarrow>
    nat \<Rightarrow> kb_state \<Rightarrow> decode_error + kb_state" where
  "push_edge g scorer k target entry_index entry previous edge_id = (\<lambda>(arena, buckets).
     case edge_at g edge_id of
       None \<Rightarrow> Inr (arena, buckets)
     | Some e \<Rightarrow>
         if target < to_node e then Inr (arena, buckets)
         else if 2 ^ 32 \<le> length arena then Inl (TooManyEntries k)
         else Inr (arena @ [\<lparr>ent_cost = cost_saturating_add (ent_cost entry) (scorer previous e),
                             ent_last = Some edge_id, ent_previous = Some entry_index\<rparr>],
                   buckets[edge_id + 1 := buckets ! (edge_id + 1) @ [length arena]]))"

definition expand_entry :: "segment_graph \<Rightarrow> (edge option \<Rightarrow> edge \<Rightarrow> cost) \<Rightarrow> nat \<Rightarrow> nat \<Rightarrow> nat \<Rightarrow> nat \<Rightarrow> kb_state \<Rightarrow>
    decode_error + kb_state" where
  "expand_entry g scorer k target node entry_index = (\<lambda>(arena, buckets).
     let entry = arena ! entry_index; previous = Option.bind (ent_last entry) (edge_at g)
     in fold_result (push_edge g scorer k target entry_index entry previous) (outgoing_ids g node) (arena, buckets))"

definition expand_state :: "segment_graph \<Rightarrow> (edge option \<Rightarrow> edge \<Rightarrow> cost) \<Rightarrow> nat \<Rightarrow> nat \<Rightarrow> nat \<Rightarrow> nat \<Rightarrow> kb_state \<Rightarrow>
    decode_error + kb_state" where
  "expand_state g scorer k target node s = (\<lambda>(arena, buckets).
     fold_result (expand_entry g scorer k target node) (buckets ! s) (arena, buckets))"

definition sweep_node :: "segment_graph \<Rightarrow> (edge option \<Rightarrow> edge \<Rightarrow> cost) \<Rightarrow> nat \<Rightarrow> nat \<Rightarrow> incoming \<Rightarrow> nat \<Rightarrow> kb_state \<Rightarrow>
    decode_error + kb_state" where
  "sweep_node g scorer k target inc node = (\<lambda>(arena, buckets).
     let buckets = fold (rank_state k arena) (states_at inc node) buckets in
     if node = target then Inr (arena, buckets)
     else fold_result (expand_state g scorer k target node) (states_at inc node) (arena, buckets))"

text \<open>The reconstruction follows the back-pointers; \<open>None\<close> is not returning.\<close>

partial_function (option) collect_edges :: "kb_entry list \<Rightarrow> nat option \<Rightarrow> nat list \<Rightarrow> nat list option" where
  "collect_edges arena cursor edges =
     (case cursor of
        None \<Rightarrow> Some edges
      | Some current \<Rightarrow>
          let entry = arena ! current;
              edges = (case ent_last entry of Some e \<Rightarrow> edges @ [e] | None \<Rightarrow> edges)
          in collect_edges arena (ent_previous entry) edges)"

definition reconstruct :: "kb_entry list \<Rightarrow> nat \<Rightarrow> decoded_path option" where
  "reconstruct arena index =
     map_option (\<lambda>edges. \<lparr>path_cost = ent_cost (arena ! index), path_edges = rev edges\<rparr>)
       (collect_edges arena (Some index) [])"

definition k_best_to :: "segment_graph \<Rightarrow> (edge option \<Rightarrow> edge \<Rightarrow> cost) \<Rightarrow> nat \<Rightarrow> nat \<Rightarrow>
    (decode_error + decoded_path list) option" where
  "k_best_to g scorer k target =
     (if MAX_K < k then Some (Inl (KTooLarge k MAX_K))
      else if k = 0 \<or> node_count g \<le> target then Some (Inr [])
      else case incoming_index g of
        Inl err \<Rightarrow> Some (Inl err)
      | Inr inc \<Rightarrow>
          let arena = [\<lparr>ent_cost = 0, ent_last = None, ent_previous = None\<rparr>];
              buckets = (replicate (length (graph_edges g) + 1) [])[0 := [0]]
          in case fold_result (sweep_node g scorer k target inc) [0..<target + 1] (arena, buckets) of
               Inl err \<Rightarrow> Some (Inl err)
             | Inr (arena, buckets) \<Rightarrow>
                 let finalists = concat (map (\<lambda>s. buckets ! s) (states_at inc target));
                     finalists = take k (sort_key (\<lambda>i. ent_cost (arena ! i)) finalists)
                 in map_option Inr (those (map (reconstruct arena) finalists)))"

definition k_best :: "segment_graph \<Rightarrow> (edge option \<Rightarrow> edge \<Rightarrow> cost) \<Rightarrow> nat \<Rightarrow>
    (decode_error + decoded_path list) option" where
  "k_best g scorer k = k_best_to g scorer k (graph_consumed g)"

section \<open>Keeping the cheapest k\<close>

text \<open>The list \<open>B\<close> holds elements of \<open>A\<close> such that each element it leaves out has \<open>k\<close> elements of \<open>B\<close> that
  cost no more. The k-best sweep keeps such a list per state.\<close>

definition covers :: "nat \<Rightarrow> ('a \<Rightarrow> 'c::linorder) \<Rightarrow> 'a set \<Rightarrow> 'a list \<Rightarrow> bool" where
  "covers k c A B \<longleftrightarrow> set B \<subseteq> A \<and> distinct B \<and> (\<forall>p \<in> A - set B. k \<le> length (filter (\<lambda>q. c q \<le> c p) B))"

lemma covers_all: "distinct B \<Longrightarrow> set B = A \<Longrightarrow> covers k c A B"
  by (simp add: covers_def)

lemma covers_map:
  assumes "covers k c A B" "inj f" "\<And>p q. p \<in> A \<Longrightarrow> q \<in> A \<Longrightarrow> c p \<le> c q \<Longrightarrow> d (f p) \<le> d (f q)"
  shows "covers k d (f ` A) (map f B)"
  unfolding covers_def
proof (intro conjI ballI)
  show "set (map f B) \<subseteq> f ` A" using assms(1) by (auto simp: covers_def)
  show "distinct (map f B)" using assms(1,2) by (auto simp: covers_def distinct_map inj_on_def)
  fix y assume y: "y \<in> f ` A - set (map f B)"
  then obtain p where p: "p \<in> A" "p \<notin> set B" "y = f p" by auto
  have "k \<le> length (filter (\<lambda>q. c q \<le> c p) B)" using assms(1) p by (simp add: covers_def)
  also have "\<dots> \<le> length (filter (\<lambda>q. d (f q) \<le> d (f p)) B)"
  proof -
    have "\<And>q. q \<in> set B \<Longrightarrow> c q \<le> c p \<Longrightarrow> d (f q) \<le> d (f p)"
      using assms(1,3) p(1) by (auto simp: covers_def)
    then show ?thesis by (induction B) auto
  qed
  finally show "k \<le> length (filter (\<lambda>q. d q \<le> d y) (map f B))"
    by (simp add: p(3) filter_map comp_def)
qed

lemma covers_concat:
  assumes "\<And>s. s \<in> set ss \<Longrightarrow> covers k c (A s) (B s)" "distinct ss"
    "\<And>s t. s \<in> set ss \<Longrightarrow> t \<in> set ss \<Longrightarrow> s \<noteq> t \<Longrightarrow> A s \<inter> A t = {}"
  shows "covers k c (\<Union>s \<in> set ss. A s) (concat (map B ss))"
  using assms
proof (induction ss)
  case (Cons s ss)
  have IH: "covers k c (\<Union>s \<in> set ss. A s) (concat (map B ss))" using Cons by simp
  have here: "covers k c (A s) (B s)" using Cons.prems(1) by simp
  have disj: "A s \<inter> (\<Union>s \<in> set ss. A s) = {}" using Cons.prems(2,3) by auto
  let ?B = "concat (map B ss)" and ?A = "\<Union>s \<in> set ss. A s"
  have sub: "set (B s) \<subseteq> A s" "set ?B \<subseteq> ?A" "distinct (B s)" "distinct ?B"
    using here IH unfolding covers_def by blast+
  have "k \<le> length (filter (\<lambda>q. c q \<le> c p) (B s @ ?B))" if p: "p \<in> (A s \<union> ?A) - set (B s @ ?B)" for p
  proof -
    have "k \<le> length (filter (\<lambda>q. c q \<le> c p) (B s)) \<or> k \<le> length (filter (\<lambda>q. c q \<le> c p) ?B)"
      using p here IH unfolding covers_def by auto
    then show ?thesis by auto
  qed
  moreover have "set (B s @ ?B) \<subseteq> A s \<union> ?A" "distinct (B s @ ?B)"
    using sub disj by auto
  ultimately have "covers k c (A s \<union> ?A) (B s @ ?B)" unfolding covers_def by blast
  then show ?case by simp
qed (simp add: covers_def)

lemma sorted_prefix_le:
  assumes "sorted (map c xs)" "k \<le> length (filter (\<lambda>q. c q \<le> b) xs)" "q \<in> set (take k xs)"
  shows "c q \<le> b"
proof (rule ccontr)
  assume "\<not> c q \<le> b"
  obtain i where i: "i < k" "i < length xs" "q = xs ! i"
    using assms(3) by (auto simp: in_set_conv_nth)
  have big: "\<not> c (xs ! j) \<le> b" if "i \<le> j" "j < length xs" for j
    using sorted_nth_mono [OF assms(1), of i j] that \<open>\<not> c q \<le> b\<close> i by auto
  have "filter (\<lambda>q. c q \<le> b) (drop i xs) = []"
    using big by (auto simp: filter_empty_conv in_set_conv_nth)
  then have "length (filter (\<lambda>q. c q \<le> b) xs) = length (filter (\<lambda>q. c q \<le> b) (take i xs))"
    by (metis append_Nil2 append_take_drop_id filter_append)
  also have "\<dots> \<le> i" by (metis length_filter_le length_take min.bounded_iff)
  finally show False using assms(2) i(1) by simp
qed

lemma covers_take_sort:
  assumes "covers k c A B"
  shows "covers k c A (take k (sort_key c B))"
  unfolding covers_def
proof (intro conjI ballI)
  let ?S = "sort_key c B"
  show "set (take k ?S) \<subseteq> A" using assms set_take_subset [of k ?S] by (auto simp: covers_def)
  show "distinct (take k ?S)" using assms by (simp add: covers_def)
  fix p assume p: "p \<in> A - set (take k ?S)"
  have "k \<le> length (take k ?S) \<and> (\<forall>q \<in> set (take k ?S). c q \<le> c p)"
  proof (cases "p \<in> set B")
    case True
    then have pS: "p \<in> set (drop k ?S)"
      using p by (metis DiffD2 Un_iff append_take_drop_id set_append set_sort)
    have "sorted (map c (take k ?S) @ map c (drop k ?S))"
      by (simp flip: map_append)
    moreover have "k < length ?S" using pS by (cases "k < length ?S") auto
    ultimately show ?thesis using pS by (auto simp: sorted_append)
  next
    case False
    then have "k \<le> length (filter (\<lambda>q. c q \<le> c p) B)" using assms p by (simp add: covers_def)
    moreover have "length (filter (\<lambda>q. c q \<le> c p) ?S) = length (filter (\<lambda>q. c q \<le> c p) B)"
      by (simp add: filter_sort)
    ultimately have few: "k \<le> length (filter (\<lambda>q. c q \<le> c p) ?S)" by simp
    have "k \<le> length ?S"
      by (rule le_trans [OF few length_filter_le])
    moreover have "\<forall>q \<in> set (take k ?S). c q \<le> c p"
      by (rule ballI, rule sorted_prefix_le [OF sorted_sort_key few])
    ultimately show ?thesis by simp
  qed
  then show "k \<le> length (filter (\<lambda>q. c q \<le> c p) (take k ?S))"
    by (simp add: filter_True)
qed

section \<open>The counting sort of the edges\<close>

definition ids_to :: "edge list \<Rightarrow> nat \<Rightarrow> nat \<Rightarrow> nat list" where
  "ids_to es n m = filter (\<lambda>i. to_node (es ! i) = n) [0..<m]"

definition below :: "edge list \<Rightarrow> nat \<Rightarrow> nat" where
  "below es m = length (filter (\<lambda>e. to_node e < m) es)"

lemma count_fold:
  "(\<forall>e \<in> set es. to_node e + 1 < length st) \<Longrightarrow>
   length (fold count_step es st) = length st \<and>
   (\<forall>m < length st. fold count_step es st ! m = st ! m + length (filter (\<lambda>e. to_node e + 1 = m) es))"
proof (induction es arbitrary: st)
  case (Cons e es)
  then show ?case by (auto simp: count_step_def nth_list_update)
qed simp

lemma prefix_fold:
  assumes "length st = N + 1"
  shows "k \<le> N \<Longrightarrow> length (fold prefix_step [0..<k] st) = N + 1 \<and>
    (\<forall>m \<le> N. fold prefix_step [0..<k] st ! m = (if m \<le> k then sum ((!) st) {..m} else st ! m))"
proof (induction k)
  case (Suc k)
  let ?f = "fold prefix_step [0..<k] st"
  have IH: "length ?f = N + 1" "\<And>m. m \<le> N \<Longrightarrow> ?f ! m = (if m \<le> k then sum ((!) st) {..m} else st ! m)"
    using Suc by auto
  have "fold prefix_step [0..<Suc k] st = ?f[k + 1 := ?f ! (k + 1) + ?f ! k]"
    by (simp add: prefix_step_def)
  then show ?case
    using IH Suc.prems by (auto simp: nth_list_update le_Suc_eq)
qed (use assms in auto)

lemma below_sum:
  "(\<Sum>j \<le> m. length (filter (\<lambda>e. to_node e + 1 = j) es)) = below es m"
proof (induction m)
  case (Suc m)
  have "below es (Suc m) = below es m + length (filter (\<lambda>e. to_node e = m) es)"
    unfolding below_def by (induction es) auto
  then show ?case using Suc by simp
qed (simp add: below_def)

lemma length_ids_to: "length (ids_to es n (length es)) = length (filter (\<lambda>e. to_node e = n) es)"
  unfolding ids_to_def
proof (induction es rule: rev_induct)
  case (snoc e es)
  have "filter (\<lambda>i. to_node ((es @ [e]) ! i) = n) [0..<length es] = filter (\<lambda>i. to_node (es ! i) = n) [0..<length es]"
    by (rule filter_cong) (auto simp: nth_append)
  then show ?case using snoc by simp
qed simp

lemma below_Suc: "below es (Suc n) = below es n + length (ids_to es n (length es))"
  unfolding length_ids_to below_def by (induction es) auto

lemma below_mono: "m \<le> n \<Longrightarrow> below es m \<le> below es n"
  unfolding below_def by (induction es) auto

lemma below_le: "below es n \<le> length es"
  by (simp add: below_def)

lemma ids_to_Suc: "ids_to es n (Suc m) = ids_to es n m @ (if to_node (es ! m) = n then [m] else [])"
  by (simp add: ids_to_def)

lemma length_ids_to_mono: "m \<le> m' \<Longrightarrow> length (ids_to es n m) \<le> length (ids_to es n m')"
proof (induction m')
  case (Suc m')
  then show ?case by (cases "m = Suc m'") (auto simp: ids_to_Suc)
qed simp

lemma ids_slots_disjoint:
  assumes "i < length (ids_to es a (length es))" "j < length (ids_to es b (length es))" "below es a + i = below es b + j"
  shows "a = b \<and> i = j"
proof -
  have "\<not> a < b" if "i < length (ids_to es a (length es))" "below es a + i = below es b + j" for a b i j
    using below_mono [of "Suc a" b es] below_Suc [of es a] that by auto
  from this [of i a b j] this [of j b a i] show ?thesis using assms by auto
qed

definition placed :: "edge list \<Rightarrow> nat \<Rightarrow> nat \<Rightarrow> nat list \<times> nat list \<Rightarrow> bool" where
  "placed es N m = (\<lambda>(cursor, ids). length cursor = N + 1 \<and> length ids = length es \<and>
     (\<forall>n < N. cursor ! n = below es n + length (ids_to es n m)) \<and>
     (\<forall>n < N. \<forall>j < length (ids_to es n m). ids ! (below es n + j) = ids_to es n m ! j))"

lemma place_step_placed:
  assumes "placed es N m ci" "m < length es" "to_node (es ! m) < N"
  shows "placed es N (Suc m) (place_step (m, es ! m) ci)"
proof -
  obtain cursor ids where ci: "ci = (cursor, ids)" by fastforce
  let ?t = "to_node (es ! m)" and ?E = "length es"
  have slot: "cursor ! ?t = below es ?t + length (ids_to es ?t m)"
    using assms(1,3) by (simp add: ci placed_def)
  have lt: "length (ids_to es ?t m) < length (ids_to es ?t ?E)"
    using length_ids_to_mono [of "Suc m" ?E es ?t] assms(2) by (simp add: ids_to_Suc)
  have fit: "below es ?t + length (ids_to es ?t m) < ?E"
    using lt below_Suc [of es ?t] below_le [of es "Suc ?t"] by simp
  have neq: False
    if "below es ?t + length (ids_to es ?t m) = below es n + j" "j < length (ids_to es n m)" for n j
    using ids_slots_disjoint [of j es n "length (ids_to es ?t m)" ?t] lt that length_ids_to_mono [of m ?E es n] assms(2)
    by auto
  show ?thesis
    using assms slot fit unfolding ci placed_def place_step_def
    by (auto simp: ids_to_Suc nth_append nth_list_update less_Suc_eq Let_def dest: neq)
qed

lemma place_fold:
  assumes "placed es N 0 ci" "\<forall>e \<in> set es. to_node e < N"
  shows "placed es N (length es) (fold place_step (enumerate 0 es) ci)"
proof -
  have "placed es N m (fold place_step (take m (enumerate 0 es)) ci)" if "m \<le> length es" for m
    using that
  proof (induction m)
    case (Suc m)
    have "take (Suc m) (enumerate 0 es) = take m (enumerate 0 es) @ [(m, es ! m)]"
      using Suc.prems by (simp add: take_Suc_conv_app_nth nth_enumerate_eq)
    then show ?case
      using place_step_placed [of es N m] Suc assms(2) by simp
  qed (use assms(1) in simp)
  from this [of "length es"] show ?thesis by simp
qed

lemma incoming_index_spec:
  assumes "\<forall>e \<in> set (graph_edges g). to_node e < node_count g"
  shows "if 2 ^ 32 \<le> length (graph_edges g) then incoming_index g = Inl (TooManyEdges (length (graph_edges g)))
    else \<exists>inc. incoming_index g = Inr inc \<and> (\<forall>n < node_count g. states_at inc n =
      (if n = 0 then [0] else []) @ map Suc (ids_to (graph_edges g) n (length (graph_edges g))))"
proof (cases "2 ^ 32 \<le> length (graph_edges g)")
  case False
  let ?es = "graph_edges g" and ?N = "node_count g"
  define st1 where "st1 = fold count_step ?es (replicate (?N + 1) 0)"
  define st where "st = fold prefix_step [0..<?N] st1"
  obtain cursor ids where ci: "fold place_step (enumerate 0 ?es) (st, replicate (length ?es) 0) = (cursor, ids)" by fastforce
  have st1: "length st1 = ?N + 1" "\<And>m. m \<le> ?N \<Longrightarrow> st1 ! m = length (filter (\<lambda>e. to_node e + 1 = m) ?es)"
    using count_fold [of ?es "replicate (?N + 1) 0"] assms by (auto simp: st1_def simp del: replicate.simps)
  have st: "length st = ?N + 1" "st ! m = below ?es m" if "m \<le> ?N" for m
    using prefix_fold [OF st1(1), of ?N] that st1(2) below_sum [of ?es m] by (auto simp: st_def)
  have "placed ?es ?N 0 (st, replicate (length ?es) 0)"
    using st by (auto simp: placed_def ids_to_def)
  from place_fold [OF this] have "placed ?es ?N (length ?es) (cursor, ids)"
    using assms ci by simp
  then have ids: "length ids = length ?es"
      "\<And>n j. n < ?N \<Longrightarrow> j < length (ids_to ?es n (length ?es)) \<Longrightarrow> ids ! (below ?es n + j) = ids_to ?es n (length ?es) ! j"
    by (auto simp: placed_def)
  have slice: "take (below ?es (Suc n) - below ?es n) (drop (below ?es n) ids) = ids_to ?es n (length ?es)" if "n < ?N" for n
    using below_Suc [of ?es n] below_le [of ?es "Suc n"] ids that by (intro nth_equalityI) auto
  have "incoming_index g = Inr \<lparr>inc_starts = st, inc_ids = ids\<rparr>"
    using False unfolding incoming_index_def Let_def st1_def [symmetric] st_def [symmetric] ci by simp
  moreover have "states_at \<lparr>inc_starts = st, inc_ids = ids\<rparr> n =
      (if n = 0 then [0] else []) @ map Suc (ids_to ?es n (length ?es))" if "n < ?N" for n
    using that st(1) [of 0] st(2) [of n] st(2) [of "Suc n"] slice [OF that] by (auto simp: states_at_def get_at_def)
  ultimately show ?thesis using False by auto
qed (simp add: incoming_index_def)

end
