(* ===== verification/KBestSearch.thy ===== *)
theory KBestSearch
  imports KBest
begin

text \<open>
  Correctness of the k-best sweep of \<open>crates/oxpinyin-core/src/kbest.rs\<close>: the interface of an indexed
  graph, the paths an arena entry stands for, the simulation of the bucket operations by operations
  on lists of paths, and the theorem that the answer is the \<open>k\<close> cheapest paths to the target.
\<close>

section \<open>The interface of an indexed graph\<close>

locale indexed_graph = graph_builder +
  assumes indexed_ids: "builds g \<Longrightarrow>
      outgoing_ids g n = filter (\<lambda>i. from_node (graph_edges g ! i) = n) [0..<length (graph_edges g)]"
    and indexed_forward: "builds g \<Longrightarrow> e \<in> set (graph_edges g) \<Longrightarrow>
      from_node e < to_node e \<and> to_node e < node_count g"

lemma filter_upt_range:
  assumes "\<And>i. i < l \<Longrightarrow> P i \<longleftrightarrow> a \<le> i \<and> i < b" "b \<le> l"
  shows "filter P [0..<l] = [a..<b]"
proof (rule sorted_distinct_set_unique)
  show "sorted (filter P [0..<l])" by (simp add: sorted_wrt_filter)
  show "set (filter P [0..<l]) = set [a..<b]" using assms by auto
qed simp_all

lemma ids_of_block:
  assumes "n < m" "\<And>j e. e \<in> set (f j) \<Longrightarrow> from_node e = j"
  shows "filter (\<lambda>i. from_node (upto_node f m ! i) = n) [0..<length (upto_node f m)] =
    [length (upto_node f n)..<length (upto_node f (Suc n))]"
proof -
  let ?a = "length (upto_node f n)" and ?b = "length (upto_node f (Suc n))" and ?l = "length (upto_node f m)"
  have split: "upto_node f m = upto_node f n @ f n @ concat (map f [Suc n..<m])"
    using upto_node_split [of "Suc n" m f] assms(1) by simp
  have le: "?a \<le> ?b" "?b \<le> ?l" by (simp_all add: split)
  have froms: "e \<in> set (upto_node f n) \<Longrightarrow> from_node e < n" "e \<in> set (f n) \<Longrightarrow> from_node e = n"
      "e \<in> set (concat (map f [Suc n..<m])) \<Longrightarrow> n < from_node e" for e
    using assms(2) by (auto simp: upto_node_def)
  have nth: "from_node (upto_node f m ! i) = n \<longleftrightarrow> ?a \<le> i \<and> i < ?b" if "i < ?l" for i
  proof -
    consider "i < ?a" | "?a \<le> i" "i < ?b" | "?b \<le> i" by linarith
    then show ?thesis
    proof cases
      case 1
      then show ?thesis using froms(1) [of "upto_node f n ! i"] by (simp add: split nth_append)
    next
      case 2
      then show ?thesis using froms(2) [of "f n ! (i - ?a)"] by (auto simp: split nth_append)
    next
      case 3
      then show ?thesis
        using that froms(3) [of "concat (map f [Suc n..<m]) ! (i - ?b)"] nth_mem [of "i - ?b" "concat (map f [Suc n..<m])"]
        by (auto simp: split nth_append)
    qed
  qed
  show ?thesis
    using nth le by (intro filter_upt_range) auto
qed

interpretation parsed_ix: indexed_graph "\<lambda>g. \<exists>input opts. build_with_options input opts = Inr g"
proof (unfold_locales, goal_cases)
  case (1 g n)
  then obtain input opts where b: "build_with_options input opts = Inr g" by blast
  note shape = build_shape [OF b]
  let ?f = "node_edges input opts"
  have from_f: "from_node e = j" if "e \<in> set (?f j)" for e j
    using node_edges_forward [OF shape(1) that] by simp
  show ?case
  proof (cases "n < length input + 1")
    case True
    then show ?thesis
      using ids_of_block [of n "length input + 1" ?f, OF True from_f]
      by (simp add: outgoing_ids_def get_at_def shape(3,4) max_def Let_def del: upto_node_simps upt_Suc)
  next
    case False
    then have "from_node (upto_node ?f (length input + 1) ! i) \<noteq> n" if "i < length (upto_node ?f (length input + 1))" for i
      using nth_mem [OF that] from_f by (auto simp: upto_node_def)
    then show ?thesis
      using False by (auto simp: outgoing_ids_def get_at_def shape(3,4) Let_def filter_empty_conv simp del: upt_Suc upto_node_simps)
  qed
next
  case (2 g e)
  then obtain input opts where b: "build_with_options input opts = Inr g" by blast
  then show ?case
    using 2(2) node_edges_forward [OF build_shape(1) [OF b]]
    by (fastforce simp: build_shape(2,3) [OF b] upto_node_def node_count_def)
qed

lemma edges_below_nth:
  assumes "sorted_wrt (\<lambda>a b. from_node a < from_node b) es" "i < length es"
  shows "i < edges_below es n \<longleftrightarrow> from_node (es ! i) < n"
proof
  assume "i < edges_below es n"
  then have "es ! i \<in> set (takeWhile (\<lambda>e. from_node e < n) es)"
    using nth_mem [of i "takeWhile (\<lambda>e. from_node e < n) es"] by (auto simp: edges_below_def takeWhile_nth)
  then show "from_node (es ! i) < n" by (auto dest: set_takeWhileD)
next
  assume lt: "from_node (es ! i) < n"
  show "i < edges_below es n"
  proof (rule ccontr)
    assume "\<not> i < edges_below es n"
    then have "\<not> from_node (es ! edges_below es n) < n" "edges_below es n \<le> i"
      using assms(2) nth_length_takeWhile [of "\<lambda>e. from_node e < n" es] by (auto simp: edges_below_def)
    then show False
      using sorted_wrt_nth_less [OF assms(1), of "edges_below es n" i] assms(2) lt by (cases "edges_below es n = i") auto
  qed
qed

interpretation exact_ix: indexed_graph "\<lambda>g. \<exists>input ss. build_exact input ss = Inr g"
proof (unfold_locales, goal_cases)
  case (1 g n)
  then obtain input ss where b: "build_exact input ss = Inr g" by blast
  let ?es = "graph_edges g"
  have sorted: "sorted_wrt (\<lambda>a b. from_node a < from_node b) ?es" and
    in_range: "\<And>i. i < length ?es \<Longrightarrow> from_node (?es ! i) < length input"
    using build_exact_ascend [OF b] by (auto intro: order_less_le_trans)
  have st: "graph_starts g = map (edges_below ?es) [0..<length input + 2]"
    using build_exact_Inr(4,5) [OF b] by simp
  show ?case
  proof (cases "n \<le> length input")
    case True
    have "edges_below ?es (Suc n) \<le> length ?es" by (simp add: edges_below_def length_takeWhile_le)
    then have "filter (\<lambda>i. from_node (?es ! i) = n) [0..<length ?es] = [edges_below ?es n..<edges_below ?es (Suc n)]"
      using edges_below_nth [OF sorted] by (intro filter_upt_range) (auto simp: not_less [symmetric] less_Suc_eq)
    then show ?thesis
      using True edges_below_mono [of n "Suc n" ?es] by (simp add: outgoing_ids_def get_at_def st max_def Let_def del: upt_Suc)
  next
    case False
    then have "filter (\<lambda>i. from_node (?es ! i) = n) [0..<length ?es] = []"
      using in_range by (force simp: filter_empty_conv)
    then show ?thesis using False by (simp add: outgoing_ids_def get_at_def st Let_def del: upt_Suc)
  qed
next
  case (2 g e)
  then obtain input ss where b: "build_exact input ss = Inr g" by blast
  then show ?case
    using 2(2) build_exact_ascend [OF b] by (auto simp: build_exact_Inr(3) [OF b] node_count_def less_Suc_eq_le)
qed

section \<open>Paths\<close>

text \<open>A path is held with its last edge first, as the back-pointers give it. Its state is 0 for the empty
  path and one past its last edge otherwise, its cost adds up the first-order edge costs.\<close>

fun rend :: "segment_graph \<Rightarrow> nat list \<Rightarrow> nat" where
  "rend g [] = 0"
| "rend g (e # es) = to_node (graph_edges g ! e)"

fun rpath :: "segment_graph \<Rightarrow> nat list \<Rightarrow> bool" where
  "rpath g [] = True"
| "rpath g (e # es) \<longleftrightarrow> e < length (graph_edges g) \<and> from_node (graph_edges g ! e) = rend g es \<and> rpath g es"

fun rlast :: "segment_graph \<Rightarrow> nat list \<Rightarrow> edge option" where
  "rlast g [] = None"
| "rlast g (e # es) = Some (graph_edges g ! e)"

fun rcost :: "segment_graph \<Rightarrow> (edge option \<Rightarrow> edge \<Rightarrow> cost) \<Rightarrow> nat list \<Rightarrow> cost" where
  "rcost g sc [] = 0"
| "rcost g sc (e # es) = cost_saturating_add (rcost g sc es) (sc (rlast g es) (graph_edges g ! e))"

fun state_of :: "nat list \<Rightarrow> nat" where
  "state_of [] = 0"
| "state_of (e # es) = Suc e"

definition paths_in :: "segment_graph \<Rightarrow> nat \<Rightarrow> nat list set" where
  "paths_in g s = {es. rpath g es \<and> state_of es = s}"

definition node_states :: "segment_graph \<Rightarrow> nat \<Rightarrow> nat list" where
  "node_states g n = (if n = 0 then [0] else []) @ map Suc (ids_to (graph_edges g) n (length (graph_edges g)))"

definition state_node :: "segment_graph \<Rightarrow> nat \<Rightarrow> nat" where
  "state_node g s = (case s of 0 \<Rightarrow> 0 | Suc e \<Rightarrow> to_node (graph_edges g ! e))"

lemma distinct_node_states: "distinct (node_states g n)"
  by (auto simp: node_states_def ids_to_def distinct_map)

lemma rend_state: "rend g es = state_node g (state_of es)"
  by (cases es) (auto simp: state_node_def)

lemma rpath_state: "rpath g es \<Longrightarrow> state_of es \<in> set (node_states g (rend g es))"
  by (cases es) (auto simp: node_states_def ids_to_def)

lemma paths_in_disjoint: "s \<noteq> t \<Longrightarrow> paths_in g s \<inter> paths_in g t = {}"
  by (auto simp: paths_in_def)

lemma cost_saturating_add_mono: "a \<le> b \<Longrightarrow> cost_saturating_add a c \<le> cost_saturating_add b c"
  by (auto simp: cost_saturating_add_def)

lemma rlast_state: "state_of p = state_of q \<Longrightarrow> rlast g p = rlast g q"
  by (cases p; cases q) auto

section \<open>Arena entries stand for paths\<close>

definition entry_path :: "segment_graph \<Rightarrow> (edge option \<Rightarrow> edge \<Rightarrow> cost) \<Rightarrow> nat list list \<Rightarrow> nat \<Rightarrow> kb_entry \<Rightarrow> bool" where
  "entry_path g sc ps i ent \<longleftrightarrow> rpath g (ps ! i) \<and> ent_cost ent = rcost g sc (ps ! i) \<and>
     (case ps ! i of
        [] \<Rightarrow> ent_last ent = None \<and> ent_previous ent = None
      | e # es \<Rightarrow> ent_last ent = Some e \<and> (\<exists>j < i. ent_previous ent = Some j \<and> ps ! j = es))"

definition arena_paths :: "segment_graph \<Rightarrow> (edge option \<Rightarrow> edge \<Rightarrow> cost) \<Rightarrow> kb_entry list \<Rightarrow> nat list list \<Rightarrow> bool" where
  "arena_paths g sc arena ps \<longleftrightarrow> length ps = length arena \<and> (\<forall>i < length arena. entry_path g sc ps i (arena ! i))"

lemma arena_paths_snoc:
  assumes "arena_paths g sc arena ps" "i < length arena" "e < length (graph_edges g)"
    "from_node (graph_edges g ! e) = rend g (ps ! i)"
  shows "arena_paths g sc (arena @ [\<lparr>ent_cost = cost_saturating_add (ent_cost (arena ! i)) (sc (rlast g (ps ! i)) (graph_edges g ! e)),
      ent_last = Some e, ent_previous = Some i\<rparr>]) (ps @ [e # ps ! i])"
proof -
  have old: "entry_path g sc (ps @ [x]) j ent" if "entry_path g sc ps j ent" "j < length ps" for x j ent
    using that by (fastforce simp: entry_path_def nth_append split: list.splits)
  have here: "rpath g (ps ! i)" "ent_cost (arena ! i) = rcost g sc (ps ! i)"
    using assms(1,2) by (auto simp: arena_paths_def entry_path_def)
  show ?thesis
    using assms here old unfolding arena_paths_def
    by (auto simp: nth_append less_Suc_eq) (auto simp: entry_path_def nth_append)
qed

lemma collect_edges_path:
  assumes "arena_paths g sc arena ps"
  shows "i < length arena \<Longrightarrow> collect_edges arena (Some i) acc = Some (acc @ ps ! i)"
proof (induction i arbitrary: acc rule: less_induct)
  case (less i)
  then have ent: "entry_path g sc ps i (arena ! i)" using assms by (simp add: arena_paths_def)
  show ?case
  proof (cases "ps ! i")
    case Nil
    then show ?thesis using ent by (simp add: collect_edges.simps entry_path_def)
  next
    case (Cons e es)
    then obtain j where "j < i" "ent_previous (arena ! i) = Some j" "ps ! j = es" "ent_last (arena ! i) = Some e"
      using ent by (auto simp: entry_path_def)
    then show ?thesis
      using less Cons by (subst collect_edges.simps) simp
  qed
qed

lemma reconstruct_path:
  assumes "arena_paths g sc arena ps" "i < length arena"
  shows "reconstruct arena i = Some \<lparr>path_cost = rcost g sc (ps ! i), path_edges = rev (ps ! i)\<rparr>"
  using collect_edges_path [OF assms] assms by (simp add: reconstruct_def arena_paths_def entry_path_def)

section \<open>Simulating the buckets by lists of paths\<close>

definition sim :: "segment_graph \<Rightarrow> (edge option \<Rightarrow> edge \<Rightarrow> cost) \<Rightarrow> kb_state \<Rightarrow> nat list list \<Rightarrow> (nat \<Rightarrow> nat list list) \<Rightarrow> bool" where
  "sim g sc = (\<lambda>(arena, buckets) ps B. arena_paths g sc arena ps \<and> length buckets = length (graph_edges g) + 1 \<and>
     (\<forall>s \<le> length (graph_edges g). (\<forall>i \<in> set (buckets ! s). i < length arena) \<and> map ((!) ps) (buckets ! s) = B s))"

text \<open>Extending the paths \<open>qs\<close> by the edges of \<open>L\<close> that end by the target.\<close>

definition extend :: "segment_graph \<Rightarrow> nat \<Rightarrow> nat list \<Rightarrow> nat list list \<Rightarrow> (nat \<Rightarrow> nat list list) \<Rightarrow> nat \<Rightarrow> nat list list" where
  "extend g target L qs B s = B s @ (case s of 0 \<Rightarrow> []
     | Suc e \<Rightarrow> if e \<in> set L \<and> to_node (graph_edges g ! e) \<le> target then map ((#) e) qs else [])"

lemma extend_edges: "e \<notin> set L \<Longrightarrow> extend g target L [p] (extend g target [e] [p] B) = extend g target (e # L) [p] B"
  by (rule ext) (auto simp: extend_def split: nat.splits)

lemma extend_paths: "extend g target L qs (extend g target L ps B) = extend g target L (ps @ qs) B"
  by (rule ext) (auto simp: extend_def split: nat.splits)

lemma extend_none: "extend g target [] ps B = B" "extend g target L [] B = B"
  by (rule ext, simp add: extend_def split: nat.splits)+

lemma sim_push:
  assumes sim: "sim g sc (arena, buckets) ps B" and i: "i < length arena"
    and e: "e < length (graph_edges g)" "from_node (graph_edges g ! e) = rend g (ps ! i)"
    and ok: "push_edge g sc k target i (arena ! i) (rlast g (ps ! i)) e (arena, buckets) = Inr st'"
  shows "\<exists>xs ys. sim g sc st' (ps @ xs) (extend g target [e] [ps ! i] B) \<and> fst st' = arena @ ys"
proof (cases "target < to_node (graph_edges g ! e)")
  case True
  then have "st' = (arena, buckets)" using ok e(1) by (simp add: push_edge_def edge_at_def get_at_def)
  moreover have "extend g target [e] [ps ! i] B = B"
    using True by (intro ext) (auto simp: extend_def split: nat.splits)
  ultimately show ?thesis using sim by (intro exI [of _ "[]"]) simp
next
  case False
  let ?ent = "\<lparr>ent_cost = cost_saturating_add (ent_cost (arena ! i)) (sc (rlast g (ps ! i)) (graph_edges g ! e)),
      ent_last = Some e, ent_previous = Some i\<rparr>"
  have st': "st' = (arena @ [?ent], buckets[e + 1 := buckets ! (e + 1) @ [length arena]])"
    using ok e(1) False by (auto simp: push_edge_def edge_at_def get_at_def split: if_splits)
  have ar: "arena_paths g sc arena ps" "length ps = length arena"
    using sim by (auto simp: sim_def arena_paths_def)
  let ?b = "buckets[e + 1 := buckets ! (e + 1) @ [length arena]]" and ?E = "length (graph_edges g)"
  have old: "\<forall>j \<in> set (buckets ! s). j < length arena" "map ((!) ps) (buckets ! s) = B s" if "s \<le> ?E" for s
    using sim that by (auto simp: sim_def)
  have keep: "map ((!) (ps @ [x])) (buckets ! s) = B s" if "s \<le> ?E" for s x
  proof -
    have "map ((!) (ps @ [x])) (buckets ! s) = map ((!) ps) (buckets ! s)"
      using old(1) [OF that] ar(2) by (intro map_cong refl) (auto simp: nth_append)
    then show ?thesis using old(2) [OF that] by simp
  qed
  have lenb: "length buckets = ?E + 1" using sim by (simp add: sim_def)
  have "(\<forall>j \<in> set (?b ! s). j < length arena + 1) \<and>
      map ((!) (ps @ [e # ps ! i])) (?b ! s) = extend g target [e] [ps ! i] B s" if s: "s \<le> ?E" for s
  proof (cases "s = e + 1")
    case True
    then have "?b ! s = buckets ! s @ [length arena]" using lenb e(1) by simp
    moreover have "(ps @ [e # ps ! i]) ! length arena = e # ps ! i" using ar(2) by (simp add: nth_append)
    ultimately show ?thesis
      using True old(1) [OF s] keep [OF s, of "e # ps ! i"] False ar(2)
      by (auto simp: extend_def less_Suc_eq)
  next
    case other: False
    then have "?b ! s = buckets ! s" by simp
    then show ?thesis
      using other old(1) [OF s] keep [OF s, of "e # ps ! i"]
      by (auto simp: extend_def less_Suc_eq split: nat.splits)
  qed
  then have "sim g sc st' (ps @ [e # ps ! i]) (extend g target [e] [ps ! i] B)"
    using arena_paths_snoc [OF ar(1) i e] lenb by (simp add: st' sim_def)
  then show ?thesis using st' by auto
qed

lemma sim_index: "sim g sc (arena, buckets) ps B \<Longrightarrow> length ps = length arena"
  by (simp add: sim_def arena_paths_def)

lemma sim_pushes:
  assumes "sim g sc st ps B" "i < length (fst st)" "fst st ! i = entry" "ps ! i = p" "distinct L"
    "\<And>e. e \<in> set L \<Longrightarrow> e < length (graph_edges g) \<and> from_node (graph_edges g ! e) = rend g p"
    "fold_result (push_edge g sc k target i entry (rlast g p)) L st = Inr st'"
  shows "\<exists>xs ys. sim g sc st' (ps @ xs) (extend g target L [p] B) \<and> fst st' = fst st @ ys"
  using assms
proof (induction L arbitrary: st ps B)
  case Nil
  then show ?case by (intro exI [of _ "[]"]) (simp add: extend_none)
next
  case (Cons e L)
  obtain arena buckets where st: "st = (arena, buckets)" by fastforce
  obtain st1 where st1: "push_edge g sc k target i entry (rlast g p) e st = Inr st1"
      "fold_result (push_edge g sc k target i entry (rlast g p)) L st1 = Inr st'"
    using Cons.prems(7) by (auto split: sum.splits)
  obtain xs ys where one: "sim g sc st1 (ps @ xs) (extend g target [e] [p] B)" "fst st1 = arena @ ys"
    using sim_push [of g sc arena buckets ps B i e k target st1] Cons.prems st1(1) by (auto simp: st)
  have "length ps = length arena" using Cons.prems(1) by (simp add: st sim_index)
  then obtain xs' ys' where "sim g sc st' ((ps @ xs) @ xs') (extend g target L [p] (extend g target [e] [p] B))"
      "fst st' = fst st1 @ ys'"
    using Cons.IH [OF one(1)] Cons.prems(2-6) one(2) st1(2) by (fastforce simp: st nth_append)
  then show ?case
    using one(2) Cons.prems(5) by (auto simp: st extend_edges)
qed

lemma sim_entries:
  assumes "sim g sc st ps B" "\<forall>i \<in> set idxs. i < length (fst st)" "map ((!) ps) idxs = qs"
    "\<And>q. q \<in> set qs \<Longrightarrow> rend g q = n" "distinct (outgoing_ids g n)"
    "\<And>e. e \<in> set (outgoing_ids g n) \<Longrightarrow> e < length (graph_edges g) \<and> from_node (graph_edges g ! e) = n"
    "fold_result (expand_entry g sc k target n) idxs st = Inr st'"
  shows "\<exists>xs ys. sim g sc st' (ps @ xs) (extend g target (outgoing_ids g n) qs B) \<and> fst st' = fst st @ ys"
  using assms
proof (induction idxs arbitrary: st ps B qs)
  case Nil
  then show ?case by (intro exI [of _ "[]"]) (simp add: extend_none)
next
  case (Cons i idxs)
  obtain arena buckets where st: "st = (arena, buckets)" by fastforce
  obtain st1 where st1: "expand_entry g sc k target n i st = Inr st1"
      "fold_result (expand_entry g sc k target n) idxs st1 = Inr st'"
    using Cons.prems(7) by (auto split: sum.splits)
  have len: "length ps = length arena" using Cons.prems(1) by (simp add: st sim_index)
  have i: "i < length arena" "rend g (ps ! i) = n" using Cons.prems(2-4) by (auto simp: st)
  have "entry_path g sc ps i (arena ! i)"
    using Cons.prems(1) i(1) by (simp add: st sim_def arena_paths_def)
  then have "Option.bind (ent_last (arena ! i)) (edge_at g) = rlast g (ps ! i)"
    by (cases "ps ! i") (auto simp: entry_path_def edge_at_def get_at_def)
  then obtain xs ys where one: "sim g sc st1 (ps @ xs) (extend g target (outgoing_ids g n) [ps ! i] B)" "fst st1 = arena @ ys"
    using sim_pushes [OF Cons.prems(1), of i "arena ! i" "ps ! i" "outgoing_ids g n" k target st1] i Cons.prems(5,6) st1(1)
    by (auto simp: st expand_entry_def)
  have "map ((!) (ps @ xs)) idxs = map ((!) ps) idxs"
    using Cons.prems(2) len by (intro map_cong refl) (auto simp: st nth_append)
  then obtain xs' ys' where "sim g sc st' ((ps @ xs) @ xs')
        (extend g target (outgoing_ids g n) (map ((!) ps) idxs) (extend g target (outgoing_ids g n) [ps ! i] B))"
      "fst st' = fst st1 @ ys'"
    using Cons.IH [OF one(1), of "map ((!) ps) idxs"] Cons.prems(2-6) one(2) st1(2) by (fastforce simp: st)
  then show ?case
    using one(2) Cons.prems(3) by (auto simp: st extend_paths)
qed

lemma sim_states:
  assumes "sim g sc st ps B" "\<And>s. s \<in> set ss \<Longrightarrow> s \<le> length (graph_edges g)"
    "\<And>s q. s \<in> set ss \<Longrightarrow> q \<in> set (B s) \<Longrightarrow> rend g q = n"
    "\<And>s qs B. s \<in> set ss \<Longrightarrow> extend g target (outgoing_ids g n) qs B s = B s"
    "distinct (outgoing_ids g n)"
    "\<And>e. e \<in> set (outgoing_ids g n) \<Longrightarrow> e < length (graph_edges g) \<and> from_node (graph_edges g ! e) = n"
    "fold_result (expand_state g sc k target n) ss st = Inr st'"
  shows "\<exists>ps'. sim g sc st' ps' (extend g target (outgoing_ids g n) (concat (map B ss)) B)"
  using assms
proof (induction ss arbitrary: st ps B)
  case Nil
  then show ?case by (auto simp: extend_none)
next
  case (Cons s ss)
  obtain arena buckets where st: "st = (arena, buckets)" by fastforce
  obtain st1 where st1: "expand_state g sc k target n s st = Inr st1"
      "fold_result (expand_state g sc k target n) ss st1 = Inr st'"
    using Cons.prems(7) by (auto split: sum.splits)
  have b: "\<forall>i \<in> set (buckets ! s). i < length arena" "map ((!) ps) (buckets ! s) = B s"
    using Cons.prems(1,2) by (auto simp: st sim_def)
  let ?B1 = "extend g target (outgoing_ids g n) (B s) B"
  obtain xs where one: "sim g sc st1 (ps @ xs) ?B1"
    using sim_entries [OF Cons.prems(1), of "buckets ! s" "B s" n k target st1] b Cons.prems(3,5,6) st1(1)
    by (auto simp: st expand_state_def)
  have eq: "map ?B1 ss = map B ss" using Cons.prems(4) by (intro map_cong refl) simp
  obtain ps' where "sim g sc st' ps' (extend g target (outgoing_ids g n) (concat (map ?B1 ss)) ?B1)"
    using Cons.IH [OF one] Cons.prems(2-6) st1(2) by (metis list.set_intros(2))
  then show ?case unfolding eq extend_paths by auto
qed

lemma map_sort_key: "map h (sort_key (\<lambda>x. f (h x)) xs) = sort_key f (map h xs)"
proof (induction xs)
  case (Cons x xs)
  have "map h (insort_key (\<lambda>x. f (h x)) x ys) = insort_key f (h x) (map h ys)" for ys
    by (induction ys) auto
  then show ?case using Cons by simp
qed simp

lemma sort_key_cong: "(\<And>x. x \<in> set xs \<Longrightarrow> f x = f' x) \<Longrightarrow> sort_key f xs = sort_key f' xs"
proof (induction xs)
  case (Cons x xs)
  have "insort_key f x ys = insort_key f' x ys" if "\<And>y. y \<in> set ys \<Longrightarrow> f y = f' y" "f x = f' x" for ys
    using that by (induction ys) auto
  from this [of "sort_key f' xs"] show ?case using Cons by simp
qed simp

lemma sorted_paths:
  assumes "arena_paths g sc arena ps" "\<forall>i \<in> set b. i < length arena"
  shows "map ((!) ps) (take k (sort_key (\<lambda>i. ent_cost (arena ! i)) b)) = take k (sort_key (rcost g sc) (map ((!) ps) b))"
proof -
  have "sort_key (\<lambda>i. ent_cost (arena ! i)) b = sort_key (\<lambda>i. rcost g sc (ps ! i)) b"
    using assms by (intro sort_key_cong) (auto simp: arena_paths_def entry_path_def)
  then show ?thesis by (simp add: map_sort_key take_map [symmetric])
qed

lemma sim_rank:
  assumes "sim g sc (arena, buckets) ps B" "distinct ss" "\<And>s. s \<in> set ss \<Longrightarrow> s \<le> length (graph_edges g)"
  shows "sim g sc (arena, fold (rank_state k arena) ss buckets) ps
    (\<lambda>s. if s \<in> set ss then take k (sort_key (rcost g sc) (B s)) else B s)"
  using assms
proof (induction ss arbitrary: buckets B)
  case (Cons s ss)
  let ?B1 = "B(s := take k (sort_key (rcost g sc) (B s)))"
  have ar: "arena_paths g sc arena ps" and b: "\<forall>i \<in> set (buckets ! s). i < length arena" "map ((!) ps) (buckets ! s) = B s"
    using Cons.prems(1,3) by (auto simp: sim_def)
  have "s < length buckets" using Cons.prems(1) Cons.prems(3) [of s] by (simp add: sim_def)
  then have "sim g sc (arena, rank_state k arena s buckets) ps ?B1"
    using Cons.prems(1) sorted_paths [OF ar b(1), of k] b
    by (auto simp: sim_def rank_state_def nth_list_update dest!: in_set_takeD)
  from Cons.IH [OF this] Cons.prems(2,3)
  have "sim g sc (arena, fold (rank_state k arena) ss (rank_state k arena s buckets)) ps
    (\<lambda>t. if t \<in> set ss then take k (sort_key (rcost g sc) (?B1 t)) else ?B1 t)" by simp
  moreover have "(\<lambda>t. if t \<in> set ss then take k (sort_key (rcost g sc) (?B1 t)) else ?B1 t) =
    (\<lambda>t. if t \<in> set (s # ss) then take k (sort_key (rcost g sc) (B t)) else B t)"
    using Cons.prems(2) by auto
  ultimately show ?case by simp
qed simp

section \<open>The sweep keeps the cheapest paths of every state\<close>

lemma node_states_iff: "s \<in> set (node_states g n) \<longleftrightarrow> s \<le> length (graph_edges g) \<and> state_node g s = n"
  by (cases s) (auto simp: node_states_def ids_to_def state_node_def Suc_le_eq)

lemma paths_in_rend: "es \<in> paths_in g s \<Longrightarrow> rend g es = state_node g s"
  by (auto simp: paths_in_def rend_state)

lemma paths_in_0: "paths_in g 0 = {[]}"
proof -
  have zero: "state_of es = 0 \<longleftrightarrow> es = []" for es by (cases es) auto
  show ?thesis unfolding paths_in_def zero by auto
qed

lemma rpath_state_iff: "rpath g p \<Longrightarrow> state_of p \<in> set (node_states g n) \<longleftrightarrow> rend g p = n"
  using rpath_state [of g p] by (auto simp: node_states_iff rend_state)

lemma paths_in_edge:
  assumes "e < length (graph_edges g)"
  shows "paths_in g (Suc e) = (\<Union>s \<in> set (node_states g (from_node (graph_edges g ! e))). (#) e ` paths_in g s)"
proof (rule set_eqI)
  fix es
  let ?f = "from_node (graph_edges g ! e)" and ?R = "\<lambda>es. \<exists>s \<in> set (node_states g (from_node (graph_edges g ! e))). es \<in> (#) e ` paths_in g s"
  have "es \<in> paths_in g (Suc e) \<longleftrightarrow> (\<exists>p. es = e # p \<and> rpath g p \<and> ?f = rend g p)"
    using assms by (cases es) (auto simp: paths_in_def)
  also have "\<dots> \<longleftrightarrow> (\<exists>p. es = e # p \<and> rpath g p \<and> state_of p \<in> set (node_states g ?f))"
    using rpath_state_iff by metis
  also have "\<dots> \<longleftrightarrow> ?R es"
    by (auto simp: paths_in_def)
  finally show "es \<in> paths_in g (Suc e) \<longleftrightarrow> es \<in> (\<Union>s \<in> set (node_states g ?f). (#) e ` paths_in g s)"
    by simp
qed

definition sweep_ok :: "segment_graph \<Rightarrow> (edge option \<Rightarrow> edge \<Rightarrow> cost) \<Rightarrow> nat \<Rightarrow> nat \<Rightarrow> nat \<Rightarrow> (nat \<Rightarrow> nat list list) \<Rightarrow> bool" where
  "sweep_ok g sc k target n B \<longleftrightarrow>
     (\<forall>s \<le> length (graph_edges g). state_node g s < n \<longrightarrow> covers k (rcost g sc) (paths_in g s) (B s)) \<and>
     (\<forall>e < length (graph_edges g). n \<le> to_node (graph_edges g ! e) \<and> to_node (graph_edges g ! e) \<le> target \<longrightarrow>
        B (Suc e) = (if from_node (graph_edges g ! e) < n
          then map ((#) e) (concat (map B (node_states g (from_node (graph_edges g ! e))))) else [])) \<and>
     (n = 0 \<longrightarrow> B 0 = [[]])"

definition ranked :: "segment_graph \<Rightarrow> (edge option \<Rightarrow> edge \<Rightarrow> cost) \<Rightarrow> nat \<Rightarrow> nat \<Rightarrow> (nat \<Rightarrow> nat list list) \<Rightarrow> nat \<Rightarrow> nat list list" where
  "ranked g sc k n B s = (if s \<in> set (node_states g n) then take k (sort_key (rcost g sc) (B s)) else B s)"

lemma extend_covers:
  assumes "covers k (rcost g sc) (paths_in g s) B"
  shows "covers k (rcost g sc) ((#) e ` paths_in g s) (map ((#) e) B)"
proof (rule covers_map [OF assms])
  fix p q assume pq: "p \<in> paths_in g s" "q \<in> paths_in g s" "rcost g sc p \<le> rcost g sc q"
  then have "rlast g p = rlast g q" by (intro rlast_state) (simp add: paths_in_def)
  then show "rcost g sc (e # p) \<le> rcost g sc (e # q)"
    using pq(3) by (simp add: cost_saturating_add_mono)
qed simp

context indexed_graph
begin

lemma arriving_covers:
  assumes g: "builds g" and ok: "sweep_ok g sc k target n B" and s: "s \<in> set (node_states g n)" "n \<le> target"
  shows "covers k (rcost g sc) (paths_in g s) (B s)"
proof (cases s)
  case 0
  then show ?thesis
    using ok s(1) by (intro covers_all) (auto simp: sweep_ok_def node_states_iff state_node_def paths_in_0)
next
  case (Suc e)
  let ?f = "from_node (graph_edges g ! e)"
  have e: "e < length (graph_edges g)" "to_node (graph_edges g ! e) = n"
    using s(1) Suc by (auto simp: node_states_iff state_node_def)
  have f: "?f < n" using indexed_forward [OF g nth_mem [OF e(1)]] e(2) by simp
  have B: "B (Suc e) = concat (map (\<lambda>t. map ((#) e) (B t)) (node_states g ?f))"
    using ok e f s(2) Suc by (simp add: sweep_ok_def map_concat comp_def)
  have "covers k (rcost g sc) ((#) e ` paths_in g t) (map ((#) e) (B t))" if "t \<in> set (node_states g ?f)" for t
    using ok that f by (intro extend_covers) (auto simp: sweep_ok_def node_states_iff)
  then show ?thesis
    unfolding Suc B paths_in_edge [OF e(1)] by (intro covers_concat distinct_node_states) (auto simp: paths_in_def)
qed

lemma ranked_covers:
  assumes "builds g" "sweep_ok g sc k target n B" "n \<le> target" "s \<le> length (graph_edges g)" "state_node g s \<le> n"
  shows "covers k (rcost g sc) (paths_in g s) (ranked g sc k n B s)"
proof (cases "state_node g s = n")
  case True
  then show ?thesis
    using arriving_covers [OF assms(1,2) _ assms(3)] assms(4) by (simp add: ranked_def node_states_iff covers_take_sort)
next
  case False
  then show ?thesis using assms by (simp add: ranked_def node_states_iff sweep_ok_def)
qed

lemma out_ids: "builds g \<Longrightarrow> e \<in> set (outgoing_ids g n) \<longleftrightarrow> e < length (graph_edges g) \<and> from_node (graph_edges g ! e) = n"
  by (auto simp: indexed_ids)

lemma extend_keeps:
  assumes "builds g" "s \<le> length (graph_edges g)" "state_node g s \<le> n"
  shows "extend g target (outgoing_ids g n) qs B s = B s"
proof -
  have "e \<notin> set (outgoing_ids g n)" if "s = Suc e" for e
    using assms that out_ids [OF assms(1), of e n] indexed_forward [OF assms(1) nth_mem, of e]
    by (auto simp: state_node_def)
  then show ?thesis by (auto simp: extend_def split: nat.splits)
qed

lemma expanded_ok:
  assumes g: "builds g" and ok: "sweep_ok g sc k target n B" and n: "n < target"
  shows "sweep_ok g sc k target (Suc n)
    (extend g target (outgoing_ids g n) (concat (map (ranked g sc k n B) (node_states g n))) (ranked g sc k n B))"
    (is "sweep_ok g sc k target (Suc n) ?B2")
proof -
  let ?B1 = "ranked g sc k n B"
  have keep: "?B2 s = ?B1 s" if "s \<le> length (graph_edges g)" "state_node g s \<le> n" for s
    by (rule extend_keeps [OF g that])
  have "covers k (rcost g sc) (paths_in g s) (?B2 s)" if "s \<le> length (graph_edges g)" "state_node g s < Suc n" for s
    using keep [OF that(1)] ranked_covers [OF g ok _ that(1)] that(2) n by simp
  moreover have "?B2 (Suc e) = (if from_node (graph_edges g ! e) < Suc n
          then map ((#) e) (concat (map ?B2 (node_states g (from_node (graph_edges g ! e))))) else [])"
    if e: "e < length (graph_edges g)" "Suc n \<le> to_node (graph_edges g ! e)" "to_node (graph_edges g ! e) \<le> target" for e
  proof -
    let ?f = "from_node (graph_edges g ! e)"
    have B1: "?B1 (Suc e) = (if ?f < n then map ((#) e) (concat (map B (node_states g ?f))) else [])"
      using ok e by (auto simp: sweep_ok_def ranked_def node_states_iff state_node_def)
    have same: "concat (map ?B2 (node_states g ?f)) = concat (map ?B1 (node_states g ?f))" if "?f \<le> n"
      using that keep by (intro arg_cong [of _ _ concat] map_cong refl) (auto simp: node_states_iff)
    consider "?f < n" | "?f = n" | "n < ?f" by linarith
    then show ?thesis
    proof cases
      case 1
      then have "concat (map ?B1 (node_states g ?f)) = concat (map B (node_states g ?f))"
        by (intro arg_cong [of _ _ concat] map_cong refl) (auto simp: ranked_def node_states_iff)
      then show ?thesis
        using 1 B1 same out_ids [OF g, of e n] by (simp add: extend_def)
    next
      case 2
      then show ?thesis
        using B1 same out_ids [OF g, of e n] e by (simp add: extend_def)
    next
      case 3
      then show ?thesis
        using B1 out_ids [OF g, of e n] by (simp add: extend_def)
    qed
  qed
  ultimately show ?thesis by (simp add: sweep_ok_def)
qed

end

section \<open>The arena bound\<close>

text \<open>The sweep stays within the \<open>u32\<close> entry indexes when the arena can take every extension: the buckets
  it touches hold at most \<open>k\<close> entries, and an entry is extended by the edges of its node.\<close>

lemma push_total:
  assumes "length (fst st) < 2 ^ 32"
  shows "\<exists>st'. push_edge g sc k target i ent prev e st = Inr st' \<and> length (fst st') \<le> length (fst st) + 1 \<and>
    (\<forall>s. s \<noteq> Suc e \<longrightarrow> snd st' ! s = snd st ! s)"
  using assms by (cases st) (auto simp: push_edge_def split: option.splits)

lemma pushes_total:
  assumes "length (fst st) + length L \<le> 2 ^ 32"
  shows "\<exists>st'. fold_result (push_edge g sc k target i ent prev) L st = Inr st' \<and> length (fst st') \<le> length (fst st) + length L \<and>
    (\<forall>s. s \<notin> Suc ` set L \<longrightarrow> snd st' ! s = snd st ! s)"
  using assms
proof (induction L arbitrary: st)
  case (Cons e L)
  obtain st1 where st1: "push_edge g sc k target i ent prev e st = Inr st1" "length (fst st1) \<le> length (fst st) + 1"
      "\<And>s. s \<noteq> Suc e \<Longrightarrow> snd st1 ! s = snd st ! s"
    using push_total [of st g sc k target i ent prev e] Cons.prems by auto
  then show ?case using Cons.IH [of st1] Cons.prems by fastforce
qed simp

lemma entries_total:
  assumes "length (fst st) + length idxs * length (outgoing_ids g n) \<le> 2 ^ 32"
  shows "\<exists>st'. fold_result (expand_entry g sc k target n) idxs st = Inr st' \<and>
    length (fst st') \<le> length (fst st) + length idxs * length (outgoing_ids g n) \<and>
    (\<forall>s. s \<notin> Suc ` set (outgoing_ids g n) \<longrightarrow> snd st' ! s = snd st ! s)"
  using assms
proof (induction idxs arbitrary: st)
  case (Cons i idxs)
  let ?L = "outgoing_ids g n"
  obtain st1 where st1: "expand_entry g sc k target n i st = Inr st1" "length (fst st1) \<le> length (fst st) + length ?L"
      "\<And>s. s \<notin> Suc ` set ?L \<Longrightarrow> snd st1 ! s = snd st ! s"
    using pushes_total [of st ?L g sc k target i "fst st ! i" "Option.bind (ent_last (fst st ! i)) (edge_at g)"] Cons.prems
    by (cases st) (auto simp: expand_entry_def Let_def)
  then show ?case using Cons.IH [of st1] Cons.prems by fastforce
qed simp

lemma states_total:
  assumes "length (fst st) + length ss * (k * length (outgoing_ids g n)) \<le> 2 ^ 32"
    "\<And>s. s \<in> set ss \<Longrightarrow> length (snd st ! s) \<le> k" "\<And>s. s \<in> set ss \<Longrightarrow> s \<notin> Suc ` set (outgoing_ids g n)"
  shows "\<exists>st'. fold_result (expand_state g sc k target n) ss st = Inr st' \<and>
    length (fst st') \<le> length (fst st) + length ss * (k * length (outgoing_ids g n))"
  using assms
proof (induction ss arbitrary: st)
  case (Cons s ss)
  let ?L = "outgoing_ids g n"
  have le: "length (snd st ! s) * length ?L \<le> k * length ?L"
    using Cons.prems(2) by (intro mult_right_mono) auto
  obtain st1 where st1: "expand_state g sc k target n s st = Inr st1" "length (fst st1) \<le> length (fst st) + k * length ?L"
      "\<And>t. t \<notin> Suc ` set ?L \<Longrightarrow> snd st1 ! t = snd st ! t"
  proof -
    have fits: "length (fst st) + length (snd st ! s) * length ?L \<le> 2 ^ 32"
      using le Cons.prems(1) unfolding list.size(4) add_mult_distrib by linarith
    obtain st1 where one: "fold_result (expand_entry g sc k target n) (snd st ! s) st = Inr st1"
        "length (fst st1) \<le> length (fst st) + length (snd st ! s) * length ?L"
        "\<forall>t. t \<notin> Suc ` set ?L \<longrightarrow> snd st1 ! t = snd st ! t"
      using entries_total [OF fits, of sc k target] by blast
    have "length (fst st1) \<le> length (fst st) + k * length ?L" using one(2) le by linarith
    moreover have "expand_state g sc k target n s st = Inr st1"
      using one(1) by (cases st) (simp add: expand_state_def)
    ultimately show ?thesis using that one(3) by blast
  qed
  have "length (fst st1) + length ss * (k * length ?L) \<le> 2 ^ 32" using st1(2) Cons.prems(1) by simp
  from Cons.IH [OF this] Cons.prems(2,3) st1 show ?case by fastforce
qed simp

lemma rank_lengths:
  assumes "distinct ss" "\<And>s. s \<in> set ss \<Longrightarrow> s < length b"
  shows "s \<in> set ss \<Longrightarrow> length (fold (rank_state k arena) ss b ! s) \<le> k"
proof -
  have keep: "t \<notin> set ss \<Longrightarrow> fold (rank_state k arena) ss b ! t = b ! t" for t ss b
    by (induction ss arbitrary: b) (auto simp: rank_state_def)
  have one: "length (rank_state k arena t b) = length b" "t < length b \<Longrightarrow> length (rank_state k arena t b ! t) \<le> k" for t b
    by (auto simp: rank_state_def)
  show "s \<in> set ss \<Longrightarrow> length (fold (rank_state k arena) ss b ! s) \<le> k"
    using assms
  proof (induction ss arbitrary: b)
    case (Cons t ss)
    then show ?case
      using keep [of s ss "rank_state k arena t b"] one by (cases "s = t") auto
  qed simp
qed

context indexed_graph
begin

lemma swept_states: "length (concat (map (node_states g) [0..<m])) \<le> length (graph_edges g) + 1"
proof -
  have "distinct (concat (map (node_states g) [0..<m]))"
    by (induction m) (auto simp: distinct_node_states node_states_iff)
  then have "length (concat (map (node_states g) [0..<m])) = card (set (concat (map (node_states g) [0..<m])))"
    by (simp only: distinct_card)
  also have "\<dots> \<le> card {0..length (graph_edges g)}"
    by (intro card_mono) (auto simp: node_states_iff)
  finally show ?thesis by simp
qed

lemma sweep_node_total:
  assumes g: "builds g" and inc: "states_at inc n = node_states g n" and len: "length (snd st) = length (graph_edges g) + 1"
    and fits: "length (fst st) + length (node_states g n) * (k * length (graph_edges g)) \<le> 2 ^ 32"
  shows "\<exists>st'. sweep_node g sc k target inc n st = Inr st' \<and>
    length (fst st') \<le> length (fst st) + length (node_states g n) * (k * length (graph_edges g))"
proof (cases "n = target")
  case True
  then show ?thesis by (cases st) (simp add: sweep_node_def)
next
  case False
  obtain arena b where st: "st = (arena, b)" by fastforce
  let ?b = "fold (rank_state k arena) (node_states g n) b"
  have "length (outgoing_ids g n) \<le> length (graph_edges g)"
    using length_filter_le [of _ "[0..<length (graph_edges g)]"] by (simp add: indexed_ids [OF g])
  then have le: "length (node_states g n) * (k * length (outgoing_ids g n)) \<le> length (node_states g n) * (k * length (graph_edges g))"
    by (intro mult_left_mono) auto
  have "s \<notin> Suc ` set (outgoing_ids g n)" if "s \<in> set (node_states g n)" for s
  proof
    assume "s \<in> Suc ` set (outgoing_ids g n)"
    then obtain e where "s = Suc e" "e < length (graph_edges g)" "from_node (graph_edges g ! e) = n"
      using out_ids [OF g] by auto
    then show False
      using that indexed_forward [OF g nth_mem, of e] by (simp add: node_states_iff state_node_def)
  qed
  moreover have "length (?b ! s) \<le> k" if "s \<in> set (node_states g n)" for s
    using that len by (intro rank_lengths distinct_node_states) (auto simp: st node_states_iff)
  moreover have "length (fst (arena, ?b)) + length (node_states g n) * (k * length (outgoing_ids g n)) \<le> 2 ^ 32"
    using fits le unfolding st fst_conv by linarith
  ultimately obtain st' where st': "fold_result (expand_state g sc k target n) (node_states g n) (arena, ?b) = Inr st'"
      "length (fst st') \<le> length arena + length (node_states g n) * (k * length (outgoing_ids g n))"
    using states_total [of "(arena, ?b)" "node_states g n" k g n sc target] by auto
  have "length (fst st') \<le> length (fst st) + length (node_states g n) * (k * length (graph_edges g))"
    using st'(2) le unfolding st fst_conv by linarith
  then show ?thesis
    using st'(1) False by (simp add: st sweep_node_def inc)
qed

end

section \<open>The whole search\<close>

lemma fold_result_snoc:
  "fold_result f (xs @ [x]) st = (case fold_result f xs st of Inl err \<Rightarrow> Inl err | Inr st' \<Rightarrow> f x st')"
  by (induction xs arbitrary: st) (auto split: sum.splits)

lemma fold_result_error:
  assumes "\<And>x st err. f x st = Inl err \<Longrightarrow> err = E"
  shows "fold_result f xs st = Inl err \<Longrightarrow> err = E"
  using assms by (induction xs arbitrary: st) (auto split: sum.splits)

lemma sweep_node_error: "sweep_node g sc k target inc n st = Inl err \<Longrightarrow> err = TooManyEntries k"
proof -
  have push: "push_edge g sc k target i ent prev e st = Inl err \<Longrightarrow> err = TooManyEntries k" for i ent prev e st err
    by (cases st) (auto simp: push_edge_def split: option.splits if_splits)
  have entry: "expand_entry g sc k target n i st = Inl err \<Longrightarrow> err = TooManyEntries k" for i st err
    by (cases st) (auto simp: expand_entry_def Let_def intro: fold_result_error [OF push])
  have state: "expand_state g sc k target n s st = Inl err \<Longrightarrow> err = TooManyEntries k" for s st err
    by (cases st) (auto simp: expand_state_def intro: fold_result_error [OF entry])
  show "sweep_node g sc k target inc n st = Inl err \<Longrightarrow> err = TooManyEntries k"
    by (cases st) (auto simp: sweep_node_def Let_def intro: fold_result_error [OF state] split: if_splits)
qed

definition start_state :: "segment_graph \<Rightarrow> kb_state" where
  "start_state g = ([\<lparr>ent_cost = 0, ent_last = None, ent_previous = None\<rparr>],
     (replicate (length (graph_edges g) + 1) [])[0 := [0]])"

lemma sim_start: "sim g sc (start_state g) [[]] (\<lambda>s. if s = 0 then [[]] else [])"
proof -
  have "([0] # replicate (length (graph_edges g)) []) ! s = (if s = 0 then [0] else [])" if "s \<le> length (graph_edges g)" for s
    using that by (cases s) auto
  then show ?thesis by (simp add: sim_def start_state_def arena_paths_def entry_path_def)
qed

lemma start_ok: "sweep_ok g sc k target 0 (\<lambda>s. if s = 0 then [[]] else [])"
  by (auto simp: sweep_ok_def)

context indexed_graph
begin

lemma sweep_step:
  assumes g: "builds g" and inc: "states_at inc n = node_states g n" and n: "n \<le> target"
    and sim: "sim g sc st ps B" and ok: "sweep_ok g sc k target n B"
    and step: "sweep_node g sc k target inc n st = Inr st'"
  shows "if n = target then sim g sc st' ps (ranked g sc k n B)
    else \<exists>ps' B'. sim g sc st' ps' B' \<and> sweep_ok g sc k target (Suc n) B'"
proof -
  obtain arena b where st: "st = (arena, b)" by fastforce
  let ?b = "fold (rank_state k arena) (node_states g n) b"
  have rank: "sim g sc (arena, ?b) ps (ranked g sc k n B)"
    using sim_rank [of g sc arena b ps B "node_states g n" k] sim distinct_node_states
    by (simp add: st ranked_def [abs_def] node_states_iff)
  show ?thesis
  proof (cases "n = target")
    case True
    then show ?thesis using step rank by (auto simp: st sweep_node_def inc [unfolded True])
  next
    case False
    have "rend g q = n" if "s \<in> set (node_states g n)" "q \<in> set (ranked g sc k n B s)" for s q
      using that ranked_covers [OF g ok n] paths_in_rend by (fastforce simp: covers_def node_states_iff)
    moreover have "extend g target (outgoing_ids g n) qs B' s = B' s" if "s \<in> set (node_states g n)" for s qs B'
      using that extend_keeps [OF g] by (simp add: node_states_iff)
    moreover have "distinct (outgoing_ids g n)" by (simp add: indexed_ids [OF g])
    ultimately obtain ps' where "sim g sc st' ps' (extend g target (outgoing_ids g n)
        (concat (map (ranked g sc k n B) (node_states g n))) (ranked g sc k n B))"
      using sim_states [OF rank, of "node_states g n" n target k st'] step False out_ids [OF g]
      by (auto simp: st sweep_node_def inc node_states_iff)
    then show ?thesis
      using expanded_ok [OF g ok] False n by auto
  qed
qed

lemma sweep_prefix:
  assumes g: "builds g" and inc: "\<And>n. n < node_count g \<Longrightarrow> states_at inc n = node_states g n" and t: "target < node_count g"
  shows "m \<le> target \<Longrightarrow> fold_result (sweep_node g sc k target inc) [0..<m] (start_state g) = Inr st \<Longrightarrow>
    \<exists>ps B. sim g sc st ps B \<and> sweep_ok g sc k target m B"
proof (induction m arbitrary: st)
  case 0
  then show ?case using sim_start start_ok by fastforce
next
  case (Suc m)
  obtain st1 where st1: "fold_result (sweep_node g sc k target inc) [0..<m] (start_state g) = Inr st1"
      "sweep_node g sc k target inc m st1 = Inr st"
    using Suc.prems(2) by (auto simp: fold_result_snoc split: sum.splits)
  obtain ps B where "sim g sc st1 ps B" "sweep_ok g sc k target m B" using Suc.IH [OF _ st1(1)] Suc.prems(1) by auto
  then show ?case
    using sweep_step [OF g inc, of m target sc st1 ps B k st] Suc.prems(1) t st1(2) by auto
qed

lemma sweep_whole:
  assumes g: "builds g" and inc: "\<And>n. n < node_count g \<Longrightarrow> states_at inc n = node_states g n" and t: "target < node_count g"
    and run: "fold_result (sweep_node g sc k target inc) [0..<target + 1] (start_state g) = Inr st"
  shows "\<exists>ps B. sim g sc st ps B \<and> (\<forall>s \<in> set (node_states g target). covers k (rcost g sc) (paths_in g s) (B s))"
proof -
  obtain st1 where st1: "fold_result (sweep_node g sc k target inc) [0..<target] (start_state g) = Inr st1"
      "sweep_node g sc k target inc target st1 = Inr st"
    using run by (auto simp: fold_result_snoc split: sum.splits)
  obtain ps B where B: "sim g sc st1 ps B" "sweep_ok g sc k target target B"
    using sweep_prefix [OF g inc t _ st1(1)] by auto
  then have "sim g sc st ps (ranked g sc k target B)"
    using sweep_step [OF g inc [OF t] _ B st1(2)] by simp
  then show ?thesis
    using ranked_covers [OF g B(2)] by (fastforce simp: node_states_iff)
qed

lemma sweep_total:
  assumes g: "builds g" and inc: "\<And>n. n < node_count g \<Longrightarrow> states_at inc n = node_states g n" and t: "target < node_count g"
    and fits: "1 + (length (graph_edges g) + 1) * (k * length (graph_edges g)) \<le> 2 ^ 32"
  shows "m \<le> target + 1 \<Longrightarrow> \<exists>st. fold_result (sweep_node g sc k target inc) [0..<m] (start_state g) = Inr st \<and>
    length (fst st) \<le> 1 + length (concat (map (node_states g) [0..<m])) * (k * length (graph_edges g))"
proof (induction m)
  case 0
  show ?case by (simp add: start_state_def)
next
  case (Suc m)
  let ?w = "k * length (graph_edges g)"
  obtain st where st: "fold_result (sweep_node g sc k target inc) [0..<m] (start_state g) = Inr st"
      "length (fst st) \<le> 1 + length (concat (map (node_states g) [0..<m])) * ?w"
    using Suc by auto
  have len: "length (snd st) = length (graph_edges g) + 1"
    using sweep_prefix [OF g inc t _ st(1)] Suc.prems by (cases st) (auto simp: sim_def)
  have "length (concat (map (node_states g) [0..<Suc m])) * ?w \<le> (length (graph_edges g) + 1) * ?w"
    by (intro mult_right_mono swept_states) simp
  moreover have split: "length (concat (map (node_states g) [0..<Suc m])) * ?w =
      length (concat (map (node_states g) [0..<m])) * ?w + length (node_states g m) * ?w"
    by (simp add: add_mult_distrib)
  ultimately have "length (fst st) + length (node_states g m) * ?w \<le> 2 ^ 32"
    using st(2) fits by linarith
  then obtain st' where "sweep_node g sc k target inc m st = Inr st'"
      "length (fst st') \<le> length (fst st) + length (node_states g m) * ?w"
    using sweep_node_total [OF g inc len, of m k sc target] Suc.prems t by auto
  then show ?case
    using st split by (auto simp: fold_result_snoc simp del: upt_Suc_append)
qed

end

section \<open>Properties\<close>

text \<open>A path as the answer gives it, in input order, and its cost: each edge charged after the one
  before it, added with saturation.\<close>

fun id_path :: "segment_graph \<Rightarrow> nat \<Rightarrow> nat list \<Rightarrow> nat \<Rightarrow> bool" where
  "id_path g m [] n \<longleftrightarrow> m = n"
| "id_path g m (e # es) n \<longleftrightarrow> e < length (graph_edges g) \<and> from_node (graph_edges g ! e) = m \<and>
     id_path g (to_node (graph_edges g ! e)) es n"

fun cost_along :: "segment_graph \<Rightarrow> (edge option \<Rightarrow> edge \<Rightarrow> cost) \<Rightarrow> edge option \<Rightarrow> cost \<Rightarrow> nat list \<Rightarrow> cost" where
  "cost_along g sc prev acc [] = acc"
| "cost_along g sc prev acc (e # es) = cost_along g sc (Some (graph_edges g ! e))
     (cost_saturating_add acc (sc prev (graph_edges g ! e))) es"

lemma id_path_snoc:
  "id_path g m (es @ [e]) n \<longleftrightarrow> e < length (graph_edges g) \<and> id_path g m es (from_node (graph_edges g ! e)) \<and>
     to_node (graph_edges g ! e) = n"
  by (induction es arbitrary: m) auto

lemma rpath_rev: "id_path g 0 (rev es) n \<longleftrightarrow> rpath g es \<and> rend g es = n"
proof (induction es arbitrary: n)
  case (Cons e es)
  show ?case unfolding rev.simps id_path_snoc Cons.IH rpath.simps rend.simps by metis
qed auto

lemma cost_along_snoc:
  "cost_along g sc prev acc (es @ [e]) = cost_saturating_add (cost_along g sc prev acc es)
     (sc (if es = [] then prev else Some (graph_edges g ! last es)) (graph_edges g ! e))"
  by (induction es arbitrary: prev acc) auto

lemma rcost_rev: "cost_along g sc None 0 (rev es) = rcost g sc es"
proof (induction es)
  case (Cons e es)
  show ?case unfolding rev.simps cost_along_snoc Cons.IH by (cases es) (auto simp: last_rev)
qed simp

definition cheapest :: "segment_graph \<Rightarrow> (edge option \<Rightarrow> edge \<Rightarrow> cost) \<Rightarrow> nat \<Rightarrow> nat \<Rightarrow> decoded_path list \<Rightarrow> bool" where
  "cheapest g sc k target paths \<longleftrightarrow> length paths \<le> k \<and> distinct (map path_edges paths) \<and> sorted (map path_cost paths) \<and>
     (\<forall>d \<in> set paths. id_path g 0 (path_edges d) target \<and> path_cost d = cost_along g sc None 0 (path_edges d)) \<and>
     (\<forall>p. id_path g 0 p target \<longrightarrow> p \<notin> path_edges ` set paths \<longrightarrow>
        length paths = k \<and> (\<forall>d \<in> set paths. path_cost d \<le> cost_along g sc None 0 p))"

lemma those_map_Some: "(\<And>x. x \<in> set xs \<Longrightarrow> f x = Some (h x)) \<Longrightarrow> those (map f xs) = Some (map h xs)"
  by (induction xs) auto

lemma covers_cheapest:
  assumes cov: "covers k (rcost g sc) {es. rpath g es \<and> rend g es = target} ps" and "length ps \<le> k" "sorted (map (rcost g sc) ps)"
  shows "cheapest g sc k target (map (\<lambda>es. \<lparr>path_cost = rcost g sc es, path_edges = rev es\<rparr>) ps)"
proof -
  have "length ps = k \<and> (\<forall>es \<in> set ps. rcost g sc es \<le> cost_along g sc None 0 p)"
    if p: "id_path g 0 p target" "p \<notin> rev ` set ps" for p
  proof -
    have "rpath g (rev p)" "rend g (rev p) = target" using p(1) rpath_rev [of g "rev p"] by simp_all
    moreover have "rev p \<notin> set ps" using p(2) by (metis imageI rev_rev_ident)
    ultimately have "k \<le> length (filter (\<lambda>q. rcost g sc q \<le> rcost g sc (rev p)) ps)"
      using cov by (simp add: covers_def)
    then have "length (filter (\<lambda>q. rcost g sc q \<le> rcost g sc (rev p)) ps) = length ps" "length ps = k"
      using assms(2) length_filter_le [of "\<lambda>q. rcost g sc q \<le> rcost g sc (rev p)" ps] by linarith+
    then show ?thesis
      using rcost_rev [of g sc "rev p"] by (metis (no_types, lifting) filter_id_conv length_filter_less less_irrefl rev_rev_ident)
  qed
  moreover have "distinct (map rev ps)" "\<forall>es \<in> set ps. id_path g 0 (rev es) target"
    using cov by (auto simp: covers_def distinct_map inj_on_def rpath_rev)
  ultimately show ?thesis
    using assms(2,3) by (auto simp: cheapest_def comp_def rcost_rev image_image)
qed

lemma k_best_to_run:
  assumes "k \<le> MAX_K" "0 < k" "target < node_count g" "incoming_index g = Inr inc"
  shows "k_best_to g sc k target =
    (case fold_result (sweep_node g sc k target inc) [0..<target + 1] (start_state g) of
       Inl err \<Rightarrow> Some (Inl err)
     | Inr (arena, buckets) \<Rightarrow> map_option Inr (those (map (reconstruct arena)
         (take k (sort_key (\<lambda>i. ent_cost (arena ! i)) (concat (map (\<lambda>s. buckets ! s) (states_at inc target))))))))"
  using assms unfolding k_best_to_def start_state_def Let_def by simp

context indexed_graph
begin

lemma k_best_to_answer:
  assumes g: "builds g"
  shows "\<exists>r. k_best_to g sc k target = Some r \<and>
    (case r of
       Inl err \<Rightarrow> MAX_K < k \<and> err = KTooLarge k MAX_K \<or>
         2 ^ 32 \<le> length (graph_edges g) \<and> err = TooManyEdges (length (graph_edges g)) \<or>
         2 ^ 32 < 1 + (length (graph_edges g) + 1) * (k * length (graph_edges g)) \<and> err = TooManyEntries k
     | Inr paths \<Rightarrow> k \<le> MAX_K \<and> cheapest g sc k target paths)"
proof -
  have none: "\<not> id_path g 0 p target" if "node_count g \<le> target" for p
  proof -
    have "rend g es < node_count g" if "rpath g es" for es
      using that indexed_forward [OF g nth_mem] by (cases es) (auto simp: node_count_def)
    from this [of "rev p"] show ?thesis using that rpath_rev [of g "rev p" target] by auto
  qed
  consider "MAX_K < k" | "k \<le> MAX_K" "k = 0 \<or> node_count g \<le> target" | "k \<le> MAX_K" "0 < k" "target < node_count g" by linarith
  then show ?thesis
  proof cases
    case 1
    then show ?thesis by (simp add: k_best_to_def)
  next
    case 2
    then show ?thesis using none by (auto simp: k_best_to_def cheapest_def)
  next
    case 3
    have range: "\<forall>e \<in> set (graph_edges g). to_node e < node_count g" using indexed_forward [OF g] by simp
    show ?thesis
    proof (cases "2 ^ 32 \<le> length (graph_edges g)")
      case True
      then show ?thesis using incoming_index_spec [OF range] 3 by (simp add: k_best_to_def)
    next
      case False
      then obtain inc where inc: "incoming_index g = Inr inc" "\<And>n. n < node_count g \<Longrightarrow> states_at inc n = node_states g n"
        using incoming_index_spec [OF range] by (auto simp: node_states_def)
      show ?thesis
      proof (cases "fold_result (sweep_node g sc k target inc) [0..<target + 1] (start_state g)")
        case (Inl err)
        then have "err = TooManyEntries k" "\<not> 1 + (length (graph_edges g) + 1) * (k * length (graph_edges g)) \<le> 2 ^ 32"
          using fold_result_error [OF sweep_node_error] sweep_total [OF g inc(2) 3(3), of k "target + 1" sc] by fastforce+
        then show ?thesis
          unfolding k_best_to_run [OF 3 inc(1)] Inl sum.case by (intro exI [of _ "Inl err"]) simp
      next
        case (Inr st)
        obtain arena b where st: "st = (arena, b)" by fastforce
        obtain ps B where B: "sim g sc st ps B" "\<forall>s \<in> set (node_states g target). covers k (rcost g sc) (paths_in g s) (B s)"
          using sweep_whole [OF g inc(2) 3(3) Inr] by blast
        let ?f = "concat (map (\<lambda>s. b ! s) (node_states g target))"
        let ?top = "take k (sort_key (\<lambda>i. ent_cost (arena ! i)) ?f)"
        have ar: "arena_paths g sc arena ps" and idx: "\<forall>i \<in> set ?f. i < length arena"
          using B(1) by (auto simp: st sim_def node_states_iff)
        have "map ((!) ps) ?f = concat (map B (node_states g target))"
          unfolding map_concat using B(1) by (intro arg_cong [of _ _ concat]) (auto simp: st sim_def node_states_iff)
        then have top: "map ((!) ps) ?top = take k (sort_key (rcost g sc) (concat (map B (node_states g target))))"
          using sorted_paths [OF ar idx, of k] by simp
        have "(\<Union>s \<in> set (node_states g target). paths_in g s) = {es. rpath g es \<and> rend g es = target}"
          using rpath_state by (fastforce simp: paths_in_def node_states_iff rend_state)
        then have "covers k (rcost g sc) {es. rpath g es \<and> rend g es = target} (map ((!) ps) ?top)"
          using covers_take_sort [OF covers_concat [of "node_states g target" k "rcost g sc" "paths_in g" B]] B(2)
            distinct_node_states paths_in_disjoint by (simp add: top)
        moreover have "sorted (map (rcost g sc) (map ((!) ps) ?top))"
          unfolding top by (simp add: take_map [symmetric] sorted_wrt_take)
        ultimately have cheap: "cheapest g sc k target (map (\<lambda>es. \<lparr>path_cost = rcost g sc es, path_edges = rev es\<rparr>) (map ((!) ps) ?top))"
          by (intro covers_cheapest) auto
        have "those (map (reconstruct arena) ?top) = Some (map (\<lambda>i. \<lparr>path_cost = rcost g sc (ps ! i), path_edges = rev (ps ! i)\<rparr>) ?top)"
          using idx set_take_subset [of k "sort_key (\<lambda>i. ent_cost (arena ! i)) ?f"]
          by (intro those_map_Some reconstruct_path [OF ar]) auto
        then show ?thesis
          using 3(1) cheap unfolding k_best_to_run [OF 3 inc(1)] Inr st sum.case prod.case inc(2) [OF 3(3)]
          by (simp add: comp_def)
      qed
    qed
  qed
qed

end

text \<open>C1: \<open>k_best\<close> answers the \<open>k\<close> cheapest paths. On a parsed graph the search always returns. Its
  errors are a \<open>k\<close> past \<open>MAX_K\<close>, more edges than \<open>u32\<close> indexes address, or more partial paths than they
  address, which takes more than \<open>2^32\<close> extensions. Otherwise the answer is at most \<open>k\<close> distinct paths
  from byte zero to the target, each with its own first-order cost, cheapest first; a path to the
  target is left out only when there are \<open>k\<close> answers and each of them costs no more.\<close>

theorem k_best_spec:
  assumes "build_with_options input opts = Inr g"
  shows "\<exists>r. k_best_to g sc k target = Some r \<and>
    (case r of
       Inl err \<Rightarrow> MAX_K < k \<and> err = KTooLarge k MAX_K \<or>
         2 ^ 32 \<le> length (graph_edges g) \<and> err = TooManyEdges (length (graph_edges g)) \<or>
         2 ^ 32 < 1 + (length (graph_edges g) + 1) * (k * length (graph_edges g)) \<and> err = TooManyEntries k
     | Inr paths \<Rightarrow> k \<le> MAX_K \<and> cheapest g sc k target paths)"
  using assms by (intro parsed_ix.k_best_to_answer) blast

text \<open>At most three paths of the input \<open>xian\<close>, each edge costing one.\<close>

theorem k_best_spec_witness:
  "\<exists>g r. build_with_options [0x78, 0x69, 0x61, 0x6e] 0 = Inr g \<and> k_best g (\<lambda>p e. 1) 3 = Some r \<and>
     (\<forall>paths. r = Inr paths \<longrightarrow> cheapest g (\<lambda>p e. 1) 3 (graph_consumed g) paths)"
proof -
  obtain g where g: "build_with_options [0x78, 0x69, 0x61, 0x6e] 0 = Inr g"
    using build_ok [of "[0x78, 0x69, 0x61, 0x6e]" 0] by (auto simp: MAX_GRAPH_POSITION_def)
  obtain r where "k_best_to g (\<lambda>p e. 1) 3 (graph_consumed g) = Some r"
    and "\<And>paths. r = Inr paths \<Longrightarrow> cheapest g (\<lambda>p e. 1) 3 (graph_consumed g) paths"
    using k_best_spec [OF g, of "\<lambda>p e. 1" 3 "graph_consumed g"] by fastforce
  with g show ?thesis by (auto simp: k_best_def)
qed

end
