(* ===== verification/FullPinyin.thy ===== *)
theory FullPinyin
  imports SegmentGraph
begin

text \<open>
  \<open>crates/oxpinyin-core/src/parser.rs\<close>: the exhaustive full-pinyin parser. An input is cut into groups
  of lowercase letters separated by apostrophe runs; a grp is counted by dynamic programming, then
  enumerated by a depth-first search on an explicit stack, first into complete syllables and, when it
  has no such reading, up to its furthest readable byte. The two \<open>assert_eq!\<close> of the source, which
  compare the count with the enumeration, are the answer \<open>AssertFailed\<close>; \<open>None\<close> is a search that does
  not return. A vector used as a stack is a list with its last element first.
\<close>

section \<open>Data\<close>

definition MAX_PARSE_RESULTS :: nat where
  "MAX_PARSE_RESULTS = 4096"

definition OVER_LIMIT :: nat where
  "OVER_LIMIT = MAX_PARSE_RESULTS + 1"

record parsed_syllable =
  ps_syllable :: string
  ps_start :: nat
  ps_end :: nat
  ps_completeness :: completeness

record parse_result =
  pr_syllables :: "parsed_syllable list"
  pr_remainder :: bytes

datatype parse_error = TooManyAlternatives nat

datatype parse_stop = Rejected parse_error | AssertFailed

record group_paths =
  gp_paths :: "parsed_syllable list list"
  gp_consumed :: nat
  gp_complete :: bool

record frame =
  fr_cursor :: nat
  fr_next :: nat

definition frame_new :: "nat \<Rightarrow> nat \<Rightarrow> frame" where
  "frame_new cursor stop = \<lparr>fr_cursor = cursor, fr_next = min MAX_SYLLABLE_LEN (stop - cursor)\<rparr>"

section \<open>Helpers\<close>

definition slice :: "'a list \<Rightarrow> nat \<Rightarrow> nat \<Rightarrow> 'a list" where
  "slice xs i j = take (j - i) (drop i xs)"

definition complete_syllable :: "bytes \<Rightarrow> option_bits \<Rightarrow> string option" where
  "complete_syllable bs opts =
     (if \<not> valid_utf8 bs then None
      else case from_option_text (map byte_char bs) opts of
        None \<Rightarrow> None
      | Some key \<Rightarrow> if key_completeness key = Complete then Some (syllable_text key) else None)"

definition ascii_bytes :: "string \<Rightarrow> bytes" where
  "ascii_bytes s = map (\<lambda>c. word_of_nat (of_char c)) s"

definition is_partial_only :: "bytes \<Rightarrow> bool" where
  "is_partial_only bs \<longleftrightarrow>
     complete_syllable bs 0 = None \<and>
     list_ex (\<lambda>s. length bs < length s \<and> take (length bs) (ascii_bytes s) = bs) FULL_PINYIN_SYLLABLES"

definition longest_partial_prefix :: "bytes \<Rightarrow> nat" where
  "longest_partial_prefix bs =
     (case List.find (\<lambda>l. is_partial_only (take l bs)) (rev [1..<min MAX_SYLLABLE_LEN (length bs) + 1]) of
        Some l \<Rightarrow> l | None \<Rightarrow> 0)"

definition segment :: "string \<Rightarrow> nat \<Rightarrow> nat \<Rightarrow> completeness \<Rightarrow> parsed_syllable" where
  "segment s start stop c = \<lparr>ps_syllable = s, ps_start = start, ps_end = stop, ps_completeness = c\<rparr>"

definition ascii_text :: "bytes \<Rightarrow> string" where
  "ascii_text bs = map byte_char bs"

definition bounded_add :: "nat \<Rightarrow> nat \<Rightarrow> nat" where
  "bounded_add l r = (let s = saturating_add l r in if OVER_LIMIT < s then OVER_LIMIT else s)"

definition too_many_alternatives :: parse_error where
  "too_many_alternatives = TooManyAlternatives MAX_PARSE_RESULTS"

section \<open>Counting and enumerating the readings of a group\<close>

definition count_length :: "bytes \<Rightarrow> option_bits \<Rightarrow> nat \<Rightarrow> nat \<Rightarrow> nat list \<Rightarrow> nat list" where
  "count_length grp opts cursor len counts =
     (if complete_syllable (slice grp cursor (cursor + len)) opts \<noteq> None
      then counts[cursor := bounded_add (counts ! cursor) (counts ! (cursor + len))] else counts)"

definition count_cursor :: "bytes \<Rightarrow> option_bits \<Rightarrow> nat \<Rightarrow> nat list \<Rightarrow> nat list" where
  "count_cursor grp opts cursor counts =
     fold (count_length grp opts cursor) (rev [1..<min MAX_SYLLABLE_LEN (length grp - cursor) + 1]) counts"

definition count_complete_paths :: "bytes \<Rightarrow> option_bits \<Rightarrow> nat" where
  "count_complete_paths grp opts =
     fold (count_cursor grp opts) (rev [0..<length grp])
       ((replicate (length grp + 1) 0)[length grp := 1]) ! 0"

text \<open>The inner loop of the complete search: the next length that spells a complete syllable, and the
  frame's remaining lengths.\<close>

fun next_complete :: "bytes \<Rightarrow> option_bits \<Rightarrow> nat \<Rightarrow> nat \<Rightarrow> (string \<times> nat) option \<times> nat" where
  "next_complete grp opts cursor 0 = (None, 0)"
| "next_complete grp opts cursor (Suc n) =
     (case complete_syllable (slice grp cursor (cursor + Suc n)) opts of
        Some s \<Rightarrow> (Some (s, Suc n), n)
      | None \<Rightarrow> next_complete grp opts cursor n)"

partial_function (option) complete_search :: "bytes \<Rightarrow> nat \<Rightarrow> option_bits \<Rightarrow> frame list \<Rightarrow>
    parsed_syllable list \<Rightarrow> parsed_syllable list list \<Rightarrow> parsed_syllable list list option" where
  "complete_search grp absolute_start opts stack path results =
     (case stack of
        [] \<Rightarrow> Some results
      | frame # stack' \<Rightarrow>
          if fr_cursor frame = length grp then
            complete_search grp absolute_start opts stack' (if stack' \<noteq> [] then butlast path else path)
              (results @ [path])
          else
            let cursor = fr_cursor frame in
            (case next_complete grp opts cursor (fr_next frame) of
               (Some (s, len), n) \<Rightarrow>
                 complete_search grp absolute_start opts
                   (frame_new (cursor + len) (length grp) # frame\<lparr>fr_next := n\<rparr> # stack')
                   (path @ [segment s (absolute_start + cursor) (absolute_start + cursor + len) Complete]) results
             | (None, n) \<Rightarrow>
                 complete_search grp absolute_start opts stack' (if stack' \<noteq> [] then butlast path else path)
                   results))"

definition enumerate_complete_paths :: "bytes \<Rightarrow> nat \<Rightarrow> nat \<Rightarrow> option_bits \<Rightarrow>
    (parse_stop + parsed_syllable list list) option" where
  "enumerate_complete_paths grp absolute_start expected opts =
     map_option (\<lambda>results. if length results = expected then Inr results else Inl AssertFailed)
       (complete_search grp absolute_start opts [frame_new 0 (length grp)] [] [])"

definition reach_length :: "bytes \<Rightarrow> option_bits \<Rightarrow> nat \<Rightarrow> nat \<Rightarrow> bool list \<times> nat \<Rightarrow> bool list \<times> nat" where
  "reach_length grp opts cursor len = (\<lambda>(reachable, target).
     if complete_syllable (slice grp cursor (cursor + len)) opts \<noteq> None
     then (reachable[cursor + len := True], max target (cursor + len)) else (reachable, target))"

definition reach_cursor :: "bytes \<Rightarrow> option_bits \<Rightarrow> nat \<Rightarrow> bool list \<times> nat \<Rightarrow> bool list \<times> nat" where
  "reach_cursor grp opts cursor = (\<lambda>(reachable, target).
     if \<not> reachable ! cursor then (reachable, target)
     else fold (reach_length grp opts cursor) [1..<min MAX_SYLLABLE_LEN (length grp - cursor) + 1]
       (reachable, max target (cursor + longest_partial_prefix (drop cursor grp))))"

definition maximal_fallback_end :: "bytes \<Rightarrow> option_bits \<Rightarrow> nat" where
  "maximal_fallback_end grp opts =
     snd (fold (reach_cursor grp opts) [0..<length grp] ((replicate (length grp + 1) False)[0 := True], 0))"

definition way_length :: "bytes \<Rightarrow> option_bits \<Rightarrow> nat \<Rightarrow> nat \<Rightarrow> nat list \<Rightarrow> nat list" where
  "way_length grp opts cursor len ways =
     (if complete_syllable (slice grp cursor (cursor + len)) opts \<noteq> None
      then ways[cursor + len := bounded_add (ways ! (cursor + len)) (ways ! cursor)] else ways)"

definition way_cursor :: "bytes \<Rightarrow> option_bits \<Rightarrow> nat \<Rightarrow> nat \<Rightarrow> nat list \<Rightarrow> nat list" where
  "way_cursor grp opts target cursor ways =
     (if ways ! cursor = 0 then ways
      else fold (way_length grp opts cursor) [1..<min MAX_SYLLABLE_LEN (target - cursor) + 1] ways)"

definition count_fallback_paths :: "bytes \<Rightarrow> nat \<Rightarrow> option_bits \<Rightarrow> nat" where
  "count_fallback_paths grp target opts =
     (let ways = fold (way_cursor grp opts target) [0..<target] ((replicate (target + 1) 0)[0 := 1])
      in fold (\<lambda>cursor count. if is_partial_only (slice grp cursor target)
                              then bounded_add count (ways ! cursor) else count)
           [0..<target] (ways ! target))"

text \<open>The inner loop of the fallback search also reports a partial syllable that ends at the target.\<close>

fun next_fallback :: "bytes \<Rightarrow> nat \<Rightarrow> nat \<Rightarrow> option_bits \<Rightarrow> parsed_syllable list \<Rightarrow> nat \<Rightarrow> nat \<Rightarrow>
    parsed_syllable list list \<Rightarrow> (string \<times> nat) option \<times> nat \<times> parsed_syllable list list" where
  "next_fallback grp absolute_start target opts path cursor 0 results = (None, 0, results)"
| "next_fallback grp absolute_start target opts path cursor (Suc n) results =
     (let stop = cursor + Suc n; bs = slice grp cursor stop in
      case complete_syllable bs opts of
        Some s \<Rightarrow> (Some (s, Suc n), n, results)
      | None \<Rightarrow> next_fallback grp absolute_start target opts path cursor n
          (if stop = target \<and> is_partial_only bs
           then results @ [path @ [segment (ascii_text bs) (absolute_start + cursor) (absolute_start + stop) Partial]]
           else results))"

partial_function (option) fallback_search :: "bytes \<Rightarrow> nat \<Rightarrow> nat \<Rightarrow> option_bits \<Rightarrow> frame list \<Rightarrow>
    parsed_syllable list \<Rightarrow> parsed_syllable list list \<Rightarrow> parsed_syllable list list option" where
  "fallback_search grp absolute_start target opts stack path results =
     (case stack of
        [] \<Rightarrow> Some results
      | frame # stack' \<Rightarrow>
          if fr_cursor frame = target then
            fallback_search grp absolute_start target opts stack' (if stack' \<noteq> [] then butlast path else path)
              (results @ [path])
          else
            let cursor = fr_cursor frame in
            (case next_fallback grp absolute_start target opts path cursor (fr_next frame) results of
               (Some (s, len), n, results) \<Rightarrow>
                 fallback_search grp absolute_start target opts
                   (frame_new (cursor + len) target # frame\<lparr>fr_next := n\<rparr> # stack')
                   (path @ [segment s (absolute_start + cursor) (absolute_start + (cursor + len)) Complete]) results
             | (None, n, results) \<Rightarrow>
                 fallback_search grp absolute_start target opts stack'
                   (if stack' \<noteq> [] then butlast path else path) results))"

definition enumerate_fallback_paths :: "bytes \<Rightarrow> nat \<Rightarrow> nat \<Rightarrow> nat \<Rightarrow> option_bits \<Rightarrow>
    (parse_stop + parsed_syllable list list) option" where
  "enumerate_fallback_paths grp absolute_start target expected opts =
     map_option (\<lambda>results. if length results = expected then Inr results else Inl AssertFailed)
       (fallback_search grp absolute_start target opts [frame_new 0 target] [] [])"

definition parse_group :: "bytes \<Rightarrow> nat \<Rightarrow> option_bits \<Rightarrow> (parse_stop + group_paths) option" where
  "parse_group grp absolute_start opts =
     (let complete_count = count_complete_paths grp opts in
      if MAX_PARSE_RESULTS < complete_count then Some (Inl (Rejected too_many_alternatives))
      else if complete_count \<noteq> 0 then
        map_option (map_sum id (\<lambda>paths. \<lparr>gp_paths = paths, gp_consumed = length grp, gp_complete = True\<rparr>))
          (enumerate_complete_paths grp absolute_start complete_count opts)
      else
        let target = maximal_fallback_end grp opts;
            fallback_count = count_fallback_paths grp target opts in
        if MAX_PARSE_RESULTS < fallback_count then Some (Inl (Rejected too_many_alternatives))
        else
          map_option (map_sum id (\<lambda>paths. \<lparr>gp_paths = paths, gp_consumed = target, gp_complete = False\<rparr>))
            (enumerate_fallback_paths grp absolute_start target fallback_count opts))"

section \<open>Parsing an input\<close>

definition combine :: "parsed_syllable list list \<Rightarrow> parsed_syllable list list \<Rightarrow>
    parse_error + parsed_syllable list list" where
  "combine left right =
     (case checked_mul (length left) (length right) of
        None \<Rightarrow> Inl too_many_alternatives
      | Some count \<Rightarrow>
          if MAX_PARSE_RESULTS < count then Inl too_many_alternatives
          else Inr (concat (map (\<lambda>left_path. map (\<lambda>right_path. left_path @ right_path) right) left)))"

definition finish_paths :: "parsed_syllable list list \<Rightarrow> bytes \<Rightarrow> nat \<Rightarrow> parse_result list" where
  "finish_paths paths input remainder_start =
     map (\<lambda>syllables. \<lparr>pr_syllables = syllables, pr_remainder = drop remainder_start input\<rparr>) paths"

definition skip_apostrophes :: "bytes \<Rightarrow> nat \<Rightarrow> nat" where
  "skip_apostrophes input cursor = cursor + length (takeWhile (\<lambda>b. b = APOSTROPHE) (drop cursor input))"

definition group_stop :: "bytes \<Rightarrow> nat \<Rightarrow> nat" where
  "group_stop input start =
     (case position (\<lambda>b. \<not> is_ascii_lowercase b) (drop start input) of
        None \<Rightarrow> length input | Some offset \<Rightarrow> start + offset)"

lemma position_bounds: "position P xs = Some i \<Longrightarrow> i < length xs \<and> P (xs ! i) \<and> (\<forall>j < i. \<not> P (xs ! j))"
  by (induction xs arbitrary: i) (auto simp: less_Suc_eq_0_disj split: if_splits)

function parse_groups :: "bytes \<Rightarrow> option_bits \<Rightarrow> parsed_syllable list list \<Rightarrow> nat \<Rightarrow> nat option \<Rightarrow>
    (parse_stop + parse_result list) option" where
  "parse_groups input opts accumulated cursor pending_separator =
     (let group_start = cursor;
          group_end = group_stop input group_start;
          remainder_start = (case pending_separator of Some s \<Rightarrow> s | None \<Rightarrow> group_start) in
      if group_start = group_end then Some (Inr (finish_paths accumulated input remainder_start))
      else case parse_group (slice input group_start group_end) group_start opts of
        None \<Rightarrow> None
      | Some (Inl stop) \<Rightarrow> Some (Inl stop)
      | Some (Inr grp) \<Rightarrow>
          if gp_consumed grp = 0 then Some (Inr (finish_paths accumulated input remainder_start))
          else (case combine accumulated (gp_paths grp) of
            Inl err \<Rightarrow> Some (Inl (Rejected err))
          | Inr accumulated \<Rightarrow>
              if \<not> gp_complete grp then
                Some (Inr (finish_paths accumulated input (group_start + gp_consumed grp)))
              else if group_end = length input then Some (Inr (finish_paths accumulated input group_end))
              else if input ! group_end \<noteq> APOSTROPHE then Some (Inr (finish_paths accumulated input group_end))
              else
                let cursor = skip_apostrophes input group_end in
                if cursor = length input \<or> \<not> is_ascii_lowercase (input ! cursor)
                then Some (Inr (finish_paths accumulated input group_end))
                else parse_groups input opts accumulated cursor (Some group_end)))"
  by pat_completeness auto
termination
proof (relation "measure (\<lambda>(input, opts, accumulated, cursor, pending). length input - cursor)", goal_cases)
  case (2 input opts accumulated cursor pending start stop rem r grp acc next_cursor)
  then have "stop \<noteq> length input" "cursor \<noteq> stop" "next_cursor = skip_apostrophes input stop"
    "next_cursor \<noteq> length input"
    by auto
  moreover have "cursor < stop" "stop < length input"
    using calculation 2(1,2) position_bounds [of "\<lambda>b. \<not> is_ascii_lowercase b" "drop cursor input"]
    by (auto simp: group_stop_def split: option.splits intro: Nat.gr0I)
  moreover have "stop \<le> next_cursor"
    using calculation by (simp add: skip_apostrophes_def)
  ultimately show ?case by simp
qed simp

declare parse_groups.simps [simp del]

definition parse_input :: "bytes \<Rightarrow> option_bits \<Rightarrow> (parse_stop + parse_result list) option" where
  "parse_input input opts =
     (if 0 < length input \<and> input ! 0 = APOSTROPHE then
        let cursor = skip_apostrophes input 0 in
        if cursor = length input \<or> \<not> is_ascii_lowercase (input ! cursor)
        then Some (Inr (finish_paths [[]] input 0))
        else parse_groups input opts [[]] cursor (Some 0)
      else parse_groups input opts [[]] 0 None)"

definition parse :: "bytes \<Rightarrow> (parse_stop + parse_result list) option" where
  "parse input = parse_input input 0"

text \<open>\<open>FullPinyinParser::parse_one_key\<close>; the generated content table is the argument \<open>content_keys\<close>.\<close>

definition parse_one_key :: "content_key list \<Rightarrow> u32 \<Rightarrow> bytes \<Rightarrow> chewing_key option" where
  "parse_one_key content_keys opts input =
     (if APOSTROPHE \<in> set input then None
      else
        let (tone, core) =
              (if contains opts USE_TONE \<and> input \<noteq> [] \<and> 0x31 \<le> last input \<and> last input \<le> 0x35
               then (last input - 0x30, butlast input) else (CHEWING_ZERO_TONE, input)) in
        if contains opts USE_TONE \<and> contains opts FORCE_TONE \<and> tone = CHEWING_ZERO_TONE then None
        else if \<not> valid_utf8 core then None
        else
          Option.bind (from_option_text (map byte_char core) opts) (\<lambda>syllable.
          if key_completeness syllable = Partial \<and> \<not> contains opts PINYIN_INCOMPLETE then None
          else map_option (\<lambda>key. key\<lparr>key_tone := tone\<rparr>)
            (from_pinyin content_keys (map (\<lambda>c. word_of_nat (of_char c)) (syllable_text syllable)))))"

end
