(* ===== verification/PathSearch.thy ===== *)
theory PathSearch
  imports FullPinyin
begin

text \<open>
  The readings of a span, independent of what spells a syllable: \<open>readings\<close> lists them longest first,
  \<open>reading\<close> says what they are. The locale \<open>syllable_steps\<close> counts them, from the front and from the
  back; the locale \<open>path_search\<close> is what the two depth-first searches of the parser have in common, and
  shows that such a search returns and lists exactly the readings.
\<close>

section \<open>Readings\<close>

function readings :: "(nat \<Rightarrow> nat \<Rightarrow> 's option) \<Rightarrow> (nat \<Rightarrow> 's option) \<Rightarrow> nat \<Rightarrow> nat \<Rightarrow> 's list list" where
  "readings c p t i =
     (if i = t then [[]]
      else concat (map (\<lambda>len. case c i (i + len) of
                          Some s \<Rightarrow> map ((#) s) (readings c p t (i + len))
                        | None \<Rightarrow> (case p i of Some s \<Rightarrow> if i + len = t then [[s]] else [] | None \<Rightarrow> []))
             (rev [1..<min MAX_SYLLABLE_LEN (t - i) + 1])))"
  by pat_completeness auto
termination
  by (relation "measure (\<lambda>(c, p, t, i). t - i)") auto

declare readings.simps [simp del]

definition branch :: "(nat \<Rightarrow> nat \<Rightarrow> 's option) \<Rightarrow> (nat \<Rightarrow> 's option) \<Rightarrow> nat \<Rightarrow> nat \<Rightarrow> nat \<Rightarrow> 's list list" where
  "branch c p t i len = (case c i (i + len) of
      Some s \<Rightarrow> map ((#) s) (readings c p t (i + len))
    | None \<Rightarrow> (case p i of Some s \<Rightarrow> if i + len = t then [[s]] else [] | None \<Rightarrow> []))"

definition branches :: "(nat \<Rightarrow> nat \<Rightarrow> 's option) \<Rightarrow> (nat \<Rightarrow> 's option) \<Rightarrow> nat \<Rightarrow> nat \<Rightarrow> nat \<Rightarrow> 's list list" where
  "branches c p t i n = concat (map (branch c p t i) (rev [1..<n + 1]))"

lemma readings_end [simp]: "readings c p t t = [[]]"
  by (simp add: readings.simps)

lemma readings_branches: "i \<noteq> t \<Longrightarrow> readings c p t i = branches c p t i (min MAX_SYLLABLE_LEN (t - i))"
  by (subst readings.simps) (simp add: branches_def branch_def [abs_def])

lemma branches_0 [simp]: "branches c p t i 0 = []"
  by (simp add: branches_def)

lemma branches_Suc: "branches c p t i (Suc n) = branch c p t i (Suc n) @ branches c p t i n"
  by (simp add: branches_def)

text \<open>What a reading is: a chain of syllables up to the target, or such a chain that ends in a partial
  one where no complete syllable has the same span.\<close>

fun reading :: "(nat \<Rightarrow> nat \<Rightarrow> 's option) \<Rightarrow> (nat \<Rightarrow> 's option) \<Rightarrow> nat \<Rightarrow> nat \<Rightarrow> 's list \<Rightarrow> bool" where
  "reading c p t i [] \<longleftrightarrow> i = t"
| "reading c p t i (s # ss) \<longleftrightarrow>
     (\<exists>j. c i j = Some s \<and> reading c p t j ss) \<or> (c i t = None \<and> p i = Some s \<and> ss = [])"

text \<open>The order of two readings: at the first syllable where they differ, the longer one comes first.\<close>

definition longer_first :: "('s \<Rightarrow> nat) \<Rightarrow> 's list \<Rightarrow> 's list \<Rightarrow> bool" where
  "longer_first stop xs ys \<longleftrightarrow>
     (\<exists>zs x xs' y ys'. xs = zs @ x # xs' \<and> ys = zs @ y # ys' \<and> stop y < stop x)"

lemma longer_first_Cons: "longer_first stop xs ys \<Longrightarrow> longer_first stop (x # xs) (x # ys)"
  unfolding longer_first_def by (metis append_Cons)

lemma longer_first_append: "longer_first stop xs ys \<Longrightarrow> longer_first stop (zs @ xs) (zs @ ys)"
  by (induction zs) (auto intro: longer_first_Cons)

lemma longer_first_extend: "longer_first stop xs ys \<Longrightarrow> longer_first stop (xs @ us) (ys @ vs)"
  unfolding longer_first_def by (metis append_Cons append_assoc)

lemma longer_first_heads: "stop y < stop x \<Longrightarrow> longer_first stop (x # xs) (y # ys)"
  unfolding longer_first_def by (metis append_Nil)

lemma longer_first_irrefl: "\<not> longer_first stop xs xs"
  by (auto simp: longer_first_def)

lemma longer_first_distinct: "sorted_wrt (longer_first stop) xs \<Longrightarrow> distinct xs"
  using longer_first_irrefl by (induction xs) fastforce+

text \<open>The number of chains of complete syllables between two positions; whether a syllable, or a partial
  reading to the target, begins at a position.\<close>

definition steps_to :: "(nat \<Rightarrow> nat \<Rightarrow> 's option) \<Rightarrow> nat \<Rightarrow> nat \<Rightarrow> nat" where
  "steps_to c i j = (if c i j = None then 0 else 1)"

definition chains :: "(nat \<Rightarrow> nat \<Rightarrow> 's option) \<Rightarrow> nat \<Rightarrow> nat \<Rightarrow> nat" where
  "chains c i j = length (readings c (\<lambda>_. None) j i)"

definition partial_end :: "(nat \<Rightarrow> nat \<Rightarrow> 's option) \<Rightarrow> (nat \<Rightarrow> 's option) \<Rightarrow> nat \<Rightarrow> nat \<Rightarrow> nat" where
  "partial_end c p t i = (if c i t = None \<and> p i \<noteq> None then 1 else 0)"

text \<open>What counting and searching rely on: a syllable covers between one and \<open>MAX_SYLLABLE_LEN\<close> bytes and
  its end is its own.\<close>

locale syllable_steps =
  fixes c :: "nat \<Rightarrow> nat \<Rightarrow> 's option" and p :: "nat \<Rightarrow> 's option" and t :: nat and stop :: "'s \<Rightarrow> nat" and base :: nat
  assumes complete_step: "c i j = Some s \<Longrightarrow> i < j \<and> j \<le> i + MAX_SYLLABLE_LEN \<and> stop s = base + j"
    and partial_step: "p i = Some s \<Longrightarrow> i < t \<and> t \<le> i + MAX_SYLLABLE_LEN \<and> stop s = base + t"
begin

lemma reading_upto: "(\<And>i s. q i = Some s \<Longrightarrow> i \<le> u) \<Longrightarrow> reading c q u i xs \<Longrightarrow> i \<le> u"
  by (induction xs arbitrary: i) (fastforce dest: complete_step)+

lemma reading_le: "reading c p t i xs \<Longrightarrow> i \<le> t"
  using reading_upto [of p t] partial_step less_imp_le by blast

lemma branch_set:
  assumes "0 < len" "len \<le> MAX_SYLLABLE_LEN"
    "\<And>j. i < j \<Longrightarrow> j \<le> t \<Longrightarrow> set (readings c p t j) = {xs. reading c p t j xs}" "i + len \<le> t"
  shows "set (branch c p t i len) = {s # xs | s xs. (c i (i + len) = Some s \<and> reading c p t (i + len) xs) \<or>
      (i + len = t \<and> c i t = None \<and> p i = Some s \<and> xs = [])}"
  using assms(1,3,4) by (auto simp: branch_def split: option.splits)

lemma readings_set: "i \<le> t \<Longrightarrow> set (readings c p t i) = {xs. reading c p t i xs}"
proof (induction "t - i" arbitrary: i rule: less_induct)
  case less
  have IH: "set (readings c p t j) = {xs. reading c p t j xs}" if "i < j" "j \<le> t" for j
    using less(1) [of j] that less(2) by simp
  show ?case
  proof (cases "i = t")
    case True
    have "reading c p t t xs \<longleftrightarrow> xs = []" for xs
      using complete_step [of t] partial_step [of t] reading_le by (cases xs) fastforce+
    then show ?thesis using True by auto
  next
    case False
    let ?m = "min MAX_SYLLABLE_LEN (t - i)"
    have "set (readings c p t i) = (\<Union>len \<in> {1..?m}. set (branch c p t i len))"
      unfolding readings_branches [OF False] branches_def set_concat set_map set_rev set_upt image_image
      by (simp add: atLeastLessThanSuc_atLeastAtMost)
    also have "\<dots> = (\<Union>len \<in> {1..?m}. {s # xs | s xs. (c i (i + len) = Some s \<and> reading c p t (i + len) xs) \<or>
        (i + len = t \<and> c i t = None \<and> p i = Some s \<and> xs = [])})"
      using IH less(2) by (intro SUP_cong refl branch_set) auto
    also have "\<dots> = {xs. reading c p t i xs}"
    proof (intro set_eqI iffI)
      fix xs
      assume "xs \<in> {xs. reading c p t i xs}"
      then obtain s ss where xs: "xs = s # ss" "reading c p t i (s # ss)"
        using False by (cases xs) auto
      then consider (c) j where "c i j = Some s" "reading c p t j ss" | (p) "c i t = None" "p i = Some s" "ss = []"
        by auto
      then show "xs \<in> (\<Union>len \<in> {1..?m}. {s # xs | s xs. (c i (i + len) = Some s \<and> reading c p t (i + len) xs) \<or>
        (i + len = t \<and> c i t = None \<and> p i = Some s \<and> xs = [])})"
      proof cases
        case c
        then have "j - i \<in> {1..?m}" "i + (j - i) = j"
          using complete_step [of i j s] reading_le [of j ss] by auto
        then show ?thesis using c xs(1) by (intro UN_I [of "j - i"]) auto
      next
        case p
        then have "t - i \<in> {1..?m}" "i + (t - i) = t"
          using partial_step [of i s] by auto
        then show ?thesis using p xs(1) by (intro UN_I [of "t - i"]) auto
      qed
    qed auto
    finally show ?thesis .
  qed
qed

lemma readings_sorted: "i \<le> t \<Longrightarrow> sorted_wrt (longer_first stop) (readings c p t i)"
proof (induction "t - i" arbitrary: i rule: less_induct)
  case less
  have sorted: "sorted_wrt (longer_first stop) (branch c p t i len)" if "0 < len" "i + len \<le> t" for len
  proof -
    have "sorted_wrt (longer_first stop) (readings c p t (i + len))"
      using less(1) [of "i + len"] that by simp
    then have "sorted_wrt (\<lambda>xs ys. longer_first stop (s # xs) (s # ys)) (readings c p t (i + len))" for s
      by (rule sorted_wrt_mono_rel [rotated]) (rule longer_first_Cons)
    then show ?thesis
      by (auto simp: branch_def sorted_wrt_map split: option.splits)
  qed
  have ends: "\<exists>s ss. xs = s # ss \<and> stop s = base + i + len" if "xs \<in> set (branch c p t i len)" for xs len
    using that complete_step partial_step by (fastforce simp: branch_def split: option.splits if_splits)
  have "sorted_wrt (longer_first stop) (branches c p t i n) \<and>
      (\<forall>xs \<in> set (branches c p t i n). \<exists>s ss. xs = s # ss \<and> stop s \<le> base + i + n)" if "i + n \<le> t" for n
    using that
  proof (induction n)
    case (Suc n)
    have "longer_first stop xs ys" if xy: "xs \<in> set (branch c p t i (Suc n))" "ys \<in> set (branches c p t i n)" for xs ys
    proof -
      obtain s ss s' ss' where "xs = s # ss" "stop s = base + i + Suc n" "ys = s' # ss'" "stop s' \<le> base + i + n"
        using ends [OF xy(1)] xy(2) Suc by fastforce
      then show ?thesis by (auto intro: longer_first_heads)
    qed
    moreover have "\<exists>s ss. xs = s # ss \<and> stop s \<le> base + i + Suc n" if "xs \<in> set (branches c p t i (Suc n))" for xs
      using that Suc ends [of xs "Suc n"] by (fastforce simp: branches_Suc)
    ultimately show ?case
      using Suc sorted [of "Suc n"] by (simp add: branches_Suc sorted_wrt_append)
  qed simp
  then show ?case
    using less(2) by (cases "i = t") (simp_all add: readings_branches)
qed

text \<open>The readings counted by their first or by their last syllable.\<close>

lemma chains_self [simp]: "chains c i i = 1"
  by (simp add: chains_def)

lemma sum_lengths:
  "(\<Sum>len \<in> {1..<min MAX_SYLLABLE_LEN (u - i) + 1}. steps_to c i (i + len) * f (i + len)) =
   (\<Sum>m \<in> {i<..u}. steps_to c i m * f m)"
proof -
  have "(\<Sum>len \<in> {1..<min MAX_SYLLABLE_LEN (u - i) + 1}. steps_to c i (i + len) * f (i + len)) =
      (\<Sum>m \<in> {i + 1..<i + (min MAX_SYLLABLE_LEN (u - i) + 1)}. steps_to c i m * f m)"
    using sum.shift_bounds_nat_ivl [of "\<lambda>m. steps_to c i m * f m" 1 i "min MAX_SYLLABLE_LEN (u - i) + 1"]
    by (simp add: add.commute)
  also have "\<dots> = (\<Sum>m \<in> {i<..u}. steps_to c i m * f m)"
    using complete_step [of i] by (intro sum.mono_neutral_left) (fastforce simp: steps_to_def)+
  finally show ?thesis .
qed

lemma length_readings:
  assumes "i < u" "\<And>i s. q i = Some s \<Longrightarrow> i < u \<and> u \<le> i + MAX_SYLLABLE_LEN"
  shows "length (readings c q u i) =
    (if c i u = None \<and> q i \<noteq> None then 1 else 0) + (\<Sum>m \<in> {i<..u}. steps_to c i m * length (readings c q u m))"
proof -
  let ?q = "if c i u = None \<and> q i \<noteq> None then 1 else (0::nat)"
  have "length (readings c q u i) = (\<Sum>len \<leftarrow> rev [1..<min MAX_SYLLABLE_LEN (u - i) + 1]. length (branch c q u i len))"
    using assms(1) by (simp add: readings_branches branches_def length_concat comp_def)
  also have "\<dots> = (\<Sum>len \<in> {1..<min MAX_SYLLABLE_LEN (u - i) + 1}. length (branch c q u i len))"
    by (simp only: rev_map [symmetric] sum_list_rev interv_sum_list_conv_sum_set_nat set_upt)
  also have "\<dots> = (\<Sum>len \<in> {1..<min MAX_SYLLABLE_LEN (u - i) + 1}. if len = u - i then ?q else 0) +
      (\<Sum>len \<in> {1..<min MAX_SYLLABLE_LEN (u - i) + 1}. steps_to c i (i + len) * length (readings c q u (i + len)))"
    unfolding sum.distrib [symmetric]
    by (intro sum.cong) (auto simp: branch_def steps_to_def split: option.splits)
  also have "(\<Sum>len \<in> {1..<min MAX_SYLLABLE_LEN (u - i) + 1}. if len = u - i then ?q else 0) = ?q"
    using assms by (cases "q i") (auto simp: sum.delta min_def MAX_SYLLABLE_LEN_def dest: assms(2))
  finally show ?thesis
    by (simp only: sum_lengths [where f = "\<lambda>m. length (readings c q u m)"])
qed

lemma chains_first: "i < j \<Longrightarrow> chains c i j = (\<Sum>m \<in> {i<..j}. steps_to c i m * chains c m j)"
  using length_readings [of i j "\<lambda>_. None"] by (simp add: chains_def)

lemma chains_weighted:
  assumes "i < u"
  shows "(\<Sum>k \<in> {i..<u}. chains c i k * f k) = f i + (\<Sum>m \<in> {i<..<u}. steps_to c i m * (\<Sum>k \<in> {m..<u}. chains c m k * f k))"
proof -
  have "(\<Sum>k \<in> {i<..<u}. chains c i k * f k) = (\<Sum>k \<in> {i<..<u}. \<Sum>m \<in> {i<..<u}. if m \<le> k then steps_to c i m * (chains c m k * f k) else 0)"
  proof (intro sum.cong refl)
    fix k assume k: "k \<in> {i<..<u}"
    then have "chains c i k * f k = (\<Sum>m \<in> {i<..k}. steps_to c i m * (chains c m k * f k))"
      by (simp add: chains_first sum_distrib_right mult.assoc)
    also have "\<dots> = (\<Sum>m \<in> {i<..<u}. if m \<le> k then steps_to c i m * (chains c m k * f k) else 0)"
      using k by (intro sum.mono_neutral_cong_left) auto
    finally show "chains c i k * f k = (\<Sum>m \<in> {i<..<u}. if m \<le> k then steps_to c i m * (chains c m k * f k) else 0)" .
  qed
  also have "\<dots> = (\<Sum>m \<in> {i<..<u}. \<Sum>k \<in> {i<..<u}. if m \<le> k then steps_to c i m * (chains c m k * f k) else 0)"
    by (rule sum.swap)
  also have "\<dots> = (\<Sum>m \<in> {i<..<u}. \<Sum>k \<in> {m..<u}. steps_to c i m * (chains c m k * f k))"
    by (intro sum.cong refl sum.mono_neutral_cong_right) auto
  finally have "(\<Sum>k \<in> {i<..<u}. chains c i k * f k) = (\<Sum>m \<in> {i<..<u}. steps_to c i m * (\<Sum>k \<in> {m..<u}. chains c m k * f k))"
    by (simp add: sum_distrib_left)
  moreover have "{i..<u} = insert i {i<..<u}" using assms by auto
  ultimately show ?thesis by simp
qed

lemma chains_last: "i < j \<Longrightarrow> chains c i j = (\<Sum>k \<in> {i..<j}. chains c i k * steps_to c k j)"
proof (induction "j - i" arbitrary: i rule: less_induct)
  case less
  have "{i<..j} = insert j {i<..<j}" using less(2) by auto
  then have "chains c i j = steps_to c i j + (\<Sum>m \<in> {i<..<j}. steps_to c i m * chains c m j)"
    using chains_first [OF less(2)] by simp
  also have "(\<Sum>m \<in> {i<..<j}. steps_to c i m * chains c m j) =
      (\<Sum>m \<in> {i<..<j}. steps_to c i m * (\<Sum>k \<in> {m..<j}. chains c m k * steps_to c k j))"
    using less(1) by (intro sum.cong) auto
  finally show ?case using chains_weighted [OF less(2)] by simp
qed

lemma readings_count: "i \<le> t \<Longrightarrow> length (readings c p t i) = chains c i t + (\<Sum>k \<in> {i..<t}. chains c i k * partial_end c p t k)"
proof (induction "t - i" arbitrary: i rule: less_induct)
  case less
  show ?case
  proof (cases "i = t")
    case False
    then have i: "i < t" using less(2) by simp
    have "(\<Sum>m \<in> {i<..t}. steps_to c i m * length (readings c p t m)) =
        (\<Sum>m \<in> {i<..t}. steps_to c i m * chains c m t + steps_to c i m * (\<Sum>k \<in> {m..<t}. chains c m k * partial_end c p t k))"
      using less(1) by (intro sum.cong) (auto simp: distrib_left)
    also have "\<dots> = chains c i t + (\<Sum>m \<in> {i<..t}. steps_to c i m * (\<Sum>k \<in> {m..<t}. chains c m k * partial_end c p t k))"
      by (simp add: sum.distrib chains_first [OF i])
    also have "(\<Sum>m \<in> {i<..t}. steps_to c i m * (\<Sum>k \<in> {m..<t}. chains c m k * partial_end c p t k)) =
        (\<Sum>m \<in> {i<..<t}. steps_to c i m * (\<Sum>k \<in> {m..<t}. chains c m k * partial_end c p t k))"
      by (intro sum.mono_neutral_right) auto
    finally show ?thesis
      using length_readings [OF i, of p] partial_step chains_weighted [OF i, of "partial_end c p t"]
      by (simp add: partial_end_def)
  qed simp
qed

lemma chains_positive: "i \<le> j \<Longrightarrow> 0 < chains c i j \<longleftrightarrow> (\<exists>xs. reading c (\<lambda>_. None) j i xs)"
proof -
  assume "i \<le> j"
  moreover have "syllable_steps c (\<lambda>_. None) j stop base"
    using complete_step by (simp add: syllable_steps_def)
  ultimately have "set (readings c (\<lambda>_. None) j i) = {xs. reading c (\<lambda>_. None) j i xs}"
    by (intro syllable_steps.readings_set)
  moreover have "0 < chains c i j \<longleftrightarrow> set (readings c (\<lambda>_. None) j i) \<noteq> {}"
    by (simp add: chains_def)
  ultimately show ?thesis by auto
qed

end

section \<open>Searching\<close>

text \<open>The inner loop of a search: the next complete syllable, after the partial syllables met before it.\<close>

fun scan :: "(nat \<Rightarrow> nat \<Rightarrow> 's option) \<Rightarrow> (nat \<Rightarrow> 's option) \<Rightarrow> nat \<Rightarrow> 's list \<Rightarrow> nat \<Rightarrow> nat \<Rightarrow> 's list list \<Rightarrow>
    ('s \<times> nat) option \<times> nat \<times> 's list list" where
  "scan c p t path i 0 results = (None, 0, results)"
| "scan c p t path i (Suc n) results = (case c i (i + Suc n) of
     Some s \<Rightarrow> (Some (s, i + Suc n), n, results)
   | None \<Rightarrow> scan c p t path i n
       (results @ (case p i of Some s \<Rightarrow> if i + Suc n = t then [path @ [s]] else [] | None \<Rightarrow> [])))"

locale path_search = syllable_steps c p t stop base for c :: "nat \<Rightarrow> nat \<Rightarrow> 's option" and p t stop base +
  fixes run :: "frame list \<Rightarrow> 's list \<Rightarrow> 's list list \<Rightarrow> 's list list option"
  assumes run_Nil: "run [] path results = Some results"
    and run_Cons: "fr_next frame \<le> MAX_SYLLABLE_LEN \<Longrightarrow> run (frame # stack) path results =
      (if fr_cursor frame = t then run stack (if stack \<noteq> [] then butlast path else path) (results @ [path])
       else case scan c p t path (fr_cursor frame) (fr_next frame) results of
         (Some (s, j), n, results) \<Rightarrow> run (frame_new j t # \<lparr>fr_cursor = fr_cursor frame, fr_next = n\<rparr> # stack) (path @ [s]) results
       | (None, n, results) \<Rightarrow> run stack (if stack \<noteq> [] then butlast path else path) results)"
begin

lemma run_at:
  "i \<noteq> t \<Longrightarrow> n \<le> MAX_SYLLABLE_LEN \<Longrightarrow> run (\<lparr>fr_cursor = i, fr_next = n\<rparr> # stack) path results =
     (case scan c p t path i n results of
        (Some (s, j), n, results) \<Rightarrow> run (frame_new j t # \<lparr>fr_cursor = i, fr_next = n\<rparr> # stack) (path @ [s]) results
      | (None, n, results) \<Rightarrow> run stack (if stack \<noteq> [] then butlast path else path) results)"
  using run_Cons [of "\<lparr>fr_cursor = i, fr_next = n\<rparr>", unfolded frame.select_convs] by simp

lemma run_lengths:
  assumes "i < t" "\<And>j path results frame stack. i < j \<Longrightarrow> j \<le> t \<Longrightarrow> run (frame_new j t # stack) path results =
      run stack (if stack \<noteq> [] then butlast path else path) (results @ map ((@) path) (readings c p t j))"
    "i + n \<le> t" "n \<le> MAX_SYLLABLE_LEN"
  shows "run (\<lparr>fr_cursor = i, fr_next = n\<rparr> # stack) path results =
    run stack (if stack \<noteq> [] then butlast path else path) (results @ map ((@) path) (branches c p t i n))"
  using assms(3,4)
proof (induction n arbitrary: results)
  case 0
  then show ?case using assms(1) by (subst run_at) simp_all
next
  case (Suc n)
  show ?case
  proof (cases "c i (i + Suc n)")
    case None
    have "run (\<lparr>fr_cursor = i, fr_next = Suc n\<rparr> # stack) path results =
        run (\<lparr>fr_cursor = i, fr_next = n\<rparr> # stack) path (results @ map ((@) path) (branch c p t i (Suc n)))"
      using assms(1) None Suc(3) by (simp add: run_at branch_def split: option.splits)
    then show ?thesis
      using Suc by (simp add: branches_Suc)
  next
    case (Some s)
    have "run (\<lparr>fr_cursor = i, fr_next = Suc n\<rparr> # stack) path results =
        run (frame_new (i + Suc n) t # \<lparr>fr_cursor = i, fr_next = n\<rparr> # stack) (path @ [s]) results"
      using assms(1) Some Suc(3) by (subst run_at) simp_all
    also have "\<dots> = run (\<lparr>fr_cursor = i, fr_next = n\<rparr> # stack) path
        (results @ map ((@) (path @ [s])) (readings c p t (i + Suc n)))"
      using assms(2) [of "i + Suc n"] Suc(2) by simp
    also have "map ((@) (path @ [s])) (readings c p t (i + Suc n)) = map ((@) path) (branch c p t i (Suc n))"
      using Some by (simp add: branch_def comp_def)
    finally show ?thesis
      using Suc by (simp add: branches_Suc)
  qed
qed

lemma run_frame:
  "i \<le> t \<Longrightarrow> run (frame_new i t # stack) path results =
     run stack (if stack \<noteq> [] then butlast path else path) (results @ map ((@) path) (readings c p t i))"
proof (induction "t - i" arbitrary: i stack path results rule: less_induct)
  case less
  show ?case
  proof (cases "i = t")
    case True
    then show ?thesis by (subst run_Cons) (simp_all add: frame_new_def)
  next
    case False
    then show ?thesis
      using less run_lengths [of i "min MAX_SYLLABLE_LEN (t - i)" stack path results]
      by (simp add: frame_new_def [of i] readings_branches)
  qed
qed

lemma run_answers: "run [frame_new 0 t] [] [] = Some (readings c p t 0)"
  by (simp add: run_frame run_Nil map_idI)

end

end
