(* ===== verification/GroupReadings.thy ===== *)
theory GroupReadings
  imports PathSearch
begin

text \<open>
  One letter group of the full-pinyin parser: both depth-first searches interpret \<open>path_search\<close>, so
  they return and list the readings; the dynamic programs count them up to \<open>OVER_LIMIT\<close>; the fallback
  target is the furthest readable byte.
\<close>

section \<open>Spellings\<close>

lemma option_text_length: "from_option_text t opts = Some k \<Longrightarrow> 0 < length t \<and> length t \<le> MAX_SYLLABLE_LEN"
proof (cases "from_text t")
  case None
  assume "from_option_text t opts = Some k"
  with None obtain s where "option_alias_canonical t opts = Some s"
    by (auto simp: from_option_text_def from_option_text_with_distance_def bind_eq_Some_conv)
  then show ?thesis
    using option_alias_correctable [of t opts s] by (auto simp: correctable_def MAX_SYLLABLE_LEN_def)
next
  case (Some k')
  then show ?thesis
    using key_spelling_bounds [OF key_below_plain, of k'] by (auto simp: from_text_iff MAX_SYLLABLE_LEN_def)
qed

lemma complete_syllable_length: "complete_syllable bs opts = Some s \<Longrightarrow> 0 < length bs \<and> length bs \<le> MAX_SYLLABLE_LEN"
  using option_text_length [of "map byte_char bs" opts] by (auto simp: complete_syllable_def split: if_splits option.splits)

lemma partial_only_length: "is_partial_only bs \<Longrightarrow> length bs < MAX_SYLLABLE_LEN"
  using complete_spelling_lengths by (fastforce simp: is_partial_only_def list_ex_iff MAX_SYLLABLE_LEN_def)

lemma length_slice: "j \<le> length xs \<Longrightarrow> length (slice xs i j) = j - i"
  by (simp add: slice_def)

section \<open>The searches\<close>

definition complete_seg :: "bytes \<Rightarrow> nat \<Rightarrow> option_bits \<Rightarrow> nat \<Rightarrow> nat \<Rightarrow> parsed_syllable option" where
  "complete_seg grp base opts i j =
     (if i < j \<and> j \<le> i + MAX_SYLLABLE_LEN
      then map_option (\<lambda>s. segment s (base + i) (base + j) Complete) (complete_syllable (slice grp i j) opts) else None)"

definition partial_seg :: "bytes \<Rightarrow> nat \<Rightarrow> nat \<Rightarrow> nat \<Rightarrow> parsed_syllable option" where
  "partial_seg grp base t i =
     (if i < t \<and> t \<le> i + MAX_SYLLABLE_LEN \<and> is_partial_only (slice grp i t)
      then Some (segment (ascii_text (slice grp i t)) (base + i) (base + t) Partial) else None)"

lemma next_complete_scan:
  "n \<le> MAX_SYLLABLE_LEN \<Longrightarrow>
   scan (complete_seg grp base opts) (\<lambda>_. None) t path i n results =
     (case next_complete grp opts i n of
        (Some (s, len), m) \<Rightarrow> (Some (segment s (base + i) (base + i + len) Complete, i + len), m, results)
      | (None, m) \<Rightarrow> (None, m, results))"
  by (induction n) (auto simp: complete_seg_def add.assoc split: option.splits)

lemma next_fallback_scan:
  "n \<le> MAX_SYLLABLE_LEN \<Longrightarrow>
   scan (complete_seg grp base opts) (partial_seg grp base t) t path i n results =
     (case next_fallback grp base t opts path i n results of
        (Some (s, len), m, results) \<Rightarrow> (Some (segment s (base + i) (base + (i + len)) Complete, i + len), m, results)
      | (None, m, results) \<Rightarrow> (None, m, results))"
  by (induction n arbitrary: results) (auto simp: complete_seg_def partial_seg_def Let_def split: option.splits)

lemma next_None: "next_complete grp opts i n = (None, m) \<Longrightarrow> m = 0"
  by (induction n) (auto split: option.splits)

lemma frame_next: "frame\<lparr>fr_next := n\<rparr> = \<lparr>fr_cursor = fr_cursor frame, fr_next = n\<rparr>"
  by (cases frame) simp

interpretation complete: path_search "complete_seg grp base opts" "\<lambda>_. None" "length grp" ps_end base
    "complete_search grp base opts" for grp base opts
proof (unfold_locales, goal_cases)
  case (4 frame stack path results)
  then show ?case
    by (subst complete_search.simps)
      (simp add: Let_def next_complete_scan frame_next split: option.splits prod.splits)
qed (auto simp: complete_seg_def segment_def complete_search.simps split: if_splits)

interpretation fallback: path_search "complete_seg grp base opts" "partial_seg grp base t" t ps_end base
    "fallback_search grp base t opts" for grp base opts t
proof (unfold_locales, goal_cases)
  case (4 frame stack path results)
  then show ?case
    by (subst fallback_search.simps)
      (simp add: Let_def next_fallback_scan frame_next split: option.splits prod.splits)
qed (auto simp: complete_seg_def partial_seg_def segment_def fallback_search.simps split: if_splits)

lemmas search_answers = complete.run_answers fallback.run_answers

section \<open>Counting\<close>

lemma bounded_add_min: "bounded_add (min OVER_LIMIT a) (min OVER_LIMIT b) = min OVER_LIMIT (a + b)"
  by (auto simp: bounded_add_def saturating_add_def usize_max_def OVER_LIMIT_def MAX_PARSE_RESULTS_def min_def Let_def)

lemma bounded_sum:
  "(\<And>x. x \<in> set xs \<Longrightarrow> v x = min OVER_LIMIT (w x)) \<Longrightarrow>
   fold (\<lambda>x a. if P x then bounded_add a (v x) else a) xs (min OVER_LIMIT a) =
     min OVER_LIMIT (a + (\<Sum>x \<leftarrow> xs. if P x then w x else 0))"
  by (induction xs arbitrary: a) (auto simp: bounded_add_min add.assoc)

lemma fold_count_length:
  "cursor < length counts \<Longrightarrow> (\<And>len. len \<in> set lens \<Longrightarrow> 0 < len \<and> counts ! (cursor + len) = v len) \<Longrightarrow>
   fold (count_length grp opts cursor) lens counts =
     counts[cursor := fold (\<lambda>len a. if complete_syllable (slice grp cursor (cursor + len)) opts \<noteq> None
                                    then bounded_add a (v len) else a) lens (counts ! cursor)]"
proof (induction lens arbitrary: counts)
  case (Cons len lens)
  let ?counts = "count_length grp opts cursor len counts"
  have "cursor < length ?counts" "\<And>l. l \<in> set lens \<Longrightarrow> 0 < l \<and> ?counts ! (cursor + l) = v l"
    using Cons.prems by (auto simp: count_length_def)
  then show ?case
    using Cons.IH [of ?counts] Cons.prems by (auto simp: count_length_def)
qed simp

lemma steps_to_seg:
  "0 < len \<Longrightarrow> len \<le> MAX_SYLLABLE_LEN \<Longrightarrow> steps_to (complete_seg grp base opts) i (i + len) =
     (if complete_syllable (slice grp i (i + len)) opts \<noteq> None then 1 else 0)"
  by (simp add: steps_to_def complete_seg_def)

lemma count_cursor_chains:
  assumes "cursor < length grp" "length counts = length grp + 1" "counts ! cursor = 0"
    "\<And>j. cursor < j \<Longrightarrow> j \<le> length grp \<Longrightarrow> counts ! j = min OVER_LIMIT (chains (complete_seg grp base opts) j (length grp))"
  shows "count_cursor grp opts cursor counts =
    counts[cursor := min OVER_LIMIT (chains (complete_seg grp base opts) cursor (length grp))]"
proof -
  let ?c = "complete_seg grp base opts" and ?L = "length grp"
  let ?lens = "[1..<min MAX_SYLLABLE_LEN (?L - cursor) + 1]"
  have "fold (\<lambda>len a. if complete_syllable (slice grp cursor (cursor + len)) opts \<noteq> None
        then bounded_add a (counts ! (cursor + len)) else a) (rev ?lens) (min OVER_LIMIT 0) =
      min OVER_LIMIT (0 + (\<Sum>len \<leftarrow> rev ?lens. if complete_syllable (slice grp cursor (cursor + len)) opts \<noteq> None
        then chains ?c (cursor + len) ?L else 0))"
    using assms(1,4) by (intro bounded_sum) auto
  also have "(\<Sum>len \<leftarrow> rev ?lens. if complete_syllable (slice grp cursor (cursor + len)) opts \<noteq> None
        then chains ?c (cursor + len) ?L else 0) =
      (\<Sum>len \<leftarrow> rev ?lens. steps_to ?c cursor (cursor + len) * chains ?c (cursor + len) ?L)"
    by (intro arg_cong [where f = sum_list] map_cong refl) (auto simp: steps_to_seg)
  also have "\<dots> = (\<Sum>m \<in> {cursor<..?L}. steps_to ?c cursor m * chains ?c m ?L)"
    by (simp only: rev_map [symmetric] sum_list_rev interv_sum_list_conv_sum_set_nat set_upt
        complete.sum_lengths [where f = "\<lambda>m. chains ?c m ?L"])
  also have "\<dots> = chains ?c cursor ?L"
    using complete.chains_first [OF assms(1)] by simp
  finally show ?thesis
    using assms(1,2,3) fold_count_length [of cursor counts "rev ?lens" "\<lambda>len. counts ! (cursor + len)" grp opts]
    by (simp add: count_cursor_def del: upt_Suc)
qed

lemma count_complete_chains:
  "count_complete_paths grp opts = min OVER_LIMIT (chains (complete_seg grp base opts) 0 (length grp))"
proof -
  let ?c = "complete_seg grp base opts" and ?L = "length grp"
  let ?init = "(replicate (?L + 1) 0)[?L := 1]"
  have "length (fold (count_cursor grp opts) (rev [n..<?L]) ?init) = ?L + 1 \<and>
    (\<forall>j \<le> ?L. fold (count_cursor grp opts) (rev [n..<?L]) ?init ! j = (if n \<le> j then min OVER_LIMIT (chains ?c j ?L) else 0))"
    if "n \<le> ?L" for n
    using that
  proof (induction "?L - n" arbitrary: n)
    case 0
    then show ?case by (auto simp: nth_list_update OVER_LIMIT_def simp del: replicate_Suc)
  next
    case (Suc d)
    then have "d = ?L - Suc n" "Suc n \<le> ?L" by auto
    with Suc.hyps(1) [of "Suc n"] show ?case
      using Suc(2) count_cursor_chains [of n grp "fold (count_cursor grp opts) (rev [Suc n..<?L]) ?init" base opts]
      by (auto simp: upt_conv_Cons nth_list_update)
  qed
  from this [of 0] show ?thesis
    by (simp add: count_complete_paths_def)
qed

lemma fold_way_length:
  "distinct lens \<Longrightarrow> 0 \<notin> set lens \<Longrightarrow> j < length ways \<Longrightarrow>
   fold (way_length grp opts cursor) lens ways ! j =
     (if cursor < j \<and> j - cursor \<in> set lens \<and> complete_syllable (slice grp cursor j) opts \<noteq> None
      then bounded_add (ways ! j) (ways ! cursor) else ways ! j)"
proof (induction lens arbitrary: ways)
  case (Cons len lens)
  let ?ways = "way_length grp opts cursor len ways"
  have "?ways ! cursor = ways ! cursor"
    using Cons.prems by (auto simp: way_length_def)
  moreover have "?ways ! j = (if j = cursor + len \<and> complete_syllable (slice grp cursor j) opts \<noteq> None
      then bounded_add (ways ! j) (ways ! cursor) else ways ! j)"
    using Cons.prems by (auto simp: way_length_def nth_list_update)
  moreover have "j < length ?ways" using Cons.prems by (simp add: way_length_def)
  ultimately show ?case
    using Cons.IH [of ?ways] Cons.prems by auto
qed simp

lemma length_way_cursor [simp]: "length (way_cursor grp opts t cursor ways) = length ways"
proof -
  have "length (fold (way_length grp opts cursor) lens ways) = length ways" for lens
    by (induction lens arbitrary: ways) (auto simp: way_length_def)
  then show ?thesis by (simp add: way_cursor_def)
qed

definition ways_before :: "bytes \<Rightarrow> nat \<Rightarrow> option_bits \<Rightarrow> nat \<Rightarrow> nat \<Rightarrow> nat" where
  "ways_before grp base opts n j = (if j = 0 then 1 else 0) +
     (\<Sum>k \<in> {0..<min n j}. chains (complete_seg grp base opts) 0 k * steps_to (complete_seg grp base opts) k j)"

lemma ways_before_done: "j \<le> n \<Longrightarrow> ways_before grp base opts n j = chains (complete_seg grp base opts) 0 j"
  using complete.chains_last [of 0 j grp base opts] by (cases "j = 0") (auto simp: ways_before_def min_def)

lemma ways_before_Suc:
  "ways_before grp base opts (Suc n) j = ways_before grp base opts n j +
     (if n < j then chains (complete_seg grp base opts) 0 n * steps_to (complete_seg grp base opts) n j else 0)"
  by (auto simp: ways_before_def min_def)

lemma way_cursor_step:
  assumes "n < t" "length ways = t + 1" "\<And>j. j \<le> t \<Longrightarrow> ways ! j = min OVER_LIMIT (ways_before grp base opts n j)" "j \<le> t"
  shows "way_cursor grp opts t n ways ! j = min OVER_LIMIT (ways_before grp base opts (Suc n) j)"
proof -
  let ?c = "complete_seg grp base opts"
  have n: "ways ! n = min OVER_LIMIT (chains ?c 0 n)"
    using assms(1,3) ways_before_done by simp
  have step: "steps_to ?c n j = (if n < j \<and> j - n \<in> set [1..<min MAX_SYLLABLE_LEN (t - n) + 1] \<and>
      complete_syllable (slice grp n j) opts \<noteq> None then 1 else 0)" if "n < j"
    using that assms(4) by (auto simp: steps_to_def complete_seg_def)
  show ?thesis
  proof (cases "ways ! n = 0")
    case True
    then have "chains ?c 0 n = 0" using n by (simp add: OVER_LIMIT_def min_def split: if_splits)
    then show ?thesis using True assms(3,4) by (simp add: way_cursor_def ways_before_Suc)
  next
    case False
    have "way_cursor grp opts t n ways ! j = (if n < j \<and> j - n \<in> set [1..<min MAX_SYLLABLE_LEN (t - n) + 1] \<and>
        complete_syllable (slice grp n j) opts \<noteq> None then bounded_add (ways ! j) (ways ! n) else ways ! j)"
      using False assms(2,4) by (simp add: way_cursor_def fold_way_length del: upt_Suc)
    also have "\<dots> = (if n < j \<and> steps_to ?c n j = 1 then bounded_add (ways ! j) (ways ! n) else ways ! j)"
      using step by (cases "n < j") (simp_all del: upt_Suc set_upt not_None_eq)
    also have "\<dots> = min OVER_LIMIT (ways_before grp base opts (Suc n) j)"
      unfolding assms(3) [OF assms(4)] n bounded_add_min by (simp add: ways_before_Suc steps_to_def)
    finally show ?thesis .
  qed
qed

lemma ways_chains:
  assumes "n \<le> t"
  shows "length (fold (way_cursor grp opts t) [0..<n] ((replicate (t + 1) 0)[0 := 1])) = t + 1 \<and>
    (\<forall>j \<le> t. fold (way_cursor grp opts t) [0..<n] ((replicate (t + 1) 0)[0 := 1]) ! j =
       min OVER_LIMIT (ways_before grp base opts n j))"
  using assms
proof (induction n)
  case 0
  then show ?case by (auto simp: ways_before_def OVER_LIMIT_def nth_list_update simp del: replicate_Suc)
next
  case (Suc n)
  then show ?case
    using way_cursor_step [of n t "fold (way_cursor grp opts t) [0..<n] ((replicate (t + 1) 0)[0 := 1])" grp base opts]
    by (simp del: replicate_Suc)
qed

lemma count_fallback_chains:
  "count_fallback_paths grp t opts = min OVER_LIMIT (chains (complete_seg grp base opts) 0 t +
     (\<Sum>k \<in> {0..<t}. if is_partial_only (slice grp k t) then chains (complete_seg grp base opts) 0 k else 0))"
proof -
  let ?ways = "fold (way_cursor grp opts t) [0..<t] ((replicate (t + 1) 0)[0 := 1])"
  have ways: "?ways ! j = min OVER_LIMIT (chains (complete_seg grp base opts) 0 j)" if "j \<le> t" for j
    using ways_chains [of t t grp opts base] that ways_before_done by simp
  have "fold (\<lambda>k a. if is_partial_only (slice grp k t) then bounded_add a (?ways ! k) else a) [0..<t]
      (min OVER_LIMIT (chains (complete_seg grp base opts) 0 t)) =
    min OVER_LIMIT (chains (complete_seg grp base opts) 0 t +
     (\<Sum>k \<leftarrow> [0..<t]. if is_partial_only (slice grp k t) then chains (complete_seg grp base opts) 0 k else 0))"
    using ways by (intro bounded_sum) auto
  then show ?thesis
    unfolding count_fallback_paths_def Let_def ways [OF order_refl] by (simp only: interv_sum_list_conv_sum_set_nat set_upt)
qed

section \<open>The furthest readable byte\<close>

lemma find_longest:
  "case List.find P (rev [1..<n + 1]) of
     Some l \<Rightarrow> P l \<and> 0 < l \<and> l \<le> n \<and> (\<forall>m. P m \<and> m \<le> n \<longrightarrow> m \<le> l)
   | None \<Rightarrow> \<forall>m. 0 < m \<and> m \<le> n \<longrightarrow> \<not> P m"
  by (induction n) (auto simp: le_Suc_eq split: option.splits)

lemma longest_partial_spec:
  "(\<forall>m. 0 < m \<and> m \<le> length bs \<and> is_partial_only (take m bs) \<longrightarrow> m \<le> longest_partial_prefix bs) \<and>
   (longest_partial_prefix bs = 0 \<or>
    longest_partial_prefix bs \<le> length bs \<and> is_partial_only (take (longest_partial_prefix bs) bs))"
proof -
  have short: "m \<le> MAX_SYLLABLE_LEN" if "is_partial_only (take m bs)" "m \<le> length bs" for m
    using partial_only_length [OF that(1)] that(2) by simp
  show ?thesis
    using find_longest [where P = "\<lambda>l. is_partial_only (take l bs)" and n = "min MAX_SYLLABLE_LEN (length bs)"] short
    unfolding longest_partial_prefix_def by (auto split: option.splits)
qed

definition readable :: "bytes \<Rightarrow> option_bits \<Rightarrow> nat \<Rightarrow> nat \<Rightarrow> bool" where
  "readable grp opts n j \<longleftrightarrow> (\<exists>k < n. 0 < chains (complete_seg grp 0 opts) 0 k \<and> k < j \<and> j \<le> length grp \<and>
     (complete_seg grp 0 opts k j \<noteq> None \<or> is_partial_only (slice grp k j)))"

lemma fold_reach_length:
  assumes "0 \<notin> set lens" "length r = length grp + 1" "\<forall>len \<in> set lens. cursor + len \<le> length grp"
  shows "let (r', tg') = fold (reach_length grp opts cursor) lens (r, tg); ok = (\<lambda>j. cursor < j \<and> j - cursor \<in> set lens \<and>
       complete_syllable (slice grp cursor j) opts \<noteq> None) in
     length r' = length grp + 1 \<and> (\<forall>j \<le> length grp. r' ! j \<longleftrightarrow> r ! j \<or> ok j) \<and>
     tg \<le> tg' \<and> (\<forall>j. ok j \<longrightarrow> j \<le> tg') \<and> (tg' = tg \<or> ok tg')"
  using assms
proof (induction lens arbitrary: r tg)
  case (Cons len lens)
  obtain r1 tg1 where 1: "reach_length grp opts cursor len (r, tg) = (r1, tg1)" by fastforce
  then have r1: "length r1 = length grp + 1" "\<forall>j \<le> length grp. r1 ! j \<longleftrightarrow> r ! j \<or>
      (j = cursor + len \<and> complete_syllable (slice grp cursor j) opts \<noteq> None)"
      "tg1 = (if complete_syllable (slice grp cursor (cursor + len)) opts \<noteq> None then max tg (cursor + len) else tg)"
    using Cons.prems by (auto simp: reach_length_def nth_list_update split: if_splits)
  obtain r2 tg2 where 2: "fold (reach_length grp opts cursor) lens (r1, tg1) = (r2, tg2)" by fastforce
  show ?case
    using Cons.IH [of r1 tg1] Cons.prems r1 by (auto simp: 1 2 max_def split: if_splits)
qed simp

lemma complete_seg_iff:
  "j \<le> length grp \<Longrightarrow> complete_seg grp base opts k j \<noteq> None \<longleftrightarrow> k < j \<and> complete_syllable (slice grp k j) opts \<noteq> None"
  using complete_syllable_length [of "slice grp k j" opts]
  by (cases "complete_syllable (slice grp k j) opts") (auto simp: complete_seg_def length_slice)

lemma chains_reached:
  "0 < chains (complete_seg grp base opts) 0 n \<longleftrightarrow>
   n = 0 \<or> (\<exists>k < n. 0 < chains (complete_seg grp base opts) 0 k \<and> complete_seg grp base opts k n \<noteq> None)"
  using complete.chains_last [of 0 n grp base opts] 
  by (cases "n = 0") (auto simp: steps_to_def neq0_conv [symmetric] split: if_splits simp del: neq0_conv)

lemma reach_spec:
  assumes "n \<le> length grp"
  shows "let (r, tg) = fold (reach_cursor grp opts) [0..<n] ((replicate (length grp + 1) False)[0 := True], 0) in
    length r = length grp + 1 \<and>
    (\<forall>j \<le> length grp. r ! j \<longleftrightarrow> j = 0 \<or> (\<exists>k < n. 0 < chains (complete_seg grp 0 opts) 0 k \<and> complete_seg grp 0 opts k j \<noteq> None)) \<and>
    (\<forall>j. readable grp opts n j \<longrightarrow> j \<le> tg) \<and> (tg = 0 \<or> readable grp opts n tg)"
  using assms
proof (induction n)
  case 0
  then show ?case by (auto simp: readable_def nth_list_update simp del: replicate_Suc)
next
  case (Suc n)
  let ?c = "complete_seg grp 0 opts" and ?L = "length grp"
  obtain r tg where 1: "fold (reach_cursor grp opts) [0..<n] ((replicate (?L + 1) False)[0 := True], 0) = (r, tg)"
    by fastforce
  have IH: "length r = ?L + 1" "\<And>j. j \<le> ?L \<Longrightarrow> r ! j \<longleftrightarrow> j = 0 \<or> (\<exists>k < n. 0 < chains ?c 0 k \<and> ?c k j \<noteq> None)"
      "\<And>j. readable grp opts n j \<Longrightarrow> j \<le> tg" "tg = 0 \<or> readable grp opts n tg"
    using Suc unfolding 1 by auto
  have now: "r ! n \<longleftrightarrow> 0 < chains ?c 0 n"
    using IH(2) [of n] chains_reached [of grp 0 opts n] Suc(2) by auto
  have readable_Suc: "readable grp opts (Suc n) j \<longleftrightarrow> readable grp opts n j \<or>
      (0 < chains ?c 0 n \<and> n < j \<and> j \<le> ?L \<and> (?c n j \<noteq> None \<or> is_partial_only (slice grp n j)))" for j
    by (auto simp: readable_def less_Suc_eq)
  show ?case
  proof (cases "0 < chains ?c 0 n")
    case False
    then have "fold (reach_cursor grp opts) [0..<Suc n] ((replicate (?L + 1) False)[0 := True], 0) = (r, tg)"
      using now 1 by (simp add: reach_cursor_def del: replicate_Suc)
    moreover have "(\<exists>k < Suc n. 0 < chains ?c 0 k \<and> ?c k j \<noteq> None) \<longleftrightarrow> (\<exists>k < n. 0 < chains ?c 0 k \<and> ?c k j \<noteq> None)" for j
      using False by (auto simp: less_Suc_eq)
    ultimately show ?thesis
      using IH False by (simp add: readable_Suc del: replicate_Suc upt_Suc)
  next
    case True
    let ?lens = "[1..<min MAX_SYLLABLE_LEN (?L - n) + 1]" and ?lp = "longest_partial_prefix (drop n grp)"
    obtain r2 tg2 where 2: "fold (reach_length grp opts n) ?lens (r, max tg (n + ?lp)) = (r2, tg2)"
      by fastforce
    have ok: "n < j \<and> j - n \<in> set ?lens \<and> complete_syllable (slice grp n j) opts \<noteq> None \<longleftrightarrow> j \<le> ?L \<and> ?c n j \<noteq> None" for j
      using Suc(2) by (auto simp: complete_seg_def)
    have lens: "0 \<notin> set ?lens" "\<forall>len \<in> set ?lens. n + len \<le> ?L" using Suc(2) by auto
    have r2: "length r2 = ?L + 1" "\<And>j. j \<le> ?L \<Longrightarrow> r2 ! j \<longleftrightarrow> r ! j \<or> ?c n j \<noteq> None"
        "max tg (n + ?lp) \<le> tg2" "\<And>j. j \<le> ?L \<Longrightarrow> ?c n j \<noteq> None \<Longrightarrow> j \<le> tg2"
        "tg2 = max tg (n + ?lp) \<or> tg2 \<le> ?L \<and> ?c n tg2 \<noteq> None"
      using fold_reach_length [OF lens(1) IH(1) lens(2), of opts "max tg (n + ?lp)"]
      unfolding 2 Let_def prod.case ok by auto
    have lp: "n < j \<Longrightarrow> j \<le> ?L \<Longrightarrow> is_partial_only (slice grp n j) \<Longrightarrow> j \<le> n + ?lp" for j
      using longest_partial_spec [of "drop n grp"] by (auto simp: slice_def dest: spec [of _ "j - n"])
    have lp': "?lp = 0 \<or> n < n + ?lp \<and> n + ?lp \<le> ?L \<and> is_partial_only (slice grp n (n + ?lp))"
      using longest_partial_spec [of "drop n grp"] Suc(2) by (auto simp: slice_def)
    have "fold (reach_cursor grp opts) [0..<Suc n] ((replicate (?L + 1) False)[0 := True], 0) = (r2, tg2)"
      using True now 1 2 by (simp add: reach_cursor_def del: replicate_Suc)
    moreover have "r2 ! j \<longleftrightarrow> j = 0 \<or> (\<exists>k < Suc n. 0 < chains ?c 0 k \<and> ?c k j \<noteq> None)" if "j \<le> ?L" for j
      using r2(2) [OF that] IH(2) [OF that] True by (auto simp: less_Suc_eq)
    moreover have "j \<le> tg2" if "readable grp opts (Suc n) j" for j
      using that IH(3) [of j] r2(3,4) lp [of j] by (force simp: readable_Suc)
    moreover have "tg2 = 0 \<or> readable grp opts (Suc n) tg2"
    proof (cases "tg2 = max tg (n + ?lp)")
      case False
      then have "tg2 \<le> ?L" "?c n tg2 \<noteq> None" using r2(5) by auto
      then show ?thesis using True complete_seg_iff [of tg2 grp 0 opts n] by (auto simp: readable_Suc)
    next
      case max: True
      show ?thesis
      proof (cases "n + ?lp \<le> tg")
        case False
        show ?thesis
        proof (cases "?lp = 0")
          case False
          with lp' max \<open>\<not> n + ?lp \<le> tg\<close> True show ?thesis by (auto simp: readable_Suc)
        next
          case zero: True
          show ?thesis
          proof (cases "n = 0")
            case False
            then obtain k where "k < n" "0 < chains ?c 0 k" "?c k n \<noteq> None"
              using True chains_reached [of grp 0 opts n] by auto
            then have "readable grp opts n n"
              using Suc(2) by (auto simp: readable_def)
            then show ?thesis using IH(3) [of n] zero max \<open>\<not> n + ?lp \<le> tg\<close> by simp
          qed (use max zero \<open>\<not> n + ?lp \<le> tg\<close> in simp)
        qed
      qed (use max IH(4) in \<open>auto simp: readable_Suc\<close>)
    qed
    ultimately show ?thesis
      using r2(1) by (simp del: replicate_Suc upt_Suc)
  qed
qed

lemma maximal_fallback_spec:
  "(\<forall>j. readable grp opts (length grp) j \<longrightarrow> j \<le> maximal_fallback_end grp opts) \<and>
   (maximal_fallback_end grp opts = 0 \<or> readable grp opts (length grp) (maximal_fallback_end grp opts))"
  using reach_spec [OF order_refl, of grp opts] unfolding maximal_fallback_end_def by (auto simp: Let_def split_beta)

lemma maximal_fallback_le: "maximal_fallback_end grp opts \<le> length grp"
  using maximal_fallback_spec [of grp opts] by (auto simp: readable_def)

section \<open>A group\<close>

text \<open>The options under which no complete spelling is also a proper prefix that is not a syllable.\<close>

definition prefix_free :: "option_bits \<Rightarrow> bool" where
  "prefix_free opts \<longleftrightarrow> (\<forall>bs. complete_syllable bs opts \<noteq> None \<longrightarrow> \<not> is_partial_only bs)"

definition group_complete :: "bytes \<Rightarrow> option_bits \<Rightarrow> bool" where
  "group_complete grp opts \<longleftrightarrow> 0 < chains (complete_seg grp 0 opts) 0 (length grp)"

definition group_target :: "bytes \<Rightarrow> option_bits \<Rightarrow> nat" where
  "group_target grp opts = (if group_complete grp opts then length grp else maximal_fallback_end grp opts)"

definition group_readings :: "bytes \<Rightarrow> nat \<Rightarrow> option_bits \<Rightarrow> parsed_syllable list list" where
  "group_readings grp base opts =
     readings (complete_seg grp base opts)
       (if group_complete grp opts then \<lambda>_. None else partial_seg grp base (group_target grp opts)) (group_target grp opts) 0"

lemma chains_base: "i \<le> j \<Longrightarrow> chains (complete_seg grp base opts) i j = chains (complete_seg grp 0 opts) i j"
proof (induction "j - i" arbitrary: i rule: less_induct)
  case less
  have "steps_to (complete_seg grp base opts) i m = steps_to (complete_seg grp 0 opts) i m" for m
    by (simp add: steps_to_def complete_seg_def)
  then show ?case
    using less complete.chains_first [of i j grp base opts] complete.chains_first [of i j grp 0 opts]
    by (cases "i = j") (auto intro!: sum.cong)
qed

lemma over_limit_iff: "MAX_PARSE_RESULTS < min OVER_LIMIT n \<longleftrightarrow> MAX_PARSE_RESULTS < n"
  by (auto simp: OVER_LIMIT_def)

lemma over_limit_above [simp]: "MAX_PARSE_RESULTS < OVER_LIMIT"
  by (simp add: OVER_LIMIT_def)

lemma under_limit: "\<not> MAX_PARSE_RESULTS < n \<Longrightarrow> min OVER_LIMIT n = n"
  by (simp add: OVER_LIMIT_def)

lemma fallback_count_exact:
  assumes "prefix_free opts" "t \<le> length grp"
  shows "count_fallback_paths grp t opts =
    min OVER_LIMIT (length (readings (complete_seg grp base opts) (partial_seg grp base t) t 0))"
proof -
  let ?c = "complete_seg grp base opts"
  have "partial_end ?c (partial_seg grp base t) t k = (if is_partial_only (slice grp k t) then 1 else 0)" if "k < t" for k
  proof -
    have "is_partial_only (slice grp k t) \<Longrightarrow> t \<le> k + MAX_SYLLABLE_LEN"
      using partial_only_length [of "slice grp k t"] assms(2) by (simp add: length_slice)
    then show ?thesis
      using assms that by (auto simp: partial_end_def partial_seg_def complete_seg_def prefix_free_def)
  qed
  then have "(\<Sum>k \<in> {0..<t}. chains ?c 0 k * partial_end ?c (partial_seg grp base t) t k) =
      (\<Sum>k \<in> {0..<t}. if is_partial_only (slice grp k t) then chains ?c 0 k else 0)"
    by (intro sum.cong) auto
  then show ?thesis
    using fallback.readings_count [of 0 t grp base opts] count_fallback_chains [of grp t opts base] by simp
qed

lemma parse_group_readings:
  assumes "prefix_free opts"
  shows "parse_group grp base opts = Some
    (if MAX_PARSE_RESULTS < length (group_readings grp base opts) then Inl (Rejected too_many_alternatives)
     else Inr \<lparr>gp_paths = group_readings grp base opts, gp_consumed = group_target grp opts,
               gp_complete = group_complete grp opts\<rparr>)"
proof (cases "group_complete grp opts")
  case True
  have n: "count_complete_paths grp opts = min OVER_LIMIT (length (group_readings grp base opts))"
    using True count_complete_chains [of grp opts base]
    by (simp add: group_readings_def group_target_def chains_def)
  have "0 < length (group_readings grp base opts)"
    using True chains_base [of 0 "length grp" grp base opts]
    by (simp add: group_readings_def group_target_def group_complete_def chains_def)
  then have "0 < count_complete_paths grp opts" by (simp add: n OVER_LIMIT_def)
  moreover have "complete_search grp base opts [frame_new 0 (length grp)] [] [] = Some (group_readings grp base opts)"
    using True complete.run_answers by (simp add: group_readings_def group_target_def)
  ultimately show ?thesis
    using True by (auto simp: parse_group_def Let_def n over_limit_iff under_limit enumerate_complete_paths_def group_target_def)
next
  case False
  let ?t = "maximal_fallback_end grp opts"
  have "count_complete_paths grp opts = 0"
    using False count_complete_chains [of grp opts 0] by (simp add: group_complete_def)
  moreover have n: "count_fallback_paths grp ?t opts = min OVER_LIMIT (length (group_readings grp base opts))"
    using False fallback_count_exact [OF assms maximal_fallback_le] by (simp add: group_readings_def group_target_def)
  moreover have "fallback_search grp base ?t opts [frame_new 0 ?t] [] [] = Some (group_readings grp base opts)"
    using False fallback.run_answers by (simp add: group_readings_def group_target_def)
  ultimately show ?thesis
    using False by (auto simp: parse_group_def Let_def over_limit_iff under_limit enumerate_fallback_paths_def group_target_def)
qed

end
