(* ===== verification/ParserSpec.thy ===== *)
theory ParserSpec
  imports GroupReadings
begin

text \<open>
  What the full-pinyin parser answers. A tiling of an input covers a prefix of it with syllables and
  apostrophe runs between them; \<open>parse_input\<close> lists the tilings that reach furthest. The options that
  turn a proper prefix of a syllable into a complete spelling make the count and the enumeration of a
  group differ, and the parser stops at its own assertion.
\<close>

section \<open>Tilings\<close>

definition letters :: "bytes \<Rightarrow> nat \<Rightarrow> nat \<Rightarrow> bool" where
  "letters input i j \<longleftrightarrow> i < j \<and> j \<le> length input \<and> (\<forall>k. i \<le> k \<and> k < j \<longrightarrow> is_ascii_lowercase (input ! k))"

definition spells :: "bytes \<Rightarrow> option_bits \<Rightarrow> parsed_syllable \<Rightarrow> bool" where
  "spells input opts s \<longleftrightarrow> letters input (ps_start s) (ps_end s) \<and>
     (case ps_completeness s of
        Complete \<Rightarrow> complete_syllable (slice input (ps_start s) (ps_end s)) opts = Some (ps_syllable s)
      | Partial \<Rightarrow> is_partial_only (slice input (ps_start s) (ps_end s)) \<and>
          ps_syllable s = ascii_text (slice input (ps_start s) (ps_end s)))"

definition gap :: "bytes \<Rightarrow> nat \<Rightarrow> nat \<Rightarrow> bool" where
  "gap input i j \<longleftrightarrow> i \<le> j \<and> (\<forall>k. i \<le> k \<and> k < j \<longrightarrow> input ! k = APOSTROPHE)"

fun tiling :: "bytes \<Rightarrow> option_bits \<Rightarrow> nat \<Rightarrow> parsed_syllable list \<Rightarrow> nat \<Rightarrow> bool" where
  "tiling input opts i [] j \<longleftrightarrow> i = j"
| "tiling input opts i (s # ss) j \<longleftrightarrow>
     gap input i (ps_start s) \<and> spells input opts s \<and> (ps_completeness s = Partial \<longrightarrow> ss = []) \<and>
     tiling input opts (ps_end s) ss j"

definition whole :: "parsed_syllable list \<Rightarrow> bool" where
  "whole p \<longleftrightarrow> list_all (\<lambda>s. ps_completeness s = Complete) p"

definition boundary :: "bytes \<Rightarrow> nat \<Rightarrow> bool" where
  "boundary input n \<longleftrightarrow> n = length input \<or> \<not> is_ascii_lowercase (input ! n)"

text \<open>The tilings that reach furthest, of which there is one at least, longest syllable first; where whole syllables end at the end of a
  letter group, the tilings that end in a partial syllable there are left out.\<close>

definition all_tilings :: "bytes \<Rightarrow> option_bits \<Rightarrow> nat \<Rightarrow> parsed_syllable list list \<Rightarrow> bool" where
  "all_tilings input opts n ps \<longleftrightarrow>
     ps \<noteq> [] \<and> sorted_wrt (longer_first ps_end) ps \<and>
     set ps = {p. tiling input opts 0 p n \<and>
       (whole p \<or> \<not> (boundary input n \<and> (\<exists>q. tiling input opts 0 q n \<and> whole q)))} \<and>
     (\<forall>p m. tiling input opts 0 p m \<longrightarrow> m \<le> n)"

lemma not_lower_apostrophe [simp]: "\<not> is_ascii_lowercase APOSTROPHE"
  by (simp add: is_ascii_lowercase_def APOSTROPHE_def)

lemma tiling_le: "tiling input opts i p j \<Longrightarrow> i \<le> j"
  by (induction p arbitrary: i) (fastforce simp: gap_def spells_def letters_def)+

lemma tiling_append:
  "whole p \<Longrightarrow> tiling input opts i (p @ q) j \<longleftrightarrow> (\<exists>e. tiling input opts i p e \<and> tiling input opts e q j)"
  by (induction p arbitrary: i) (auto simp: whole_def)

lemma tiling_end: "tiling input opts i p j \<Longrightarrow> j = i \<or> j \<le> length input"
  by (induction p arbitrary: i) (auto simp: spells_def letters_def)

lemma tiling_start:
  "tiling input opts i p j \<Longrightarrow> p \<noteq> [] \<Longrightarrow> gap input i (ps_start (hd p)) \<and> letters input (ps_start (hd p)) (ps_end (hd p))"
  by (cases p) (auto simp: spells_def)

text \<open>A tiling that passes a byte which is no letter, from within the letters before it, stops there.\<close>

lemma tiling_passes:
  assumes "tiling input opts i p m" "i \<le> e" "e < m" "\<not> is_ascii_lowercase (input ! e)"
    "\<And>k. i \<le> k \<Longrightarrow> k < e \<Longrightarrow> is_ascii_lowercase (input ! k)"
  shows "\<exists>p1 p2. p = p1 @ p2 \<and> whole p1 \<and> tiling input opts i p1 e \<and> tiling input opts e p2 m"
  using assms
proof (induction p arbitrary: i)
  case (Cons s p)
  show ?case
  proof (cases "i = e")
    case True
    with Cons.prems(1) show ?thesis by (intro exI [of _ "[]"] exI [of _ "s # p"]) (auto simp: whole_def)
  next
    case False
    then have "is_ascii_lowercase (input ! i)" using Cons.prems(2,5) by simp
    then have start: "ps_start s = i"
      using Cons.prems(1) not_lower_apostrophe by (fastforce simp: gap_def)
    have stop: "ps_end s \<le> e"
      using Cons.prems(1,2,4) start by (force simp: spells_def letters_def)
    have "i < ps_end s" using Cons.prems(1) start by (simp add: spells_def letters_def)
    moreover have "ps_completeness s = Complete"
      using Cons.prems(1,3) stop by (cases "ps_completeness s") auto
    moreover obtain p1 p2 where "p = p1 @ p2" "whole p1" "tiling input opts (ps_end s) p1 e" "tiling input opts e p2 m"
      using Cons.IH [of "ps_end s"] Cons.prems stop calculation(1) by auto
    ultimately show ?thesis
      using Cons.prems(1) by (intro exI [of _ "s # p1"] exI [of _ p2]) (auto simp: whole_def)
  qed
qed simp

section \<open>A letter group\<close>

lemma slice_slice: "j \<le> e - b \<Longrightarrow> e \<le> length xs \<Longrightarrow> slice (slice xs b e) i j = slice xs (b + i) (b + j)"
  by (cases "i \<le> j") (auto simp: slice_def drop_take min_def add.commute)

lemma tiling_within:
  assumes "\<And>k. b \<le> k \<Longrightarrow> k < e \<Longrightarrow> is_ascii_lowercase (input ! k)" "e \<le> length input" "b + m \<le> e"
  shows "(tiling input opts (b + i) p (b + m) \<and> whole p \<longleftrightarrow>
      reading (complete_seg (slice input b e) b opts) (\<lambda>_. None) m i p) \<and>
    (prefix_free opts \<longrightarrow> tiling input opts (b + i) p (b + m) \<longleftrightarrow>
      reading (complete_seg (slice input b e) b opts) (partial_seg (slice input b e) b m) m i p)"
proof (induction p arbitrary: i)
  case (Cons s p)
  let ?g = "slice input b e"
  have len: "length ?g = e - b" using assms(2) by (simp add: length_slice)
  have seg: "complete_seg ?g b opts i j = Some s \<longleftrightarrow> ps_start s = b + i \<and> ps_end s = b + j \<and> ps_completeness s = Complete \<and>
      spells input opts s" if "j \<le> m" for j
  proof -
    have "slice ?g i j = slice input (b + i) (b + j)"
      using that assms(2,3) by (intro slice_slice) auto
    moreover have "letters input (b + i) (b + j)" if "i < j"
      using that \<open>j \<le> m\<close> assms by (auto simp: letters_def)
    moreover have "complete_syllable (slice ?g i j) opts = Some t \<Longrightarrow> j \<le> i + MAX_SYLLABLE_LEN" for t
      using complete_syllable_length [of "slice ?g i j" opts t] that assms(3) by (auto simp: length_slice len)
    ultimately show ?thesis
      by (cases s) (auto simp: complete_seg_def segment_def spells_def letters_def)
  qed
  have part: "partial_seg ?g b m i = Some s \<longleftrightarrow> ps_start s = b + i \<and> ps_end s = b + m \<and> ps_completeness s = Partial \<and>
      spells input opts s"
  proof -
    have "slice ?g i m = slice input (b + i) (b + m)"
      using assms(2,3) by (intro slice_slice) auto
    moreover have "letters input (b + i) (b + m)" if "i < m"
      using that assms by (auto simp: letters_def)
    moreover have "is_partial_only (slice ?g i m) \<Longrightarrow> m \<le> i + MAX_SYLLABLE_LEN"
      using partial_only_length [of "slice ?g i m"] assms(3) by (simp add: length_slice len)
    ultimately show ?thesis
      by (cases s) (auto simp: partial_seg_def segment_def spells_def letters_def)
  qed
  have start: "ps_start s = b + i \<and> (\<exists>j \<le> m. ps_end s = b + j)" if t: "tiling input opts (b + i) (s # p) (b + m)"
  proof -
    have "ps_end s \<le> b + m" "ps_start s < ps_end s" "gap input (b + i) (ps_start s)"
      using t tiling_le by (auto simp: spells_def letters_def)
    moreover from this have "is_ascii_lowercase (input ! (b + i))"
      using assms by (auto simp: gap_def)
    ultimately show ?thesis
      using not_lower_apostrophe by (intro conjI exI [of _ "ps_end s - b"]) (fastforce simp: gap_def)+
  qed
  have upto: "j \<le> m" if "reading (complete_seg ?g b opts) q m j p" "q = (\<lambda>_. None) \<or> q = partial_seg ?g b m" for j q
    using that(2) by (intro complete.reading_upto [OF _ that(1)]) (auto simp: partial_seg_def split: if_splits)
  have one: "tiling input opts (b + i) (s # p) (b + m) \<longleftrightarrow>
      (\<exists>j \<le> m. complete_seg ?g b opts i j = Some s \<and> tiling input opts (b + j) p (b + m)) \<or>
      (partial_seg ?g b m i = Some s \<and> p = [])"
  proof
    assume t: "tiling input opts (b + i) (s # p) (b + m)"
    then obtain j where j: "ps_start s = b + i" "ps_end s = b + j" "j \<le> m" using start by blast
    show "(\<exists>j \<le> m. complete_seg ?g b opts i j = Some s \<and> tiling input opts (b + j) p (b + m)) \<or>
      (partial_seg ?g b m i = Some s \<and> p = [])"
      using t j seg [OF j(3)] part by (cases "ps_completeness s") auto
  next
    assume "(\<exists>j \<le> m. complete_seg ?g b opts i j = Some s \<and> tiling input opts (b + j) p (b + m)) \<or>
      (partial_seg ?g b m i = Some s \<and> p = [])"
    then show "tiling input opts (b + i) (s # p) (b + m)"
      using seg part by (auto simp: gap_def)
  qed
  have kinds: "complete_seg ?g b opts i j = Some s \<Longrightarrow> ps_completeness s = Complete"
      "partial_seg ?g b m i = Some s \<Longrightarrow> ps_completeness s = Partial" for j
    by (auto simp: complete_seg_def partial_seg_def segment_def split: if_splits)
  have apart: "complete_seg ?g b opts i m = None" if "prefix_free opts" "partial_seg ?g b m i = Some s"
    using that by (auto simp: prefix_free_def partial_seg_def complete_seg_def split: if_splits)
  show ?case
  proof
    show "tiling input opts (b + i) (s # p) (b + m) \<and> whole (s # p) \<longleftrightarrow> reading (complete_seg ?g b opts) (\<lambda>_. None) m i (s # p)"
      using Cons.IH upto [of "\<lambda>_. None"] kinds unfolding one by (fastforce simp: whole_def)
    show "prefix_free opts \<longrightarrow> tiling input opts (b + i) (s # p) (b + m) \<longleftrightarrow>
        reading (complete_seg ?g b opts) (partial_seg ?g b m) m i (s # p)"
      using Cons.IH upto [of "partial_seg ?g b m"] apart unfolding one reading.simps by blast
  qed
qed (auto simp: whole_def)

text \<open>The group that begins at \<open>b\<close>: from there no tiling goes past what the group's target reaches, unless
  the group has a whole reading.\<close>

lemma group_stop_spec:
  assumes "b \<le> length input"
  shows "b \<le> group_stop input b \<and> group_stop input b \<le> length input \<and>
    (\<forall>k. b \<le> k \<and> k < group_stop input b \<longrightarrow> is_ascii_lowercase (input ! k)) \<and> boundary input (group_stop input b)"
proof (cases "position (\<lambda>b. \<not> is_ascii_lowercase b) (drop b input)")
  case None
  have "position P xs = None \<Longrightarrow> x \<in> set xs \<Longrightarrow> \<not> P x" for P and xs :: bytes and x
    by (induction xs) (auto split: if_splits)
  from this [OF None] have "is_ascii_lowercase (input ! k)" if "b \<le> k" "k < length input" for k
    using that nth_mem [of "k - b" "drop b input"] by auto
  then show ?thesis using None assms by (auto simp: group_stop_def boundary_def)
next
  case (Some n)
  have n: "n < length input - b" "\<not> is_ascii_lowercase (input ! (b + n))" "\<forall>j < n. is_ascii_lowercase (input ! (b + j))"
    using position_bounds [OF Some] assms by auto
  have "is_ascii_lowercase (input ! k)" if "b \<le> k" "k < b + n" for k
    using n(3) [rule_format, of "k - b"] that by auto
  then show ?thesis using n(1,2) Some by (auto simp: group_stop_def boundary_def)
qed

lemma reading_readable:
  assumes "0 < m" "m \<le> length grp" "reading (complete_seg grp b opts) (partial_seg grp b m) m 0 p"
  shows "readable grp opts (length grp) m"
proof -
  let ?c = "complete_seg grp b opts"
  have "readings ?c (partial_seg grp b m) m 0 \<noteq> []"
    using assms(3) fallback.readings_set [of 0 m grp b opts] by auto
  then have "0 < length (readings ?c (partial_seg grp b m) m 0)" by simp
  then have "0 < chains ?c 0 m + (\<Sum>k \<in> {0..<m}. chains ?c 0 k * partial_end ?c (partial_seg grp b m) m k)"
    using fallback.readings_count [of 0 m grp b opts] by simp
  then consider "0 < chains ?c 0 m" | k where "k < m" "0 < chains ?c 0 k" "partial_end ?c (partial_seg grp b m) m k \<noteq> 0"
    by (auto simp: neq0_conv [symmetric] simp del: neq0_conv)
  then show ?thesis
  proof cases
    case 1
    then obtain k where "k < m" "0 < chains (complete_seg grp 0 opts) 0 k" "complete_seg grp 0 opts k m \<noteq> None"
      using chains_reached [of grp 0 opts m] assms(1) chains_base [of 0 m grp b opts] by auto
    then show ?thesis using assms(2) by (auto simp: readable_def intro!: exI [of _ k])
  next
    case 2
    then show ?thesis
      using assms(2) chains_base [of 0 k grp b opts]
      by (auto simp: readable_def partial_end_def partial_seg_def split: if_splits intro!: exI [of _ k])
  qed
qed

lemma group_tilings:
  fixes b input opts
  defines "e \<equiv> group_stop input b" and "grp \<equiv> slice input b (group_stop input b)"
  assumes "prefix_free opts" "b \<le> length input"
  shows "group_complete grp opts \<longleftrightarrow> (\<exists>p. tiling input opts b p e \<and> whole p)"
    "set (group_readings grp b opts) =
       {p. tiling input opts b p (b + group_target grp opts) \<and> (group_complete grp opts \<longrightarrow> whole p)}"
    "sorted_wrt (longer_first ps_end) (group_readings grp b opts)"
    "\<not> group_complete grp opts \<Longrightarrow> tiling input opts b p m \<Longrightarrow> m \<le> b + group_target grp opts"
    "b + group_target grp opts \<le> e"
proof -
  let ?L = "length grp" and ?c = "complete_seg grp b opts"
  note stop = group_stop_spec [OF assms(4), folded e_def]
  have L: "b + ?L = e" using stop by (simp add: grp_def e_def [symmetric] length_slice)
  have within: "(tiling input opts b p (b + m) \<and> whole p \<longleftrightarrow> reading ?c (\<lambda>_. None) m 0 p)"
      "(tiling input opts b p (b + m) \<longleftrightarrow> reading ?c (partial_seg grp b m) m 0 p)" if "m \<le> ?L" for m p
    using tiling_within [of b e input m opts 0 p] stop that L assms(3) by (auto simp: grp_def e_def)
  show c: "group_complete grp opts \<longleftrightarrow> (\<exists>p. tiling input opts b p e \<and> whole p)"
    using complete.chains_positive [of 0 ?L grp 0 opts] complete.chains_positive [of 0 ?L grp b opts] within(1) [of ?L]
      chains_base [of 0 ?L grp b opts] L by (simp add: group_complete_def)
  have t: "group_target grp opts \<le> ?L"
    using maximal_fallback_le by (simp add: group_target_def)
  then show "b + group_target grp opts \<le> e" using L by simp
  show "set (group_readings grp b opts) =
      {p. tiling input opts b p (b + group_target grp opts) \<and> (group_complete grp opts \<longrightarrow> whole p)}"
  proof (cases "group_complete grp opts")
    case True
    then show ?thesis
      using complete.readings_set [of 0 grp b opts] within(1) [of ?L] by (auto simp: group_readings_def group_target_def)
  next
    case False
    then show ?thesis
      using fallback.readings_set [of 0 "group_target grp opts" grp b opts] within(2) [OF t] by (auto simp: group_readings_def)
  qed
  show "sorted_wrt (longer_first ps_end) (group_readings grp b opts)"
    using complete.readings_sorted [of 0 grp b opts] fallback.readings_sorted [of 0 "group_target grp opts" grp b opts]
    by (auto simp: group_readings_def group_target_def)
  show "m \<le> b + group_target grp opts" if g: "\<not> group_complete grp opts" and m: "tiling input opts b p m"
  proof (cases "m \<le> e")
    case True
    have "m - b \<le> ?L" using True L by simp
    then have "m = b \<or> readable grp opts ?L (m - b)"
      using reading_readable [of "m - b" grp b opts p] within(2) [of "m - b" p] m tiling_le [OF m] by (cases "m = b") auto
    then show ?thesis
      using maximal_fallback_spec [of grp opts] g by (auto simp: group_target_def)
  next
    case False
    then have "e < length input" using tiling_end [OF m] stop by auto
    then have "\<exists>p. tiling input opts b p e \<and> whole p"
      using tiling_passes [OF m, of e] False stop by (auto simp: boundary_def)
    then show ?thesis using c g by simp
  qed
qed

lemma readable_reading:
  assumes "readable grp opts (length grp) m"
  shows "readings (complete_seg grp b opts) (partial_seg grp b m) m 0 \<noteq> []"
proof -
  let ?c = "complete_seg grp b opts"
  obtain k where k: "0 < chains ?c 0 k" "k < m" "m \<le> length grp" "?c k m \<noteq> None \<or> is_partial_only (slice grp k m)"
    using assms chains_base [of 0 _ grp b opts] by (auto simp: readable_def complete_seg_def split: if_splits)
  have "0 < chains ?c 0 m \<or> 0 < chains ?c 0 k * partial_end ?c (partial_seg grp b m) m k"
  proof (cases "?c k m")
    case None
    then have "is_partial_only (slice grp k m)" using k(4) by simp
    moreover from this have "m \<le> k + MAX_SYLLABLE_LEN"
      using partial_only_length [of "slice grp k m"] k(3) by (simp add: length_slice)
    ultimately show ?thesis using None k(1,2) by (simp add: partial_end_def partial_seg_def)
  next
    case (Some s)
    then show ?thesis using chains_reached [of grp b opts m] k(1,2) by auto
  qed
  moreover have "chains ?c 0 k * partial_end ?c (partial_seg grp b m) m k \<le>
      (\<Sum>k \<in> {0..<m}. chains ?c 0 k * partial_end ?c (partial_seg grp b m) m k)"
    using k(2) by (intro member_le_sum) auto
  ultimately have "0 < length (readings ?c (partial_seg grp b m) m 0)"
    using fallback.readings_count [of 0 m grp b opts] by auto
  then show ?thesis by simp
qed

lemma group_readings_nonempty: "group_readings grp b opts \<noteq> []"
proof (cases "group_complete grp opts")
  case True
  then have "0 < chains (complete_seg grp b opts) 0 (length grp)"
    using chains_base [of 0 "length grp" grp b opts] by (simp add: group_complete_def)
  then show ?thesis using True by (simp add: chains_def group_readings_def group_target_def)
next
  case False
  then show ?thesis
    using maximal_fallback_spec [of grp opts] readable_reading [of grp opts _ b]
    by (auto simp: group_readings_def group_target_def)
qed

section \<open>The groups of an input\<close>

lemma tiling_self: "tiling input opts i p i \<Longrightarrow> p = []"
proof (cases p)
  case (Cons s q)
  assume "tiling input opts i p i"
  with Cons show ?thesis
    using tiling_le [of input opts "ps_end s" q i] by (auto simp: gap_def spells_def letters_def)
qed simp

lemma tiling_skip:
  assumes "gap input e b" "b = length input \<or> input ! b \<noteq> APOSTROPHE" "b \<le> length input"
  shows "tiling input opts e p m \<longleftrightarrow> p = [] \<and> m = e \<or> p \<noteq> [] \<and> tiling input opts b p m"
proof (cases p)
  case (Cons s q)
  have "gap input e (ps_start s) \<longleftrightarrow> gap input b (ps_start s)" if l: "letters input (ps_start s) (ps_end s)"
  proof -
    have "ps_start s < length input" "input ! ps_start s \<noteq> APOSTROPHE"
      using l not_lower_apostrophe by (auto simp: letters_def)
    then show ?thesis
      using assms by (auto simp: gap_def) (metis le_less_linear le_trans)+
  qed
  with Cons show ?thesis by (auto simp: spells_def)
qed auto

lemma skip_apostrophes_spec:
  assumes "b \<le> length input"
  defines "c \<equiv> skip_apostrophes input b"
  shows "gap input b c" "c \<le> length input" "c = length input \<or> input ! c \<noteq> APOSTROPHE"
proof -
  let ?n = "length (takeWhile (\<lambda>b. b = APOSTROPHE) (drop b input))"
  have n: "?n \<le> length (drop b input)" by (rule length_takeWhile_le)
  show "c \<le> length input" using n assms by (simp add: skip_apostrophes_def)
  have "input ! k = APOSTROPHE" if "b \<le> k" "k < b + ?n" for k
  proof -
    have "k - b < ?n" using that by simp
    then have "drop b input ! (k - b) = APOSTROPHE"
      using nth_mem [of "k - b" "takeWhile (\<lambda>b. b = APOSTROPHE) (drop b input)"] takeWhile_nth [of "k - b"]
      by (metis set_takeWhileD)
    then show ?thesis using that assms by simp
  qed
  then show "gap input b c" by (auto simp: gap_def c_def skip_apostrophes_def)
  show "c = length input \<or> input ! c \<noteq> APOSTROPHE"
    using nth_length_takeWhile [of "\<lambda>b. b = APOSTROPHE" "drop b input"] assms n
    by (cases "?n < length (drop b input)") (auto simp: skip_apostrophes_def)
qed

text \<open>Between two groups: the paths accumulated so far are the whole tilings up to the end \<open>e\<close> of the last
  group, every tiling that goes further passes \<open>e\<close>, and only apostrophes lie between \<open>e\<close> and the cursor.\<close>

definition stage :: "bytes \<Rightarrow> option_bits \<Rightarrow> parsed_syllable list list \<Rightarrow> nat \<Rightarrow> nat \<Rightarrow> bool" where
  "stage input opts acc e cursor \<longleftrightarrow>
     cursor \<le> length input \<and> gap input e cursor \<and> (cursor = length input \<or> input ! cursor \<noteq> APOSTROPHE) \<and>
     (e = 0 \<or> boundary input e) \<and> acc \<noteq> [] \<and> sorted_wrt (longer_first ps_end) acc \<and>
     set acc = {p. tiling input opts 0 p e \<and> whole p} \<and>
     (\<forall>p m. tiling input opts 0 p m \<and> e < m \<longrightarrow>
        (\<exists>p1 p2. p = p1 @ p2 \<and> whole p1 \<and> tiling input opts 0 p1 e \<and> p2 \<noteq> [] \<and> tiling input opts cursor p2 m))"

definition product :: "'a list list \<Rightarrow> 'a list list \<Rightarrow> 'a list list" where
  "product A B = concat (map (\<lambda>l. map (\<lambda>r. l @ r) B) A)"

lemma length_product [simp]: "length (product A B) = length A * length B"
  by (induction A) (auto simp: product_def)

lemma set_product: "set (product A B) = {l @ r | l r. l \<in> set A \<and> r \<in> set B}"
  by (auto simp: product_def)

lemma sorted_product:
  assumes "sorted_wrt (longer_first stop) A" "sorted_wrt (longer_first stop) B"
  shows "sorted_wrt (longer_first stop) (product A B)"
  using assms(1)
proof (induction A)
  case (Cons l A)
  have "sorted_wrt (longer_first stop) (map (\<lambda>r. l @ r) B)"
    unfolding sorted_wrt_map using assms(2) by (rule sorted_wrt_mono_rel [rotated]) (rule longer_first_append)
  then show ?case
    using Cons by (auto simp: product_def sorted_wrt_append intro!: longer_first_extend)
qed (simp add: product_def)

lemma stageD:
  assumes "stage input opts acc e cursor"
  shows "cursor \<le> length input" "gap input e cursor" "cursor = length input \<or> input ! cursor \<noteq> APOSTROPHE"
    "e = 0 \<or> boundary input e" "acc \<noteq> []" "sorted_wrt (longer_first ps_end) acc"
    "set acc = {p. tiling input opts 0 p e \<and> whole p}"
    "\<And>p m. tiling input opts 0 p m \<Longrightarrow> e < m \<Longrightarrow>
       \<exists>p1 p2. p = p1 @ p2 \<and> whole p1 \<and> tiling input opts 0 p1 e \<and> p2 \<noteq> [] \<and> tiling input opts cursor p2 m"
  using assms unfolding stage_def by (elim conjE; (assumption | blast))+

lemma stage_stops:
  assumes "stage input opts acc e cursor" "\<And>p m. tiling input opts cursor p m \<Longrightarrow> p = []"
  shows "all_tilings input opts e acc"
proof -
  note st = stageD [OF assms(1)]
  have "m \<le> e" if "tiling input opts 0 p m" for p m
    using st(8) [OF that] assms(2) by (meson not_le)
  moreover have "whole p \<or> \<not> (boundary input e \<and> (\<exists>q. tiling input opts 0 q e \<and> whole q)) \<longleftrightarrow> whole p"
    if "tiling input opts 0 p e" for p
  proof (cases "e = 0")
    case True
    then show ?thesis using tiling_self [of input opts 0 p] that by (simp add: whole_def)
  next
    case False
    obtain q where "q \<in> set acc" using st(5) by (cases acc) auto
    then have "tiling input opts 0 q e \<and> whole q" unfolding st(7) by simp
    then show ?thesis using st(4) False by blast
  qed
  ultimately show ?thesis
    using st(5,6) unfolding all_tilings_def st(7) by (intro conjI Collect_cong) blast+
qed

lemma stage_product:
  assumes "stage input opts acc e b" "prefix_free opts"
  defines "grp \<equiv> slice input b (group_stop input b)"
  assumes "0 < group_target grp opts"
  shows "sorted_wrt (longer_first ps_end) (product acc (group_readings grp b opts))"
    "set (product acc (group_readings grp b opts)) =
       {p. tiling input opts 0 p (b + group_target grp opts) \<and> (group_complete grp opts \<longrightarrow> whole p)}"
proof -
  note st = stageD [OF assms(1)] and gt = group_tilings [OF assms(2) st(1), folded grp_def]
  let ?n = "b + group_target grp opts"
  show "sorted_wrt (longer_first ps_end) (product acc (group_readings grp b opts))"
    using sorted_product [OF st(6) gt(3)] .
  have e: "e \<le> b" using st(2) by (simp add: gap_def)
  have skip: "tiling input opts e q m \<longleftrightarrow> tiling input opts b q m" if "q \<noteq> []" for q m
    using tiling_skip [OF st(2,3,1)] that by blast
  have in_readings: "q \<in> set (group_readings grp b opts) \<longleftrightarrow> tiling input opts b q ?n \<and> (group_complete grp opts \<longrightarrow> whole q)" for q
    unfolding gt(2) by simp
  show "set (product acc (group_readings grp b opts)) =
      {p. tiling input opts 0 p ?n \<and> (group_complete grp opts \<longrightarrow> whole p)}"
  proof (intro set_eqI iffI)
    fix p
    assume "p \<in> set (product acc (group_readings grp b opts))"
    then obtain l r where p: "p = l @ r" "tiling input opts 0 l e" "whole l" "tiling input opts b r ?n"
        "group_complete grp opts \<longrightarrow> whole r"
      unfolding set_product st(7) by (auto simp: in_readings)
    have "r \<noteq> []" using p(4) assms(4) by auto
    then show "p \<in> {p. tiling input opts 0 p ?n \<and> (group_complete grp opts \<longrightarrow> whole p)}"
      using p skip tiling_append [OF p(3)] by (auto simp: whole_def)
  next
    fix p
    assume "p \<in> {p. tiling input opts 0 p ?n \<and> (group_complete grp opts \<longrightarrow> whole p)}"
    then have p: "tiling input opts 0 p ?n" "group_complete grp opts \<longrightarrow> whole p" by auto
    obtain p1 p2 where "p = p1 @ p2" "whole p1" "tiling input opts 0 p1 e" "tiling input opts b p2 ?n"
      using st(8) [OF p(1)] e assms(4) by auto
    then show "p \<in> set (product acc (group_readings grp b opts))"
      using p(2) unfolding set_product st(7) by (auto simp: in_readings whole_def)
  qed
qed

lemma stage_ends:
  assumes "stage input opts acc e b" "prefix_free opts"
  defines "grp \<equiv> slice input b (group_stop input b)"
  assumes "0 < group_target grp opts" "\<not> group_complete grp opts"
  shows "all_tilings input opts (b + group_target grp opts) (product acc (group_readings grp b opts))"
proof -
  note st = stageD [OF assms(1)] and gt = group_tilings [OF assms(2) st(1), folded grp_def]
    and stop = group_stop_spec [OF st(1)]
  let ?n = "b + group_target grp opts"
  have "m \<le> ?n" if "tiling input opts 0 p m" for p m
  proof (cases "e < m")
    case True
    then show ?thesis using st(8) [OF that] gt(4) [OF assms(5)] by blast
  qed (use st(2) in \<open>simp add: gap_def\<close>)
  moreover have "\<not> (boundary input ?n \<and> (\<exists>q. tiling input opts 0 q ?n \<and> whole q))"
  proof
    assume "boundary input ?n \<and> (\<exists>q. tiling input opts 0 q ?n \<and> whole q)"
    then obtain q where q: "boundary input ?n" "tiling input opts 0 q ?n" "whole q" by blast
    have "\<not> ?n < group_stop input b"
      using stop q(1) less_le_trans [of ?n "group_stop input b" "length input"] by (auto simp: boundary_def)
    then have "?n = group_stop input b" using gt(5) by simp
    moreover have "e < ?n" using st(2) assms(4) by (simp add: gap_def)
    then obtain p2 where "tiling input opts b p2 ?n" "whole p2"
      using st(8) [OF q(2)] q(3) by (auto simp: whole_def)
    ultimately show False using gt(1) assms(5) by metis
  qed
  moreover have "product acc (group_readings grp b opts) \<noteq> []"
    using st(5) group_readings_nonempty [of grp b opts] by (simp flip: length_greater_0_conv)
  ultimately show ?thesis
    using stage_product [OF assms(1,2), folded grp_def, OF assms(4)] assms(5) by (simp add: all_tilings_def)
qed

lemma stage_advances:
  assumes "stage input opts acc e b" "prefix_free opts" "b < group_stop input b"
  defines "grp \<equiv> slice input b (group_stop input b)"
  assumes "group_complete grp opts"
    "gap input (group_stop input b) c" "c \<le> length input" "c = length input \<or> input ! c \<noteq> APOSTROPHE"
  shows "stage input opts (product acc (group_readings grp b opts)) (group_stop input b) c"
proof -
  note st = stageD [OF assms(1)] and gt = group_tilings [OF assms(2) st(1), folded grp_def]
    and stop = group_stop_spec [OF st(1)]
  let ?e = "group_stop input b" and ?ps = "product acc (group_readings grp b opts)"
  have target: "b + group_target grp opts = ?e" "0 < group_target grp opts"
    using assms(3,5) stop by (auto simp: group_target_def grp_def length_slice)
  note prod = stage_product [OF assms(1,2), folded grp_def, OF target(2), unfolded target(1)]
  have "\<exists>p1 p2. p = p1 @ p2 \<and> whole p1 \<and> tiling input opts 0 p1 ?e \<and> p2 \<noteq> [] \<and> tiling input opts c p2 m"
    if m: "tiling input opts 0 p m" "?e < m" for p m
  proof -
    have "e < m" using m(2) assms(3) st(2) by (simp add: gap_def)
    then obtain p1 p2 where 1: "p = p1 @ p2" "whole p1" "tiling input opts 0 p1 e" "p2 \<noteq> []" "tiling input opts b p2 m"
      using st(8) [OF m(1)] by blast
    have "?e < length input" using tiling_end [OF m(1)] m(2) stop by auto
    then obtain q1 q2 where 2: "p2 = q1 @ q2" "whole q1" "tiling input opts b q1 ?e" "tiling input opts ?e q2 m"
      using tiling_passes [OF 1(5), of ?e] stop m(2) by (auto simp: boundary_def)
    have "q2 \<noteq> []" "q1 \<noteq> []" using 2(3,4) m(2) assms(3) by auto
    moreover have "tiling input opts e q1 ?e"
      using tiling_skip [OF st(2,3,1)] 2(3) \<open>q1 \<noteq> []\<close> by blast
    moreover have "tiling input opts c q2 m"
      using tiling_skip [OF assms(6,8,7)] 2(4) \<open>q2 \<noteq> []\<close> by blast
    ultimately show ?thesis
      using 1 2(1,2) tiling_append [OF 1(2)] by (intro exI [of _ "p1 @ q1"] exI [of _ q2]) (auto simp: whole_def)
  qed
  moreover have "?ps \<noteq> []"
    using st(5) group_readings_nonempty [of grp b opts] length_product [of acc "group_readings grp b opts"] by (metis length_0_conv mult_is_0)
  ultimately show ?thesis
    using prod assms(5-8) stop unfolding stage_def by simp
qed

section \<open>Parsing\<close>

definition limited :: "bytes \<Rightarrow> nat \<Rightarrow> parsed_syllable list list \<Rightarrow> parse_stop + parse_result list" where
  "limited input n ps =
     (if MAX_PARSE_RESULTS < length ps then Inl (Rejected too_many_alternatives) else Inr (finish_paths ps input n))"

lemma combine_product:
  "length A \<le> MAX_PARSE_RESULTS \<Longrightarrow> length B \<le> MAX_PARSE_RESULTS \<Longrightarrow>
   combine A B = (if MAX_PARSE_RESULTS < length (product A B) then Inl too_many_alternatives else Inr (product A B))"
proof -
  assume "length A \<le> MAX_PARSE_RESULTS" "length B \<le> MAX_PARSE_RESULTS"
  then have "length A * length B \<le> MAX_PARSE_RESULTS * MAX_PARSE_RESULTS" by (rule mult_le_mono)
  then have "combine A B = (if MAX_PARSE_RESULTS < length A * length B then Inl too_many_alternatives else Inr (product A B))"
    by (simp add: combine_def checked_mul_def usize_max_def MAX_PARSE_RESULTS_def product_def)
  then show ?thesis by simp
qed

lemma no_tiling:
  assumes "boundary input b" "b = length input \<or> input ! b \<noteq> APOSTROPHE" "tiling input opts b p m"
  shows "p = []"
proof (rule ccontr)
  assume "p \<noteq> []"
  then have "gap input b (ps_start (hd p))" "letters input (ps_start (hd p)) (ps_end (hd p))"
    using tiling_start [OF assms(3)] by auto
  then show False
    using assms(1,2) by (auto simp: gap_def letters_def boundary_def order_le_less)
qed

lemma group_answers:
  fixes grp b
  assumes "prefix_free opts"
  defines "R \<equiv> group_readings grp b opts"
  shows "parse_group grp b opts = (if MAX_PARSE_RESULTS < length R then Some (Inl (Rejected too_many_alternatives))
    else Some (Inr \<lparr>gp_paths = R, gp_consumed = group_target grp opts, gp_complete = group_complete grp opts\<rparr>))"
  using parse_group_readings [OF assms(1), of grp b] by (simp add: R_def)

lemma parse_groups_tilings:
  assumes "prefix_free opts"
  shows "stage input opts acc e cursor \<Longrightarrow> e = (case pending of Some s \<Rightarrow> s | None \<Rightarrow> cursor) \<Longrightarrow>
    \<exists>n ps. all_tilings input opts n ps \<and> length acc \<le> length ps \<and>
      (length acc \<le> MAX_PARSE_RESULTS \<longrightarrow> parse_groups input opts acc cursor pending = Some (limited input n ps))"
proof (induction "length input - cursor" arbitrary: acc e cursor pending rule: less_induct)
  case less
  note st = stageD [OF less.prems(1)] and stop = group_stop_spec [OF st(1)]
  let ?e = "group_stop input cursor"
  define grp where "grp = slice input cursor ?e"
  define R where "R = group_readings grp cursor opts"
  have R: "R \<noteq> []" by (simp add: R_def group_readings_nonempty)
  have grow: "length acc \<le> length (product acc R)" "length R \<le> length (product acc R)"
    using st(5) R by (cases acc; cases R; simp)+
  have big: "MAX_PARSE_RESULTS < length R \<Longrightarrow> MAX_PARSE_RESULTS < length acc * length R"
    using grow(2) unfolding length_product by linarith
  note run = parse_groups.simps [of input opts acc cursor pending, unfolded Let_def, folded grp_def less.prems(2)]
    group_answers [OF assms, of grp cursor, folded R_def] combine_product [of acc R]
  consider (none) "cursor = ?e" | (stuck) "cursor \<noteq> ?e" "group_target grp opts = 0"
    | (partial) "cursor \<noteq> ?e" "0 < group_target grp opts" "\<not> group_complete grp opts"
    | (complete) "cursor \<noteq> ?e" "0 < group_target grp opts" "group_complete grp opts" by blast
  then show ?case
  proof cases
    case none
    then have "all_tilings input opts e acc"
      using stage_stops [OF less.prems(1)] no_tiling [of input cursor opts] stop st(3) by auto
    then show ?thesis
      using none by (intro exI [of _ e] exI [of _ acc]) (simp add: run(1) limited_def)
  next
    case stuck
    have not: "\<not> group_complete grp opts"
      using stuck stop by (auto simp: group_target_def grp_def length_slice)
    have "p = []" if "tiling input opts cursor p m" for p m
      using group_tilings(4) [OF assms st(1), folded grp_def, OF not that] stuck tiling_le [OF that] that tiling_self
      by (metis add_0_right le_antisym)
    then have "all_tilings input opts e acc"
      using stage_stops [OF less.prems(1)] by blast
    moreover have "R = [[]]"
      using stuck not by (simp add: R_def group_readings_def)
    ultimately show ?thesis
      using stuck by (intro exI [of _ e] exI [of _ acc]) (simp add: run limited_def MAX_PARSE_RESULTS_def)
  next
    case partial
    have "all_tilings input opts (cursor + group_target grp opts) (product acc R)"
      unfolding R_def grp_def using stage_ends [OF less.prems(1) assms] partial by (simp add: grp_def)
    then show ?thesis
      using partial grow big
      by (intro exI [of _ "cursor + group_target grp opts"] exI [of _ "product acc R"]) (simp add: run limited_def)
  next
    case complete
    have lt: "cursor < ?e" using complete(1) stop by simp
    note adv = stage_advances [OF less.prems(1) assms lt, folded grp_def, OF complete(3), folded R_def]
    show ?thesis
    proof (cases "?e < length input \<and> input ! ?e = APOSTROPHE")
      case False
      have "stage input opts (product acc R) ?e ?e"
        using False stop by (intro adv) (auto simp: gap_def)
      then have "all_tilings input opts ?e (product acc R)"
        using stage_stops no_tiling [of input ?e opts] stop False by (metis le_neq_implies_less)
      then show ?thesis
        using complete grow big False stop
        by (intro exI [of _ ?e] exI [of _ "product acc R"]) (auto simp: run limited_def)
    next
      case True
      let ?c = "skip_apostrophes input ?e"
      note skip = skip_apostrophes_spec [of ?e input]
      have sg: "stage input opts (product acc R) ?e ?c"
        using adv skip stop by auto
      show ?thesis
      proof (cases "?c = length input \<or> \<not> is_ascii_lowercase (input ! ?c)")
        case stops: True
        then have "all_tilings input opts ?e (product acc R)"
          using stage_stops [OF sg] no_tiling [of input ?c opts] stageD(3) [OF sg] by (auto simp: boundary_def)
        then show ?thesis
          using complete grow big True stops
          by (intro exI [of _ ?e] exI [of _ "product acc R"]) (simp add: run limited_def)
      next
        case more: False
        have "?e \<le> ?c" using skip stop by (simp add: gap_def)
        then have "length input - ?c < length input - cursor" using lt True by linarith
        from less.hyps [OF this sg, of "Some ?e"] obtain n ps where ps: "all_tilings input opts n ps"
            "length (product acc R) \<le> length ps"
            "length (product acc R) \<le> MAX_PARSE_RESULTS \<longrightarrow>
               parse_groups input opts (product acc R) ?c (Some ?e) = Some (limited input n ps)"
          by auto
        have "length acc \<le> length ps" using ps(2) grow(1) by linarith
        then show ?thesis
          using ps complete big True more
          by (intro exI [of _ n] exI [of _ ps]) (auto simp: run limited_def)
      qed
    qed
  qed
qed

end
