(* ===== verification/ParserBound.thy ===== *)
theory ParserBound
  imports ParserSpec
begin

text \<open>
  The two properties of the full-pinyin parser: which option words keep the counts and the
  enumerations of a group equal, what the parser answers under them, and an input on which it panics
  under another one.
\<close>

section \<open>Option words without prefix aliases\<close>

lemma byte_char_inverse: "word_of_nat (of_char (byte_char b)) = b"
proof -
  have "unat b < 256" using unsigned_less [of b] by simp
  then show ?thesis by (simp add: byte_char_def)
qed

lemma ascii_bytes_prefix: "take (length bs) (ascii_bytes u) = bs \<longleftrightarrow> take (length bs) u = map byte_char bs" if "length bs < length u"
proof -
  have "byte_char (word_of_nat (of_char c)) = c" for c :: char
    by (simp add: byte_char_def unat_of_nat)
  then have "map byte_char (ascii_bytes v) = v" "ascii_bytes (map byte_char ws) = ws" for v ws
    by (simp_all add: ascii_bytes_def comp_def byte_char_inverse map_idI)
  then show ?thesis
    by (metis ascii_bytes_def take_map)
qed

lemma partial_only_iff:
  "is_partial_only bs \<longleftrightarrow> complete_syllable bs 0 = None \<and>
     (\<exists>u \<in> set FULL_PINYIN_SYLLABLES. length bs < length u \<and> take (length bs) u = map byte_char bs)"
  by (auto simp: is_partial_only_def list_ex_iff ascii_bytes_prefix)

definition plain_spelling :: "string \<Rightarrow> bool" where
  "plain_spelling t \<longleftrightarrow> \<not> ends_with t ''gn'' \<and> \<not> ends_with t ''mg'' \<and> \<not> ends_with t ''iou'' \<and> \<not> ends_with t ''ue'' \<and>
     \<not> ends_with t ''uei'' \<and> \<not> ends_with t ''uen'' \<and> \<not> (2 \<le> length t \<and> t ! 0 \<in> set ''jqxy'' \<and> t ! 1 = CHR ''v'')"

lemma prefixes_plain: "list_all (\<lambda>u. list_all (\<lambda>n. plain_spelling (take n u)) [0..<length u]) FULL_PINYIN_SYLLABLES"
  by code_simp

text \<open>The options that make a proper prefix of a syllable, such as \<open>don\<close> or \<open>sua\<close>, a complete spelling.\<close>

definition prefix_aliases :: "option_bits \<Rightarrow> bool" where
  "prefix_aliases opts \<longleftrightarrow>
     contains opts PINYIN_CORRECT_ON_ONG \<or> contains opts PINYIN_AMB_S_SH \<or> contains opts PINYIN_AMB_Z_ZH"

lemma plain_no_alias:
  "plain_spelling t \<Longrightarrow> \<not> prefix_aliases opts \<Longrightarrow> option_alias_canonical t opts = None"
  by (auto simp: option_alias_canonical_def correction_canonical_def ambiguity_canonical_def plain_spelling_def
      prefix_aliases_def)

lemma prefix_free_options: "\<not> prefix_aliases opts \<Longrightarrow> prefix_free opts"
  unfolding prefix_free_def
proof (intro allI impI notI)
  fix bs
  assume opts: "\<not> prefix_aliases opts" and bs: "complete_syllable bs opts \<noteq> None" "is_partial_only bs"
  let ?t = "map byte_char bs"
  obtain u where u: "u \<in> set FULL_PINYIN_SYLLABLES" "length bs < length u" "?t = take (length bs) u"
    using bs(2) by (auto simp: partial_only_iff)
  then have "option_alias_canonical ?t opts = None"
    using prefixes_plain opts by (intro plain_no_alias) (auto simp: list_all_iff)
  moreover have "from_text ?t = None \<or> (\<exists>k. from_text ?t = Some k \<and> key_completeness k = Partial)"
    using bs by (auto simp: partial_only_iff complete_syllable_def from_option_text_def from_option_text_with_distance_def
        split: option.splits if_splits completeness.splits)
  ultimately show False
    using bs(1) by (auto simp: complete_syllable_def from_option_text_def from_option_text_with_distance_def
        split: if_splits option.splits)
qed

section \<open>Properties\<close>

text \<open>C3: the parser lists the furthest tilings. For an option word without the bits that turn a prefix of
  a syllable into a complete spelling, so in particular for the default word, parsing always returns
  and never reaches its assertions. There are a position \<open>n\<close>, past which no tiling goes, and the list, which is not empty, of
  the tilings that end there, longest syllable first at the first difference, none twice: whole
  syllables only where the letter group has a whole reading, with a final partial syllable otherwise.
  The answer is exactly that list, each alternative with the bytes from \<open>n\<close> as its remainder, when it
  holds at most \<open>MAX_PARSE_RESULTS\<close> alternatives, and the error otherwise.\<close>

theorem parse_input_spec:
  assumes "\<not> prefix_aliases opts"
  shows "\<exists>n ps. all_tilings input opts n ps \<and> distinct ps \<and>
    parse_input input opts = Some
      (if MAX_PARSE_RESULTS < length ps then Inl (Rejected (TooManyAlternatives MAX_PARSE_RESULTS))
       else Inr (map (\<lambda>p. \<lparr>pr_syllables = p, pr_remainder = drop n input\<rparr>) ps))"
proof -
  note free = prefix_free_options [OF assms]
  let ?c = "if 0 < length input \<and> input ! 0 = APOSTROPHE then skip_apostrophes input 0 else 0"
  have c: "gap input 0 ?c" "?c \<le> length input" "?c = length input \<or> input ! ?c \<noteq> APOSTROPHE"
    using skip_apostrophes_spec [of 0 input] by (auto simp: gap_def)
  have st: "stage input opts [[]] 0 ?c"
  proof -
    have "tiling input opts 0 p m \<Longrightarrow> 0 < m \<Longrightarrow> p \<noteq> [] \<and> tiling input opts ?c p m" for p m
      using tiling_skip [OF c(1,3,2)] by auto
    moreover have "{p. tiling input opts 0 p 0 \<and> whole p} = {[]}"
      using tiling_self by (auto simp: whole_def)
    moreover have "\<exists>p1 p2. p = p1 @ p2 \<and> whole p1 \<and> tiling input opts 0 p1 0 \<and> p2 \<noteq> [] \<and> tiling input opts ?c p2 m"
      if "tiling input opts 0 p m \<and> 0 < m" for p m
      using calculation(1) [of p m] that by (intro exI [of _ "[]"] exI [of _ p]) (auto simp: whole_def)
    ultimately show ?thesis
      using c unfolding stage_def by (intro conjI allI impI) simp_all
  qed
  have "\<exists>n ps. all_tilings input opts n ps \<and> parse_input input opts = Some (limited input n ps)"
  proof (cases "0 < length input \<and> input ! 0 = APOSTROPHE \<and> (?c = length input \<or> \<not> is_ascii_lowercase (input ! ?c))")
    case True
    then have "all_tilings input opts 0 [[]]"
      using stage_stops [OF st] no_tiling [of input ?c opts] c(3) by (auto simp: boundary_def)
    then show ?thesis
      using True by (intro exI [of _ 0] exI [of _ "[[]]"]) (auto simp: parse_input_def limited_def MAX_PARSE_RESULTS_def)
  next
    case False
    let ?pending = "if 0 < length input \<and> input ! 0 = APOSTROPHE then Some 0 else None"
    have "0 = (case ?pending of Some s \<Rightarrow> s | None \<Rightarrow> ?c)" by simp
    from parse_groups_tilings [OF free st this] obtain n ps
      where "all_tilings input opts n ps" "parse_groups input opts [[]] ?c ?pending = Some (limited input n ps)"
      by (auto simp: MAX_PARSE_RESULTS_def simp del: length_greater_0_conv)
    moreover have "parse_input input opts = parse_groups input opts [[]] ?c ?pending"
      using False by (auto simp: parse_input_def Let_def)
    ultimately show ?thesis by auto
  qed
  then obtain n ps where ps: "all_tilings input opts n ps" "parse_input input opts = Some (limited input n ps)" by blast
  then have "distinct ps" by (auto simp: all_tilings_def intro: longer_first_distinct)
  with ps show ?thesis
    by (intro exI [of _ n] exI [of _ ps]) (simp add: limited_def finish_paths_def too_many_alternatives_def)
qed

text \<open>The default option word has none of those bits; the input is \<open>xian\<close>.\<close>

theorem parse_input_spec_witness:
  "\<not> prefix_aliases 0 \<and>
   (\<exists>n ps. all_tilings [0x78, 0x69, 0x61, 0x6e] 0 n ps \<and> distinct ps \<and> parse_input [0x78, 0x69, 0x61, 0x6e] 0 = Some
      (if MAX_PARSE_RESULTS < length ps then Inl (Rejected (TooManyAlternatives MAX_PARSE_RESULTS))
       else Inr (map (\<lambda>p. \<lparr>pr_syllables = p, pr_remainder = drop n [0x78, 0x69, 0x61, 0x6e]\<rparr>) ps)))"
proof -
  have "\<not> prefix_aliases 0" by (simp add: prefix_aliases_def contains_def option_consts)
  then show ?thesis using parse_input_spec [of 0 "[0x78, 0x69, 0x61, 0x6e]"] by blast
qed

text \<open>What is a complete spelling: a syllable of the inventory, or an alias of one.\<close>

lemma full_key_iff: "(\<exists>k. from_text t = Some k \<and> key_completeness k = Complete \<and> syllable_text k = s) \<longleftrightarrow>
    t \<in> set FULL_PINYIN_SYLLABLES \<and> s = t"
proof
  assume "\<exists>k. from_text t = Some k \<and> key_completeness k = Complete \<and> syllable_text k = s"
  then obtain k where k: "key_index k < FULL_PINYIN_SYLLABLE_COUNT" "syllable_text k = t" "s = t"
    by (auto simp: from_text_iff key_completeness_def split: if_splits)
  then have "t = FULL_PINYIN_SYLLABLES ! key_index k"
    by (auto simp: syllable_text_def full_pinyin_syllable_def get_at_def inventory_lengths)
  then show "t \<in> set FULL_PINYIN_SYLLABLES \<and> s = t"
    using k nth_mem [of "key_index k" FULL_PINYIN_SYLLABLES] by (simp add: inventory_lengths)
next
  assume t: "t \<in> set FULL_PINYIN_SYLLABLES \<and> s = t"
  then obtain i where "i < length FULL_PINYIN_SYLLABLES" "FULL_PINYIN_SYLLABLES ! i = t" by (auto simp: in_set_conv_nth)
  moreover from this have "key_index (SyllableKey (of_nat i)) = i"
    by (simp add: key_index_def inventory_lengths inventory_counts unat_of_nat take_bit_nat_eq_self)
  ultimately show "\<exists>k. from_text t = Some k \<and> key_completeness k = Complete \<and> syllable_text k = s"
    using t by (intro exI [of _ "SyllableKey (of_nat i)"])
      (simp add: from_text_iff key_completeness_def syllable_text_def full_pinyin_syllable_def get_at_def inventory_lengths)
qed

lemma complete_syllable_iff:
  "complete_syllable bs opts = Some s \<longleftrightarrow> valid_utf8 bs \<and>
     (map byte_char bs \<in> set FULL_PINYIN_SYLLABLES \<and> s = map byte_char bs \<or>
      from_text (map byte_char bs) = None \<and> option_alias_canonical (map byte_char bs) opts = Some s)"
proof (cases "from_text (map byte_char bs)")
  case (Some k)
  then show ?thesis
    using full_key_iff [of "map byte_char bs" s]
    by (auto simp: complete_syllable_def from_option_text_def from_option_text_with_distance_def)
next
  case None
  have fresh: "map byte_char bs \<notin> set FULL_PINYIN_SYLLABLES"
    using None full_key_iff [of "map byte_char bs" "map byte_char bs"] by auto
  have canon: "\<exists>k. from_canonical_text c = Some k \<and> key_completeness k = Complete \<and> syllable_text k = c"
    if "option_alias_canonical (map byte_char bs) opts = Some c" for c
  proof -
    have c: "c \<in> set FULL_PINYIN_SYLLABLES \<union> set OPTION_ONLY_COMPLETE_SYLLABLES"
      using option_alias_correctable [OF that] by (simp add: correctable_def)
    then obtain i where i: "i < SYLLABLE_KEY_COUNT" "all_spellings ! i = c"
      by (metis UnCI all_spellings_def in_set_conv_nth length_all_spellings set_append Un_iff)
    then have "from_canonical_text c = Some (SyllableKey (of_nat i))"
      by (simp add: from_canonical_text_iff syllable_text_nth key_index_def SYLLABLE_KEY_COUNT_def inventory_counts
          unat_of_nat take_bit_nat_eq_self)
    then show ?thesis using c complete_member_key by (auto simp: from_canonical_text_iff)
  qed
  show ?thesis
  proof (cases "option_alias_canonical (map byte_char bs) opts")
    case (Some c)
    then obtain k where "from_canonical_text c = Some k" "key_completeness k = Complete" "syllable_text k = c"
      using canon by blast
    then show ?thesis
      using None Some fresh by (auto simp: complete_syllable_def from_option_text_def from_option_text_with_distance_def)
  qed (use None fresh in \<open>simp add: complete_syllable_def from_option_text_def from_option_text_with_distance_def\<close>)
qed

text \<open>The spellings inside \<open>doni\<close>.\<close>

lemma doni_plain:
  "''d'' \<notin> set FULL_PINYIN_SYLLABLES" "''do'' \<notin> set FULL_PINYIN_SYLLABLES" "''don'' \<notin> set FULL_PINYIN_SYLLABLES"
  "''doni'' \<notin> set FULL_PINYIN_SYLLABLES" "''on'' \<notin> set FULL_PINYIN_SYLLABLES" "''oni'' \<notin> set FULL_PINYIN_SYLLABLES"
  "''n'' \<notin> set FULL_PINYIN_SYLLABLES" "''i'' \<notin> set FULL_PINYIN_SYLLABLES" "''dong'' \<in> set FULL_PINYIN_SYLLABLES"
  by (simp_all add: FULL_PINYIN_SYLLABLES_def)

lemma doni_alias:
  "option_alias_canonical t PINYIN_CORRECT_ON_ONG =
     (if ends_with t ''on'' \<and> 2 < length t then canonical_complete_syllable (t @ ''g'') else None)"
  by (simp add: option_alias_canonical_def correction_canonical_def ambiguity_canonical_def contains_def option_consts
      split: option.splits)

lemma byte_chars: "byte_char 0x64 = CHR ''d''" "byte_char 0x6f = CHR ''o''" "byte_char 0x6e = CHR ''n''" "byte_char 0x69 = CHR ''i''"
  by code_simp+

lemma not_complete:
  "map byte_char bs \<notin> set FULL_PINYIN_SYLLABLES \<Longrightarrow> option_alias_canonical (map byte_char bs) opts = None \<Longrightarrow>
   complete_syllable bs opts = None"
  by (cases "complete_syllable bs opts") (auto simp: complete_syllable_iff)

lemma doni_complete:
  "complete_syllable [0x64] PINYIN_CORRECT_ON_ONG = None" "complete_syllable [0x64, 0x6f] PINYIN_CORRECT_ON_ONG = None"
  "complete_syllable [0x64, 0x6f, 0x6e, 0x69] PINYIN_CORRECT_ON_ONG = None" "complete_syllable [0x6f, 0x6e] PINYIN_CORRECT_ON_ONG = None"
  "complete_syllable [0x6f, 0x6e, 0x69] PINYIN_CORRECT_ON_ONG = None" "complete_syllable [0x6e] PINYIN_CORRECT_ON_ONG = None"
  "complete_syllable [0x69] PINYIN_CORRECT_ON_ONG = None"
  "complete_syllable [0x64, 0x6f, 0x6e] PINYIN_CORRECT_ON_ONG = Some ''dong''"
proof -
  have "spelling_map FULL_PINYIN_SYLLABLES ''don'' = None" "spelling_map INCOMPLETE_PINYIN_KEYS ''don'' = None"
    using doni_plain(3) unfolding spelling_map_None by (simp_all add: inventory_defs)
  then have "from_text ''don'' = None" by (simp add: from_text_def)
  then show "complete_syllable [0x64, 0x6f, 0x6e] PINYIN_CORRECT_ON_ONG = Some ''dong''"
    using doni_plain(9) by (simp add: complete_syllable_iff byte_chars doni_alias ends_with_def canonical_complete_syllable_eq)
qed (rule not_complete; simp add: byte_chars doni_alias ends_with_def doni_plain)+

lemma doni_partial:
  "is_partial_only [0x64, 0x6f, 0x6e]" "\<not> is_partial_only [0x69]" "\<not> is_partial_only [0x64, 0x6f, 0x6e, 0x69]"
proof -
  have no: "list_all (\<lambda>u. take 1 u \<noteq> ''i'' \<and> take 4 u \<noteq> ''doni'') FULL_PINYIN_SYLLABLES" by code_simp
  show "\<not> is_partial_only [0x69]" "\<not> is_partial_only [0x64, 0x6f, 0x6e, 0x69]"
    using no by (auto simp: partial_only_iff byte_chars list_all_iff numeral_eq_Suc)
  have "complete_syllable [0x64, 0x6f, 0x6e] 0 = None"
    using doni_plain(3) by (intro not_complete) (simp_all add: byte_chars option_alias_canonical_def)
  then show "is_partial_only [0x64, 0x6f, 0x6e]"
    using doni_plain(9) by (auto simp: partial_only_iff byte_chars intro!: bexI [of _ "''dong''"])
qed

text \<open>C40: the assertion of the fallback enumeration can fail. Under \<open>PINYIN_CORRECT_ON_ONG\<close> the spelling
  \<open>don\<close> is an alias of \<open>dong\<close> and also a proper prefix of it; the count takes both readings of \<open>doni\<close> up to
  its third byte, the enumeration only the complete one, and \<open>parse_with_options\<close> panics.\<close>

theorem parse_alias_panics:
  "parse_input [0x64, 0x6f, 0x6e, 0x69] PINYIN_CORRECT_ON_ONG = Some (Inl AssertFailed)"
proof -
  let ?g = "[0x64, 0x6f, 0x6e, 0x69] :: bytes" and ?o = PINYIN_CORRECT_ON_ONG
  note run = slice_def doni_complete doni_partial upt_rec MAX_SYLLABLE_LEN_def bounded_add_def saturating_add_def
    usize_max_def OVER_LIMIT_def MAX_PARSE_RESULTS_def
  have "count_complete_paths ?g ?o = 0"
    by (simp add: count_complete_paths_def count_cursor_def count_length_def run)
  moreover have target: "maximal_fallback_end ?g ?o = 3"
    by (simp add: maximal_fallback_end_def reach_cursor_def reach_length_def longest_partial_prefix_def run)
  moreover have "replicate 4 (0::nat) = [0, 0, 0, 0]" by (simp add: numeral_eq_Suc)
  then have "count_fallback_paths ?g 3 ?o = 2"
    by (simp add: count_fallback_paths_def way_cursor_def way_length_def Let_def run)
  moreover have "fallback_search ?g 0 3 ?o [frame_new 0 3] [] [] = Some [[segment ''dong'' 0 3 Complete]]"
    by (simp add: fallback_search.simps frame_new_def numeral_eq_Suc run)
  ultimately have "parse_group ?g 0 ?o = Some (Inl AssertFailed)"
    by (simp add: parse_group_def enumerate_fallback_paths_def MAX_PARSE_RESULTS_def)
  moreover have "group_stop ?g 0 = 4" "slice ?g 0 4 = ?g"
    by (simp_all add: group_stop_def is_ascii_lowercase_def slice_def)
  ultimately show ?thesis
    by (simp add: parse_input_def APOSTROPHE_def parse_groups.simps)
qed

end
