(* ===== verification/Scoring.thy ===== *)
theory Scoring
  imports KBest
begin

text \<open>
  \<open>crates/oxpinyin-core/src/scoring.rs\<close>: the log-linear score. The configuration and its arithmetic on
  saturating \<open>i64\<close> costs, the expansion of incomplete keys, the per-key cost table, the ranking of the
  phrases that spell a key sequence, and the edge cost the k-best search is given. The dictionary and
  the language model are code behind traits: they are the arguments \<open>lookup\<close> and \<open>score\<close>, whose errors are
  already rendered as text.
\<close>

section \<open>Costs\<close>

definition COST_PER_BIT :: cost where "COST_PER_BIT = 1000"
definition UNKNOWN_COST :: cost where "UNKNOWN_COST = 40 * COST_PER_BIT"
definition WEIGHT_SCALE :: int where "WEIGHT_SCALE = 100"

definition clamp_cost :: "int \<Rightarrow> cost" where
  "clamp_cost x = max COST_MIN (min COST_MAX x)"

definition cost_saturating_sub :: "cost \<Rightarrow> cost \<Rightarrow> cost" where
  "cost_saturating_sub a b = clamp_cost (a - b)"

definition cost_saturating_mul :: "cost \<Rightarrow> int \<Rightarrow> cost" where
  "cost_saturating_mul a b = clamp_cost (a * b)"

text \<open>Integer division of the language rounds towards zero.\<close>

definition div_trunc :: "int \<Rightarrow> int \<Rightarrow> int" where
  "div_trunc a b = sgn a * sgn b * (\<bar>a\<bar> div \<bar>b\<bar>)"

section \<open>Configuration\<close>

record scoring_config =
  lm_weight :: int
  exact_penalty :: cost
  segmentation_penalty :: cost
  incomplete_penalty :: cost
  phrase_key_bonus :: cost
  expansion_limit :: nat

definition default_config :: scoring_config where
  "default_config = \<lparr>lm_weight = WEIGHT_SCALE, exact_penalty = 0, segmentation_penalty = 750,
     incomplete_penalty = 999, phrase_key_bonus = 1000, expansion_limit = 64\<rparr>"

fun edge_penalty :: "scoring_config \<Rightarrow> edge_kind \<Rightarrow> cost" where
  "edge_penalty config Exact = exact_penalty config"
| "edge_penalty config Segmentation = segmentation_penalty config"
| "edge_penalty config Incomplete = incomplete_penalty config"

text \<open>A \<open>usize\<close> read as an \<open>i64\<close>.\<close>

definition as_i64 :: "nat \<Rightarrow> int" where
  "as_i64 n = (if n < 2 ^ 63 then int n else int n - 2 ^ 64)"

definition coverage_bonus :: "scoring_config \<Rightarrow> nat \<Rightarrow> cost" where
  "coverage_bonus config keys =
     cost_saturating_mul (phrase_key_bonus config) (if keys = 0 then 0 else as_i64 keys - 1)"

definition weigh :: "scoring_config \<Rightarrow> cost \<Rightarrow> cost" where
  "weigh config model_cost = div_trunc (cost_saturating_mul model_cost (lm_weight config)) WEIGHT_SCALE"

section \<open>Expanding incomplete keys\<close>

definition starts_with :: "string \<Rightarrow> string \<Rightarrow> bool" where
  "starts_with t s \<longleftrightarrow> take (length s) t = s"

definition completions :: "syllable_key \<Rightarrow> syllable_key list" where
  "completions key =
     (if key_completeness key = Complete then [key]
      else let initial = syllable_text key in
        List.map_filter from_text
          (filter (\<lambda>s. phonetic_initial s = Some initial) (filter (\<lambda>s. starts_with s initial) FULL_PINYIN_SYLLABLES)))"

fun alternatives :: "nat \<Rightarrow> nat \<Rightarrow> syllable_key list \<Rightarrow> syllable_key list list option" where
  "alternatives limit size_product [] = Some []"
| "alternatives limit size_product (key # keys) =
     (let choices = completions key in
      if choices = [] then None
      else case checked_mul size_product (length choices) of
        None \<Rightarrow> None
      | Some size_product \<Rightarrow> if size_product \<le> limit then map_option ((#) choices) (alternatives limit size_product keys) else None)"

definition extend_sequences :: "syllable_key list \<Rightarrow> syllable_key list list \<Rightarrow> syllable_key list list" where
  "extend_sequences choices sequences = concat (map (\<lambda>prefix. map (\<lambda>choice. prefix @ [choice]) choices) sequences)"

definition expand_keys :: "syllable_key list \<Rightarrow> nat \<Rightarrow> syllable_key list list" where
  "expand_keys keys limit =
     (if limit < 1 then []
      else case alternatives limit 1 keys of
        None \<Rightarrow> []
      | Some alts \<Rightarrow> fold extend_sequences alts [[]])"

section \<open>Scoring\<close>

record phrase_entry =
  pe_token :: u32
  pe_text :: phrase_text
  pe_pronunciation :: "(u64 \<times> u64) option"
  pe_live_unigram :: "u32 option"

datatype scoring_error = Dictionary string | LanguageModel string

fun cheapest_entry :: "(u32 list \<Rightarrow> u32 \<Rightarrow> cost \<Rightarrow> string + cost) \<Rightarrow> phrase_entry list \<Rightarrow> cost \<Rightarrow> scoring_error + cost" where
  "cheapest_entry score [] best = Inr best"
| "cheapest_entry score (e # es) best = (case score [] (pe_token e) 0 of
     Inl err \<Rightarrow> Inl (LanguageModel err)
   | Inr cost \<Rightarrow> cheapest_entry score es (min best cost))"

definition key_cost_step :: "(syllable_key list \<Rightarrow> string + phrase_entry list) \<Rightarrow> (u32 list \<Rightarrow> u32 \<Rightarrow> cost \<Rightarrow> string + cost) \<Rightarrow>
    nat \<Rightarrow> cost list \<Rightarrow> scoring_error + cost list" where
  "key_cost_step lookup score index key_costs =
     (case key_from_index index of
        None \<Rightarrow> Inr (key_costs @ [UNKNOWN_COST])
      | Some key \<Rightarrow>
          (case lookup [key] of
             Inl err \<Rightarrow> Inl (Dictionary err)
           | Inr entries \<Rightarrow>
               (case cheapest_entry score entries UNKNOWN_COST of
                  Inl err \<Rightarrow> Inl err
                | Inr best \<Rightarrow> Inr (key_costs @ [best]))))"

definition key_cost_table :: "(syllable_key list \<Rightarrow> string + phrase_entry list) \<Rightarrow> (u32 list \<Rightarrow> u32 \<Rightarrow> cost \<Rightarrow> string + cost) \<Rightarrow>
    scoring_error + cost list" where
  "key_cost_table lookup score = fold_result (key_cost_step lookup score) [0..<SYLLABLE_KEY_COUNT] []"

definition key_cost :: "cost list \<Rightarrow> syllable_key \<Rightarrow> cost" where
  "key_cost key_costs key = (case get_at key_costs (key_index key) of Some c \<Rightarrow> c | None \<Rightarrow> UNKNOWN_COST)"

definition scorer_edge_cost :: "scoring_config \<Rightarrow> cost list \<Rightarrow> edge option \<Rightarrow> edge \<Rightarrow> cost" where
  "scorer_edge_cost config key_costs previous e =
     cost_saturating_add (case get_at key_costs (key_index (edge_key e)) of Some c \<Rightarrow> c | None \<Rightarrow> UNKNOWN_COST)
       (edge_penalty config (edge_kind e))"

definition phrase_cost :: "scoring_config \<Rightarrow> (u32 list \<Rightarrow> u32 \<Rightarrow> cost \<Rightarrow> string + cost) \<Rightarrow> u32 list \<Rightarrow> phrase_entry \<Rightarrow>
    nat \<Rightarrow> edge_kind list \<Rightarrow> scoring_error + cost" where
  "phrase_cost config score history entry keys kinds =
     (let structural = fold (\<lambda>kind total. cost_saturating_add total (edge_penalty config kind)) kinds 0 in
      case score history (pe_token entry) structural of
        Inl err \<Rightarrow> Inl (LanguageModel err)
      | Inr combined \<Rightarrow> Inr (cost_saturating_sub (weigh config combined) (coverage_bonus config keys)))"

definition rank_entry :: "scoring_config \<Rightarrow> (u32 list \<Rightarrow> u32 \<Rightarrow> cost \<Rightarrow> string + cost) \<Rightarrow> u32 list \<Rightarrow> syllable_key list \<Rightarrow>
    edge_kind list \<Rightarrow> phrase_entry \<Rightarrow> (phrase_entry \<times> cost) list \<Rightarrow> scoring_error + (phrase_entry \<times> cost) list" where
  "rank_entry config score history keys kinds entry ranked =
     (case phrase_cost config score history entry (length keys) kinds of
        Inl err \<Rightarrow> Inl err
      | Inr cost \<Rightarrow>
          if list_ex (\<lambda>(seen, _). text_eq (pe_text seen) (pe_text entry)) ranked then Inr ranked
          else Inr (ranked @ [(entry, cost)]))"

definition rank_sequence :: "scoring_config \<Rightarrow> (syllable_key list \<Rightarrow> string + phrase_entry list) \<Rightarrow>
    (u32 list \<Rightarrow> u32 \<Rightarrow> cost \<Rightarrow> string + cost) \<Rightarrow> u32 list \<Rightarrow> syllable_key list \<Rightarrow> edge_kind list \<Rightarrow>
    syllable_key list \<Rightarrow> (phrase_entry \<times> cost) list \<Rightarrow> scoring_error + (phrase_entry \<times> cost) list" where
  "rank_sequence config lookup score history keys kinds sequence ranked =
     (case lookup sequence of
        Inl err \<Rightarrow> Inl (Dictionary err)
      | Inr entries \<Rightarrow> fold_result (rank_entry config score history keys kinds) entries ranked)"

definition rank_phrases :: "scoring_config \<Rightarrow> (syllable_key list \<Rightarrow> string + phrase_entry list) \<Rightarrow>
    (u32 list \<Rightarrow> u32 \<Rightarrow> cost \<Rightarrow> string + cost) \<Rightarrow> u32 list \<Rightarrow> syllable_key list \<Rightarrow> edge_kind list \<Rightarrow>
    scoring_error + (phrase_entry \<times> cost) list" where
  "rank_phrases config lookup score history keys kinds =
     (case fold_result (rank_sequence config lookup score history keys kinds)
             (expand_keys keys (expansion_limit config)) [] of
        Inl err \<Rightarrow> Inl err
      | Inr ranked \<Rightarrow> Inr (sort_key snd ranked))"

section \<open>Expansion\<close>

lemma alternatives_eq:
  "limit \<le> usize_max \<Longrightarrow> 0 < size_product \<Longrightarrow> size_product \<le> limit \<Longrightarrow>
   alternatives limit size_product keys =
     (if (\<exists>k \<in> set keys. completions k = []) \<or> limit < size_product * prod_list (map (\<lambda>k. length (completions k)) keys) then None
      else Some (map completions keys))"
proof (induction keys arbitrary: size_product)
  case (Cons key keys)
  let ?n = "length (completions key)" and ?rest = "prod_list (map (\<lambda>k. length (completions k)) keys)"
  show ?case
  proof (cases "completions key = [] \<or> (\<exists>k \<in> set keys. completions k = [])")
    case True
    then show ?thesis using Cons by (auto simp: checked_mul_def Let_def)
  next
    case False
    then have rest: "0 < ?n" "0 < ?rest" by (auto simp: prod_list_zero_iff intro!: Nat.gr0I)
    show ?thesis
    proof (cases "size_product * ?n \<le> limit")
      case True
      then show ?thesis
        using Cons False rest by (auto simp: checked_mul_def Let_def mult.assoc)
    next
      case big: False
      have "size_product * ?n * 1 \<le> size_product * ?n * ?rest"
        using rest(2) by (intro mult_le_mono2) simp
      with big have "limit < size_product * (?n * ?rest)"
        unfolding mult.assoc [symmetric] mult_1_right by linarith
      then show ?thesis using big False rest by (auto simp: checked_mul_def Let_def)
    qed
  qed
qed auto

lemma extend_product_lists:
  "fold extend_sequences alts seqs = concat (map (\<lambda>prefix. map (\<lambda>rest. prefix @ rest) (product_lists alts)) seqs)"
proof (induction alts arbitrary: seqs)
  case (Cons choices alts)
  have "concat (map (\<lambda>prefix. map (\<lambda>rest. prefix @ rest) (product_lists alts)) (extend_sequences choices seqs)) =
      concat (map (\<lambda>prefix. map (\<lambda>rest. prefix @ rest) (product_lists (choices # alts))) seqs)"
  proof (induction seqs)
    case (Cons p seqs)
    have "(@) (p @ [x]) = (\<lambda>rest. p @ x # rest)" for x by auto
    with Cons show ?case by (simp add: extend_sequences_def map_concat comp_def)
  qed (simp add: extend_sequences_def)
  then show ?case using Cons by simp
qed simp

lemma expand_keys_eq:
  assumes "limit \<le> usize_max"
  shows "expand_keys keys limit =
    (if prod_list (map (\<lambda>k. length (completions k)) keys) \<le> limit then product_lists (map completions keys) else [])"
proof -
  have empty: "product_lists (map completions keys) = []" if "\<exists>k \<in> set keys. completions k = []"
    using that by (induction keys) auto
  have zero: "prod_list (map (\<lambda>k. length (completions k)) keys) = 0 \<longleftrightarrow> (\<exists>k \<in> set keys. completions k = [])"
    by (auto simp: prod_list_zero_iff)
  show ?thesis
  proof (cases "limit < 1")
    case True
    then show ?thesis using empty zero by (auto simp: expand_keys_def)
  next
    case False
    then show ?thesis
      using alternatives_eq [OF assms, of 1 keys] empty
      by (auto simp: expand_keys_def extend_product_lists map_idI simp del: One_nat_def)
  qed
qed

text \<open>The completions of an incomplete key, counted over the frozen inventory. The longest initial of a
  spelling is read off its first two letters.\<close>

definition completion_spellings :: "string \<Rightarrow> string list" where
  "completion_spellings initial =
     filter (\<lambda>s. phonetic_initial s = Some initial) (filter (\<lambda>s. starts_with s initial) FULL_PINYIN_SYLLABLES)"

definition head_initial :: "string \<Rightarrow> string" where
  "head_initial s = (case s of
     [] \<Rightarrow> []
   | [a] \<Rightarrow> [a]
   | a # b # r \<Rightarrow> if b = CHR ''h'' \<and> (a = CHR ''c'' \<or> a = CHR ''s'' \<or> a = CHR ''z'') then [a, b] else [a])"

lemma initial_key_shapes:
  "list_all (\<lambda>k. length k = 1 \<or> k \<in> set [''ch'', ''sh'', ''zh'']) INCOMPLETE_PINYIN_KEYS"
  "list_all (\<lambda>k. k \<in> set INCOMPLETE_PINYIN_KEYS) [''ch'', ''sh'', ''zh'']"
  by code_simp+

lemma longest_fold:
  fixes xs :: "string list"
  defines "pick \<equiv> fold (\<lambda>k best. case best of None \<Rightarrow> Some k | Some b \<Rightarrow> if length b \<le> length k then Some k else Some b)"
  shows "case pick xs None of
     None \<Rightarrow> xs = []
   | Some k \<Rightarrow> k \<in> set xs \<and> (\<forall>k' \<in> set xs. length k' \<le> length k)"
proof (induction xs rule: rev_induct)
  case (snoc x xs)
  then show ?case by (fastforce simp: pick_def split: option.splits if_splits)
qed (simp add: pick_def)

lemma syllable_initial_longest:
  "case syllable_initial t of
     None \<Rightarrow> \<forall>k \<in> set INCOMPLETE_PINYIN_KEYS. take (length k) t \<noteq> k
   | Some k \<Rightarrow> k \<in> set INCOMPLETE_PINYIN_KEYS \<and> take (length k) t = k \<and>
       (\<forall>k' \<in> set INCOMPLETE_PINYIN_KEYS. take (length k') t = k' \<longrightarrow> length k' \<le> length k)"
  using longest_fold [of "filter (\<lambda>k. take (length k) t = k) INCOMPLETE_PINYIN_KEYS"]
  by (auto simp: syllable_initial_def filter_empty_conv split: option.splits)

lemma syllable_initial_head:
  assumes "k \<in> set INCOMPLETE_PINYIN_KEYS"
  shows "syllable_initial t = Some k \<longleftrightarrow> head_initial t = k"
proof -
  have shape: "length k' = 1 \<or> k' \<in> {''ch'', ''sh'', ''zh''}" if "k' \<in> set INCOMPLETE_PINYIN_KEYS" for k'
    using initial_key_shapes(1) that by (auto simp: list_all_iff)
  have two: "''ch'' \<in> set INCOMPLETE_PINYIN_KEYS" "''sh'' \<in> set INCOMPLETE_PINYIN_KEYS" "''zh'' \<in> set INCOMPLETE_PINYIN_KEYS"
    using initial_key_shapes(2) by simp_all
  have head: "take (length k) t = k \<and> (\<forall>k' \<in> {''ch'', ''sh'', ''zh''}. take 2 t = k' \<longrightarrow> length k = 2) \<longleftrightarrow> head_initial t = k"
    if "length k = 1 \<or> k \<in> {''ch'', ''sh'', ''zh''}" for k
    using that by (cases t; cases "tl t") (auto simp: head_initial_def length_Suc_conv split: if_splits)
  have long: "(\<forall>k' \<in> set INCOMPLETE_PINYIN_KEYS. take (length k') t = k' \<longrightarrow> length k' \<le> length k) \<longleftrightarrow>
      (\<forall>k' \<in> {''ch'', ''sh'', ''zh''}. take 2 t = k' \<longrightarrow> length k = 2)" (is "?l \<longleftrightarrow> ?r")
  proof
    assume l: ?l
    show ?r
    proof (intro ballI impI)
      fix j assume j: "j \<in> {''ch'', ''sh'', ''zh''}" "take 2 t = j"
      then have len: "length j = 2" "j \<in> set INCOMPLETE_PINYIN_KEYS" using two by auto
      then have "2 \<le> length k" using l [rule_format, OF len(2)] j(2) by simp
      then show "length k = 2" using shape [OF assms] by auto
    qed
  next
    assume ?r
    then show ?l using shape shape [OF assms] by (fastforce simp: numeral_2_eq_2)
  qed
  show ?thesis
  proof (cases "syllable_initial t")
    case None
    then show ?thesis
      using syllable_initial_longest [of t] head [OF shape [OF assms]] assms by auto
  next
    case (Some k')
    then have k': "k' \<in> set INCOMPLETE_PINYIN_KEYS" "take (length k') t = k'"
        "\<forall>j \<in> set INCOMPLETE_PINYIN_KEYS. take (length j) t = j \<longrightarrow> length j \<le> length k'"
      using syllable_initial_longest [of t] by auto
    show ?thesis
    proof
      assume "syllable_initial t = Some k"
      then show "head_initial t = k" using Some k' long head [OF shape [OF assms]] by simp
    next
      assume "head_initial t = k"
      then have "take (length k) t = k" "\<forall>j \<in> set INCOMPLETE_PINYIN_KEYS. take (length j) t = j \<longrightarrow> length j \<le> length k"
        using long head [OF shape [OF assms]] by auto
      then have "k' = k" using k' assms by (metis le_antisym)
      then show "syllable_initial t = Some k" using Some by simp
    qed
  qed
qed

definition initial_runs :: "(nat \<times> string) list" where
  "initial_runs = [(5, ''a''), (16, ''b''), (16, ''c''), (18, ''ch''), (22, ''d''), (4, ''e''), (9, ''f''), (19, ''g''), (19, ''h''), (14, ''j''), (18, ''k''), (26, ''l''), (19, ''m''), (24, ''n''), (2, ''o''), (17, ''p''), (14, ''q''), (14, ''r''), (16, ''s''), (19, ''sh''), (19, ''t''), (9, ''w''), (14, ''x''), (15, ''y''), (17, ''z''), (19, ''zh'')]"

lemma full_heads:
  "map head_initial (filter (\<lambda>s. s \<noteq> ''ng'') FULL_PINYIN_SYLLABLES) = concat (map (\<lambda>(n, k). replicate n k) initial_runs)"
  by code_simp

lemma run_counts:
  "list_all (\<lambda>k. let n = sum_list (map fst (filter (\<lambda>(n, c). c = k) initial_runs)) in 9 \<le> n \<and> n \<le> 26) INCOMPLETE_PINYIN_KEYS"
  by code_simp

lemma length_filter_runs:
  "length (filter (\<lambda>x. x = k) (concat (map (\<lambda>(n, c). replicate n c) runs))) = sum_list (map fst (filter (\<lambda>(n, c). c = k) runs))"
  by (induction runs) auto

lemma head_initial_prefix: "head_initial s = k \<Longrightarrow> starts_with s k"
  by (cases s; cases "tl s") (auto simp: head_initial_def starts_with_def split: if_splits)

lemma completion_spellings_head:
  assumes "k \<in> set INCOMPLETE_PINYIN_KEYS"
  shows "completion_spellings k = filter (\<lambda>s. head_initial s = k) (filter (\<lambda>s. s \<noteq> ''ng'') FULL_PINYIN_SYLLABLES)"
  using syllable_initial_head [OF assms] head_initial_prefix
  by (auto simp: completion_spellings_def phonetic_initial_def intro!: filter_cong)

lemma completion_counts:
  assumes "k \<in> set INCOMPLETE_PINYIN_KEYS"
  shows "9 \<le> length (completion_spellings k) \<and> length (completion_spellings k) \<le> 26"
proof -
  have "length (completion_spellings k) =
      length (filter (\<lambda>x. x = k) (map head_initial (filter (\<lambda>s. s \<noteq> ''ng'') FULL_PINYIN_SYLLABLES)))"
    unfolding completion_spellings_head [OF assms] by (simp add: filter_map comp_def)
  also have "\<dots> = sum_list (map fst (filter (\<lambda>(n, c). c = k) initial_runs))"
    unfolding full_heads length_filter_runs ..
  finally show ?thesis using run_counts assms by (auto simp: list_all_iff Let_def)
qed

lemma partial_key_text: "key_completeness k = Partial \<Longrightarrow> syllable_text k \<in> set INCOMPLETE_PINYIN_KEYS"
proof -
  assume "key_completeness k = Partial"
  then have "FULL_PINYIN_SYLLABLE_COUNT \<le> key_index k" "key_index k < FULL_PINYIN_SYLLABLE_COUNT + INCOMPLETE_PINYIN_KEY_COUNT"
    by (auto simp: key_completeness_def split: if_splits)
  then show ?thesis
    by (auto simp: syllable_text_def full_pinyin_syllable_def get_at_def inventory_lengths Let_def)
qed

lemma full_text_key:
  assumes "s \<in> set FULL_PINYIN_SYLLABLES"
  shows "\<exists>c. from_text s = Some c \<and> key_index c < FULL_PINYIN_SYLLABLE_COUNT \<and> syllable_text c = s"
proof -
  obtain i where i: "spelling_map FULL_PINYIN_SYLLABLES s = Some i" "i < FULL_PINYIN_SYLLABLE_COUNT"
    using assms spelling_map_None [of FULL_PINYIN_SYLLABLES s] spelling_map_Some [of FULL_PINYIN_SYLLABLES s]
    by (cases "spelling_map FULL_PINYIN_SYLLABLES s") (auto simp: inventory_lengths)
  then have "key_from_index i = Some (SyllableKey (of_nat i))"
    by (simp add: key_from_index_def SYLLABLE_KEY_COUNT_def inventory_counts)
  then have "from_text s = Some (SyllableKey (of_nat i))" using i by (simp add: from_text_def)
  moreover from this have "syllable_text (SyllableKey (of_nat i)) = s" by (simp add: from_text_iff)
  moreover have "key_index (SyllableKey (of_nat i)) = i"
    using i(2) by (simp add: key_index_def inventory_counts unat_of_nat take_bit_nat_eq_self)
  ultimately show ?thesis using i(2) by auto
qed

lemma completions_partial:
  assumes "key_completeness k = Partial"
  shows "map syllable_text (completions k) = completion_spellings (syllable_text k)"
    "c \<in> set (completions k) \<longleftrightarrow> key_index c < FULL_PINYIN_SYLLABLE_COUNT \<and> phonetic_initial (syllable_text c) = Some (syllable_text k)"
proof -
  let ?ss = "completion_spellings (syllable_text k)"
  have eq: "completions k = List.map_filter from_text ?ss"
    using assms by (simp add: completions_def completion_spellings_def Let_def)
  have sub: "set ?ss \<subseteq> set FULL_PINYIN_SYLLABLES" by (auto simp: completion_spellings_def)
  have mf: "set ss \<subseteq> set FULL_PINYIN_SYLLABLES \<Longrightarrow> map syllable_text (List.map_filter from_text ss) = ss" for ss
  proof (induction ss)
    case (Cons s ss)
    then obtain c where "from_text s = Some c" "syllable_text c = s" using full_text_key [of s] by auto
    then show ?case using Cons by (simp add: map_filter_simps)
  qed (simp add: map_filter_simps)
  then show "map syllable_text (completions k) = ?ss" using eq sub by simp
  have member: "c \<in> set (completions k) \<longleftrightarrow> (\<exists>s \<in> set ?ss. from_text s = Some c)"
    unfolding eq by (force simp: map_filter_def)
  have head: "phonetic_initial s = Some (syllable_text k) \<Longrightarrow> starts_with s (syllable_text k)" for s
    using syllable_initial_head [OF partial_key_text [OF assms], of s] head_initial_prefix [of s]
    by (auto simp: phonetic_initial_def split: if_splits)
  show "c \<in> set (completions k) \<longleftrightarrow> key_index c < FULL_PINYIN_SYLLABLE_COUNT \<and> phonetic_initial (syllable_text c) = Some (syllable_text k)"
  proof
    assume "c \<in> set (completions k)"
    then obtain s where s: "s \<in> set ?ss" "from_text s = Some c" using member by blast
    then obtain c' where "from_text s = Some c'" "key_index c' < FULL_PINYIN_SYLLABLE_COUNT" "syllable_text c' = s"
      using sub full_text_key [of s] by blast
    then show "key_index c < FULL_PINYIN_SYLLABLE_COUNT \<and> phonetic_initial (syllable_text c) = Some (syllable_text k)"
      using s by (auto simp: completion_spellings_def)
  next
    assume c: "key_index c < FULL_PINYIN_SYLLABLE_COUNT \<and> phonetic_initial (syllable_text c) = Some (syllable_text k)"
    then have "syllable_text c \<in> set FULL_PINYIN_SYLLABLES"
      by (simp add: syllable_text_def full_pinyin_syllable_def get_at_def inventory_lengths Let_def)
    moreover have "from_text (syllable_text c) = Some c" using c by (simp add: from_text_iff inventory_counts)
    ultimately show "c \<in> set (completions k)"
      using c head member by (auto simp: completion_spellings_def intro!: bexI [of _ "syllable_text c"])
  qed
qed

section \<open>Ranking\<close>

lemma text_eq_sym: "text_eq a b = text_eq b a"
  by (cases a; cases b) (auto simp: text_eq_def split: option.splits)

lemma fold_result_invariant:
  assumes "P (Inr s) []"
    "\<And>s xs x. P (Inr s) xs \<Longrightarrow> P (f x s) (xs @ [x])"
    "\<And>err xs x. P (Inl err) xs \<Longrightarrow> P (Inl err) (xs @ [x])"
  shows "P (fold_result f xs s) xs"
proof -
  have "P (Inr s) ys \<Longrightarrow> P (fold_result f xs s) (ys @ xs)" for ys
  proof (induction xs arbitrary: s ys)
    case (Cons x xs)
    have next': "P (f x s) (ys @ [x])" using assms(2) Cons.prems .
    show ?case
    proof (cases "f x s")
      case (Inl err)
      have "P (Inl err) (ys @ x # zs)" for zs
      proof (induction zs rule: rev_induct)
        case (snoc z zs)
        then show ?case using assms(3) [of err "ys @ x # zs" z] by simp
      qed (use next' Inl in simp)
      then show ?thesis using Inl by simp
    next
      case (Inr s')
      then show ?thesis using Cons.IH [of s' "ys @ [x]"] next' by simp
    qed
  qed simp
  from this [of "[]"] show ?thesis using assms(1) by simp
qed

text \<open>What the ranking holds after some entries: each is an offered entry with its cost, each offered entry is
  there or has the text of one that is, and no two have the same text.\<close>

definition ranked_inv :: "(phrase_entry \<Rightarrow> 'err + cost) \<Rightarrow> phrase_entry list \<Rightarrow> (phrase_entry \<times> cost) list \<Rightarrow> bool" where
  "ranked_inv price es ranked \<longleftrightarrow>
     (\<forall>(e, c) \<in> set ranked. e \<in> set es \<and> price e = Inr c) \<and>
     (\<forall>e \<in> set es. (\<exists>c. price e = Inr c) \<and> (\<exists>(seen, c) \<in> set ranked. seen = e \<or> text_eq (pe_text seen) (pe_text e))) \<and>
     sorted_wrt (\<lambda>a b. \<not> text_eq (pe_text (fst a)) (pe_text (fst b))) ranked"

lemma rank_entries:
  fixes config score history keys kinds
  defines "price \<equiv> \<lambda>e. phrase_cost config score history e (length keys) kinds"
  assumes "ranked_inv price base ranked"
  shows "case fold_result (rank_entry config score history keys kinds) es ranked of
     Inr r \<Rightarrow> ranked_inv price (base @ es) r
   | Inl err \<Rightarrow> \<exists>e \<in> set es. price e = Inl err"
proof (rule fold_result_invariant [where P = "\<lambda>r es. case r of
     Inr r \<Rightarrow> ranked_inv price (base @ es) r | Inl err \<Rightarrow> \<exists>e \<in> set es. price e = Inl err"], goal_cases)
  case (2 r xs e)
  then have r: "ranked_inv price (base @ xs) r" by simp
  show ?case
  proof (cases "price e")
    case (Inl err)
    then show ?thesis by (auto simp: rank_entry_def price_def)
  next
    case (Inr c)
    show ?thesis
    proof (cases "list_ex (\<lambda>(seen, _). text_eq (pe_text seen) (pe_text e)) r")
      case True
      then have "rank_entry config score history keys kinds e r = Inr r"
        using Inr by (simp add: rank_entry_def price_def)
      moreover have "ranked_inv price (base @ xs @ [e]) r"
        using r Inr True by (fastforce simp: ranked_inv_def list_ex_iff)
      ultimately show ?thesis by simp
    next
      case False
      then have "rank_entry config score history keys kinds e r = Inr (r @ [(e, c)])"
        using Inr by (simp add: rank_entry_def price_def)
      moreover have "ranked_inv price (base @ xs @ [e]) (r @ [(e, c)])"
        using r Inr False unfolding ranked_inv_def
        by (intro conjI) (fastforce simp: list_ex_iff sorted_wrt_append)+
      ultimately show ?thesis by simp
    qed
  qed
qed (use assms in auto)

definition offered :: "(syllable_key list \<Rightarrow> string + phrase_entry list) \<Rightarrow> syllable_key list list \<Rightarrow> phrase_entry list" where
  "offered lookup seqs = concat (map (\<lambda>s. case lookup s of Inr es \<Rightarrow> es | Inl _ \<Rightarrow> []) seqs)"

lemma rank_sequences:
  fixes config lookup score history keys kinds
  defines "price \<equiv> \<lambda>e. phrase_cost config score history e (length keys) kinds"
  shows "case fold_result (rank_sequence config lookup score history keys kinds) seqs [] of
     Inr r \<Rightarrow> (\<forall>s \<in> set seqs. \<exists>es. lookup s = Inr es) \<and> ranked_inv price (offered lookup seqs) r
   | Inl err \<Rightarrow> \<exists>s \<in> set seqs. (\<exists>m. lookup s = Inl m \<and> err = Dictionary m) \<or>
       (\<exists>es. lookup s = Inr es \<and> (\<exists>e \<in> set es. price e = Inl err))"
proof (rule fold_result_invariant [where P = "\<lambda>r seqs. case r of
     Inr r \<Rightarrow> (\<forall>s \<in> set seqs. \<exists>es. lookup s = Inr es) \<and> ranked_inv price (offered lookup seqs) r
   | Inl err \<Rightarrow> \<exists>s \<in> set seqs. (\<exists>m. lookup s = Inl m \<and> err = Dictionary m) \<or>
       (\<exists>es. lookup s = Inr es \<and> (\<exists>e \<in> set es. price e = Inl err))"], goal_cases)
  case 1
  then show ?case by (simp add: ranked_inv_def offered_def)
next
  case (2 r seqs s)
  show ?case
  proof (cases "lookup s")
    case (Inr es)
    then show ?thesis
      using 2 rank_entries [of config score history keys kinds "offered lookup seqs" r es]
      by (auto simp: rank_sequence_def offered_def price_def split: sum.splits)
  qed (simp add: rank_sequence_def)
qed auto

text \<open>The table a scorer is built with has one cost per key, at most \<open>UNKNOWN_COST\<close> and no more than the
  model charges for any phrase the key spells alone.\<close>

lemma cheapest_entry_le:
  "cheapest_entry score es best = Inr c \<Longrightarrow> c \<le> best \<and> (\<forall>e \<in> set es. \<exists>d. score [] (pe_token e) 0 = Inr d \<and> c \<le> d)"
  by (induction es arbitrary: best) (fastforce split: sum.splits)+

lemma key_cost_table_entries:
  assumes "key_cost_table lookup score = Inr costs"
  shows "length costs = SYLLABLE_KEY_COUNT \<and> (\<forall>i < SYLLABLE_KEY_COUNT. costs ! i \<le> UNKNOWN_COST \<and>
    (\<forall>es e. lookup [SyllableKey (of_nat i)] = Inr es \<and> e \<in> set es \<longrightarrow> (\<exists>d. score [] (pe_token e) 0 = Inr d \<and> costs ! i \<le> d)))"
proof -
  define ok where "ok i c \<longleftrightarrow> c \<le> UNKNOWN_COST \<and> (\<forall>es e. lookup [SyllableKey (of_nat i)] = Inr es \<and> e \<in> set es \<longrightarrow>
      (\<exists>d. score [] (pe_token e) 0 = Inr d \<and> c \<le> d))" for i c
  have step: "\<exists>c. r = costs @ [c] \<and> ok i c" if "key_cost_step lookup score i costs = Inr r" "i < SYLLABLE_KEY_COUNT" for i costs r
  proof -
    have "i < 2 ^ 16" using that(2) by (simp add: SYLLABLE_KEY_COUNT_def inventory_counts)
    then show ?thesis
      using that cheapest_entry_le [of score _ UNKNOWN_COST]
      by (fastforce simp: key_cost_step_def key_from_index_def ok_def split: sum.splits if_splits)
  qed
  have "case fold_result (key_cost_step lookup score) [0..<n] [] of
      Inl _ \<Rightarrow> True | Inr costs \<Rightarrow> length costs = n \<and> (\<forall>i < n. ok i (costs ! i))" if "n \<le> SYLLABLE_KEY_COUNT" for n
    using that
  proof (induction n)
    case (Suc n)
    have snoc: "fold_result f (xs @ [x]) s = (case fold_result f xs s of Inl err \<Rightarrow> Inl err | Inr s \<Rightarrow> f x s)"
      for f :: "nat \<Rightarrow> cost list \<Rightarrow> scoring_error + cost list" and xs x s
      by (induction xs arbitrary: s) (auto split: sum.splits)
    show ?case
    proof (cases "fold_result (key_cost_step lookup score) [0..<n] []")
      case (Inr costs)
      then have IH: "length costs = n" "\<forall>i < n. ok i (costs ! i)" using Suc by auto
      show ?thesis
      proof (cases "key_cost_step lookup score n costs")
        case r: (Inr r)
        then obtain c where "r = costs @ [c]" "ok n c" using step [OF r] Suc.prems by auto
        then show ?thesis using IH r Inr by (auto simp: snoc nth_append less_Suc_eq)
      qed (simp add: snoc Inr)
    qed (simp add: snoc)
  qed simp
  from this [of SYLLABLE_KEY_COUNT] have "length costs = SYLLABLE_KEY_COUNT" "\<forall>i < SYLLABLE_KEY_COUNT. ok i (costs ! i)"
    using assms by (simp_all add: key_cost_table_def)
  then show ?thesis unfolding ok_def by blast
qed

lemma partial_key_size:
  "key_completeness k = Partial \<Longrightarrow> 9 \<le> length (completions k) \<and> length (completions k) \<le> 26"
  using completion_counts [OF partial_key_text] arg_cong [OF completions_partial(1), of k length] by simp

text \<open>Two incomplete keys already exceed the default limit.\<close>

lemma expand_two_partial:
  assumes "2 \<le> length (filter (\<lambda>k. key_completeness k = Partial) keys)"
  shows "expand_keys keys (expansion_limit default_config) = []"
proof -
  have positive: "1 \<le> length (completions k)" for k
    using partial_key_size [of k] by (cases "key_completeness k") (auto simp: completions_def)
  have "9 ^ length (filter (\<lambda>k. key_completeness k = Partial) ks) \<le> prod_list (map (\<lambda>k. length (completions k)) ks)" for ks
  proof (induction ks)
    case (Cons k ks)
    then show ?case
      using partial_key_size [of k] positive [of k] mult_le_mono [of 9 "length (completions k)"]
        mult_le_mono [of 1 "length (completions k)"]
      by (cases "key_completeness k") fastforce+
  qed simp
  from order_trans [OF power_increasing [OF assms] this [of keys]]
  have "81 \<le> prod_list (map (\<lambda>k. length (completions k)) keys)" by simp
  then show ?thesis by (simp add: expand_keys_eq usize_max_def default_config_def)
qed

text \<open>Sorting keeps a symmetric relation that holds between the members.\<close>

lemma sorted_wrt_insort_symmetric:
  assumes "\<And>x y. d x y \<Longrightarrow> d y x"
  shows "\<forall>x \<in> set ys. d a x \<Longrightarrow> sorted_wrt d ys \<Longrightarrow> sorted_wrt d (insort_key f a ys)"
  using assms by (induction ys) (auto simp: set_insort_key)

lemma sorted_wrt_sort_symmetric:
  assumes "\<And>x y. d x y \<Longrightarrow> d y x"
  shows "sorted_wrt d xs \<Longrightarrow> sorted_wrt d (sort_key f xs)"
  by (induction xs) (auto intro!: sorted_wrt_insort_symmetric [OF assms])

section \<open>Properties\<close>

text \<open>C13: expanding incomplete keys. A complete key stands for itself; an incomplete key stands for exactly
  the complete syllables of the frozen inventory whose phonetic initial it is, between 9 and 26 of
  them. The expansion of a key sequence is the whole product of the alternatives, in inventory order
  with the last key varying fastest, when the number of sequences is within the limit, and empty
  otherwise, never a part of it; under the default limit two incomplete keys already expand to nothing.\<close>

theorem expand_keys_spec:
  assumes "limit \<le> usize_max"
  shows "expand_keys keys limit =
      (if prod_list (map (\<lambda>k. length (completions k)) keys) \<le> limit then product_lists (map completions keys) else []) \<and>
    (\<forall>k. key_completeness k = Complete \<longrightarrow> completions k = [k]) \<and>
    (\<forall>k. key_completeness k = Partial \<longrightarrow>
       (\<forall>c. c \<in> set (completions k) \<longleftrightarrow>
          key_index c < FULL_PINYIN_SYLLABLE_COUNT \<and> phonetic_initial (syllable_text c) = Some (syllable_text k)) \<and>
       9 \<le> length (completions k) \<and> length (completions k) \<le> 26) \<and>
    (2 \<le> length (filter (\<lambda>k. key_completeness k = Partial) keys) \<longrightarrow>
       expand_keys keys (expansion_limit default_config) = [])"
  using expand_keys_eq [OF assms, of keys] completions_partial(2) partial_key_size expand_two_partial [of keys]
  by (auto simp: completions_def [of k for k])

theorem expand_keys_spec_witness:
  "expand_keys [SyllableKey 0, SyllableKey 1] 64 = [[SyllableKey 0, SyllableKey 1]]"
proof -
  have "key_completeness (SyllableKey 0) = Complete" "key_completeness (SyllableKey 1) = Complete"
    by (simp_all add: key_completeness_def key_index_def inventory_counts)
  then show ?thesis
    using expand_keys_spec [of 64 "[SyllableKey 0, SyllableKey 1]"] by (simp add: usize_max_def)
qed

text \<open>C12: ranking the phrases of a key sequence. The answer is an error only when the dictionary refuses one of
  the expanded sequences or the model refuses one of its entries, and it is that error. Otherwise
  every expanded sequence was looked up and every entry priced; the ranking holds offered entries
  with the cost of \<open>phrase_cost\<close>, in ascending cost, no two with the same text, and leaves an entry out
  only when it holds one with that text.\<close>

theorem rank_phrases_spec:
  "case rank_phrases config lookup score history keys kinds of
     Inl err \<Rightarrow> \<exists>s \<in> set (expand_keys keys (expansion_limit config)). (\<exists>m. lookup s = Inl m \<and> err = Dictionary m) \<or>
       (\<exists>es. lookup s = Inr es \<and> (\<exists>e \<in> set es. phrase_cost config score history e (length keys) kinds = Inl err))
   | Inr ranked \<Rightarrow>
       (\<forall>s \<in> set (expand_keys keys (expansion_limit config)). \<exists>es. lookup s = Inr es \<and>
          (\<forall>e \<in> set es. \<exists>(seen, c) \<in> set ranked. seen = e \<or> text_eq (pe_text seen) (pe_text e))) \<and>
       (\<forall>(e, c) \<in> set ranked. phrase_cost config score history e (length keys) kinds = Inr c \<and>
          (\<exists>s \<in> set (expand_keys keys (expansion_limit config)). \<exists>es. lookup s = Inr es \<and> e \<in> set es)) \<and>
       sorted (map snd ranked) \<and>
       (\<forall>i < length ranked. \<forall>j < length ranked. i \<noteq> j \<longrightarrow>
          \<not> text_eq (pe_text (fst (ranked ! i))) (pe_text (fst (ranked ! j))))"
proof -
  let ?seqs = "expand_keys keys (expansion_limit config)"
  let ?price = "\<lambda>e. phrase_cost config score history e (length keys) kinds"
  note run = rank_sequences [where config = config and lookup = lookup and score = score and history = history
      and keys = keys and kinds = kinds and seqs = ?seqs]
  show ?thesis
  proof (cases "fold_result (rank_sequence config lookup score history keys kinds) ?seqs []")
    case (Inl err)
    then show ?thesis using run by (simp add: rank_phrases_def)
  next
    case (Inr r)
    have found: "\<exists>es. lookup s = Inr es" if "s \<in> set ?seqs" for s using run Inr that by simp
    have inv: "ranked_inv ?price (offered lookup ?seqs) r" using run Inr by simp
    have offered: "e \<in> set (offered lookup ?seqs) \<longleftrightarrow> (\<exists>s \<in> set ?seqs. \<exists>es. lookup s = Inr es \<and> e \<in> set es)" for e
    proof -
      have "e \<in> set (case lookup s of Inr es \<Rightarrow> es | Inl _ \<Rightarrow> []) \<longleftrightarrow> (\<exists>es. lookup s = Inr es \<and> e \<in> set es)" for s
        by (cases "lookup s") auto
      then show ?thesis by (simp add: offered_def)
    qed
    let ?d = "\<lambda>a b. \<not> text_eq (pe_text (fst a)) (pe_text (fst b))"
    have "\<forall>i < length (sort_key snd r). \<forall>j < length (sort_key snd r). i \<noteq> j \<longrightarrow> ?d (sort_key snd r ! i) (sort_key snd r ! j)"
    proof -
      have sym: "?d y x" if "?d x y" for x y using that by (metis text_eq_sym)
      have "sorted_wrt ?d r" using inv by (simp add: ranked_inv_def)
      then have "sorted_wrt ?d (sort_key snd r)" using sorted_wrt_sort_symmetric [where d = ?d and f = snd and xs = r] sym by blast
      then show ?thesis
        using sym by (metis sorted_wrt_iff_nth_less linorder_neqE_nat)
    qed
    moreover have "\<exists>es. lookup s = Inr es \<and> (\<forall>e \<in> set es. \<exists>(seen, c) \<in> set (sort_key snd r). seen = e \<or> text_eq (pe_text seen) (pe_text e))"
      if "s \<in> set ?seqs" for s
      using found [OF that] inv that offered unfolding ranked_inv_def by fastforce
    moreover have "\<forall>(e, c) \<in> set (sort_key snd r). ?price e = Inr c \<and> (\<exists>s \<in> set ?seqs. \<exists>es. lookup s = Inr es \<and> e \<in> set es)"
      using inv offered unfolding ranked_inv_def by fastforce
    ultimately show ?thesis using Inr by (simp add: rank_phrases_def)
  qed
qed

theorem rank_phrases_spec_witness:
  "\<exists>ranked. rank_phrases default_config
       (\<lambda>s. Inr [\<lparr>pe_token = 7, pe_text = Scalar [20320], pe_pronunciation = None, pe_live_unigram = None\<rparr>])
       (\<lambda>h t c. Inr (c + uint t)) [] [SyllableKey 3] [Exact] = Inr ranked \<and>
     sorted (map snd ranked) \<and> (\<forall>(e, c) \<in> set ranked. pe_token e = 7)"
proof -
  let ?lookup = "\<lambda>s :: syllable_key list. Inr [\<lparr>pe_token = 7, pe_text = Scalar [20320], pe_pronunciation = None, pe_live_unigram = None\<rparr>] :: string + phrase_entry list"
  let ?score = "\<lambda>h t c. Inr (c + uint t) :: string + cost"
  let ?r = "rank_phrases default_config ?lookup ?score [] [SyllableKey 3] [Exact]"
  show ?thesis
    using rank_phrases_spec [where config = default_config and lookup = ?lookup and score = ?score and history = "[]"
        and keys = "[SyllableKey 3]" and kinds = "[Exact]"]
    by (cases ?r) (auto simp: phrase_cost_def)
qed

end
