(* ===== verification/IndexParse.thy ===== *)
theory IndexParse
  imports SegmentGraph
begin

text \<open>
  \<open>crates/oxpinyin-core/src/full_pinyin_index.rs\<close>: the parser of the indexed full-pinyin schemes, over the
  string tables of \<open>crates/oxpinyin-chewing/src/static_strings.rs\<close>. The tables themselves are written by the
  build, so a table is an argument. Below the model: the dynamic program computes, for every position,
  the fewest-key covering and among those the one whose last key begins earliest.
\<close>

section \<open>String tables\<close>

record string_span =
  span_offset :: u16
  span_length :: u16

definition span_range :: "string_span \<Rightarrow> nat \<times> nat" where
  "span_range s = (let start = unat (span_offset s) in (start, start + unat (span_length s)))"

record string_table =
  table_blob :: bytes
  table_rows :: "string_span list list"

text \<open>\<open>str::get\<close> of a range: both ends are character boundaries inside the string.\<close>

definition is_char_boundary :: "bytes \<Rightarrow> nat \<Rightarrow> bool" where
  "is_char_boundary s i \<longleftrightarrow> i = 0 \<or> i = length s \<or> i < length s \<and> \<not> (0x80 \<le> s ! i \<and> s ! i < 0xC0)"

definition str_get :: "bytes \<Rightarrow> nat \<times> nat \<Rightarrow> bytes option" where
  "str_get s r = (case r of (a, b) \<Rightarrow>
     if a \<le> b \<and> is_char_boundary s a \<and> is_char_boundary s b then Some (take (b - a) (drop a s)) else None)"

definition resolve :: "string_table \<Rightarrow> string_span \<Rightarrow> bytes" where
  "resolve t span = (case str_get (table_blob t) (span_range span) of Some s \<Rightarrow> s | None \<Rightarrow> [])"

definition table_field :: "string_table \<Rightarrow> nat \<Rightarrow> nat \<Rightarrow> bytes option" where
  "table_field t row column =
     Option.bind (get_at (table_rows t) row) (\<lambda>spans. map_option (resolve t) (get_at spans column))"

definition table_get :: "string_table \<Rightarrow> nat \<Rightarrow> bytes list option" where
  "table_get t row = map_option (map (resolve t)) (get_at (table_rows t) row)"

definition table_entries :: "string_table \<Rightarrow> bytes list list" where
  "table_entries t = map (map (resolve t)) (table_rows t)"

definition first_bytes :: "string_table \<Rightarrow> string_span list \<Rightarrow> bytes" where
  "first_bytes t spans = (case get_at spans 0 of
     None \<Rightarrow> []
   | Some span \<Rightarrow> (case get_range (table_blob t) (fst (span_range span)) (snd (span_range span)) of
       Some bs \<Rightarrow> bs | None \<Rightarrow> []))"

definition table_position :: "string_table \<Rightarrow> bytes \<Rightarrow> nat option" where
  "table_position t spelling =
     (let p = partition_point (\<lambda>spans. lex_cmp (first_bytes t spans) spelling = Less) (table_rows t) in
      Option.bind (table_field t p 0) (\<lambda>found. if found = spelling then Some p else None))"

definition index_canonical :: "string_table \<Rightarrow> bytes \<Rightarrow> bytes option" where
  "index_canonical t spelling = Option.bind (table_position t spelling) (\<lambda>p. table_field t p 1)"

section \<open>The dynamic program\<close>

definition MAX_LOOKAHEAD :: nat where
  "MAX_LOOKAHEAD = 7"

record index_key =
  ik_canonical :: bytes
  ik_start :: nat
  ik_end :: nat
  ik_tone :: u8

record index_parse =
  ip_keys :: "index_key list"
  ip_consumed :: nat

fun join_bytes :: "bytes list \<Rightarrow> bytes" where
  "join_bytes [] = []"
| "join_bytes [s] = s"
| "join_bytes (s # t # ss) = s @ APOSTROPHE # join_bytes (t # ss)"

definition full_pinyin :: "index_parse \<Rightarrow> bytes" where
  "full_pinyin r = join_bytes (map ik_canonical (ip_keys r))"

record index_step =
  st_reached :: bool
  st_last :: nat
  st_num_keys :: nat
  st_parsed_len :: nat
  st_key :: "index_key option"

definition parse_one_index_key :: "bytes \<Rightarrow> option_bits \<Rightarrow> string_table \<Rightarrow> index_key option" where
  "parse_one_index_key input opts index =
     (let use_tone = contains opts USE_TONE;
          (parsed_len, tone) =
            (if use_tone \<and> 0 < length input \<and> 0x31 \<le> input ! (length input - 1) \<and> input ! (length input - 1) \<le> 0x35
             then (length input - 1, input ! (length input - 1) - 0x30) else (length input, 0)) in
      if parsed_len = 0 \<or> use_tone \<and> contains opts FORCE_TONE \<and> tone = 0 then None
      else if \<not> valid_utf8 (take parsed_len input) then None
      else map_option (\<lambda>canonical.
          \<lparr>ik_canonical = canonical, ik_start = 0,
           ik_end = (if use_tone \<and> tone \<noteq> 0 then parsed_len + 1 else parsed_len), ik_tone = tone\<rparr>)
        (index_canonical index (take parsed_len input)))"

definition improves :: "index_step \<Rightarrow> index_step \<Rightarrow> bool" where
  "improves v next \<longleftrightarrow> \<not> st_reached next \<or> st_parsed_len next < st_parsed_len v \<or>
     st_parsed_len v = st_parsed_len next \<and> st_num_keys v < st_num_keys next"

text \<open>One relaxation of \<open>end\<close> from the step at \<open>position\<close>, by a key or, with none, by the separator.\<close>

definition relax_index :: "nat \<Rightarrow> nat \<Rightarrow> index_key option \<Rightarrow> index_step list \<Rightarrow> index_step list" where
  "relax_index pos e key steps =
     (let previous = steps ! pos;
          v = \<lparr>st_reached = True, st_last = pos,
               st_num_keys = st_num_keys previous + (case key of None \<Rightarrow> 0 | Some _ \<Rightarrow> 1),
               st_parsed_len = st_parsed_len previous + (e - pos), st_key = key\<rparr>
      in if improves v (steps ! e) then steps[e := v] else steps)"

definition index_end :: "bytes \<Rightarrow> option_bits \<Rightarrow> string_table \<Rightarrow> nat \<Rightarrow> nat \<Rightarrow> index_step list \<Rightarrow> index_step list" where
  "index_end input opts index pos e steps =
     (case parse_one_index_key (take (e - pos) (drop pos input)) opts index of
        None \<Rightarrow> steps
      | Some key \<Rightarrow>
          if \<not> st_reached (steps ! pos) then steps
          else relax_index pos e (Some (key\<lparr>ik_start := pos, ik_end := e\<rparr>)) steps)"

definition try_end :: "bytes \<Rightarrow> nat \<Rightarrow> nat" where
  "try_end input pos =
     (let next_sep = pos + (case position (\<lambda>b. b = APOSTROPHE) (drop pos input) of
            Some i \<Rightarrow> i | None \<Rightarrow> length input - pos)
      in min (pos + MAX_LOOKAHEAD) next_sep)"

definition index_position :: "bytes \<Rightarrow> option_bits \<Rightarrow> string_table \<Rightarrow> nat \<Rightarrow> index_step list \<Rightarrow> index_step list" where
  "index_position input opts index pos steps =
     (if input ! pos = APOSTROPHE then
        (if st_reached (steps ! pos) then relax_index pos (pos + 1) None steps else steps)
      else fold (index_end input opts index pos) [pos + 1..<try_end input pos + 1] steps)"

fun longest_covered :: "index_step list \<Rightarrow> nat \<Rightarrow> nat" where
  "longest_covered steps 0 = 0"
| "longest_covered steps (Suc n) =
     (if st_reached (steps ! Suc n) \<and> st_parsed_len (steps ! Suc n) = Suc n then Suc n else longest_covered steps n)"

text \<open>The backtrack follows \<open>last\<close> while the cursor is not 0: \<open>None\<close> is not returning.\<close>

partial_function (option) index_backtrack :: "index_step list \<Rightarrow> nat \<Rightarrow> index_key list \<Rightarrow> index_key list option" where
  "index_backtrack steps cursor keys =
     (if cursor = 0 then Some keys
      else index_backtrack steps (st_last (steps ! cursor))
             (case st_key (steps ! cursor) of None \<Rightarrow> keys | Some key \<Rightarrow> keys @ [key]))"

definition index_start :: "nat \<Rightarrow> index_step list" where
  "index_start n =
     (let unreached = \<lparr>st_reached = False, st_last = 0, st_num_keys = 0, st_parsed_len = 0, st_key = None\<rparr>
      in (replicate (n + 1) unreached)[0 := unreached\<lparr>st_reached := True\<rparr>])"

definition parse_index :: "bytes \<Rightarrow> option_bits \<Rightarrow> string_table \<Rightarrow> index_parse option" where
  "parse_index input opts index =
     (let steps = fold (index_position input opts index) [0..<length input] (index_start (length input));
          best = longest_covered steps (length input)
      in map_option (\<lambda>keys. \<lparr>ip_keys = rev keys, ip_consumed = best\<rparr>) (index_backtrack steps best []))"

definition parse_full_pinyin_index :: "bytes \<Rightarrow> bool \<Rightarrow> string_table \<Rightarrow> index_parse option" where
  "parse_full_pinyin_index input use_tone index = parse_index input (if use_tone then USE_TONE else 0) index"

section \<open>What a step of the parse is\<close>

text \<open>A segment of the input that spells an entry: at most the lookahead long, without a separator, with an
  optional tone digit under \<open>USE_TONE\<close>, which \<open>FORCE_TONE\<close> makes mandatory.\<close>

definition index_spells :: "bytes \<Rightarrow> option_bits \<Rightarrow> string_table \<Rightarrow> nat \<Rightarrow> nat \<Rightarrow> u8 \<Rightarrow> bytes \<Rightarrow> bool" where
  "index_spells input opts index p e tone canonical \<longleftrightarrow>
     p < e \<and> e \<le> length input \<and> e - p \<le> MAX_LOOKAHEAD \<and>
     (let seg = take (e - p) (drop p input);
          toned = (contains opts USE_TONE \<and> 0x31 \<le> last seg \<and> last seg \<le> 0x35);
          spelling = (if toned then butlast seg else seg)
      in APOSTROPHE \<notin> set seg \<and> spelling \<noteq> [] \<and> valid_utf8 spelling \<and>
         index_canonical index spelling = Some canonical \<and>
         tone = (if toned then last seg - 0x30 else 0) \<and>
         (contains opts USE_TONE \<and> contains opts FORCE_TONE \<longrightarrow> toned))"

definition index_arc :: "bytes \<Rightarrow> option_bits \<Rightarrow> string_table \<Rightarrow> nat \<Rightarrow> nat \<Rightarrow> index_key option \<Rightarrow> bool" where
  "index_arc input opts index p e k \<longleftrightarrow>
     p < length input \<and> input ! p = APOSTROPHE \<and> e = p + 1 \<and> k = None \<or>
     (\<exists>tone canonical. index_spells input opts index p e tone canonical \<and>
        k = Some \<lparr>ik_canonical = canonical, ik_start = p, ik_end = e, ik_tone = tone\<rparr>)"

text \<open>A covering of the input from its start: consecutive hops over separators and keys.\<close>

type_synonym hop = "nat \<times> nat \<times> index_key option"

fun index_path :: "bytes \<Rightarrow> option_bits \<Rightarrow> string_table \<Rightarrow> nat \<Rightarrow> hop list \<Rightarrow> nat \<Rightarrow> bool" where
  "index_path input opts index p [] q \<longleftrightarrow> p = q"
| "index_path input opts index p ((s, e, k) # hops) q \<longleftrightarrow>
     s = p \<and> index_arc input opts index s e k \<and> index_path input opts index e hops q"

definition hop_keys :: "hop list \<Rightarrow> index_key list" where
  "hop_keys hops = List.map_filter (\<lambda>(s, e, k). k) hops"

lemma hop_keys_simps [simp]:
  "hop_keys [] = []"
  "hop_keys ((s, e, None) # hops) = hop_keys hops"
  "hop_keys ((s, e, Some k) # hops) = k # hop_keys hops"
  "hop_keys (hops @ hops') = hop_keys hops @ hop_keys hops'"
  by (simp_all add: hop_keys_def map_filter_simps List.map_filter_def)

lemma index_path_append:
  "index_path input opts index p (hops @ hops') q \<longleftrightarrow>
     (\<exists>m. index_path input opts index p hops m \<and> index_path input opts index m hops' q)"
  by (induction hops arbitrary: p) auto

lemma index_arc_bounds:
  assumes "index_arc input opts index p e k"
  shows "p < e \<and> e \<le> length input"
  using assms by (auto simp: index_arc_def index_spells_def)

text \<open>A position is entered by a separator or by keys, never by both, and by at most one key from
  each start.\<close>

lemma index_arc_unique:
  assumes "index_arc input opts index p e k" "index_arc input opts index p e k'"
  shows "k = k'"
proof -
  have sep: "\<not> index_spells input opts index p e tone c" if "input ! p = APOSTROPHE" "p < length input" for tone c
  proof
    assume a: "index_spells input opts index p e tone c"
    then have "0 < length (take (e - p) (drop p input))" and "take (e - p) (drop p input) ! 0 = APOSTROPHE"
      using that by (auto simp: index_spells_def)
    then show False using a nth_mem [of 0 "take (e - p) (drop p input)"] by (simp add: index_spells_def Let_def)
  qed
  show ?thesis
    using assms sep unfolding index_arc_def by (auto simp: index_spells_def Let_def)
qed

lemma position_none: "position P xs = None \<longleftrightarrow> (\<forall>x \<in> set xs. \<not> P x)"
  by (induction xs) auto

lemma try_end_iff:
  assumes "p < length input" "input ! p \<noteq> APOSTROPHE"
  shows "p < e \<and> e \<le> try_end input p \<longleftrightarrow>
     p < e \<and> e \<le> length input \<and> e - p \<le> MAX_LOOKAHEAD \<and> APOSTROPHE \<notin> set (take (e - p) (drop p input))"
proof -
  let ?d = "drop p input"
  have free: "APOSTROPHE \<notin> set (take n ?d) \<longleftrightarrow> (\<forall>j < min n (length ?d). ?d ! j \<noteq> APOSTROPHE)" for n
    by (auto simp: in_set_conv_nth)
  show ?thesis
  proof (cases "position (\<lambda>b. b = APOSTROPHE) ?d")
    case None
    then have "APOSTROPHE \<notin> set ?d" by (auto simp: position_none)
    then have "APOSTROPHE \<notin> set (take n ?d)" for n by (meson in_set_takeD)
    then show ?thesis using None assms by (auto simp: try_end_def)
  next
    case (Some i)
    note i = Some [unfolded position_iff]
    have "APOSTROPHE \<notin> set (take (e - p) ?d) \<longleftrightarrow> e - p \<le> i" if "e \<le> length input"
      unfolding free using i that by (auto simp: not_less min_def dest: leI)
    moreover have "e \<le> length input" if "e \<le> p + i" using that i by (simp; linarith)
    ultimately show ?thesis using Some i assms by (auto simp: try_end_def)
  qed
qed

lemma parse_one_iff:
  assumes "input \<noteq> []"
  shows "parse_one_index_key input opts index = Some key \<longleftrightarrow>
    (let toned = (contains opts USE_TONE \<and> 0x31 \<le> last input \<and> last input \<le> 0x35);
         spelling = (if toned then butlast input else input)
     in spelling \<noteq> [] \<and> valid_utf8 spelling \<and> (contains opts USE_TONE \<and> contains opts FORCE_TONE \<longrightarrow> toned) \<and>
        (\<exists>c. index_canonical index spelling = Some c \<and>
           key = \<lparr>ik_canonical = c, ik_start = 0, ik_end = length input, ik_tone = (if toned then last input - 0x30 else 0)\<rparr>))"
proof -
  have last: "input ! (length input - 1) = last input" using assms by (simp add: last_conv_nth)
  have zero: "last input - 0x30 \<noteq> (0::u8)" if "0x31 \<le> last input"
    using that by auto
  have short: "length input - 1 = 0 \<longleftrightarrow> butlast input = []" using assms by (cases input) auto
  show ?thesis
  proof (cases "contains opts USE_TONE \<and> 0x31 \<le> last input \<and> last input \<le> 0x35")
    case True
    then have "parse_one_index_key input opts index =
        (if butlast input = [] \<or> \<not> valid_utf8 (butlast input) then None
         else map_option (\<lambda>c. \<lparr>ik_canonical = c, ik_start = 0, ik_end = length input, ik_tone = last input - 0x30\<rparr>)
           (index_canonical index (butlast input)))"
      using assms zero unfolding parse_one_index_key_def last Let_def butlast_conv_take [symmetric] short [symmetric]
      by (simp add: butlast_conv_take)
    then show ?thesis using True by (auto simp: Let_def)
  next
    case False
    then have "parse_one_index_key input opts index =
        (if contains opts USE_TONE \<and> contains opts FORCE_TONE \<or> \<not> valid_utf8 input then None
         else map_option (\<lambda>c. \<lparr>ik_canonical = c, ik_start = 0, ik_end = length input, ik_tone = 0\<rparr>) (index_canonical index input))"
      using assms unfolding parse_one_index_key_def last Let_def by auto
    then show ?thesis using False assms by (auto simp: Let_def)
  qed
qed

section \<open>The sweep\<close>

text \<open>The arcs leaving a position, in the order the loop tries them.\<close>

definition arc_list :: "bytes \<Rightarrow> option_bits \<Rightarrow> string_table \<Rightarrow> nat \<Rightarrow> (nat \<times> index_key option) list" where
  "arc_list input opts index p =
     (if input ! p = APOSTROPHE then [(p + 1, None)]
      else List.map_filter (\<lambda>e. map_option (\<lambda>key. (e, Some (key\<lparr>ik_start := p, ik_end := e\<rparr>)))
             (parse_one_index_key (take (e - p) (drop p input)) opts index)) [p + 1..<try_end input p + 1])"

lemma arc_list_iff:
  assumes p: "p < length input"
  shows "(e, k) \<in> set (arc_list input opts index p) \<longleftrightarrow> index_arc input opts index p e k"
proof (cases "input ! p = APOSTROPHE")
  case True
  have "\<not> index_spells input opts index p e tone c" for tone c
    using True p index_arc_unique [of input opts index p "p + 1" None]
      nth_mem [of 0 "take (e - p) (drop p input)"]
    by (auto simp: index_spells_def Let_def)
  then show ?thesis using True p by (auto simp: arc_list_def index_arc_def)
next
  case False
  let ?seg = "take (e - p) (drop p input)"
  have len: "length ?seg = e - p" if "e \<le> length input" using that by simp
  have "(e, k) \<in> set (arc_list input opts index p) \<longleftrightarrow>
      p < e \<and> e \<le> try_end input p \<and>
      (\<exists>key. parse_one_index_key ?seg opts index = Some key \<and> k = Some (key\<lparr>ik_start := p, ik_end := e\<rparr>))"
    using False by (auto simp: arc_list_def List.map_filter_def Suc_le_eq image_iff split: option.splits)
  also have "\<dots> \<longleftrightarrow> p < e \<and> e \<le> length input \<and> e - p \<le> MAX_LOOKAHEAD \<and> APOSTROPHE \<notin> set ?seg \<and>
      (\<exists>key. parse_one_index_key ?seg opts index = Some key \<and> k = Some (key\<lparr>ik_start := p, ik_end := e\<rparr>))"
    using try_end_iff [OF p False] by blast
  also have "\<dots> \<longleftrightarrow> index_arc input opts index p e k"
  proof (cases "p < e \<and> e \<le> length input")
    case True
    then have "?seg \<noteq> []" using p by simp
    from parse_one_iff [OF this] True show ?thesis
      unfolding index_arc_def index_spells_def using False by (auto simp: Let_def)
  next
    case no: False
    then show ?thesis using False by (auto simp: index_arc_def index_spells_def)
  qed
  finally show ?thesis .
qed

lemma index_position_arcs:
  assumes "p < length input"
  shows "index_position input opts index p steps =
    (if st_reached (steps ! p) then fold (\<lambda>(e, k). relax_index p e k) (arc_list input opts index p) steps else steps)"
proof (cases "input ! p = APOSTROPHE")
  case True
  then show ?thesis by (simp add: index_position_def arc_list_def)
next
  case False
  have keep: "relax_index p e k steps ! p = steps ! p" if "p < e" for e k steps
    using that by (simp add: relax_index_def Let_def)
  have "fold (index_end input opts index p) es steps =
      (if st_reached (steps ! p)
       then fold (\<lambda>(e, k). relax_index p e k) (List.map_filter (\<lambda>e. map_option (\<lambda>key. (e, Some (key\<lparr>ik_start := p, ik_end := e\<rparr>)))
             (parse_one_index_key (take (e - p) (drop p input)) opts index)) es) steps
       else steps)" if "\<forall>e \<in> set es. p < e" for es
    using that
  proof (induction es arbitrary: steps)
    case (Cons e es)
    then show ?case
      by (cases "parse_one_index_key (take (e - p) (drop p input)) opts index")
         (auto simp: index_end_def map_filter_simps keep)
  qed (simp add: map_filter_simps)
  then show ?thesis
    using False by (simp add: index_position_def arc_list_def Suc_le_eq del: upt_Suc)
qed

lemma arc_list_distinct: "distinct (map fst (arc_list input opts index p))"
proof -
  have "distinct (map fst (List.map_filter (\<lambda>e. map_option (\<lambda>key. (e, g e key)) (f e)) es))" if "distinct es"
    for es and f :: "nat \<Rightarrow> index_key option" and g :: "nat \<Rightarrow> index_key \<Rightarrow> index_key option"
  proof -
    have "map fst (List.map_filter (\<lambda>e. map_option (\<lambda>key. (e, g e key)) (f e)) es) = filter (\<lambda>e. f e \<noteq> None) es"
      by (induction es) (auto simp: map_filter_simps)
    then show ?thesis using that by simp
  qed
  then show ?thesis by (simp add: arc_list_def del: upt_Suc)
qed

lemma fold_relax_nth:
  assumes "distinct (map fst arcs)" "\<forall>(e, k) \<in> set arcs. p < e \<and> e < length steps"
  shows "fold (\<lambda>(e, k). relax_index p e k) arcs steps ! i =
    (case map_of arcs i of None \<Rightarrow> steps ! i | Some k \<Rightarrow> relax_index p i k steps ! i)"
  using assms
proof (induction arcs arbitrary: steps)
  case (Cons arc arcs)
  obtain e k where arc: "arc = (e, k)" by (cases arc)
  let ?steps = "relax_index p e k steps"
  have e: "p < e" "e < length steps" using Cons.prems arc by auto
  have len: "length ?steps = length steps" by (simp add: relax_index_def Let_def)
  have other: "?steps ! j = steps ! j" if "j \<noteq> e" for j
    using that by (simp add: relax_index_def Let_def)
  have "relax_index p i k' ?steps ! i = relax_index p i k' steps ! i" if "i \<noteq> e" "i < length steps" for k'
    using other [of p] other [OF that(1)] e len that(2) by (simp add: relax_index_def Let_def)
  moreover have "map_of arcs e = None" using Cons.prems arc by (auto simp: map_of_eq_None_iff)
  moreover have "i < length steps" if "map_of arcs i = Some k'" for k'
    using that Cons.prems map_of_SomeD by fastforce
  ultimately show ?case
    using Cons.IH [of ?steps] Cons.prems arc other len by (auto split: option.splits)
qed simp

definition key_weight :: "index_key option \<Rightarrow> nat" where
  "key_weight k = (case k of None \<Rightarrow> 0 | Some _ \<Rightarrow> 1)"

lemma length_hop_keys: "length (hop_keys ((s, e, k) # hops)) = key_weight k + length (hop_keys hops)"
  by (cases k) (simp_all add: key_weight_def)

text \<open>What the step of \<open>e\<close> holds once the positions below \<open>n\<close> are processed: a best arc into \<open>e\<close>.\<close>

definition settled :: "bytes \<Rightarrow> option_bits \<Rightarrow> string_table \<Rightarrow> nat \<Rightarrow> index_step list \<Rightarrow> nat \<Rightarrow> bool" where
  "settled input opts index n steps e \<longleftrightarrow>
     (st_reached (steps ! e) \<longrightarrow>
        st_parsed_len (steps ! e) = e \<and> st_last (steps ! e) < n \<and> st_reached (steps ! st_last (steps ! e)) \<and>
        index_arc input opts index (st_last (steps ! e)) e (st_key (steps ! e)) \<and>
        st_num_keys (steps ! e) = st_num_keys (steps ! st_last (steps ! e)) + key_weight (st_key (steps ! e))) \<and>
     (\<forall>p < n. \<forall>k. st_reached (steps ! p) \<and> index_arc input opts index p e k \<longrightarrow>
        st_reached (steps ! e) \<and>
        (st_num_keys (steps ! e) < st_num_keys (steps ! p) + key_weight k \<or>
         st_num_keys (steps ! e) = st_num_keys (steps ! p) + key_weight k \<and> st_last (steps ! e) \<le> p))"

definition swept :: "bytes \<Rightarrow> option_bits \<Rightarrow> string_table \<Rightarrow> nat \<Rightarrow> index_step list \<Rightarrow> bool" where
  "swept input opts index n steps \<longleftrightarrow>
     length steps = length input + 1 \<and> st_reached (steps ! 0) \<and> st_num_keys (steps ! 0) = 0 \<and> st_parsed_len (steps ! 0) = 0 \<and>
     (\<forall>e. 0 < e \<and> e \<le> length input \<longrightarrow> settled input opts index n steps e)"

lemma swept_parsed_len:
  "swept input opts index n steps \<Longrightarrow> p \<le> length input \<Longrightarrow> st_reached (steps ! p) \<Longrightarrow> st_parsed_len (steps ! p) = p"
  by (cases "p = 0") (auto simp: swept_def settled_def)

lemma settled_arc:
  assumes "settled input opts index n steps e" "p < n" "st_reached (steps ! p)" "index_arc input opts index p e k"
  shows "st_reached (steps ! e)" "st_num_keys (steps ! e) \<le> st_num_keys (steps ! p) + key_weight k"
    "st_num_keys (steps ! e) = st_num_keys (steps ! p) + key_weight k \<Longrightarrow> st_last (steps ! e) \<le> p"
proof -
  from assms have "st_reached (steps ! e) \<and> (st_num_keys (steps ! e) < st_num_keys (steps ! p) + key_weight k \<or>
      st_num_keys (steps ! e) = st_num_keys (steps ! p) + key_weight k \<and> st_last (steps ! e) \<le> p)"
    unfolding settled_def by blast
  then show "st_reached (steps ! e)" "st_num_keys (steps ! e) \<le> st_num_keys (steps ! p) + key_weight k"
    "st_num_keys (steps ! e) = st_num_keys (steps ! p) + key_weight k \<Longrightarrow> st_last (steps ! e) \<le> p" by auto
qed

lemma settled_agree:
  assumes "settled input opts index n steps e" "steps' ! e = steps ! e" "\<forall>i < n. steps' ! i = steps ! i"
  shows "settled input opts index n steps' e"
  using assms by (auto simp: settled_def)

lemma settled_Suc:
  assumes "settled input opts index n steps e"
    "\<And>k. st_reached (steps ! n) \<Longrightarrow> index_arc input opts index n e k \<Longrightarrow> st_reached (steps ! e) \<and>
       (st_num_keys (steps ! e) < st_num_keys (steps ! n) + key_weight k \<or>
        st_num_keys (steps ! e) = st_num_keys (steps ! n) + key_weight k \<and> st_last (steps ! e) \<le> n)"
  shows "settled input opts index (Suc n) steps e"
  using assms unfolding settled_def by (auto simp: less_Suc_eq)

lemma settled_relax:
  assumes inv: "settled input opts index n steps e" and n: "st_reached (steps ! n)" "st_parsed_len (steps ! n) = n"
    and arc: "index_arc input opts index n e k" and new: "steps' ! e = relax_index n e k steps ! e"
    and low: "\<forall>i \<le> n. steps' ! i = steps ! i" and len: "e < length steps"
  shows "settled input opts index (Suc n) steps' e"
proof -
  define v where "v = \<lparr>st_reached = True, st_last = n, st_num_keys = st_num_keys (steps ! n) + key_weight k,
      st_parsed_len = e, st_key = k\<rparr>"
  have e: "n < e" using index_arc_bounds [OF arc] by simp
  have v: "steps' ! e = (if improves v (steps ! e) then v else steps ! e)"
    using new n(2) e len by (auto simp: relax_index_def Let_def v_def key_weight_def)
  have imp: "improves v (steps ! e) \<longleftrightarrow> \<not> st_reached (steps ! e) \<or> st_num_keys v < st_num_keys (steps ! e)"
    using inv by (auto simp: improves_def settled_def v_def)
  have uniq: "k' = k" if "index_arc input opts index n e k'" for k' using index_arc_unique [OF that arc] .
  show ?thesis
  proof (cases "improves v (steps ! e)")
    case True
    then have ne: "steps' ! e = v" using v by simp
    have "st_num_keys v < st_num_keys (steps ! p) + key_weight k'"
      if "p < n" "st_reached (steps ! p)" "index_arc input opts index p e k'" for p k'
      using True imp settled_arc(1, 2) [OF inv that] by auto
    moreover have "k' = k" if "index_arc input opts index n e k'" for k' by (rule uniq [OF that])
    moreover have f: "st_reached v" "st_last v = n" "st_parsed_len v = e" "st_key v = k"
        "st_num_keys v = st_num_keys (steps ! n) + key_weight k" by (simp_all add: v_def)
    moreover have "steps' ! p = steps ! p" if "p < Suc n" for p using low that by simp
    ultimately show ?thesis
      unfolding settled_def ne f using n(1) arc by (metis (no_types, lifting) lessI less_antisym order_refl)
  next
    case False
    then have same: "steps' ! e = steps ! e" using v by simp
    have "settled input opts index n steps' e" using settled_agree [OF inv same] low by simp
    then show ?thesis
    proof (rule settled_Suc)
      fix k' assume "index_arc input opts index n e k'"
      moreover have "st_last (steps ! e) \<le> n" if "st_reached (steps ! e)" using inv that by (auto simp: settled_def)
      ultimately show "st_reached (steps' ! e) \<and>
         (st_num_keys (steps' ! e) < st_num_keys (steps' ! n) + key_weight k' \<or>
          st_num_keys (steps' ! e) = st_num_keys (steps' ! n) + key_weight k' \<and> st_last (steps' ! e) \<le> n)"
        using False imp uniq same low by (auto simp: v_def)
    qed
  qed
qed

lemma swept_step:
  assumes inv: "swept input opts index n steps" and n: "n < length input"
  shows "swept input opts index (Suc n) (index_position input opts index n steps)"
proof (cases "st_reached (steps ! n)")
  case False
  then have "index_position input opts index n steps = steps" using index_position_arcs [OF n] by simp
  then show ?thesis
    using inv False unfolding swept_def by (auto intro!: settled_Suc)
next
  case True
  let ?arcs = "arc_list input opts index n"
  let ?new = "index_position input opts index n steps"
  have new: "?new = fold (\<lambda>(e, k). relax_index n e k) ?arcs steps"
    using True index_position_arcs [OF n] by simp
  have len: "length ?new = length steps"
  proof -
    have "length (fold (\<lambda>(e, k). relax_index n e k) arcs xs) = length xs" for arcs xs
      by (induction arcs arbitrary: xs) (auto simp: relax_index_def Let_def)
    then show ?thesis unfolding new .
  qed
  have arcs: "\<forall>(e, k) \<in> set ?arcs. n < e \<and> e < length steps"
    using arc_list_iff [OF n] index_arc_bounds inv by (fastforce simp: swept_def)
  note nth = fold_relax_nth [OF arc_list_distinct arcs, folded new]
  have none: "?new ! i = steps ! i" if "\<forall>k. \<not> index_arc input opts index n i k" for i
    using nth [of i] that arc_list_iff [OF n] by (auto split: option.splits dest: map_of_SomeD)
  have low: "\<forall>i \<le> n. ?new ! i = steps ! i"
    using none index_arc_bounds by fastforce
  have "settled input opts index (Suc n) ?new e" if e: "0 < e" "e \<le> length input" for e
  proof (cases "\<exists>k. index_arc input opts index n e k")
    case False
    have "settled input opts index n steps e" using inv e by (simp add: swept_def)
    from settled_agree [OF this, of ?new] show ?thesis
      using none [of e] low False by (intro settled_Suc) auto
  next
    case arc: True
    then obtain k where k: "index_arc input opts index n e k" by blast
    then have "map_of ?arcs e = Some k" using arc_list_iff [OF n] arc_list_distinct by simp
    then show ?thesis
      using inv e low nth [of e] True swept_parsed_len [OF inv _ True] n
      by (intro settled_relax [OF _ _ _ k]) (auto simp: swept_def)
  qed
  then show ?thesis
    using inv len low by (simp add: swept_def)
qed

lemma swept_all: "swept input opts index (length input) (fold (index_position input opts index) [0..<length input] (index_start (length input)))"
proof -
  have "swept input opts index n (fold (index_position input opts index) [0..<n] (index_start (length input)))"
    if "n \<le> length input" for n
    using that
  proof (induction n)
    case 0
    then show ?case by (auto simp: swept_def settled_def index_start_def Let_def simp del: replicate_Suc)
  next
    case (Suc n)
    then show ?case using swept_step by simp
  qed
  then show ?thesis by simp
qed

section \<open>The answer\<close>

text \<open>The backtrack from a reached position is a path to it; \<open>best_path\<close> is that path.\<close>

fun best_path :: "index_step list \<Rightarrow> nat \<Rightarrow> nat \<Rightarrow> hop list" where
  "best_path steps 0 e = []"
| "best_path steps (Suc fuel) e =
     (if e = 0 then [] else best_path steps fuel (st_last (steps ! e)) @ [(st_last (steps ! e), e, st_key (steps ! e))])"

definition tie_break :: "hop list \<Rightarrow> hop list \<Rightarrow> bool" where
  "tie_break hops hops' \<longleftrightarrow> hops = hops' \<or>
     (\<exists>pre pre' rest s s' e k k'. hops = pre @ (s, e, k) # rest \<and> hops' = pre' @ (s', e, k') # rest \<and> s < s')"

lemma tie_break_snoc: "tie_break hops hops' \<Longrightarrow> tie_break (hops @ [h]) (hops' @ [h])"
  unfolding tie_break_def by (metis append.assoc append_Cons)

locale swept_steps =
  fixes input :: bytes and opts :: option_bits and index :: string_table and steps :: "index_step list"
  assumes swept: "swept input opts index (length input) steps"
begin

lemma reached_step:
  assumes "0 < e" "e \<le> length input" "st_reached (steps ! e)"
  shows "st_last (steps ! e) < e" "st_reached (steps ! st_last (steps ! e))"
    "index_arc input opts index (st_last (steps ! e)) e (st_key (steps ! e))"
    "st_num_keys (steps ! e) = st_num_keys (steps ! st_last (steps ! e)) + key_weight (st_key (steps ! e))"
  using assms swept index_arc_bounds by (auto simp: swept_def settled_def)

lemma path_reached:
  assumes "index_path input opts index 0 hops e"
  shows "e \<le> length input \<and> st_reached (steps ! e) \<and> st_num_keys (steps ! e) \<le> length (hop_keys hops)"
  using assms
proof (induction hops arbitrary: e rule: rev_induct)
  case Nil
  then show ?case using swept by (simp add: swept_def)
next
  case (snoc hop hops)
  obtain s e' k where hop: "hop = (s, e', k)" by (cases hop)
  with snoc.prems have s: "index_path input opts index 0 hops s" "index_arc input opts index s e k" and e': "e' = e"
    by (auto simp: index_path_append)
  note b = index_arc_bounds [OF s(2)]
  have "settled input opts index (length input) steps e" using swept b by (simp add: swept_def)
  then have "st_reached (steps ! e)" "st_num_keys (steps ! e) \<le> st_num_keys (steps ! s) + key_weight k"
    using settled_arc [OF _ _ _ s(2)] b snoc.IH [OF s(1)] by (auto intro: order_less_le_trans)
  then show ?case
    using snoc.IH [OF s(1)] b hop e' length_hop_keys [of s e k "[]"] by auto
qed

lemma best_path_ok:
  assumes "e \<le> fuel" "e \<le> length input" "st_reached (steps ! e)"
  shows "index_path input opts index 0 (best_path steps fuel e) e \<and>
    length (hop_keys (best_path steps fuel e)) = st_num_keys (steps ! e)"
  using assms
proof (induction fuel arbitrary: e)
  case 0
  then show ?case using swept by (simp add: swept_def)
next
  case (Suc fuel)
  show ?case
  proof (cases "e = 0")
    case True
    then show ?thesis using swept by (simp add: swept_def)
  next
    case False
    then have r: "st_last (steps ! e) < e" "st_reached (steps ! st_last (steps ! e))"
        "index_arc input opts index (st_last (steps ! e)) e (st_key (steps ! e))"
        "st_num_keys (steps ! e) = st_num_keys (steps ! st_last (steps ! e)) + key_weight (st_key (steps ! e))"
      using reached_step [of e] Suc.prems by auto
    then show ?thesis
      using Suc.IH [of "st_last (steps ! e)"] Suc.prems False
        length_hop_keys [of "st_last (steps ! e)" e "st_key (steps ! e)" "[]"]
      by (auto simp: index_path_append)
  qed
qed

lemma best_path_first:
  assumes "e \<le> fuel" "index_path input opts index 0 hops e" "length (hop_keys hops) = st_num_keys (steps ! e)"
  shows "tie_break (best_path steps fuel e) hops"
  using assms
proof (induction fuel arbitrary: e hops)
  case 0
  then have "hops = []"
  proof (cases hops rule: rev_cases)
    case (snoc hs hop)
    then show ?thesis using 0 index_arc_bounds by (cases hop) (auto simp: index_path_append, fastforce)
  qed simp
  then show ?case by (simp add: tie_break_def)
next
  case (Suc fuel)
  show ?case
  proof (cases hops rule: rev_cases)
    case Nil
    then show ?thesis using Suc.prems by (simp add: tie_break_def)
  next
    case (snoc hs hop)
    obtain s k where hop: "hop = (s, e, k)" and s: "index_path input opts index 0 hs s" "index_arc input opts index s e k"
      using Suc.prems(2) snoc by (cases hop) (auto simp: index_path_append)
    note b = index_arc_bounds [OF s(2)]
    let ?l = "st_last (steps ! e)"
    have settled: "settled input opts index (length input) steps e" using swept b by (simp add: swept_def)
    have count: "length (hop_keys hs) + key_weight k = st_num_keys (steps ! e)"
      using Suc.prems(3) snoc hop length_hop_keys [of s e k "[]"] by simp
    have "st_reached (steps ! s)" "st_num_keys (steps ! s) \<le> length (hop_keys hs)"
      using path_reached [OF s(1)] by auto
    then have "st_num_keys (steps ! e) = st_num_keys (steps ! s) + key_weight k \<and> ?l \<le> s"
      using settled_arc [OF settled _ _ s(2)] b count by force
    then have l: "?l \<le> s" and hs: "length (hop_keys hs) = st_num_keys (steps ! s)" using count by auto
    have best: "best_path steps (Suc fuel) e = best_path steps fuel ?l @ [(?l, e, st_key (steps ! e))]" using b by simp
    show ?thesis
    proof (cases "?l = s")
      case True
      then have "st_key (steps ! e) = k"
        using reached_step(3) [of e] path_reached [OF Suc.prems(2)] b s(2) index_arc_unique by blast
      then show ?thesis
        using Suc.IH [OF _ s(1) hs] Suc.prems(1) b True best snoc hop tie_break_snoc by fastforce
    next
      case False
      then show ?thesis
        unfolding tie_break_def best snoc hop using l by fastforce
    qed
  qed
qed

lemma backtrack_best:
  assumes "e \<le> fuel" "e \<le> length input" "st_reached (steps ! e)"
  shows "index_backtrack steps e keys = Some (keys @ rev (hop_keys (best_path steps fuel e)))"
  using assms
proof (induction fuel arbitrary: e keys)
  case 0
  then show ?case by (subst index_backtrack.simps) simp
next
  case (Suc fuel)
  show ?case
  proof (cases "e = 0")
    case False
    then show ?thesis
      using Suc.IH [of "st_last (steps ! e)"] reached_step [of e] Suc.prems
      by (subst index_backtrack.simps) (auto split: option.splits)
  qed (subst index_backtrack.simps, simp)
qed

lemma longest_covered_greatest:
  assumes "n \<le> length input"
  shows "longest_covered steps n \<le> n \<and> st_reached (steps ! longest_covered steps n) \<and>
    (\<forall>q \<le> n. st_reached (steps ! q) \<longrightarrow> q \<le> longest_covered steps n)"
  using assms
proof (induction n)
  case 0
  then show ?case using swept by (simp add: swept_def)
next
  case (Suc n)
  then show ?case using swept_parsed_len [OF swept, of "Suc n"] by (auto simp: le_Suc_eq)
qed

end

interpretation index_sweep: swept_steps input opts index
    "fold (index_position input opts index) [0..<length input] (index_start (length input))" for input opts index
  by unfold_locales (rule swept_all)

section \<open>The table lookup\<close>

text \<open>What the generated tables guarantee: \<open>n\<close> valid spans a row, the spellings strictly ascending in byte order.\<close>

definition table_width_ok :: "nat \<Rightarrow> string_table \<Rightarrow> bool" where
  "table_width_ok n t \<longleftrightarrow>
     list_all (\<lambda>spans. length spans = n \<and> list_all (\<lambda>span. str_get (table_blob t) (span_range span) \<noteq> None) spans) (table_rows t) \<and>
     sorted_wrt (\<lambda>a b. lex_cmp a b = Less) (map (\<lambda>spans. resolve t (spans ! 0)) (table_rows t))"

abbreviation table_ok :: "string_table \<Rightarrow> bool" where
  "table_ok \<equiv> table_width_ok 2"

definition index_pairs :: "string_table \<Rightarrow> (bytes \<times> bytes) list" where
  "index_pairs t = map (\<lambda>spans. (resolve t (spans ! 0), resolve t (spans ! 1))) (table_rows t)"

lemma lex_cmp_less_trans: "lex_cmp a b = Less \<Longrightarrow> lex_cmp b c = Less \<Longrightarrow> lex_cmp a c = Less"
proof (induction a b arbitrary: c rule: lex_cmp.induct)
  case (2 y ys)
  then show ?case by (cases c) auto
next
  case (4 x xs y ys)
  then show ?case
    by (cases c) (auto simp: lex_cmp_Cons then_cmp_def cmp_of_def split: ordering.splits if_splits)
qed auto

lemma str_get_range:
  "str_get s r = Some bs \<Longrightarrow> get_range s (fst r) (snd r) = Some bs"
  by (cases r) (auto simp: str_get_def get_range_def is_char_boundary_def split: if_splits)

lemma table_row_bytes:
  assumes "table_width_ok n t" "0 < n" "spans \<in> set (table_rows t)"
  shows "length spans = n" "first_bytes t spans = resolve t (spans ! 0)"
proof -
  show len: "length spans = n" using assms by (simp add: table_width_ok_def list_all_iff)
  then have "spans ! 0 \<in> set spans" using assms(2) by simp
  then obtain bs where "str_get (table_blob t) (span_range (spans ! 0)) = Some bs"
    using assms unfolding table_width_ok_def list_all_iff by blast
  then show "first_bytes t spans = resolve t (spans ! 0)"
    using len assms(2) str_get_range by (auto simp: first_bytes_def resolve_def get_at_def)
qed

lemma partitionedI:
  assumes "\<And>i j. i \<le> j \<Longrightarrow> j < length xs \<Longrightarrow> P (xs ! j) \<Longrightarrow> P (xs ! i)"
  shows "partitioned P xs"
  using assms
proof (induction xs)
  case (Cons x xs)
  show ?case
  proof (cases "P x")
    case True
    have "partitioned P xs" using Cons.prems [of "Suc i" "Suc j" for i j] by (intro Cons.IH) auto
    then show ?thesis using True by (simp add: partitioned_def)
  next
    case False
    then show ?thesis using Cons.prems [of 0] by (fastforce simp: partitioned_def in_set_conv_nth)
  qed
qed (simp add: partitioned_def)

lemma table_position_iff:
  assumes ok: "table_width_ok n t" "0 < n"
  shows "table_position t s = Some i \<longleftrightarrow> i < length (table_rows t) \<and> resolve t (table_rows t ! i ! 0) = s"
    and "distinct (map (\<lambda>spans. resolve t (spans ! 0)) (table_rows t))"
proof -
  let ?rows = "table_rows t" and ?P = "\<lambda>spans. lex_cmp (first_bytes t spans) s = Less"
  let ?p = "length (takeWhile ?P ?rows)"
  have asc: "lex_cmp (first_bytes t (?rows ! i)) (first_bytes t (?rows ! j)) = Less" if "i < j" "j < length ?rows" for i j
    using ok that table_row_bytes(2) [OF ok] by (simp add: table_width_ok_def sorted_wrt_iff_nth_less)
  have down: "?P (?rows ! i)" if "?P (?rows ! j)" "i \<le> j" "j < length ?rows" for i j
    using that asc [of i j] lex_cmp_less_trans by (cases "i = j") fastforce+
  have part: "partitioned ?P ?rows"
    using down by (intro partitionedI) blast
  have pos: "table_position t s = Option.bind (table_field t ?p 0) (\<lambda>f. if f = s then Some ?p else None)"
    by (simp add: table_position_def std_pp.pp_partitioned [OF part] Let_def)
  have field: "table_field t i 0 = (if i < length ?rows then Some (resolve t (?rows ! i ! 0)) else None)" for i
    using table_row_bytes(1) [OF ok nth_mem [of i ?rows]] ok(2) by (auto simp: table_field_def get_at_def)
  have spell: "resolve t (?rows ! i ! 0) = first_bytes t (?rows ! i)" if "i < length ?rows" for i
    using table_row_bytes(2) [OF ok nth_mem [OF that]] by simp
  have ne: "first_bytes t (?rows ! i) \<noteq> first_bytes t (?rows ! j)" if "i < j" "j < length ?rows" for i j
    using asc [OF that] lex_cmp_Equal [of "first_bytes t (?rows ! i)" "first_bytes t (?rows ! i)"] by auto
  show "distinct (map (\<lambda>spans. resolve t (spans ! 0)) ?rows)"
    using ne spell by (auto simp: distinct_conv_nth) (metis linorder_neqE_nat)
  have hit: "?p = i" if i: "i < length ?rows" "first_bytes t (?rows ! i) = s" for i
  proof (rule antisym)
    show "?p \<le> i" using nth_partitioned [OF part i(1)] i(2) lex_cmp_Equal by (metis not_le_imp_less ordering.distinct(1))
    show "i \<le> ?p"
    proof (rule ccontr)
      assume "\<not> i \<le> ?p"
      then have "?P (?rows ! ?p)" using asc [of ?p i] i by auto
      moreover have "?p < length ?rows" using \<open>\<not> i \<le> ?p\<close> i by simp
      ultimately show False using nth_length_takeWhile by blast
    qed
  qed
  show "table_position t s = Some i \<longleftrightarrow> i < length ?rows \<and> resolve t (?rows ! i ! 0) = s"
    using pos field [of ?p] hit [of i] spell [of i] by (auto split: if_splits)
qed

lemma index_canonical_map:
  assumes ok: "table_ok t"
  shows "index_canonical t s = map_of (index_pairs t) s"
proof -
  note position = table_position_iff [OF ok, simplified]
  have dist: "distinct (map fst (index_pairs t))" using position(2) by (simp add: index_pairs_def comp_def)
  show ?thesis
  proof (cases "table_position t s")
    case None
    then have "\<not> (\<exists>i < length (table_rows t). resolve t (table_rows t ! i ! 0) = s)"
      using position(1) by (metis option.distinct(1))
    then have "s \<notin> fst ` set (index_pairs t)" by (auto simp: index_pairs_def in_set_conv_nth)
    then show ?thesis using None by (simp add: index_canonical_def map_of_eq_None_iff [THEN iffD2])
  next
    case (Some i)
    then have i: "i < length (table_rows t)" "resolve t (table_rows t ! i ! 0) = s" using position(1) by auto
    then have "(s, resolve t (table_rows t ! i ! 1)) \<in> set (index_pairs t)"
      unfolding index_pairs_def set_map using nth_mem [OF i(1)] by (intro image_eqI [of _ _ "table_rows t ! i"]) simp_all
    moreover have "length (table_rows t ! i) = 2" using table_row_bytes(1) [OF ok _ nth_mem [OF i(1)]] by simp
    ultimately show ?thesis using dist Some i(1) by (simp add: index_canonical_def table_field_def get_at_def)
  qed
qed

section \<open>Properties\<close>

text \<open>C14: the parse of an indexed full-pinyin scheme. Over an ascending table the parser returns on every
  input and option word. It consumes the longest prefix that separators and spellings of the table
  cover; its keys are those of such a covering with the fewest keys, and of the coverings with that
  many keys the one whose keys, compared from the end, begin earliest. A segment counts exactly when
  it is at most seven bytes without a separator and spells an entry after its tone digit is taken off.\<close>

theorem parse_index_spec:
  assumes "table_ok index"
  shows "\<exists>r hops. parse_index input opts index = Some r \<and>
    index_path input opts index 0 hops (ip_consumed r) \<and> ip_keys r = hop_keys hops \<and>
    (\<forall>q hops'. index_path input opts index 0 hops' q \<longrightarrow> q \<le> ip_consumed r \<and>
       (q = ip_consumed r \<longrightarrow> length (ip_keys r) \<le> length (hop_keys hops') \<and>
          (length (hop_keys hops') = length (ip_keys r) \<longrightarrow> tie_break hops hops'))) \<and>
    (\<forall>s. index_canonical index s = map_of (index_pairs index) s)"
proof -
  let ?steps = "fold (index_position input opts index) [0..<length input] (index_start (length input))"
  let ?best = "longest_covered ?steps (length input)"
  let ?hops = "best_path ?steps ?best ?best"
  note best = index_sweep.longest_covered_greatest [of "length input" input opts index, OF order_refl]
  from best have reached: "?best \<le> length input" "st_reached (?steps ! ?best)" by auto
  note path = index_sweep.best_path_ok [OF order_refl reached]
  have "parse_index input opts index = Some \<lparr>ip_keys = hop_keys ?hops, ip_consumed = ?best\<rparr>"
    using index_sweep.backtrack_best [OF order_refl reached, of "[]"] by (simp add: parse_index_def Let_def)
  moreover have "q \<le> ?best" if "index_path input opts index 0 hops' q" for q hops'
    using index_sweep.path_reached [OF that] best by blast
  moreover have "length (hop_keys ?hops) \<le> length (hop_keys hops')" if "index_path input opts index 0 hops' ?best" for hops'
    using index_sweep.path_reached [OF that] path by simp
  moreover have "tie_break ?hops hops'" if "index_path input opts index 0 hops' ?best" "length (hop_keys hops') = length (hop_keys ?hops)" for hops'
    using index_sweep.best_path_first [OF order_refl that(1)] that(2) path by simp
  ultimately show ?thesis
    using path index_canonical_map [OF assms]
    by (intro exI [of _ "\<lparr>ip_keys = hop_keys ?hops, ip_consumed = ?best\<rparr>"] exI [of _ ?hops]) auto
qed

text \<open>A table of two spellings, \<open>a\<close> and \<open>ai\<close>.\<close>

definition sample_index :: string_table where
  "sample_index = \<lparr>table_blob = [0x61, 0x69],
     table_rows = [[\<lparr>span_offset = 0, span_length = 1\<rparr>, \<lparr>span_offset = 0, span_length = 1\<rparr>],
                   [\<lparr>span_offset = 0, span_length = 2\<rparr>, \<lparr>span_offset = 0, span_length = 2\<rparr>]]\<rparr>"

theorem parse_index_spec_witness:
  "\<exists>r. parse_index [0x61, 0x69, 0x27, 0x61] 0 sample_index = Some r \<and>
     (\<forall>q hops. index_path [0x61, 0x69, 0x27, 0x61] 0 sample_index 0 hops q \<longrightarrow> q \<le> ip_consumed r)"
proof -
  have "table_ok sample_index" by code_simp
  from parse_index_spec [OF this, of "[0x61, 0x69, 0x27, 0x61]" 0] show ?thesis by blast
qed

end
