(* ===== verification/ScanMatrix.thy ===== *)
theory ScanMatrix
  imports FewestKeys
begin

text \<open>
  \<open>crates/oxpinyin-engine/src/session/mod.rs\<close> (the scan matrix), \<open>session/split_tables.rs\<close>, the placed topology
  of \<open>session/matrix.rs\<close> and the fuzzy alternates of \<open>crates/oxpinyin-core/src/vocab.rs\<close>. The matrix holds, for
  every byte position, the keys of the selected parse, then what the resplit, divided and fuzzy passes
  add. An index past the columns is a panic of the code: the passes answer \<open>None\<close> there, and the
  theorems show that they never do.
\<close>

section \<open>Fuzzy alternates\<close>

text \<open>The tables the build generates: the content index, its strings, the spelling rows and the
  \<open>CHEWING_KEYS\<close> array.\<close>

record chewing_tables =
  ct_index :: "int list"
  ct_field :: "nat \<Rightarrow> nat \<Rightarrow> str option"
  ct_content :: "content_key list"
  ct_keys :: "chewing_key list"

definition str_of :: "string \<Rightarrow> str" where
  "str_of s = map (\<lambda>c. word_of_nat (of_char c)) s"

definition text_of :: "str \<Rightarrow> string" where
  "text_of s = map (\<lambda>c. char_of (unat c)) s"

text \<open>\<open>CHEWING_KEYS[index]\<close>: the array has one row for every key, which the build asserts.\<close>

definition chewing_key_of :: "chewing_tables \<Rightarrow> syllable_key \<Rightarrow> chewing_key" where
  "chewing_key_of tables k = ct_keys tables ! key_index k"

definition from_chewing_key :: "chewing_tables \<Rightarrow> chewing_key \<Rightarrow> syllable_key option" where
  "from_chewing_key tables k =
     (if table_index (ct_index tables) k = Some 0 then None
      else from_canonical_text (text_of (pinyin_spelling (ct_index tables) (ct_field tables) k)))"

definition FUZZY_INITIALS :: "(u32 \<times> string \<times> string) list" where
  "FUZZY_INITIALS = [(PINYIN_AMB_C_CH, ''c'', ''ch''), (PINYIN_AMB_Z_ZH, ''z'', ''zh''), (PINYIN_AMB_S_SH, ''s'', ''sh''),
     (PINYIN_AMB_L_R, ''l'', ''r''), (PINYIN_AMB_L_N, ''l'', ''n''), (PINYIN_AMB_F_H, ''f'', ''h''), (PINYIN_AMB_G_K, ''g'', ''k'')]"

definition FUZZY_FINALS :: "(u32 \<times> string \<times> string) list" where
  "FUZZY_FINALS = [(PINYIN_AMB_AN_ANG, ''an'', ''ang''), (PINYIN_AMB_EN_ENG, ''en'', ''eng''), (PINYIN_AMB_IN_ING, ''in'', ''ing'')]"

definition fuzzy_initials :: "chewing_tables \<Rightarrow> chewing_key \<Rightarrow> option_bits \<Rightarrow> chewing_key list" where
  "fuzzy_initials tables key opts =
     concat (map (\<lambda>(amb, a, b).
       if \<not> contains opts amb then []
       else case (from_pinyin (ct_content tables) (str_of a), from_pinyin (ct_content tables) (str_of b)) of
         (Some a, Some b) \<Rightarrow>
           concat (map (\<lambda>(from, to).
               if key_initial key = from then
                 let alternate = key\<lparr>key_initial := to\<rparr> in
                 if table_index (ct_index tables) alternate \<noteq> Some 0 then [alternate] else []
               else [])
             [(key_initial a, key_initial b), (key_initial b, key_initial a)])
       | _ \<Rightarrow> []) FUZZY_INITIALS)"

definition fuzzy_finals :: "chewing_tables \<Rightarrow> option_bits \<Rightarrow> chewing_key \<Rightarrow> chewing_key list" where
  "fuzzy_finals tables opts key =
     concat (map (\<lambda>(amb, a, b).
       if \<not> contains opts amb then []
       else case (from_pinyin (ct_content tables) (str_of a), from_pinyin (ct_content tables) (str_of b)) of
         (Some a, Some b) \<Rightarrow>
           concat (map (\<lambda>(from, to). if key_final key = from then [key\<lparr>key_final := to\<rparr>] else [])
             [(key_final a, key_final b), (key_final b, key_final a)])
       | _ \<Rightarrow> []) FUZZY_FINALS)"

definition fuzzy_chewing_alternatives :: "chewing_tables \<Rightarrow> chewing_key \<Rightarrow> option_bits \<Rightarrow> chewing_key list" where
  "fuzzy_chewing_alternatives tables key opts =
     (let initials = fuzzy_initials tables key opts
      in initials @ concat (map (fuzzy_finals tables opts) (key # initials)))"

definition fuzzy_alternatives :: "chewing_tables \<Rightarrow> syllable_key \<Rightarrow> option_bits \<Rightarrow> syllable_key list" where
  "fuzzy_alternatives tables key opts =
     List.map_filter (from_chewing_key tables) (fuzzy_chewing_alternatives tables (chewing_key_of tables key) opts)"

section \<open>The split tables\<close>

definition RESPLIT_TABLE :: "(string \<times> string \<times> string \<times> string) list" where
  "RESPLIT_TABLE = [
    (''a'', ''nan'', ''an'', ''an''), (''an'', ''gang'', ''ang'', ''ang''), (''ba'', ''nan'', ''ban'', ''an''),
    (''ca'', ''nan'', ''can'', ''an''), (''chan'', ''gan'', ''chang'', ''an''),
    (''chan'', ''ge'', ''chang'', ''e''), (''che'', ''nai'', ''chen'', ''ai''),
    (''chen'', ''gan'', ''cheng'', ''an''), (''chu'', ''nan'', ''chun'', ''an''),
    (''dan'', ''gan'', ''dang'', ''an''), (''e'', ''nai'', ''en'', ''ai''), (''e'', ''nen'', ''en'', ''en''),
    (''fa'', ''nan'', ''fan'', ''an''), (''fan'', ''gai'', ''fang'', ''ai''),
    (''fan'', ''gan'', ''fang'', ''an''), (''fan'', ''ge'', ''fang'', ''e''),
    (''ga'', ''nai'', ''gan'', ''ai''), (''ga'', ''nen'', ''gan'', ''en''),
    (''gan'', ''gao'', ''gang'', ''ao''), (''guan'', ''gan'', ''guang'', ''an''),
    (''hu'', ''nan'', ''hun'', ''an''), (''huan'', ''gan'', ''huang'', ''an''),
    (''ji'', ''ne'', ''jin'', ''e''), (''ji'', ''nou'', ''jin'', ''ou''), (''jia'', ''nai'', ''jian'', ''ai''),
    (''jia'', ''nan'', ''jian'', ''an''), (''jia'', ''nao'', ''jian'', ''ao''),
    (''jia'', ''ne'', ''jian'', ''e''), (''jia'', ''nou'', ''jian'', ''ou''),
    (''jian'', ''gan'', ''jiang'', ''an''), (''jin'', ''gai'', ''jing'', ''ai''),
    (''jin'', ''gan'', ''jing'', ''an''), (''jin'', ''ge'', ''jing'', ''e''),
    (''kuan'', ''gao'', ''kuang'', ''ao''), (''li'', ''nan'', ''lin'', ''an''),
    (''lia'', ''nai'', ''lian'', ''ai''), (''lia'', ''ne'', ''lian'', ''e''),
    (''lian'', ''gan'', ''liang'', ''an''), (''ma'', ''ne'', ''man'', ''e''),
    (''men'', ''gen'', ''meng'', ''en''), (''min'', ''gan'', ''ming'', ''an''),
    (''min'', ''ge'', ''ming'', ''e''), (''na'', ''nai'', ''nan'', ''ai''), (''na'', ''nan'', ''nan'', ''an''),
    (''na'', ''nao'', ''nan'', ''ao''), (''na'', ''nou'', ''nan'', ''ou''),
    (''nin'', ''gan'', ''ning'', ''an''), (''pa'', ''nan'', ''pan'', ''an''),
    (''pen'', ''gan'', ''peng'', ''an''), (''pin'', ''gan'', ''ping'', ''an''),
    (''qi'', ''nai'', ''qin'', ''ai''), (''qi'', ''nan'', ''qin'', ''an''),
    (''qia'', ''nan'', ''qian'', ''an''), (''qia'', ''ne'', ''qian'', ''e''),
    (''qin'', ''gai'', ''qing'', ''ai''), (''qin'', ''gan'', ''qing'', ''an''),
    (''qu'', ''na'', ''qun'', ''a''), (''re'', ''nai'', ''ren'', ''ai''), (''re'', ''nan'', ''ren'', ''an''),
    (''san'', ''gou'', ''sang'', ''ou''), (''shan'', ''gan'', ''shang'', ''an''),
    (''she'', ''nai'', ''shen'', ''ai''), (''she'', ''nao'', ''shen'', ''ao''),
    (''wa'', ''nan'', ''wan'', ''an''), (''wa'', ''ne'', ''wan'', ''e''), (''wa'', ''nou'', ''wan'', ''ou''),
    (''wen'', ''gan'', ''weng'', ''an''), (''xi'', ''nai'', ''xin'', ''ai''),
    (''xi'', ''nan'', ''xin'', ''an''), (''xia'', ''nai'', ''xian'', ''ai''),
    (''xia'', ''nan'', ''xian'', ''an''), (''xia'', ''ne'', ''xian'', ''e''),
    (''xian'', ''gai'', ''xiang'', ''ai''), (''xian'', ''gan'', ''xiang'', ''an''),
    (''xian'', ''ge'', ''xiang'', ''e''), (''xin'', ''gai'', ''xing'', ''ai''),
    (''xin'', ''gan'', ''xing'', ''an''), (''ya'', ''nan'', ''yan'', ''an''),
    (''yi'', ''nan'', ''yin'', ''an''), (''yi'', ''ne'', ''yin'', ''e''),
    (''zhan'', ''gai'', ''zhang'', ''ai''), (''zhe'', ''nai'', ''zhen'', ''ai''),
    (''zhe'', ''nan'', ''zhen'', ''an''), (''zhen'', ''gan'', ''zheng'', ''an''),
    (''zhua'', ''nan'', ''zhuan'', ''an'')]"

definition DIVIDED_TABLE :: "(string \<times> string \<times> string) list" where
  "DIVIDED_TABLE = [
    (''bian'', ''bi'', ''an''), (''bie'', ''bi'', ''e''), (''dian'', ''di'', ''an''),
    (''jian'', ''ji'', ''an''), (''jiang'', ''ji'', ''ang''), (''jie'', ''ji'', ''e''),
    (''jue'', ''ju'', ''e''), (''kuai'', ''ku'', ''ai''), (''lian'', ''li'', ''an''),
    (''liang'', ''li'', ''ang''), (''liao'', ''li'', ''ao''), (''luan'', ''lu'', ''an''),
    (''qian'', ''qi'', ''an''), (''qie'', ''qi'', ''e''), (''shuan'', ''shu'', ''an''),
    (''tian'', ''ti'', ''an''), (''tuan'', ''tu'', ''an''), (''xian'', ''xi'', ''an''),
    (''yuan'', ''yu'', ''an''), (''zuan'', ''zu'', ''an'')]"

section \<open>The scan matrix\<close>

record scan_key =
  sk_key :: syllable_key
  sk_from :: nat
  sk_to :: nat
  sk_start :: nat
  sk_crosses :: bool
  sk_tone :: u8

type_synonym columns = "scan_key list list"

definition scan_key_from_edge :: "edge \<Rightarrow> scan_key" where
  "scan_key_from_edge e = \<lparr>sk_key = edge_key e, sk_from = from_node e, sk_to = to_node e,
     sk_start = syllable_start e, sk_crosses = crosses_separator e, sk_tone = edge_tone e\<rparr>"

text \<open>\<open>columns[i].push(key)\<close>, and a loop whose body may panic.\<close>

definition push_at :: "nat \<Rightarrow> scan_key \<Rightarrow> columns \<Rightarrow> columns option" where
  "push_at i key columns = (if i < length columns then Some (columns[i := columns ! i @ [key]]) else None)"

fun fold_opt :: "('a \<Rightarrow> 's \<Rightarrow> 's option) \<Rightarrow> 'a list \<Rightarrow> 's \<Rightarrow> 's option" where
  "fold_opt f [] s = Some s"
| "fold_opt f (x # xs) s = Option.bind (f x s) (fold_opt f xs)"

definition append_split :: "scan_key \<Rightarrow> nat \<Rightarrow> string \<Rightarrow> string \<Rightarrow> columns \<Rightarrow> columns option" where
  "append_split key e left right columns =
     (case (from_text left, from_text right) of
        (Some left_key, Some right_key) \<Rightarrow>
          (let split = sk_start key + length left in
           if length columns \<le> split then Some columns
           else Option.bind (push_at (sk_from key) (key\<lparr>sk_key := left_key, sk_to := split\<rparr>) columns)
             (push_at split \<lparr>sk_key = right_key, sk_from = split, sk_to = e, sk_start = split,
                sk_crosses = False, sk_tone = 0\<rparr>))
      | _ \<Rightarrow> Some columns)"

definition resplit_pair :: "scan_key \<Rightarrow> scan_key \<Rightarrow> columns \<Rightarrow> columns option" where
  "resplit_pair key next_key columns =
     (if sk_crosses next_key \<or> sk_tone key \<noteq> 0 \<or> sk_tone next_key \<noteq> 0 then Some columns
      else case List.find (\<lambda>(first, second, _, _). first = syllable_text (sk_key key) \<and> second = syllable_text (sk_key next_key)) RESPLIT_TABLE of
        None \<Rightarrow> Some columns
      | Some (_, _, left, right) \<Rightarrow> append_split key (sk_to next_key) left right columns)"

definition resplit_key :: "scan_key \<Rightarrow> columns \<Rightarrow> columns option" where
  "resplit_key key columns = (case get_at columns (sk_to key) of
     None \<Rightarrow> Some columns
   | Some next_keys \<Rightarrow> fold_opt (resplit_pair key) next_keys columns)"

definition resplit_step :: "columns \<Rightarrow> columns option" where
  "resplit_step columns =
     fold_opt (\<lambda>index columns. fold_opt resplit_key (columns ! index) columns) [0..<length columns - 1] columns"

definition divide_key :: "scan_key \<Rightarrow> columns \<Rightarrow> columns option" where
  "divide_key key columns =
     (if sk_tone key \<noteq> 0 then Some columns
      else case List.find (\<lambda>(syllable, _, _). syllable = syllable_text (sk_key key)) DIVIDED_TABLE of
        None \<Rightarrow> Some columns
      | Some (_, left, right) \<Rightarrow> append_split key (sk_to key) left right columns)"

definition inner_split_step :: "columns \<Rightarrow> columns option" where
  "inner_split_step columns =
     fold_opt (\<lambda>index columns. fold_opt divide_key (columns ! index) columns) [0..<length columns] columns"

definition fuzzy_additions :: "chewing_tables \<Rightarrow> columns \<Rightarrow> option_bits \<Rightarrow> scan_key list" where
  "fuzzy_additions tables columns opts =
     concat (map (\<lambda>(pos, keys). concat (map (\<lambda>key. map (\<lambda>alternate. key\<lparr>sk_key := alternate, sk_from := pos\<rparr>)
       (fuzzy_alternatives tables (sk_key key) opts)) keys)) (enumerate 0 columns))"

definition same_path :: "scan_key \<Rightarrow> scan_key \<Rightarrow> bool" where
  "same_path a b \<longleftrightarrow> sk_key a = sk_key b \<and> sk_to a = sk_to b \<and> sk_tone a = sk_tone b"

text \<open>\<open>keep_first_in_column\<close> compacts a column in place: entry \<open>index\<close> is swapped to the end of the kept part.\<close>

definition keep_index :: "nat \<Rightarrow> scan_key list \<times> nat \<Rightarrow> scan_key list \<times> nat" where
  "keep_index index s = (case s of (column, kept) \<Rightarrow>
     if list_ex (\<lambda>earlier. same_path earlier (column ! index)) (take kept column) then (column, kept)
     else (column[kept := column ! index, index := column ! kept], kept + 1))"

definition keep_first :: "scan_key list \<Rightarrow> scan_key list" where
  "keep_first column = (case fold keep_index [0..<length column] (column, 0) of (column, kept) \<Rightarrow> take kept column)"

definition keep_first_in_column :: "columns \<Rightarrow> columns" where
  "keep_first_in_column columns = map keep_first columns"

definition extend_matrix :: "chewing_tables \<Rightarrow> columns \<Rightarrow> option_bits \<Rightarrow> bool \<Rightarrow> columns option" where
  "extend_matrix tables columns opts divided =
     Option.bind (if divided \<and> has_resplit_table opts then resplit_step columns else Some columns) (\<lambda>columns.
     Option.bind (if divided \<and> has_divided_table opts then inner_split_step columns else Some columns) (\<lambda>columns.
     map_option keep_first_in_column
       (fold_opt (\<lambda>addition. push_at (sk_from addition) addition) (fuzzy_additions tables columns opts) columns)))"

definition build_scan_matrix_over :: "chewing_tables \<Rightarrow> segment_graph \<Rightarrow> edge list \<Rightarrow> option_bits \<Rightarrow> bool \<Rightarrow> columns option" where
  "build_scan_matrix_over tables g selected_edges opts divided =
     Option.bind (fold_opt (\<lambda>key. push_at (sk_from key) key) (map scan_key_from_edge selected_edges)
                    (replicate (graph_consumed g + 1) []))
       (\<lambda>columns. extend_matrix tables columns opts divided)"

text \<open>The outer \<open>None\<close> also covers a path search that does not return.\<close>

definition build_scan_matrix :: "chewing_tables \<Rightarrow> segment_graph \<Rightarrow> option_bits \<Rightarrow> bool \<Rightarrow> columns option" where
  "build_scan_matrix tables g opts divided =
     Option.bind (fewest_keys g (has_incomplete opts)) (\<lambda>selected_edges.
       build_scan_matrix_over tables g selected_edges opts divided)"

section \<open>The placed topology\<close>

record parsed_matrix =
  pm_columns :: columns
  pm_zeros :: "bool list"
  pm_bound :: nat

definition set_zeros :: "nat \<Rightarrow> nat \<Rightarrow> bool list \<Rightarrow> bool list" where
  "set_zeros a b zeros = fold (\<lambda>i zeros. zeros[i := True]) [a..<min b (length zeros)] zeros"

definition place_key :: "bool \<Rightarrow> nat option \<Rightarrow> nat \<Rightarrow> scan_key \<Rightarrow> columns \<times> bool list \<times> nat \<Rightarrow> columns \<times> bool list \<times> nat" where
  "place_key physical first bound key s = (case s of (columns, zeros, last_end) \<Rightarrow>
     let crossing = (physical \<and> sk_crosses key);
         zeros = (if crossing \<and> (case first of Some start \<Rightarrow> start \<le> sk_from key | None \<Rightarrow> False)
                  then set_zeros (sk_from key) (min (sk_start key) bound) zeros else zeros);
         from = (if crossing then sk_start key else sk_from key);
         raw = key\<lparr>sk_from := from, sk_crosses := False, sk_start := from\<rparr>;
         columns = (if from < length columns then columns[from := columns ! from @ [raw]] else columns)
     in (columns, zeros, max last_end (sk_to raw)))"

definition from_scan :: "columns \<Rightarrow> nat \<Rightarrow> bool \<Rightarrow> parsed_matrix" where
  "from_scan scan bound physical =
     (let keys = concat scan;
          first = (if keys = [] then None else Some (Min (sk_start ` set keys)));
          (columns, zeros, last_end) =
            fold (place_key physical first bound) keys (replicate (bound + 1) [], replicate (bound + 1) False, 0);
          zeros = (if physical then set_zeros last_end (bound + 1) zeros else zeros);
          zeros = (if first \<noteq> None then zeros[bound := True] else zeros)
      in \<lparr>pm_columns = columns, pm_zeros = zeros, pm_bound = bound\<rparr>)"

section \<open>Loops that may panic\<close>

lemma fold_opt_inv:
  assumes "P s" "\<And>x s. x \<in> set xs \<Longrightarrow> P s \<Longrightarrow> \<exists>s'. f x s = Some s' \<and> P s'"
  shows "\<exists>s'. fold_opt f xs s = Some s' \<and> P s'"
  using assms
proof (induction xs arbitrary: s)
  case (Cons x xs)
  then obtain s1 where "f x s = Some s1" "P s1" by force
  with Cons show ?case by auto
qed simp

section \<open>What the tables guarantee\<close>

text \<open>The only spellings the options accept that are shorter than the syllable they stand for: \<open>sua\<close> and
  \<open>zua\<close>, and a syllable in \<open>ong\<close> typed without its \<open>g\<close>. A resplit hands the shortness on to its right
  half.\<close>

definition may_be_short :: "string \<Rightarrow> bool" where
  "may_be_short t \<longleftrightarrow> t \<in> set [''shua'', ''zhua'', ''an'', ''ang''] \<or> ends_with t ''ong''"

lemma resplit_rows:
  assumes "(first, second, left, right) \<in> set RESPLIT_TABLE"
  shows "length left + length right = length first + length second" "left \<noteq> []" "right \<noteq> []" "second \<noteq> []"
    "\<not> may_be_short second" "may_be_short first \<Longrightarrow> may_be_short right \<and> 2 \<le> length right"
proof -
  have "list_all (\<lambda>(first, second, left, right).
      length left + length right = length first + length second \<and> left \<noteq> [] \<and> right \<noteq> [] \<and> second \<noteq> [] \<and>
      \<not> may_be_short second \<and> (may_be_short first \<longrightarrow> may_be_short right \<and> 2 \<le> length right)) RESPLIT_TABLE"
    by code_simp
  with assms show "length left + length right = length first + length second" "left \<noteq> []" "right \<noteq> []" "second \<noteq> []"
    "\<not> may_be_short second" "may_be_short first \<Longrightarrow> may_be_short right \<and> 2 \<le> length right"
    by (auto simp: list_all_iff)
qed

lemma divided_rows:
  assumes "(syllable, left, right) \<in> set DIVIDED_TABLE"
  shows "length left + length right = length syllable" "left \<noteq> []" "right \<noteq> []" "\<not> may_be_short syllable"
proof -
  have "list_all (\<lambda>(syllable, left, right). length left + length right = length syllable \<and> left \<noteq> [] \<and> right \<noteq> [] \<and>
      \<not> may_be_short syllable) DIVIDED_TABLE"
    by code_simp
  with assms show "length left + length right = length syllable" "left \<noteq> []" "right \<noteq> []" "\<not> may_be_short syllable"
    by (auto simp: list_all_iff)
qed

lemma find_member: "List.find P xs = Some x \<Longrightarrow> x \<in> set xs \<and> P x"
  by (auto simp: find_Some_iff)

lemma canonical_same: "canonical_complete_syllable t = Some s \<Longrightarrow> s = t"
  by (simp add: canonical_complete_syllable_eq)

lemma checked_canonical_short:
  assumes "checked_canonical t n suffix = Some s" "length suffix \<le> n"
  shows "length s \<le> length t"
  using assms by (auto simp: checked_canonical_def Let_def dest!: canonical_same split: if_splits)

lemma correction_length:
  assumes "correction_canonical t opts = Some s"
  shows "length s \<le> length t \<or> s = t @ ''g'' \<and> ends_with t ''on''"
proof (rule ccontr)
  assume no: "\<not> ?thesis"
  have c: "checked_canonical t n suffix \<noteq> Some s" if "length suffix \<le> n" for n suffix
    using no checked_canonical_short [OF _ that] by blast
  have v: "canonical_complete_syllable (t ! 0 # CHR ''u'' # drop 2 t) \<noteq> Some s" if "2 \<le> length t"
    using no that canonical_same [of "t ! 0 # CHR ''u'' # drop 2 t" s] by auto
  have o: "canonical_complete_syllable (t @ ''g'') \<noteq> Some s" if "ends_with t ''on''"
    using no that canonical_same by blast
  show False
    using assms c [of "''ng''" 2] c [of "''iu''" 3] c [of "''ui''" 3] c [of "''un''" 3] c [of "''ve''" 2] v o
    unfolding correction_canonical_def by (simp split: if_splits)
qed

lemma ends_with_ong: "ends_with t ''on'' \<Longrightarrow> ends_with (t @ ''g'') ''ong''"
  by (auto simp: ends_with_def Suc_diff_le)

text \<open>A spelling is at most one byte shorter than its syllable, and only where \<open>may_be_short\<close> says so.\<close>

lemma lookup_length:
  assumes "from_option_text_with_distance t opts = Some (k, d)"
  shows "length (syllable_text k) \<le> length t \<or> may_be_short (syllable_text k) \<and> length (syllable_text k) = length t + 1"
proof (cases "from_text t")
  case None
  then obtain s where s: "option_alias_canonical t opts = Some s" "from_canonical_text s = Some k"
    using assms by (auto simp: from_option_text_with_distance_def bind_eq_Some_conv)
  then have k: "syllable_text k = s" by (simp add: from_canonical_text_iff)
  from s(1) have "correction_canonical t opts = Some s \<or> ambiguity_canonical t opts = Some s"
    by (auto simp: option_alias_canonical_def split: if_splits option.splits)
  then have "length s \<le> length t \<or> may_be_short s \<and> length s = length t + 1"
  proof
    assume "correction_canonical t opts = Some s"
    from correction_length [OF this] show ?thesis
      using ends_with_ong by (auto simp: may_be_short_def)
  next
    assume "ambiguity_canonical t opts = Some s"
    then show ?thesis by (auto simp: ambiguity_canonical_def may_be_short_def split: if_splits)
  qed
  then show ?thesis using k by simp
next
  case (Some k')
  then have "from_text t = Some k" using assms by (simp add: from_option_text_with_distance_def)
  then show ?thesis by (simp add: from_text_iff)
qed

section \<open>The invariant of the passes\<close>

text \<open>A key of column \<open>i\<close>: it leaves \<open>i\<close>, its text begins past the apostrophes there, covers at least one byte
  and no apostrophe, and ends within the parsed length. A toneless key covers its syllable, up to the
  one missing byte of \<open>may_be_short\<close>.\<close>

definition scan_key_ok :: "bytes \<Rightarrow> nat \<Rightarrow> nat \<Rightarrow> scan_key \<Rightarrow> bool" where
  "scan_key_ok input bound i k \<longleftrightarrow>
     sk_from k = i \<and> key_begin input i = Some (sk_start k) \<and> sk_start k < sk_to k \<and> sk_to k \<le> bound \<and>
     (sk_crosses k \<longleftrightarrow> i < sk_start k) \<and> (\<forall>j. sk_start k \<le> j \<and> j < sk_to k \<longrightarrow> input ! j \<noteq> APOSTROPHE) \<and>
     (sk_tone k = 0 \<longrightarrow> sk_start k + length (syllable_text (sk_key k)) \<le> sk_to k + 1 \<and>
        (\<not> may_be_short (syllable_text (sk_key k)) \<longrightarrow> sk_start k + length (syllable_text (sk_key k)) \<le> sk_to k))"

text \<open>Where the keys of the matrix come from.\<close>

inductive scan_origin :: "edge list \<Rightarrow> scan_key \<Rightarrow> bool" for path where
  selected: "e \<in> set path \<Longrightarrow> scan_origin path (scan_key_from_edge e)"
| resplit_left: "scan_origin path k \<Longrightarrow> scan_origin path n \<Longrightarrow> sk_to k = sk_from n \<Longrightarrow> \<not> sk_crosses n \<Longrightarrow> sk_tone k = 0 \<Longrightarrow> sk_tone n = 0 \<Longrightarrow>
    (syllable_text (sk_key k), syllable_text (sk_key n), syllable_text left, right) \<in> set RESPLIT_TABLE \<Longrightarrow>
    scan_origin path (k\<lparr>sk_key := left, sk_to := sk_start k + length (syllable_text left)\<rparr>)"
| resplit_right: "scan_origin path k \<Longrightarrow> scan_origin path n \<Longrightarrow> sk_to k = sk_from n \<Longrightarrow> \<not> sk_crosses n \<Longrightarrow> sk_tone k = 0 \<Longrightarrow> sk_tone n = 0 \<Longrightarrow>
    (syllable_text (sk_key k), syllable_text (sk_key n), left, syllable_text right) \<in> set RESPLIT_TABLE \<Longrightarrow>
    scan_origin path \<lparr>sk_key = right, sk_from = sk_start k + length left, sk_to = sk_to n,
      sk_start = sk_start k + length left, sk_crosses = False, sk_tone = 0\<rparr>"
| divided_left: "scan_origin path k \<Longrightarrow> sk_tone k = 0 \<Longrightarrow> (syllable_text (sk_key k), syllable_text left, right) \<in> set DIVIDED_TABLE \<Longrightarrow>
    scan_origin path (k\<lparr>sk_key := left, sk_to := sk_start k + length (syllable_text left)\<rparr>)"
| divided_right: "scan_origin path k \<Longrightarrow> sk_tone k = 0 \<Longrightarrow> (syllable_text (sk_key k), left, syllable_text right) \<in> set DIVIDED_TABLE \<Longrightarrow>
    scan_origin path \<lparr>sk_key = right, sk_from = sk_start k + length left, sk_to = sk_to k,
      sk_start = sk_start k + length left, sk_crosses = False, sk_tone = 0\<rparr>"

definition scan_inv :: "bytes \<Rightarrow> nat \<Rightarrow> edge list \<Rightarrow> columns \<Rightarrow> bool" where
  "scan_inv input bound path columns \<longleftrightarrow> length columns = bound + 1 \<and>
     (\<forall>i < length columns. \<forall>k \<in> set (columns ! i). scan_key_ok input bound i k \<and> scan_origin path k)"

lemma scan_invD:
  assumes "scan_inv input bound path c" "k \<in> set (c ! i)" "i \<le> bound"
  shows "scan_key_ok input bound i k" "scan_origin path k" "sk_from k = i"
proof -
  have "i < length c" using assms by (simp add: scan_inv_def)
  then show "scan_key_ok input bound i k" "scan_origin path k" using assms unfolding scan_inv_def by blast+
  then show "sk_from k = i" by (simp add: scan_key_ok_def)
qed

definition extends :: "columns \<Rightarrow> columns \<Rightarrow> bool" where
  "extends base columns \<longleftrightarrow> (\<forall>j. \<exists>more. columns ! j = base ! j @ more)"

lemma extends_refl [simp]: "extends columns columns"
  by (simp add: extends_def)

lemma extends_trans: "extends a b \<Longrightarrow> extends b c \<Longrightarrow> extends a c"
  unfolding extends_def by (metis append.assoc)

lemma push_at_inv:
  assumes "scan_inv input bound path columns" "i \<le> bound" "scan_key_ok input bound i k" "scan_origin path k"
  shows "\<exists>columns'. push_at i k columns = Some columns' \<and> scan_inv input bound path columns' \<and>
    extends columns columns'"
proof -
  have "scan_inv input bound path (columns[i := columns ! i @ [k]])"
    using assms by (fastforce simp: scan_inv_def nth_list_update less_Suc_eq_le)
  moreover have "extends columns (columns[i := columns ! i @ [k]])"
    using assms by (auto simp: extends_def scan_inv_def nth_list_update)
  ultimately show ?thesis using assms by (auto simp: push_at_def scan_inv_def)
qed

text \<open>The halves of a key \<open>k\<close> split at \<open>split\<close>, where the text up to \<open>e\<close> has no apostrophe.\<close>

lemma append_split_inv:
  assumes inv: "scan_inv input bound path columns" and k: "scan_key_ok input bound (sk_from k) k" "sk_from k \<le> bound"
    and left: "left \<noteq> []" and right: "sk_start k + length left < e" "e \<le> bound"
      "e + (if may_be_short right then 1 else 0) \<ge> sk_start k + length left + length right"
    and free: "\<forall>j. sk_start k \<le> j \<and> j < e \<longrightarrow> input ! j \<noteq> APOSTROPHE" and len: "bound \<le> length input"
    and o1: "\<And>lk. syllable_text lk = left \<Longrightarrow> scan_origin path (k\<lparr>sk_key := lk, sk_to := sk_start k + length left\<rparr>)"
    and o2: "\<And>rk. syllable_text rk = right \<Longrightarrow> scan_origin path \<lparr>sk_key = rk, sk_from = sk_start k + length left,
      sk_to = e, sk_start = sk_start k + length left, sk_crosses = False, sk_tone = 0\<rparr>"
  shows "\<exists>columns'. append_split k e left right columns = Some columns' \<and> scan_inv input bound path columns' \<and>
    extends columns columns'"
proof (cases "from_text left = None \<or> from_text right = None")
  case True
  then show ?thesis using inv by (auto simp: append_split_def split: option.splits)
next
  case False
  then obtain lk rk where keys: "from_text left = Some lk" "from_text right = Some rk" by auto
  then have sp: "syllable_text lk = left" "syllable_text rk = right" by (simp_all add: from_text_iff)
  let ?split = "sk_start k + length left"
  let ?l = "k\<lparr>sk_key := lk, sk_to := ?split\<rparr>"
  let ?r = "\<lparr>sk_key = rk, sk_from = ?split, sk_to = e, sk_start = ?split, sk_crosses = False, sk_tone = 0\<rparr>"
  have "scan_key_ok input bound (sk_from k) ?l"
    using k(1) left right free sp by (auto simp: scan_key_ok_def)
  moreover have "key_begin input ?split = Some ?split"
    using right len free [rule_format, of ?split] run_stop_other [of ?split input] by (simp add: key_begin_def)
  then have "scan_key_ok input bound ?split ?r"
    using right free sp by (auto simp: scan_key_ok_def split: if_splits)
  moreover have "sk_from k \<le> bound" "?split \<le> bound" using k right by auto
  ultimately obtain c1 c2 where "push_at (sk_from k) ?l columns = Some c1" "push_at ?split ?r c1 = Some c2"
      "scan_inv input bound path c2" and grow: "extends columns c1" "extends c1 c2"
    using push_at_inv inv o1 [OF sp(1)] o2 [OF sp(2)] by blast
  moreover have "extends columns c2" using extends_trans [OF grow] .
  ultimately show ?thesis using keys inv right by (auto simp: append_split_def scan_inv_def)
qed

text \<open>One pass of loops over keys that keep the invariant.\<close>

lemma scan_loop:
  assumes "scan_inv input bound path columns"
    "\<And>x c. x \<in> set xs \<Longrightarrow> scan_inv input bound path c \<Longrightarrow> \<exists>c'. f x c = Some c' \<and> scan_inv input bound path c' \<and> extends c c'"
  shows "\<exists>c'. fold_opt f xs columns = Some c' \<and> scan_inv input bound path c' \<and> extends columns c'"
proof -
  have "\<exists>c'. f x c = Some c' \<and> scan_inv input bound path c' \<and> extends columns c'"
    if "x \<in> set xs" "scan_inv input bound path c \<and> extends columns c" for x c
    using assms(2) [OF that(1), of c] that(2) extends_trans by blast
  then show ?thesis
    using fold_opt_inv [of "\<lambda>c. scan_inv input bound path c \<and> extends columns c" columns xs f] assms(1) by simp
qed

lemma resplit_pair_inv:
  assumes inv: "scan_inv input bound path columns" and len: "bound \<le> length input"
    and k: "scan_key_ok input bound (sk_from k) k" "sk_from k \<le> bound" "scan_origin path k"
    and n: "scan_key_ok input bound (sk_to k) n" "scan_origin path n"
  shows "\<exists>c'. resplit_pair k n columns = Some c' \<and> scan_inv input bound path c' \<and> extends columns c'"
proof (cases "sk_crosses n \<or> sk_tone k \<noteq> 0 \<or> sk_tone n \<noteq> 0 \<or>
    List.find (\<lambda>(first, second, _, _). first = syllable_text (sk_key k) \<and> second = syllable_text (sk_key n)) RESPLIT_TABLE = None")
  case True
  then show ?thesis using inv by (auto simp: resplit_pair_def)
next
  case False
  then obtain first second left right where found: "List.find (\<lambda>(first, second, _, _). first = syllable_text (sk_key k) \<and>
      second = syllable_text (sk_key n)) RESPLIT_TABLE = Some (first, second, left, right)"
    by fastforce
  from find_member [OF this] have row: "(syllable_text (sk_key k), syllable_text (sk_key n), left, right) \<in> set RESPLIT_TABLE"
    by auto
  have pair: "resplit_pair k n columns = append_split k (sk_to n) left right columns"
    using False found by (simp add: resplit_pair_def)
  note r = resplit_rows [OF row]
  have n': "sk_from n = sk_to k" "sk_start n = sk_to k" and tones: "sk_tone k = 0" "sk_tone n = 0" "\<not> sk_crosses n"
    using n(1) False run_stop_bounds(1) [of "sk_to k" input]
    by (auto simp: scan_key_ok_def key_begin_def split: if_splits)
  have e: "sk_to k + length (syllable_text (sk_key n)) \<le> sk_to n" "sk_to n \<le> bound"
    using n(1) n' tones r(5) by (auto simp: scan_key_ok_def)
  have slack: "sk_start k + length (syllable_text (sk_key k)) \<le> sk_to k + (if may_be_short (syllable_text (sk_key k)) then 1 else 0)"
    using k(1) tones by (auto simp: scan_key_ok_def)
  have right: "1 \<le> length right" using r(3) by (cases right) auto
  show ?thesis
    unfolding pair
  proof (rule append_split_inv [OF inv k(1,2) r(2) _ e(2) _ _ len])
    show "sk_start k + length left < sk_to n" using slack e(1) r(1,6) right by (auto split: if_splits)
    show "sk_start k + length left + length right \<le> sk_to n + (if may_be_short right then 1 else 0)"
      using slack e(1) r(1,6) by (auto split: if_splits)
    show "\<forall>j. sk_start k \<le> j \<and> j < sk_to n \<longrightarrow> input ! j \<noteq> APOSTROPHE"
    proof (intro allI impI)
      fix j assume j: "sk_start k \<le> j \<and> j < sk_to n"
      show "input ! j \<noteq> APOSTROPHE"
      proof (cases "j < sk_to k")
        case True
        then show ?thesis using k(1) j by (simp add: scan_key_ok_def)
      next
        case False
        then show ?thesis using n(1) n' j by (simp add: scan_key_ok_def)
      qed
    qed
    show "scan_origin path (k\<lparr>sk_key := lk, sk_to := sk_start k + length left\<rparr>)" if "syllable_text lk = left" for lk
      using scan_origin.resplit_left [OF k(3) n(2), of lk right] row n' tones that by simp
    show "scan_origin path \<lparr>sk_key = rk, sk_from = sk_start k + length left, sk_to = sk_to n,
        sk_start = sk_start k + length left, sk_crosses = False, sk_tone = 0\<rparr>" if "syllable_text rk = right" for rk
      using scan_origin.resplit_right [OF k(3) n(2), of left rk] row n' tones that by simp
  qed
qed

lemma resplit_step_inv:
  assumes inv: "scan_inv input bound path columns" and len: "bound \<le> length input"
  shows "\<exists>c'. resplit_step columns = Some c' \<and> scan_inv input bound path c' \<and> extends columns c'"
  unfolding resplit_step_def
proof (rule scan_loop [OF inv])
  fix i c assume i: "i \<in> set [0..<length columns - 1]" and c: "scan_inv input bound path c"
  show "\<exists>c'. fold_opt resplit_key (c ! i) c = Some c' \<and> scan_inv input bound path c' \<and> extends c c'"
  proof (rule scan_loop [OF c])
    fix k d assume k: "k \<in> set (c ! i)" and d: "scan_inv input bound path d"
    have ki: "i \<le> bound" "scan_key_ok input bound i k" "scan_origin path k" "sk_from k = i"
      using i inv scan_invD [OF c k] by (auto simp: scan_inv_def)
    show "\<exists>c'. resplit_key k d = Some c' \<and> scan_inv input bound path c' \<and> extends d c'"
    proof (cases "get_at d (sk_to k)")
      case (Some nexts)
      then have "sk_to k < length d" "nexts = d ! sk_to k" by (auto simp: get_at_def split: if_splits)
      then have "\<forall>n \<in> set nexts. scan_key_ok input bound (sk_to k) n \<and> scan_origin path n" using d by (auto simp: scan_inv_def)
      then show ?thesis
        using Some ki resplit_pair_inv [OF _ len, of path _ k] by (auto simp: resplit_key_def intro!: scan_loop [OF d])
    qed (use d in \<open>simp add: resplit_key_def\<close>)
  qed
qed

lemma divide_key_inv:
  assumes inv: "scan_inv input bound path columns" and len: "bound \<le> length input"
    and k: "scan_key_ok input bound (sk_from k) k" "sk_from k \<le> bound" "scan_origin path k"
  shows "\<exists>c'. divide_key k columns = Some c' \<and> scan_inv input bound path c' \<and> extends columns c'"
proof (cases "sk_tone k \<noteq> 0 \<or> List.find (\<lambda>(syllable, _, _). syllable = syllable_text (sk_key k)) DIVIDED_TABLE = None")
  case True
  then show ?thesis using inv by (auto simp: divide_key_def)
next
  case False
  then obtain syllable left right where found: "List.find (\<lambda>(syllable, _, _). syllable = syllable_text (sk_key k)) DIVIDED_TABLE =
      Some (syllable, left, right)"
    by fastforce
  from find_member [OF this] have row: "(syllable_text (sk_key k), left, right) \<in> set DIVIDED_TABLE" by auto
  have pair: "divide_key k columns = append_split k (sk_to k) left right columns" and tone: "sk_tone k = 0"
    using False found by (simp_all add: divide_key_def)
  note r = divided_rows [OF row]
  have right: "1 \<le> length right" using r(3) by (cases right) auto
  have e: "sk_start k + length (syllable_text (sk_key k)) \<le> sk_to k" "sk_to k \<le> bound"
    using k(1) tone r(4) by (auto simp: scan_key_ok_def)
  show ?thesis
    unfolding pair
  proof (rule append_split_inv [OF inv k(1,2) r(2) _ e(2) _ _ len])
    show "\<forall>j. sk_start k \<le> j \<and> j < sk_to k \<longrightarrow> input ! j \<noteq> APOSTROPHE" using k(1) by (simp add: scan_key_ok_def)
    show "scan_origin path (k\<lparr>sk_key := lk, sk_to := sk_start k + length left\<rparr>)" if "syllable_text lk = left" for lk
      using scan_origin.divided_left [OF k(3) tone, of lk right] row that by simp
    show "scan_origin path \<lparr>sk_key = rk, sk_from = sk_start k + length left, sk_to = sk_to k,
        sk_start = sk_start k + length left, sk_crosses = False, sk_tone = 0\<rparr>" if "syllable_text rk = right" for rk
      using scan_origin.divided_right [OF k(3) tone, of left rk] row that by simp
  qed (use e(1) r(1) right in auto)
qed

lemma inner_split_step_inv:
  assumes inv: "scan_inv input bound path columns" and len: "bound \<le> length input"
  shows "\<exists>c'. inner_split_step columns = Some c' \<and> scan_inv input bound path c' \<and> extends columns c'"
  unfolding inner_split_step_def
proof (rule scan_loop [OF inv])
  fix i c assume i: "i \<in> set [0..<length columns]" and c: "scan_inv input bound path c"
  have "scan_key_ok input bound (sk_from k) k \<and> sk_from k \<le> bound \<and> scan_origin path k" if "k \<in> set (c ! i)" for k
    using i inv scan_invD [OF c that] by (auto simp: scan_inv_def)
  then show "\<exists>c'. fold_opt divide_key (c ! i) c = Some c' \<and> scan_inv input bound path c' \<and> extends c c'"
    using divide_key_inv [OF _ len] by (intro scan_loop [OF c]) blast
qed

section \<open>The collapse of identical paths\<close>

text \<open>The reference behaviour of \<open>keep_first_in_column\<close>: the first key of every class, in order.\<close>

definition first_of_each :: "scan_key list \<Rightarrow> scan_key list" where
  "first_of_each = (\<lambda>column. fold (\<lambda>k kept. if list_ex (\<lambda>earlier. same_path earlier k) kept then kept else kept @ [k]) column [])"

lemma first_of_each_snoc:
  "first_of_each (xs @ [x]) =
     (if list_ex (\<lambda>earlier. same_path earlier x) (first_of_each xs) then first_of_each xs else first_of_each xs @ [x])"
  by (simp add: first_of_each_def)

lemma same_path_equiv: "same_path a a" "same_path a b \<longleftrightarrow> same_path b a" "same_path a b \<Longrightarrow> same_path b c \<Longrightarrow> same_path a c"
  by (auto simp: same_path_def)

lemma first_of_each_props:
  "set (first_of_each xs) \<subseteq> set xs"
  "\<forall>x \<in> set xs. \<exists>y \<in> set (first_of_each xs). same_path y x"
  "sorted_wrt (\<lambda>a b. \<not> same_path a b) (first_of_each xs)"
  by (induction xs rule: rev_induct)
     (auto simp: first_of_each_snoc sorted_wrt_append list_ex_iff same_path_equiv(1), (simp add: first_of_each_def)+)

lemma first_of_each_hd: "first_of_each (x # xs) \<noteq> [] \<and> hd (first_of_each (x # xs)) = x"
proof (induction xs rule: rev_induct)
  case Nil
  show ?case by (simp add: first_of_each_def)
next
  case (snoc y ys)
  then show ?case using first_of_each_snoc [of "x # ys" y] by auto
qed

lemma keep_index_inv:
  assumes "length c = length column" "kept \<le> i" "i < length column" "take kept c = first_of_each (take i column)"
    "drop i c = drop i column" and step: "keep_index i (c, kept) = (c', kept')"
  shows "length c' = length column \<and> kept' \<le> Suc i \<and> take kept' c' = first_of_each (take (Suc i) column) \<and>
    drop (Suc i) c' = drop (Suc i) column"
proof -
  have x: "c ! i = column ! i" using assms(1,3,5) by (metis Cons_nth_drop_Suc list.inject)
  have next_drop: "drop (Suc i) c = drop (Suc i) column" using assms(5) by (metis drop_Suc tl_drop)
  have snoc: "take (Suc i) column = take i column @ [column ! i]" using assms(3) by (simp add: take_Suc_conv_app_nth)
  show ?thesis
  proof (cases "list_ex (\<lambda>earlier. same_path earlier (c ! i)) (take kept c)")
    case True
    then show ?thesis
      using step assms x next_drop by (auto simp: keep_index_def snoc first_of_each_snoc)
  next
    case False
    then have c': "c' = c[kept := c ! i, i := c ! kept]" "kept' = kept + 1" using step by (auto simp: keep_index_def)
    have "take (Suc kept) c' = take kept c @ [c ! i]"
    proof (cases "kept = i")
      case True
      then show ?thesis using c' assms by (simp add: take_Suc_conv_app_nth)
    next
      case ne: False
      then have "take (Suc kept) c' = take (Suc kept) (c[kept := c ! i])" using c' assms(2) by (simp add: take_update_swap list_update_beyond)
      also have "\<dots> = take kept c @ [c ! i]" using assms by (simp add: take_Suc_conv_app_nth)
      finally show ?thesis .
    qed
    then show ?thesis
      using False c' assms x next_drop by (simp add: snoc first_of_each_snoc)
  qed
qed

lemma keep_first_eq: "keep_first column = first_of_each column"
proof -
  have "case fold keep_index [0..<i] (column, 0) of (c, kept) \<Rightarrow>
      length c = length column \<and> kept \<le> i \<and> take kept c = first_of_each (take i column) \<and> drop i c = drop i column"
    if "i \<le> length column" for i
    using that
  proof (induction i)
    case (Suc i)
    obtain c kept where st: "fold keep_index [0..<i] (column, 0) = (c, kept)" by fastforce
    obtain c' kept' where st': "keep_index i (c, kept) = (c', kept')" by fastforce
    show ?case using keep_index_inv [OF _ _ _ _ _ st'] Suc st st' by simp
  qed (simp add: first_of_each_def)
  from this [of "length column"] show ?thesis
    by (auto simp: keep_first_def split: prod.splits)
qed

section \<open>The selected parse\<close>

text \<open>An edge of a built graph is a key the passes may start from, when the input holds no NUL byte: the
  segment is then lowercase letters and at most a tone digit.\<close>

lemma tone_split_segment:
  assumes "tone_split t use_tone force_tone = Some (core, tone)" "0 \<notin> set t"
  shows "list_all is_ascii_lowercase core" "t = core \<and> tone = 0 \<or> (\<exists>b. t = core @ [b] \<and> 0x31 \<le> b \<and> tone \<noteq> 0)"
proof -
  let ?cut = "\<lambda>c :: bytes. take (case position (\<lambda>b. b = 0) c of Some i \<Rightarrow> i | None \<Rightarrow> length c) c"
  let ?toned = "t \<noteq> [] \<and> 0x31 \<le> last t \<and> last t \<le> 0x35 \<and> use_tone"
  have cut: "?cut c = c" if "0 \<notin> set c" for c
  proof (cases "position (\<lambda>b. b = 0) c")
    case (Some i)
    then show ?thesis using that nth_mem [of i c] by (auto simp: position_iff)
  qed simp
  have core: "core = ?cut (if ?toned then butlast t else t)" "list_all is_ascii_lowercase core"
      "tone = (if ?toned then last t - 0x30 else 0)"
    using assms(1) by (auto simp: tone_split_def Let_def split: if_splits)
  show "list_all is_ascii_lowercase core" by (rule core(2))
  have plain: "core = (if ?toned then butlast t else t)"
  proof -
    have "0 \<notin> set (if ?toned then butlast t else t)" using assms(2) in_set_butlastD [of 0 t] by (cases ?toned) auto
    from core(1) [unfolded cut [OF this]] show ?thesis .
  qed
  have "last t - 0x30 \<noteq> 0" if "0x31 \<le> last t" using that by auto
  then show "t = core \<and> tone = 0 \<or> (\<exists>b. t = core @ [b] \<and> 0x31 \<le> b \<and> tone \<noteq> 0)"
    using plain core(3) append_butlast_last_id [of t] by (cases ?toned) (auto simp del: append_butlast_last_id intro!: exI [of _ "last t"])
qed

lemma edge_scan_ok:
  assumes g: "build_with_options input opts = Inr g" and nul: "0 \<notin> set input"
    and e: "e \<in> set (outgoing g n)" "to_node e \<le> bound"
  shows "scan_key_ok input bound n (scan_key_from_edge e)"
proof -
  note len = build_shape(1) [OF g]
  from e(1) obtain s l k t d where s: "key_begin input n = Some s" and p: "parses_at input opts s l k t d"
    and edge: "e = match_edge input opts n s l k t d"
    using node_edges_iff [OF len] by (auto simp: build_outgoing [OF g])
  let ?seg = "take l (drop s input)"
  have b: "n \<le> s" "s < length input" using key_begin_bounds [OF s] by auto
  have l: "1 \<le> l" "s + l \<le> length input" using p by (auto simp: parses_at_def)
  obtain core where core: "tone_split ?seg (contains opts USE_TONE) (contains opts USE_TONE \<and> contains opts FORCE_TONE) = Some (core, t)"
      "key_for_spelling core opts = Some (k, d)"
    using p by (auto simp: parses_at_def)
  have "0 \<notin> set ?seg" using nul by (meson in_set_dropD in_set_takeD)
  note seg = tone_split_segment [OF core(1) this]
  have letters: "b \<noteq> APOSTROPHE" if "b \<in> set core" for b
    using seg(1) that by (auto simp: list_all_iff is_ascii_lowercase_def APOSTROPHE_def)
  have "APOSTROPHE \<notin> set ?seg"
    using seg(2) letters [of APOSTROPHE] by (auto simp: APOSTROPHE_def)
  then have free: "input ! j \<noteq> APOSTROPHE" if "s \<le> j" "j < s + l" for j
  proof -
    have "j - s < length ?seg" "?seg ! (j - s) = input ! j" using that l by auto
    with \<open>APOSTROPHE \<notin> set ?seg\<close> show ?thesis by (metis nth_mem)
  qed
  have "from_option_text_with_distance (map byte_char core) opts = Some (k, d)"
    using core(2) by (auto simp: key_for_spelling_def split: if_splits)
  note fits = lookup_length [OF this]
  have toneless: "length core = l" if "t = 0" using seg(2) that l by (auto dest: arg_cong [of _ _ length])
  have nodes: "from_node e = n" "to_node e = s + l" "syllable_start e = s" "edge_key e = k" "edge_tone e = t"
    "crosses_separator e \<longleftrightarrow> n < s"
    using edge b l len unat_position [of n] unat_position [of s] unat_position [of "s + l"]
    by (auto simp: match_edge_def from_node_def to_node_def syllable_start_def crosses_separator_def word_less_nat_alt)
  show ?thesis
    unfolding scan_key_ok_def using s nodes e(2) l free fits toneless by (auto simp: scan_key_from_edge_def)
qed

lemma selected_columns:
  assumes "\<forall>k \<in> set keys. sk_from k < length columns"
  shows "fold_opt (\<lambda>key. push_at (sk_from key) key) keys columns =
    Some (map (\<lambda>i. columns ! i @ filter (\<lambda>k. sk_from k = i) keys) [0..<length columns])"
  using assms
proof (induction keys arbitrary: columns)
  case Nil
  then show ?case by (simp add: map_nth)
next
  case (Cons k keys)
  let ?c = "columns[sk_from k := columns ! sk_from k @ [k]]"
  have "push_at (sk_from k) k columns = Some ?c" using Cons.prems by (simp add: push_at_def)
  then show ?case using Cons.IH [of ?c] Cons.prems by (auto simp: nth_list_update intro!: map_cong)
qed

lemma consumed_bound:
  assumes g: "build_with_options input opts = Inr g"
  shows "graph_consumed g \<le> length input"
  using node_edges_forward [OF build_shape(1) [OF g]]
  by (intro reached_bound [OF build_reached(2) [OF g]]) (auto simp: build_outgoing [OF g])

lemma path_edges:
  assumes g: "build_with_options input opts = Inr g"
  shows "edge_path g al m es n \<Longrightarrow> n \<le> graph_consumed g \<Longrightarrow>
    (\<forall>e \<in> set es. e \<in> set (outgoing g (from_node e)) \<and> m \<le> from_node e \<and> to_node e \<le> graph_consumed g) \<and>
    sorted_wrt (\<lambda>a b. from_node a < from_node b) es"
proof (induction es arbitrary: m)
  case (Cons e es)
  have e: "from_node e = m" "m < to_node e" using Cons.prems(1) parsed.built_forward [of g e m] g by auto
  have "\<exists>input opts. build_with_options input opts = Inr g" using g by blast
  from parsed.path_measures [OF this, of al "to_node e" es n] have "to_node e \<le> n" using Cons.prems(1) by simp
  then show ?case using Cons.IH [of "to_node e"] Cons.prems e by fastforce
qed simp

lemma run_stop_mono: "i \<le> j \<Longrightarrow> run_stop input i \<le> run_stop input j"
proof (rule lift_Suc_mono_le [of "run_stop input"])
  fix n
  show "run_stop input n \<le> run_stop input (Suc n)"
    using run_stop_apostrophe [of n input] run_stop_other [of n input] run_stop_past [of input] run_stop_bounds(1) [of "Suc n" input]
    by (cases "n < length input") fastforce+
qed

lemma fuzzy_pushes:
  assumes "length columns = bound + 1" "\<forall>i < length columns. \<forall>k \<in> set (columns ! i). sk_from k = i"
  shows "fold_opt (\<lambda>addition. push_at (sk_from addition) addition) (fuzzy_additions tables columns opts) columns =
    Some (map (\<lambda>i. columns ! i @ concat (map (\<lambda>k. map (\<lambda>a. k\<lparr>sk_key := a\<rparr>) (fuzzy_alternatives tables (sk_key k) opts)) (columns ! i)))
      [0..<length columns])"
proof -
  let ?f = "\<lambda>k. map (\<lambda>a. k\<lparr>sk_key := a\<rparr>) (fuzzy_alternatives tables (sk_key k) opts)"
  have adds: "fuzzy_additions tables columns opts = concat (map (\<lambda>i. concat (map ?f (columns ! i))) [0..<length columns])"
  proof -
    have "concat (map (\<lambda>key. map (\<lambda>alternate. key\<lparr>sk_key := alternate, sk_from := i\<rparr>) (fuzzy_alternatives tables (sk_key key) opts)) (columns ! i)) =
        concat (map ?f (columns ! i))" if "i < length columns" for i
    proof -
      have "k\<lparr>sk_key := a, sk_from := i\<rparr> = k\<lparr>sk_key := a\<rparr>" if "k \<in> set (columns ! i)" for k a
      proof -
        have "sk_from k = i" using assms(2) \<open>i < length columns\<close> that by blast
        then show ?thesis by (cases k) simp
      qed
      then show ?thesis by (auto intro!: arg_cong [of _ _ concat] map_cong)
    qed
    then show ?thesis
      by (auto simp: fuzzy_additions_def enumerate_eq_zip zip_map1 [symmetric] map_nth [symmetric] intro!: arg_cong [of _ _ concat] nth_equalityI)
  qed
  have from_add: "sk_from k = i" if "k \<in> set (concat (map ?f (columns ! i)))" "i < length columns" for k i
    using that assms(2) by auto
  have "filter (\<lambda>k. sk_from k = i) (concat (map (\<lambda>i. concat (map ?f (columns ! i))) [0..<n])) =
      (if i < n then concat (map ?f (columns ! i)) else [])" if "n \<le> length columns" for i n
    using that
  proof (induction n)
    case (Suc n)
    have "filter (\<lambda>k. sk_from k = i) (concat (map ?f (columns ! n))) = (if i = n then concat (map ?f (columns ! n)) else [])"
    proof (cases "i = n")
      case True
      then show ?thesis using from_add [of _ n] Suc.prems by (simp add: filter_True del: set_concat)
    next
      case False
      then show ?thesis using from_add [of _ n] Suc.prems by (simp add: filter_empty_conv del: set_concat)
    qed
    then show ?case using Suc by (auto simp: less_Suc_eq)
  qed simp
  moreover have "\<forall>k \<in> set (fuzzy_additions tables columns opts). sk_from k < length columns"
    using assms(2) by (auto simp: adds)
  ultimately show ?thesis using selected_columns [of _ columns] by (auto simp: adds intro!: map_cong)
qed

text \<open>What a finished matrix promises its readers.\<close>

definition scan_entry :: "chewing_tables \<Rightarrow> bytes \<Rightarrow> option_bits \<Rightarrow> nat \<Rightarrow> edge list \<Rightarrow> nat \<Rightarrow> scan_key \<Rightarrow> bool" where
  "scan_entry tables input opts bound path i k \<longleftrightarrow>
     sk_from k = i \<and> key_begin input i = Some (sk_start k) \<and> sk_start k < sk_to k \<and> sk_to k \<le> bound \<and>
     (sk_crosses k \<longleftrightarrow> i < sk_start k) \<and>
     (\<exists>k'. scan_origin path k' \<and>
        (k = k' \<or> (\<exists>a \<in> set (fuzzy_alternatives tables (sk_key k') opts). k = k'\<lparr>sk_key := a\<rparr>)))"

lemma scan_key_entry:
  assumes "scan_key_ok input bound i k" "scan_origin path k"
  shows "scan_entry tables input opts bound path i k"
    "a \<in> set (fuzzy_alternatives tables (sk_key k) opts) \<Longrightarrow> scan_entry tables input opts bound path i (k\<lparr>sk_key := a\<rparr>)"
  using assms by (auto simp: scan_entry_def scan_key_ok_def)

lemma extend_matrix_entries:
  assumes inv: "scan_inv input bound path columns" and len: "bound \<le> length input"
  shows "\<exists>result. extend_matrix tables columns opts divided = Some result \<and> length result = bound + 1 \<and>
    (\<forall>i < length result. (\<forall>k \<in> set (result ! i). scan_entry tables input opts bound path i k) \<and>
       sorted_wrt (\<lambda>a b. \<not> same_path a b) (result ! i) \<and>
       (columns ! i \<noteq> [] \<longrightarrow> result ! i \<noteq> [] \<and> hd (result ! i) = hd (columns ! i)))"
proof -
  obtain c1 where c1: "(if divided \<and> has_resplit_table opts then resplit_step columns else Some columns) = Some c1"
      "scan_inv input bound path c1" "extends columns c1"
    using resplit_step_inv [OF inv len] inv by (cases "divided \<and> has_resplit_table opts") auto
  obtain c2 where c2: "(if divided \<and> has_divided_table opts then inner_split_step c1 else Some c1) = Some c2"
      "scan_inv input bound path c2" "extends c1 c2"
    using inner_split_step_inv [OF c1(2) len] c1(2) by (cases "divided \<and> has_divided_table opts") auto
  have grow: "extends columns c2" using extends_trans c1(3) c2(3) .
  let ?f = "\<lambda>k. map (\<lambda>a. k\<lparr>sk_key := a\<rparr>) (fuzzy_alternatives tables (sk_key k) opts)"
  let ?full = "\<lambda>i. c2 ! i @ concat (map ?f (c2 ! i))"
  have c2len: "length c2 = bound + 1" using c2(2) by (simp add: scan_inv_def)
  have "\<forall>i < length c2. \<forall>k \<in> set (c2 ! i). sk_from k = i" using scan_invD(3) [OF c2(2)] c2len by simp
  note pushes = fuzzy_pushes [OF c2len this, of tables opts]
  have entries: "scan_entry tables input opts bound path i k" if "i < length c2" "k \<in> set (?full i)" for i k
    using that scan_invD [OF c2(2)] c2len scan_key_entry by auto
  have "extend_matrix tables columns opts divided = Some (map (\<lambda>i. first_of_each (?full i)) [0..<length c2])"
    using c1(1) c2(1) pushes by (simp add: extend_matrix_def keep_first_in_column_def keep_first_eq comp_def)
  moreover have "first_of_each (?full i) \<noteq> [] \<and> hd (first_of_each (?full i)) = hd (columns ! i)" if ne: "columns ! i \<noteq> []" for i
  proof -
    obtain more where "c2 ! i = columns ! i @ more" using grow by (auto simp: extends_def)
    then obtain rest where "?full i = hd (columns ! i) # rest" using ne by (cases "columns ! i") auto
    then show ?thesis using first_of_each_hd by simp
  qed
  moreover have "scan_entry tables input opts bound path i k" if "i < length c2" "k \<in> set (first_of_each (?full i))" for i k
    using entries [OF that(1)] that(2) first_of_each_props(1) by blast
  ultimately show ?thesis
    using c2len first_of_each_props(3) by (simp del: upt_Suc)
qed

lemma columns_in_order:
  assumes "\<forall>i < length columns. \<forall>k \<in> set (columns ! i). key_begin input i = Some (sk_start k)"
  shows "sorted (map sk_start (concat columns))"
proof -
  have start: "sk_start k = run_stop input i" if "i < length columns" "k \<in> set (columns ! i)" for i k
    using assms that by (fastforce simp: key_begin_def split: if_splits)
  have "sorted (map sk_start (concat (take n columns))) \<and>
      (\<forall>k \<in> set (concat (take n columns)). \<exists>i < n. sk_start k = run_stop input i)" if "n \<le> length columns" for n
    using that
  proof (induction n)
    case (Suc n)
    have last: "sk_start k = run_stop input n" if "k \<in> set (columns ! n)" for k using start [of n k] Suc.prems that by simp
    then have "map sk_start (columns ! n) = replicate (length (columns ! n)) (run_stop input n)"
      by (simp add: map_replicate_const [symmetric])
    moreover have "sk_start k \<le> run_stop input n" if "k \<in> set (concat (take n columns))" for k
      using Suc that run_stop_mono by fastforce
    ultimately show ?case
      using Suc last by (auto simp: take_Suc_conv_app_nth sorted_append less_Suc_eq) blast
  qed simp
  from this [of "length columns"] show ?thesis by simp
qed

lemma scan_matrix_facts:
  assumes g: "build_with_options input opts = Inr g" and nul: "0 \<notin> set input"
  shows "\<exists>path columns. fewest_keys g (has_incomplete opts) = Some path \<and>
    build_scan_matrix tables g opts divided = Some columns \<and> length columns = graph_consumed g + 1 \<and>
    (\<forall>i < length columns. (\<forall>k \<in> set (columns ! i). scan_entry tables input opts (graph_consumed g) path i k) \<and>
       sorted_wrt (\<lambda>a b. \<not> same_path a b) (columns ! i)) \<and>
    (\<forall>e \<in> set path. columns ! from_node e \<noteq> [] \<and> hd (columns ! from_node e) = scan_key_from_edge e) \<and>
    sorted (map sk_start (concat columns))"
proof -
  let ?bound = "graph_consumed g"
  obtain path n where path: "fewest_keys g (has_incomplete opts) = Some path" "edge_path g (has_incomplete opts) 0 path n" "n \<le> ?bound"
    using parsed.fewest_keys_optimal [of g "has_incomplete opts"] parsed.path_from_start [of g "has_incomplete opts"] g by blast
  note edges = path_edges [OF g path(2,3)]
  let ?keys = "map scan_key_from_edge path"
  let ?start = "map (\<lambda>i. filter (\<lambda>k. sk_from k = i) ?keys) [0..<?bound + 1]"
  have from_key: "sk_from (scan_key_from_edge e) = from_node e" for e by (simp add: scan_key_from_edge_def)
  have low: "from_node e < ?bound" if "e \<in> set path" for e
    using edges that parsed.built_forward [of g e "from_node e"] g by fastforce
  have placed: "fold_opt (\<lambda>key. push_at (sk_from key) key) ?keys (replicate (?bound + 1) []) = Some ?start"
    using selected_columns [of ?keys "replicate (?bound + 1) []"] low
    by (simp add: from_key less_Suc_eq del: replicate_Suc upt_Suc cong: map_cong)
  have len: "?bound \<le> length input" using consumed_bound [OF g] .
  have "scan_inv input ?bound path ?start"
    using edge_scan_ok [OF g nul] edges scan_origin.selected [of _ path]
    by (auto simp: scan_inv_def from_key simp del: upt_Suc)
  from extend_matrix_entries [OF this len, of tables opts divided] obtain result where
    r: "extend_matrix tables ?start opts divided = Some result" "length result = ?bound + 1"
      "\<forall>i < length result. (\<forall>k \<in> set (result ! i). scan_entry tables input opts ?bound path i k) \<and>
         sorted_wrt (\<lambda>a b. \<not> same_path a b) (result ! i) \<and>
         (?start ! i \<noteq> [] \<longrightarrow> result ! i \<noteq> [] \<and> hd (result ! i) = hd (?start ! i))"
    by blast
  have first: "filter (\<lambda>k. sk_from k = from_node e) ?keys = [scan_key_from_edge e]" if "e \<in> set path" for e
  proof -
    obtain pre post where split: "path = pre @ e # post" using \<open>e \<in> set path\<close> by (meson split_list)
    then have "\<forall>x \<in> set pre \<union> set post. from_node x \<noteq> from_node e" using edges by (auto simp: sorted_wrt_append)
    then show ?thesis by (auto simp: split from_key filter_empty_conv)
  qed
  have "build_scan_matrix tables g opts divided = Some result"
    using path(1) placed r(1) by (simp add: build_scan_matrix_def build_scan_matrix_over_def del: upt_Suc replicate_Suc)
  moreover have "result ! from_node e \<noteq> [] \<and> hd (result ! from_node e) = scan_key_from_edge e" if "e \<in> set path" for e
    using r(2,3) low [OF that] first [OF that] by (auto simp: less_Suc_eq simp del: upt_Suc)
  moreover have "sorted (map sk_start (concat result))"
    using r(3) by (intro columns_in_order) (auto simp: scan_entry_def)
  ultimately show ?thesis using path(1) r by blast
qed

section \<open>What the placed topology holds\<close>

definition placed_at :: "bool \<Rightarrow> scan_key \<Rightarrow> nat" where
  "placed_at physical key = (if physical \<and> sk_crosses key then sk_start key else sk_from key)"

definition raw_key :: "bool \<Rightarrow> scan_key \<Rightarrow> scan_key" where
  "raw_key physical key = key\<lparr>sk_from := placed_at physical key, sk_crosses := False, sk_start := placed_at physical key\<rparr>"

lemma set_zeros_nth:
  "length (set_zeros a b zeros) = length zeros \<and>
   (\<forall>i < length zeros. set_zeros a b zeros ! i \<longleftrightarrow> zeros ! i \<or> a \<le> i \<and> i < b)"
proof -
  have "length (fold (\<lambda>i zeros. zeros[i := True]) ps zs) = length zs \<and>
      (\<forall>i < length zs. fold (\<lambda>i zeros. zeros[i := True]) ps zs ! i \<longleftrightarrow> zs ! i \<or> i \<in> set ps)" for ps and zs :: "bool list"
    by (induction ps arbitrary: zs) (auto, (metis nth_list_update_eq nth_list_update_neq)+)
  from this [of "[a..<min b (length zeros)]" zeros] show ?thesis by (auto simp: set_zeros_def)
qed

lemma place_keys:
  assumes "fold (place_key physical first bound) keys (columns, zeros, last_end) = (columns', zeros', last_end')"
  shows "length columns' = length columns \<and> length zeros' = length zeros \<and>
    (\<forall>p < length columns. columns' ! p = columns ! p @ map (raw_key physical) (filter (\<lambda>k. placed_at physical k = p) keys)) \<and>
    (\<forall>p < length zeros. zeros' ! p \<longleftrightarrow> zeros ! p \<or>
       (\<exists>k \<in> set keys. physical \<and> sk_crosses k \<and> (\<exists>start. first = Some start \<and> start \<le> sk_from k) \<and>
          sk_from k \<le> p \<and> p < min (sk_start k) bound)) \<and>
    last_end' = fold max (map sk_to keys) last_end"
  using assms
proof (induction keys arbitrary: columns zeros last_end)
  case (Cons k keys)
  let ?zeros = "if physical \<and> sk_crosses k \<and> (\<exists>start. first = Some start \<and> start \<le> sk_from k)
      then set_zeros (sk_from k) (min (sk_start k) bound) zeros else zeros"
  let ?columns = "if placed_at physical k < length columns
      then columns[placed_at physical k := columns ! placed_at physical k @ [raw_key physical k]] else columns"
  have step: "place_key physical first bound k (columns, zeros, last_end) = (?columns, ?zeros, max (sk_to k) last_end)"
    by (auto simp: place_key_def placed_at_def raw_key_def Let_def max.commute split: option.splits)
  have "length ?zeros = length zeros" "length ?columns = length columns" using set_zeros_nth by simp_all
  moreover have "?zeros ! p \<longleftrightarrow> zeros ! p \<or> (physical \<and> sk_crosses k \<and> (\<exists>start. first = Some start \<and> start \<le> sk_from k) \<and>
      sk_from k \<le> p \<and> p < min (sk_start k) bound)" if "p < length zeros" for p
    using set_zeros_nth [of "sk_from k" "min (sk_start k) bound" zeros] that by auto
  moreover have "?columns ! p = columns ! p @ (if placed_at physical k = p then [raw_key physical k] else [])" if "p < length columns" for p
    using that by (auto simp: nth_list_update)
  moreover have "fold (place_key physical first bound) keys (?columns, ?zeros, max (sk_to k) last_end) = (columns', zeros', last_end')"
    using Cons.prems unfolding fold_simps step .
  note IH = Cons.IH [OF this]
  ultimately show ?case using IH
    by (auto simp del: if_split)
qed simp

lemma fold_max_le: "fold max xs a \<le> (p :: nat) \<longleftrightarrow> a \<le> p \<and> (\<forall>x \<in> set xs. x \<le> p)"
  by (induction xs arbitrary: a) auto

text \<open>The topology \<open>from_scan\<close> places, over any scan columns: a key that rides over apostrophes sits at its own
  text, and the columns it rode over hold a separator unless no key begins before them; the columns
  past the last key end hold one too, and so does the reserved last column.\<close>

theorem from_scan_spec:
  assumes "keys = concat scan" "m = from_scan scan bound physical" "p \<le> bound"
  shows "length (pm_columns m) = bound + 1 \<and> length (pm_zeros m) = bound + 1 \<and>
    pm_columns m ! p = map (raw_key physical) (filter (\<lambda>k. placed_at physical k = p) keys) \<and>
    (pm_zeros m ! p \<longleftrightarrow>
       physical \<and> (\<exists>k \<in> set keys. sk_crosses k \<and> (\<exists>k' \<in> set keys. sk_start k' \<le> sk_from k) \<and> sk_from k \<le> p \<and> p < sk_start k) \<or>
       physical \<and> (\<forall>k \<in> set keys. sk_to k \<le> p) \<or> p = bound \<and> keys \<noteq> [])"
proof -
  let ?first = "if keys = [] then None else Some (Min (sk_start ` set keys))"
  obtain columns zeros last_end where f: "fold (place_key physical ?first bound) keys
      (replicate (bound + 1) [], replicate (bound + 1) False, 0) = (columns, zeros, last_end)"
    using prod_cases3 by blast
  note placed = place_keys [OF f]
  have first: "(\<exists>start. ?first = Some start \<and> start \<le> x) \<longleftrightarrow> (\<exists>k \<in> set keys. sk_start k \<le> x)" for x
    by (cases keys) (auto simp: Min_le_iff)
  have m: "m = \<lparr>pm_columns = columns,
      pm_zeros = (let z = if physical then set_zeros last_end (bound + 1) zeros else zeros in if keys \<noteq> [] then z[bound := True] else z),
      pm_bound = bound\<rparr>"
    unfolding assms(2) from_scan_def Let_def assms(1) [symmetric] f prod.case by simp
  have len: "length columns = bound + 1" "length zeros = bound + 1" using placed by simp_all
  have z: "zeros ! p \<longleftrightarrow> (\<exists>k \<in> set keys. physical \<and> sk_crosses k \<and> (\<exists>k' \<in> set keys. sk_start k' \<le> sk_from k) \<and>
      sk_from k \<le> p \<and> p < min (sk_start k) bound)"
    using placed assms(3) unfolding first by (simp add: less_Suc_eq_le del: replicate_Suc)
  have le: "last_end \<le> p \<longleftrightarrow> (\<forall>k \<in> set keys. sk_to k \<le> p)" using placed by (simp add: fold_max_le)
  have "pm_columns m ! p = map (raw_key physical) (filter (\<lambda>k. placed_at physical k = p) keys)"
    using placed assms(3) by (simp add: m less_Suc_eq_le del: replicate_Suc)
  moreover have "length (pm_columns m) = bound + 1" "length (pm_zeros m) = bound + 1"
    using len set_zeros_nth by (simp_all add: m Let_def)
  moreover have "pm_zeros m ! p \<longleftrightarrow> zeros ! p \<or> physical \<and> last_end \<le> p \<or> p = bound \<and> keys \<noteq> []"
    using set_zeros_nth [of last_end "bound + 1" zeros] len assms(3)
    by (cases "p = bound") (auto simp: m Let_def less_Suc_eq_le nth_list_update)
  ultimately show ?thesis unfolding z le using assms(3) by (cases "p = bound") auto
qed


section \<open>Properties\<close>

text \<open>C15: the scan matrix of a parsed input without NUL bytes. The passes never index past the columns. Column
  \<open>i\<close> holds keys that leave byte \<open>i\<close>: each begins past the apostrophes there, covers at least one byte and
  ends within the parsed length, and is a key of the selected parse, a half that a row of the resplit
  or divided table makes of such keys, or a fuzzy alternate of one of these. No column holds two keys
  with the same syllable, end and tone; every key of the selected parse is the first of its column;
  and listed column by column the keys are already in the order of their starts.\<close>

theorem scan_matrix_spec:
  assumes g: "build_with_options input opts = Inr g" and nul: "0 \<notin> set input"
  shows "\<exists>path columns. fewest_keys g (has_incomplete opts) = Some path \<and>
    build_scan_matrix tables g opts divided = Some columns \<and> length columns = graph_consumed g + 1 \<and>
    (\<forall>i < length columns. (\<forall>k \<in> set (columns ! i). scan_entry tables input opts (graph_consumed g) path i k) \<and>
       sorted_wrt (\<lambda>a b. \<not> same_path a b) (columns ! i)) \<and>
    (\<forall>e \<in> set path. columns ! from_node e \<noteq> [] \<and> hd (columns ! from_node e) = scan_key_from_edge e) \<and>
    sorted (map sk_start (concat columns))"
  using scan_matrix_facts [OF assms] .

theorem scan_matrix_spec_witness:
  "\<exists>g columns. build_with_options [0x78, 0x69, 0x61, 0x6e] 0 = Inr g \<and>
     build_scan_matrix \<lparr>ct_index = [], ct_field = (\<lambda>_ _. None), ct_content = [], ct_keys = []\<rparr> g 0 True = Some columns \<and>
     length columns = graph_consumed g + 1"
proof -
  obtain g where g: "build_with_options [0x78, 0x69, 0x61, 0x6e] 0 = Inr g"
    using build_ok [of "[0x78, 0x69, 0x61, 0x6e]" 0] by (auto simp: MAX_GRAPH_POSITION_def)
  show ?thesis
    using scan_matrix_spec [OF g, of "\<lparr>ct_index = [], ct_field = (\<lambda>_ _. None), ct_content = [], ct_keys = []\<rparr>" True] g by auto
qed

end
