(* ===== verification/Cursor.thy ===== *)
theory Cursor
  imports ScanMatrix Scoring
begin

text \<open>
  \<open>crates/oxpinyin-engine/src/cursor.rs\<close>: normalizing a cursor to a lookup offset and the word moves to the
  left and right, over the columns that the keys of a parse and its separators make of the raw buffer.
  The model keeps the code's column view, two binary searches over the ordered starts; below, the three
  laws are stated over the keys that start at a position.
\<close>

section \<open>Keys and spans\<close>

text \<open>The error type of the engine.\<close>

datatype training_span_fault = PastMatrixEnd | EmptyStartColumn | EndEmptyColumn

datatype engine_error =
    CandidateIndexOutOfRange nat nat
  | LookupOffsetPastSeparator nat nat
  | LookupOffsetOutOfRange nat nat
  | LookupOffsetInsideCharacter nat nat
  | SelectionAnchorBeforeComposition nat nat
  | ZeroKeyOffsetCheck nat
  | MatrixColumnAssert nat
  | StaleTrainingConstraint nat
  | UnsafeTrainingPredecessor u32
  | ShortTrainingPredecessor u32
  | ShortLookupPredecessor u32
  | UnsafeLookupPredecessor u32
  | ReadAfterCheck u32
  | TrainingSetFreqMiss u32
  | FailedUserBigramStore u32
  | StaleTrainingSpan nat training_span_fault
  | OverlongUserIndexKey nat
  | TonedIncompleteKey
  | ReduceTokensCount nat
  | UserModel string
  | Graph graph_error
  | Decode decode_error
  | Scoring scoring_error

record matrix_key =
  mk_key :: chewing_key
  mk_start :: nat
  mk_end :: nat

definition matrix_key_new :: "chewing_tables \<Rightarrow> syllable_key \<Rightarrow> u8 \<Rightarrow> nat \<Rightarrow> nat \<Rightarrow> matrix_key" where
  "matrix_key_new tables key tone start e =
     \<lparr>mk_key = with_tone (chewing_key_of tables key) tone, mk_start = start, mk_end = e\<rparr>"

type_synonym spans = "(nat \<times> nat) list"

text \<open>The search of \<open>KeySpans::first_at_or_after\<close>, over the test it applies to an index.\<close>

function search_loop :: "(nat \<Rightarrow> bool) \<Rightarrow> nat \<Rightarrow> nat \<Rightarrow> nat" where
  "search_loop test low high =
     (if low < high then
        let middle = low + (high - low) div 2 in
        if test middle then search_loop test (middle + 1) high else search_loop test low middle
      else low)"
  by pat_completeness auto
termination
  by (relation "measure (\<lambda>(test, low, high). high - low)") (auto simp: Let_def)

declare search_loop.simps [simp del]

definition span_search :: "('a \<Rightarrow> bool) \<Rightarrow> 'a list \<Rightarrow> nat" where
  "span_search P xs = search_loop (\<lambda>i. P (xs ! i)) 0 (length xs)"

definition first_at_or_after :: "spans \<Rightarrow> nat \<Rightarrow> nat" where
  "first_at_or_after spans pos = span_search (\<lambda>s. fst s < pos) spans"

section \<open>Columns\<close>

record column =
  col_low :: nat
  col_high :: nat
  col_zero :: "nat option"

definition column_size :: "column \<Rightarrow> nat" where
  "column_size c = (col_high c - col_low c) + (if col_zero c \<noteq> None then 1 else 0)"

definition column_is_empty :: "column \<Rightarrow> bool" where
  "column_is_empty c \<longleftrightarrow> \<not> col_low c < col_high c \<and> col_zero c = None"

definition lone_zero :: "column \<Rightarrow> bool" where
  "lone_zero c \<longleftrightarrow> \<not> col_low c < col_high c \<and> col_zero c \<noteq> None"

definition first_end :: "spans \<Rightarrow> column \<Rightarrow> nat option" where
  "first_end spans c = (if \<not> col_low c < col_high c then col_zero c else Some (snd (spans ! col_low c)))"

definition column_ends_with :: "spans \<Rightarrow> column \<Rightarrow> nat \<Rightarrow> bool" where
  "column_ends_with spans c e \<longleftrightarrow>
     list_ex (\<lambda>i. snd (spans ! i) = e) [col_low c..<col_high c] \<or> col_zero c = Some e"

record columns_view =
  cv_input :: bytes
  cv_parsed :: nat
  cv_spans :: spans
  cv_separators :: bool
  cv_leading :: nat

definition columns_new :: "bytes \<Rightarrow> nat \<Rightarrow> spans \<Rightarrow> bool \<Rightarrow> columns_view" where
  "columns_new input parsed_len spans separators =
     \<lparr>cv_input = input, cv_parsed = min parsed_len (length input), cv_spans = spans, cv_separators = separators,
      cv_leading = (if separators then length (takeWhile (\<lambda>b. b = APOSTROPHE) input) else 0)\<rparr>"

definition zero_end :: "columns_view \<Rightarrow> nat \<Rightarrow> nat option" where
  "zero_end v pos =
     (if cv_input v = [] then None
      else if cv_parsed v \<le> pos then Some (pos + 1)
      else if cv_separators v \<and> cv_input v ! pos = APOSTROPHE \<and> (cv_leading v \<le> pos \<or> length (cv_spans v) = 0)
      then Some (pos + 1) else None)"

definition column_get :: "columns_view \<Rightarrow> nat \<Rightarrow> column option" where
  "column_get v pos =
     (if length (cv_input v) < pos then None
      else Some \<lparr>col_low = first_at_or_after (cv_spans v) pos,
                 col_high = (case checked_add pos 1 of
                    None \<Rightarrow> length (cv_spans v)
                  | Some p \<Rightarrow> first_at_or_after (cv_spans v) p),
                 col_zero = zero_end v pos\<rparr>)"

definition column_at :: "columns_view \<Rightarrow> nat \<Rightarrow> column" where
  "column_at v pos = (case column_get v pos of
     Some c \<Rightarrow> c | None \<Rightarrow> \<lparr>col_low = 0, col_high = 0, col_zero = None\<rparr>)"

section \<open>The laws\<close>

definition check_offset :: "columns_view \<Rightarrow> nat \<Rightarrow> engine_error + unit" where
  "check_offset v offset =
     (if 0 < offset \<and> (case column_get v (offset - 1) of Some c \<Rightarrow> lone_zero c | None \<Rightarrow> False)
      then Inl (ZeroKeyOffsetCheck offset) else Inr ())"

fun zero_start_loop :: "columns_view \<Rightarrow> nat \<Rightarrow> nat \<Rightarrow> nat" where
  "zero_start_loop v offset 0 = offset"
| "zero_start_loop v offset (Suc i) = (if lone_zero (column_at v (Suc i)) then zero_start_loop v (Suc i) i else offset)"

definition zero_start_walk :: "columns_view \<Rightarrow> nat \<Rightarrow> nat" where
  "zero_start_walk v offset = zero_start_loop v offset (offset - 1)"

definition range_check :: "nat \<Rightarrow> nat \<Rightarrow> engine_error + unit" where
  "range_check input_len offset = (if input_len < offset then Inl (LookupOffsetOutOfRange offset input_len) else Inr ())"

fun nearest_column :: "columns_view \<Rightarrow> nat \<Rightarrow> nat" where
  "nearest_column v 0 = 0"
| "nearest_column v (Suc n) = (if column_is_empty (column_at v (Suc n)) then nearest_column v n else Suc n)"

definition lookup_offset_over_spans :: "bytes \<Rightarrow> nat \<Rightarrow> spans \<Rightarrow> bool \<Rightarrow> nat \<Rightarrow> engine_error + nat" where
  "lookup_offset_over_spans input parsed_len spans separators cursor =
     (let v = columns_new input parsed_len spans separators;
          offset = nearest_column v (min cursor (min parsed_len (length input)));
          offset = zero_start_walk v offset
      in case check_offset v offset of Inl err \<Rightarrow> Inl err | Inr _ \<Rightarrow> Inr offset)"

fun left_loop :: "columns_view \<Rightarrow> nat \<Rightarrow> nat \<Rightarrow> nat" where
  "left_loop v offset 0 = 0"
| "left_loop v offset (Suc left) =
     (if column_ends_with (cv_spans v) (column_at v (Suc left)) offset then Suc left else left_loop v offset left)"

definition left_word_offset_over_spans :: "bytes \<Rightarrow> nat \<Rightarrow> spans \<Rightarrow> bool \<Rightarrow> nat \<Rightarrow> engine_error + nat" where
  "left_word_offset_over_spans input parsed_len spans separators offset =
     (let v = columns_new input parsed_len spans separators in
      case range_check (length input) offset of Inl err \<Rightarrow> Inl err
      | Inr _ \<Rightarrow> (case check_offset v offset of Inl err \<Rightarrow> Inl err
      | Inr _ \<Rightarrow>
          let left = zero_start_walk v (left_loop v offset (offset - 1))
          in case check_offset v left of Inl err \<Rightarrow> Inl err | Inr _ \<Rightarrow> Inr left))"

function right_loop :: "columns_view \<Rightarrow> nat \<Rightarrow> nat \<Rightarrow> nat \<Rightarrow> nat" where
  "right_loop v matrix_size right index =
     (if index + 1 < matrix_size then
        let c = column_at v index in
        if column_size c \<noteq> 1 then right
        else if lone_zero c then right_loop v matrix_size (index + 1) (index + 1) else right
      else right)"
  by pat_completeness auto
termination
  by (relation "measure (\<lambda>(v, matrix_size, right, index). matrix_size - index)") auto

declare right_loop.simps [simp del]

definition right_word_offset_over_spans :: "bytes \<Rightarrow> nat \<Rightarrow> spans \<Rightarrow> bool \<Rightarrow> nat \<Rightarrow> engine_error + nat option" where
  "right_word_offset_over_spans input parsed_len spans separators offset =
     (let v = columns_new input parsed_len spans separators in
      case range_check (length input) offset of Inl err \<Rightarrow> Inl err
      | Inr _ \<Rightarrow> (case check_offset v offset of Inl err \<Rightarrow> Inl err
      | Inr _ \<Rightarrow>
          let right = right_loop v (length input + 1) offset offset
          in case first_end spans (column_at v right) of None \<Rightarrow> Inr None
             | Some e \<Rightarrow> (case check_offset v e of Inl err \<Rightarrow> Inl err | Inr _ \<Rightarrow> Inr (Some e))))"

text \<open>The lookup-offset law of \<open>session/mod.rs\<close>, which reads the apostrophes of the buffer itself.\<close>

definition check_lookup_offset_range :: "nat \<Rightarrow> nat \<Rightarrow> engine_error + nat" where
  "check_lookup_offset_range len offset = (if len < offset then Inl (LookupOffsetOutOfRange offset len) else Inr offset)"

fun separator_walk :: "bytes \<Rightarrow> nat \<Rightarrow> nat \<Rightarrow> nat" where
  "separator_walk input normalized 0 = normalized"
| "separator_walk input normalized (Suc i) =
     (if get_at input (Suc i) = Some APOSTROPHE then separator_walk input (Suc i) i else normalized)"

definition normalize_lookup_offset :: "bytes \<Rightarrow> nat \<Rightarrow> engine_error + nat" where
  "normalize_lookup_offset input offset =
     (case check_lookup_offset_range (length input) offset of
        Inl err \<Rightarrow> Inl err
      | Inr _ \<Rightarrow>
          let normalized = separator_walk input offset (offset - 1);
              leading = length (takeWhile (\<lambda>b. b = APOSTROPHE) input)
          in if normalized \<le> leading \<and> get_at input leading \<noteq> None then Inr offset
             else if 0 < normalized \<and> get_at input (normalized - 1) = Some APOSTROPHE
             then Inl (LookupOffsetPastSeparator offset normalized)
             else Inr normalized)"

section \<open>Over the scan matrix\<close>

definition in_column_order :: "matrix_key list \<Rightarrow> matrix_key list" where
  "in_column_order keys = (if sorted (map mk_start keys) then keys else sort_key mk_start keys)"

text \<open>The outer \<open>option\<close> is whether the matrix build returns without a panic.\<close>

definition matrix_keys :: "chewing_tables \<Rightarrow> bytes \<Rightarrow> option_bits \<Rightarrow> (engine_error + matrix_key list \<times> nat) option" where
  "matrix_keys tables input opts =
     (case build_with_options input opts of
        Inl err \<Rightarrow> Some (Inl (Graph err))
      | Inr g \<Rightarrow> map_option (\<lambda>matrix.
          Inr (in_column_order (map (\<lambda>k. matrix_key_new tables (sk_key k) (sk_tone k) (sk_start k) (sk_to k)) (concat matrix)),
               graph_consumed g)) (build_scan_matrix tables g opts True))"

definition matrix_spans :: "chewing_tables \<Rightarrow> bytes \<Rightarrow> option_bits \<Rightarrow> (engine_error + spans \<times> nat) option" where
  "matrix_spans tables input opts =
     map_option (map_sum id (\<lambda>(keys, parsed). (map (\<lambda>k. (mk_start k, mk_end k)) keys, parsed))) (matrix_keys tables input opts)"

definition over_matrix :: "chewing_tables \<Rightarrow> bytes \<Rightarrow> option_bits \<Rightarrow> (nat \<Rightarrow> spans \<Rightarrow> engine_error + 'r) \<Rightarrow> (engine_error + 'r) option" where
  "over_matrix tables input opts law =
     map_option (\<lambda>r. case r of Inl err \<Rightarrow> Inl err | Inr (spans, parsed) \<Rightarrow> law parsed spans) (matrix_spans tables input opts)"

definition lookup_offset_for_cursor :: "chewing_tables \<Rightarrow> bytes \<Rightarrow> option_bits \<Rightarrow> nat \<Rightarrow> (engine_error + nat) option" where
  "lookup_offset_for_cursor tables input opts cursor =
     over_matrix tables input opts (\<lambda>parsed spans. lookup_offset_over_spans input parsed spans True cursor)"

definition left_word_offset :: "chewing_tables \<Rightarrow> bytes \<Rightarrow> option_bits \<Rightarrow> nat \<Rightarrow> (engine_error + nat) option" where
  "left_word_offset tables input opts offset =
     over_matrix tables input opts (\<lambda>parsed spans. left_word_offset_over_spans input parsed spans True offset)"

definition right_word_offset :: "chewing_tables \<Rightarrow> bytes \<Rightarrow> option_bits \<Rightarrow> nat \<Rightarrow> (engine_error + nat option) option" where
  "right_word_offset tables input opts offset =
     over_matrix tables input opts (\<lambda>parsed spans. right_word_offset_over_spans input parsed spans True offset)"

section \<open>The search provides the partition contract\<close>

lemma search_loop_bounds: "low \<le> high \<Longrightarrow> low \<le> search_loop P low high \<and> search_loop P low high \<le> high"
proof (induction P low high rule: search_loop.induct)
  case (1 P low high)
  show ?case
  proof (cases "low < high")
    case True
    let ?m = "low + (high - low) div 2"
    have m: "low \<le> ?m" "?m < high" using True by auto
    show ?thesis
      using "1.IH"(1) [OF True refl] "1.IH"(2) [OF True refl] m
      by (subst (1 2) search_loop.simps) (auto simp: Let_def)
  qed (use 1 in \<open>simp add: search_loop.simps\<close>)
qed

lemma search_loop_partitioned:
  assumes "low \<le> k" "k \<le> high" "\<And>i. low \<le> i \<Longrightarrow> i < high \<Longrightarrow> P i \<longleftrightarrow> i < k"
  shows "search_loop P low high = k"
  using assms
proof (induction P low high rule: search_loop.induct)
  case (1 P low high)
  show ?case
  proof (cases "low < high")
    case True
    let ?m = "low + (high - low) div 2"
    have m: "low \<le> ?m" "?m < high" using True by auto
    have "P ?m \<longleftrightarrow> ?m < k" using "1.prems"(3) m by blast
    then show ?thesis
      using "1.IH"(1) [OF True refl] "1.IH"(2) [OF True refl] "1.prems" m
      by (subst search_loop.simps) (auto simp: Let_def)
  qed (use 1 in \<open>simp add: search_loop.simps\<close>)
qed

interpretation span_pp: partition_search span_search
proof unfold_locales
  show "span_search P xs \<le> length xs" for P and xs :: "'a list"
    using search_loop_bounds [of 0 "length xs"] by (simp add: span_search_def)
  show "span_search P xs = length (takeWhile P xs)" if "partitioned P xs" for P and xs :: "'a list"
    unfolding span_search_def
    by (rule search_loop_partitioned) (simp_all add: length_takeWhile_le nth_partitioned [OF that])
qed

section \<open>What a column holds\<close>

definition starts_at :: "spans \<Rightarrow> nat \<Rightarrow> spans" where
  "starts_at spans pos = filter (\<lambda>s. fst s = pos) spans"

lemma sorted_starts:
  assumes "sorted (map fst spans)"
  shows "partitioned (\<lambda>s. fst s < (pos :: nat)) spans \<and>
    takeWhile (\<lambda>s. fst s < pos) spans = filter (\<lambda>s. fst s < pos) spans \<and>
    filter (\<lambda>s. fst s < Suc pos) spans = filter (\<lambda>s. fst s < pos) spans @ starts_at spans pos"
  using assms
proof (induction spans)
  case (Cons s spans)
  have IH: "partitioned (\<lambda>s. fst s < pos) spans" "takeWhile (\<lambda>s. fst s < pos) spans = filter (\<lambda>s. fst s < pos) spans"
      "filter (\<lambda>s. fst s < Suc pos) spans = filter (\<lambda>s. fst s < pos) spans @ starts_at spans pos"
    using Cons.IH Cons.prems by simp_all
  show ?case
  proof (cases "fst s < pos")
    case True
    show ?thesis
    proof (intro conjI)
      show "partitioned (\<lambda>s. fst s < pos) (s # spans)" using IH(1) True
        unfolding partitioned_def dropWhile.simps by (simp only: if_True)
      show "takeWhile (\<lambda>s. fst s < pos) (s # spans) = filter (\<lambda>s. fst s < pos) (s # spans)" using IH(2) True by simp
      show "filter (\<lambda>s. fst s < Suc pos) (s # spans) = filter (\<lambda>s. fst s < pos) (s # spans) @ starts_at (s # spans) pos"
        using IH(3) True by (simp add: starts_at_def)
    qed
  next
    case False
    then have "\<forall>x \<in> set spans. \<not> fst x < pos" using Cons.prems by auto
    moreover from this have "filter (\<lambda>s. fst s < pos) spans = []" by (simp add: filter_empty_conv)
    ultimately show ?thesis using IH False by (auto simp: partitioned_def starts_at_def)
  qed
qed (simp add: partitioned_def starts_at_def)

lemma column_slice:
  assumes "sorted (map fst spans)"
  shows "drop (first_at_or_after spans pos) (take (first_at_or_after spans (Suc pos)) spans) = starts_at spans pos"
    "first_at_or_after spans pos \<le> first_at_or_after spans (Suc pos)" "first_at_or_after spans (Suc pos) \<le> length spans"
proof -
  have low: "first_at_or_after spans p = length (filter (\<lambda>s. fst s < p) spans)" for p
    using span_pp.pp_partitioned [OF conjunct1 [OF sorted_starts [OF assms]], of p] sorted_starts [OF assms, of p]
    by (simp add: first_at_or_after_def)
  have cut: "take (first_at_or_after spans p) spans = filter (\<lambda>s. fst s < p) spans" for p
    using span_pp.take_pp [OF conjunct1 [OF sorted_starts [OF assms]], of p] sorted_starts [OF assms, of p]
    by (simp add: first_at_or_after_def)
  have split: "filter (\<lambda>s. fst s < Suc pos) spans = filter (\<lambda>s. fst s < pos) spans @ starts_at spans pos"
    using sorted_starts [OF assms, of pos] by blast
  show "drop (first_at_or_after spans pos) (take (first_at_or_after spans (Suc pos)) spans) = starts_at spans pos"
    unfolding cut [of "Suc pos", unfolded split] by (simp add: low [of pos])
  show "first_at_or_after spans pos \<le> first_at_or_after spans (Suc pos)" unfolding low split by simp
  show "first_at_or_after spans (Suc pos) \<le> length spans" unfolding low by simp
qed

text \<open>The separator columns of a raw buffer.\<close>

definition zero_at :: "columns_view \<Rightarrow> nat \<Rightarrow> bool" where
  "zero_at v pos \<longleftrightarrow> cv_input v \<noteq> [] \<and> pos \<le> length (cv_input v) \<and>
     (cv_parsed v \<le> pos \<or>
      cv_separators v \<and> cv_input v ! pos = APOSTROPHE \<and> (cv_spans v = [] \<or> (\<exists>j < pos. cv_input v ! j \<noteq> APOSTROPHE)))"

definition keys_at :: "columns_view \<Rightarrow> nat \<Rightarrow> spans" where
  "keys_at v pos = (if pos \<le> length (cv_input v) then starts_at (cv_spans v) pos else [])"

definition lone_at :: "columns_view \<Rightarrow> nat \<Rightarrow> bool" where
  "lone_at v pos \<longleftrightarrow> zero_at v pos \<and> keys_at v pos = []"

definition ends_at :: "columns_view \<Rightarrow> nat \<Rightarrow> nat \<Rightarrow> bool" where
  "ends_at v e pos \<longleftrightarrow> (\<exists>s \<in> set (keys_at v pos). snd s = e) \<or> zero_at v pos \<and> e = pos + 1"

lemma leading_run: "i < length xs \<Longrightarrow> length (takeWhile P xs) \<le> i \<longleftrightarrow> (\<exists>j \<le> i. \<not> P (xs ! j))"
proof
  assume i: "i < length xs"
  { assume "length (takeWhile P xs) \<le> i"
    then show "\<exists>j \<le> i. \<not> P (xs ! j)" using i nth_length_takeWhile [of P xs] by auto }
  { assume "\<exists>j \<le> i. \<not> P (xs ! j)"
    then show "length (takeWhile P xs) \<le> i" using i by (metis nth_mem order_trans not_le set_takeWhileD takeWhile_nth) }
qed

lemma columns_new_sel [simp]:
  "cv_input (columns_new input parsed_len spans separators) = input"
  "cv_parsed (columns_new input parsed_len spans separators) = min parsed_len (length input)"
  "cv_spans (columns_new input parsed_len spans separators) = spans"
  "cv_separators (columns_new input parsed_len spans separators) = separators"
  by (simp_all add: columns_new_def)

lemma zero_end_iff:
  assumes "v = columns_new input parsed_len spans separators" "pos \<le> length input"
  shows "zero_end v pos = (if zero_at v pos then Some (pos + 1) else None)"
proof (cases "pos < min parsed_len (length input) \<and> separators \<and> input ! pos = APOSTROPHE")
  case True
  then have "pos < length input" by simp
  from leading_run [OF this, of "\<lambda>b. b = APOSTROPHE"] True
  have "length (takeWhile (\<lambda>b. b = APOSTROPHE) input) \<le> pos \<longleftrightarrow> (\<exists>j < pos. input ! j \<noteq> APOSTROPHE)"
    by (metis order_le_less)
  then show ?thesis using True assms by (auto simp: zero_end_def columns_new_def zero_at_def)
next
  case False
  then show ?thesis using assms by (auto simp: zero_end_def zero_at_def)
qed

text \<open>The start \<open>r\<close> of the run of positions with \<open>P\<close> that ends before \<open>n\<close>; the run never takes in position 0.\<close>

definition run_start :: "(nat \<Rightarrow> bool) \<Rightarrow> nat \<Rightarrow> nat \<Rightarrow> bool" where
  "run_start P n r \<longleftrightarrow> r \<le> n \<and> (0 < n \<longrightarrow> 0 < r) \<and> (\<forall>j. r \<le> j \<and> j < n \<longrightarrow> P j) \<and> (1 < r \<longrightarrow> \<not> P (r - 1))"

text \<open>The last position up to \<open>n\<close> with \<open>P\<close>, or 0.\<close>

definition last_at :: "(nat \<Rightarrow> bool) \<Rightarrow> nat \<Rightarrow> nat \<Rightarrow> bool" where
  "last_at P n m \<longleftrightarrow> m \<le> n \<and> (m = 0 \<or> P m) \<and> (\<forall>j. m < j \<and> j \<le> n \<longrightarrow> \<not> P j)"

section \<open>The column view\<close>

text \<open>What the laws rely on of their caller: a buffer of a length the language allows, and keys in the order
  of their starts. A position then has its keys and its separator, both read through the two searches.\<close>

locale span_source =
  fixes source :: "columns_view \<Rightarrow> bool"
  assumes source_made: "source v \<Longrightarrow> v = columns_new (cv_input v) (cv_parsed v) (cv_spans v) (cv_separators v)"
    and source_slice: "source v \<Longrightarrow> slice_ok (cv_input v)"
    and source_sorted: "source v \<Longrightarrow> sorted (map fst (cv_spans v))"
begin

lemma column_at_inside:
  assumes src: "source v" and pos: "pos \<le> length (cv_input v)"
  shows "column_get v pos = Some (column_at v pos)"
    "col_low (column_at v pos) = first_at_or_after (cv_spans v) pos"
    "col_high (column_at v pos) = first_at_or_after (cv_spans v) (Suc pos)"
    "col_zero (column_at v pos) = (if zero_at v pos then Some (pos + 1) else None)"
proof -
  have "checked_add pos 1 = Some (pos + 1)"
    using source_slice [OF src] pos by (auto simp: checked_add_def slice_ok_def usize_max_def)
  then show "column_get v pos = Some (column_at v pos)"
    "col_low (column_at v pos) = first_at_or_after (cv_spans v) pos"
    "col_high (column_at v pos) = first_at_or_after (cv_spans v) (Suc pos)"
    "col_zero (column_at v pos) = (if zero_at v pos then Some (pos + 1) else None)"
    using pos zero_end_iff [OF source_made [OF src] pos] by (simp_all add: column_at_def column_get_def)
qed

lemma column_outside:
  assumes "length (cv_input v) < pos"
  shows "column_get v pos = None" "column_at v pos = \<lparr>col_low = 0, col_high = 0, col_zero = None\<rparr>"
    "\<not> zero_at v pos" "keys_at v pos = []"
  using assms by (simp_all add: column_at_def column_get_def zero_at_def keys_at_def)

lemma column_reads:
  assumes src: "source v"
  shows "column_size (column_at v pos) = length (keys_at v pos) + (if zero_at v pos then 1 else 0)"
    "column_is_empty (column_at v pos) \<longleftrightarrow> keys_at v pos = [] \<and> \<not> zero_at v pos"
    "lone_zero (column_at v pos) \<longleftrightarrow> lone_at v pos"
    "first_end (cv_spans v) (column_at v pos) =
       (if keys_at v pos \<noteq> [] then Some (snd (hd (keys_at v pos))) else if zero_at v pos then Some (pos + 1) else None)"
    "column_ends_with (cv_spans v) (column_at v pos) e \<longleftrightarrow> ends_at v e pos"
proof -
  let ?l = "first_at_or_after (cv_spans v) pos" and ?h = "first_at_or_after (cv_spans v) (Suc pos)"
  have "column_size (column_at v pos) = length (keys_at v pos) + (if zero_at v pos then 1 else 0) \<and>
    (column_is_empty (column_at v pos) \<longleftrightarrow> keys_at v pos = [] \<and> \<not> zero_at v pos) \<and>
    (lone_zero (column_at v pos) \<longleftrightarrow> lone_at v pos) \<and>
    first_end (cv_spans v) (column_at v pos) =
      (if keys_at v pos \<noteq> [] then Some (snd (hd (keys_at v pos))) else if zero_at v pos then Some (pos + 1) else None) \<and>
    (column_ends_with (cv_spans v) (column_at v pos) e \<longleftrightarrow> ends_at v e pos)"
  proof (cases "pos \<le> length (cv_input v)")
    case True
    note c = column_at_inside [OF src True] and s = column_slice [OF source_sorted [OF src], of pos]
    have keys: "keys_at v pos = starts_at (cv_spans v) pos" using True by (simp add: keys_at_def)
    have len: "length (keys_at v pos) = ?h - ?l" using s keys by (metis length_drop length_take min.absorb2)
    then have ne: "?l < ?h \<longleftrightarrow> keys_at v pos \<noteq> []" by (cases "keys_at v pos") auto
    have nth: "keys_at v pos ! i = cv_spans v ! (?l + i)" if "i < ?h - ?l" for i
      using that s(2,3) unfolding keys s(1) [symmetric] by simp
    have "list_ex (\<lambda>i. snd (cv_spans v ! i) = e) [?l..<?h] \<longleftrightarrow> (\<exists>i < ?h - ?l. snd (cv_spans v ! (?l + i)) = e)"
      by (auto simp: list_ex_iff) (metis add_diff_cancel_left' diff_less_mono le_iff_add)
    also have "\<dots> \<longleftrightarrow> (\<exists>s \<in> set (keys_at v pos). snd s = e)" using nth len by (metis in_set_conv_nth)
    finally have "column_ends_with (cv_spans v) (column_at v pos) e \<longleftrightarrow> ends_at v e pos"
      by (auto simp: column_ends_with_def c ends_at_def)
    moreover have "first_end (cv_spans v) (column_at v pos) =
        (if keys_at v pos \<noteq> [] then Some (snd (hd (keys_at v pos))) else if zero_at v pos then Some (pos + 1) else None)"
      using nth [of 0] ne by (auto simp: first_end_def c hd_conv_nth)
    moreover have "lone_zero (column_at v pos) \<longleftrightarrow> lone_at v pos" by (auto simp: lone_zero_def c ne lone_at_def)
    ultimately show ?thesis by (simp add: column_size_def column_is_empty_def c len ne)
  next
    case False
    then show ?thesis
      using column_outside [of v pos]
      by (simp add: column_size_def column_is_empty_def lone_zero_def first_end_def column_ends_with_def lone_at_def ends_at_def)
  qed
  then show "column_size (column_at v pos) = length (keys_at v pos) + (if zero_at v pos then 1 else 0)"
    "column_is_empty (column_at v pos) \<longleftrightarrow> keys_at v pos = [] \<and> \<not> zero_at v pos"
    "lone_zero (column_at v pos) \<longleftrightarrow> lone_at v pos"
    "first_end (cv_spans v) (column_at v pos) =
       (if keys_at v pos \<noteq> [] then Some (snd (hd (keys_at v pos))) else if zero_at v pos then Some (pos + 1) else None)"
    "column_ends_with (cv_spans v) (column_at v pos) e \<longleftrightarrow> ends_at v e pos"
    by blast+
qed

lemma check_offset_iff:
  assumes src: "source v"
  shows "check_offset v offset = (if 0 < offset \<and> lone_at v (offset - 1) then Inl (ZeroKeyOffsetCheck offset) else Inr ())"
proof (cases "offset - 1 \<le> length (cv_input v)")
  case True
  then show ?thesis using column_at_inside(1) [OF src True] column_reads(3) [OF src, of "offset - 1"] by (simp add: check_offset_def)
next
  case False
  then show ?thesis using column_outside [of v "offset - 1"] by (simp add: check_offset_def lone_at_def)
qed

lemma zero_start_walk_run:
  assumes src: "source v"
  shows "run_start (lone_at v) n (zero_start_walk v n)"
proof -
  have "run_start (lone_at v) (Suc i) (zero_start_loop v (Suc i) i)" for i
  proof (induction i)
    case (Suc i)
    then show ?case by (auto simp: run_start_def column_reads(3) [OF src] less_Suc_eq)
  qed (simp add: run_start_def)
  then show ?thesis by (cases n) (simp_all add: zero_start_walk_def run_start_def)
qed

lemma nearest_column_last:
  assumes src: "source v"
  shows "last_at (\<lambda>j. keys_at v j \<noteq> [] \<or> zero_at v j) n (nearest_column v n)"
  by (induction n) (auto simp: column_reads(2) [OF src] last_at_def le_Suc_eq)

lemma left_loop_last:
  assumes src: "source v"
  shows "last_at (ends_at v offset) n (left_loop v offset n)"
  by (induction n) (auto simp: column_reads(5) [OF src] last_at_def le_Suc_eq)

lemma right_loop_skips:
  assumes src: "source v" and "index \<le> len"
  shows "index \<le> right_loop v (len + 1) index index \<and> right_loop v (len + 1) index index \<le> len \<and>
    (\<forall>j. index \<le> j \<and> j < right_loop v (len + 1) index index \<longrightarrow> lone_at v j) \<and>
    (right_loop v (len + 1) index index < len \<longrightarrow> \<not> lone_at v (right_loop v (len + 1) index index))"
  using assms(2)
proof (induction "len - index" arbitrary: index)
  case 0
  then show ?case by (auto simp: right_loop.simps)
next
  case (Suc d)
  then have i: "index < len" by simp
  show ?case
  proof (cases "lone_at v index")
    case True
    then have "column_size (column_at v index) = 1" using column_reads(1) [OF src, of index] by (auto simp: lone_at_def)
    then have step: "right_loop v (len + 1) index index = right_loop v (len + 1) (index + 1) (index + 1)"
      using True i by (subst right_loop.simps) (simp add: column_reads(3) [OF src] Let_def)
    have "d = len - (index + 1)" "index + 1 \<le> len" using Suc.hyps(2) i by auto
    note IH = Suc.hyps(1) [OF this]
    have "lone_at v j" if "index \<le> j" "j < right_loop v (len + 1) (index + 1) (index + 1)" for j
      using IH True that by (cases "j = index") auto
    then show ?thesis using IH unfolding step by auto
  next
    case False
    then have "right_loop v (len + 1) index index = index"
      by (subst right_loop.simps) (auto simp: column_reads(3) [OF src] Let_def)
    then show ?thesis using False i by auto
  qed
qed

lemma check_run_start:
  assumes src: "source v" and "run_start (lone_at v) n r"
  shows "check_offset v r = (if r = 1 \<and> lone_at v 0 then Inl (ZeroKeyOffsetCheck 1) else Inr ())"
  using assms(2) by (cases "r = 1") (auto simp: check_offset_iff [OF src] run_start_def)

text \<open>The three laws.\<close>

lemma lookup_law:
  assumes src: "source v" and v: "v = columns_new input parsed_len spans separators"
  shows "\<exists>n r. last_at (\<lambda>j. keys_at v j \<noteq> [] \<or> zero_at v j) (min cursor (min parsed_len (length input))) n \<and>
    run_start (lone_at v) n r \<and>
    lookup_offset_over_spans input parsed_len spans separators cursor =
      (if r = 1 \<and> lone_at v 0 then Inl (ZeroKeyOffsetCheck 1) else Inr r)"
proof -
  let ?n = "nearest_column v (min cursor (min parsed_len (length input)))"
  note run = zero_start_walk_run [OF src, of ?n]
  have "lookup_offset_over_spans input parsed_len spans separators cursor =
      (if zero_start_walk v ?n = 1 \<and> lone_at v 0 then Inl (ZeroKeyOffsetCheck 1) else Inr (zero_start_walk v ?n))"
    using check_run_start [OF src run] by (simp add: lookup_offset_over_spans_def Let_def v [symmetric])
  with nearest_column_last [OF src] run show ?thesis by blast
qed

lemma left_law:
  assumes src: "source v" and v: "v = columns_new input parsed_len spans separators"
    and "offset \<le> length input" "offset = 0 \<or> \<not> lone_at v (offset - 1)"
  shows "\<exists>n r. last_at (ends_at v offset) (offset - 1) n \<and> run_start (lone_at v) n r \<and>
    left_word_offset_over_spans input parsed_len spans separators offset =
      (if r = 1 \<and> lone_at v 0 then Inl (ZeroKeyOffsetCheck 1) else Inr r)"
proof -
  let ?n = "left_loop v offset (offset - 1)"
  note run = zero_start_walk_run [OF src, of ?n]
  have "check_offset v offset = Inr ()" using assms(4) by (auto simp: check_offset_iff [OF src])
  then have "left_word_offset_over_spans input parsed_len spans separators offset =
      (if zero_start_walk v ?n = 1 \<and> lone_at v 0 then Inl (ZeroKeyOffsetCheck 1) else Inr (zero_start_walk v ?n))"
    using check_run_start [OF src run] assms(3)
    by (simp add: left_word_offset_over_spans_def Let_def range_check_def v [symmetric])
  with left_loop_last [OF src] run show ?thesis by blast
qed

lemma right_law:
  assumes src: "source v" and v: "v = columns_new input parsed_len spans separators"
    and "offset \<le> length input" "offset = 0 \<or> \<not> lone_at v (offset - 1)"
  shows "\<exists>n. offset \<le> n \<and> n \<le> length input \<and> (\<forall>j. offset \<le> j \<and> j < n \<longrightarrow> lone_at v j) \<and>
    (n < length input \<longrightarrow> \<not> lone_at v n) \<and>
    right_word_offset_over_spans input parsed_len spans separators offset =
      (if keys_at v n = [] \<and> \<not> zero_at v n then Inr None
       else let e = (if keys_at v n = [] then n + 1 else snd (hd (keys_at v n)))
            in if 0 < e \<and> lone_at v (e - 1) then Inl (ZeroKeyOffsetCheck e) else Inr (Some e))"
proof -
  let ?n = "right_loop v (length input + 1) offset offset"
  have spans: "cv_spans v = spans" by (simp add: v)
  have "check_offset v offset = Inr ()" using assms(4) by (auto simp: check_offset_iff [OF src])
  then have "right_word_offset_over_spans input parsed_len spans separators offset =
      (case first_end (cv_spans v) (column_at v ?n) of None \<Rightarrow> Inr None
       | Some e \<Rightarrow> (case check_offset v e of Inl err \<Rightarrow> Inl err | Inr _ \<Rightarrow> Inr (Some e)))"
    using assms(3) by (simp add: right_word_offset_over_spans_def Let_def range_check_def v [symmetric] spans)
  also have "\<dots> = (if keys_at v ?n = [] \<and> \<not> zero_at v ?n then Inr None
       else let e = (if keys_at v ?n = [] then ?n + 1 else snd (hd (keys_at v ?n)))
            in if 0 < e \<and> lone_at v (e - 1) then Inl (ZeroKeyOffsetCheck e) else Inr (Some e))"
    unfolding column_reads(4) [OF src] by (simp add: check_offset_iff [OF src] Let_def)
  finally show ?thesis using right_loop_skips [OF src assms(3)] by blast
qed

lemma refused:
  assumes src: "source v" and v: "v = columns_new input parsed_len spans separators"
  shows "length input < offset \<Longrightarrow>
      left_word_offset_over_spans input parsed_len spans separators offset = Inl (LookupOffsetOutOfRange offset (length input)) \<and>
      right_word_offset_over_spans input parsed_len spans separators offset = Inl (LookupOffsetOutOfRange offset (length input))"
    "offset \<le> length input \<Longrightarrow> 0 < offset \<Longrightarrow> lone_at v (offset - 1) \<Longrightarrow>
      left_word_offset_over_spans input parsed_len spans separators offset = Inl (ZeroKeyOffsetCheck offset) \<and>
      right_word_offset_over_spans input parsed_len spans separators offset = Inl (ZeroKeyOffsetCheck offset)"
  using check_offset_iff [OF src, of offset]
  by (simp_all add: left_word_offset_over_spans_def right_word_offset_over_spans_def range_check_def v [symmetric])

end

definition ordered_view :: "columns_view \<Rightarrow> bool" where
  "ordered_view v \<longleftrightarrow> v = columns_new (cv_input v) (cv_parsed v) (cv_spans v) (cv_separators v) \<and>
     slice_ok (cv_input v) \<and> sorted (map fst (cv_spans v))"

interpretation ordered: span_source ordered_view
  by unfold_locales (auto simp: ordered_view_def)

lemma ordered_view_new:
  "slice_ok input \<Longrightarrow> sorted (map fst spans) \<Longrightarrow> ordered_view (columns_new input parsed_len spans separators)"
  by (simp add: ordered_view_def) (simp add: columns_new_def)

section \<open>The lookup-offset law\<close>

lemma separator_walk_run:
  assumes "offset \<le> length input"
  shows "run_start (\<lambda>j. input ! j = APOSTROPHE) offset (separator_walk input offset (offset - 1))"
proof -
  have "run_start (\<lambda>j. input ! j = APOSTROPHE) (Suc i) (separator_walk input (Suc i) i)" if "i < length input" for i
    using that
  proof (induction i)
    case (Suc i)
    then show ?case by (auto simp: run_start_def get_at_def less_Suc_eq)
  qed (simp add: run_start_def)
  from this [of "offset - 1"] show ?thesis using assms by (cases "offset = 0") (auto simp: run_start_def)
qed

text \<open>The law over the raw buffer refuses an offset inside the buffer only when the buffer is apostrophes alone
  and the offset is not 0. Before the first other byte it answers the offset itself; past it, the start
  of the run of apostrophes before the offset, which has another byte in front of it.\<close>

theorem normalize_lookup_offset_spec:
  fixes input :: bytes and offset :: nat
  defines "sep \<equiv> \<lambda>b. b = APOSTROPHE" and "r \<equiv> \<lambda>offset. separator_walk input offset (offset - 1)"
  shows "normalize_lookup_offset input offset =
     (if length input < offset then Inl (LookupOffsetOutOfRange offset (length input))
      else if 0 < offset \<and> list_all sep input then Inl (LookupOffsetPastSeparator offset 1)
      else if list_all sep (take offset input) then Inr offset else Inr (r offset))"
    "offset \<le> length input \<Longrightarrow> run_start (\<lambda>j. sep (input ! j)) offset (r offset)"
    "offset \<le> length input \<Longrightarrow> \<not> list_all sep (take offset input) \<Longrightarrow> 0 < r offset \<and> \<not> sep (input ! (r offset - 1))"
proof -
  let ?L = "length (takeWhile sep input)"
  have lead: "sep (input ! j)" if "j < ?L" for j using that by (metis nth_mem set_takeWhileD takeWhile_nth)
  have run: "run_start (\<lambda>j. sep (input ! j)) offset (r offset)" if "offset \<le> length input"
    using separator_walk_run [OF that] by (simp add: sep_def r_def)
  then show "offset \<le> length input \<Longrightarrow> run_start (\<lambda>j. sep (input ! j)) offset (r offset)" .
  have all: "list_all sep (take offset input) \<longleftrightarrow> (\<forall>j < offset. sep (input ! j))" if "offset \<le> length input"
    using that by (auto simp: list_all_length)
  have stop: "0 < r offset \<and> \<not> sep (input ! (r offset - 1))"
    if len: "offset \<le> length input" and some: "\<not> list_all sep (take offset input)"
  proof -
    obtain j where j: "j < offset" "\<not> sep (input ! j)" using all [OF len] some by auto
    then have "j < r offset" using run [OF len] by (metis not_le run_start_def)
    moreover from this have "r offset = 1 \<Longrightarrow> j = 0" by simp
    ultimately show ?thesis using run [OF len] j(2) by (cases "r offset = 1") (auto simp: run_start_def)
  qed
  then show "offset \<le> length input \<Longrightarrow> \<not> list_all sep (take offset input) \<Longrightarrow> 0 < r offset \<and> \<not> sep (input ! (r offset - 1))" .
  show "normalize_lookup_offset input offset =
     (if length input < offset then Inl (LookupOffsetOutOfRange offset (length input))
      else if 0 < offset \<and> list_all sep input then Inl (LookupOffsetPastSeparator offset 1)
      else if list_all sep (take offset input) then Inr offset else Inr (r offset))"
  proof (cases "offset \<le> length input")
    case len: True
    have law: "normalize_lookup_offset input offset =
        (if r offset \<le> ?L \<and> get_at input ?L \<noteq> None then Inr offset
         else if 0 < r offset \<and> get_at input (r offset - 1) = Some APOSTROPHE then Inl (LookupOffsetPastSeparator offset (r offset))
         else Inr (r offset))"
      using len by (auto simp: normalize_lookup_offset_def check_lookup_offset_range_def Let_def r_def sep_def)
    have bound: "r offset \<le> offset" using run [OF len] by (simp add: run_start_def)
    show ?thesis
    proof (cases "list_all sep (take offset input)")
      case some: False
      then have "\<not> r offset \<le> ?L" using stop [OF len some] lead [of "r offset - 1"] by force
      moreover have "\<not> list_all sep input" using some by (metis append_take_drop_id list_all_append)
      ultimately show ?thesis using stop [OF len some] some len bound by (auto simp: law get_at_def sep_def)
    next
      case True
      have full: "list_all sep input \<longleftrightarrow> ?L = length input" 
        unfolding list_all_iff takeWhile_eq_all_conv [symmetric] by (metis order_refl take_all takeWhile_eq_take)
      show ?thesis
      proof (cases "offset = 0")
        case True
        then show ?thesis using bound law by simp
      next
        case False
        then have one: "r offset = 1" using run [OF len] True all [OF len] by (auto simp: run_start_def)
        have first: "sep (input ! 0)" "input \<noteq> []" using True all [OF len] False len by auto
        show ?thesis
        proof (cases "list_all sep input")
          case every: True
          then have "get_at input ?L = None" using full by (simp add: get_at_def)
          then show ?thesis using law one first every False len by (simp add: get_at_def sep_def)
        next
          case rest: False
          then have "?L < length input" using full length_takeWhile_le [of sep input] by linarith
          from nth_length_takeWhile [OF this] have "offset \<le> ?L" using True all [OF len] not_le by blast
          then show ?thesis using law one False rest True len \<open>?L < length input\<close> by (simp add: get_at_def)
        qed
      qed
    qed
  qed (simp add: normalize_lookup_offset_def check_lookup_offset_range_def)
qed

section \<open>The keys of a parse\<close>

lemma matrix_keys_ok:
  assumes len: "length input \<le> MAX_GRAPH_POSITION" and nul: "0 \<notin> set input"
  shows "\<exists>keys parsed. matrix_keys tables input opts = Some (Inr (keys, parsed)) \<and> sorted (map mk_start keys) \<and>
    parsed \<le> length input \<and> (\<forall>k \<in> set keys. mk_start k < mk_end k \<and> mk_end k \<le> parsed)"
proof -
  obtain g where g: "build_with_options input opts = Inr g" using len build_ok by blast
  obtain path columns where c: "build_scan_matrix tables g opts True = Some columns"
      "\<forall>i < length columns. (\<forall>k \<in> set (columns ! i). scan_entry tables input opts (graph_consumed g) path i k)"
      "sorted (map sk_start (concat columns))"
    using scan_matrix_facts [OF g nul] by blast
  let ?keys = "map (\<lambda>k. matrix_key_new tables (sk_key k) (sk_tone k) (sk_start k) (sk_to k)) (concat columns)"
  have starts: "map mk_start ?keys = map sk_start (concat columns)"
    by (simp add: matrix_key_new_def map_concat comp_def)
  have "in_column_order ?keys = ?keys" unfolding in_column_order_def starts using c(3) by simp
  then have "matrix_keys tables input opts = Some (Inr (?keys, graph_consumed g))"
    by (simp add: matrix_keys_def g c(1))
  moreover have "sk_start k < sk_to k \<and> sk_to k \<le> graph_consumed g" if "k \<in> set (concat columns)" for k
    using that c(2) by (auto simp: scan_entry_def in_set_conv_nth [of _ columns])
  ultimately show ?thesis
    using c(3) starts consumed_bound [OF g] by (auto simp: matrix_key_new_def comp_def)
qed

definition scanned_view :: "columns_view \<Rightarrow> bool" where
  "scanned_view v \<longleftrightarrow> (\<exists>tables input opts spans parsed. length input \<le> MAX_GRAPH_POSITION \<and> 0 \<notin> set input \<and>
     matrix_spans tables input opts = Some (Inr (spans, parsed)) \<and> v = columns_new input parsed spans True)"

lemma matrix_spans_ok:
  assumes "length input \<le> MAX_GRAPH_POSITION" "0 \<notin> set input"
  shows "\<exists>spans parsed. matrix_spans tables input opts = Some (Inr (spans, parsed)) \<and> sorted (map fst spans) \<and>
    parsed \<le> length input \<and> (\<forall>s \<in> set spans. fst s < snd s \<and> snd s \<le> parsed)"
  using matrix_keys_ok [OF assms, of tables opts] by (auto simp: matrix_spans_def comp_def)

interpretation scanned: span_source scanned_view
proof unfold_locales
  fix v
  assume "scanned_view v"
  then obtain tables input opts spans parsed where v: "length input \<le> MAX_GRAPH_POSITION" "0 \<notin> set input"
      "matrix_spans tables input opts = Some (Inr (spans, parsed))" "v = columns_new input parsed spans True"
    unfolding scanned_view_def by blast
  show "v = columns_new (cv_input v) (cv_parsed v) (cv_spans v) (cv_separators v)"
    by (simp add: v(4)) (simp add: columns_new_def)
  show "slice_ok (cv_input v)" using v(1) by (simp add: v(4) slice_ok_def MAX_GRAPH_POSITION_def)
  show "sorted (map fst (cv_spans v))" using matrix_spans_ok [OF v(1,2), of tables opts] v(3) by (auto simp: v(4))
qed

lemma normal_offset_stays:
  assumes "last_at Q m n" "run_start P n r" "\<And>j. P j \<Longrightarrow> Q j" "last_at Q r n'" "run_start P n' r'"
  shows "r' = r"
proof -
  have "n' \<le> r" "r \<le> n" using assms(2,4) by (auto simp: last_at_def run_start_def)
  have "r = 0 \<or> Q r"
  proof (cases "r = n")
    case True
    then show ?thesis using assms(1) by (auto simp: last_at_def)
  next
    case False
    then show ?thesis using assms(2,3) \<open>r \<le> n\<close> by (auto simp: run_start_def)
  qed
  then have "\<not> n' < r" using assms(4) unfolding last_at_def by auto
  then have "n' = r" using \<open>n' \<le> r\<close> by simp
  moreover have "\<not> r' < r" if "r' \<noteq> 0"
  proof
    assume "r' < r"
    then have "P (r - 1)" "1 < r" using assms(5) \<open>n' = r\<close> that by (auto simp: run_start_def)
    then show False using assms(2) by (simp add: run_start_def)
  qed
  ultimately show ?thesis using assms(5) by (auto simp: run_start_def)
qed

lemma lookup_normal:
  assumes src: "scanned_view v" and v: "v = columns_new input parsed spans True"
    and ne: "spans \<noteq> [] \<or> parsed = 0" and len: "parsed \<le> length input"
  shows "\<exists>n \<le> min cursor parsed. lookup_offset_over_spans input parsed spans True cursor = Inr n \<and>
    lookup_offset_over_spans input parsed spans True n = Inr n \<and> (0 < n \<longrightarrow> \<not> lone_at v (n - 1))"
proof -
  let ?Q = "\<lambda>j. keys_at v j \<noteq> [] \<or> zero_at v j"
  have first: "\<not> lone_at v 0" if "0 < parsed" using that ne len by (auto simp: v lone_at_def zero_at_def)
  obtain n r where n: "last_at ?Q (min cursor (min parsed (length input))) n" "run_start (lone_at v) n r"
    and r: "lookup_offset_over_spans input parsed spans True cursor = (if r = 1 \<and> lone_at v 0 then Inl (ZeroKeyOffsetCheck 1) else Inr r)"
    using scanned.lookup_law [OF src v] by blast
  have bound: "r \<le> min cursor parsed" using n by (auto simp: last_at_def run_start_def)
  then have cut: "min r (min parsed (length input)) = r" using len by simp
  obtain n' r' where n': "last_at ?Q r n'" "run_start (lone_at v) n' r'"
    and r': "lookup_offset_over_spans input parsed spans True r = (if r' = 1 \<and> lone_at v 0 then Inl (ZeroKeyOffsetCheck 1) else Inr r')"
    using scanned.lookup_law [OF src v, of r] unfolding cut by blast
  have "r' = r" by (rule normal_offset_stays [OF n _ n']) (simp add: lone_at_def)
  moreover have "\<not> (r = 1 \<and> lone_at v 0)" using first bound by auto
  moreover have "\<not> lone_at v (r - 1)" if "0 < r" using that n(2) first bound by (cases "r = 1") (auto simp: run_start_def)
  ultimately show ?thesis using r r' bound by auto
qed

lemma left_answer:
  assumes src: "scanned_view v" and v: "v = columns_new input parsed spans True"
    and l: "left_word_offset_over_spans input parsed spans True offset = Inr n"
  shows "n \<le> offset - 1"
proof -
  have len: "offset \<le> length input" using scanned.refused(1) [OF src v, of offset] l by (cases "offset \<le> length input") auto
  have ok: "offset = 0 \<or> \<not> lone_at v (offset - 1)"
    using scanned.refused(2) [OF src v len] l by (cases "offset = 0") auto
  show ?thesis
    using scanned.left_law [OF src v len ok] l by (auto simp: last_at_def run_start_def split: if_splits)
qed

lemma right_answer:
  assumes src: "scanned_view v" and v: "v = columns_new input parsed spans True"
    and fwd: "\<forall>s \<in> set spans. fst s < snd s"
    and r: "right_word_offset_over_spans input parsed spans True offset = Inr (Some n)"
  shows "offset < n"
proof -
  have len: "offset \<le> length input" using scanned.refused(1) [OF src v, of offset] r by (cases "offset \<le> length input") auto
  have ok: "offset = 0 \<or> \<not> lone_at v (offset - 1)"
    using scanned.refused(2) [OF src v len] r by (cases "offset = 0") auto
  have "m < snd (hd (keys_at v m))" if "keys_at v m \<noteq> []" for m
    using that hd_in_set [OF that] fwd by (auto simp: keys_at_def starts_at_def v split: if_splits)
  then show ?thesis
    using scanned.right_law [OF src v len ok] r by (fastforce simp: Let_def split: if_splits)
qed

section \<open>Properties\<close>

text \<open>C20: the three cursor laws over any ordered key list. The lookup offset is found from the clamped cursor:
  the nearest position at or before it that holds a key or a separator, then back over the run of lone
  separators that ends there. The left move goes to the nearest start of an entry that ends at the
  offset, then back over separators; the right move skips separators and answers the end of the first
  entry there, or nothing when no entry starts there. An offset past the buffer is refused, and so is an
  offset just after a lone separator column.\<close>

theorem cursor_laws:
  assumes "slice_ok input" "sorted (map fst spans)" and v: "v = columns_new input parsed_len spans separators"
  shows "(\<exists>n r. last_at (\<lambda>j. keys_at v j \<noteq> [] \<or> zero_at v j) (min cursor (min parsed_len (length input))) n \<and>
      run_start (lone_at v) n r \<and>
      lookup_offset_over_spans input parsed_len spans separators cursor =
        (if r = 1 \<and> lone_at v 0 then Inl (ZeroKeyOffsetCheck 1) else Inr r)) \<and>
    (length input < offset \<longrightarrow>
      left_word_offset_over_spans input parsed_len spans separators offset = Inl (LookupOffsetOutOfRange offset (length input)) \<and>
      right_word_offset_over_spans input parsed_len spans separators offset = Inl (LookupOffsetOutOfRange offset (length input))) \<and>
    (offset \<le> length input \<and> 0 < offset \<and> lone_at v (offset - 1) \<longrightarrow>
      left_word_offset_over_spans input parsed_len spans separators offset = Inl (ZeroKeyOffsetCheck offset) \<and>
      right_word_offset_over_spans input parsed_len spans separators offset = Inl (ZeroKeyOffsetCheck offset)) \<and>
    (offset \<le> length input \<and> (offset = 0 \<or> \<not> lone_at v (offset - 1)) \<longrightarrow>
      (\<exists>n r. last_at (ends_at v offset) (offset - 1) n \<and> run_start (lone_at v) n r \<and>
         left_word_offset_over_spans input parsed_len spans separators offset =
           (if r = 1 \<and> lone_at v 0 then Inl (ZeroKeyOffsetCheck 1) else Inr r)) \<and>
      (\<exists>n. offset \<le> n \<and> n \<le> length input \<and> (\<forall>j. offset \<le> j \<and> j < n \<longrightarrow> lone_at v j) \<and>
         (n < length input \<longrightarrow> \<not> lone_at v n) \<and>
         right_word_offset_over_spans input parsed_len spans separators offset =
           (if keys_at v n = [] \<and> \<not> zero_at v n then Inr None
            else let e = (if keys_at v n = [] then n + 1 else snd (hd (keys_at v n)))
                 in if 0 < e \<and> lone_at v (e - 1) then Inl (ZeroKeyOffsetCheck e) else Inr (Some e))))"
proof -
  have src: "ordered_view v" using ordered_view_new [OF assms(1,2)] v by blast
  show ?thesis
    using ordered.lookup_law [OF src v, of cursor] ordered.refused [OF src v, of offset]
      ordered.left_law [OF src v, of offset] ordered.right_law [OF src v, of offset]
    by blast
qed

theorem cursor_laws_witness:
  "lookup_offset_over_spans [0x61, APOSTROPHE, 0x61] 3 [(0, 1), (2, 3)] True 2 = Inr 1 \<and>
   left_word_offset_over_spans [0x61, APOSTROPHE, 0x61] 3 [(0, 1), (2, 3)] True 2 = Inl (ZeroKeyOffsetCheck 2)"
proof -
  let ?v = "columns_new [0x61, APOSTROPHE, 0x61] 3 [(0, 1), (2, 3)] True"
  have lone: "lone_at ?v 1" "\<not> lone_at ?v 0" and key: "keys_at ?v 2 \<noteq> []"
    by (simp_all add: lone_at_def zero_at_def keys_at_def starts_at_def APOSTROPHE_def)
  have ok: "slice_ok [0x61, APOSTROPHE, 0x61]" "sorted (map fst [(0 :: nat, 1 :: nat), (2, 3)])"
    by (simp_all add: slice_ok_def usize_max_def)
  note law = cursor_laws [OF ok refl, of 3 True 2 2]
  have two: "min 2 (min 3 (length [0x61, APOSTROPHE, 0x61])) = (2 :: nat)" by simp
  obtain n r where n: "last_at (\<lambda>j. keys_at ?v j \<noteq> [] \<or> zero_at ?v j) 2 n" "run_start (lone_at ?v) n r"
    and r: "lookup_offset_over_spans [0x61, APOSTROPHE, 0x61] 3 [(0, 1), (2, 3)] True 2 = Inr r"
    using conjunct1 [OF law] unfolding two by (simp only: lone(2) simp_thms if_False) blast
  have "n \<le> 2" "\<not> n < 2" using n(1) key unfolding last_at_def by blast+
  then have "n = 2" by simp
  then have "r = 1" using n(2) lone by (auto simp: run_start_def le_Suc_eq numeral_2_eq_2)
  then show ?thesis using r law lone(1) by simp
qed

text \<open>C21: the cursor entry points on a typed buffer without NUL bytes, of any length the graph accepts. The
  matrix build returns, in order. When the parse has a key, or consumed nothing, every cursor is
  normalized: the answer is at most the cursor and the parsed length, and normalizing it again gives
  it back; the left word move does not refuse it as a separator. A left move that answers never moves right, a right move that
  answers with an offset always moves right.\<close>

theorem cursor_on_input:
  assumes len: "length input \<le> MAX_GRAPH_POSITION" and nul: "0 \<notin> set input"
  shows "\<exists>keys parsed. matrix_keys tables input opts = Some (Inr (keys, parsed)) \<and>
    (keys \<noteq> [] \<or> parsed = 0 \<longrightarrow>
      (\<exists>n \<le> min cursor parsed. lookup_offset_for_cursor tables input opts cursor = Some (Inr n) \<and>
         lookup_offset_for_cursor tables input opts n = Some (Inr n) \<and>
         left_word_offset tables input opts n \<noteq> Some (Inl (ZeroKeyOffsetCheck n)))) \<and>
    (\<exists>l r. left_word_offset tables input opts offset = Some l \<and> right_word_offset tables input opts offset = Some r \<and>
      (\<forall>n. l = Inr n \<longrightarrow> n \<le> offset - 1) \<and> (\<forall>n. r = Inr (Some n) \<longrightarrow> offset < n))"
proof -
  obtain keys parsed where keys: "matrix_keys tables input opts = Some (Inr (keys, parsed))" "sorted (map mk_start keys)"
      "parsed \<le> length input" "\<forall>k \<in> set keys. mk_start k < mk_end k \<and> mk_end k \<le> parsed"
    using matrix_keys_ok [OF assms] by blast
  define spans where "spans = map (\<lambda>k. (mk_start k, mk_end k)) keys"
  have spans: "matrix_spans tables input opts = Some (Inr (spans, parsed))"
    by (simp add: matrix_spans_def keys(1) spans_def)
  let ?v = "columns_new input parsed spans True"
  have src: "scanned_view ?v" unfolding scanned_view_def using assms spans by blast
  have fwd: "\<forall>s \<in> set spans. fst s < snd s" using keys(4) by (auto simp: spans_def)
  note laws = lookup_offset_for_cursor_def left_word_offset_def right_word_offset_def over_matrix_def spans
  have "\<exists>n \<le> min cursor parsed. lookup_offset_for_cursor tables input opts cursor = Some (Inr n) \<and>
      lookup_offset_for_cursor tables input opts n = Some (Inr n) \<and>
      left_word_offset tables input opts n \<noteq> Some (Inl (ZeroKeyOffsetCheck n))" if "keys \<noteq> [] \<or> parsed = 0"
  proof -
    have "spans \<noteq> [] \<or> parsed = 0" using that by (auto simp: spans_def)
    from lookup_normal [OF src refl this keys(3), of cursor] obtain n where n: "n \<le> min cursor parsed"
        "lookup_offset_over_spans input parsed spans True cursor = Inr n"
        "lookup_offset_over_spans input parsed spans True n = Inr n" "0 < n \<longrightarrow> \<not> lone_at ?v (n - 1)"
      by blast
    have "left_word_offset_over_spans input parsed spans True n \<noteq> Inl (ZeroKeyOffsetCheck n)"
      using scanned.left_law [OF src refl, of n] n keys(3) by (fastforce split: if_splits)
    with n show ?thesis by (auto simp: laws)
  qed
  moreover have "\<exists>l r. left_word_offset tables input opts offset = Some l \<and> right_word_offset tables input opts offset = Some r \<and>
      (\<forall>n. l = Inr n \<longrightarrow> n \<le> offset - 1) \<and> (\<forall>n. r = Inr (Some n) \<longrightarrow> offset < n)"
    using left_answer [OF src refl, of offset] right_answer [OF src refl fwd, of offset] by (simp add: laws)
  ultimately show ?thesis using keys(1) by blast
qed

theorem cursor_on_input_witness:
  "\<exists>keys parsed l. matrix_keys \<lparr>ct_index = [], ct_field = (\<lambda>_ _. None), ct_content = [], ct_keys = []\<rparr> [0x6e, 0x69] 0 =
       Some (Inr (keys, parsed)) \<and>
     left_word_offset \<lparr>ct_index = [], ct_field = (\<lambda>_ _. None), ct_content = [], ct_keys = []\<rparr> [0x6e, 0x69] 0 2 = Some l \<and>
     (\<forall>n. l = Inr n \<longrightarrow> n \<le> 1)"
proof -
  have "length [0x6e, 0x69] \<le> MAX_GRAPH_POSITION" "(0 :: u8) \<notin> set [0x6e, 0x69]" by (simp_all add: MAX_GRAPH_POSITION_def)
  from cursor_on_input [OF this, of "\<lparr>ct_index = [], ct_field = (\<lambda>_ _. None), ct_content = [], ct_keys = []\<rparr>" 0 0 2]
  show ?thesis by auto
qed

end
