(* ===== verification/CharOffset.thy ===== *)
theory CharOffset
  imports Cursor PhraseText
begin

text \<open>
  \<open>crates/oxpinyin-engine/src/char_offset.rs\<close>: the character offset of a byte offset in a committed phrase, and
  the walk that finds the readings of a remembered phrase, both depth-first over the columns of the key
  matrix. The dictionary is an argument: the test whether a token pronounces a key, which in the code
  ends in a single-precision division, and the tokens of a character. The remembering walk calls its test
  and \<open>add\<close> in turn, so that the test may fail and sees what \<open>add\<close> wrote: both take and return the state.
  Both recursions are modelled as written, \<open>None\<close> meaning that they do not return; below, they always
  return and answer as the paths of the columns say.
\<close>

section \<open>The columns\<close>

record key_column =
  kc_real :: "matrix_key list"
  kc_zero :: "nat option"

definition key_column_lone_zero :: "key_column \<Rightarrow> bool" where
  "key_column_lone_zero c \<longleftrightarrow> kc_real c = [] \<and> kc_zero c \<noteq> None"

definition push_real :: "matrix_key \<Rightarrow> key_column list \<Rightarrow> key_column list" where
  "push_real key columns =
     (if mk_start key < length columns
      then columns[mk_start key := (columns ! mk_start key)\<lparr>kc_real := kc_real (columns ! mk_start key) @ [key]\<rparr>]
      else columns)"

definition put_zero :: "nat \<Rightarrow> key_column list \<Rightarrow> key_column list" where
  "put_zero pos columns = columns[pos := (columns ! pos)\<lparr>kc_zero := Some (pos + 1)\<rparr>]"

definition build_columns :: "bytes \<Rightarrow> nat \<Rightarrow> matrix_key list \<Rightarrow> bool \<Rightarrow> key_column list" where
  "build_columns input parsed_len keys separators =
     (let bound = length input;
          columns = fold push_real keys (replicate (bound + 1) \<lparr>kc_real = [], kc_zero = None\<rparr>);
          parsed = min parsed_len bound;
          leading_run = length (takeWhile (\<lambda>b. b = APOSTROPHE) input);
          columns = (if separators
            then fold (\<lambda>pos columns. if input ! pos = APOSTROPHE \<and> (leading_run \<le> pos \<or> keys = [])
                   then put_zero pos columns else columns) [0..<parsed] columns
            else columns)
      in fold put_zero [parsed..<length columns] columns)"

record matrix_columns_rec =
  mc_columns :: "key_column list"
  mc_end :: nat

definition matrix_columns :: "bytes \<Rightarrow> nat \<Rightarrow> matrix_key list \<Rightarrow> bool \<Rightarrow> matrix_columns_rec option" where
  "matrix_columns input parsed_len keys separators =
     (if input = [] \<or> keys = [] then None
      else Some \<lparr>mc_columns = build_columns input parsed_len keys separators, mc_end = min parsed_len (length input)\<rparr>)"

section \<open>The remembering walk\<close>

text \<open>The two callbacks read and write a state of their caller, which the walk threads through. A column is
  either entered or, inside its loop, has some of its keys left to try.\<close>

datatype remember_task =
    Enter_column nat "matrix_key list"
  | Try_keys key_column "matrix_key list" "matrix_key list" bool

record ('s, 'e) remember_calls =
  rc_pronounces :: "matrix_key \<Rightarrow> nat \<Rightarrow> 's \<Rightarrow> ('e + bool) \<times> 's"
  rc_add :: "matrix_key list \<Rightarrow> 's \<Rightarrow> ('e + bool) \<times> 's"

text \<open>The head of the recursion: an answer at once, or the column whose keys are tried.\<close>

definition enter_column ::
    "matrix_columns_rec \<Rightarrow> nat \<Rightarrow> (matrix_key list \<Rightarrow> 's \<Rightarrow> ('e + bool) \<times> 's) \<Rightarrow> nat \<Rightarrow> matrix_key list \<Rightarrow> 's \<Rightarrow>
     (('e + bool) \<times> 's) + key_column" where
  "enter_column columns phrase_len add start path s =
     (if mc_end columns < start then Inl (Inr False, s)
      else if start = mc_end columns then
        (if length path \<noteq> phrase_len \<or> path = [] then Inl (Inr False, s) else Inl (add path s))
      else case get_at (mc_columns columns) start of
          None \<Rightarrow> Inl (Inr False, s)
        | Some column \<Rightarrow> if kc_real column = [] \<and> kc_zero column = None then Inl (Inr False, s) else Inr column)"

partial_function (option) remember_recur ::
    "matrix_columns_rec \<Rightarrow> nat \<Rightarrow> ('s, 'e) remember_calls \<Rightarrow> remember_task \<Rightarrow> 's \<Rightarrow> (('e + bool) \<times> 's) option" where
  "remember_recur columns phrase_len calls task s =
     (case task of
        Enter_column start path \<Rightarrow>
          (case enter_column columns phrase_len (rc_add calls) start path s of
             Inl r \<Rightarrow> Some r
           | Inr column \<Rightarrow> remember_recur columns phrase_len calls (Try_keys column (kc_real column) path False) s)
      | Try_keys column keys path result \<Rightarrow>
          (case keys of
             [] \<Rightarrow> (case kc_zero column of
                 None \<Rightarrow> Some (Inr result, s)
               | Some zend \<Rightarrow>
                   if kc_real column \<noteq> [] then Some (Inr False, s)
                   else remember_recur columns phrase_len calls (Enter_column zend path) s)
           | key # rest \<Rightarrow>
               if phrase_len \<le> length path then Some (Inr False, s)
               else (case rc_pronounces calls key (length path) s of
                  (Inl err, s) \<Rightarrow> Some (Inl err, s)
                | (Inr kept, s) \<Rightarrow>
                    if \<not> kept then remember_recur columns phrase_len calls (Try_keys column rest path result) s
                    else Option.bind (remember_recur columns phrase_len calls (Enter_column (mk_end key) (path @ [key])) s)
                      (\<lambda>r. case r of
                         (Inl err, s) \<Rightarrow> Some (Inl err, s)
                       | (Inr found, s) \<Rightarrow>
                           remember_recur columns phrase_len calls (Try_keys column rest path (found \<or> result)) s))))"

definition remember_walk ::
    "matrix_columns_rec \<Rightarrow> nat \<Rightarrow> (matrix_key \<Rightarrow> nat \<Rightarrow> 's \<Rightarrow> ('e + bool) \<times> 's) \<Rightarrow>
     (matrix_key list \<Rightarrow> 's \<Rightarrow> ('e + bool) \<times> 's) \<Rightarrow> 's \<Rightarrow> (('e + bool) \<times> 's) option" where
  "remember_walk columns phrase_len pron add s =
     remember_recur columns phrase_len \<lparr>rc_pronounces = pron, rc_add = add\<rparr> (Enter_column 0 []) s"

section \<open>The character offset\<close>

datatype walk_task =
    At_column nat nat
  | Over_keys "matrix_key list" nat

partial_function (option) char_walk ::
    "(matrix_key \<Rightarrow> u32 \<Rightarrow> engine_error + bool) \<Rightarrow> key_column list \<Rightarrow> u32 list \<Rightarrow> nat \<Rightarrow> walk_task \<Rightarrow>
     (engine_error + nat option) option" where
  "char_walk pronounces columns tokens offset task =
     (case task of
        At_column start len \<Rightarrow>
          if offset < start then Some (Inr (Some len))
          else (case get_at columns start of
             None \<Rightarrow> Some (Inl (MatrixColumnAssert start))
           | Some column \<Rightarrow>
               if kc_real column = [] \<and> kc_zero column = None then Some (Inl (MatrixColumnAssert start))
               else (case kc_zero column of
                  Some zend \<Rightarrow>
                    if kc_real column \<noteq> [] then Some (Inl (MatrixColumnAssert start))
                    else char_walk pronounces columns tokens offset (At_column zend len)
                | None \<Rightarrow> char_walk pronounces columns tokens offset (Over_keys (kc_real column) len)))
      | Over_keys keys len \<Rightarrow>
          (case keys of
             [] \<Rightarrow> Some (Inr None)
           | key # rest \<Rightarrow>
               (case get_at tokens len of
                  None \<Rightarrow> char_walk pronounces columns tokens offset (Over_keys rest len)
                | Some token \<Rightarrow>
                    (case pronounces key token of
                       Inl err \<Rightarrow> Some (Inl err)
                     | Inr kept \<Rightarrow>
                         if \<not> kept then char_walk pronounces columns tokens offset (Over_keys rest len)
                         else if offset < mk_end key then Some (Inr (Some len))
                         else Option.bind (char_walk pronounces columns tokens offset (At_column (mk_end key) (len + 1)))
                           (\<lambda>r. case r of
                              Inl err \<Rightarrow> Some (Inl err)
                            | Inr (Some found) \<Rightarrow> Some (Inr (Some found))
                            | Inr None \<Rightarrow> char_walk pronounces columns tokens offset (Over_keys rest len))))))"

text \<open>The first token of each character; \<open>Inr None\<close> is a character without one.\<close>

fun pre_compute_tokens :: "(u32 list \<Rightarrow> u32 list) \<Rightarrow> u32 list \<Rightarrow> u32 list \<Rightarrow> engine_error + u32 list option" where
  "pre_compute_tokens tokens_for [] tokens = Inr (Some tokens)"
| "pre_compute_tokens tokens_for (ch # chs) tokens =
     (let found = tokens_for [ch] in
      if 4 < length found then Inl (ReduceTokensCount (length found))
      else case found of [] \<Rightarrow> Inr None | token # _ \<Rightarrow> pre_compute_tokens tokens_for chs (tokens @ [token]))"

definition character_offset_with_walk_over_keys ::
    "bytes \<Rightarrow> nat \<Rightarrow> matrix_key list \<Rightarrow> bool \<Rightarrow> (matrix_key \<Rightarrow> u32 \<Rightarrow> engine_error + bool) \<Rightarrow> (u32 list \<Rightarrow> u32 list) \<Rightarrow>
     phrase_text \<Rightarrow> nat \<Rightarrow> (engine_error + nat option \<times> bool) option" where
  "character_offset_with_walk_over_keys input parsed_len keys separators pronounces tokens_for phrase offset =
     (if input = [] \<or> keys = [] then Some (Inr (None, False))
      else if length input < offset then Some (Inl (LookupOffsetOutOfRange offset (length input)))
      else
        let columns = build_columns input parsed_len keys separators in
        if 0 < offset \<and> (case get_at columns (offset - 1) of Some c \<Rightarrow> key_column_lone_zero c | None \<Rightarrow> False)
        then Some (Inl (ZeroKeyOffsetCheck offset))
        else if text_is_empty phrase then Some (Inr (None, False))
        else case pre_compute_tokens tokens_for (outward_words phrase) [] of
            Inl err \<Rightarrow> Some (Inl err)
          | Inr None \<Rightarrow> Some (Inr (None, False))
          | Inr (Some tokens) \<Rightarrow>
              map_option (map_sum id (\<lambda>count. (count, True))) (char_walk pronounces columns tokens offset (At_column 0 0)))"

definition character_offset_over_keys ::
    "bytes \<Rightarrow> nat \<Rightarrow> matrix_key list \<Rightarrow> bool \<Rightarrow> (matrix_key \<Rightarrow> u32 \<Rightarrow> engine_error + bool) \<Rightarrow> (u32 list \<Rightarrow> u32 list) \<Rightarrow>
     phrase_text \<Rightarrow> nat \<Rightarrow> (engine_error + nat option) option" where
  "character_offset_over_keys input parsed_len keys separators pronounces tokens_for phrase offset =
     map_option (map_sum id fst)
       (character_offset_with_walk_over_keys input parsed_len keys separators pronounces tokens_for phrase offset)"

section \<open>The columns are the cursor's\<close>

abbreviation key_span :: "matrix_key \<Rightarrow> nat \<times> nat" where
  "key_span k \<equiv> (mk_start k, mk_end k)"

lemma push_real_fold:
  "length (fold push_real keys columns) = length columns \<and>
   (\<forall>pos < length columns. fold push_real keys columns ! pos =
      (columns ! pos)\<lparr>kc_real := kc_real (columns ! pos) @ filter (\<lambda>k. mk_start k = pos) keys\<rparr>)"
proof (induction keys arbitrary: columns)
  case (Cons key keys)
  have "length (push_real key columns) = length columns" by (simp add: push_real_def)
  moreover have "push_real key columns ! pos =
      (columns ! pos)\<lparr>kc_real := kc_real (columns ! pos) @ (if mk_start key = pos then [key] else [])\<rparr>"
    if "pos < length columns" for pos
    using that by (auto simp: push_real_def nth_list_update)
  ultimately show ?case using Cons.IH [of "push_real key columns"] by simp
qed simp

lemma put_zero_fold:
  assumes "set ps \<subseteq> {..<length columns}"
  shows "length (fold (\<lambda>pos columns. if P pos then put_zero pos columns else columns) ps columns) = length columns \<and>
   (\<forall>i < length columns. fold (\<lambda>pos columns. if P pos then put_zero pos columns else columns) ps columns ! i =
      (if i \<in> set ps \<and> P i then (columns ! i)\<lparr>kc_zero := Some (i + 1)\<rparr> else columns ! i))"
  using assms
proof (induction ps arbitrary: columns)
  case (Cons p ps)
  then show ?case
    using Cons.IH [of "if P p then put_zero p columns else columns"] by (auto simp: put_zero_def nth_list_update)
qed simp

lemma fold_skip: "fold (\<lambda>_ s. s) xs s = s"
  by (induction xs) simp_all

lemma build_columns_reads:
  assumes v: "v = columns_new input parsed_len (map key_span keys) separators" and ne: "input \<noteq> []"
  shows "length (build_columns input parsed_len keys separators) = length input + 1"
    "pos \<le> length input \<Longrightarrow> build_columns input parsed_len keys separators ! pos =
       \<lparr>kc_real = filter (\<lambda>k. mk_start k = pos) keys, kc_zero = (if zero_at v pos then Some (pos + 1) else None)\<rparr>"
proof -
  let ?n = "length input" and ?parsed = "min parsed_len (length input)"
  define P where "P = (\<lambda>pos. separators \<and> input ! pos = APOSTROPHE \<and>
      (length (takeWhile (\<lambda>b. b = APOSTROPHE) input) \<le> pos \<or> keys = []))"
  define placed where "placed = fold push_real keys (replicate (?n + 1) \<lparr>kc_real = [], kc_zero = None\<rparr>)"
  define sep where "sep = fold (\<lambda>pos columns. if P pos then put_zero pos columns else columns) [0..<?parsed] placed"
  have same: "build_columns input parsed_len keys separators =
      fold (\<lambda>pos columns. if True then put_zero pos columns else columns) [?parsed..<length sep] sep"
    by (cases separators)
      (simp_all add: build_columns_def Let_def sep_def placed_def P_def fold_skip del: upt_Suc replicate_Suc)
  have p: "length placed = ?n + 1"
      "pos \<le> ?n \<Longrightarrow> placed ! pos = \<lparr>kc_real = filter (\<lambda>k. mk_start k = pos) keys, kc_zero = None\<rparr>" for pos
    using push_real_fold [of keys "replicate (?n + 1) \<lparr>kc_real = [], kc_zero = None\<rparr>"]
    by (auto simp: placed_def less_Suc_eq_le simp del: replicate_Suc)
  have s: "length sep = ?n + 1"
      "pos \<le> ?n \<Longrightarrow> sep ! pos = (if pos < ?parsed \<and> P pos then (placed ! pos)\<lparr>kc_zero := Some (pos + 1)\<rparr> else placed ! pos)" for pos
  proof -
    have "set [0..<?parsed] \<subseteq> {..<length placed}" using p(1) by auto
    note zeros = put_zero_fold [OF this, of P, folded sep_def]
    show "length sep = ?n + 1" using zeros p(1) by simp
    show "sep ! pos = (if pos < ?parsed \<and> P pos then (placed ! pos)\<lparr>kc_zero := Some (pos + 1)\<rparr> else placed ! pos)"
      if "pos \<le> ?n" for pos using zeros p(1) that by simp
  qed
  have "set [?parsed..<length sep] \<subseteq> {..<length sep}" by auto
  note tail = put_zero_fold [OF this, of "\<lambda>_. True", folded same]
  show "length (build_columns input parsed_len keys separators) = ?n + 1" using tail s(1) by simp
  assume pos: "pos \<le> ?n"
  have "build_columns input parsed_len keys separators ! pos =
      (if ?parsed \<le> pos then (sep ! pos)\<lparr>kc_zero := Some (pos + 1)\<rparr> else sep ! pos)"
    using tail s(1) pos by simp
  also have "\<dots> = \<lparr>kc_real = filter (\<lambda>k. mk_start k = pos) keys,
      kc_zero = (if ?parsed \<le> pos \<or> P pos then Some (pos + 1) else None)\<rparr>"
    using p(2) [OF pos] s(2) [OF pos] by auto
  also have "(?parsed \<le> pos \<or> P pos) \<longleftrightarrow> zero_at v pos"
  proof -
    have "zero_end v pos = (if zero_at v pos then Some (pos + 1) else None)" using zero_end_iff [OF v pos] .
    moreover have "zero_end v pos = (if ?parsed \<le> pos \<or> P pos then Some (pos + 1) else None)"
      using ne by (auto simp: zero_end_def v P_def) (auto simp: columns_new_def)
    ultimately show ?thesis by (metis option.distinct(1))
  qed
  finally show "build_columns input parsed_len keys separators ! pos =
       \<lparr>kc_real = filter (\<lambda>k. mk_start k = pos) keys, kc_zero = (if zero_at v pos then Some (pos + 1) else None)\<rparr>" .
qed

text \<open>A built column list: a separator entry ends one past its column.\<close>

definition built_columns :: "key_column list \<Rightarrow> bool" where
  "built_columns columns \<longleftrightarrow> (\<forall>i < length columns. \<forall>z. kc_zero (columns ! i) = Some z \<longrightarrow> z = Suc i)"

lemma build_columns_built: "input \<noteq> [] \<Longrightarrow> built_columns (build_columns input parsed_len keys separators)"
  using build_columns_reads [OF refl, where input = input and parsed_len = parsed_len and keys = keys and separators = separators]
  by (auto simp: built_columns_def less_Suc_eq_le split: if_splits)

section \<open>The character walk\<close>

text \<open>The readings of a prefix: from column \<open>start\<close> with \<open>len\<close> characters read, separators are stepped over and
  keys pronounced by the next character are taken, until a column past the offset or a key that ends
  past it; \<open>n\<close> is the number of characters read by then.\<close>

inductive char_reading ::
    "(matrix_key \<Rightarrow> u32 \<Rightarrow> engine_error + bool) \<Rightarrow> key_column list \<Rightarrow> u32 list \<Rightarrow> nat \<Rightarrow> nat \<Rightarrow> nat \<Rightarrow> nat \<Rightarrow> bool"
  for pronounces columns tokens offset where
  past: "offset < start \<Longrightarrow> char_reading pronounces columns tokens offset start len len"
| separator: "start \<le> offset \<Longrightarrow> get_at columns start = Some c \<Longrightarrow> kc_real c = [] \<Longrightarrow> kc_zero c = Some z \<Longrightarrow>
    char_reading pronounces columns tokens offset z len n \<Longrightarrow>
    char_reading pronounces columns tokens offset start len n"
| taken: "start \<le> offset \<Longrightarrow> get_at columns start = Some c \<Longrightarrow> kc_zero c = None \<Longrightarrow> key \<in> set (kc_real c) \<Longrightarrow>
    get_at tokens len = Some token \<Longrightarrow> pronounces key token = Inr True \<Longrightarrow> mk_end key \<le> offset \<Longrightarrow>
    char_reading pronounces columns tokens offset (mk_end key) (Suc len) n \<Longrightarrow>
    char_reading pronounces columns tokens offset start len n"
| final: "start \<le> offset \<Longrightarrow> get_at columns start = Some c \<Longrightarrow> kc_zero c = None \<Longrightarrow> key \<in> set (kc_real c) \<Longrightarrow>
    get_at tokens len = Some token \<Longrightarrow> pronounces key token = Inr True \<Longrightarrow> offset < mk_end key \<Longrightarrow>
    char_reading pronounces columns tokens offset start len len"

inductive_simps char_reading_iff: "char_reading pronounces columns tokens offset start len n"

text \<open>The walk stops with an error at a column it reaches that is empty or holds a separator beside keys.\<close>

definition bad_column :: "key_column list \<Rightarrow> nat \<Rightarrow> bool" where
  "bad_column columns p \<longleftrightarrow> (case get_at columns p of None \<Rightarrow> True | Some c \<Rightarrow> kc_real c = [] \<longleftrightarrow> kc_zero c = None)"

definition walk_answers ::
    "(matrix_key \<Rightarrow> u32 \<Rightarrow> engine_error + bool) \<Rightarrow> key_column list \<Rightarrow> nat \<Rightarrow> (nat \<Rightarrow> bool) \<Rightarrow> engine_error + nat option \<Rightarrow> bool" where
  "walk_answers pronounces columns offset R r \<longleftrightarrow> (case r of
     Inr (Some n) \<Rightarrow> R n
   | Inr None \<Rightarrow> (\<forall>n. \<not> R n)
   | Inl err \<Rightarrow> (\<exists>p \<le> offset. err = MatrixColumnAssert p \<and> bad_column columns p) \<or> (\<exists>key token. pronounces key token = Inl err))"

definition key_reading where
  "key_reading pronounces columns tokens offset keys len n \<longleftrightarrow>
     (\<exists>key \<in> set keys. \<exists>token. get_at tokens len = Some token \<and> pronounces key token = Inr True \<and>
        (if offset < mk_end key then n = len else char_reading pronounces columns tokens offset (mk_end key) (Suc len) n))"

lemma reading_at_keys:
  assumes "start \<le> offset" "get_at columns start = Some c" "kc_zero c = None"
  shows "char_reading pronounces columns tokens offset start len n \<longleftrightarrow>
    key_reading pronounces columns tokens offset (kc_real c) len n"
  using assms by (subst char_reading_iff) (auto simp: key_reading_def not_le split: if_splits; fastforce)

lemma walk_over_keys:
  assumes IH: "\<And>start. len < length tokens \<Longrightarrow> \<exists>r. char_walk pronounces columns tokens offset (At_column start (Suc len)) = Some r \<and>
      walk_answers pronounces columns offset (char_reading pronounces columns tokens offset start (Suc len)) r"
  shows "\<exists>r. char_walk pronounces columns tokens offset (Over_keys keys len) = Some r \<and>
      walk_answers pronounces columns offset (key_reading pronounces columns tokens offset keys len) r"
proof (induction keys)
  case Nil
  show ?case by (subst char_walk.simps) (simp add: walk_answers_def key_reading_def)
next
  case (Cons key keys)
  then obtain r where r: "char_walk pronounces columns tokens offset (Over_keys keys len) = Some r"
    "walk_answers pronounces columns offset (key_reading pronounces columns tokens offset keys len) r" by blast
  let ?go = "char_walk pronounces columns tokens offset (Over_keys (key # keys) len)"
  let ?R = "\<lambda>keys. key_reading pronounces columns tokens offset keys len"
  show ?case
  proof (cases "\<exists>token kept. get_at tokens len = Some token \<and> (pronounces key token = Inr True \<or> (\<exists>err. pronounces key token = Inl err))")
    case False
    then have "get_at tokens len = None \<or> (\<exists>token. get_at tokens len = Some token \<and> pronounces key token = Inr False)"
      by (metis (full_types) obj_sumE option.exhaust)
    then have "?go = Some r" "?R (key # keys) = ?R keys" using r(1)
      by (subst char_walk.simps, auto simp: key_reading_def fun_eq_iff)
    then show ?thesis using r(2) by simp
  next
    case True
    then obtain token where token: "get_at tokens len = Some token"
      and pron: "pronounces key token = Inr True \<or> (\<exists>err. pronounces key token = Inl err)" by blast
    then have len: "len < length tokens" by (simp add: get_at_def split: if_splits)
    from pron show ?thesis
    proof (elim disjE exE)
      fix err
      assume err: "pronounces key token = Inl err"
      then have "?go = Some (Inl err)" using token by (subst char_walk.simps) simp
      then show ?thesis using err by (auto simp: walk_answers_def)
    next
      assume kept: "pronounces key token = Inr True"
      show ?thesis
      proof (cases "offset < mk_end key")
        case True
        then have "?go = Some (Inr (Some len))" using token kept by (subst char_walk.simps) simp
        moreover have "?R (key # keys) len" using True token kept by (auto simp: key_reading_def)
        ultimately show ?thesis by (simp add: walk_answers_def)
      next
        case False
        obtain q where q: "char_walk pronounces columns tokens offset (At_column (mk_end key) (Suc len)) = Some q"
          "walk_answers pronounces columns offset (char_reading pronounces columns tokens offset (mk_end key) (Suc len)) q"
          using IH [OF len] by blast
        have go: "?go = (case q of Inl err \<Rightarrow> Some (Inl err) | Inr (Some found) \<Rightarrow> Some (Inr (Some found)) | Inr None \<Rightarrow> Some r)"
          using token kept False q(1) r(1) by (subst char_walk.simps) simp
        have split: "?R (key # keys) n \<longleftrightarrow> char_reading pronounces columns tokens offset (mk_end key) (Suc len) n \<or> ?R keys n" for n
          using token kept False by (auto simp: key_reading_def)
        show ?thesis using q(2) r(2) unfolding go walk_answers_def split
          by (cases q; auto split: option.splits sum.splits)
      qed
    qed
  qed
qed

lemma walk_at_column:
  assumes built: "built_columns columns"
    and keys: "\<And>keys. \<exists>r. char_walk pronounces columns tokens offset (Over_keys keys len) = Some r \<and>
      walk_answers pronounces columns offset (key_reading pronounces columns tokens offset keys len) r"
  shows "\<exists>r. char_walk pronounces columns tokens offset (At_column start len) = Some r \<and>
      walk_answers pronounces columns offset (char_reading pronounces columns tokens offset start len) r"
proof (induction "Suc offset - start" arbitrary: start rule: less_induct)
  case less
  let ?go = "char_walk pronounces columns tokens offset (At_column start len)"
  show ?case
  proof (cases "offset < start")
    case True
    then have "?go = Some (Inr (Some len))" by (subst char_walk.simps) simp
    then show ?thesis using True by (simp add: walk_answers_def char_reading.past)
  next
    case inside: False
    show ?thesis
    proof (cases "bad_column columns start")
      case True
      then have "?go = Some (Inl (MatrixColumnAssert start))"
        using inside by (subst char_walk.simps) (auto simp: bad_column_def split: option.splits)
      then show ?thesis using True inside by (auto simp: walk_answers_def)
    next
      case False
      then obtain c where c: "get_at columns start = Some c" "kc_real c = [] \<longleftrightarrow> kc_zero c \<noteq> None"
        by (auto simp: bad_column_def split: option.splits)
      show ?thesis
      proof (cases "kc_zero c")
        case None
        then have "?go = char_walk pronounces columns tokens offset (Over_keys (kc_real c) len)"
          using c inside by (subst char_walk.simps) simp
        moreover have "char_reading pronounces columns tokens offset start len = key_reading pronounces columns tokens offset (kc_real c) len"
          using reading_at_keys [OF _ c(1) None] inside by (simp add: fun_eq_iff)
        ultimately show ?thesis using keys [of "kc_real c"] by simp
      next
        case (Some z)
        then have z: "z = Suc start" using built c(1) by (auto simp: built_columns_def get_at_def split: if_splits)
        have "?go = char_walk pronounces columns tokens offset (At_column z len)"
          using c inside Some by (subst char_walk.simps) simp
        moreover have "char_reading pronounces columns tokens offset start len = char_reading pronounces columns tokens offset z len"
        proof
          show "char_reading pronounces columns tokens offset start len n = char_reading pronounces columns tokens offset z len n" for n
            using c inside Some by (subst char_reading_iff) auto
        qed
        moreover have "Suc offset - z < Suc offset - start" using inside z by simp
        ultimately show ?thesis using less by metis
      qed
    qed
  qed
qed

lemma char_walk_answers:
  assumes "built_columns columns"
  shows "\<exists>r. char_walk pronounces columns tokens offset (At_column start len) = Some r \<and>
      walk_answers pronounces columns offset (char_reading pronounces columns tokens offset start len) r"
proof (induction "length tokens - len" arbitrary: start len rule: less_induct)
  case less
  have "\<exists>r. char_walk pronounces columns tokens offset (Over_keys keys len) = Some r \<and>
      walk_answers pronounces columns offset (key_reading pronounces columns tokens offset keys len) r" for keys
    by (rule walk_over_keys, rule less) simp
  then show ?case by (rule walk_at_column [OF assms])
qed

section \<open>The events of the remembering walk\<close>

text \<open>Past the separators of a column.\<close>

function skip_zeros :: "matrix_columns_rec \<Rightarrow> nat \<Rightarrow> nat" where
  "skip_zeros columns start =
     (if start < mc_end columns \<and> key_column_lone_zero (mc_columns columns ! start) then skip_zeros columns (Suc start) else start)"
  by pat_completeness auto
termination
  by (relation "measure (\<lambda>(columns, start). mc_end columns - start)") auto

declare skip_zeros.simps [simp del]

definition walkable :: "matrix_columns_rec \<Rightarrow> bool" where
  "walkable columns \<longleftrightarrow> built_columns (mc_columns columns) \<and> mc_end columns < length (mc_columns columns) \<and>
     (\<forall>i < mc_end columns. kc_zero (mc_columns columns ! i) \<noteq> None \<longrightarrow> kc_real (mc_columns columns ! i) = [])"

text \<open>What a walk does, in order: it tests a key after a path, or adds a path, with the answer it got.\<close>

datatype 'e event = Tested "matrix_key list" matrix_key "'e + bool" | Added "matrix_key list" "'e + bool"

fun event_answer :: "'e event \<Rightarrow> 'e + bool" where
  "event_answer (Tested path key v) = v"
| "event_answer (Added path v) = v"

fun event_call :: "('s, 'e) remember_calls \<Rightarrow> 'e event \<Rightarrow> 's \<Rightarrow> ('e + bool) \<times> 's" where
  "event_call calls (Tested path key v) s = rc_pronounces calls key (length path) s"
| "event_call calls (Added path v) s = rc_add calls path s"

fun event_node :: "'e event \<Rightarrow> bool \<times> matrix_key list" where
  "event_node (Tested path key v) = (False, path @ [key])"
| "event_node (Added path v) = (True, path)"

text \<open>The answers are those of the callbacks, each in the state that the call before it left.\<close>

fun replays :: "('s, 'e) remember_calls \<Rightarrow> 'e event list \<Rightarrow> 's \<Rightarrow> 's \<Rightarrow> bool" where
  "replays calls [] s s' \<longleftrightarrow> s' = s"
| "replays calls (e # es) s s' \<longleftrightarrow> fst (event_call calls e s) = event_answer e \<and> replays calls es (snd (event_call calls e s)) s'"

text \<open>The walk ends at the first failing call, with its error; else it answers whether an \<open>add\<close> answered \<open>true\<close>, or
  \<open>result\<close>.\<close>

definition outcome :: "bool \<Rightarrow> 'e event list \<Rightarrow> ('e + bool) \<Rightarrow> bool" where
  "outcome result es r \<longleftrightarrow> (\<forall>e \<in> set (butlast es). \<not> isl (event_answer e)) \<and>
     (case r of Inl err \<Rightarrow> es \<noteq> [] \<and> event_answer (last es) = Inl err
      | Inr found \<Rightarrow> (\<forall>e \<in> set es. \<not> isl (event_answer e)) \<and> (found \<longleftrightarrow> result \<or> (\<exists>path. Added path (Inr True) \<in> set es)))"

text \<open>Where a path ends, the keys that may follow it, and whether it covers the parse.\<close>

definition path_end :: "matrix_key list \<Rightarrow> nat" where
  "path_end path = (if path = [] then 0 else mk_end (last path))"

definition key_offers :: "matrix_columns_rec \<Rightarrow> matrix_key list \<Rightarrow> matrix_key list" where
  "key_offers columns path =
     (let p = skip_zeros columns (path_end path) in if p < mc_end columns then kc_real (mc_columns columns ! p) else [])"

definition covers_parse :: "matrix_columns_rec \<Rightarrow> matrix_key list \<Rightarrow> bool" where
  "covers_parse columns path \<longleftrightarrow> path \<noteq> [] \<and> skip_zeros columns (path_end path) = mc_end columns"

text \<open>A path is open from \<open>root\<close> when it is \<open>root\<close> or its last key was accepted after the rest of it.\<close>

definition opened :: "matrix_key list \<Rightarrow> 'e event list \<Rightarrow> matrix_key list \<Rightarrow> bool" where
  "opened root es path \<longleftrightarrow> path = root \<or> (path \<noteq> [] \<and> Tested (butlast path) (last path) (Inr True) \<in> set es)"

text \<open>Only the keys on offer after an open path shorter than the phrase are tested, and only open paths of the
  phrase's length that cover the parse are added; unless a call fails, all of them are.\<close>

definition sound_events :: "matrix_columns_rec \<Rightarrow> nat \<Rightarrow> matrix_key list \<Rightarrow> 'e event list \<Rightarrow> bool" where
  "sound_events columns n root es \<longleftrightarrow>
     (\<forall>path key v. Tested path key v \<in> set es \<longrightarrow> length path < n \<and> key \<in> set (key_offers columns path) \<and> opened root es path) \<and>
     (\<forall>path v. Added path v \<in> set es \<longrightarrow> length path = n \<and> covers_parse columns path \<and> opened root es path)"

text \<open>Depth first: a key before what follows it, and the keys after a path in the order of their column.\<close>

fun earlier :: "matrix_columns_rec \<Rightarrow> bool \<times> matrix_key list \<Rightarrow> bool \<times> matrix_key list \<Rightarrow> bool" where
  "earlier columns (adds, path) (adds', path') \<longleftrightarrow>
     (\<exists>rel. \<not> adds \<and> path' = path @ rel \<and> (rel \<noteq> [] \<or> adds')) \<or>
     (\<exists>common k l ps qs xs ys zs. path = common @ k # ps \<and> path' = common @ l # qs \<and> key_offers columns common = xs @ k # ys @ l # zs)"

definition complete_events :: "matrix_columns_rec \<Rightarrow> nat \<Rightarrow> matrix_key list \<Rightarrow> 'e event list \<Rightarrow> bool" where
  "complete_events columns n root es \<longleftrightarrow>
     (\<forall>path key. length path < n \<and> key \<in> set (key_offers columns path) \<and> opened root es path \<longrightarrow> (\<exists>v. Tested path key v \<in> set es)) \<and>
     (\<forall>path. length path = n \<and> covers_parse columns path \<and> opened root es path \<longrightarrow> (\<exists>v. Added path v \<in> set es))"

subsection \<open>A structural search\<close>

text \<open>The search by the number of keys still wanted, with its events; \<open>remember_recur\<close> is shown equal to it.\<close>

fun try_each :: "('s, 'e) remember_calls \<Rightarrow> (matrix_key \<Rightarrow> 's \<Rightarrow> 'e event list \<times> ('e + bool) \<times> 's) \<Rightarrow> matrix_key list \<Rightarrow>
    matrix_key list \<Rightarrow> bool \<Rightarrow> 's \<Rightarrow> 'e event list \<times> ('e + bool) \<times> 's" where
  "try_each calls deeper path [] result s = ([], Inr result, s)"
| "try_each calls deeper path (key # rest) result s =
     (case rc_pronounces calls key (length path) s of
        (Inl err, s) \<Rightarrow> ([Tested path key (Inl err)], Inl err, s)
      | (Inr False, s) \<Rightarrow> (case try_each calls deeper path rest result s of (es, r) \<Rightarrow> (Tested path key (Inr False) # es, r))
      | (Inr True, s) \<Rightarrow> (case deeper key s of
            (es, Inl err, s) \<Rightarrow> (Tested path key (Inr True) # es, Inl err, s)
          | (es, Inr found, s) \<Rightarrow> (case try_each calls deeper path rest (found \<or> result) s of
                (es', r) \<Rightarrow> (Tested path key (Inr True) # es @ es', r))))"

fun search_from :: "matrix_columns_rec \<Rightarrow> ('s, 'e) remember_calls \<Rightarrow> nat \<Rightarrow> matrix_key list \<Rightarrow> nat \<Rightarrow> 's \<Rightarrow> 'e event list \<times> ('e + bool) \<times> 's" where
  "search_from columns calls 0 path start s =
     (if skip_zeros columns start = mc_end columns \<and> path \<noteq> [] then case rc_add calls path s of (v, s) \<Rightarrow> ([Added path v], v, s)
      else ([], Inr False, s))"
| "search_from columns calls (Suc n) path start s =
     (let p = skip_zeros columns start in
      if p < mc_end columns
      then try_each calls (\<lambda>k. search_from columns calls n (path @ [k]) (mk_end k)) path (kc_real (mc_columns columns ! p)) False s
      else ([], Inr False, s))"

lemma remember_try:
  assumes less: "length path < phrase_len" and none: "kc_zero column = None"
    and IH: "\<And>k s. remember_recur columns phrase_len calls (Enter_column (mk_end k) (path @ [k])) s = Some (snd (deeper k s))"
  shows "remember_recur columns phrase_len calls (Try_keys column keys path result) s =
    Some (snd (try_each calls deeper path keys result s))"
proof (induction keys arbitrary: s result)
  case Nil
  show ?case using none by (subst remember_recur.simps) simp
next
  case (Cons k keys)
  show ?case
    using less by (subst remember_recur.simps) (auto simp: Cons.IH IH split: prod.splits sum.splits bool.splits)
qed

lemma remember_enter:
  assumes walk: "walkable columns" and "length path \<le> phrase_len"
  shows "remember_recur columns phrase_len calls (Enter_column start path) s =
    Some (snd (search_from columns calls (phrase_len - length path) path start s))"
  using assms(2)
proof (induction "phrase_len - length path" arbitrary: path start s rule: less_induct)
  case outer: less
  let ?cols = "mc_columns columns" and ?stop = "mc_end columns" and ?n = "phrase_len - length path"
  show ?case
  proof (induction "?stop - start" arbitrary: start rule: less_induct)
    case less
    let ?go = "remember_recur columns phrase_len calls (Enter_column start path) s"
    consider "?stop < start" | "start = ?stop" | "start < ?stop" by linarith
    then show ?case
    proof cases
      case 1
      then have "search_from columns calls ?n path start s = ([], Inr False, s)"
        by (cases ?n) (simp_all add: skip_zeros.simps Let_def)
      then show ?thesis using 1 by (subst remember_recur.simps) (simp add: enter_column_def)
    next
      case 2
      then have skip: "skip_zeros columns start = ?stop" by (simp add: skip_zeros.simps)
      show ?thesis
        using 2 skip outer.prems by (cases ?n; subst remember_recur.simps)
          (auto simp: enter_column_def Let_def split: prod.splits)
    next
      case 3
      then have c: "get_at ?cols start = Some (?cols ! start)" using walk by (auto simp: walkable_def get_at_def)
      let ?c = "?cols ! start"
      show ?thesis
      proof (cases "kc_zero ?c")
        case (Some z)
        then have real: "kc_real ?c = []" and z: "z = Suc start"
          using walk 3 by (auto simp: walkable_def built_columns_def)
        have "skip_zeros columns start = skip_zeros columns z"
          using 3 Some real z by (subst skip_zeros.simps) (simp add: key_column_lone_zero_def)
        then have "search_from columns calls ?n path start s = search_from columns calls ?n path z s" by (cases ?n) simp_all
        moreover have "?go = remember_recur columns phrase_len calls (Enter_column z path) s"
          using 3 c Some real
          by (subst remember_recur.simps, simp add: enter_column_def, subst remember_recur.simps, simp)
        ultimately show ?thesis using less [of z] 3 z by simp
      next
        case None
        have skip: "skip_zeros columns start = start" using None by (subst skip_zeros.simps) (simp add: key_column_lone_zero_def)
        consider n where "?n = Suc n" | "phrase_len = length path" using outer.prems by (cases ?n) auto
        then show ?thesis
        proof cases
          case (1 n)
          then have less: "length path < phrase_len" by simp
          have n: "phrase_len - Suc (length path) = n" using 1 by simp
          have "remember_recur columns phrase_len calls (Enter_column (mk_end k) (path @ [k])) s =
              Some (snd (search_from columns calls n (path @ [k]) (mk_end k) s))" for k s
            using outer.hyps [of "path @ [k]" "mk_end k" s] 1 less by (simp add: n)
          from remember_try [OF less None, where deeper = "\<lambda>k. search_from columns calls n (path @ [k]) (mk_end k)", OF this]
          show ?thesis
            using 3 c None 1 skip by (subst remember_recur.simps) (cases "kc_real ?c"; simp add: enter_column_def)
        next
          case 2
          then show ?thesis
            using 3 c None skip
            by (subst remember_recur.simps, cases "kc_real ?c")
              (simp add: enter_column_def, simp add: enter_column_def, subst remember_recur.simps, simp)
        qed
      qed
    qed
  qed
qed

subsection \<open>What a search does\<close>

definition rooted :: "matrix_key list \<Rightarrow> 'e event list \<Rightarrow> bool" where
  "rooted root es \<longleftrightarrow> (\<forall>e \<in> set es. \<exists>rel. snd (event_node e) = root @ rel \<and> (fst (event_node e) \<or> rel \<noteq> []))"

definition in_order :: "matrix_columns_rec \<Rightarrow> 'e event list \<Rightarrow> bool" where
  "in_order columns es \<longleftrightarrow> sorted_wrt (earlier columns) (map event_node es)"

definition clean :: "matrix_columns_rec \<Rightarrow> bool" where
  "clean columns \<longleftrightarrow> (\<forall>path. distinct (key_offers columns path))"

definition explores :: "matrix_columns_rec \<Rightarrow> nat \<Rightarrow> ('s, 'e) remember_calls \<Rightarrow> matrix_key list \<Rightarrow> 's \<Rightarrow> 'e event list \<times> ('e + bool) \<times> 's \<Rightarrow> bool" where
  "explores columns n calls root s = (\<lambda>(es, r, s').
     replays calls es s s' \<and> outcome False es r \<and> sound_events columns n root es \<and> (isl r \<or> complete_events columns n root es) \<and>
     rooted root es \<and> in_order columns es \<and> (clean columns \<longrightarrow> distinct (map event_node es)))"

text \<open>The same while the keys \<open>keys\<close>, the last of those on offer after \<open>root\<close>, are tried.\<close>

definition complete_under :: "matrix_columns_rec \<Rightarrow> nat \<Rightarrow> matrix_key list \<Rightarrow> 'e event list \<Rightarrow> bool" where
  "complete_under columns n root es \<longleftrightarrow>
     (\<forall>path. path \<noteq> root \<and> opened root es path \<longrightarrow>
       (length path < n \<longrightarrow> (\<forall>key \<in> set (key_offers columns path). \<exists>v. Tested path key v \<in> set es)) \<and>
       (length path = n \<and> covers_parse columns path \<longrightarrow> (\<exists>v. Added path v \<in> set es)))"

definition under_keys :: "matrix_key list \<Rightarrow> matrix_key list \<Rightarrow> 'e event list \<Rightarrow> bool" where
  "under_keys root keys es \<longleftrightarrow> (\<forall>e \<in> set es. \<exists>key rel. key \<in> set keys \<and> snd (event_node e) = root @ key # rel)"

definition tries :: "matrix_columns_rec \<Rightarrow> nat \<Rightarrow> ('s, 'e) remember_calls \<Rightarrow> matrix_key list \<Rightarrow> matrix_key list \<Rightarrow> bool \<Rightarrow> 's \<Rightarrow>
    'e event list \<times> ('e + bool) \<times> 's \<Rightarrow> bool" where
  "tries columns n calls root keys result s = (\<lambda>(es, r, s').
     replays calls es s s' \<and> outcome result es r \<and> sound_events columns n root es \<and>
     (isl r \<or> (\<forall>key \<in> set keys. \<exists>v. Tested root key v \<in> set es) \<and> complete_under columns n root es) \<and>
     under_keys root keys es \<and> in_order columns es \<and> (clean columns \<longrightarrow> distinct (map event_node es)))"

lemma replays_append: "replays calls (es @ es') s s' \<longleftrightarrow> (\<exists>t. replays calls es s t \<and> replays calls es' t s')"
  by (induction es arbitrary: s) auto

lemma opened_mono: "opened root es path \<Longrightarrow> set es \<subseteq> set es' \<Longrightarrow> opened root es' path"
  by (auto simp: opened_def)

lemma outcome_Tested: "outcome result (Tested path key (Inr b) # es) r \<longleftrightarrow> outcome result es r"
  by (cases es; cases r) (auto simp: outcome_def)

lemma outcome_fails: "outcome False es (Inl err) \<Longrightarrow> outcome result es (Inl err)"
  by (simp add: outcome_def)

lemma outcome_append:
  "outcome False es (Inr found) \<Longrightarrow> outcome (found \<or> result) es' r \<Longrightarrow> outcome result (es @ es') r"
  by (cases es'; cases r) (auto simp: outcome_def butlast_append dest: in_set_butlastD)

text \<open>One key accepted after \<open>root\<close>, the search under it, then the remaining keys.\<close>

lemma opened_under:
  "opened (root @ [k]) es path \<Longrightarrow> opened root (Tested root k (Inr True) # es @ es') path"
  by (auto simp: opened_def)

lemma opened_split:
  assumes "opened root (Tested root k (Inr True) # es @ es') path" "path \<noteq> root"
  shows "opened (root @ [k]) es path \<or> opened root es' path"
  using assms by (auto simp: opened_def)

lemma sound_join:
  assumes "sound_events columns n (root @ [k]) es" "sound_events columns n root es'"
    and "k \<in> set (key_offers columns root)" "length root < n"
  shows "sound_events columns n root (Tested root k (Inr True) # es @ es')"
proof -
  have mono: "opened root es' path \<Longrightarrow> opened root (Tested root k (Inr True) # es @ es') path" for path
    by (erule opened_mono) auto
  have "opened root (Tested root k (Inr True) # es @ es') root" by (simp add: opened_def)
  then show ?thesis using assms mono opened_under [of root k es _ es'] unfolding sound_events_def by fastforce
qed

lemma complete_join:
  assumes "complete_events columns n (root @ [k]) es" "complete_under columns n root es'"
  shows "complete_under columns n root (Tested root k (Inr True) # es @ es')"
  unfolding complete_under_def
proof (intro allI impI, elim conjE)
  fix path
  assume "path \<noteq> root" "opened root (Tested root k (Inr True) # es @ es') path"
  then consider "opened (root @ [k]) es path" | "path \<noteq> root" "opened root es' path" using opened_split by blast
  then show "(length path < n \<longrightarrow> (\<forall>key \<in> set (key_offers columns path). \<exists>v. Tested path key v \<in> set (Tested root k (Inr True) # es @ es'))) \<and>
      (length path = n \<and> covers_parse columns path \<longrightarrow> (\<exists>v. Added path v \<in> set (Tested root k (Inr True) # es @ es')))"
    using assms unfolding complete_events_def complete_under_def by cases fastforce+
qed

lemma order_join:
  assumes "in_order columns es" "in_order columns es'" "rooted (root @ [k]) es" "under_keys root rest es'"
    and "key_offers columns root = pre @ k # rest"
  shows "in_order columns (Tested root k (Inr b) # es @ es')"
proof -
  have later: "earlier columns (a, root @ k # ps) (b', root @ l # qs)" if l: "l \<in> set rest" for a ps b' l qs
  proof -
    from split_list [OF l] obtain ys zs where "rest = ys @ l # zs" by blast
    then have "key_offers columns root = pre @ k # ys @ l # zs" using assms(5) by simp
    then show ?thesis unfolding earlier.simps by blast
  qed
  have "earlier columns (False, root @ [k]) (event_node e)" if "e \<in> set es" for e
    using assms(3) that by (cases "event_node e") (fastforce simp: rooted_def)
  moreover have "earlier columns (a, root @ k # ps) (event_node e)" if "e \<in> set es'" for a ps e
    using assms(4) that later by (cases "event_node e") (fastforce simp: under_keys_def simp del: earlier.simps)
  moreover have "\<exists>a ps. event_node e = (a, root @ k # ps)" if "e \<in> set es" for e
    using assms(3) that by (cases "event_node e") (fastforce simp: rooted_def)
  ultimately show ?thesis using assms(1,2)
    by (fastforce simp: in_order_def sorted_wrt_append simp del: earlier.simps)
qed

lemma distinct_join:
  assumes "distinct (map event_node es)" "distinct (map event_node es')" "rooted (root @ [k]) es" "under_keys root rest es'"
    and "k \<notin> set rest"
  shows "distinct (map event_node (Tested root k (Inr b) # es @ es'))"
proof -
  have a: "event_node e \<noteq> (False, root @ [k]) \<and> (\<exists>ps. snd (event_node e) = root @ k # ps)" if "e \<in> set es" for e
    using assms(3) that by (fastforce simp: rooted_def)
  have b: "event_node e \<noteq> (False, root @ [k]) \<and> (\<nexists>ps. snd (event_node e) = root @ k # ps)" if "e \<in> set es'" for e
    using assms(4,5) that by (fastforce simp: under_keys_def)
  have "event_node e \<noteq> event_node e'" if "e \<in> set es" "e' \<in> set es'" for e e'
    using a [OF that(1)] b [OF that(2)] by auto
  then show ?thesis using assms(1,2) a b by fastforce
qed

text \<open>A key that is refused or fails.\<close>

lemma tries_refused:
  assumes "tries columns n calls root rest result s' (es, r)" and "rc_pronounces calls k (length root) s = (Inr False, s')"
    and "key_offers columns root = pre @ k # rest" "length root < n"
  shows "tries columns n calls root (k # rest) result s (Tested root k (Inr False) # es, r)"
proof -
  obtain v t where r: "r = (v, t)" by fastforce
  have old: "opened root (Tested root k (Inr False) # es) path \<longleftrightarrow> opened root es path" for path by (auto simp: opened_def)
  have sound: "sound_events columns n root (Tested root k (Inr False) # es)" if "sound_events columns n root es"
    using that assms(3,4) unfolding sound_events_def old by (auto simp: opened_def)
  have complete: "complete_under columns n root (Tested root k (Inr False) # es)" if "complete_under columns n root es"
    using that unfolding complete_under_def old by fastforce
  have keys: "under_keys root (k # rest) (Tested root k (Inr False) # es)" if "under_keys root rest es"
    using that by (fastforce simp: under_keys_def)
  have nil: "in_order columns ([] :: 'b event list)" "rooted (root @ [k]) ([] :: 'b event list)"
    by (simp_all add: in_order_def rooted_def)
  have fresh: "k \<notin> set rest" if "clean columns"
    using that assms(3) unfolding clean_def by (metis distinct.simps(2) distinct_append)
  show ?thesis
    using assms(1,2) sound complete keys order_join [OF nil(1) _ nil(2) _ assms(3), of es False]
      distinct_join [of "[]" es root k rest False] nil fresh
    by (auto simp: tries_def r outcome_Tested)
qed

lemma tries_failed:
  assumes "rc_pronounces calls k (length root) s = (Inl err, s')" and "k \<in> set (key_offers columns root)" "length root < n"
  shows "tries columns n calls root (k # rest) result s ([Tested root k (Inl err)], Inl err, s')"
  using assms by (auto simp: tries_def outcome_def sound_events_def opened_def under_keys_def in_order_def)

lemma tries_accepted_failed:
  assumes "explores columns n calls (root @ [k]) s' (es, Inl err, t)" and "rc_pronounces calls k (length root) s = (Inr True, s')"
    and "key_offers columns root = pre @ k # rest" "length root < n"
  shows "tries columns n calls root (k # rest) result s (Tested root k (Inr True) # es, Inl err, t)"
proof -
  have nil: "sound_events columns n root ([] :: 'b event list)" "in_order columns ([] :: 'b event list)"
      "under_keys root rest ([] :: 'b event list)"
    by (simp_all add: sound_events_def in_order_def under_keys_def)
  have fresh: "k \<notin> set rest" if "clean columns"
    using that assms(3) unfolding clean_def by (metis distinct.simps(2) distinct_append)
  have keys: "under_keys root (k # rest) (Tested root k (Inr True) # es)" if "rooted (root @ [k]) es"
    using that by (fastforce simp: under_keys_def rooted_def)
  show ?thesis
    using assms(1,2,4) sound_join [of columns n root k es "[]"] nil order_join [OF _ nil(2) _ nil(3) assms(3), of es True]
      distinct_join [of es "[]" root k rest True] fresh keys assms(3) outcome_fails
    by (auto simp: tries_def explores_def outcome_Tested)
qed

lemma tries_accepted:
  assumes "explores columns n calls (root @ [k]) s' (es, Inr found, t)" and "rc_pronounces calls k (length root) s = (Inr True, s')"
    and "tries columns n calls root rest (found \<or> result) t (es', r)"
    and "key_offers columns root = pre @ k # rest" "length root < n"
  shows "tries columns n calls root (k # rest) result s (Tested root k (Inr True) # es @ es', r)"
proof -
  obtain v u where r: "r = (v, u)" by fastforce
  note a = assms(1) [unfolded explores_def, simplified] and b = assms(3) [unfolded tries_def r, simplified]
  have fresh: "k \<notin> set rest" if "clean columns"
    using that assms(4) unfolding clean_def by (metis distinct.simps(2) distinct_append)
  have keys: "under_keys root (k # rest) (Tested root k (Inr True) # es @ es')"
    using a b by (fastforce simp: under_keys_def rooted_def)
  have "replays calls (Tested root k (Inr True) # es @ es') s u" using a b assms(2) by (auto simp: replays_append)
  moreover have "outcome result (Tested root k (Inr True) # es @ es') v"
    using a b outcome_append [of es found result es' v] by (simp add: outcome_Tested)
  moreover have "sound_events columns n root (Tested root k (Inr True) # es @ es')"
    using a b assms(4,5) by (intro sound_join) auto
  moreover have "in_order columns (Tested root k (Inr True) # es @ es')"
    using a b by (intro order_join [OF _ _ _ _ assms(4)]) auto
  moreover have "distinct (map event_node (Tested root k (Inr True) # es @ es'))" if "clean columns"
    using a b fresh that by (intro distinct_join) auto
  moreover have "isl v \<or> (\<forall>key \<in> set (k # rest). \<exists>v. Tested root key v \<in> set (Tested root k (Inr True) # es @ es')) \<and>
      complete_under columns n root (Tested root k (Inr True) # es @ es')"
    using a b complete_join [of columns n root k es es'] by auto
  ultimately show ?thesis using keys by (auto simp: tries_def r)
qed

lemma tries_each:
  assumes deeper: "\<And>k s. explores columns n calls (root @ [k]) s (deeper k s)" and "length root < n"
    and "key_offers columns root = pre @ keys"
  shows "tries columns n calls root keys result s (try_each calls deeper root keys result s)"
  using assms(3)
proof (induction keys arbitrary: pre result s)
  case Nil
  then show ?case
    by (simp add: tries_def outcome_def sound_events_def complete_under_def opened_def under_keys_def in_order_def)
next
  case (Cons k rest)
  have IH: "tries columns n calls root rest result s (try_each calls deeper root rest result s)" for result s
    using Cons.IH [of "pre @ [k]"] Cons.prems by simp
  have k: "k \<in> set (key_offers columns root)" using Cons.prems by simp
  obtain v s' where p: "rc_pronounces calls k (length root) s = (v, s')" by fastforce
  consider err where "v = Inl err" | "v = Inr False" | "v = Inr True" by (cases v) auto
  then show ?case
  proof cases
    case (1 err)
    then show ?thesis using tries_failed [OF _ k assms(2)] p by simp
  next
    case 2
    obtain es r where "try_each calls deeper root rest result s' = (es, r)" by (metis surj_pair)
    then show ?thesis
      using tries_refused [OF _ _ Cons.prems assms(2)] IH [of result s'] p 2 by simp
  next
    case 3
    obtain es w t where d: "deeper k s' = (es, w, t)" by (metis prod_cases3)
    note e = deeper [of k s', unfolded d]
    show ?thesis
    proof (cases w)
      case (Inl err)
      then show ?thesis using tries_accepted_failed [OF _ _ Cons.prems assms(2)] e p 3 d by simp
    next
      case (Inr found)
      obtain es' r where q: "try_each calls deeper root rest (found \<or> result) t = (es', r)" by (metis surj_pair)
      then show ?thesis
        using tries_accepted [OF _ _ _ Cons.prems assms(2)] e p 3 d Inr IH [of "found \<or> result" t] by simp
    qed
  qed
qed

lemma tries_explores:
  assumes "tries columns n calls root keys False s x" "keys = key_offers columns root" "length root < n"
  shows "explores columns n calls root s x"
proof -
  obtain es r s' where x: "x = (es, r, s')" by (metis prod_cases3)
  note t = assms(1) [unfolded tries_def x, simplified]
  have "complete_events columns n root es" if "\<not> isl r"
    using t that assms(2,3) unfolding complete_events_def complete_under_def by (metis less_irrefl)
  moreover have "rooted root es"
    using t by (fastforce simp: rooted_def under_keys_def)
  ultimately show ?thesis using t by (auto simp: explores_def x)
qed

lemma search_explores:
  "explores columns (length path + n) calls path s (search_from columns calls n path (path_end path) s)"
proof (induction n arbitrary: path s)
  case 0
  obtain v s' where "rc_add calls path s = (v, s')" by fastforce
  then show ?case
    by (cases v) (auto simp: explores_def outcome_def sound_events_def complete_events_def opened_def covers_parse_def rooted_def in_order_def)
next
  case (Suc n)
  let ?keys = "key_offers columns path"
  have "explores columns (length path + Suc n) calls (path @ [k]) s (search_from columns calls n (path @ [k]) (mk_end k) s)" for k s
    using Suc.IH [of "path @ [k]" s] by (simp add: path_end_def)
  from tries_each [OF this, where pre = "[]" and keys = ?keys and result = False and s = s]
  have "tries columns (length path + Suc n) calls path ?keys False s
      (try_each calls (\<lambda>k. search_from columns calls n (path @ [k]) (mk_end k)) path ?keys False s)" by simp
  moreover have "search_from columns calls (Suc n) path (path_end path) s =
      try_each calls (\<lambda>k. search_from columns calls n (path @ [k]) (mk_end k)) path ?keys False s"
    by (simp add: key_offers_def Let_def)
  ultimately show ?case by (simp add: tries_explores)
qed

lemma matrix_columns_walkable:
  assumes c: "matrix_columns input parsed_len keys separators = Some columns"
    and clear: "\<And>k. k \<in> set keys \<Longrightarrow> separators \<Longrightarrow> mk_start k < length input \<Longrightarrow> input ! mk_start k \<noteq> APOSTROPHE"
  shows "walkable columns" "distinct keys \<Longrightarrow> i < mc_end columns \<Longrightarrow> distinct (kc_real (mc_columns columns ! i))"
proof -
  have ne: "input \<noteq> []" and cols: "mc_columns columns = build_columns input parsed_len keys separators"
    and e: "mc_end columns = min parsed_len (length input)"
    using c by (auto simp: matrix_columns_def split: if_splits)
  note reads = build_columns_reads [OF refl ne, where parsed_len = parsed_len and keys = keys and separators = separators]
  show "distinct keys \<Longrightarrow> i < mc_end columns \<Longrightarrow> distinct (kc_real (mc_columns columns ! i))"
    using reads(2) by (simp add: cols e)
  have "kc_real (mc_columns columns ! i) = []" if i: "i < mc_end columns" and zero: "kc_zero (mc_columns columns ! i) \<noteq> None" for i
  proof -
    have "separators \<and> input ! i = APOSTROPHE" using reads(2) [of i] i zero by (auto simp: cols e zero_at_def split: if_splits)
    then show ?thesis using reads(2) [of i] i clear by (auto simp: cols e filter_empty_conv)
  qed
  then show "walkable columns"
    using reads(1) build_columns_built [OF ne] by (auto simp: walkable_def cols e)
qed

lemma pre_compute_tokens_find:
  "pre_compute_tokens tokens_for chs acc =
     (case List.find (\<lambda>ch. tokens_for [ch] = [] \<or> 4 < length (tokens_for [ch])) chs of
        Some ch \<Rightarrow> if tokens_for [ch] = [] then Inr None else Inl (ReduceTokensCount (length (tokens_for [ch])))
      | None \<Rightarrow> Inr (Some (acc @ map (\<lambda>ch. hd (tokens_for [ch])) chs)))"
  by (induction chs arbitrary: acc) (auto simp: Let_def split: list.splits option.splits)

lemma char_reading_bound:
  "char_reading pronounces columns tokens offset start len n \<Longrightarrow> len \<le> n \<and> n \<le> max len (length tokens)"
  by (induction rule: char_reading.induct) (auto simp: get_at_def split: if_splits)

section \<open>Properties\<close>

text \<open>C22: the remembering walk returns for every test of keys and every \<open>add\<close>, each of which may fail, read
  and write the state, when no key starts on a separator. Its calls are those of one list of events, each
  made in the state the one before it left and the walk ending at the first that fails, with its error. It
  tests only the keys on offer after a path of accepted keys that is shorter than the phrase, and adds
  only paths of accepted keys that are as long as the phrase and cover the parse, unless a call fails all
  of them, depth first in the order of the columns, and each once when the keys are distinct; it then
  answers whether an \<open>add\<close> answered \<open>true\<close>.\<close>

theorem remember_walk_spec:
  assumes c: "matrix_columns input parsed_len keys separators = Some columns"
    and clear: "\<And>k. k \<in> set keys \<Longrightarrow> separators \<Longrightarrow> mk_start k < length input \<Longrightarrow> input ! mk_start k \<noteq> APOSTROPHE"
  shows "\<exists>es r s'. remember_walk columns phrase_len pronounces add s = Some (r, s') \<and>
    replays \<lparr>rc_pronounces = pronounces, rc_add = add\<rparr> es s s' \<and> outcome False es r \<and>
    sound_events columns phrase_len [] es \<and> (isl r \<or> complete_events columns phrase_len [] es) \<and>
    in_order columns es \<and> (distinct keys \<longrightarrow> distinct (map event_node es))"
proof -
  let ?calls = "\<lparr>rc_pronounces = pronounces, rc_add = add\<rparr>"
  have walk: "walkable columns" by (rule matrix_columns_walkable(1) [OF c clear])
  have "distinct (kc_real (mc_columns columns ! i))" if "distinct keys" "i < mc_end columns" for i
    by (rule matrix_columns_walkable(2) [OF c clear that])
  then have clean: "clean columns" if "distinct keys" using that by (simp add: clean_def key_offers_def Let_def)
  obtain es r s' where search: "search_from columns ?calls phrase_len [] 0 s = (es, r, s')" by (metis prod_cases3)
  have "remember_walk columns phrase_len pronounces add s = Some (r, s')"
    using remember_enter [OF walk, of "[]" phrase_len ?calls 0 s] by (simp add: remember_walk_def search)
  moreover have "explores columns phrase_len ?calls [] s (es, r, s')"
    using search_explores [of columns "[]" phrase_len ?calls s] by (simp add: path_end_def search)
  ultimately show ?thesis using clean unfolding explores_def by auto
qed

theorem remember_walk_spec_witness:
  "\<exists>columns. matrix_columns [0x61, 0x6e] 2 [\<lparr>mk_key = key_zero, mk_start = 0, mk_end = 2\<rparr>, \<lparr>mk_key = key_zero, mk_start = 0, mk_end = 1\<rparr>] True = Some columns \<and>
     remember_walk columns 1 (\<lambda>k i s. (if s = [] then Inr True else Inl 7, s)) (\<lambda>p s. (Inr True, map mk_end p # s)) [] =
       Some (Inl (7 :: nat), [[2]]) \<and>
     (\<exists>es. replays \<lparr>rc_pronounces = (\<lambda>k i s. (if s = [] then Inr True else Inl 7, s)), rc_add = (\<lambda>p s. (Inr True, map mk_end p # s))\<rparr> es [] [[2]] \<and>
       outcome False es (Inl (7 :: nat)) \<and> in_order columns es \<and> distinct (map event_node es))"
proof -
  let ?k = "\<lparr>mk_key = key_zero, mk_start = 0, mk_end = 2\<rparr>" and ?l = "\<lparr>mk_key = key_zero, mk_start = 0, mk_end = 1\<rparr>"
  let ?columns = "\<lparr>mc_columns = build_columns [0x61, 0x6e] 2 [?k, ?l] True, mc_end = 2\<rparr>"
  let ?pronounces = "\<lambda>k i s. (if s = [] then Inr True else Inl (7 :: nat), s)" and ?add = "\<lambda>p s. (Inr True, map mk_end p # s)"
  have c: "matrix_columns [0x61, 0x6e] 2 [?k, ?l] True = Some ?columns" by (simp add: matrix_columns_def)
  have clear: "k \<in> set [?k, ?l] \<Longrightarrow> True \<Longrightarrow> mk_start k < length [0x61, 0x6e] \<Longrightarrow> [0x61, 0x6e] ! mk_start k \<noteq> APOSTROPHE" for k
    by (auto simp: APOSTROPHE_def)
  have cols: "build_columns [0x61, 0x6e] 2 [?k, ?l] True =
      [\<lparr>kc_real = [?k, ?l], kc_zero = None\<rparr>, \<lparr>kc_real = [], kc_zero = None\<rparr>, \<lparr>kc_real = [], kc_zero = Some 3\<rparr>]"
    by (simp add: build_columns_def push_real_def put_zero_def APOSTROPHE_def)
  have "search_from ?columns \<lparr>rc_pronounces = ?pronounces, rc_add = ?add\<rparr> (Suc 0) [] 0 [] =
      ([Tested [] ?k (Inr True), Added [?k] (Inr True), Tested [] ?l (Inl 7)], Inl 7, [[2]])"
    by (simp add: cols [simplified] skip_zeros.simps key_column_lone_zero_def Let_def)
  then have go: "remember_walk ?columns 1 ?pronounces ?add [] = Some (Inl 7, [[2]])"
    using remember_enter [OF matrix_columns_walkable(1) [OF c clear], of "[]" 1 "\<lparr>rc_pronounces = ?pronounces, rc_add = ?add\<rparr>" 0 "[]"]
    by (simp add: remember_walk_def)
  from remember_walk_spec [OF c clear, of 1 ?pronounces ?add "[]"]
  show ?thesis using c go by (intro exI [of _ ?columns]) auto
qed

text \<open>C23: the character offset of a buffer with keys, whatever the dictionary. It always returns. An offset
  past the buffer or just after a lone separator column is refused; an empty phrase, or a phrase whose
  first offending character has no token, has no answer, one with more than four tokens is an error.
  Otherwise the walk answers with the length of a reading of the phrase along the columns, which is at
  most its number of characters, answers nothing when there is no such reading, and fails only with
  the dictionary's error or at an empty or doubly filled column at or before the offset.\<close>

theorem character_offset_spec:
  assumes ne: "input \<noteq> []" "keys \<noteq> []" and v: "v = columns_new input parsed_len (map key_span keys) separators"
    and columns: "columns = build_columns input parsed_len keys separators"
    and answer: "answer = character_offset_with_walk_over_keys input parsed_len keys separators pronounces tokens_for phrase offset"
    and tokens: "tokens = map (\<lambda>ch. hd (tokens_for [ch])) (outward_words phrase)"
  shows "if length input < offset then answer = Some (Inl (LookupOffsetOutOfRange offset (length input)))
    else if 0 < offset \<and> lone_at v (offset - 1) then answer = Some (Inl (ZeroKeyOffsetCheck offset))
    else if text_is_empty phrase then answer = Some (Inr (None, False))
    else case List.find (\<lambda>ch. tokens_for [ch] = [] \<or> 4 < length (tokens_for [ch])) (outward_words phrase) of
        Some ch \<Rightarrow> answer = Some (if tokens_for [ch] = [] then Inr (None, False)
                                else Inl (ReduceTokensCount (length (tokens_for [ch]))))
      | None \<Rightarrow> (\<exists>r. answer = Some (map_sum id (\<lambda>count. (count, True)) r) \<and>
          walk_answers pronounces columns offset (char_reading pronounces columns tokens offset 0 0) r \<and>
          (\<forall>n. r = Inr (Some n) \<longrightarrow> n \<le> length (outward_words phrase)))"
proof -
  have lone: "(case get_at columns (offset - 1) of Some c \<Rightarrow> key_column_lone_zero c | None \<Rightarrow> False) \<longleftrightarrow> lone_at v (offset - 1)"
    if "offset \<le> length input"
    using that build_columns_reads [OF v ne(1)]
    by (auto simp: columns get_at_def key_column_lone_zero_def lone_at_def keys_at_def v starts_at_def filter_map comp_def)
  obtain r where r: "char_walk pronounces columns tokens offset (At_column 0 0) = Some r"
      "walk_answers pronounces columns offset (char_reading pronounces columns tokens offset 0 0) r"
    using char_walk_answers [OF build_columns_built [OF ne(1)]] unfolding columns by blast
  moreover have "n \<le> length (outward_words phrase)" if "r = Inr (Some n)" for n
    using r(2) that char_reading_bound [of pronounces columns tokens offset 0 0 n] by (simp add: walk_answers_def tokens)
  ultimately show ?thesis
    using ne lone
    by (auto simp: answer character_offset_with_walk_over_keys_def Let_def columns [symmetric] pre_compute_tokens_find
        tokens [symmetric] split: option.splits)
qed

theorem character_offset_spec_witness:
  "\<exists>n \<le> 1. character_offset_with_walk_over_keys [0x61, 0x6e] 2 [\<lparr>mk_key = key_zero, mk_start = 0, mk_end = 2\<rparr>] True
     (\<lambda>_ _. Inr True) (\<lambda>_. [7]) (Scalar [0x554a]) 0 = Some (Inr (Some n, True))"
proof -
  let ?k = "\<lparr>mk_key = key_zero, mk_start = 0, mk_end = 2\<rparr>"
  have cols: "build_columns [0x61, 0x6e] 2 [?k] True = [\<lparr>kc_real = [?k], kc_zero = None\<rparr>, \<lparr>kc_real = [], kc_zero = None\<rparr>, \<lparr>kc_real = [], kc_zero = Some 3\<rparr>]"
    by (simp add: build_columns_def push_real_def put_zero_def APOSTROPHE_def)
  have reading: "char_reading (\<lambda>_ _. Inr True) (build_columns [0x61, 0x6e] 2 [?k] True) [7] 0 0 0 0"
    by (rule char_reading.final [of _ _ _ "\<lparr>kc_real = [?k], kc_zero = None\<rparr>" ?k]) (simp_all add: cols get_at_def)
  have good: "\<not> bad_column (build_columns [0x61, 0x6e] 2 [?k] True) 0" by (simp add: cols bad_column_def get_at_def)
  have "\<not> text_is_empty (Scalar [0x554a])" by (simp add: text_is_empty_def as_bytes_def utf8_def utf8_bytes_def)
  then obtain r where r: "character_offset_with_walk_over_keys [0x61, 0x6e] 2 [?k] True (\<lambda>_ _. Inr True) (\<lambda>_. [7]) (Scalar [0x554a]) 0 =
        Some (map_sum id (\<lambda>count. (count, True)) r)"
      "walk_answers (\<lambda>_ _. Inr True) (build_columns [0x61, 0x6e] 2 [?k] True) 0
        (char_reading (\<lambda>_ _. Inr True) (build_columns [0x61, 0x6e] 2 [?k] True) [7] 0 0 0) r"
      "\<forall>n. r = Inr (Some n) \<longrightarrow> n \<le> 1"
    using character_offset_spec [where input = "[0x61, 0x6e]" and keys = "[?k]" and parsed_len = 2 and
      separators = True and pronounces = "\<lambda>_ _. Inr True" and tokens_for = "\<lambda>_. [7]" and phrase = "Scalar [0x554a]" and offset = 0, OF _ _ refl refl refl refl]
    by auto
  then obtain n where "r = Inr (Some n)" using reading good by (auto simp: walk_answers_def split: sum.splits option.splits)
  then show ?thesis using r by auto
qed

end
