(* ===== verification/Ranking.thy ===== *)
theory Ranking
  imports PhraseText "HOL-Library.Multiset"
begin

text \<open>
  Ranking and deduplication of candidates: \<open>crates/oxpinyin-engine/src/candidate.rs\<close> and the ordering functions of
  \<open>crates/oxpinyin-engine/src/session/mod.rs\<close>. The frequencies of candidates are compared by the sign of their
  wrapping difference, which is no order on all of \<open>u32\<close>; the guard in front of the sort is shown to
  accept exactly the lists on which it is one. The language's stable sort is an insertion sort here: on
  a comparator that agrees with a key, which every sort below is shown to have, any stable sort gives
  the same list.
\<close>

section \<open>Candidates\<close>

datatype candidate_kind = Phrase | Addon | Sentence | Fallback

record candidate =
  cd_text :: phrase_text
  cd_cost :: int
  cd_token :: "u32 option"
  cd_consumed_keys :: u32
  cd_consumed_bytes :: u32
  cd_nbest_index :: u8
  cd_span_start :: u32
  cd_kind :: candidate_kind
  cd_live_unigram :: "u32 option"

definition NO_ROW :: u8 where
  "NO_ROW = 0xFF"

definition narrow :: "nat \<Rightarrow> u32" where
  "narrow n = (if 0xFFFFFFFF < n then 0xFFFFFFFF else of_nat n)"

definition candidate_new ::
    "phrase_text \<Rightarrow> candidate_kind \<Rightarrow> nat \<Rightarrow> nat \<Rightarrow> int \<Rightarrow> u32 option \<Rightarrow> u8 option \<Rightarrow> candidate" where
  "candidate_new t kind consumed_keys consumed_bytes cost token nbest_index =
     \<lparr>cd_text = t, cd_cost = cost, cd_token = token, cd_consumed_keys = narrow consumed_keys,
      cd_consumed_bytes = narrow consumed_bytes,
      cd_nbest_index = (case nbest_index of Some rank \<Rightarrow> if rank \<noteq> NO_ROW then rank else NO_ROW | None \<Rightarrow> NO_ROW),
      cd_span_start = 0, cd_kind = kind, cd_live_unigram = None\<rparr>"

definition nbest_index :: "candidate \<Rightarrow> u8" where
  "nbest_index c = (if cd_nbest_index c = NO_ROW then 0 else cd_nbest_index c)"

definition nbest_row :: "candidate \<Rightarrow> u8 option" where
  "nbest_row c = (if cd_nbest_index c = NO_ROW then None else Some (cd_nbest_index c))"

section \<open>The sort\<close>

text \<open>\<open>slice::sort_by\<close>.\<close>

fun insert_by :: "('a \<Rightarrow> 'a \<Rightarrow> ordering) \<Rightarrow> 'a \<Rightarrow> 'a list \<Rightarrow> 'a list" where
  "insert_by cmp x [] = [x]"
| "insert_by cmp x (y # ys) = (if cmp x y \<noteq> Greater then x # y # ys else y # insert_by cmp x ys)"

definition sort_by :: "('a \<Rightarrow> 'a \<Rightarrow> ordering) \<Rightarrow> 'a list \<Rightarrow> 'a list" where
  "sort_by cmp xs = foldr (insert_by cmp) xs []"

text \<open>\<open>slice::chunk_by_mut\<close>: the maximal runs whose neighbours satisfy the predicate.\<close>

fun chunk_by :: "('a \<Rightarrow> 'a \<Rightarrow> bool) \<Rightarrow> 'a list \<Rightarrow> 'a list list" where
  "chunk_by R [] = []"
| "chunk_by R [x] = [[x]]"
| "chunk_by R (x # y # ys) =
     (case chunk_by R (y # ys) of
        [] \<Rightarrow> [[x]]
      | g # gs \<Rightarrow> if R x y then (x # g) # gs else [x] # g # gs)"

definition frequency_compare :: "u32 \<Rightarrow> u32 \<Rightarrow> ordering" where
  "frequency_compare left right = cmp_of (sint (right - left)) 0"

definition frequency_order_is_consistent :: "u32 list \<Rightarrow> bool" where
  "frequency_order_is_consistent frequencies = (case frequencies of
     [] \<Rightarrow> True
   | first # rest \<Rightarrow>
       let maximum = fold (\<lambda>f maximum. if frequency_compare f maximum = Less then f else maximum) rest first
       in list_all (\<lambda>f. maximum - f < 0x80000000) (first # rest))"

definition length_span_compare :: "(nat \<times> u8 \<times> u32) \<Rightarrow> (nat \<times> u8 \<times> u32) \<Rightarrow> ordering" where
  "length_span_compare left right =
     (case cmp_of (fst right) (fst left) of
        Equal \<Rightarrow> cmp_of (fst (snd right)) (fst (snd left))
      | c \<Rightarrow> c)"

definition rank_group :: "('a \<Rightarrow> nat \<times> u8 \<times> u32) \<Rightarrow> 'a list \<Rightarrow> 'a list" where
  "rank_group key g =
     (let consistent = frequency_order_is_consistent (map (\<lambda>row. snd (snd (key row))) g)
      in sort_by (\<lambda>left right.
           if consistent then frequency_compare (snd (snd (key left))) (snd (snd (key right)))
           else cmp_of (snd (snd (key right))) (snd (snd (key left)))) g)"

definition rank_by_frequency :: "('a \<Rightarrow> nat \<times> u8 \<times> u32) \<Rightarrow> 'a list \<Rightarrow> 'a list" where
  "rank_by_frequency key items =
     (let items = sort_by (\<lambda>left right. length_span_compare (key left) (key right)) items
      in concat (map (rank_group key) (chunk_by (\<lambda>left right.
           (fst (key left), fst (snd (key left))) = (fst (key right), fst (snd (key right)))) items)))"

section \<open>The rank keys\<close>

record rank_key =
  rk_phrase_length :: nat
  rk_pinyin_span :: u8
  rk_frequency :: u32
  rk_m_freq :: u32

definition SORT_BY_PHRASE_LENGTH :: u32 where
  "SORT_BY_PHRASE_LENGTH = 0x4"

definition SORT_BY_PINYIN_LENGTH :: u32 where
  "SORT_BY_PINYIN_LENGTH = 0x8"

definition SORT_BY_FREQUENCY :: u32 where
  "SORT_BY_FREQUENCY = 0x10"

definition for_sort_word :: "nat \<Rightarrow> nat \<Rightarrow> u32 \<Rightarrow> u32 \<Rightarrow> rank_key" where
  "for_sort_word phrase_len pinyin_span frequency sort_word =
     \<lparr>rk_phrase_length = (if sort_word AND SORT_BY_PHRASE_LENGTH \<noteq> 0 then phrase_len else 0),
      rk_pinyin_span = (if sort_word AND SORT_BY_PINYIN_LENGTH \<noteq> 0 then of_nat pinyin_span else 0),
      rk_frequency = (if sort_word AND SORT_BY_FREQUENCY \<noteq> 0 then frequency else 0),
      rk_m_freq = frequency\<rparr>"

text \<open>The cached keys are sorted and the candidates follow by swaps; an index below the loop's is followed to
  where an earlier swap moved its row. \<open>None\<close> is a walk that does not return. Every index is read from a
  \<open>u32\<close> and stored back, so neither cast of the code loses a bit.\<close>

partial_function (option) follow :: "(rank_key \<times> nat) list \<Rightarrow> nat \<Rightarrow> nat \<Rightarrow> nat option" where
  "follow keys i index = (if index < i then follow keys i (snd (keys ! index)) else Some index)"

definition swap_rows :: "'a list \<Rightarrow> nat \<Rightarrow> nat \<Rightarrow> 'a list" where
  "swap_rows xs i j = xs[i := xs ! j, j := xs ! i]"

definition place_row :: "nat \<Rightarrow> 'a list \<times> (rank_key \<times> nat) list \<Rightarrow> ('a list \<times> (rank_key \<times> nat) list) option" where
  "place_row i s = (case s of (candidates, keys) \<Rightarrow>
     map_option (\<lambda>index. (swap_rows candidates i index, keys[i := (fst (keys ! i), index)]))
       (follow keys i (snd (keys ! i))))"

fun place_rows :: "nat list \<Rightarrow> 'a list \<times> (rank_key \<times> nat) list \<Rightarrow> ('a list \<times> (rank_key \<times> nat) list) option" where
  "place_rows [] s = Some s"
| "place_rows (i # is) s = Option.bind (place_row i s) (place_rows is)"

definition rank_candidates :: "'a list \<Rightarrow> (rank_key \<times> nat) list \<Rightarrow> ('a list \<times> (rank_key \<times> nat) list) option" where
  "rank_candidates candidates keys =
     (let keys = rank_by_frequency (\<lambda>(key, _). (rk_phrase_length key, rk_pinyin_span key, rk_frequency key)) keys
      in place_rows [0..<length keys] (candidates, keys))"

section \<open>Deduplication\<close>

text \<open>A hash set or map of texts, keyed by the equality of texts; the map holds the index of the row kept.\<close>

fun keep_flags :: "candidate list \<Rightarrow> phrase_text list \<Rightarrow> bool list" where
  "keep_flags [] seen = []"
| "keep_flags (c # cs) seen =
     (if list_ex (\<lambda>t. text_eq t (cd_text c)) seen then False # keep_flags cs seen
      else True # keep_flags cs (cd_text c # seen))"

text \<open>\<open>Vec::retain\<close> by a list of flags.\<close>

definition retain :: "'a list \<Rightarrow> bool list \<Rightarrow> 'a list" where
  "retain xs keep = map fst (filter snd (zip xs keep))"

definition dedup_by_text_keep_first :: "candidate list \<Rightarrow> candidate list" where
  "dedup_by_text_keep_first candidates = retain candidates (keep_flags candidates [])"

definition survivor_get :: "(phrase_text \<times> nat) list \<Rightarrow> phrase_text \<Rightarrow> nat option" where
  "survivor_get survivor t = map_option snd (List.find (\<lambda>(u, _). text_eq u t) survivor)"

definition survivor_put :: "(phrase_text \<times> nat) list \<Rightarrow> phrase_text \<Rightarrow> nat \<Rightarrow> (phrase_text \<times> nat) list" where
  "survivor_put survivor t i = map (\<lambda>(u, j). if text_eq u t then (u, i) else (u, j)) survivor"

definition survivor_step ::
    "candidate list \<Rightarrow> (rank_key \<times> nat) list \<Rightarrow> nat \<Rightarrow> bool list \<times> (phrase_text \<times> nat) list \<Rightarrow>
     bool list \<times> (phrase_text \<times> nat) list" where
  "survivor_step ranked keys index s = (case s of (keep, survivor) \<Rightarrow>
     let t = cd_text (ranked ! index) in
     (case survivor_get survivor t of
        None \<Rightarrow> (keep, (t, index) # survivor)
      | Some held \<Rightarrow>
          if rk_m_freq (fst (keys ! held)) < rk_m_freq (fst (keys ! index))
          then (keep[held := False], survivor_put survivor t index)
          else (keep[index := False], survivor)))"

definition dedup_ranked_by_text :: "candidate list \<Rightarrow> (rank_key \<times> nat) list \<Rightarrow> candidate list" where
  "dedup_ranked_by_text ranked keys =
     (let (keep, survivor) = fold (survivor_step ranked keys) [0..<min (length keys) (length ranked)]
            (replicate (length ranked) True, [])
      in retain ranked keep)"

section \<open>Windows\<close>

fun tokens_increase :: "u32 option \<Rightarrow> candidate list \<Rightarrow> bool" where
  "tokens_increase previous [] \<longleftrightarrow> True"
| "tokens_increase previous (c # cs) \<longleftrightarrow>
     (case cd_token c of
        None \<Rightarrow> False
      | Some token \<Rightarrow>
          \<not> (case previous of Some p \<Rightarrow> token \<le> p | None \<Rightarrow> False) \<and> tokens_increase (Some token) cs)"

definition window_tokens_are_strictly_increasing :: "candidate list \<Rightarrow> bool" where
  "window_tokens_are_strictly_increasing window = tokens_increase None window"

definition library_of :: "candidate \<Rightarrow> u32" where
  "library_of c = (case cd_token c of Some token \<Rightarrow> drop_bit 24 token | None \<Rightarrow> 0xFFFFFFFF)"

definition compact_row :: "nat \<Rightarrow> candidate list \<times> u32 set \<times> nat \<Rightarrow> candidate list \<times> u32 set \<times> nat" where
  "compact_row read s = (case s of (rows, seen, write) \<Rightarrow>
     case cd_token (rows ! read) of
       Some token \<Rightarrow> if token \<in> seen then (rows, seen, write)
                     else (swap_rows rows write read, insert token seen, write + 1)
     | None \<Rightarrow> (swap_rows rows write read, seen, write + 1))"

definition sort_dedup_window_tail :: "candidate list \<Rightarrow> nat \<Rightarrow> candidate list" where
  "sort_dedup_window_tail rows start =
     (let rows = take start rows @ sort_by (\<lambda>a b. cmp_of (library_of a) (library_of b)) (drop start rows);
          (rows, seen, write) = fold compact_row [start..<length rows] (rows, {}, start)
      in take write rows)"

definition order_window_tail :: "candidate list \<Rightarrow> nat \<Rightarrow> candidate list" where
  "order_window_tail rows start =
     (if window_tokens_are_strictly_increasing (drop start rows) then rows else sort_dedup_window_tail rows start)"

definition flush_window_batch :: "candidate list \<Rightarrow> candidate list \<Rightarrow> candidate list" where
  "flush_window_batch batch into = order_window_tail (into @ batch) (length into)"

section \<open>What the sort promises\<close>

text \<open>The contract of a stable sort by a comparator: where the comparator agrees with a key, the list comes out
  sorted by that key with equal keys in their old order.\<close>

locale stable_sort =
  fixes sort_with :: "('a \<Rightarrow> 'a \<Rightarrow> ordering) \<Rightarrow> 'a list \<Rightarrow> 'a list"
  assumes by_key: "(\<And>x y. x \<in> set xs \<Longrightarrow> y \<in> set xs \<Longrightarrow> cmp x y = cmp_of (key x) (key y :: int)) \<Longrightarrow>
    sort_with cmp xs = sort_key key xs"
begin

lemma sort_mset:
  "(\<And>x y. x \<in> set xs \<Longrightarrow> y \<in> set xs \<Longrightarrow> cmp x y = cmp_of (key x) (key y :: int)) \<Longrightarrow> mset (sort_with cmp xs) = mset xs"
  using by_key by simp

lemma sort_ordered:
  assumes agree: "\<And>x y. x \<in> set xs \<Longrightarrow> y \<in> set xs \<Longrightarrow> cmp x y = cmp_of (key x) (key y :: int)"
  shows "sorted_wrt (\<lambda>x y. cmp x y \<noteq> Greater) (sort_with cmp xs)"
proof -
  have "sorted_wrt (\<lambda>x y. key x \<le> key y) (sort_key key xs)" using sorted_sort_key [of key xs] by (simp add: sorted_wrt_map sorted_map)
  then have "sorted_wrt (\<lambda>x y. cmp x y \<noteq> Greater) (sort_key key xs)"
    by (rule sorted_wrt_mono_rel [rotated]) (auto simp: agree cmp_of_def)
  moreover have "sort_with cmp xs = sort_key key xs" using agree by (rule by_key)
  ultimately show ?thesis by simp
qed

lemma sort_stable:
  assumes agree: "\<And>x y. x \<in> set xs \<Longrightarrow> y \<in> set xs \<Longrightarrow> cmp x y = cmp_of (key x) (key y :: int)"
    and same: "\<And>x y. P x \<Longrightarrow> P y \<Longrightarrow> key x = key y"
  shows "filter P (sort_with cmp xs) = filter P xs"
proof (cases "\<exists>z. P z")
  case True
  then obtain z where z: "P z" by blast
  have part: "filter P ys = filter P (filter (\<lambda>x. key x = key z) ys)" for ys
    using same [OF _ z] by (auto intro!: filter_cong)
  have "sort_with cmp xs = sort_key key xs" using agree by (rule by_key)
  then have "filter P (sort_with cmp xs) = filter P (filter (\<lambda>x. key x = key z) (sort_key key xs))" using part by simp
  then show ?thesis unfolding sort_key_stable using part by simp
qed simp

end

lemma insert_by_insort:
  assumes "\<And>y. y \<in> set ys \<Longrightarrow> cmp x y = cmp_of (key x) (key y :: int)"
  shows "insert_by cmp x ys = insort_key key x ys"
  using assms by (induction ys) (auto simp: cmp_of_def)

interpretation std: stable_sort sort_by
proof
  fix cmp :: "'a \<Rightarrow> 'a \<Rightarrow> ordering" and key :: "'a \<Rightarrow> int" and xs
  assume "\<And>x y. x \<in> set xs \<Longrightarrow> y \<in> set xs \<Longrightarrow> cmp x y = cmp_of (key x) (key y)"
  then have "foldr (insert_by cmp) xs [] = foldr (insort_key key) xs []"
  proof (induction xs)
    case (Cons x xs)
    then have "foldr (insert_by cmp) xs [] = sort_key key xs" by (simp add: sort_key_def)
    moreover have "insert_by cmp x (sort_key key xs) = insort_key key x (sort_key key xs)"
      by (rule insert_by_insort) (use Cons.prems in simp)
    ultimately show ?case by (simp add: sort_key_def)
  qed simp
  then show "sort_by cmp xs = sort_key key xs" by (simp add: sort_by_def sort_key_def)
qed

section \<open>Where the wrapping comparison is an order\<close>

fun reverse :: "ordering \<Rightarrow> ordering" where
  "reverse Less = Greater"
| "reverse Equal = Equal"
| "reverse Greater = Less"

definition orders :: "('a \<Rightarrow> 'a \<Rightarrow> ordering) \<Rightarrow> 'a set \<Rightarrow> bool" where
  "orders cmp A \<longleftrightarrow> (\<forall>a \<in> A. \<forall>b \<in> A. cmp b a = reverse (cmp a b)) \<and>
     (\<forall>a \<in> A. \<forall>b \<in> A. \<forall>c \<in> A. cmp a b \<noteq> Greater \<and> cmp b c \<noteq> Greater \<longrightarrow> cmp a c \<noteq> Greater)"

lemma orders_swap: "orders cmp A \<Longrightarrow> a \<in> A \<Longrightarrow> b \<in> A \<Longrightarrow> cmp b a = reverse (cmp a b)"
  unfolding orders_def by blast

lemma orders_trans: "orders cmp A \<Longrightarrow> a \<in> A \<Longrightarrow> b \<in> A \<Longrightarrow> c \<in> A \<Longrightarrow> cmp a b \<noteq> Greater \<Longrightarrow> cmp b c \<noteq> Greater \<Longrightarrow> cmp a c \<noteq> Greater"
  unfolding orders_def by blast

lemma u32_negative: "sint (w :: u32) < 0 \<longleftrightarrow> 2 ^ 31 \<le> unat w"
proof -
  have "sint w < 0 \<longleftrightarrow> bit w 31" using bit_last_iff [of w] by simp
  also have "\<dots> \<longleftrightarrow> odd (unat w div 2 ^ 31)"
    using bit_unsigned_iff [where ?'a = nat, of w 31] unfolding bit_nat_def by simp
  also have "\<dots> \<longleftrightarrow> 2 ^ 31 \<le> unat w"
  proof -
    have "unat w < 2 ^ 32" using unsigned_less [where ?'a = nat, of w] by simp
    then have "unat w div 2 ^ 31 = (if 2 ^ 31 \<le> unat w then 1 else 0)"
      by (auto intro!: div_nat_eqI)
    then show ?thesis by simp
  qed
  finally show ?thesis .
qed

lemma frequency_compare_cases:
  "frequency_compare a b = (if a = b then Equal else if 2 ^ 31 \<le> unat (b - a) then Less else Greater)"
  using u32_negative [of "b - a"] signed_eq_0_iff [of "b - a"] by (auto simp: frequency_compare_def cmp_of_def)

lemma frequency_compare_behind:
  assumes "m - a < (0x80000000 :: u32)" "m - b < 0x80000000"
  shows "frequency_compare a b = cmp_of (unat (m - a)) (unat (m - b))"
proof -
  have small: "unat (m - a) < 2 ^ 31" "unat (m - b) < 2 ^ 31" using assms by (simp_all add: word_less_nat_alt)
  have eq: "a = b \<longleftrightarrow> unat (m - a) = unat (m - b)" by (auto simp: word_unat_eq_iff [symmetric])
  have diff: "b - a = (m - a) - (m - b)" by simp
  consider "unat (m - b) < unat (m - a)" | "unat (m - a) < unat (m - b)" | "unat (m - a) = unat (m - b)" by linarith
  then show ?thesis
  proof cases
    case 1
    then have "unat (b - a) = unat (m - a) - unat (m - b)" unfolding diff using unat_sub_if_size [of "m - a" "m - b"] by simp
    then show ?thesis using 1 small eq by (simp add: frequency_compare_cases cmp_of_def)
  next
    case 2
    then have "unat (b - a) = unat (m - a) + 2 ^ 32 - unat (m - b)"
      unfolding diff using unat_sub_if_size [of "m - a" "m - b"] by (simp add: word_size)
    then show ?thesis using 2 small eq by (simp add: frequency_compare_cases cmp_of_def)
  next
    case 3
    then show ?thesis using eq by (simp add: frequency_compare_cases cmp_of_def)
  qed
qed

lemma orders_by_key:
  assumes "\<And>a b. a \<in> A \<Longrightarrow> b \<in> A \<Longrightarrow> cmp a b = cmp_of (key a :: 'k :: linorder) (key b)"
  shows "orders cmp A"
  unfolding orders_def using assms by (auto simp: cmp_of_def split: if_splits)

text \<open>The scan keeps a value that none of the values seen precedes, if the comparison orders them.\<close>

lemma tournament_maximum:
  assumes "orders frequency_compare (insert m (set fs))"
  defines "best \<equiv> fold (\<lambda>f maximum. if frequency_compare f maximum = Less then f else maximum) fs m"
  shows "best \<in> insert m (set fs) \<and> (\<forall>f \<in> insert m (set fs). frequency_compare best f \<noteq> Greater)"
  unfolding best_def using assms(1)
proof (induction fs arbitrary: m)
  case Nil
  show ?case by (simp add: frequency_compare_cases)
next
  case (Cons f fs)
  let ?m = "if frequency_compare f m = Less then f else m"
  have sub: "insert ?m (set fs) \<subseteq> insert m (set (f # fs))" by auto
  then have "orders frequency_compare (insert ?m (set fs))" using Cons.prems unfolding orders_def by blast
  note IH = Cons.IH [OF this]
  let ?best = "fold (\<lambda>f maximum. if frequency_compare f maximum = Less then f else maximum) fs ?m"
  have in_all: "?best \<in> insert m (set (f # fs))" using IH sub by blast
  have "frequency_compare ?m m \<noteq> Greater \<and> frequency_compare ?m f \<noteq> Greater"
  proof (cases "frequency_compare f m = Less")
    case False
    moreover have "frequency_compare m f = reverse (frequency_compare f m)"
      using orders_swap [OF Cons.prems, of f m] by simp
    ultimately show ?thesis by (cases "frequency_compare f m") (auto simp: frequency_compare_cases)
  qed (simp add: frequency_compare_cases)
  moreover have "frequency_compare ?best ?m \<noteq> Greater" using IH by blast
  ultimately have "frequency_compare ?best m \<noteq> Greater \<and> frequency_compare ?best f \<noteq> Greater"
    using orders_trans [OF Cons.prems in_all, of ?m] sub by auto
  then show ?case using IH in_all by auto
qed

lemma guard_exact:
  "frequency_order_is_consistent fs \<longleftrightarrow> orders frequency_compare (set fs)"
proof (cases fs)
  case (Cons first rest)
  let ?m = "fold (\<lambda>f maximum. if frequency_compare f maximum = Less then f else maximum) rest first"
  have guard: "frequency_order_is_consistent fs \<longleftrightarrow> (\<forall>f \<in> set fs. ?m - f < 0x80000000)"
    unfolding frequency_order_is_consistent_def Cons list.case Let_def list_all_iff ..
  show ?thesis
  proof
    assume "frequency_order_is_consistent fs"
    then have "\<forall>f \<in> set fs. ?m - f < 0x80000000" by (simp only: guard)
    then show "orders frequency_compare (set fs)"
      by (intro orders_by_key [where key = "\<lambda>f. unat (?m - f)"]) (simp add: frequency_compare_behind)
  next
    assume ord: "orders frequency_compare (set fs)"
    then have m: "?m \<in> set fs" "\<forall>f \<in> set fs. frequency_compare ?m f \<noteq> Greater"
      using tournament_maximum [of first rest] by (simp_all add: Cons)
    have "?m - f < 0x80000000" if f: "f \<in> set fs" for f
    proof (cases "f = ?m")
      case False
      then have "frequency_compare ?m f = Less" using m(2) f by (auto simp: frequency_compare_cases split: if_splits)
      then have "frequency_compare f ?m = Greater" using orders_swap [OF ord m(1) f] by simp
      then show ?thesis by (auto simp: frequency_compare_cases word_less_nat_alt split: if_splits)
    qed simp
    then show "frequency_order_is_consistent fs" unfolding guard by blast
  qed
qed (simp add: frequency_order_is_consistent_def orders_def)

section \<open>Ranking\<close>

lemma cmp_of_int: "cmp_of (int a) (int b) = cmp_of a b" "cmp_of (- int a) (- int b) = cmp_of b a"
  by (auto simp: cmp_of_def)

text \<open>The first two fields of a key as one number, so that the groups of the ranking are its classes.\<close>

definition length_span :: "nat \<times> u8 \<times> u32 \<Rightarrow> nat" where
  "length_span k = fst k * 256 + unat (fst (snd k))"

lemma span_small: "unat (w :: u8) < 256"
  using unsigned_less [where ?'a = nat, of w] by simp

lemma length_span_order:
  "length_span_compare l r = cmp_of (- int (length_span l)) (- int (length_span r))"
  "length_span l = length_span r \<longleftrightarrow> (fst l, fst (snd l)) = (fst r, fst (snd r))"
proof -
  obtain a x f b y g where k: "l = (a, x, f)" "r = (b, y, g)" by (metis prod_cases3)
  have order: "a * 256 + unat x < b * 256 + unat y \<longleftrightarrow> a < b \<or> a = b \<and> x < y" for a b and x y :: u8
    using span_small [of x] span_small [of y] by (auto simp: word_less_nat_alt)
  show "length_span_compare l r = cmp_of (- int (length_span l)) (- int (length_span r))"
    unfolding cmp_of_int using order [of a x b y] order [of b y a x]
    by (auto simp: k length_span_compare_def length_span_def cmp_of_def)
  show "length_span l = length_span r \<longleftrightarrow> (fst l, fst (snd l)) = (fst r, fst (snd r))"
    using order [of a x b y] order [of b y a x] by (auto simp: k length_span_def)
qed

text \<open>The chunks of a list sorted by a key are the classes of the key.\<close>

lemma chunk_by_classes:
  assumes "sorted (map (\<lambda>x. - int (K x)) xs)"
  shows "chunk_by (\<lambda>x y. K x = K y) xs = map (\<lambda>k. filter (\<lambda>x. K x = k) xs) (remdups_adj (map K xs)) \<and>
    distinct (remdups_adj (map K xs))"
  using assms
proof (induction xs rule: induct_list012)
  case (3 x y ys)
  let ?R = "\<lambda>x y. K x = K y" and ?ks = "remdups_adj (map K (y # ys))"
  have IH: "chunk_by ?R (y # ys) = map (\<lambda>k. filter (\<lambda>x. K x = k) (y # ys)) ?ks" "distinct ?ks" using 3 by simp_all
  obtain ks where ks: "?ks = K y # ks" by (metis list.simps(9) remdups_adj_Cons_alt)
  have low: "K z \<le> K y" if "z \<in> set (y # ys)" for z using 3(3) that by auto
  show ?case
  proof (cases "K x = K y")
    case True
    have other: "k \<noteq> K x" if "k \<in> set ks" for k using IH(2) ks True that by auto
    have "remdups_adj (map K (x # y # ys)) = K y # ks" using ks True by simp
    moreover have "chunk_by ?R (x # y # ys) = filter (\<lambda>z. K z = K y) (x # y # ys) # map (\<lambda>k. filter (\<lambda>x. K x = k) (y # ys)) ks"
      using IH(1) True unfolding ks by simp
    moreover have "map (\<lambda>k. filter (\<lambda>x. K x = k) (y # ys)) ks = map (\<lambda>k. filter (\<lambda>x. K x = k) (x # y # ys)) ks"
      using other by (intro map_cong) auto
    ultimately show ?thesis using IH(2) ks by simp
  next
    case False
    then have above: "K z < K x" if "z \<in> set (y # ys)" for z using 3(3) low [OF that] by auto
    have none: "k \<noteq> K x" if "k \<in> set ?ks" for k using that above by fastforce
    have "remdups_adj (map K (x # y # ys)) = K x # ?ks" using False by simp
    moreover have "chunk_by ?R (x # y # ys) = [x] # map (\<lambda>k. filter (\<lambda>x. K x = k) (y # ys)) ?ks"
      using IH(1) False unfolding ks by simp
    moreover have "filter (\<lambda>z. K z = K x) (x # y # ys) = [x]" 
    proof -
      have "filter (\<lambda>z. K z = K x) (y # ys) = []" unfolding filter_empty_conv using above less_irrefl by metis
      then show ?thesis by simp
    qed
    moreover have "map (\<lambda>k. filter (\<lambda>x. K x = k) (y # ys)) ?ks = map (\<lambda>k. filter (\<lambda>x. K x = k) (x # y # ys)) ?ks"
      using none by (intro map_cong) auto
    ultimately show ?thesis using IH(2) none by auto
  qed
qed simp_all

lemma chunk_by_concat: "concat (chunk_by R xs) = xs"
  by (induction xs rule: induct_list012) (auto split: list.splits)

lemma classes_filter:
  assumes "distinct ks" "S [] = []" "\<And>g. set (S g) \<subseteq> set g"
  shows "filter (\<lambda>x. K x = k) (concat (map S (map (\<lambda>k. filter (\<lambda>x. K x = k) xs) ks))) =
    (if k \<in> set ks then S (filter (\<lambda>x. K x = k) xs) else [])"
  using assms(1)
proof (induction ks)
  case (Cons j ks)
  have sub: "\<forall>x \<in> set (S (filter (\<lambda>x. K x = j) xs)). K x = j" using assms(3) by fastforce
  have "filter (\<lambda>x. K x = k) (S (filter (\<lambda>x. K x = j) xs)) = (if k = j then S (filter (\<lambda>x. K x = j) xs) else [])"
  proof (cases "k = j")
    case True
    then show ?thesis using filter_True [OF sub] by simp
  next
    case False
    have "filter (\<lambda>x. K x = k) (S (filter (\<lambda>x. K x = j) xs)) = []" unfolding filter_empty_conv using sub False by blast
    then show ?thesis using False by (simp only: if_False)
  qed
  then show ?case using Cons by simp
qed simp

text \<open>A group is sorted by a number: how far behind the largest frequency, or the frequency itself.\<close>

definition group_key :: "('a \<Rightarrow> nat \<times> u8 \<times> u32) \<Rightarrow> 'a list \<Rightarrow> 'a \<Rightarrow> int" where
  "group_key key g row =
     (let freq = (\<lambda>row. snd (snd (key row))) in
      if frequency_order_is_consistent (map freq g)
      then (case map freq g of [] \<Rightarrow> 0 | first # rest \<Rightarrow>
        int (unat (fold (\<lambda>f maximum. if frequency_compare f maximum = Less then f else maximum) rest first - freq row)))
      else - int (unat (freq row)))"

lemma rank_group_key:
  assumes "x \<in> set g" "y \<in> set g"
  shows "(if frequency_order_is_consistent (map (\<lambda>row. snd (snd (key row))) g)
      then frequency_compare (snd (snd (key x))) (snd (snd (key y)))
      else cmp_of (snd (snd (key y))) (snd (snd (key x)))) = cmp_of (group_key key g x) (group_key key g y)"
proof (cases "frequency_order_is_consistent (map (\<lambda>row. snd (snd (key row))) g)")
  case True
  let ?freq = "\<lambda>row. snd (snd (key row))"
  obtain first rest where g: "map ?freq g = first # rest" using assms(1) by (cases g) auto
  let ?m = "fold (\<lambda>f maximum. if frequency_compare f maximum = Less then f else maximum) rest first"
  have "\<forall>f \<in> set (map ?freq g). ?m - f < 0x80000000"
    using True unfolding g frequency_order_is_consistent_def list.case Let_def list_all_iff .
  then have near: "?m - ?freq x < 0x80000000" "?m - ?freq y < 0x80000000" using assms by simp_all
  have gk: "group_key key g z = int (unat (?m - ?freq z))" for z
    unfolding group_key_def Let_def if_P [OF True] unfolding g list.case ..
  show ?thesis unfolding gk cmp_of_int if_P [OF True] by (rule frequency_compare_behind [OF near])
next
  case False
  have gk: "group_key key g z = - int (unat (snd (snd (key z))))" for z
    unfolding group_key_def Let_def if_not_P [OF False] ..
  show ?thesis unfolding gk cmp_of_int if_not_P [OF False] by (simp add: cmp_of_def word_less_nat_alt)
qed

lemma rank_group_sorted:
  "rank_group key g = sort_key (group_key key g) g"
  unfolding rank_group_def Let_def by (rule std.by_key) (rule rank_group_key)

lemma rank_by_frequency_classes:
  fixes key :: "'a \<Rightarrow> nat \<times> u8 \<times> u32"
  defines "K \<equiv> \<lambda>x. length_span (key x)"
  shows "sorted (map (\<lambda>x. - int (K x)) (rank_by_frequency key items))"
    "filter (\<lambda>x. K x = k) (rank_by_frequency key items) = rank_group key (filter (\<lambda>x. K x = k) items)"
proof -
  let ?sorted = "sort_key (\<lambda>x. - int (K x)) items"
  have "sort_by (\<lambda>left right. length_span_compare (key left) (key right)) items = ?sorted"
    by (rule std.by_key) (simp add: K_def length_span_order(1))
  moreover have "(\<lambda>left right. (fst (key left), fst (snd (key left))) = (fst (key right), fst (snd (key right)))) = (\<lambda>x y. K x = K y)"
    by (simp only: K_def length_span_order(2))
  ultimately have out: "rank_by_frequency key items = concat (map (rank_group key) (chunk_by (\<lambda>x y. K x = K y) ?sorted))"
    by (simp only: rank_by_frequency_def Let_def)
  note classes = chunk_by_classes [of K ?sorted, OF sorted_sort_key]
  let ?ks = "remdups_adj (map K ?sorted)"
  have g: "set (rank_group key g) = set g" for g by (simp add: rank_group_sorted)
  have "filter (\<lambda>x. K x = k) (rank_by_frequency key items) = (if k \<in> set ?ks then rank_group key (filter (\<lambda>x. K x = k) ?sorted) else [])"
    unfolding out conjunct1 [OF classes]
    by (rule classes_filter [OF conjunct2 [OF classes]]) (simp_all add: g rank_group_sorted)
  also have "filter (\<lambda>x. K x = k) ?sorted = filter (\<lambda>x. K x = k) items"
    using sort_key_stable [of "\<lambda>x. - int (K x)" "- int k" items] by simp
  also have "(if k \<in> set ?ks then rank_group key (filter (\<lambda>x. K x = k) items) else []) = rank_group key (filter (\<lambda>x. K x = k) items)"
  proof (cases "k \<in> set ?ks")
    case False
    then have "filter (\<lambda>x. K x = k) items = []" by (auto simp: filter_empty_conv)
    then show ?thesis by (simp add: rank_group_sorted)
  qed simp
  finally show "filter (\<lambda>x. K x = k) (rank_by_frequency key items) = rank_group key (filter (\<lambda>x. K x = k) items)" .
  have "map K (rank_group key g) = map K g" if "g \<in> set (chunk_by (\<lambda>x y. K x = K y) ?sorted)" for g
  proof -
    obtain j where "g = filter (\<lambda>x. K x = j) ?sorted" using \<open>g \<in> _\<close> unfolding conjunct1 [OF classes] by auto
    then have "\<forall>x \<in> set g. K x = j" by simp
    then have "\<forall>x \<in> set (rank_group key g). K x = j" "\<forall>x \<in> set g. K x = j" using g by simp_all
    moreover have "length (rank_group key g) = length g" by (simp add: rank_group_sorted)
    ultimately show ?thesis by (metis map_eq_conv map_replicate_const)
  qed
  then have "map K (rank_by_frequency key items) = map K (concat (chunk_by (\<lambda>x y. K x = K y) ?sorted))"
    unfolding out map_concat map_map comp_def by (metis (no_types, lifting) map_cong)
  also have "\<dots> = map K ?sorted" by (simp add: chunk_by_concat)
  finally have "map (\<lambda>k. - int k) (map K (rank_by_frequency key items)) = map (\<lambda>k. - int k) (map K ?sorted)" by simp
  then show "sorted (map (\<lambda>x. - int (K x)) (rank_by_frequency key items))"
    using sorted_sort_key [of "\<lambda>x. - int (K x)" items] by (simp add: comp_def)
qed

section \<open>The permutation by swaps\<close>

text \<open>Where the index \<open>x\<close> leads before step \<open>i\<close>: an index already placed is followed to where its row went.\<close>

inductive leads :: "(rank_key \<times> nat) list \<Rightarrow> nat \<Rightarrow> nat \<Rightarrow> nat \<Rightarrow> bool" for keys i where
  stop: "i \<le> x \<Longrightarrow> leads keys i x x"
| hop: "x < i \<Longrightarrow> leads keys i (snd (keys ! x)) p \<Longrightarrow> leads keys i x p"

lemma leads_follow: "leads keys i x p \<Longrightarrow> follow keys i x = Some p"
proof (induction rule: leads.induct)
  case (stop x)
  then show ?case by (subst follow.simps) simp
next
  case (hop x p)
  then show ?case by (subst follow.simps) simp
qed

lemma leads_past: "leads keys i x p \<Longrightarrow> p \<noteq> i \<Longrightarrow> leads (keys[i := kv]) (Suc i) x p"
proof (induction rule: leads.induct)
  case (stop x)
  then show ?case by (intro leads.stop) simp
next
  case (hop x p)
  then have "x < Suc i" "leads (keys[i := kv]) (Suc i) (snd (keys[i := kv] ! x)) p" by simp_all
  then show ?case by (rule leads.hop)
qed

lemma leads_through:
  assumes "i < length keys" "Suc i \<le> snd kv"
  shows "leads keys i x p \<Longrightarrow> p = i \<Longrightarrow> leads (keys[i := kv]) (Suc i) x (snd kv)"
proof (induction rule: leads.induct)
  case (stop x)
  then have "x < Suc i" "snd (keys[i := kv] ! x) = snd kv" using assms(1) by simp_all
  then show ?case using leads.hop [of x "Suc i"] leads.stop [OF assms(2)] by metis
next
  case (hop x p)
  then have "x < Suc i" "leads (keys[i := kv]) (Suc i) (snd (keys[i := kv] ! x)) (snd kv)" by simp_all
  then show ?case by (rule leads.hop)
qed

definition placed_inv where
  "placed_inv keys candidates i candidates' keys' \<longleftrightarrow>
     length candidates' = length candidates \<and> length keys' = length keys \<and> map fst keys' = map fst keys \<and>
     (\<forall>j. i \<le> j \<and> j < length keys \<longrightarrow> keys' ! j = keys ! j) \<and>
     (\<forall>j < i. candidates' ! j = candidates ! snd (keys ! j)) \<and>
     (\<exists>loc. inj_on loc {i..<length keys} \<and> (\<forall>j \<in> {i..<length keys}. leads keys' i (snd (keys ! j)) (loc j) \<and>
        i \<le> loc j \<and> loc j < length keys \<and> candidates' ! loc j = candidates ! snd (keys ! j)))"

lemma place_row_inv:
  assumes inv: "placed_inv keys candidates i rows keys'" and i: "i < length keys" and len: "length candidates = length keys"
  shows "\<exists>rows' keys''. place_row i (rows, keys') = Some (rows', keys'') \<and> placed_inv keys candidates (Suc i) rows' keys''"
proof -
  obtain loc where loc: "inj_on loc {i..<length keys}"
      "\<And>j. j \<in> {i..<length keys} \<Longrightarrow> leads keys' i (snd (keys ! j)) (loc j)"
      "\<And>j. j \<in> {i..<length keys} \<Longrightarrow> i \<le> loc j \<and> loc j < length keys \<and> rows ! loc j = candidates ! snd (keys ! j)"
    using inv unfolding placed_inv_def by blast
  have old: "length rows = length keys" "length keys' = length keys" "map fst keys' = map fst keys"
      "\<And>j. i \<le> j \<Longrightarrow> j < length keys \<Longrightarrow> keys' ! j = keys ! j" "\<And>j. j < i \<Longrightarrow> rows ! j = candidates ! snd (keys ! j)"
    using inv len unfolding placed_inv_def by simp_all
  let ?q = "loc i"
  have q: "i \<le> ?q" "?q < length keys" "rows ! ?q = candidates ! snd (keys ! i)" using loc(3) [of i] i by simp_all
  let ?rows = "swap_rows rows i ?q" and ?keys = "keys'[i := (fst (keys' ! i), ?q)]"
  have "follow keys' i (snd (keys' ! i)) = Some ?q" using leads_follow [OF loc(2) [of i]] old(4) [of i] i by simp
  then have step: "place_row i (rows, keys') = Some (?rows, ?keys)" by (simp add: place_row_def)
  let ?loc = "\<lambda>j. if loc j = i then ?q else loc j"
  have later: "leads ?keys (Suc i) (snd (keys ! j)) (?loc j) \<and> Suc i \<le> ?loc j \<and> ?loc j < length keys \<and>
      ?rows ! ?loc j = candidates ! snd (keys ! j)" if j: "j \<in> {Suc i..<length keys}" for j
  proof -
    have jin: "j \<in> {i..<length keys}" using j by simp
    have ne: "loc j \<noteq> ?q" using inj_onD [OF loc(1), of j i] j i by auto
    show ?thesis
    proof (cases "loc j = i")
      case True
      then have far: "Suc i \<le> ?q" using ne q(1) by simp
      have "leads ?keys (Suc i) (snd (keys ! j)) ?q"
        using leads_through [of i keys' "(fst (keys' ! i), ?q)", OF _ _ loc(2) [OF jin] True] far i old(2) by simp
      moreover have "?rows ! ?q = candidates ! snd (keys ! j)"
        using loc(3) [OF jin] True q(2) old(1) by (simp add: swap_rows_def)
      ultimately show ?thesis using True far q(2) by simp
    next
      case False
      then show ?thesis
        using leads_past [OF loc(2) [OF jin] False] loc(3) [OF jin] ne old(1) by (auto simp: swap_rows_def)
    qed
  qed
  have "inj_on ?loc {Suc i..<length keys}"
  proof (rule inj_onI)
    fix a b
    assume ab: "a \<in> {Suc i..<length keys}" "b \<in> {Suc i..<length keys}" "?loc a = ?loc b"
    have "loc a \<noteq> ?q" "loc b \<noteq> ?q" using ab(1,2) inj_onD [OF loc(1), of _ i] i by fastforce+
    then have "loc a = loc b" using ab(3) by (auto split: if_splits)
    then show "a = b" using inj_onD [OF loc(1)] ab(1,2) by simp
  qed
  moreover have "?rows ! j = candidates ! snd (keys ! j)" if "j < Suc i" for j
    using that old(1,5) q i by (cases "j = i") (auto simp: swap_rows_def nth_list_update)
  moreover have "map fst ?keys = map fst keys" using old(3) i old(2) by (simp add: map_update) (metis list_update_id nth_map)
  ultimately show ?thesis
    using step later old by (intro exI [of _ ?rows] exI [of _ ?keys]) (auto simp: placed_inv_def swap_rows_def len)
qed

lemma place_rows_inv:
  assumes "placed_inv keys candidates i rows keys'" "length candidates = length keys" "i + n = length keys"
  shows "\<exists>rows' keys''. place_rows [i..<length keys] (rows, keys') = Some (rows', keys'') \<and>
    placed_inv keys candidates (length keys) rows' keys''"
  using assms
proof (induction n arbitrary: i rows keys')
  case (Suc n)
  then have i: "i < length keys" by simp
  from place_row_inv [OF Suc.prems(1) i Suc.prems(2)] obtain rows1 keys1 where
    step: "place_row i (rows, keys') = Some (rows1, keys1)" "placed_inv keys candidates (Suc i) rows1 keys1" by blast
  from Suc.IH [OF step(2) Suc.prems(2)] Suc.prems(3) show ?case
    by (simp add: upt_conv_Cons [OF i] step(1))
qed auto

lemma rank_mset: "mset (rank_by_frequency key items) = mset items"
proof (rule multiset_eqI)
  fix x
  let ?k = "length_span (key x)"
  have part: "count (mset ys) x = count (mset (filter (\<lambda>y. length_span (key y) = ?k) ys)) x" for ys by simp
  show "count (mset (rank_by_frequency key items)) x = count (mset items) x"
    unfolding part [of items] part [of "rank_by_frequency key items"] rank_by_frequency_classes(2) rank_group_sorted by simp
qed

section \<open>What deduplication keeps\<close>

abbreviation row_words :: "candidate \<Rightarrow> u32 list" where
  "row_words c \<equiv> outward_words (cd_text c)"

lemma retain_nth:
  "length keep = length xs \<Longrightarrow> retain xs keep = map ((!) xs) (filter ((!) keep) [0..<length xs])"
proof (induction xs keep rule: rev_induct2)
  case (4 x xs k keep)
  then have len: "length keep = length xs" by simp
  have flags: "filter ((!) (keep @ [k])) [0..<length xs] = filter ((!) keep) [0..<length xs]"
    using len by (auto intro!: filter_cong simp: nth_append)
  have rows: "map ((!) (xs @ [x])) (filter ((!) keep) [0..<length xs]) = map ((!) xs) (filter ((!) keep) [0..<length xs])"
    by (auto simp: nth_append)
  have last: "(keep @ [k]) ! length xs = k" using len by (metis nth_append_length)
  show ?case using 4 len by (simp add: retain_def flags rows last)
qed (simp_all add: retain_def)

lemma keep_flags_nth:
  assumes "\<forall>c \<in> set cs. text_ok (cd_text c)" "\<forall>t \<in> set seen. text_ok t" "i < length cs"
  shows "keep_flags cs seen ! i \<longleftrightarrow>
    (\<forall>t \<in> set seen. outward_words t \<noteq> row_words (cs ! i)) \<and> (\<forall>j < i. row_words (cs ! j) \<noteq> row_words (cs ! i))"
  using assms
proof (induction cs arbitrary: seen i)
  case (Cons c cs)
  have eq: "list_ex (\<lambda>t. text_eq t (cd_text c)) seen \<longleftrightarrow> (\<exists>t \<in> set seen. outward_words t = row_words c)"
    using Cons.prems by (auto simp: list_ex_iff text_eq_words)
  show ?case
  proof (cases i)
    case 0
    then show ?thesis using eq by auto
  next
    case (Suc k)
    have all: "(\<forall>j < Suc k. P j) \<longleftrightarrow> P 0 \<and> (\<forall>j < k. P (Suc j))" for P using less_Suc_eq_0_disj by auto
    show ?thesis
    proof (cases "\<exists>t \<in> set seen. outward_words t = row_words c")
      case True
      then show ?thesis using Cons.IH [of seen k] Cons.prems eq Suc by (auto simp: all)
    next
      case False
      then show ?thesis using Cons.IH [of "cd_text c # seen" k] Cons.prems eq Suc by (auto simp: all)
    qed
  qed
qed simp

lemma keep_flags_length: "length (keep_flags cs seen) = length cs"
  by (induction cs arbitrary: seen) auto

text \<open>Among the first \<open>n\<close> rows: the first one of its text with the highest frequency of that text.\<close>

definition best_of :: "(nat \<Rightarrow> 'w) \<Rightarrow> (nat \<Rightarrow> u32) \<Rightarrow> nat \<Rightarrow> nat \<Rightarrow> bool" where
  "best_of w f n h \<longleftrightarrow> h < n \<and> (\<forall>j < n. w j = w h \<longrightarrow> f j \<le> f h) \<and> (\<forall>j < h. w j = w h \<longrightarrow> f j < f h)"

lemma best_of_unique: "best_of w f n h \<Longrightarrow> best_of w f n h' \<Longrightarrow> w h = w h' \<Longrightarrow> h = h'"
proof (rule linorder_cases [of h h'])
  assume "best_of w f n h" "best_of w f n h'" "w h = w h'" "h < h'"
  then have "f h < f h'" "f h' \<le> f h" by (simp_all add: best_of_def)
  then show "h = h'" by simp
next
  assume "best_of w f n h" "best_of w f n h'" "w h = w h'" "h' < h"
  then have "f h' < f h" "f h \<le> f h'" by (simp_all add: best_of_def)
  then show "h = h'" by simp
qed

lemma best_of_Suc:
  "best_of w f (Suc n) h \<longleftrightarrow>
     (if h = n then \<forall>j < n. w j = w n \<longrightarrow> f j < f n else best_of w f n h \<and> (w n = w h \<longrightarrow> f n \<le> f h))"
  by (auto simp: best_of_def less_Suc_eq order_less_imp_le)

definition survivor_map :: "(phrase_text \<times> nat) list \<Rightarrow> u32 list \<Rightarrow> nat option" where
  "survivor_map survivor = map_of (map (\<lambda>(u, j). (outward_words u, j)) survivor)"

lemma survivor_get_map:
  assumes "\<forall>(u, j) \<in> set survivor. text_ok u" "text_ok t"
  shows "survivor_get survivor t = survivor_map survivor (outward_words t)"
  using assms by (induction survivor) (auto simp: survivor_get_def survivor_map_def text_eq_words)

lemma survivor_put_map:
  assumes "\<forall>(u, j) \<in> set survivor. text_ok u" "text_ok t" "survivor_map survivor (outward_words t) \<noteq> None"
  shows "survivor_map (survivor_put survivor t i) = (survivor_map survivor)(outward_words t \<mapsto> i)"
    "\<forall>(u, j) \<in> set (survivor_put survivor t i). text_ok u"
proof -
  show "\<forall>(u, j) \<in> set (survivor_put survivor t i). text_ok u" using assms(1) by (auto simp: survivor_put_def split: if_splits)
  have "survivor_map (survivor_put survivor t i) x =
      (if x = outward_words t then map_option (\<lambda>_. i) (survivor_map survivor x) else survivor_map survivor x)" for x
    using assms(1,2)
  proof (induction survivor)
    case (Cons p survivor)
    obtain u j where p: "p = (u, j)" by fastforce
    then have "text_eq u t \<longleftrightarrow> outward_words u = outward_words t" using Cons.prems text_eq_words by simp
    then show ?case using Cons by (auto simp: p survivor_put_def survivor_map_def)
  qed (simp add: survivor_put_def survivor_map_def)
  then show "survivor_map (survivor_put survivor t i) = (survivor_map survivor)(outward_words t \<mapsto> i)"
    using assms(3) by (auto simp: fun_eq_iff)
qed

definition survivor_inv where
  "survivor_inv ranked w f n keep survivor \<longleftrightarrow>
     length keep = length ranked \<and> (\<forall>(u, j) \<in> set survivor. text_ok u) \<and>
     (\<forall>x h. survivor_map survivor x = Some h \<longleftrightarrow> w h = x \<and> best_of w f n h) \<and>
     (\<forall>j < n. survivor_map survivor (w j) \<noteq> None) \<and>
     (\<forall>j < length ranked. keep ! j \<longleftrightarrow> (j < n \<longrightarrow> best_of w f n j))"

lemma survivor_step_inv:
  assumes inv: "survivor_inv ranked w f n keep survivor" and n: "n < length ranked"
    and ok: "\<forall>c \<in> set ranked. text_ok (cd_text c)"
    and w: "w = (\<lambda>i. row_words (ranked ! i))" and f: "f = (\<lambda>i. rk_m_freq (fst (keys ! i)))"
    and step: "survivor_step ranked keys n (keep, survivor) = (keep', survivor')"
  shows "survivor_inv ranked w f (Suc n) keep' survivor'"
proof -
  have len: "length keep = length ranked" and texts: "\<forall>(u, j) \<in> set survivor. text_ok u"
    and best: "\<And>x h. survivor_map survivor x = Some h \<longleftrightarrow> w h = x \<and> best_of w f n h"
    and seen: "\<And>j. j < n \<Longrightarrow> survivor_map survivor (w j) \<noteq> None"
    and flags: "\<And>j. j < length ranked \<Longrightarrow> keep ! j \<longleftrightarrow> (j < n \<longrightarrow> best_of w f n j)"
    using inv unfolding survivor_inv_def by blast+
  let ?t = "cd_text (ranked ! n)"
  have t: "text_ok ?t" "outward_words ?t = w n" using ok n w by simp_all
  have get: "survivor_get survivor ?t = survivor_map survivor (w n)" using survivor_get_map [OF texts t(1)] t(2) by simp
  show ?thesis
  proof (cases "survivor_map survivor (w n)")
    case None
    then have new: "w j \<noteq> w n" if "j < n" for j using seen [OF that] by metis
    have grow: "best_of w f (Suc n) h \<longleftrightarrow> h = n \<or> best_of w f n h" for h
    proof (cases "h < n")
      case True
      then show ?thesis unfolding best_of_Suc using new [OF True] by auto
    next
      case False
      then show ?thesis unfolding best_of_Suc using new by (auto simp: best_of_def)
    qed
    have s: "keep' = keep" "survivor' = (?t, n) # survivor" using step get None by (simp_all add: survivor_step_def)
    have m: "survivor_map survivor' = (survivor_map survivor)(w n \<mapsto> n)" using t(2) by (simp add: s survivor_map_def)
    show ?thesis unfolding survivor_inv_def m grow
      using len texts t(1) best seen flags new s(1) None by (auto simp: s(2) less_Suc_eq best_of_def)
  next
    case (Some held)
    then have held: "w held = w n" "best_of w f n held" using best by auto
    then have lt: "held < n" by (simp add: best_of_def)
    have only: "h = held" if "best_of w f n h" "w h = w n" for h using best_of_unique [OF that(1) held(2)] that(2) held(1) by simp
    show ?thesis
    proof (cases "f held < f n")
      case True
      have grow: "best_of w f (Suc n) h \<longleftrightarrow> h = n \<or> best_of w f n h \<and> h \<noteq> held" for h
      proof (cases "h = n")
        case h: True
        have "f j < f n" if "j < n" "w j = w n" for j using that held True by (auto simp: best_of_def intro: le_less_trans)
        then show ?thesis unfolding best_of_Suc h by simp
      next
        case h: False
        have "\<not> f n \<le> f held" using True by simp
        then show ?thesis unfolding best_of_Suc using only [of h] held h by metis
      qed
      have s: "keep' = keep[held := False]" "survivor' = survivor_put survivor ?t n"
        using step get Some True by (simp_all add: survivor_step_def f)
      have m: "survivor_map survivor' = (survivor_map survivor)(w n \<mapsto> n)" "\<forall>(u, j) \<in> set survivor'. text_ok u"
        using survivor_put_map [OF texts t(1)] Some t(2) by (simp_all add: s(2))
      show ?thesis unfolding survivor_inv_def
      proof (intro conjI allI impI)
        show "length keep' = length ranked" using len s(1) by simp
        show "\<forall>(u, j) \<in> set survivor'. text_ok u" by (rule m(2))
        show "survivor_map survivor' x = Some h \<longleftrightarrow> w h = x \<and> best_of w f (Suc n) h" for x h
          using best [of x h] only [of h] held lt unfolding m(1) grow by (cases "x = w n") auto
        show "survivor_map survivor' (w j) \<noteq> None" if "j < Suc n" for j
          using seen [of j] that unfolding m(1) by (cases "j = n") auto
        show "keep' ! j \<longleftrightarrow> (j < Suc n \<longrightarrow> best_of w f (Suc n) j)" if "j < length ranked" for j
          using flags [OF that] that len lt unfolding s(1) grow by (cases "j = held") (auto simp: less_Suc_eq)
      qed
    next
      case False
      have grow: "best_of w f (Suc n) h \<longleftrightarrow> best_of w f n h" for h
      proof (cases "h = n")
        case h: True
        then show ?thesis unfolding best_of_Suc h using held(1) lt False by (auto simp: best_of_def)
      next
        case h: False
        have "f n \<le> f held" using False by simp
        then show ?thesis unfolding best_of_Suc using only [of h] h by metis
      qed
      have s: "keep' = keep[n := False]" "survivor' = survivor"
        using step get Some False by (simp_all add: survivor_step_def f)
      show ?thesis unfolding survivor_inv_def grow
        using len texts best seen flags s Some n by (auto simp: less_Suc_eq nth_list_update best_of_def)
    qed
  qed
qed

lemma survivor_fold:
  assumes "n \<le> length ranked" "\<forall>c \<in> set ranked. text_ok (cd_text c)"
    and w: "w = (\<lambda>i. row_words (ranked ! i))" and f: "f = (\<lambda>i. rk_m_freq (fst (keys ! i)))"
    and "fold (survivor_step ranked keys) [0..<n] (replicate (length ranked) True, []) = (keep, survivor)"
  shows "survivor_inv ranked w f n keep survivor"
  using assms(1,5)
proof (induction n arbitrary: keep survivor)
  case 0
  then show ?case by (auto simp: survivor_inv_def survivor_map_def best_of_def)
next
  case (Suc n)
  obtain keep0 survivor0 where prev: "fold (survivor_step ranked keys) [0..<n] (replicate (length ranked) True, []) = (keep0, survivor0)"
    by fastforce
  have "survivor_inv ranked w f n keep0 survivor0" using Suc.IH [OF _ prev] Suc.prems(1) by simp
  then show ?case
    using survivor_step_inv [OF _ _ assms(2) w f, of n keep0 survivor0 keep survivor] Suc.prems prev by simp
qed

section \<open>What a window keeps\<close>

fun first_of_token :: "u32 set \<Rightarrow> candidate list \<Rightarrow> candidate list" where
  "first_of_token seen [] = []"
| "first_of_token seen (c # cs) = (case cd_token c of
     None \<Rightarrow> c # first_of_token seen cs
   | Some t \<Rightarrow> if t \<in> seen then first_of_token seen cs else c # first_of_token (insert t seen) cs)"

lemma swap_compact:
  assumes "w \<le> r" "r < length rows"
  shows "take (Suc w) (swap_rows rows w r) = take w rows @ [rows ! r]" "drop (Suc r) (swap_rows rows w r) = drop (Suc r) rows"
    "length (swap_rows rows w r) = length rows"
proof -
  show "length (swap_rows rows w r) = length rows" by (simp add: swap_rows_def)
  then show "take (Suc w) (swap_rows rows w r) = take w rows @ [rows ! r]"
    using assms by (auto simp: take_Suc_conv_app_nth swap_rows_def nth_list_update)
  show "drop (Suc r) (swap_rows rows w r) = drop (Suc r) rows" using assms by (simp add: swap_rows_def)
qed

lemma compact_rows:
  assumes "w \<le> r" "r + n = length rows" "fold compact_row [r..<length rows] (rows, seen, w) = (rows', seen', w')"
  shows "take w' rows' = take w rows @ first_of_token seen (drop r rows)"
  using assms
proof (induction n arbitrary: r w rows seen)
  case (Suc n)
  then have r: "r < length rows" by simp
  have cut: "drop r rows = rows ! r # drop (Suc r) rows" by (rule Cons_nth_drop_Suc [symmetric, OF r])
  obtain rows1 seen1 w1 where step: "compact_row r (rows, seen, w) = (rows1, seen1, w1)" using prod_cases3 by blast
  have rest: "fold compact_row [Suc r..<length rows] (rows1, seen1, w1) = (rows', seen', w')"
    using Suc.prems(3) step by (simp add: upt_conv_Cons [OF r])
  show ?case
  proof (cases "\<exists>t. cd_token (rows ! r) = Some t \<and> t \<in> seen")
    case True
    then have "rows1 = rows" "seen1 = seen" "w1 = w" using step by (auto simp: compact_row_def)
    then show ?thesis using Suc.IH [of w "Suc r" rows seen] Suc.prems rest True by (auto simp: cut)
  next
    case False
    then have s: "rows1 = swap_rows rows w r" "w1 = Suc w"
        "first_of_token seen (rows ! r # drop (Suc r) rows) = rows ! r # first_of_token seen1 (drop (Suc r) rows)"
      using step by (auto simp: compact_row_def split: option.splits)
    note swap = swap_compact [OF Suc.prems(1) r]
    show ?thesis
      using Suc.IH [of "Suc w" "Suc r" rows1 seen1] Suc.prems(1,2) rest s swap by (simp add: cut)
  qed
qed simp

lemma sort_dedup_eq:
  assumes "start \<le> length rows"
  shows "sort_dedup_window_tail rows start =
    take start rows @ first_of_token {} (sort_key (\<lambda>c. unat (library_of c)) (drop start rows))"
proof -
  have by_int: "sort_by (\<lambda>a b. cmp_of (library_of a) (library_of b)) xs = sort_key (\<lambda>c. int (unat (library_of c))) xs" for xs
    by (rule std.by_key) (unfold cmp_of_int, simp add: cmp_of_def word_less_nat_alt)
  have key: "sort_key (\<lambda>c. int (unat (library_of c))) xs = sort_key (\<lambda>c. unat (library_of c)) xs" for xs
  proof -
    have "insort_key (\<lambda>c. int (unat (library_of c))) = insort_key (\<lambda>c. unat (library_of c))"
    proof (intro ext)
      show "insort_key (\<lambda>c. int (unat (library_of c))) x ys = insort_key (\<lambda>c. unat (library_of c)) x ys" for x ys
        by (induction ys) (simp_all del: of_nat_unat add: of_nat_le_iff)
    qed
    then show ?thesis by (simp only: sort_key_def)
  qed
  let ?rows = "take start rows @ sort_key (\<lambda>c. unat (library_of c)) (drop start rows)"
  obtain rows' seen' w' where f: "fold compact_row [start..<length ?rows] (?rows, {}, start) = (rows', seen', w')"
    using prod_cases3 by blast
  have "start + (length rows - start) = length ?rows" using assms by simp
  from compact_rows [OF order_refl this f] have "take w' rows' = take start rows @ first_of_token {} (sort_key (\<lambda>c. unat (library_of c)) (drop start rows))"
    using assms by simp
  then show ?thesis unfolding sort_dedup_window_tail_def Let_def by_int key f prod.case .
qed

lemma tokens_increase_tokens:
  "tokens_increase previous cs \<Longrightarrow> \<exists>ts. map cd_token cs = map Some ts \<and> sorted_wrt (<) ts \<and> (\<forall>p. previous = Some p \<longrightarrow> (\<forall>t \<in> set ts. p < t))"
proof (induction cs arbitrary: previous)
  case (Cons c cs)
  then obtain t where t: "cd_token c = Some t" "tokens_increase (Some t) cs" "\<forall>p. previous = Some p \<longrightarrow> p < t"
    by (auto simp: not_le split: option.splits)
  from Cons.IH [OF t(2)] obtain ts where "map cd_token cs = map Some ts" "sorted_wrt (<) ts" "\<forall>u \<in> set ts. t < u" by auto
  then show ?case using t by (intro exI [of _ "t # ts"]) (auto intro: less_trans)
qed simp

lemma first_of_token_all:
  "map cd_token cs = map Some ts \<Longrightarrow> distinct ts \<Longrightarrow> set ts \<inter> seen = {} \<Longrightarrow> first_of_token seen cs = cs"
proof (induction cs arbitrary: ts seen)
  case (Cons c cs)
  then obtain t ts' where ts: "ts = t # ts'" "cd_token c = Some t" "map cd_token cs = map Some ts'" by (cases ts) auto
  then show ?case using Cons.IH [OF ts(3), of "insert t seen"] Cons.prems by auto
qed simp

lemma increasing_window:
  assumes "window_tokens_are_strictly_increasing cs"
  shows "first_of_token {} (sort_key (\<lambda>c. unat (library_of c)) cs) = cs"
proof -
  obtain ts where ts: "map cd_token cs = map Some ts" "sorted_wrt (<) ts"
    using tokens_increase_tokens [of None cs] assms by (auto simp: window_tokens_are_strictly_increasing_def)
  have "map (\<lambda>c. unat (library_of c)) cs = map (\<lambda>t. drop_bit 24 (unat t)) ts"
    using ts(1) by (induction cs arbitrary: ts) (auto simp: library_of_def unat_drop_bit_eq)
  moreover have "sorted (map (\<lambda>t. drop_bit 24 (unat t)) ts)"
    using ts(2) by (induction ts) (auto simp: word_less_nat_alt drop_bit_eq_div intro!: div_le_mono)
  ultimately have "sort_key (\<lambda>c. unat (library_of c)) cs = cs" by (metis sort_key_id_if_sorted)
  moreover have "distinct ts" using ts(2) by (simp add: strict_sorted_iff)
  ultimately show ?thesis using first_of_token_all [OF ts(1)] by simp
qed

lemma first_of_token_set:
  "set (first_of_token seen cs) \<subseteq> set cs"
  "c \<in> set cs \<Longrightarrow> cd_token c = None \<Longrightarrow> c \<in> set (first_of_token seen cs)"
  by (induction seen cs rule: first_of_token.induct) (auto split: option.splits if_splits)

lemma first_of_token_covers:
  "c \<in> set cs \<Longrightarrow> cd_token c = Some t \<Longrightarrow> t \<notin> seen \<Longrightarrow> \<exists>c' \<in> set (first_of_token seen cs). cd_token c' = Some t"
proof (induction seen cs rule: first_of_token.induct)
  case (2 seen d cs)
  show ?case
  proof (cases "cd_token d")
    case None
    then show ?thesis using 2 by auto
  next
    case (Some u)
    then show ?thesis using 2 by (cases "u = t"; cases "u \<in> seen") auto
  qed
qed simp

lemma first_of_token_distinct:
  "distinct (List.map_filter cd_token (first_of_token seen cs)) \<and> set (List.map_filter cd_token (first_of_token seen cs)) \<inter> seen = {}"
  by (induction seen cs rule: first_of_token.induct) (auto simp: map_filter_simps split: option.splits)

abbreviation row_key :: "rank_key \<times> nat \<Rightarrow> nat \<times> u8 \<times> u32" where
  "row_key \<equiv> \<lambda>(key, _). (rk_phrase_length key, rk_pinyin_span key, rk_frequency key)"

section \<open>Properties\<close>

text \<open>C17: the guard in front of the candidate sort accepts a list of frequencies exactly when the wrapping
  comparison is an order on them: antisymmetric and transitive.\<close>

theorem frequency_guard_exact:
  "frequency_order_is_consistent fs \<longleftrightarrow> orders frequency_compare (set fs)"
  by (rule guard_exact)

text \<open>C16: ranking the candidates of a list with their indexed keys. The keys are permuted into descending phrase
  length and span; inside such a group they follow the wrapping comparison of frequencies where the
  guard accepts the group and descending frequency otherwise; equal keys keep their order. The swaps
  terminate and move every candidate to the place of its key.\<close>

theorem rank_candidates_spec:
  assumes index: "map snd keys = [0..<length keys]" and len: "length candidates = length keys"
    and order: "order = rank_by_frequency row_key keys"
  shows "mset order = mset keys \<and> sorted_wrt (\<lambda>a b. length_span (row_key b) \<le> length_span (row_key a)) order \<and>
    (\<forall>c. sorted_wrt (\<lambda>a b.
         if frequency_order_is_consistent (map (\<lambda>k. rk_frequency (fst k)) (filter (\<lambda>k. length_span (row_key k) = c) keys))
         then frequency_compare (rk_frequency (fst a)) (rk_frequency (fst b)) \<noteq> Greater
         else rk_frequency (fst b) \<le> rk_frequency (fst a)) (filter (\<lambda>k. length_span (row_key k) = c) order)) \<and>
    (\<forall>v. filter (\<lambda>k. row_key k = v) order = filter (\<lambda>k. row_key k = v) keys) \<and>
    (\<exists>keys'. rank_candidates candidates keys = Some (map (\<lambda>k. candidates ! snd k) order, keys') \<and> map fst keys' = map fst order)"
proof (intro conjI allI)
  let ?L = "\<lambda>k. length_span (row_key k)" and ?f = "\<lambda>k :: rank_key \<times> nat. rk_frequency (fst k)"
  have freq: "snd (snd (row_key row)) = ?f row" for row :: "rank_key \<times> nat" by (cases row) simp
  show perm: "mset order = mset keys" unfolding order by (rule rank_mset)
  have "sorted_wrt (\<lambda>a b. - int (?L a) \<le> - int (?L b)) order"
    using rank_by_frequency_classes(1) [of row_key keys] unfolding order by (simp add: sorted_map)
  then show "sorted_wrt (\<lambda>a b. ?L b \<le> ?L a) order" by simp
  have group: "filter (\<lambda>k. ?L k = c) order = rank_group row_key (filter (\<lambda>k. ?L k = c) keys)" for c
    unfolding order by (rule rank_by_frequency_classes(2))
  show "sorted_wrt (\<lambda>a b. if frequency_order_is_consistent (map ?f (filter (\<lambda>k. ?L k = c) keys))
      then frequency_compare (?f a) (?f b) \<noteq> Greater else ?f b \<le> ?f a) (filter (\<lambda>k. ?L k = c) order)" for c
  proof -
    let ?g = "filter (\<lambda>k. ?L k = c) keys"
    have "sorted_wrt (\<lambda>x y. (if frequency_order_is_consistent (map (\<lambda>row. snd (snd (row_key row))) ?g)
        then frequency_compare (snd (snd (row_key x))) (snd (snd (row_key y)))
        else cmp_of (snd (snd (row_key y))) (snd (snd (row_key x)))) \<noteq> Greater) (rank_group row_key ?g)"
      unfolding rank_group_def Let_def by (rule std.sort_ordered) (rule rank_group_key)
    then have "sorted_wrt (\<lambda>x y. (if frequency_order_is_consistent (map ?f ?g)
        then frequency_compare (?f x) (?f y) else cmp_of (?f y) (?f x)) \<noteq> Greater) (rank_group row_key ?g)"
      unfolding freq .
    then show ?thesis unfolding group
      by (rule sorted_wrt_mono_rel [rotated]) (auto simp: cmp_of_def not_less split: if_splits)
  qed
  show "filter (\<lambda>k. row_key k = v) order = filter (\<lambda>k. row_key k = v) keys" for v
  proof -
    have part: "filter (\<lambda>k. row_key k = v) ks = filter (\<lambda>k. row_key k = v) (filter (\<lambda>k. ?L k = length_span v) ks)" for ks
      by (auto intro!: filter_cong)
    have "filter (\<lambda>k. row_key k = v) (rank_group row_key g) = filter (\<lambda>k. row_key k = v) g" for g
      unfolding rank_group_def Let_def
      by (rule std.sort_stable [OF rank_group_key]) (auto simp: group_key_def Let_def split: list.splits)
    then show ?thesis unfolding part [of order] part [of keys] group .
  qed
  have start: "placed_inv order candidates 0 candidates order"
  proof -
    have "length order = length keys" "mset (map snd order) = mset (map snd keys)" using perm mset_eq_length by (simp_all, blast)
    then have "distinct (map snd order)" "set (map snd order) = {0..<length order}"
      unfolding index by (metis distinct_upt mset_eq_imp_distinct_iff, metis atLeastLessThan_upt mset_eq_setD)
    then have "inj_on (\<lambda>j. snd (order ! j)) {0..<length order}" "\<forall>j < length order. snd (order ! j) < length order"
      by (auto simp: distinct_conv_nth inj_on_def) (metis atLeastLessThan_iff image_eqI nth_mem set_map)
    then show ?thesis using leads.stop by (auto simp: placed_inv_def)
  qed
  have lens: "length order = length keys" using perm mset_eq_length by blast
  then obtain rows keys' where p: "place_rows [0..<length order] (candidates, order) = Some (rows, keys')"
      "placed_inv order candidates (length order) rows keys'"
    using place_rows_inv [OF start] len by auto
  have "rows = map (\<lambda>k. candidates ! snd k) order"
    using p(2) lens len by (intro nth_equalityI) (auto simp: placed_inv_def)
  moreover have "map fst keys' = map fst order" using p(2) by (simp add: placed_inv_def)
  ultimately show "\<exists>keys'. rank_candidates candidates keys = Some (map (\<lambda>k. candidates ! snd k) order, keys') \<and> map fst keys' = map fst order"
    using p(1) by (simp add: rank_candidates_def Let_def order [symmetric])
qed

theorem rank_candidates_spec_witness:
  "\<exists>rows keys'. rank_candidates [''a'', ''b''] [(for_sort_word 1 2 5 0x10, 0), (for_sort_word 1 2 9 0x10, 1)] = Some (rows, keys') \<and>
     mset (map fst keys') = {# for_sort_word 1 2 5 0x10, for_sort_word 1 2 9 0x10 #}"
proof -
  let ?keys = "[(for_sort_word 1 2 5 0x10, 0), (for_sort_word 1 2 9 0x10, 1)]"
  have ok: "map snd ?keys = [0..<length ?keys]" "length [''a'', ''b''] = length ?keys" by (simp_all add: upt_rec)
  from rank_candidates_spec [OF ok refl] obtain keys' where
    r: "rank_candidates [''a'', ''b''] ?keys = Some (map (\<lambda>k. [''a'', ''b''] ! snd k) (rank_by_frequency row_key ?keys), keys')"
      "map fst keys' = map fst (rank_by_frequency row_key ?keys)" "mset (rank_by_frequency row_key ?keys) = mset ?keys" by auto
  then have "mset (map fst keys') = mset (map fst ?keys)" by simp
  then show ?thesis using r(1) by simp
qed

text \<open>C18: both deduplications of a list of well-formed rows, whose texts may be held in different ways. The
  ranked one keeps, of the rows with the same outward text, the first with the highest stored frequency,
  the other one the first; both keep their rows in order, one for each text.\<close>

theorem dedup_spec:
  assumes ok: "\<forall>c \<in> set rows. text_ok (cd_text c)" and len: "length keys = length rows"
    and w: "w = (\<lambda>i. row_words (rows ! i))" and f: "f = (\<lambda>i. rk_m_freq (fst (keys ! i)))"
  shows "dedup_ranked_by_text rows keys = map ((!) rows) (filter (best_of w f (length rows)) [0..<length rows]) \<and>
    distinct (map row_words (dedup_ranked_by_text rows keys)) \<and>
    set (map row_words (dedup_ranked_by_text rows keys)) = set (map row_words rows) \<and>
    dedup_by_text_keep_first rows = map ((!) rows) (filter (\<lambda>i. \<forall>j < i. w j \<noteq> w i) [0..<length rows])"
proof (intro conjI)
  let ?n = "length rows"
  obtain keep survivor where fold: "fold (survivor_step rows keys) [0..<?n] (replicate ?n True, []) = (keep, survivor)" by fastforce
  note inv = survivor_fold [OF order_refl ok w f fold]
  have "dedup_ranked_by_text rows keys = map ((!) rows) (filter ((!) keep) [0..<?n])"
    using retain_nth [of keep rows] inv fold len by (simp add: dedup_ranked_by_text_def survivor_inv_def)
  also have "filter ((!) keep) [0..<?n] = filter (best_of w f ?n) [0..<?n]"
    using inv by (intro filter_cong) (simp_all add: survivor_inv_def)
  finally show out: "dedup_ranked_by_text rows keys = map ((!) rows) (filter (best_of w f ?n) [0..<?n])" .
  have words: "map row_words (dedup_ranked_by_text rows keys) = map w (filter (best_of w f ?n) [0..<?n])"
    unfolding out unfolding w by (simp add: comp_def)
  have "inj_on w (set (filter (best_of w f ?n) [0..<?n]))" 
  proof (rule inj_onI)
    fix x y assume "x \<in> set (filter (best_of w f ?n) [0..<?n])" "y \<in> set (filter (best_of w f ?n) [0..<?n])" "w x = w y"
    then show "x = y" using best_of_unique [of w f ?n x y] by simp
  qed
  then show "distinct (map row_words (dedup_ranked_by_text rows keys))" unfolding words by (simp add: distinct_map)
  have "\<exists>h. best_of w f ?n h \<and> w h = w i" if "i < ?n" for i
    using inv that unfolding survivor_inv_def by blast
  then have "\<exists>h. h < ?n \<and> best_of w f ?n h \<and> w i = w h" if "i < ?n" for i
    using that unfolding best_of_def by (metis (no_types, lifting))
  then have "w ` {0..<?n} \<subseteq> w ` {h. h < ?n \<and> best_of w f ?n h}" by (force simp: image_iff)
  moreover have "w ` {h. h < ?n \<and> best_of w f ?n h} \<subseteq> w ` {0..<?n}" by auto
  moreover have "set (filter (best_of w f ?n) [0..<?n]) = {h. h < ?n \<and> best_of w f ?n h}" by auto
  moreover have "set (map row_words rows) = w ` {0..<?n}"
    unfolding w by (metis (no_types, lifting) image_cong image_image list.set_map map_nth set_upt)
  ultimately show "set (map row_words (dedup_ranked_by_text rows keys)) = set (map row_words rows)"
    unfolding words set_map [of w] by (simp only: subset_antisym)
  have "dedup_by_text_keep_first rows = map ((!) rows) (filter ((!) (keep_flags rows [])) [0..<?n])"
    using retain_nth [of "keep_flags rows []" rows] by (simp add: dedup_by_text_keep_first_def keep_flags_length)
  also have "filter ((!) (keep_flags rows [])) [0..<?n] = filter (\<lambda>i. \<forall>j < i. w j \<noteq> w i) [0..<?n]"
  proof (rule filter_cong [OF refl])
    fix i assume "i \<in> set [0..<?n]"
    then show "keep_flags rows [] ! i = (\<forall>j < i. w j \<noteq> w i)" using keep_flags_nth [OF ok, of "[]" i] by (simp add: w)
  qed
  finally show "dedup_by_text_keep_first rows = map ((!) rows) (filter (\<lambda>i. \<forall>j < i. w j \<noteq> w i) [0..<?n])" .
qed

theorem dedup_spec_witness:
  "dedup_ranked_by_text (replicate 2 (candidate_new (Scalar [0x4e00]) Phrase 1 2 0 None None))
     [(for_sort_word 1 2 5 0, 0), (for_sort_word 1 2 9 0, 1)] \<noteq> []"
proof -
  let ?rows = "replicate 2 (candidate_new (Scalar [0x4e00]) Phrase 1 2 0 None None)"
  let ?keys = "[(for_sort_word 1 2 5 0, 0 :: nat), (for_sort_word 1 2 9 0, 1)]"
  have "\<forall>c \<in> set ?rows. text_ok (cd_text c)" "length ?keys = length ?rows"
    by (auto simp: candidate_new_def str_ok_def is_scalar_def)
  from conjunct1 [OF conjunct2 [OF conjunct2 [OF dedup_spec [OF this refl refl]]]]
  have "set (map row_words (dedup_ranked_by_text ?rows ?keys)) = set (map row_words ?rows)" .
  then show ?thesis by (auto simp: numeral_2_eq_2)
qed

text \<open>C19: ordering the rows a window appended at \<open>start\<close>. The shortcut for strictly ascending tokens answers what
  the full path would: the rows before \<open>start\<close>, then the appended ones sorted stably by library, with the
  first row of every token and every row without one. No token occurs twice and none is lost.\<close>

theorem order_window_spec:
  assumes "start \<le> length rows" and tail: "tail = sort_key (\<lambda>c. unat (library_of c)) (drop start rows)"
  shows "order_window_tail rows start = take start rows @ first_of_token {} tail \<and>
    order_window_tail rows start = sort_dedup_window_tail rows start \<and>
    distinct (List.map_filter cd_token (drop start (order_window_tail rows start))) \<and>
    (\<forall>c \<in> set (drop start rows). \<exists>c' \<in> set (drop start (order_window_tail rows start)). cd_token c' = cd_token c) \<and>
    set (order_window_tail rows start) \<subseteq> set rows"
proof -
  have slow: "sort_dedup_window_tail rows start = take start rows @ first_of_token {} tail"
    using sort_dedup_eq [OF assms(1)] tail by simp
  moreover have "order_window_tail rows start = take start rows @ first_of_token {} tail"
    using increasing_window [of "drop start rows"] slow tail by (simp add: order_window_tail_def)
  moreover have "drop start (take start rows @ first_of_token {} tail) = first_of_token {} tail" using assms(1) by simp
  moreover have "\<exists>c' \<in> set (first_of_token {} tail). cd_token c' = cd_token c" if "c \<in> set (drop start rows)" for c
  proof (cases "cd_token c")
    case None
    then show ?thesis using first_of_token_set(2) [of c tail] that tail by auto
  next
    case (Some t)
    then show ?thesis using first_of_token_covers [of c tail t "{}"] that tail by auto
  qed
  moreover have "set (first_of_token {} tail) \<subseteq> set rows"
    using first_of_token_set(1) [of "{}" tail] set_drop_subset [of start rows] tail by auto
  ultimately show ?thesis using first_of_token_distinct [of "{}" tail] set_take_subset [of start rows] by auto
qed

theorem order_window_spec_witness:
  "order_window_tail [candidate_new (Scalar [0x4e00]) Phrase 1 2 0 (Some 7) None] 0 =
   sort_dedup_window_tail [candidate_new (Scalar [0x4e00]) Phrase 1 2 0 (Some 7) None] 0"
  by (rule conjunct1 [OF conjunct2 [OF order_window_spec [OF _ refl]]]) simp

end
