(* ===== verification/SchemeTables.thy ===== *)
theory SchemeTables
  imports Syllables
begin

text \<open>
  The keyboard tables that \<open>crates/oxpinyin-core/src/scheme.rs\<close> and \<open>zhuyin_map.rs\<close> include from \<open>table_data/\<close>: the
  shengmu, yunmu and fallback tables of the double-pinyin schemes, the symbol and tone rows of the Zhuyin
  keyboards and the tones each syllable can carry. A Zhuyin symbol is its UTF-8 bytes; the shengmu \<open>'\<close>
  stands for the empty one.
\<close>

section \<open>Double pinyin\<close>

definition MS_SHENG :: "string option list" where
  "MS_SHENG =
   [
    None, Some ''b'', Some ''c'', Some ''d'', None, Some ''f'', Some ''g'', Some ''h'', Some ''ch'',
    Some ''j'', Some ''k'', Some ''l'', Some ''m'', Some ''n'', Some [CHR 0x27], Some ''p'', Some ''q'',
    Some ''r'', Some ''s'', Some ''t'', Some ''sh'', Some ''zh'', Some ''w'', Some ''x'', Some ''y'',
    Some ''z'', None]"

definition MS_YUN :: "string option list list" where
  "MS_YUN =
   [
    [Some ''a'', None], [Some ''ou'', None], [Some ''iao'', None], [Some ''uang'', Some ''iang''],
    [Some ''e'', None], [Some ''en'', None], [Some ''eng'', Some ''ng''], [Some ''ang'', None],
    [Some ''i'', None], [Some ''an'', None], [Some ''ao'', None], [Some ''ai'', None],
    [Some ''ian'', None], [Some ''in'', None], [Some ''uo'', Some ''o''], [Some ''un'', None],
    [Some ''iu'', None], [Some ''uan'', Some ''er''], [Some ''ong'', Some ''iong''], [Some ''ue'', None],
    [Some ''u'', None], [Some ''ui'', Some ''ue''], [Some ''ia'', Some ''ua''], [Some ''ie'', None],
    [Some ''uai'', Some ''v''], [Some ''ei'', None], [Some ''ing'', None]]"

definition ZRM_SHENG :: "string option list" where
  "ZRM_SHENG =
   [
    None, Some ''b'', Some ''c'', Some ''d'', None, Some ''f'', Some ''g'', Some ''h'', Some ''ch'',
    Some ''j'', Some ''k'', Some ''l'', Some ''m'', Some ''n'', Some [CHR 0x27], Some ''p'', Some ''q'',
    Some ''r'', Some ''s'', Some ''t'', Some ''sh'', Some ''zh'', Some ''w'', Some ''x'', Some ''y'',
    Some ''z'', None]"

definition ZRM_YUN :: "string option list list" where
  "ZRM_YUN =
   [
    [Some ''a'', None], [Some ''ou'', None], [Some ''iao'', None], [Some ''uang'', Some ''iang''],
    [Some ''e'', None], [Some ''en'', None], [Some ''eng'', Some ''ng''], [Some ''ang'', None],
    [Some ''i'', None], [Some ''an'', None], [Some ''ao'', None], [Some ''ai'', None],
    [Some ''ian'', None], [Some ''in'', None], [Some ''uo'', Some ''o''], [Some ''un'', None],
    [Some ''iu'', None], [Some ''uan'', Some ''er''], [Some ''ong'', Some ''iong''], [Some ''ue'', None],
    [Some ''u'', None], [Some ''ui'', Some ''v''], [Some ''ia'', Some ''ua''], [Some ''ie'', None],
    [Some ''uai'', Some ''ing''], [Some ''ei'', None], [None, None]]"

definition ZRM_FALLBACK :: "(string \<times> string) list" where
  "ZRM_FALLBACK =
   [
    (''aa'', ''a''), (''ai'', ''ai''), (''an'', ''an''), (''ah'', ''ang''), (''ao'', ''ao''),
    (''ee'', ''e''), (''ei'', ''ei''), (''en'', ''en''), (''er'', ''er''), (''oo'', ''o''), (''ou'', ''ou'')]"

definition ABC_SHENG :: "string option list" where
  "ABC_SHENG =
   [
    Some ''zh'', Some ''b'', Some ''c'', Some ''d'', Some ''ch'', Some ''f'', Some ''g'', Some ''h'', None,
    Some ''j'', Some ''k'', Some ''l'', Some ''m'', Some ''n'', Some [CHR 0x27], Some ''p'', Some ''q'',
    Some ''r'', Some ''s'', Some ''t'', None, Some ''sh'', Some ''w'', Some ''x'', Some ''y'', Some ''z'',
    None]"

definition ABC_YUN :: "string option list list" where
  "ABC_YUN =
   [
    [Some ''a'', None], [Some ''ou'', None], [Some ''in'', Some ''uai''], [Some ''ia'', Some ''ua''],
    [Some ''e'', None], [Some ''en'', None], [Some ''eng'', Some ''ng''], [Some ''ang'', None],
    [Some ''i'', None], [Some ''an'', None], [Some ''ao'', None], [Some ''ai'', None],
    [Some ''ue'', Some ''ui''], [Some ''un'', None], [Some ''uo'', Some ''o''], [Some ''uan'', None],
    [Some ''ei'', None], [Some ''er'', Some ''iu''], [Some ''ong'', Some ''iong''],
    [Some ''iang'', Some ''uang''], [Some ''u'', None], [Some ''v'', Some ''ue''], [Some ''ian'', None],
    [Some ''ie'', None], [Some ''ing'', None], [Some ''iao'', None], [None, None]]"

definition ZG_SHENG :: "string option list" where
  "ZG_SHENG =
   [
    Some ''ch'', Some ''b'', Some ''c'', Some ''d'', None, Some ''f'', Some ''g'', Some ''h'', Some ''sh'',
    Some ''j'', Some ''k'', Some ''l'', Some ''m'', Some ''n'', Some [CHR 0x27], Some ''p'', Some ''q'',
    Some ''r'', Some ''s'', Some ''t'', Some ''zh'', None, Some ''w'', Some ''x'', Some ''y'', Some ''z'',
    None]"

definition ZG_YUN :: "string option list list" where
  "ZG_YUN =
   [
    [Some ''a'', None], [Some ''iao'', None], [None, None], [Some ''ie'', None], [Some ''e'', None],
    [Some ''ian'', None], [Some ''iang'', Some ''uang''], [Some ''ong'', Some ''iong''],
    [Some ''i'', None], [Some ''er'', Some ''iu''], [Some ''ei'', None], [Some ''uan'', None],
    [Some ''un'', None], [Some ''ue'', Some ''ui''], [Some ''uo'', Some ''o''], [Some ''ai'', None],
    [Some ''ao'', None], [Some ''an'', None], [Some ''ang'', None], [Some ''eng'', Some ''ng''],
    [Some ''u'', None], [Some ''v'', None], [Some ''en'', None], [Some ''ia'', Some ''ua''],
    [Some ''in'', Some ''uai''], [Some ''ou'', None], [Some ''ing'', None]]"

definition PYJJ_SHENG :: "string option list" where
  "PYJJ_SHENG =
   [
    Some [CHR 0x27], Some ''b'', Some ''c'', Some ''d'', None, Some ''f'', Some ''g'', Some ''h'',
    Some ''sh'', Some ''j'', Some ''k'', Some ''l'', Some ''m'', Some ''n'', Some [CHR 0x27], Some ''p'',
    Some ''q'', Some ''r'', Some ''s'', Some ''t'', Some ''ch'', Some ''zh'', Some ''w'', Some ''x'',
    Some ''y'', Some ''z'', None]"

definition PYJJ_YUN :: "string option list list" where
  "PYJJ_YUN =
   [
    [Some ''a'', None], [Some ''ia'', Some ''ua''], [Some ''uan'', None], [Some ''ao'', None],
    [Some ''e'', None], [Some ''an'', None], [Some ''ang'', None], [Some ''iang'', Some ''uang''],
    [Some ''i'', None], [Some ''ian'', None], [Some ''iao'', None], [Some ''in'', None],
    [Some ''ie'', None], [Some ''iu'', None], [Some ''uo'', Some ''o''], [Some ''ou'', None],
    [Some ''er'', Some ''ing''], [Some ''en'', None], [Some ''ai'', None], [Some ''eng'', Some ''ng''],
    [Some ''u'', None], [Some ''v'', Some ''ui''], [Some ''ei'', None], [Some ''uai'', Some ''ue''],
    [Some ''ong'', Some ''iong''], [Some ''un'', None], [None, None]]"

definition PYJJ_FALLBACK :: "(string \<times> string) list" where
  "PYJJ_FALLBACK =
   [
    (''aa'', ''a''), (''as'', ''ai''), (''af'', ''an''), (''ag'', ''ang''), (''ad'', ''ao''),
    (''ee'', ''e''), (''ew'', ''ei''), (''er'', ''en''), (''eq'', ''er''), (''oo'', ''o''), (''op'', ''ou'')]"

definition XHE_SHENG :: "string option list" where
  "XHE_SHENG =
   [
    None, Some ''b'', Some ''c'', Some ''d'', None, Some ''f'', Some ''g'', Some ''h'', Some ''ch'',
    Some ''j'', Some ''k'', Some ''l'', Some ''m'', Some ''n'', Some [CHR 0x27], Some ''p'', Some ''q'',
    Some ''r'', Some ''s'', Some ''t'', Some ''sh'', Some ''zh'', Some ''w'', Some ''x'', Some ''y'',
    Some ''z'', None]"

definition XHE_YUN :: "string option list list" where
  "XHE_YUN =
   [
    [Some ''a'', None], [Some ''in'', None], [Some ''ao'', None], [Some ''ai'', None], [Some ''e'', None],
    [Some ''en'', None], [Some ''eng'', Some ''ng''], [Some ''ang'', None], [Some ''i'', None],
    [Some ''an'', None], [Some ''uai'', Some ''ing''], [Some ''iang'', Some ''uang''],
    [Some ''ian'', None], [Some ''iao'', None], [Some ''uo'', Some ''o''], [Some ''ie'', None],
    [Some ''iu'', None], [Some ''uan'', Some ''er''], [Some ''ong'', Some ''iong''], [Some ''ue'', None],
    [Some ''u'', None], [Some ''v'', Some ''ui''], [Some ''ei'', None], [Some ''ia'', Some ''ua''],
    [Some ''un'', None], [Some ''ou'', None], [None, None]]"

definition XHE_FALLBACK :: "(string \<times> string) list" where
  "XHE_FALLBACK =
   [
    (''aa'', ''a''), (''ai'', ''ai''), (''an'', ''an''), (''ah'', ''ang''), (''ao'', ''ao''),
    (''ee'', ''e''), (''ei'', ''ei''), (''en'', ''en''), (''er'', ''er''), (''oo'', ''o''), (''ou'', ''ou'')]"

section \<open>Zhuyin keyboards\<close>

definition STANDARD_SYMBOLS :: "(u8 \<times> bytes) list" where
  "STANDARD_SYMBOLS =
   [
    (0x2C, [0xE3, 0x84, 0x9D]), (0x2D, [0xE3, 0x84, 0xA6]), (0x2E, [0xE3, 0x84, 0xA1]),
    (0x2F, [0xE3, 0x84, 0xA5]), (0x30, [0xE3, 0x84, 0xA2]), (0x31, [0xE3, 0x84, 0x85]),
    (0x32, [0xE3, 0x84, 0x89]), (0x35, [0xE3, 0x84, 0x93]), (0x38, [0xE3, 0x84, 0x9A]),
    (0x39, [0xE3, 0x84, 0x9E]), (0x3B, [0xE3, 0x84, 0xA4]), (0x61, [0xE3, 0x84, 0x87]),
    (0x62, [0xE3, 0x84, 0x96]), (0x63, [0xE3, 0x84, 0x8F]), (0x64, [0xE3, 0x84, 0x8E]),
    (0x65, [0xE3, 0x84, 0x8D]), (0x66, [0xE3, 0x84, 0x91]), (0x67, [0xE3, 0x84, 0x95]),
    (0x68, [0xE3, 0x84, 0x98]), (0x69, [0xE3, 0x84, 0x9B]), (0x6A, [0xE3, 0x84, 0xA8]),
    (0x6B, [0xE3, 0x84, 0x9C]), (0x6C, [0xE3, 0x84, 0xA0]), (0x6D, [0xE3, 0x84, 0xA9]),
    (0x6E, [0xE3, 0x84, 0x99]), (0x6F, [0xE3, 0x84, 0x9F]), (0x70, [0xE3, 0x84, 0xA3]),
    (0x71, [0xE3, 0x84, 0x86]), (0x72, [0xE3, 0x84, 0x90]), (0x73, [0xE3, 0x84, 0x8B]),
    (0x74, [0xE3, 0x84, 0x94]), (0x75, [0xE3, 0x84, 0xA7]), (0x76, [0xE3, 0x84, 0x92]),
    (0x77, [0xE3, 0x84, 0x8A]), (0x78, [0xE3, 0x84, 0x8C]), (0x79, [0xE3, 0x84, 0x97]),
    (0x7A, [0xE3, 0x84, 0x88])]"

definition STANDARD_TONES :: "(u8 \<times> u8) list" where
  "STANDARD_TONES =
   [
    (0x20, 1), (0x33, 3), (0x34, 4), (0x36, 2), (0x37, 5)]"

definition IBM_SYMBOLS :: "(u8 \<times> bytes) list" where
  "IBM_SYMBOLS =
   [
    (0x2D, [0xE3, 0x84, 0x8F]), (0x30, [0xE3, 0x84, 0x8E]), (0x31, [0xE3, 0x84, 0x85]),
    (0x32, [0xE3, 0x84, 0x86]), (0x33, [0xE3, 0x84, 0x87]), (0x34, [0xE3, 0x84, 0x88]),
    (0x35, [0xE3, 0x84, 0x89]), (0x36, [0xE3, 0x84, 0x8A]), (0x37, [0xE3, 0x84, 0x8B]),
    (0x38, [0xE3, 0x84, 0x8C]), (0x39, [0xE3, 0x84, 0x8D]), (0x3B, [0xE3, 0x84, 0xA0]),
    (0x61, [0xE3, 0x84, 0xA7]), (0x62, [0xE3, 0x84, 0xA5]), (0x63, [0xE3, 0x84, 0xA3]),
    (0x64, [0xE3, 0x84, 0xA9]), (0x65, [0xE3, 0x84, 0x92]), (0x66, [0xE3, 0x84, 0x9A]),
    (0x67, [0xE3, 0x84, 0x9B]), (0x68, [0xE3, 0x84, 0x9C]), (0x69, [0xE3, 0x84, 0x97]),
    (0x6A, [0xE3, 0x84, 0x9D]), (0x6B, [0xE3, 0x84, 0x9E]), (0x6C, [0xE3, 0x84, 0x9F]),
    (0x6E, [0xE3, 0x84, 0xA6]), (0x6F, [0xE3, 0x84, 0x98]), (0x70, [0xE3, 0x84, 0x99]),
    (0x71, [0xE3, 0x84, 0x90]), (0x72, [0xE3, 0x84, 0x93]), (0x73, [0xE3, 0x84, 0xA8]),
    (0x74, [0xE3, 0x84, 0x94]), (0x75, [0xE3, 0x84, 0x96]), (0x76, [0xE3, 0x84, 0xA4]),
    (0x77, [0xE3, 0x84, 0x91]), (0x78, [0xE3, 0x84, 0xA2]), (0x79, [0xE3, 0x84, 0x95]),
    (0x7A, [0xE3, 0x84, 0xA1])]"

definition IBM_TONES :: "(u8 \<times> u8) list" where
  "IBM_TONES =
   [
    (0x20, 1), (0x2C, 3), (0x2E, 4), (0x2F, 5), (0x6D, 2)]"

definition GINYIEH_SYMBOLS :: "(u8 \<times> bytes) list" where
  "GINYIEH_SYMBOLS =
   [
    (0x27, [0xE3, 0x84, 0xA5]), (0x2C, [0xE3, 0x84, 0x9A]), (0x2D, [0xE3, 0x84, 0xA3]),
    (0x2E, [0xE3, 0x84, 0x9E]), (0x2F, [0xE3, 0x84, 0xA2]), (0x30, [0xE3, 0x84, 0x9F]),
    (0x32, [0xE3, 0x84, 0x85]), (0x33, [0xE3, 0x84, 0x89]), (0x36, [0xE3, 0x84, 0x93]),
    (0x38, [0xE3, 0x84, 0xA7]), (0x39, [0xE3, 0x84, 0x9B]), (0x3B, [0xE3, 0x84, 0xA1]),
    (0x3D, [0xE3, 0x84, 0xA6]), (0x5B, [0xE3, 0x84, 0xA4]), (0x62, [0xE3, 0x84, 0x92]),
    (0x63, [0xE3, 0x84, 0x8C]), (0x64, [0xE3, 0x84, 0x8B]), (0x65, [0xE3, 0x84, 0x8A]),
    (0x66, [0xE3, 0x84, 0x8E]), (0x67, [0xE3, 0x84, 0x91]), (0x68, [0xE3, 0x84, 0x95]),
    (0x69, [0xE3, 0x84, 0xA8]), (0x6A, [0xE3, 0x84, 0x98]), (0x6B, [0xE3, 0x84, 0xA9]),
    (0x6C, [0xE3, 0x84, 0x9D]), (0x6D, [0xE3, 0x84, 0x99]), (0x6E, [0xE3, 0x84, 0x96]),
    (0x6F, [0xE3, 0x84, 0x9C]), (0x70, [0xE3, 0x84, 0xA0]), (0x72, [0xE3, 0x84, 0x8D]),
    (0x73, [0xE3, 0x84, 0x87]), (0x74, [0xE3, 0x84, 0x90]), (0x75, [0xE3, 0x84, 0x97]),
    (0x76, [0xE3, 0x84, 0x8F]), (0x77, [0xE3, 0x84, 0x86]), (0x78, [0xE3, 0x84, 0x88]),
    (0x79, [0xE3, 0x84, 0x94])]"

definition GINYIEH_TONES :: "(u8 \<times> u8) list" where
  "GINYIEH_TONES =
   [
    (0x20, 1), (0x31, 5), (0x61, 3), (0x71, 2), (0x7A, 4)]"

definition ETEN_SYMBOLS :: "(u8 \<times> bytes) list" where
  "ETEN_SYMBOLS =
   [
    (0x27, [0xE3, 0x84, 0x98]), (0x2C, [0xE3, 0x84, 0x93]), (0x2D, [0xE3, 0x84, 0xA5]),
    (0x2E, [0xE3, 0x84, 0x94]), (0x2F, [0xE3, 0x84, 0x95]), (0x30, [0xE3, 0x84, 0xA4]),
    (0x37, [0xE3, 0x84, 0x91]), (0x38, [0xE3, 0x84, 0xA2]), (0x39, [0xE3, 0x84, 0xA3]),
    (0x3B, [0xE3, 0x84, 0x97]), (0x3D, [0xE3, 0x84, 0xA6]), (0x61, [0xE3, 0x84, 0x9A]),
    (0x62, [0xE3, 0x84, 0x85]), (0x63, [0xE3, 0x84, 0x92]), (0x64, [0xE3, 0x84, 0x89]),
    (0x65, [0xE3, 0x84, 0xA7]), (0x66, [0xE3, 0x84, 0x88]), (0x67, [0xE3, 0x84, 0x90]),
    (0x68, [0xE3, 0x84, 0x8F]), (0x69, [0xE3, 0x84, 0x9E]), (0x6A, [0xE3, 0x84, 0x96]),
    (0x6B, [0xE3, 0x84, 0x8E]), (0x6C, [0xE3, 0x84, 0x8C]), (0x6D, [0xE3, 0x84, 0x87]),
    (0x6E, [0xE3, 0x84, 0x8B]), (0x6F, [0xE3, 0x84, 0x9B]), (0x70, [0xE3, 0x84, 0x86]),
    (0x71, [0xE3, 0x84, 0x9F]), (0x72, [0xE3, 0x84, 0x9C]), (0x73, [0xE3, 0x84, 0x99]),
    (0x74, [0xE3, 0x84, 0x8A]), (0x75, [0xE3, 0x84, 0xA9]), (0x76, [0xE3, 0x84, 0x8D]),
    (0x77, [0xE3, 0x84, 0x9D]), (0x78, [0xE3, 0x84, 0xA8]), (0x79, [0xE3, 0x84, 0xA1]),
    (0x7A, [0xE3, 0x84, 0xA0])]"

definition ETEN_TONES :: "(u8 \<times> u8) list" where
  "ETEN_TONES =
   [
    (0x20, 1), (0x31, 5), (0x32, 2), (0x33, 3), (0x34, 4)]"

definition HSU_INITIALS :: "(u8 \<times> bytes) list" where
  "HSU_INITIALS =
   [
    (0x61, [0xE3, 0x84, 0x98]), (0x62, [0xE3, 0x84, 0x85]), (0x63, [0xE3, 0x84, 0x92]),
    (0x63, [0xE3, 0x84, 0x95]), (0x64, [0xE3, 0x84, 0x89]), (0x66, [0xE3, 0x84, 0x88]),
    (0x67, [0xE3, 0x84, 0x8D]), (0x68, [0xE3, 0x84, 0x8F]), (0x6A, [0xE3, 0x84, 0x90]),
    (0x6A, [0xE3, 0x84, 0x93]), (0x6B, [0xE3, 0x84, 0x8E]), (0x6C, [0xE3, 0x84, 0x8C]),
    (0x6D, [0xE3, 0x84, 0x87]), (0x6E, [0xE3, 0x84, 0x8B]), (0x70, [0xE3, 0x84, 0x86]),
    (0x72, [0xE3, 0x84, 0x96]), (0x73, [0xE3, 0x84, 0x99]), (0x74, [0xE3, 0x84, 0x8A]),
    (0x76, [0xE3, 0x84, 0x91]), (0x76, [0xE3, 0x84, 0x94]), (0x7A, [0xE3, 0x84, 0x97])]"

definition HSU_MIDDLES :: "(u8 \<times> bytes) list" where
  "HSU_MIDDLES =
   [
    (0x65, [0xE3, 0x84, 0xA7]), (0x75, [0xE3, 0x84, 0xA9]), (0x78, [0xE3, 0x84, 0xA8])]"

definition HSU_FINALS :: "(u8 \<times> bytes) list" where
  "HSU_FINALS =
   [
    (0x61, [0xE3, 0x84, 0x9F]), (0x65, [0xE3, 0x84, 0x9D]), (0x67, [0xE3, 0x84, 0x9C]),
    (0x68, [0xE3, 0x84, 0x9B]), (0x69, [0xE3, 0x84, 0x9E]), (0x6B, [0xE3, 0x84, 0xA4]),
    (0x6C, [0xE3, 0x84, 0xA5]), (0x6C, [0xE3, 0x84, 0xA6]), (0x6D, [0xE3, 0x84, 0xA2]),
    (0x6E, [0xE3, 0x84, 0xA3]), (0x6F, [0xE3, 0x84, 0xA1]), (0x77, [0xE3, 0x84, 0xA0]),
    (0x79, [0xE3, 0x84, 0x9A])]"

definition HSU_TONES :: "(u8 \<times> u8) list" where
  "HSU_TONES =
   [
    (0x20, 1), (0x64, 2), (0x66, 3), (0x6A, 4), (0x73, 5)]"

definition ETEN26_INITIALS :: "(u8 \<times> bytes) list" where
  "ETEN26_INITIALS =
   [
    (0x62, [0xE3, 0x84, 0x85]), (0x63, [0xE3, 0x84, 0x92]), (0x63, [0xE3, 0x84, 0x95]),
    (0x64, [0xE3, 0x84, 0x89]), (0x66, [0xE3, 0x84, 0x88]), (0x67, [0xE3, 0x84, 0x90]),
    (0x67, [0xE3, 0x84, 0x93]), (0x68, [0xE3, 0x84, 0x8F]), (0x6A, [0xE3, 0x84, 0x96]),
    (0x6B, [0xE3, 0x84, 0x8E]), (0x6C, [0xE3, 0x84, 0x8C]), (0x6D, [0xE3, 0x84, 0x87]),
    (0x6E, [0xE3, 0x84, 0x8B]), (0x70, [0xE3, 0x84, 0x86]), (0x71, [0xE3, 0x84, 0x97]),
    (0x73, [0xE3, 0x84, 0x99]), (0x74, [0xE3, 0x84, 0x8A]), (0x76, [0xE3, 0x84, 0x8D]),
    (0x76, [0xE3, 0x84, 0x91]), (0x77, [0xE3, 0x84, 0x98]), (0x79, [0xE3, 0x84, 0x94])]"

definition ETEN26_MIDDLES :: "(u8 \<times> bytes) list" where
  "ETEN26_MIDDLES =
   [
    (0x65, [0xE3, 0x84, 0xA7]), (0x75, [0xE3, 0x84, 0xA9]), (0x78, [0xE3, 0x84, 0xA8])]"

definition ETEN26_FINALS :: "(u8 \<times> bytes) list" where
  "ETEN26_FINALS =
   [
    (0x61, [0xE3, 0x84, 0x9A]), (0x68, [0xE3, 0x84, 0xA6]), (0x69, [0xE3, 0x84, 0x9E]),
    (0x6C, [0xE3, 0x84, 0xA5]), (0x6D, [0xE3, 0x84, 0xA2]), (0x6E, [0xE3, 0x84, 0xA3]),
    (0x6F, [0xE3, 0x84, 0x9B]), (0x70, [0xE3, 0x84, 0xA1]), (0x71, [0xE3, 0x84, 0x9F]),
    (0x72, [0xE3, 0x84, 0x9C]), (0x74, [0xE3, 0x84, 0xA4]), (0x77, [0xE3, 0x84, 0x9D]),
    (0x7A, [0xE3, 0x84, 0xA0])]"

definition ETEN26_TONES :: "(u8 \<times> u8) list" where
  "ETEN26_TONES =
   [
    (0x20, 1), (0x64, 5), (0x66, 2), (0x6A, 3), (0x6B, 4)]"

definition HSU_DVORAK_INITIALS :: "(u8 \<times> bytes) list" where
  "HSU_DVORAK_INITIALS =
   [
    (0x61, [0xE3, 0x84, 0x98]), (0x62, [0xE3, 0x84, 0x85]), (0x63, [0xE3, 0x84, 0x92]),
    (0x63, [0xE3, 0x84, 0x95]), (0x64, [0xE3, 0x84, 0x89]), (0x66, [0xE3, 0x84, 0x88]),
    (0x67, [0xE3, 0x84, 0x8D]), (0x68, [0xE3, 0x84, 0x8F]), (0x6A, [0xE3, 0x84, 0x90]),
    (0x6A, [0xE3, 0x84, 0x93]), (0x6B, [0xE3, 0x84, 0x8E]), (0x6C, [0xE3, 0x84, 0x8C]),
    (0x6D, [0xE3, 0x84, 0x87]), (0x6E, [0xE3, 0x84, 0x8B]), (0x70, [0xE3, 0x84, 0x86]),
    (0x72, [0xE3, 0x84, 0x96]), (0x73, [0xE3, 0x84, 0x99]), (0x74, [0xE3, 0x84, 0x8A]),
    (0x76, [0xE3, 0x84, 0x91]), (0x76, [0xE3, 0x84, 0x94]), (0x7A, [0xE3, 0x84, 0x97])]"

definition HSU_DVORAK_MIDDLES :: "(u8 \<times> bytes) list" where
  "HSU_DVORAK_MIDDLES =
   [
    (0x65, [0xE3, 0x84, 0xA7]), (0x75, [0xE3, 0x84, 0xA9]), (0x78, [0xE3, 0x84, 0xA8])]"

definition HSU_DVORAK_FINALS :: "(u8 \<times> bytes) list" where
  "HSU_DVORAK_FINALS =
   [
    (0x61, [0xE3, 0x84, 0x9F]), (0x65, [0xE3, 0x84, 0x9D]), (0x67, [0xE3, 0x84, 0x9C]),
    (0x68, [0xE3, 0x84, 0x9B]), (0x69, [0xE3, 0x84, 0x9E]), (0x6B, [0xE3, 0x84, 0xA4]),
    (0x6C, [0xE3, 0x84, 0xA5]), (0x6C, [0xE3, 0x84, 0xA6]), (0x6D, [0xE3, 0x84, 0xA2]),
    (0x6E, [0xE3, 0x84, 0xA3]), (0x6F, [0xE3, 0x84, 0xA1]), (0x77, [0xE3, 0x84, 0xA0]),
    (0x79, [0xE3, 0x84, 0x9A])]"

definition HSU_DVORAK_TONES :: "(u8 \<times> u8) list" where
  "HSU_DVORAK_TONES =
   [
    (0x20, 1), (0x64, 2), (0x66, 3), (0x6A, 4), (0x73, 5)]"

definition CP26_INITIALS :: "(u8 \<times> bytes) list" where
  "CP26_INITIALS =
   [
    (0x61, [0xE3, 0x84, 0x87]), (0x62, [0xE3, 0x84, 0x96]), (0x63, [0xE3, 0x84, 0x8F]),
    (0x64, [0xE3, 0x84, 0x8E]), (0x65, [0xE3, 0x84, 0x8D]), (0x66, [0xE3, 0x84, 0x91]),
    (0x67, [0xE3, 0x84, 0x95]), (0x68, [0xE3, 0x84, 0x98]), (0x6E, [0xE3, 0x84, 0x99]),
    (0x71, [0xE3, 0x84, 0x85]), (0x71, [0xE3, 0x84, 0x86]), (0x72, [0xE3, 0x84, 0x90]),
    (0x73, [0xE3, 0x84, 0x8B]), (0x74, [0xE3, 0x84, 0x93]), (0x74, [0xE3, 0x84, 0x94]),
    (0x76, [0xE3, 0x84, 0x92]), (0x77, [0xE3, 0x84, 0x89]), (0x77, [0xE3, 0x84, 0x8A]),
    (0x78, [0xE3, 0x84, 0x8C]), (0x79, [0xE3, 0x84, 0x97]), (0x7A, [0xE3, 0x84, 0x88])]"

definition CP26_MIDDLES :: "(u8 \<times> bytes) list" where
  "CP26_MIDDLES =
   [
    (0x6A, [0xE3, 0x84, 0xA8]), (0x6D, [0xE3, 0x84, 0xA9]), (0x75, [0xE3, 0x84, 0xA7])]"

definition CP26_FINALS :: "(u8 \<times> bytes) list" where
  "CP26_FINALS =
   [
    (0x62, [0xE3, 0x84, 0x9D]), (0x69, [0xE3, 0x84, 0x9B]), (0x69, [0xE3, 0x84, 0x9E]),
    (0x6B, [0xE3, 0x84, 0x9C]), (0x6C, [0xE3, 0x84, 0xA0]), (0x6C, [0xE3, 0x84, 0xA4]),
    (0x6D, [0xE3, 0x84, 0xA1]), (0x6E, [0xE3, 0x84, 0xA5]), (0x6F, [0xE3, 0x84, 0x9F]),
    (0x6F, [0xE3, 0x84, 0xA2]), (0x70, [0xE3, 0x84, 0xA3]), (0x70, [0xE3, 0x84, 0xA6]),
    (0x75, [0xE3, 0x84, 0x9A])]"

definition CP26_TONES :: "(u8 \<times> u8) list" where
  "CP26_TONES =
   [
    (0x20, 1), (0x64, 4), (0x65, 2), (0x72, 3), (0x79, 5)]"

section \<open>Zhuyin tones\<close>

definition VALID_ZHUYIN_TONES :: "u8 list" where
  "VALID_ZHUYIN_TONES =
   [
    0x3f, 0x3f, 0x1f, 0x1f, 0x1f, 0x3f, 0x1f, 0x1b, 0x1b, 0x1f, 0x3b, 0x1b, 0x1f, 0x1f, 0x1b, 0x1b, 0x1f,
    0x1b, 0x1b, 0x3f, 0x3f, 0x1b, 0x1f, 0x1f, 0x1f, 0x1f, 0x11, 0x07, 0x1f, 0x1f, 0x1f, 0x11, 0x17, 0x17,
    0x1f, 0x1f, 0x1f, 0x1f, 0x1f, 0x1f, 0x1f, 0x1f, 0x1b, 0x1f, 0x1f, 0x1f, 0x1f, 0x1f, 0x3f, 0x1d, 0x1f,
    0x1f, 0x17, 0x0f, 0x13, 0x3f, 0x1b, 0x1b, 0x3b, 0x1f, 0x25, 0x09, 0x1b, 0x3f, 0x00, 0x1b, 0x1b, 0x37,
    0x1b, 0x03, 0x1b, 0x1b, 0x3f, 0x1b, 0x1b, 0x1b, 0x3f, 0x1f, 0x13, 0x1b, 0x1f, 0x1f, 0x1f, 0x3f, 0x1f,
    0x1f, 0x1f, 0x05, 0x1f, 0x1f, 0x3f, 0x1b, 0x1b, 0x1b, 0x1b, 0x3f, 0x09, 0x1f, 0x1b, 0x3b, 0x1b, 0x1f,
    0x1b, 0x1b, 0x1b, 0x1b, 0x1b, 0x19, 0x3f, 0x0f, 0x1f, 0x1f, 0x1f, 0x1f, 0x17, 0x0b, 0x1d, 0x37, 0x1f,
    0x3f, 0x1f, 0x17, 0x15, 0x1f, 0x3f, 0x1f, 0x1f, 0x3f, 0x1f, 0x3f, 0x1b, 0x1b, 0x1f, 0x3f, 0x1b, 0x1b,
    0x1b, 0x3b, 0x1f, 0x1b, 0x1f, 0x1b, 0x1b, 0x1b, 0x1b, 0x1f, 0x1b, 0x1f, 0x19, 0x0b, 0x1b, 0x1b, 0x1b,
    0x1b, 0x1b, 0x0b, 0x1f, 0x1f, 0x1b, 0x19, 0x3f, 0x1d, 0x1d, 0x3f, 0x1f, 0x31, 0x1f, 0x1d, 0x3f, 0x09,
    0x1d, 0x1d, 0x1f, 0x1f, 0x1d, 0x1f, 0x3f, 0x21, 0x1d, 0x3f, 0x3f, 0x1d, 0x1f, 0x1f, 0x1d, 0x11, 0x3f,
    0x1d, 0x1d, 0x0d, 0x1f, 0x21, 0x3d, 0x3f, 0x1f, 0x1f, 0x1d, 0x1f, 0x13, 0x0d, 0x1d, 0x13, 0x3f, 0x1d,
    0x1d, 0x3d, 0x1d, 0x1f, 0x3d, 0x1f, 0x37, 0x19, 0x11, 0x1d, 0x1d, 0x1d, 0x15, 0x19, 0x17, 0x0d, 0x1d,
    0x1f, 0x00, 0x3d, 0x1d, 0x1d, 0x09, 0x1d, 0x19, 0x11, 0x0f, 0x1f, 0x37, 0x1f, 0x1f, 0x1f, 0x1f, 0x1f,
    0x1f, 0x1f, 0x1f, 0x1f, 0x1f, 0x1b, 0x1f, 0x1f, 0x1f, 0x0f, 0x1f, 0x1f, 0x1b, 0x1f, 0x1f, 0x1f, 0x1f,
    0x1f, 0x1f, 0x0f, 0x0f, 0x3f, 0x1f, 0x17, 0x07, 0x0d, 0x1f, 0x1d, 0x19, 0x1d, 0x1f, 0x13, 0x1d, 0x1d,
    0x1d, 0x0d, 0x1d, 0x17, 0x11, 0x3b, 0x13, 0x1b, 0x1b, 0x1b, 0x11, 0x03, 0x03, 0x1b, 0x1f, 0x1b, 0x17,
    0x1b, 0x1f, 0x1b, 0x3f, 0x1f, 0x1b, 0x1b, 0x3b, 0x1f, 0x1f, 0x05, 0x3f, 0x1f, 0x3f, 0x1f, 0x3f, 0x1b,
    0x1b, 0x13, 0x1b, 0x1d, 0x19, 0x13, 0x3b, 0x17, 0x1f, 0x1f, 0x3f, 0x11, 0x05, 0x1f, 0x1f, 0x1f, 0x1b,
    0x1f, 0x1f, 0x3f, 0x1f, 0x1f, 0x1f, 0x1f, 0x1f, 0x3f, 0x1b, 0x1f, 0x1f, 0x1f, 0x1f, 0x1b, 0x1b, 0x1f,
    0x3f, 0x1f, 0x1f, 0x1f, 0x1f, 0x3f, 0x1f, 0x1f, 0x17, 0x1b, 0x1f, 0x1f, 0x1f, 0x17, 0x3f, 0x1f, 0x3f,
    0x1f, 0x3f, 0x1f, 0x1f, 0x1f, 0x23, 0x1f, 0x1f, 0x1f, 0x1f, 0x13, 0x1f, 0x0f, 0x3b, 0x1f, 0x1b, 0x1f,
    0x1d, 0x05, 0x19, 0x13, 0x3b, 0x1b, 0x1b, 0x1f, 0x1b, 0x1b, 0x1b, 0x1f, 0x3f, 0x1f, 0x1b, 0x1b, 0x1f,
    0x3f, 0x1b, 0x1b, 0x1f, 0x1b, 0x1f, 0x1f, 0x0b, 0x1b, 0x1b, 0x1b, 0x1b, 0x1b, 0x17, 0x00, 0x00, 0x00,
    0x00, 0x00, 0x00, 0x00, 0x00, 0x00, 0x00, 0x00, 0x00, 0x00, 0x00, 0x00, 0x00, 0x00, 0x00, 0x00, 0x00,
    0x00, 0x00, 0x00, 0x03, 0x15, 0x0b, 0x11, 0x00, 0x00, 0x00, 0x00, 0x05, 0x00, 0x05, 0x11]"

end
