(* ===== verification/GreedyParse.thy ===== *)
theory GreedyParse
  imports OxPrelude
begin

text \<open>
  The greedy shell that the double-pinyin and Zhuyin parsers of \<open>crates/oxpinyin-core/src/scheme.rs\<close> share: at
  each position the longest prefix that the scheme's probe accepts becomes a key, up to the first
  position without one. \<open>greedy\<close> is what such a walk does, the locale \<open>greedy_loop\<close> what the loop of a parser
  has to satisfy; both parsers interpret it.
\<close>

section \<open>The probe of one position\<close>

text \<open>\<open>for len in (1..=try_len).rev()\<close>, stopping at the first length the probe accepts.\<close>

fun try_lengths :: "(bytes \<Rightarrow> 'm option) \<Rightarrow> bytes \<Rightarrow> nat \<Rightarrow> nat \<Rightarrow> ('m \<times> nat) option" where
  "try_lengths probe input pos 0 = None"
| "try_lengths probe input pos (Suc n) =
     (case probe (take (Suc n) (drop pos input)) of
        Some m \<Rightarrow> Some (m, Suc n)
      | None \<Rightarrow> try_lengths probe input pos n)"

definition longest_match :: "(bytes \<Rightarrow> 'm option) \<Rightarrow> bytes \<Rightarrow> nat \<Rightarrow> nat \<Rightarrow> 'm \<Rightarrow> nat \<Rightarrow> bool" where
  "longest_match probe input pos limit m len \<longleftrightarrow>
     0 < len \<and> len \<le> limit \<and> probe (take len (drop pos input)) = Some m \<and>
     (\<forall>l. len < l \<and> l \<le> limit \<longrightarrow> probe (take l (drop pos input)) = None)"

definition no_match :: "(bytes \<Rightarrow> 'm option) \<Rightarrow> bytes \<Rightarrow> nat \<Rightarrow> nat \<Rightarrow> bool" where
  "no_match probe input pos limit \<longleftrightarrow> (\<forall>l. 0 < l \<and> l \<le> limit \<longrightarrow> probe (take l (drop pos input)) = None)"

lemma try_lengths_Some: "try_lengths probe input pos limit = Some (m, len) \<longleftrightarrow> longest_match probe input pos limit m len"
proof (induction limit)
  case (Suc n)
  show ?case
  proof (cases "probe (take (Suc n) (drop pos input))")
    case None
    then have "longest_match probe input pos (Suc n) m len \<longleftrightarrow> longest_match probe input pos n m len"
      unfolding longest_match_def by (metis le_Suc_eq option.distinct(1))
    then show ?thesis using None Suc by simp
  next
    case (Some k)
    have "longest_match probe input pos (Suc n) m len \<longleftrightarrow> len = Suc n \<and> m = k"
    proof
      assume l: "longest_match probe input pos (Suc n) m len"
      then have "\<not> len < Suc n" using Some unfolding longest_match_def by (metis le_refl option.distinct(1))
      then have "len = Suc n" using l unfolding longest_match_def by simp
      then show "len = Suc n \<and> m = k" using l Some unfolding longest_match_def by simp
    qed (use Some in \<open>auto simp: longest_match_def\<close>)
    then show ?thesis using Some by auto
  qed
qed (auto simp: longest_match_def)

lemma try_lengths_None: "try_lengths probe input pos limit = None \<longleftrightarrow> no_match probe input pos limit"
  unfolding no_match_def
proof (induction limit)
  case (Suc n)
  then show ?case by (simp split: option.split) (metis le_Suc_eq option.distinct(1) zero_less_Suc le_refl)
qed simp

lemma try_lengths_bounds: "try_lengths probe input pos limit = Some (m, len) \<Longrightarrow> 0 < len \<and> len \<le> limit"
  by (simp add: try_lengths_Some longest_match_def)

lemma longest_match_unique:
  "longest_match probe input pos limit m len \<Longrightarrow> longest_match probe input pos limit m' len' \<Longrightarrow> m = m' \<and> len = len'"
  using try_lengths_Some [of probe input pos limit] by (metis option.inject prod.inject)

section \<open>A greedy walk\<close>

text \<open>The walk over the first \<open>window\<close> bytes with keys of at most \<open>max_len\<close> bytes: it stops at the end of the window, where
  nothing matches, or where the longest match is refused.\<close>

inductive greedy ::
    "(bytes \<Rightarrow> 'm option) \<Rightarrow> ('m \<Rightarrow> bool) \<Rightarrow> nat \<Rightarrow> bytes \<Rightarrow> nat \<Rightarrow> nat \<Rightarrow> ('m \<times> nat \<times> nat) list \<Rightarrow> nat \<Rightarrow> bool"
    for probe valid max_len input window where
  finished: "window \<le> pos \<Longrightarrow> greedy probe valid max_len input window pos [] pos"
| stuck: "pos < window \<Longrightarrow> no_match probe input pos (min (window - pos) max_len) \<Longrightarrow>
    greedy probe valid max_len input window pos [] pos"
| refused: "pos < window \<Longrightarrow> longest_match probe input pos (min (window - pos) max_len) m len \<Longrightarrow> \<not> valid m \<Longrightarrow>
    greedy probe valid max_len input window pos [] pos"
| taken: "pos < window \<Longrightarrow> longest_match probe input pos (min (window - pos) max_len) m len \<Longrightarrow> valid m \<Longrightarrow>
    greedy probe valid max_len input window (pos + len) ms e \<Longrightarrow>
    greedy probe valid max_len input window pos ((m, pos, pos + len) # ms) e"

inductive_cases greedy_NilE: "greedy probe valid max_len input window pos [] e"
inductive_cases greedy_ConsE: "greedy probe valid max_len input window pos (k # ms) e"

lemma no_match_longest: "no_match probe input pos limit \<Longrightarrow> \<not> longest_match probe input pos limit m len"
  unfolding no_match_def longest_match_def by auto

lemma greedy_unique:
  assumes "greedy probe valid max_len input window pos ms e" "greedy probe valid max_len input window pos ms' e'"
  shows "ms = ms' \<and> e = e'"
  using assms
proof (induction arbitrary: ms' e' rule: greedy.induct)
  case (finished pos)
  from finished.prems show ?case by cases (use finished.hyps in simp_all)
next
  case (stuck pos)
  from stuck.prems show ?case by cases (use stuck.hyps no_match_longest in metis)+
next
  case (refused pos m len)
  from refused.prems show ?case by cases (use refused.hyps longest_match_unique in metis)+
next
  case (taken pos m len ms e)
  note hyps = taken.hyps and IH = taken.IH
  from taken.prems show ?case
  proof cases
    case finished
    then show ?thesis using hyps by simp
  next
    case stuck
    then show ?thesis using hyps no_match_longest by metis
  next
    case (refused m' len')
    then show ?thesis using hyps longest_match_unique by metis
  next
    case (taken m' len' ms'')
    moreover have "m = m' \<and> len = len'" using longest_match_unique [OF hyps(2) taken(3)] .
    ultimately show ?thesis using IH [of ms'' e'] by simp
  qed
qed

text \<open>The keys of a walk are consecutive, nonempty and inside the window.\<close>

fun tiles :: "nat \<Rightarrow> ('m \<times> nat \<times> nat) list \<Rightarrow> nat \<Rightarrow> bool" where
  "tiles pos [] e \<longleftrightarrow> pos = e"
| "tiles pos ((m, s, t) # ms) e \<longleftrightarrow> s = pos \<and> s < t \<and> tiles t ms e"

lemma greedy_tiles: "greedy probe valid max_len input window pos ms e \<Longrightarrow> tiles pos ms e"
  by (induction rule: greedy.induct) (auto simp: longest_match_def)

lemma greedy_end: "greedy probe valid max_len input window pos ms e \<Longrightarrow> pos \<le> window \<Longrightarrow> e \<le> window"
  by (induction rule: greedy.induct) (auto simp: longest_match_def)

lemma greedy_members:
  assumes "greedy probe valid max_len input window pos ms e" "(m, s, t) \<in> set ms"
  shows "valid m \<and> s < t \<and> t \<le> s + max_len \<and> t \<le> window \<and> probe (take (t - s) (drop s input)) = Some m"
  using assms by (induction rule: greedy.induct) (auto simp: longest_match_def)

lemma greedy_stop:
  assumes "greedy probe valid max_len input window pos ms e" "\<And>m. valid m"
  shows "no_match probe input e (min (window - e) max_len)"
  using assms by (induction rule: greedy.induct) (auto simp: no_match_def)

lemma greedy_nothing:
  assumes "\<And>l. 0 < l \<Longrightarrow> l \<le> max_len \<Longrightarrow> probe (take l (drop pos input)) = None"
    and "greedy probe valid max_len input window pos ms e"
  shows "ms = [] \<and> e = pos"
  using assms(2)
proof (cases rule: greedy.cases)
  case (taken m len ms)
  then show ?thesis using assms(1) [of len] by (simp add: longest_match_def)
qed auto

section \<open>The loop of a parser\<close>

locale greedy_loop =
  fixes probe :: "bytes \<Rightarrow> 'm option" and valid :: "'m \<Rightarrow> bool" and max_len :: nat and input :: bytes and window :: nat
    and key :: "'m \<Rightarrow> nat \<Rightarrow> nat \<Rightarrow> 'k" and loop :: "nat \<Rightarrow> 'k list \<Rightarrow> 'k list \<times> nat"
  assumes step: "loop pos keys =
    (if pos < window then
       (case try_lengths probe input pos (min (window - pos) max_len) of
          None \<Rightarrow> (keys, pos)
        | Some (m, len) \<Rightarrow> if valid m then loop (pos + len) (keys @ [key m pos (pos + len)]) else (keys, pos))
     else (keys, pos))"
begin

lemma loop_greedy:
  "\<exists>ms e. greedy probe valid max_len input window pos ms e \<and> loop pos keys = (keys @ map (\<lambda>(m, s, t). key m s t) ms, e)"
proof (induction "window - pos" arbitrary: pos keys rule: less_induct)
  case less
  let ?limit = "min (window - pos) max_len"
  consider (over) "\<not> pos < window" | (none) "pos < window" "try_lengths probe input pos ?limit = None"
    | (found) m len where "pos < window" "try_lengths probe input pos ?limit = Some (m, len)"
    by (cases "try_lengths probe input pos ?limit") auto
  then show ?case
  proof cases
    case over
    then have "loop pos keys = (keys, pos)" by (subst step) simp
    then show ?thesis using greedy.finished [of window pos] over by fastforce
  next
    case none
    then have "loop pos keys = (keys, pos)" by (subst step) simp
    then show ?thesis using greedy.stuck [of pos window] none by (fastforce simp: try_lengths_None)
  next
    case (found m len)
    note longest = found(2) [unfolded try_lengths_Some]
    have eq: "loop pos keys = (if valid m then loop (pos + len) (keys @ [key m pos (pos + len)]) else (keys, pos))"
      by (subst step) (simp add: found)
    show ?thesis
    proof (cases "valid m")
      case False
      then show ?thesis using greedy.refused [of pos window, OF found(1) longest] eq by fastforce
    next
      case True
      have "window - (pos + len) < window - pos" using found(1) try_lengths_bounds [OF found(2)] by auto
      from less.hyps [OF this, of "keys @ [key m pos (pos + len)]"] obtain ms e where
        walk: "greedy probe valid max_len input window (pos + len) ms e"
        "loop (pos + len) (keys @ [key m pos (pos + len)]) = ((keys @ [key m pos (pos + len)]) @ map (\<lambda>(m, s, t). key m s t) ms, e)"
        by blast
      have "loop pos keys = (keys @ map (\<lambda>(m, s, t). key m s t) ((m, pos, pos + len) # ms), e)"
        using eq walk(2) True by simp
      then show ?thesis using greedy.taken [of pos window, OF found(1) longest True walk(1)] by blast
    qed
  qed
qed

end

end
