(* ===== verification/DoublePinyin.thy ===== *)
theory DoublePinyin
  imports SchemeTables GreedyParse SegmentGraph
begin

text \<open>
  The double-pinyin half of \<open>crates/oxpinyin-core/src/scheme.rs\<close>: the schemes and their tables, the resolution of a
  pair of keys to a syllable, the greedy batch parse under an option word and the one-key parse.
\<close>

section \<open>The model\<close>

datatype double_pinyin_scheme = Zrm | Ms | Ziguang | Abc | Pyjj | Xhe | Customized

record double_pinyin_key =
  dk_key :: syllable_key
  dk_start :: nat
  dk_end :: nat
  dk_tone :: u8

record double_pinyin_parse =
  dp_keys :: "double_pinyin_key list"
  dp_consumed :: nat

record scheme_tables =
  shengmu :: "string option list"
  yunmu :: "string option list list"
  fallback :: "(string \<times> string) list option"

record double_pinyin_parser =
  dps_scheme :: double_pinyin_scheme
  dps_suppress_fallback :: bool

fun join_text :: "string list \<Rightarrow> string" where
  "join_text [] = []"
| "join_text [s] = s"
| "join_text (s # t # ss) = s @ CHR 0x27 # join_text (t # ss)"

definition double_full_pinyin :: "double_pinyin_parse \<Rightarrow> string" where
  "double_full_pinyin r = join_text (map (\<lambda>item. syllable_text (dk_key item)) (dp_keys r))"

definition SCHEME_KEY_COUNT :: nat where
  "SCHEME_KEY_COUNT = 27"

definition double_tables :: "double_pinyin_scheme \<Rightarrow> scheme_tables option" where
  "double_tables scheme = (case scheme of
     Zrm \<Rightarrow> Some \<lparr>shengmu = ZRM_SHENG, yunmu = ZRM_YUN, fallback = Some ZRM_FALLBACK\<rparr>
   | Ms \<Rightarrow> Some \<lparr>shengmu = MS_SHENG, yunmu = MS_YUN, fallback = None\<rparr>
   | Ziguang \<Rightarrow> Some \<lparr>shengmu = ZG_SHENG, yunmu = ZG_YUN, fallback = None\<rparr>
   | Abc \<Rightarrow> Some \<lparr>shengmu = ABC_SHENG, yunmu = ABC_YUN, fallback = None\<rparr>
   | Pyjj \<Rightarrow> Some \<lparr>shengmu = PYJJ_SHENG, yunmu = PYJJ_YUN, fallback = Some PYJJ_FALLBACK\<rparr>
   | Xhe \<Rightarrow> Some \<lparr>shengmu = XHE_SHENG, yunmu = XHE_YUN, fallback = Some XHE_FALLBACK\<rparr>
   | Customized \<Rightarrow> None)"

definition is_key :: "u8 \<Rightarrow> bool" where
  "is_key b \<longleftrightarrow> 0x61 \<le> b \<and> b \<le> 0x7A \<or> b = 0x3B"

definition scheme_key_id :: "u8 \<Rightarrow> nat" where
  "scheme_key_id b = (if b = 0x3B then SCHEME_KEY_COUNT - 1 else unat (b - 0x61))"

text \<open>The indices below are those of \<open>is_key\<close> bytes, which stay inside the 27 entries of every table
  (\<open>scheme_key_id_less\<close> and \<open>double_tables_sizes\<close>).\<close>

definition lookup_pinyin :: "string \<Rightarrow> syllable_key option" where
  "lookup_pinyin spelling = (case from_text spelling of
     Some key \<Rightarrow> Some key
   | None \<Rightarrow>
       if spelling = ''lue'' \<or> spelling = ''nue'' then from_text (take 1 spelling @ ''ve'')
       else (case spelling of
           [] \<Rightarrow> None
         | first # _ \<Rightarrow>
             if first \<in> set ''jqxy'' \<and> CHR ''v'' \<in> set spelling
             then from_text (map (\<lambda>c. if c = CHR ''v'' then CHR ''u'' else c) spelling)
             else None))"

definition double_parser_new :: double_pinyin_parser where
  "double_parser_new = \<lparr>dps_scheme = Ms, dps_suppress_fallback = False\<rparr>"

definition double_with_scheme :: "double_pinyin_scheme \<Rightarrow> double_pinyin_parser" where
  "double_with_scheme scheme = \<lparr>dps_scheme = scheme, dps_suppress_fallback = False\<rparr>"

definition with_fallback_suppressed :: "double_pinyin_parser \<Rightarrow> double_pinyin_parser" where
  "with_fallback_suppressed parser = parser\<lparr>dps_suppress_fallback := True\<rparr>"

definition double_set_scheme :: "double_pinyin_parser \<Rightarrow> double_pinyin_scheme \<Rightarrow> bool \<times> double_pinyin_parser" where
  "double_set_scheme parser scheme =
     (if scheme = Customized then (False, parser)
      else (True, parser\<lparr>dps_scheme := scheme, dps_suppress_fallback := False\<rparr>))"

text \<open>The first hit of \<open>lookup_pinyin\<close> over the candidates of a yunmu entry.\<close>

fun first_spelling :: "string \<Rightarrow> string list \<Rightarrow> syllable_key option" where
  "first_spelling sheng [] = None"
| "first_spelling sheng (y # ys) =
     (case lookup_pinyin (sheng @ y) of Some key \<Rightarrow> Some key | None \<Rightarrow> first_spelling sheng ys)"

definition parse_fallback :: "bytes \<Rightarrow> scheme_tables \<Rightarrow> syllable_key option" where
  "parse_fallback input tables =
     Option.bind (fallback tables) (\<lambda>rows.
       if valid_utf8 input
       then Option.bind (map_option snd (List.find (\<lambda>row. fst row = map byte_char input) rows)) lookup_pinyin
       else None)"

definition parse_two_keys :: "bytes \<Rightarrow> scheme_tables \<Rightarrow> syllable_key option" where
  "parse_two_keys input tables =
     (if \<not> is_key (input ! 0) \<or> \<not> is_key (input ! 1) then None
      else (case shengmu tables ! scheme_key_id (input ! 0) of
          None \<Rightarrow> parse_fallback input tables
        | Some v \<Rightarrow>
            let sheng = (if v = [CHR 0x27] then [] else v);
                yun = yunmu tables ! scheme_key_id (input ! 1) in
            (case first_spelling sheng (List.map_filter id yun) of
               Some key \<Rightarrow> Some key
             | None \<Rightarrow> parse_fallback input tables)))"

definition parse_incomplete :: "u8 \<Rightarrow> bool \<Rightarrow> scheme_tables \<Rightarrow> syllable_key option" where
  "parse_incomplete b allow_incomplete tables =
     (if \<not> allow_incomplete \<or> \<not> is_key b then None
      else Option.bind (shengmu tables ! scheme_key_id b) (\<lambda>sheng.
        if sheng = [CHR 0x27] then None else from_text sheng))"

definition is_tone_digit :: "u8 \<Rightarrow> bool" where
  "is_tone_digit b \<longleftrightarrow> 0x31 \<le> b \<and> b \<le> 0x35"

definition probe_one_key :: "bool \<Rightarrow> bool \<Rightarrow> bool \<Rightarrow> scheme_tables \<Rightarrow> bytes \<Rightarrow> (syllable_key \<times> u8) option" where
  "probe_one_key use_tone force_tone allow_incomplete tables input =
     (if force_tone \<and> length input \<noteq> 3 then None
      else if length input = 1 then map_option (\<lambda>key. (key, 0)) (parse_incomplete (input ! 0) allow_incomplete tables)
      else if length input = 2 then map_option (\<lambda>key. (key, 0)) (parse_two_keys input tables)
      else if length input = 3 then
        (if \<not> use_tone then None
         else if is_tone_digit (input ! 2)
         then map_option (\<lambda>key. (key, input ! 2 - 0x30)) (parse_two_keys (take 2 input) tables)
         else None)
      else None)"

definition parser_tables :: "double_pinyin_parser \<Rightarrow> scheme_tables option" where
  "parser_tables parser = map_option (\<lambda>tables.
     if dps_suppress_fallback parser then tables\<lparr>fallback := None\<rparr> else tables) (double_tables (dps_scheme parser))"

text \<open>The scan of the batch parse; \<open>probe\<close> is \<open>probe_one_key\<close> with the bits of the option word.\<close>

function double_loop ::
    "(bytes \<Rightarrow> (syllable_key \<times> u8) option) \<Rightarrow> bytes \<Rightarrow> nat \<Rightarrow> nat \<Rightarrow> double_pinyin_key list \<Rightarrow> double_pinyin_key list \<times> nat" where
  "double_loop probe input maximum_len parsed_len keys =
     (if parsed_len < maximum_len then
        (case try_lengths probe input parsed_len (min (maximum_len - parsed_len) 3) of
           None \<Rightarrow> (keys, parsed_len)
         | Some ((key, tone), len) \<Rightarrow>
             double_loop probe input maximum_len (parsed_len + len)
               (keys @ [\<lparr>dk_key = key, dk_start = parsed_len, dk_end = parsed_len + len, dk_tone = tone\<rparr>]))
      else (keys, parsed_len))"
  by pat_completeness auto
termination
  by (relation "measure (\<lambda>(_, _, maximum_len, parsed_len, _). maximum_len - parsed_len)")
    (auto dest!: try_lengths_bounds)

definition double_window :: "bytes \<Rightarrow> nat" where
  "double_window input = length (takeWhile (\<lambda>b. is_key b \<or> is_tone_digit b) input)"

definition double_parse_with_options :: "double_pinyin_parser \<Rightarrow> bytes \<Rightarrow> u32 \<Rightarrow> double_pinyin_parse" where
  "double_parse_with_options parser input opts = (case parser_tables parser of
     None \<Rightarrow> \<lparr>dp_keys = [], dp_consumed = 0\<rparr>
   | Some tables \<Rightarrow>
       let probe = probe_one_key (contains opts USE_TONE) (contains opts FORCE_TONE) (contains opts PINYIN_INCOMPLETE) tables;
           (keys, parsed_len) = double_loop probe input (double_window input) 0 []
       in \<lparr>dp_keys = keys, dp_consumed = parsed_len\<rparr>)"

definition double_parse :: "double_pinyin_parser \<Rightarrow> bytes \<Rightarrow> bool \<Rightarrow> double_pinyin_parse" where
  "double_parse parser input allow_incomplete =
     double_parse_with_options parser input (of_bool allow_incomplete * PINYIN_INCOMPLETE)"

definition PINYIN_AMB_ALL :: u32 where
  "PINYIN_AMB_ALL = push_bit 10 0x3ff"

definition syllable_str :: "syllable_key \<Rightarrow> str" where
  "syllable_str key = map (\<lambda>c. word_of_nat (of_char c)) (syllable_text key)"

text \<open>\<open>DoublePinyinParser::parse_one_key\<close>; the generated content table is the argument \<open>content_keys\<close>.\<close>

definition double_parse_one_key :: "content_key list \<Rightarrow> double_pinyin_parser \<Rightarrow> u32 \<Rightarrow> bytes \<Rightarrow> chewing_key option" where
  "double_parse_one_key content_keys parser opts input =
     (let bits = opts AND NOT (PINYIN_CORRECT_ALL OR PINYIN_AMB_ALL) in
      if contains bits FORCE_TONE \<and> length input \<noteq> 3 then None
      else Option.bind (parser_tables parser) (\<lambda>tables.
        if length input = 1 then
          Option.bind (parse_incomplete (input ! 0) (contains bits PINYIN_INCOMPLETE) tables) (\<lambda>syllable.
            from_pinyin content_keys (syllable_str syllable))
        else if length input = 2 \<or> length input = 3 then
          (if length input = 3 \<and> (\<not> contains bits USE_TONE \<or> \<not> is_tone_digit (input ! 2)) then None
           else
             let tone = (if length input = 3 then input ! 2 - 0x30 else 0) in
             Option.bind (parse_two_keys (take 2 input) tables) (\<lambda>syllable.
               map_option (\<lambda>key. with_tone key tone) (from_pinyin content_keys (syllable_str syllable))))
        else None))"

section \<open>The tables\<close>

lemma scheme_key_id_less: "is_key b \<Longrightarrow> scheme_key_id b < SCHEME_KEY_COUNT"
proof -
  assume "is_key b"
  moreover have "unat (b - 0x61) < 27" if "0x61 \<le> b" "b \<le> 0x7A"
  proof -
    have "unat (b - 0x61) = unat b - 0x61" using that(1) by (simp add: unat_sub)
    moreover have "unat b \<le> 0x7A" using that(2) by (simp add: word_le_nat_alt)
    ultimately show ?thesis by simp
  qed
  ultimately show ?thesis by (auto simp: is_key_def scheme_key_id_def SCHEME_KEY_COUNT_def)
qed

lemma double_tables_sizes:
  "double_tables scheme = Some tables \<Longrightarrow>
     length (shengmu tables) = SCHEME_KEY_COUNT \<and> length (yunmu tables) = SCHEME_KEY_COUNT \<and>
     (\<forall>row \<in> set (yunmu tables). length row = 2)"
  by (cases scheme) (auto simp: double_tables_def SCHEME_KEY_COUNT_def ZRM_SHENG_def ZRM_YUN_def MS_SHENG_def MS_YUN_def
      ZG_SHENG_def ZG_YUN_def ABC_SHENG_def ABC_YUN_def PYJJ_SHENG_def PYJJ_YUN_def XHE_SHENG_def XHE_YUN_def)

section \<open>The loop\<close>

abbreviation double_key :: "(syllable_key \<times> u8) \<Rightarrow> nat \<Rightarrow> nat \<Rightarrow> double_pinyin_key" where
  "double_key m s e \<equiv> \<lparr>dk_key = fst m, dk_start = s, dk_end = e, dk_tone = snd m\<rparr>"

interpretation double_greedy: greedy_loop probe "\<lambda>_. True" 3 input window double_key "double_loop probe input window"
  for probe input window
  by unfold_locales (subst double_loop.simps, simp split: option.split prod.split)

text \<open>The masks of the one-key parse leave the three bits that the probes read.\<close>

lemma masked_bits:
  "contains (opts AND NOT PINYIN_CORRECT_ALL AND NOT PINYIN_AMB_ALL) b \<longleftrightarrow> contains opts b"
  if "b \<in> {USE_TONE, FORCE_TONE, PINYIN_INCOMPLETE}"
proof -
  have "NOT PINYIN_CORRECT_ALL AND NOT PINYIN_AMB_ALL AND b = b"
    using that by (auto simp: PINYIN_CORRECT_ALL_def PINYIN_AMB_ALL_def option_consts)
  then show ?thesis by (simp add: contains_def and.assoc)
qed

lemma from_pinyin_tone_zero: "from_pinyin content_keys s = Some c \<Longrightarrow> with_tone c 0 = c"
  by (auto simp: from_pinyin_def with_tone_def CHEWING_ZERO_TONE_def bind_eq_Some_conv)

lemma from_pinyin_with_tone_zero:
  "map_option (\<lambda>c. with_tone c 0) (from_pinyin content_keys s) = from_pinyin content_keys s"
  using from_pinyin_tone_zero by (cases "from_pinyin content_keys s") auto

lemma probe_length: "probe_one_key u f i tables s = Some m \<Longrightarrow> length s \<in> {1, 2, 3}"
  by (auto simp: probe_one_key_def split: if_splits)

lemma probe_tone:
  assumes "probe_one_key u f i tables s = Some (key, tone)"
  shows "(if length s = 3 then u \<and> is_tone_digit (s ! 2) \<and> tone = s ! 2 - 0x30 else tone = 0 \<and> \<not> f)"
  using assms by (auto simp: probe_one_key_def split: if_splits)

lemma tone_digit_value: "is_tone_digit b \<Longrightarrow> b - 0x30 \<in> {1, 2, 3, 4, 5}"
proof -
  assume "is_tone_digit b"
  then have "b - 0x30 \<le> 5" "1 \<le> b - 0x30"
    by (auto simp: is_tone_digit_def word_le_nat_alt unat_sub_if')
  then have "unat (b - 0x30) \<in> {1, 2, 3, 4, 5}" by (auto simp: word_le_nat_alt)
  then show ?thesis by (auto dest: arg_cong [where f = "of_nat :: nat \<Rightarrow> u8"])
qed

section \<open>Properties\<close>

text \<open>C27: the one-key parse and the probe of the batch parse are the same law, for every scheme, option word and
  input: the one-key parse answers the content row of the syllable the probe finds, with the tone it
  read. So the correction and ambiguity bits of the word are without effect on both.\<close>

theorem double_one_key_law:
  "double_parse_one_key content_keys parser opts s =
     Option.bind (parser_tables parser) (\<lambda>tables.
     Option.bind (probe_one_key (contains opts USE_TONE) (contains opts FORCE_TONE) (contains opts PINYIN_INCOMPLETE) tables s)
       (\<lambda>(key, tone). map_option (\<lambda>c. with_tone c tone) (from_pinyin content_keys (syllable_str key))))"
proof (cases "parser_tables parser")
  case (Some tables)
  have two: "take 2 s = s" if "length s = 2" using that by simp
  consider "length s = 1" | "length s = 2" | "length s = 3" | "length s \<notin> {1, 2, 3}" by auto
  then show ?thesis
    by cases (auto simp: double_parse_one_key_def probe_one_key_def masked_bits Some Let_def two
        from_pinyin_with_tone_zero bind_map_option comp_def split: bind_split)
qed (simp add: double_parse_one_key_def Let_def)

text \<open>C26: the batch parse under any option word. It always returns: the keys are the greedy walk over the prefix
  of key and tone-digit bytes, each the longest of at most three bytes that the probe accepts, one after
  the other from the start; the parse stops where no length is accepted. A key carries a tone exactly
  when it has three bytes, which takes \<open>USE_TONE\<close>; under \<open>FORCE_TONE\<close> every key does, and \<open>FORCE_TONE\<close> without
  \<open>USE_TONE\<close> consumes nothing.\<close>

theorem double_parse_spec:
  assumes tables: "parser_tables parser = Some tables"
    and probe: "probe = probe_one_key (contains opts USE_TONE) (contains opts FORCE_TONE) (contains opts PINYIN_INCOMPLETE) tables"
    and r: "r = double_parse_with_options parser input opts"
  shows "(\<exists>ms. greedy probe (\<lambda>_. True) 3 input (double_window input) 0 ms (dp_consumed r) \<and>
      dp_keys r = map (\<lambda>(m, s, e). double_key m s e) ms \<and> tiles 0 ms (dp_consumed r)) \<and>
    dp_consumed r \<le> double_window input \<and>
    no_match probe input (dp_consumed r) (min (double_window input - dp_consumed r) 3) \<and>
    (\<forall>k \<in> set (dp_keys r).
       if dk_end k = dk_start k + 3 then contains opts USE_TONE \<and> dk_tone k \<in> {1, 2, 3, 4, 5}
       else dk_tone k = 0 \<and> \<not> contains opts FORCE_TONE) \<and>
    (contains opts FORCE_TONE \<and> \<not> contains opts USE_TONE \<longrightarrow> dp_keys r = [] \<and> dp_consumed r = 0)"
proof -
  obtain ms e where walk: "greedy probe (\<lambda>_. True) 3 input (double_window input) 0 ms e"
      "double_loop probe input (double_window input) 0 [] = (map (\<lambda>(m, s, e). double_key m s e) ms, e)"
    using double_greedy.loop_greedy [of probe input "double_window input" 0 "[]"] by auto
  then have r: "r = \<lparr>dp_keys = map (\<lambda>(m, s, e). double_key m s e) ms, dp_consumed = e\<rparr>"
    by (simp add: r double_parse_with_options_def tables probe)
  have len: "double_window input \<le> length input" by (simp add: double_window_def length_takeWhile_le)
  have key: "if t = s + 3 then contains opts USE_TONE \<and> tone \<in> {1, 2, 3, 4, 5} else tone = 0 \<and> \<not> contains opts FORCE_TONE"
    if "((key, tone), s, t) \<in> set ms" for key tone s t
  proof -
    note k = greedy_members [OF walk(1) that]
    then have "length (take (t - s) (drop s input)) = t - s" using len by auto
    moreover have "probe_one_key (contains opts USE_TONE) (contains opts FORCE_TONE) (contains opts PINYIN_INCOMPLETE)
        tables (take (t - s) (drop s input)) = Some (key, tone)" using k probe by simp
    note probe_tone [OF this]
    ultimately show ?thesis using k tone_digit_value by (auto split: if_splits)
  qed
  have none: "ms = [] \<and> e = 0" if "contains opts FORCE_TONE" "\<not> contains opts USE_TONE"
    by (rule greedy_nothing [OF _ walk(1)]) (use that in \<open>simp add: probe probe_one_key_def\<close>)
  show ?thesis using walk(1) greedy_tiles [OF walk(1)] greedy_end [OF walk(1)] greedy_stop [OF walk(1)] key none
    by (fastforce simp: r)
qed

theorem double_parse_spec_witness:
  "\<exists>tables. parser_tables double_parser_new = Some tables \<and>
     no_match (probe_one_key False False False tables) [0x6E, 0x69] (dp_consumed (double_parse_with_options double_parser_new [0x6E, 0x69] 0))
       (min (double_window [0x6E, 0x69] - dp_consumed (double_parse_with_options double_parser_new [0x6E, 0x69] 0)) 3)"
proof -
  obtain tables where t: "parser_tables double_parser_new = Some tables"
    by (simp add: parser_tables_def double_parser_new_def double_tables_def)
  then show ?thesis using double_parse_spec [OF t refl refl, of 0 "[0x6E, 0x69]"] by (auto simp: contains_def)
qed

end
