(* ===== verification/Zhuyin.thy ===== *)
theory Zhuyin
  imports DoublePinyin IndexParse
begin

text \<open>
  The Zhuyin half of \<open>crates/oxpinyin-core/src/scheme.rs\<close> with \<open>zhuyin_map.rs\<close> and \<open>direct.rs\<close>: the keyboards, the
  option-gated lookup in a spelling index, the probes of the three keyboard families, the greedy batch
  parse, the one-key parse and the direct parse of bopomofo text. The index tables are written by the
  build and are an argument; a string is its UTF-8 bytes.
\<close>

section \<open>Indexes\<close>

definition ZHUYIN_INCOMPLETE :: u32 where "ZHUYIN_INCOMPLETE = push_bit 4 1"
definition ZHUYIN_CORRECT_HSU :: u32 where "ZHUYIN_CORRECT_HSU = push_bit 29 1"
definition ZHUYIN_CORRECT_ETEN26 :: u32 where "ZHUYIN_CORRECT_ETEN26 = push_bit 30 1"
definition ZHUYIN_CORRECT_SHUFFLE :: u32 where "ZHUYIN_CORRECT_SHUFFLE = push_bit 31 1"
definition ZHUYIN_CORRECT_ALL :: u32 where "ZHUYIN_CORRECT_ALL = push_bit 29 7"

record zhuyin_index =
  zi_strings :: string_table
  zi_flags :: "u32 list"

definition zi_position :: "zhuyin_index \<Rightarrow> bytes \<Rightarrow> nat option" where
  "zi_position index spelling = table_position (zi_strings index) spelling"

definition zi_get :: "zhuyin_index \<Rightarrow> nat \<Rightarrow> (bytes \<times> bytes \<times> bytes \<times> u32) option" where
  "zi_get index i = (case table_get (zi_strings index) i of
     Some [input, canonical, pinyin] \<Rightarrow> map_option (\<lambda>flags. (input, canonical, pinyin, flags)) (get_at (zi_flags index) i)
   | _ \<Rightarrow> None)"

definition zi_entries :: "zhuyin_index \<Rightarrow> (bytes \<times> bytes \<times> bytes \<times> u32) list" where
  "zi_entries index = map (\<lambda>(row, flags). (row ! 0, row ! 1, row ! 2, flags)) (zip (table_entries (zi_strings index)) (zi_flags index))"

text \<open>The three pinned indexes, the code's \<open>zhuyin_pinyin_map\<close>, \<open>hsu_zhuyin_index\<close> and \<open>eten26_zhuyin_index\<close>.\<close>

record zhuyin_indexes =
  zhuyin_pinyin_map :: zhuyin_index
  hsu_zhuyin_index :: zhuyin_index
  eten26_zhuyin_index :: zhuyin_index

definition search_zhuyin_index :: "zhuyin_index \<Rightarrow> bytes \<Rightarrow> u32 \<Rightarrow> (syllable_key \<times> bytes) option" where
  "search_zhuyin_index index zhuyin opts =
     Option.bind (zi_position index zhuyin) (\<lambda>position.
     Option.bind (zi_get index position) (\<lambda>(spelling, canonical, pinyin, flags).
       if spelling \<noteq> zhuyin then None
       else if flags AND ZHUYIN_INCOMPLETE \<noteq> 0 \<and> opts AND ZHUYIN_INCOMPLETE = 0 then None
       else
         let corrections = flags AND (ZHUYIN_CORRECT_ALL OR PINYIN_AMB_ALL) in
         if corrections \<noteq> 0 \<and> corrections AND opts \<noteq> corrections then None
         else map_option (\<lambda>key. (key, canonical)) (from_canonical_text (map byte_char pinyin))))"

definition zhuyin_for_pinyin :: "zhuyin_indexes \<Rightarrow> bytes \<Rightarrow> bytes option" where
  "zhuyin_for_pinyin ix pinyin =
     map_option (\<lambda>(_, canonical, _, _). canonical)
       (List.find (\<lambda>(input, canonical, mapped, _). mapped = pinyin \<and> input = canonical) (zi_entries (zhuyin_pinyin_map ix)))"

definition tone_bytes :: "u8 \<Rightarrow> bytes" where
  "tone_bytes tone = as_bytes (tone_symbol tone)"

definition zhuyin_display_for_pinyin :: "zhuyin_indexes \<Rightarrow> bytes \<Rightarrow> u8 \<Rightarrow> bytes option" where
  "zhuyin_display_for_pinyin ix pinyin tone =
     map_option (\<lambda>spelling. if 2 \<le> tone \<and> tone \<le> 5 then spelling @ tone_bytes tone else spelling) (zhuyin_for_pinyin ix pinyin)"

section \<open>Keyboards\<close>

datatype zhuyin_scheme = Standard | Hsu | Ibm | Ginyieh | Eten | Eten26 | StandardDvorak | HsuDvorak | DachenCp26

record zhuyin_key =
  zk_key :: syllable_key
  zk_start :: nat
  zk_end :: nat
  zk_zhuyin :: bytes
  zk_tone :: u8

record zhuyin_parse =
  zp_keys :: "zhuyin_key list"
  zp_consumed :: nat

definition zhuyin_display :: "zhuyin_key \<Rightarrow> bytes" where
  "zhuyin_display k = (if 2 \<le> zk_tone k \<and> zk_tone k \<le> 5 then zk_zhuyin k @ tone_bytes (zk_tone k) else zk_zhuyin k)"

definition zhuyin_full_pinyin :: "zhuyin_parse \<Rightarrow> string" where
  "zhuyin_full_pinyin r = join_text (map (\<lambda>item. syllable_text (zk_key item)) (zp_keys r))"

type_synonym symbol_rows = "(u8 \<times> bytes) list"
type_synonym tone_rows = "(u8 \<times> u8) list"

record simple_tables =
  sim_symbols :: symbol_rows
  sim_tones :: tone_rows
  sim_index :: zhuyin_index

record discrete_tables =
  dis_initials :: symbol_rows
  dis_middles :: symbol_rows
  dis_finals :: symbol_rows
  dis_tones :: tone_rows
  dis_index :: zhuyin_index
  dis_correction :: u32

record cp26_tables =
  cp_initials :: symbol_rows
  cp_middles :: symbol_rows
  cp_finals :: symbol_rows
  cp_tones :: tone_rows

definition first_symbol :: "symbol_rows \<Rightarrow> u8 \<Rightarrow> bytes option" where
  "first_symbol rows b = map_option snd (List.find (\<lambda>row. fst row = b) rows)"

definition all_symbols :: "symbol_rows \<Rightarrow> u8 \<Rightarrow> bytes list" where
  "all_symbols rows b = map snd (filter (\<lambda>row. fst row = b) rows)"

definition tone_of :: "tone_rows \<Rightarrow> u8 \<Rightarrow> u8 option" where
  "tone_of rows b = map_option snd (List.find (\<lambda>row. fst row = b) rows)"

definition two_symbols :: "symbol_rows \<Rightarrow> u8 \<Rightarrow> (bytes \<times> bytes option) option" where
  "two_symbols rows b = (case map snd (filter (\<lambda>row. fst row = b) rows) of
     [] \<Rightarrow> None
   | [first] \<Rightarrow> Some (first, None)
   | first # second # _ \<Rightarrow> Some (first, Some second))"

datatype keyboard = Simple simple_tables | Discrete discrete_tables | Cp26 cp26_tables

definition simple_tables_of :: "zhuyin_indexes \<Rightarrow> zhuyin_scheme \<Rightarrow> simple_tables option" where
  "simple_tables_of ix scheme = (case scheme of
     Standard \<Rightarrow> Some \<lparr>sim_symbols = STANDARD_SYMBOLS, sim_tones = STANDARD_TONES, sim_index = zhuyin_pinyin_map ix\<rparr>
   | Ibm \<Rightarrow> Some \<lparr>sim_symbols = IBM_SYMBOLS, sim_tones = IBM_TONES, sim_index = zhuyin_pinyin_map ix\<rparr>
   | Ginyieh \<Rightarrow> Some \<lparr>sim_symbols = GINYIEH_SYMBOLS, sim_tones = GINYIEH_TONES, sim_index = zhuyin_pinyin_map ix\<rparr>
   | Eten \<Rightarrow> Some \<lparr>sim_symbols = ETEN_SYMBOLS, sim_tones = ETEN_TONES, sim_index = zhuyin_pinyin_map ix\<rparr>
   | _ \<Rightarrow> None)"

definition discrete_tables_of :: "zhuyin_indexes \<Rightarrow> zhuyin_scheme \<Rightarrow> discrete_tables option" where
  "discrete_tables_of ix scheme = (case scheme of
     Hsu \<Rightarrow> Some \<lparr>dis_initials = HSU_INITIALS, dis_middles = HSU_MIDDLES, dis_finals = HSU_FINALS, dis_tones = HSU_TONES,
       dis_index = hsu_zhuyin_index ix, dis_correction = ZHUYIN_CORRECT_HSU\<rparr>
   | Eten26 \<Rightarrow> Some \<lparr>dis_initials = ETEN26_INITIALS, dis_middles = ETEN26_MIDDLES, dis_finals = ETEN26_FINALS,
       dis_tones = ETEN26_TONES, dis_index = eten26_zhuyin_index ix, dis_correction = ZHUYIN_CORRECT_ETEN26\<rparr>
   | HsuDvorak \<Rightarrow> Some \<lparr>dis_initials = HSU_DVORAK_INITIALS, dis_middles = HSU_DVORAK_MIDDLES, dis_finals = HSU_DVORAK_FINALS,
       dis_tones = HSU_DVORAK_TONES, dis_index = hsu_zhuyin_index ix, dis_correction = ZHUYIN_CORRECT_HSU\<rparr>
   | _ \<Rightarrow> None)"

definition cp26_tables_of :: "zhuyin_scheme \<Rightarrow> cp26_tables option" where
  "cp26_tables_of scheme = (case scheme of
     DachenCp26 \<Rightarrow> Some \<lparr>cp_initials = CP26_INITIALS, cp_middles = CP26_MIDDLES, cp_finals = CP26_FINALS, cp_tones = CP26_TONES\<rparr>
   | _ \<Rightarrow> None)"

definition keyboard_of :: "zhuyin_indexes \<Rightarrow> zhuyin_scheme \<Rightarrow> keyboard option" where
  "keyboard_of ix scheme = (case simple_tables_of ix scheme of
     Some tables \<Rightarrow> Some (Simple tables)
   | None \<Rightarrow> (case discrete_tables_of ix scheme of
       Some tables \<Rightarrow> Some (Discrete tables)
     | None \<Rightarrow> map_option Cp26 (cp26_tables_of scheme)))"

definition zhuyin_set_scheme :: "zhuyin_indexes \<Rightarrow> zhuyin_scheme \<Rightarrow> zhuyin_scheme \<Rightarrow> bool \<times> zhuyin_scheme" where
  "zhuyin_set_scheme ix current scheme = (if keyboard_of ix scheme = None then (False, current) else (True, scheme))"

definition tone_symbols_for :: "bool \<Rightarrow> tone_rows \<Rightarrow> u8 \<Rightarrow> bytes list" where
  "tone_symbols_for use_tone rows key =
     (if use_tone then (case tone_of rows key of Some tone \<Rightarrow> [tone_bytes tone] | None \<Rightarrow> []) else [])"

definition symbols_for :: "zhuyin_indexes \<Rightarrow> zhuyin_scheme \<Rightarrow> u8 \<Rightarrow> bool \<Rightarrow> bytes list" where
  "symbols_for ix scheme key use_tone = (case keyboard_of ix scheme of
     Some (Simple tables) \<Rightarrow>
       (case first_symbol (sim_symbols tables) key of Some symbol \<Rightarrow> [symbol] | None \<Rightarrow> []) @
       tone_symbols_for use_tone (sim_tones tables) key
   | Some (Discrete tables) \<Rightarrow>
       concat (map (\<lambda>rows. all_symbols rows key) [dis_initials tables, dis_middles tables, dis_finals tables]) @
       tone_symbols_for use_tone (dis_tones tables) key
   | Some (Cp26 tables) \<Rightarrow>
       concat (map (\<lambda>rows. all_symbols rows key) [cp_initials tables, cp_middles tables, cp_finals tables]) @
       (if key = 0x69 then [[0xE3, 0x84, 0xA7, 0xE3, 0x84, 0x9A]] else []) @
       tone_symbols_for use_tone (cp_tones tables) key
   | None \<Rightarrow> [])"

definition in_scheme :: "zhuyin_indexes \<Rightarrow> zhuyin_scheme \<Rightarrow> u8 \<Rightarrow> bool \<Rightarrow> bool" where
  "in_scheme ix scheme key use_tone \<longleftrightarrow> symbols_for ix scheme key use_tone \<noteq> []"

section \<open>Probes\<close>

text \<open>A probe answers the key, its canonical spelling and the tone.\<close>

definition spelled :: "zhuyin_index \<Rightarrow> bytes \<Rightarrow> u32 \<Rightarrow> u8 \<Rightarrow> (syllable_key \<times> bytes \<times> u8) option" where
  "spelled index zhuyin opts tone =
     map_option (\<lambda>(key, canonical). (key, canonical, tone)) (search_zhuyin_index index zhuyin opts)"

text \<open>The symbols of a run of keystrokes, \<open>None\<close> when one of them has no symbol.\<close>

fun symbol_run :: "symbol_rows \<Rightarrow> bytes \<Rightarrow> bytes option" where
  "symbol_run rows [] = Some []"
| "symbol_run rows (b # bs) =
     Option.bind (first_symbol rows b) (\<lambda>symbol. map_option (\<lambda>rest. symbol @ rest) (symbol_run rows bs))"

definition parse_one_zhuyin_key :: "bytes \<Rightarrow> bool \<Rightarrow> u32 \<Rightarrow> simple_tables \<Rightarrow> (syllable_key \<times> bytes \<times> u8) option" where
  "parse_one_zhuyin_key input use_tone opts tables =
     (let (symbol_len, tone) =
        (if use_tone \<and> 0 < length input then
           (case tone_of (sim_tones tables) (input ! (length input - 1)) of
              Some v \<Rightarrow> (length input - 1, v)
            | None \<Rightarrow> (length input, 0))
         else (length input, 0)) in
      if symbol_len = 0 then None
      else Option.bind (symbol_run (sim_symbols tables) (take symbol_len input)) (\<lambda>zhuyin.
        spelled (sim_index tables) zhuyin opts tone))"

text \<open>One positional probe: the symbol at \<open>index\<close> and the position after it, or no symbol.\<close>

definition probe_slot :: "symbol_rows \<Rightarrow> bytes \<Rightarrow> nat \<Rightarrow> bytes \<times> nat" where
  "probe_slot rows input index =
     (if index \<noteq> length input then
        (case first_symbol rows (input ! index) of Some symbol \<Rightarrow> (symbol, index + 1) | None \<Rightarrow> ([], index))
      else ([], index))"

definition parse_one_discrete_key :: "bytes \<Rightarrow> bool \<Rightarrow> u32 \<Rightarrow> discrete_tables \<Rightarrow> (syllable_key \<times> bytes \<times> u8) option" where
  "parse_one_discrete_key input use_tone opts tables =
     (if input = [] then None
      else
        let (initial, index) = probe_slot (dis_initials tables) input 0;
            (middle, index) = probe_slot (dis_middles tables) input index;
            (final, index) = probe_slot (dis_finals tables) input index;
            (tone, index) =
              (if index \<noteq> length input \<and> use_tone then
                 (case tone_of (dis_tones tables) (input ! index) of Some v \<Rightarrow> (v, index + 1) | None \<Rightarrow> (0, index))
               else (0, index)) in
        if index \<noteq> length input then None
        else spelled (dis_index tables) (initial @ middle @ final) opts tone)"

definition count_same_chars :: "bytes \<Rightarrow> nat" where
  "count_same_chars input = length (takeWhile (\<lambda>b. b = input ! 0) input)"

text \<open>The row of a dual key that a run of \<open>count\<close> taps selects.\<close>

definition cycled :: "nat \<Rightarrow> bytes \<times> bytes option \<Rightarrow> bytes" where
  "cycled count rows = (case rows of
     (first, None) \<Rightarrow> first
   | (first, Some second) \<Rightarrow> if (count - 1) mod 2 = 0 then first else second)"

definition probe_run :: "symbol_rows \<Rightarrow> bytes \<Rightarrow> nat \<Rightarrow> bytes \<times> nat" where
  "probe_run rows input index =
     (let count = count_same_chars (drop index input) in
      case two_symbols rows (input ! index) of
        Some pair \<Rightarrow> (cycled count pair, index + count)
      | None \<Rightarrow> ([], index))"

definition middle_special :: "u8 \<Rightarrow> nat \<Rightarrow> bytes \<times> bytes" where
  "middle_special b count =
     (if b = 0x75 then
        (if (count - 1) mod 3 = 0 then ([0xE3, 0x84, 0xA7], [])
         else if (count - 1) mod 3 = 1 then ([], [0xE3, 0x84, 0x9A])
         else ([0xE3, 0x84, 0xA7], [0xE3, 0x84, 0x9A]))
      else if b = 0x6D then
        (if (count - 1) mod 2 = 0 then ([0xE3, 0x84, 0xA9], []) else ([], [0xE3, 0x84, 0xA1]))
      else if b = 0x6A then ([0xE3, 0x84, 0xA8], [])
      else ([], []))"

definition parse_one_cp26_key ::
    "zhuyin_indexes \<Rightarrow> bytes \<Rightarrow> bool \<Rightarrow> u32 \<Rightarrow> cp26_tables \<Rightarrow> (syllable_key \<times> bytes \<times> u8) option" where
  "parse_one_cp26_key ix input use_tone opts tables =
     (if input = [] then None
      else
        let (len, tone) =
              (if use_tone then
                 (case tone_of (cp_tones tables) (input ! (length input - 1)) of
                    Some v \<Rightarrow> (length input - 1, v)
                  | None \<Rightarrow> (length input, 0))
               else (length input, 0)) in
        if len = 0 then None
        else
          let input = take len input;
              (initial, index) = probe_run (cp_initials tables) input 0;
              (middle, final, index) =
                (if index \<noteq> len then
                   let count = count_same_chars (drop index input); b = input ! index;
                       (middle, final) = middle_special b count in
                   (middle, final, if two_symbols (cp_middles tables) b \<noteq> None then index + count else index)
                 else ([], [], index));
              (final, index) =
                (if index \<noteq> len \<and> final = [] then probe_run (cp_finals tables) input index else (final, index)) in
          if index \<noteq> len then None
          else spelled (zhuyin_pinyin_map ix) (initial @ middle @ final) opts tone)"

definition is_valid_zhuyin :: "syllable_key \<Rightarrow> u8 \<Rightarrow> bool" where
  "is_valid_zhuyin key tone = (case get_at VALID_ZHUYIN_TONES (key_index key) of
     None \<Rightarrow> False
   | Some tones \<Rightarrow> unat tone < 8 \<and> tones AND push_bit (unat tone) 1 \<noteq> 0)"

datatype key_probe =
    SimpleProbe simple_tables bool u32 bool
  | DiscreteProbe discrete_tables bool u32 bool
  | Cp26Probe cp26_tables bool u32 bool

text \<open>A toneless match under \<open>FORCE_TONE\<close>.\<close>

definition unless_toneless :: "bool \<Rightarrow> (syllable_key \<times> bytes \<times> u8) option \<Rightarrow> (syllable_key \<times> bytes \<times> u8) option" where
  "unless_toneless forced m = (case m of
     Some (key, zhuyin, tone) \<Rightarrow> if forced \<and> tone = CHEWING_ZERO_TONE then None else Some (key, zhuyin, tone)
   | None \<Rightarrow> None)"

fun probe_parse_one_key :: "zhuyin_indexes \<Rightarrow> key_probe \<Rightarrow> bytes \<Rightarrow> (syllable_key \<times> bytes \<times> u8) option" where
  "probe_parse_one_key ix (SimpleProbe tables use_tone opts force_tone) input =
     unless_toneless (use_tone \<and> force_tone) (parse_one_zhuyin_key input use_tone opts tables)"
| "probe_parse_one_key ix (DiscreteProbe tables use_tone opts force_tone) input =
     unless_toneless force_tone (parse_one_discrete_key input use_tone opts tables)"
| "probe_parse_one_key ix (Cp26Probe tables use_tone opts force_tone) input =
     unless_toneless (use_tone \<and> force_tone) (parse_one_cp26_key ix input use_tone opts tables)"

section \<open>The batch parse\<close>

function zhuyin_loop ::
    "(bytes \<Rightarrow> (syllable_key \<times> bytes \<times> u8) option) \<Rightarrow> nat \<Rightarrow> bytes \<Rightarrow> nat \<Rightarrow> nat \<Rightarrow> zhuyin_key list \<Rightarrow> zhuyin_key list \<times> nat" where
  "zhuyin_loop probe max_key_len input maximum_len parsed_len keys =
     (if parsed_len < maximum_len then
        (case try_lengths probe input parsed_len (min (maximum_len - parsed_len) max_key_len) of
           None \<Rightarrow> (keys, parsed_len)
         | Some ((key, zhuyin, tone), len) \<Rightarrow>
             if \<not> is_valid_zhuyin key tone then (keys, parsed_len)
             else zhuyin_loop probe max_key_len input maximum_len (parsed_len + len)
               (keys @ [\<lparr>zk_key = key, zk_start = parsed_len, zk_end = parsed_len + len, zk_zhuyin = zhuyin, zk_tone = tone\<rparr>]))
      else (keys, parsed_len))"
  by pat_completeness auto
termination
  by (relation "measure (\<lambda>(_, _, _, maximum_len, parsed_len, _). maximum_len - parsed_len)")
    (auto dest!: try_lengths_bounds)

definition with_incomplete :: "bool \<Rightarrow> u32 \<Rightarrow> u32" where
  "with_incomplete allow_incomplete correction = (if allow_incomplete then correction OR ZHUYIN_INCOMPLETE else correction)"

text \<open>The keystrokes of a keyboard, its probe and the longest key it has.\<close>

definition keyboard_byte :: "zhuyin_indexes \<Rightarrow> zhuyin_scheme \<Rightarrow> bool \<Rightarrow> keyboard \<Rightarrow> u8 \<Rightarrow> bool" where
  "keyboard_byte ix scheme use_tone kb b = (case kb of
     Simple tables \<Rightarrow> first_symbol (sim_symbols tables) b \<noteq> None \<or> use_tone \<and> tone_of (sim_tones tables) b \<noteq> None
   | Discrete tables \<Rightarrow>
       list_ex (\<lambda>rows. list_ex (\<lambda>row. fst row = b) rows) [dis_initials tables, dis_middles tables, dis_finals tables] \<or>
       use_tone \<and> tone_of (dis_tones tables) b \<noteq> None
   | Cp26 tables \<Rightarrow> in_scheme ix scheme b use_tone)"

definition keyboard_probe :: "bool \<Rightarrow> bool \<Rightarrow> bool \<Rightarrow> keyboard \<Rightarrow> key_probe" where
  "keyboard_probe use_tone force_tone allow_incomplete kb = (case kb of
     Simple tables \<Rightarrow> SimpleProbe tables use_tone (with_incomplete allow_incomplete ZHUYIN_CORRECT_SHUFFLE) force_tone
   | Discrete tables \<Rightarrow> DiscreteProbe tables use_tone (with_incomplete allow_incomplete (dis_correction tables)) force_tone
   | Cp26 tables \<Rightarrow> Cp26Probe tables use_tone (with_incomplete allow_incomplete 0) force_tone)"

definition max_key_len_of :: "keyboard \<Rightarrow> nat" where
  "max_key_len_of kb = (case kb of Cp26 _ \<Rightarrow> 12 | _ \<Rightarrow> 4)"

definition zhuyin_window :: "zhuyin_indexes \<Rightarrow> zhuyin_scheme \<Rightarrow> bool \<Rightarrow> keyboard \<Rightarrow> bytes \<Rightarrow> nat" where
  "zhuyin_window ix scheme use_tone kb input = length (takeWhile (keyboard_byte ix scheme use_tone kb) input)"

definition parse_detailed :: "zhuyin_indexes \<Rightarrow> zhuyin_scheme \<Rightarrow> bytes \<Rightarrow> bool \<Rightarrow> bool \<Rightarrow> bool \<Rightarrow> zhuyin_parse" where
  "parse_detailed ix scheme input use_tone force_tone allow_incomplete = (case keyboard_of ix scheme of
     None \<Rightarrow> \<lparr>zp_keys = [], zp_consumed = 0\<rparr>
   | Some kb \<Rightarrow>
       let probe = keyboard_probe use_tone force_tone allow_incomplete kb;
           (keys, parsed_len) = zhuyin_loop (probe_parse_one_key ix probe) (max_key_len_of kb) input
             (zhuyin_window ix scheme use_tone kb input) 0 []
       in \<lparr>zp_keys = keys, zp_consumed = parsed_len\<rparr>)"

definition zhuyin_batch_parse :: "zhuyin_indexes \<Rightarrow> zhuyin_scheme \<Rightarrow> bytes \<Rightarrow> bool \<Rightarrow> bool \<Rightarrow> zhuyin_parse" where
  "zhuyin_batch_parse ix scheme input use_tone allow_incomplete = parse_detailed ix scheme input use_tone False allow_incomplete"

definition zhuyin_parse_with_options :: "zhuyin_indexes \<Rightarrow> zhuyin_scheme \<Rightarrow> bytes \<Rightarrow> u32 \<Rightarrow> zhuyin_parse" where
  "zhuyin_parse_with_options ix scheme input opts =
     parse_detailed ix scheme input (contains opts USE_TONE) (contains opts FORCE_TONE) (contains opts ZHUYIN_INCOMPLETE)"

section \<open>The one-key parse\<close>

definition zhuyin_parse_one_key :: "content_key list \<Rightarrow> zhuyin_indexes \<Rightarrow> zhuyin_scheme \<Rightarrow> u32 \<Rightarrow> bytes \<Rightarrow> chewing_key option" where
  "zhuyin_parse_one_key content_keys ix scheme opts input =
     (let bits = opts AND NOT PINYIN_AMB_ALL; use_tone = contains bits USE_TONE; force_tone = contains bits FORCE_TONE in
      Option.bind (keyboard_of ix scheme) (\<lambda>kb.
      Option.bind (case kb of
          Simple tables \<Rightarrow> unless_toneless (use_tone \<and> force_tone) (parse_one_zhuyin_key input use_tone bits tables)
        | Discrete tables \<Rightarrow> unless_toneless force_tone (parse_one_discrete_key input use_tone bits tables)
        | Cp26 tables \<Rightarrow> unless_toneless (use_tone \<and> force_tone) (parse_one_cp26_key ix input use_tone bits tables))
        (\<lambda>(syllable, _, tone).
          map_option (\<lambda>key. with_tone key tone) (from_pinyin content_keys (syllable_str syllable)))))"

section \<open>The direct parse\<close>

definition is_separator :: "u8 \<Rightarrow> bool" where
  "is_separator b \<longleftrightarrow> b = 0x20 \<or> b = 0x27"

definition find_from :: "(u8 \<Rightarrow> bool) \<Rightarrow> bytes \<Rightarrow> nat \<Rightarrow> nat" where
  "find_from P bs i = (case position P (drop i bs) of Some offset \<Rightarrow> i + offset | None \<Rightarrow> length bs)"

lemma find_from_ge: "i \<le> length bs \<Longrightarrow> i \<le> find_from P bs i \<and> find_from P bs i \<le> length bs"
  by (auto simp: find_from_def position_iff split: option.split)

lemma find_from_progress:
  assumes "cur < length bs"
  shows "cur < find_from (\<lambda>b. \<not> P b) bs (find_from P bs cur)"
proof -
  let ?next = "find_from P bs cur"
  have ge: "cur \<le> ?next" "?next \<le> length bs" using find_from_ge [of cur bs P] assms by auto
  have "?next < find_from (\<lambda>b. \<not> P b) bs ?next" if inside: "?next < length bs"
  proof (cases "position (\<lambda>b. \<not> P b) (drop ?next bs)")
    case None
    then show ?thesis using that by (simp add: find_from_def [of "\<lambda>b. \<not> P b"])
  next
    case (Some offset)
    obtain k where k: "position P (drop cur bs) = Some k"
      using inside by (cases "position P (drop cur bs)") (auto simp: find_from_def)
    then have "k < length (drop cur bs) \<and> P (drop cur bs ! k)" by (simp only: position_iff)
    then have "P (bs ! ?next)" using k assms by (simp add: find_from_def)
    then have "offset \<noteq> 0" using Some that by (cases offset) (auto simp: position_iff)
    then show ?thesis using Some by (simp add: find_from_def [of "\<lambda>b. \<not> P b"])
  qed
  moreover have "cur < find_from (\<lambda>b. \<not> P b) bs ?next" if "?next = length bs"
    using that assms by (simp add: find_from_def [of "\<lambda>b. \<not> P b"])
  ultimately show ?thesis using ge by force
qed

text \<open>\<open>direct::parse\<close>, with the keys appended so far and the length consumed.\<close>

function direct_parse :: "bytes \<Rightarrow> (nat \<times> nat \<Rightarrow> 'k option) \<Rightarrow> nat \<Rightarrow> ('k \<times> nat \<times> nat) list \<Rightarrow> ('k \<times> nat \<times> nat) list \<times> nat" where
  "direct_parse bs parse_key cur keys =
     (if cur < length bs then
        (let next = find_from is_separator bs cur in
         case parse_key (cur, next) of
           None \<Rightarrow> (keys, cur)
         | Some key \<Rightarrow> direct_parse bs parse_key (find_from (\<lambda>b. \<not> is_separator b) bs next) (keys @ [(key, cur, next)]))
      else (keys, cur))"
  by pat_completeness auto
termination
proof (relation "measure (\<lambda>(bs, _, cur, _). length bs - cur)")
  fix bs :: bytes and parse_key :: "nat \<times> nat \<Rightarrow> 'k option" and cur n :: nat and keys :: "('k \<times> nat \<times> nat) list" and key
  assume "cur < length bs" "n = find_from is_separator bs cur"
  then show "((bs, parse_key, find_from (\<lambda>b. \<not> is_separator b) bs n, keys @ [(key, cur, n)]), bs, parse_key, cur, keys)
      \<in> measure (\<lambda>(bs, _, cur, _). length bs - cur)"
    using find_from_progress [of cur bs is_separator] by auto
qed simp

text \<open>The bytes of the last character of a string.\<close>

definition last_char :: "bytes \<Rightarrow> bytes" where
  "last_char s = (case rposition (\<lambda>b. \<not> (0x80 \<le> b \<and> b < 0xC0)) s of Some i \<Rightarrow> drop i s | None \<Rightarrow> s)"

definition parse_zhuyin_direct_key :: "zhuyin_indexes \<Rightarrow> bytes \<Rightarrow> u32 \<Rightarrow> (syllable_key \<times> u8) option" where
  "parse_zhuyin_direct_key ix segment options =
     (let opts = options AND NOT PINYIN_AMB_ALL in
      if segment = [] then None
      else
        let (tone, body) =
          (if opts AND USE_TONE \<noteq> 0 then
             (case List.find (\<lambda>t. tone_bytes t = last_char segment) [1, 2, 3, 4, 5] of
                Some found \<Rightarrow> (found, take (length segment - length (last_char segment)) segment)
              | None \<Rightarrow> (1, segment))
           else (1, segment)) in
        if body = [] then None
        else map_option (\<lambda>(key, _). (key, tone)) (search_zhuyin_index (zhuyin_pinyin_map ix) body opts))"

definition parse_zhuyin_direct :: "zhuyin_indexes \<Rightarrow> bytes \<Rightarrow> u32 \<Rightarrow> (syllable_key \<times> u8) list" where
  "parse_zhuyin_direct ix input opts =
     map fst (fst (direct_parse input
       (\<lambda>span. Option.bind (str_get input span) (\<lambda>segment. parse_zhuyin_direct_key ix segment opts)) 0 []))"

section \<open>The gate of an index\<close>

definition admitted :: "u32 \<Rightarrow> u32 \<Rightarrow> bool" where
  "admitted opts flags \<longleftrightarrow> (flags AND ZHUYIN_INCOMPLETE \<noteq> 0 \<longrightarrow> opts AND ZHUYIN_INCOMPLETE \<noteq> 0) \<and>
     (flags AND (ZHUYIN_CORRECT_ALL OR PINYIN_AMB_ALL)) AND opts = flags AND (ZHUYIN_CORRECT_ALL OR PINYIN_AMB_ALL)"

text \<open>What the generated indexes guarantee: three valid spans a row in ascending order, and a flag word a row.\<close>

definition index_ok :: "zhuyin_index \<Rightarrow> bool" where
  "index_ok index \<longleftrightarrow> table_width_ok 3 (zi_strings index) \<and> length (zi_flags index) = length (table_rows (zi_strings index))"

lemma gated_key:
  "(if flags AND ZHUYIN_INCOMPLETE \<noteq> 0 \<and> opts AND ZHUYIN_INCOMPLETE = 0 then None
    else let corrections = flags AND (ZHUYIN_CORRECT_ALL OR PINYIN_AMB_ALL) in
      if corrections \<noteq> 0 \<and> corrections AND opts \<noteq> corrections then None else r) =
   (if admitted opts flags then r else None)"
  by (auto simp: admitted_def Let_def)

lemma search_zhuyin_map:
  assumes ok: "index_ok index"
  shows "search_zhuyin_index index zhuyin opts =
    Option.bind (map_of (zi_entries index) zhuyin) (\<lambda>(canonical, pinyin, flags).
      if admitted opts flags then map_option (\<lambda>key. (key, canonical)) (from_canonical_text (map byte_char pinyin)) else None)"
proof -
  let ?t = "zi_strings index" and ?flags = "zi_flags index"
  let ?rows = "table_rows ?t"
  have t: "table_width_ok 3 ?t" "length ?flags = length ?rows" using ok by (simp_all add: index_ok_def)
  note position = table_position_iff [OF t(1), simplified]
  have entries: "zi_entries index = map (\<lambda>i. (resolve ?t (?rows ! i ! 0), resolve ?t (?rows ! i ! 1), resolve ?t (?rows ! i ! 2), ?flags ! i))
      [0..<length ?rows]" (is "_ = map ?entry _")
  proof (intro nth_equalityI)
    fix i assume "i < length (zi_entries index)"
    then have i: "i < length ?rows" using t(2) by (simp add: zi_entries_def table_entries_def)
    then have "length (?rows ! i) = 3" using table_row_bytes(1) [OF t(1) _ nth_mem] by simp
    then show "zi_entries index ! i = map ?entry [0..<length ?rows] ! i"
      using i t(2) by (simp add: zi_entries_def table_entries_def)
  qed (simp add: zi_entries_def table_entries_def t(2))
  have dist: "distinct (map fst (zi_entries index))"
    using position(2) by (simp add: entries comp_def distinct_conv_nth)
  have get: "zi_get index i = Some (?entry i)" if "i < length ?rows" for i
  proof -
    have "length (?rows ! i) = 3" using table_row_bytes(1) [OF t(1) _ nth_mem [OF that]] by simp
    then obtain a b c where "?rows ! i = [a, b, c]" by (auto simp: numeral_3_eq_3 length_Suc_conv)
    then show ?thesis using that t(2) by (simp add: zi_get_def table_get_def get_at_def)
  qed
  show ?thesis
  proof (cases "zi_position index zhuyin")
    case None
    then have "\<not> (\<exists>i < length ?rows. resolve ?t (?rows ! i ! 0) = zhuyin)"
      using position(1) unfolding zi_position_def by (metis option.distinct(1))
    then have "zhuyin \<notin> fst ` set (zi_entries index)" by (auto simp: entries)
    then show ?thesis using None by (simp add: search_zhuyin_index_def map_of_eq_None_iff [THEN iffD2])
  next
    case (Some i)
    then have i: "i < length ?rows" "resolve ?t (?rows ! i ! 0) = zhuyin" using position(1) by (auto simp: zi_position_def)
    then have "(zhuyin, snd (?entry i)) \<in> set (zi_entries index)" by (auto simp: entries intro!: image_eqI [of _ _ i])
    then have "map_of (zi_entries index) zhuyin = Some (snd (?entry i))" using dist by simp
    then show ?thesis using Some get [OF i(1)] i(2) by (simp add: search_zhuyin_index_def gated_key)
  qed
qed

lemma and_agree: "a AND m = b AND m \<Longrightarrow> x AND m = x \<Longrightarrow> x AND a = x AND b" for a b m x :: u32
  by (metis and.assoc and.commute)

lemma search_bits:
  assumes "o1 AND (ZHUYIN_INCOMPLETE OR ZHUYIN_CORRECT_ALL OR PINYIN_AMB_ALL) = o2 AND (ZHUYIN_INCOMPLETE OR ZHUYIN_CORRECT_ALL OR PINYIN_AMB_ALL)"
  shows "search_zhuyin_index index zhuyin o1 = search_zhuyin_index index zhuyin o2"
proof -
  note M = and_agree [OF assms]
  have "ZHUYIN_INCOMPLETE AND o1 = ZHUYIN_INCOMPLETE AND o2"
    by (rule M) (simp add: ZHUYIN_INCOMPLETE_def ZHUYIN_CORRECT_ALL_def PINYIN_AMB_ALL_def)
  moreover have "(flags AND (ZHUYIN_CORRECT_ALL OR PINYIN_AMB_ALL)) AND o1 = (flags AND (ZHUYIN_CORRECT_ALL OR PINYIN_AMB_ALL)) AND o2" for flags
    by (rule M) (simp add: and.assoc ZHUYIN_INCOMPLETE_def ZHUYIN_CORRECT_ALL_def PINYIN_AMB_ALL_def)
  ultimately have "admitted o1 = admitted o2"
    by (simp add: fun_eq_iff admitted_def and.commute)
  then show ?thesis unfolding search_zhuyin_index_def gated_key by (rule arg_cong)
qed

section \<open>The probes and the loop\<close>

lemma spelled_tone: "spelled index zhuyin opts tone = Some (key, canonical, t) \<Longrightarrow> t = tone"
  by (auto simp: spelled_def)

lemma probe_toneless:
  shows "parse_one_zhuyin_key input False opts tables = Some (key, canonical, t) \<Longrightarrow> t = 0"
    and "parse_one_discrete_key input False opts dtables = Some (key, canonical, t) \<Longrightarrow> t = 0"
    and "parse_one_cp26_key ix input False opts ctables = Some (key, canonical, t) \<Longrightarrow> t = 0"
  by (auto simp: parse_one_zhuyin_key_def parse_one_discrete_key_def parse_one_cp26_key_def Let_def bind_eq_Some_conv
      split: if_splits prod.splits dest!: spelled_tone)

text \<open>Whether a keyboard refuses a toneless key: only the discrete ones do so without \<open>USE_TONE\<close>.\<close>

definition forced :: "bool \<Rightarrow> bool \<Rightarrow> keyboard \<Rightarrow> bool" where
  "forced use_tone force_tone kb \<longleftrightarrow> force_tone \<and> (use_tone \<or> (\<exists>tables. kb = Discrete tables))"

lemma keyboard_probe_tone:
  assumes "probe_parse_one_key ix (keyboard_probe use_tone force_tone allow_incomplete kb) s = Some (key, zhuyin, tone)"
  shows "(\<not> use_tone \<longrightarrow> tone = 0) \<and> (forced use_tone force_tone kb \<longrightarrow> tone \<noteq> 0)"
  using assms
  by (cases kb; cases use_tone)
    (auto simp: keyboard_probe_def unless_toneless_def forced_def CHEWING_ZERO_TONE_def
      split: option.splits if_splits prod.splits dest: probe_toneless)

abbreviation zhuyin_key_of :: "(syllable_key \<times> bytes \<times> u8) \<Rightarrow> nat \<Rightarrow> nat \<Rightarrow> zhuyin_key" where
  "zhuyin_key_of m s e \<equiv> \<lparr>zk_key = fst m, zk_start = s, zk_end = e, zk_zhuyin = fst (snd m), zk_tone = snd (snd m)\<rparr>"

abbreviation tone_valid :: "(syllable_key \<times> bytes \<times> u8) \<Rightarrow> bool" where
  "tone_valid m \<equiv> is_valid_zhuyin (fst m) (snd (snd m))"

interpretation zhuyin_greedy: greedy_loop probe tone_valid max_key_len input window zhuyin_key_of
  "zhuyin_loop probe max_key_len input window" for probe max_key_len input window
  by unfold_locales (subst zhuyin_loop.simps, simp split: option.split prod.split)

text \<open>The probes read the option word only through the index.\<close>

lemma probe_bits:
  assumes "o1 AND (ZHUYIN_INCOMPLETE OR ZHUYIN_CORRECT_ALL OR PINYIN_AMB_ALL) = o2 AND (ZHUYIN_INCOMPLETE OR ZHUYIN_CORRECT_ALL OR PINYIN_AMB_ALL)"
  shows "parse_one_zhuyin_key input use_tone o1 tables = parse_one_zhuyin_key input use_tone o2 tables"
    and "parse_one_discrete_key input use_tone o1 dtables = parse_one_discrete_key input use_tone o2 dtables"
    and "parse_one_cp26_key ix input use_tone o1 ctables = parse_one_cp26_key ix input use_tone o2 ctables"
proof -
  have s: "spelled index zhuyin o1 = spelled index zhuyin o2" for index zhuyin
    by (simp add: fun_eq_iff spelled_def search_bits [OF assms])
  show "parse_one_zhuyin_key input use_tone o1 tables = parse_one_zhuyin_key input use_tone o2 tables"
    "parse_one_discrete_key input use_tone o1 dtables = parse_one_discrete_key input use_tone o2 dtables"
    "parse_one_cp26_key ix input use_tone o1 ctables = parse_one_cp26_key ix input use_tone o2 ctables"
    unfolding parse_one_zhuyin_key_def parse_one_discrete_key_def parse_one_cp26_key_def s by (rule refl)+
qed

text \<open>The correction bit a keyboard owns.\<close>

definition owned_bits :: "keyboard \<Rightarrow> u32" where
  "owned_bits kb = (case kb of Simple _ \<Rightarrow> ZHUYIN_CORRECT_SHUFFLE | Discrete tables \<Rightarrow> dis_correction tables | Cp26 _ \<Rightarrow> 0)"

lemmas zhuyin_consts = ZHUYIN_INCOMPLETE_def ZHUYIN_CORRECT_HSU_def ZHUYIN_CORRECT_ETEN26_def ZHUYIN_CORRECT_SHUFFLE_def
  ZHUYIN_CORRECT_ALL_def PINYIN_AMB_ALL_def

lemma owned_bits_correct:
  "keyboard_of ix scheme = Some kb \<Longrightarrow>
     owned_bits kb AND (ZHUYIN_INCOMPLETE OR ZHUYIN_CORRECT_ALL OR PINYIN_AMB_ALL) = owned_bits kb"
  by (cases scheme) (auto simp: keyboard_of_def simple_tables_of_def discrete_tables_of_def cp26_tables_of_def
      owned_bits_def zhuyin_consts)

lemma and_bit: "x AND push_bit n 1 = (if bit x n then push_bit n 1 else 0)" for x :: u32
  by (rule bit_word_eqI) (auto simp: bit_simps)

lemma batch_word:
  assumes kb: "keyboard_of ix scheme = Some kb" and word: "opts AND ZHUYIN_CORRECT_ALL = owned_bits kb"
  shows "(opts AND NOT PINYIN_AMB_ALL) AND (ZHUYIN_INCOMPLETE OR ZHUYIN_CORRECT_ALL OR PINYIN_AMB_ALL) =
    with_incomplete (contains opts ZHUYIN_INCOMPLETE) (owned_bits kb) AND (ZHUYIN_INCOMPLETE OR ZHUYIN_CORRECT_ALL OR PINYIN_AMB_ALL)"
    (is "_ AND ?M = _ AND ?M")
proof -
  have "opts AND ZHUYIN_INCOMPLETE = (if contains opts ZHUYIN_INCOMPLETE then ZHUYIN_INCOMPLETE else 0)"
    using and_bit [of opts 4] unfolding contains_def ZHUYIN_INCOMPLETE_def by presburger
  moreover have "(opts AND NOT PINYIN_AMB_ALL) AND ?M = (opts AND ZHUYIN_INCOMPLETE) OR (opts AND ZHUYIN_CORRECT_ALL)"
  proof -
    have "NOT PINYIN_AMB_ALL AND ?M = ZHUYIN_INCOMPLETE OR ZHUYIN_CORRECT_ALL" by (simp add: zhuyin_consts)
    then show ?thesis by (metis and.assoc bit.conj_disj_distrib)
  qed
  moreover have "with_incomplete (contains opts ZHUYIN_INCOMPLETE) (owned_bits kb) AND ?M =
      with_incomplete (contains opts ZHUYIN_INCOMPLETE) (owned_bits kb)"
    using owned_bits_correct [OF kb] by (simp add: with_incomplete_def bit.conj_disj_distrib2 zhuyin_consts)
  ultimately show ?thesis using word by (simp add: with_incomplete_def or.commute)
qed

section \<open>The direct parse\<close>

lemma find_from_segment:
  assumes "cur \<le> length bs"
  shows "(\<forall>i. cur \<le> i \<and> i < find_from P bs cur \<longrightarrow> \<not> P (bs ! i)) \<and>
    (find_from P bs cur < length bs \<longrightarrow> P (bs ! find_from P bs cur))"
proof (cases "position P (drop cur bs)")
  case None
  then have "\<forall>x \<in> set (drop cur bs). \<not> P x" by (simp add: position_none)
  then have "\<not> P (bs ! i)" if "cur \<le> i" "i < length bs" for i
    using that by (metis add_diff_inverse_nat diff_less_mono leD length_drop nth_drop nth_mem assms)
  then show ?thesis using None by (simp add: find_from_def)
next
  case (Some k)
  then have k: "k < length bs - cur" "P (bs ! (cur + k))" "\<forall>j < k. \<not> P (bs ! (cur + j))"
    using assms by (auto simp: position_iff)
  have "\<not> P (bs ! i)" if "cur \<le> i" "i < cur + k" for i
    using k(3) [rule_format, of "i - cur"] that by simp
  then show ?thesis using Some k by (simp add: find_from_def)
qed

text \<open>A key of a direct parse is a whole segment: it ends at a separator or at the end of the text.\<close>

definition segment :: "bytes \<Rightarrow> nat \<times> nat \<Rightarrow> bool" where
  "segment bs r \<longleftrightarrow> (case r of (s, t) \<Rightarrow> s \<le> t \<and> t \<le> length bs \<and>
     (\<forall>i. s \<le> i \<and> i < t \<longrightarrow> \<not> is_separator (bs ! i)) \<and> (t < length bs \<longrightarrow> is_separator (bs ! t)))"

lemma find_from_is_segment: "cur \<le> length bs \<Longrightarrow> segment bs (cur, find_from is_separator bs cur)"
  using find_from_segment [of cur bs is_separator] find_from_ge [of cur bs is_separator] by (simp add: segment_def)

lemma direct_parse_keys:
  assumes "cur \<le> length bs"
  shows "\<exists>ks e. direct_parse bs parse_key cur keys = (keys @ ks, e) \<and> e \<le> length bs \<and>
    (\<forall>(k, r) \<in> set ks. segment bs r \<and> parse_key r = Some k) \<and> sorted_wrt (\<lambda>(_, a) (_, b). snd a < fst b) ks \<and>
    (\<forall>(_, r) \<in> set ks. cur \<le> fst r \<and> fst r < length bs) \<and> (e < length bs \<longrightarrow> parse_key (e, find_from is_separator bs e) = None)"
  using assms
proof (induction bs parse_key cur keys rule: direct_parse.induct)
  case (1 bs parse_key cur keys)
  let ?next = "find_from is_separator bs cur"
  let ?rest = "find_from (\<lambda>b. \<not> is_separator b) bs ?next"
  show ?case
  proof (cases "cur < length bs \<and> parse_key (cur, ?next) \<noteq> None")
    case True
    then obtain key where key: "parse_key (cur, ?next) = Some key" and cur: "cur < length bs" by auto
    have ge: "cur \<le> ?next" "?next \<le> length bs" using find_from_ge [of cur bs is_separator] cur by auto
    then have rest: "?next \<le> ?rest" "?rest \<le> length bs" using find_from_ge [of ?next bs "\<lambda>b. \<not> is_separator b"] by auto
    from "1.IH" [OF cur refl key] rest(2) obtain ks e where ks:
      "direct_parse bs parse_key ?rest (keys @ [(key, cur, ?next)]) = ((keys @ [(key, cur, ?next)]) @ ks, e)" "e \<le> length bs"
      "\<forall>(k, r) \<in> set ks. segment bs r \<and> parse_key r = Some k" "sorted_wrt (\<lambda>(_, a) (_, b). snd a < fst b) ks"
      "\<forall>(_, r) \<in> set ks. ?rest \<le> fst r \<and> fst r < length bs" "e < length bs \<longrightarrow> parse_key (e, find_from is_separator bs e) = None"
      by blast
    have strict: "?next < ?rest \<or> ?rest = length bs"
    proof (cases "?next < length bs")
      case True
      then have "is_separator (bs ! ?next)" using find_from_segment [of cur bs is_separator] cur by simp
      then have "?rest \<noteq> ?next" using find_from_segment [of ?next bs "\<lambda>b. \<not> is_separator b"] True by auto
      then show ?thesis using rest by simp
    qed (use ge rest in simp)
    have "?next < fst r" if "(k, r) \<in> set ks" for k r
      using ks(5) that strict by fastforce
    then have "sorted_wrt (\<lambda>(_, a) (_, b). snd a < fst b) ((key, cur, ?next) # ks)" using ks(4) by auto
    moreover have "\<forall>(_, r) \<in> set ((key, cur, ?next) # ks). cur \<le> fst r \<and> fst r < length bs"
      using ks(5) ge rest cur by fastforce
    moreover have "\<forall>(k, r) \<in> set ((key, cur, ?next) # ks). segment bs r \<and> parse_key r = Some k"
      using ks(3) key find_from_is_segment [of cur bs] cur by auto
    moreover have "direct_parse bs parse_key cur keys = (keys @ (key, cur, ?next) # ks, e)"
      using ks(1) cur key by (subst direct_parse.simps) (simp add: Let_def)
    ultimately show ?thesis using ks(2,6) by blast
  next
    case False
    then have "direct_parse bs parse_key cur keys = (keys, cur)" by (subst direct_parse.simps) (auto simp: Let_def)
    then show ?thesis using False "1.prems" by auto
  qed
qed

section \<open>Properties\<close>

text \<open>C24: the batch parse of a keyboard under any option word. It always returns: the keys are the greedy walk over
  the prefix of the keyboard's keystrokes, with keys of at most four bytes, twelve on CP26, one after the
  other from the start; it stops where nothing is accepted, and also where the longest match carries a
  tone its syllable does not have, without trying a shorter one. Without \<open>USE_TONE\<close> no key has a tone; under
  \<open>FORCE_TONE\<close> no key is toneless, except that the simple and CP26 keyboards honour it only with \<open>USE_TONE\<close>;
  a discrete keyboard under \<open>FORCE_TONE\<close> alone consumes nothing.\<close>

theorem zhuyin_parse_spec:
  assumes kb: "keyboard_of ix scheme = Some kb" and u: "u = contains opts USE_TONE" and f: "f = contains opts FORCE_TONE"
    and probe: "probe = probe_parse_one_key ix (keyboard_probe u f (contains opts ZHUYIN_INCOMPLETE) kb)"
    and r: "r = zhuyin_parse_with_options ix scheme input opts"
  shows "(\<exists>ms. greedy probe tone_valid (max_key_len_of kb) input (zhuyin_window ix scheme u kb input) 0 ms (zp_consumed r) \<and>
      zp_keys r = map (\<lambda>(m, s, e). zhuyin_key_of m s e) ms \<and> tiles 0 ms (zp_consumed r)) \<and>
    zp_consumed r \<le> zhuyin_window ix scheme u kb input \<and>
    (\<forall>k \<in> set (zp_keys r). is_valid_zhuyin (zk_key k) (zk_tone k) \<and> (\<not> u \<longrightarrow> zk_tone k = 0) \<and>
       (forced u f kb \<longrightarrow> zk_tone k \<noteq> 0)) \<and>
    (forced u f kb \<and> \<not> u \<longrightarrow> zp_keys r = [] \<and> zp_consumed r = 0)"
proof -
  let ?window = "zhuyin_window ix scheme u kb input"
  obtain ms e where walk: "greedy probe tone_valid (max_key_len_of kb) input ?window 0 ms e"
      "zhuyin_loop probe (max_key_len_of kb) input ?window 0 [] = (map (\<lambda>(m, s, e). zhuyin_key_of m s e) ms, e)"
    using zhuyin_greedy.loop_greedy [of probe "max_key_len_of kb" input ?window 0 "[]"] by auto
  then have r: "r = \<lparr>zp_keys = map (\<lambda>(m, s, e). zhuyin_key_of m s e) ms, zp_consumed = e\<rparr>"
    by (simp add: r zhuyin_parse_with_options_def parse_detailed_def kb probe u f)
  have key: "is_valid_zhuyin key tone \<and> (\<not> u \<longrightarrow> tone = 0) \<and> (forced u f kb \<longrightarrow> tone \<noteq> 0)"
    if "((key, zhuyin, tone), s, t) \<in> set ms" for key zhuyin tone s t
    using greedy_members [OF walk(1) that] keyboard_probe_tone [of ix u f "contains opts ZHUYIN_INCOMPLETE" kb _ key zhuyin tone]
    unfolding probe by auto
  have none: "ms = [] \<and> e = 0" if "forced u f kb" "\<not> u"
  proof (rule greedy_nothing [OF _ walk(1)])
    show "probe (take l (drop 0 input)) = None" for l
      using keyboard_probe_tone [of ix u f "contains opts ZHUYIN_INCOMPLETE" kb "take l (drop 0 input)"] that
      unfolding probe by (metis option.exhaust prod_cases3)
  qed
  show ?thesis using walk(1) greedy_tiles [OF walk(1)] greedy_end [OF walk(1)] key none by (fastforce simp: r)
qed

definition no_strings :: string_table where
  "no_strings = \<lparr>table_blob = [], table_rows = []\<rparr>"

definition no_indexes :: zhuyin_indexes where
  "no_indexes = (let index = \<lparr>zi_strings = no_strings, zi_flags = []\<rparr> in
     \<lparr>zhuyin_pinyin_map = index, hsu_zhuyin_index = index, eten26_zhuyin_index = index\<rparr>)"

theorem zhuyin_parse_spec_witness:
  "\<exists>kb. keyboard_of no_indexes Hsu = Some kb \<and> zp_consumed (zhuyin_parse_with_options no_indexes Hsu [0x63, 0x64] FORCE_TONE) = 0"
proof -
  obtain kb where kb: "keyboard_of no_indexes Hsu = Some kb" "\<exists>tables. kb = Discrete tables"
    by (simp add: keyboard_of_def simple_tables_of_def discrete_tables_of_def)
  have "forced (contains FORCE_TONE USE_TONE) (contains FORCE_TONE FORCE_TONE) kb" "\<not> contains FORCE_TONE USE_TONE"
    using kb(2) by (simp_all add: forced_def contains_def option_consts)
  then show ?thesis using zhuyin_parse_spec [OF kb(1) refl refl refl refl, of FORCE_TONE "[0x63, 0x64]"] kb(1) by blast
qed

text \<open>C25: the one-key parse of a keyboard and the probe of its batch parse are the same law, for every input and every
  option word that carries exactly the correction bit the keyboard owns: the one-key parse answers the
  content row of the syllable the probe finds, with the tone it read. The ambiguity bits are without
  effect on both.\<close>

theorem zhuyin_one_key_law:
  assumes kb: "keyboard_of ix scheme = Some kb" and word: "opts AND ZHUYIN_CORRECT_ALL = owned_bits kb"
  shows "zhuyin_parse_one_key content_keys ix scheme opts s =
    Option.bind (probe_parse_one_key ix
        (keyboard_probe (contains opts USE_TONE) (contains opts FORCE_TONE) (contains opts ZHUYIN_INCOMPLETE) kb) s)
      (\<lambda>(key, _, tone). map_option (\<lambda>c. with_tone c tone) (from_pinyin content_keys (syllable_str key)))"
proof -
  note bits = probe_bits [OF batch_word [OF assms]]
  have tone: "contains (opts AND NOT PINYIN_AMB_ALL) USE_TONE = contains opts USE_TONE"
    "contains (opts AND NOT PINYIN_AMB_ALL) FORCE_TONE = contains opts FORCE_TONE"
    by (simp_all add: contains_def and.assoc PINYIN_AMB_ALL_def option_consts)
  show ?thesis
    using bits by (cases kb) (simp_all add: zhuyin_parse_one_key_def Let_def kb tone keyboard_probe_def owned_bits_def)
qed

theorem zhuyin_one_key_law_witness:
  "\<exists>kb. keyboard_of no_indexes DachenCp26 = Some kb \<and>
     zhuyin_parse_one_key [] no_indexes DachenCp26 USE_TONE [0x71, 0x65] =
       Option.bind (probe_parse_one_key no_indexes (keyboard_probe True False False kb) [0x71, 0x65])
         (\<lambda>(key, _, tone). map_option (\<lambda>c. with_tone c tone) (from_pinyin [] (syllable_str key)))"
proof -
  obtain kb where kb: "keyboard_of no_indexes DachenCp26 = Some kb" "owned_bits kb = 0"
    by (simp add: keyboard_of_def simple_tables_of_def discrete_tables_of_def cp26_tables_of_def owned_bits_def)
  have bits: "contains USE_TONE USE_TONE" "\<not> contains USE_TONE FORCE_TONE" "\<not> contains USE_TONE ZHUYIN_INCOMPLETE"
    "USE_TONE AND ZHUYIN_CORRECT_ALL = owned_bits kb"
    by (simp_all add: contains_def option_consts zhuyin_consts kb(2))
  show ?thesis using zhuyin_one_key_law [OF kb(1) bits(4), of "[]" "[0x71, 0x65]"] kb(1) bits by simp
qed

text \<open>The direct parse of a text. Its keys belong to whole segments of the text, in order and apart, each spelling a
  row of the global index that its flags admit, after a tone symbol is taken off; the parse stops at the
  first segment that does not.\<close>

theorem zhuyin_direct_spec:
  assumes "index_ok (zhuyin_pinyin_map ix)"
    and parse: "parse = (\<lambda>r. Option.bind (str_get input r) (\<lambda>seg. parse_zhuyin_direct_key ix seg opts))"
  shows "(\<exists>ks e. parse_zhuyin_direct ix input opts = map fst ks \<and> e \<le> length input \<and>
      (\<forall>(k, r) \<in> set ks. segment input r \<and> parse r = Some k) \<and> sorted_wrt (\<lambda>(_, a) (_, b). snd a < fst b) ks \<and>
      (e < length input \<longrightarrow> parse (e, find_from is_separator input e) = None)) \<and>
    (\<forall>z. search_zhuyin_index (zhuyin_pinyin_map ix) z opts =
      Option.bind (map_of (zi_entries (zhuyin_pinyin_map ix)) z) (\<lambda>(canonical, pinyin, flags).
        if admitted opts flags then map_option (\<lambda>key. (key, canonical)) (from_canonical_text (map byte_char pinyin)) else None))"
  using direct_parse_keys [of 0 input parse "[]"] search_zhuyin_map [OF assms(1)]
  by (auto simp: parse_zhuyin_direct_def parse)

end
