(* ===== verification/FlexGram.thy ===== *)
theory FlexGram
  imports TokenRow RecordCodec
begin

text \<open>
  \<open>crates/oxpinyin-store/src/flexible_ngram.rs\<close>: the training container. One single gram is an array header and
  an item array that ascends by token, kept in memory by the operations below and stored as raw
  host-order bytes, little-endian here; the container keeps one under every token and the magic record
  under a key of its own. The record codecs are a parameter, as in the source; the database backend is an
  argument too. A process that ends (an assertion, an abort or an exit) is \<open>None\<close>.
\<close>

section \<open>Fixed records\<close>

text \<open>The error messages of the source, and \<open>Native\<close> for an error of the backend.\<close>

datatype store_error = RecordLength string nat nat | ValueLength nat nat nat | Native string

record 'a record_codec =
  rec_len :: nat
  rec_zeroed :: 'a
  rec_encode :: "'a \<Rightarrow> bytes"
  rec_decode :: "bytes \<Rightarrow> store_error + 'a"

record ('m, 'h, 'i) gram_spec =
  spec_magic_number :: bytes
  spec_magic :: "'m record_codec"
  spec_header :: "'h record_codec"
  spec_item :: "'i record_codec"

section \<open>The single gram\<close>

record ('h, 'i) flex_gram =
  fg_header :: 'h
  fg_items :: "(u32 \<times> 'i) list"

definition flex_new :: "('m, 'h, 'i) gram_spec \<Rightarrow> ('h, 'i) flex_gram" where
  "flex_new spec = \<lparr>fg_header = rec_zeroed (spec_header spec), fg_items = []\<rparr>"

definition flex_lower_bound :: "('h, 'i) flex_gram \<Rightarrow> u32 \<Rightarrow> nat" where
  "flex_lower_bound g token = partition_point (\<lambda>entry. fst entry < token) (fg_items g)"

definition flex_search :: "('h, 'i) flex_gram \<Rightarrow> u32 \<Rightarrow> u32 \<Rightarrow> (u32 \<times> 'i) list \<Rightarrow> bool \<times> (u32 \<times> 'i) list" where
  "flex_search g range_begin range_end array =
     (True, array @ takeWhile (\<lambda>entry. \<not> range_end \<le> fst entry) (drop (flex_lower_bound g range_begin) (fg_items g)))"

fun get_scan :: "u32 \<Rightarrow> (u32 \<times> 'i) list \<Rightarrow> 'i option" where
  "get_scan token [] = None"
| "get_scan token ((t, item) # rest) =
     (if token < t then None else if t = token then Some item else get_scan token rest)"

definition get_array_item :: "('h, 'i) flex_gram \<Rightarrow> u32 \<Rightarrow> 'i option" where
  "get_array_item g token = get_scan token (drop (flex_lower_bound g token) (fg_items g))"

fun insert_scan :: "(u32 \<times> 'i) list \<Rightarrow> u32 \<Rightarrow> 'i \<Rightarrow> nat \<Rightarrow> (u32 \<times> 'i) list \<Rightarrow> bool \<times> (u32 \<times> 'i) list" where
  "insert_scan items token item index [] = (True, items @ [(token, item)])"
| "insert_scan items token item index ((t, _) # rest) =
     (if token < t then (True, take index items @ (token, item) # drop index items)
      else if t = token then (False, items)
      else insert_scan items token item (Suc index) rest)"

definition insert_array_item :: "('h, 'i) flex_gram \<Rightarrow> u32 \<Rightarrow> 'i \<Rightarrow> bool \<times> ('h, 'i) flex_gram" where
  "insert_array_item g token item =
     (let lb = flex_lower_bound g token;
          (inserted, items) = insert_scan (fg_items g) token item lb (drop lb (fg_items g))
      in (inserted, g\<lparr>fg_items := items\<rparr>))"

fun remove_scan :: "(u32 \<times> 'i) list \<Rightarrow> u32 \<Rightarrow> nat \<Rightarrow> (u32 \<times> 'i) list \<Rightarrow> 'i option \<times> (u32 \<times> 'i) list" where
  "remove_scan items token index [] = (None, items)"
| "remove_scan items token index ((t, item) # rest) =
     (if token < t then (None, items)
      else if t = token then (Some item, take index items @ drop (Suc index) items)
      else remove_scan items token (Suc index) rest)"

definition remove_array_item :: "('h, 'i) flex_gram \<Rightarrow> u32 \<Rightarrow> 'i option \<times> ('h, 'i) flex_gram" where
  "remove_array_item g token =
     (let lb = flex_lower_bound g token;
          (removed, items) = remove_scan (fg_items g) token lb (drop lb (fg_items g))
      in (removed, g\<lparr>fg_items := items\<rparr>))"

fun set_scan :: "(u32 \<times> 'i) list \<Rightarrow> u32 \<Rightarrow> 'i \<Rightarrow> nat \<Rightarrow> (u32 \<times> 'i) list \<Rightarrow> bool \<times> (u32 \<times> 'i) list" where
  "set_scan items token item index [] = (False, items)"
| "set_scan items token item index ((t, _) # rest) =
     (if token < t then (False, items)
      else if t = token then (True, items[index := (t, item)])
      else set_scan items token item (Suc index) rest)"

definition set_array_item :: "('h, 'i) flex_gram \<Rightarrow> u32 \<Rightarrow> 'i \<Rightarrow> bool \<times> ('h, 'i) flex_gram" where
  "set_array_item g token item =
     (let lb = flex_lower_bound g token;
          (found, items) = set_scan (fg_items g) token item lb (drop lb (fg_items g))
      in (found, g\<lparr>fg_items := items\<rparr>))"

section \<open>The stored value\<close>

definition TOKEN_LEN :: nat where
  "TOKEN_LEN = 4"

definition flex_encode_value :: "('m, 'h, 'i) gram_spec \<Rightarrow> 'h \<Rightarrow> (u32 \<times> 'i) list \<Rightarrow> bytes" where
  "flex_encode_value spec header items =
     rec_encode (spec_header spec) header @
     concat (map (\<lambda>(token, item). u32_le token @ rec_encode (spec_item spec) item) items)"

fun flex_decode_items :: "'i record_codec \<Rightarrow> bytes list \<Rightarrow> store_error + (u32 \<times> 'i) list" where
  "flex_decode_items codec [] = Inr []"
| "flex_decode_items codec (r # rs) = (case rec_decode codec (drop TOKEN_LEN r) of
     Inl e \<Rightarrow> Inl e
   | Inr item \<Rightarrow> map_sum id (\<lambda>items. (le_u32 (take TOKEN_LEN r), item) # items) (flex_decode_items codec rs))"

definition flex_decode_value :: "('m, 'h, 'i) gram_spec \<Rightarrow> bytes \<Rightarrow> store_error + ('h, 'i) flex_gram" where
  "flex_decode_value spec v =
     (let header_len = rec_len (spec_header spec); item_len = TOKEN_LEN + rec_len (spec_item spec) in
      if length v < header_len \<or> \<not> item_len dvd (length v - header_len) then Inl (ValueLength (length v) header_len item_len)
      else case rec_decode (spec_header spec) (take header_len v) of
        Inl e \<Rightarrow> Inl e
      | Inr header \<Rightarrow>
          map_sum id (\<lambda>items. \<lparr>fg_header = header, fg_items = items\<rparr>)
            (flex_decode_items (spec_item spec) (chunks item_len (drop header_len v))))"

definition flex_encode :: "('m, 'h, 'i) gram_spec \<Rightarrow> ('h, 'i) flex_gram \<Rightarrow> bytes" where
  "flex_encode spec g = flex_encode_value spec (fg_header g) (fg_items g)"

section \<open>The container\<close>

text \<open>What the container calls of its backend: the two raw reads, the deferred put and remove, and the walk of the keys.\<close>

record 'db backend =
  be_get :: "'db \<Rightarrow> bytes \<Rightarrow> store_error + bytes option"
  be_get_bigram :: "'db \<Rightarrow> bytes \<Rightarrow> store_error + bytes option"
  be_put :: "'db \<Rightarrow> bytes \<Rightarrow> bytes \<Rightarrow> store_error + 'db"
  be_remove :: "'db \<Rightarrow> bytes \<Rightarrow> store_error + bool \<times> 'db"
  be_keys :: "'db \<Rightarrow> store_error + bytes list"

record 'db flexible_bigram =
  fb_db :: "'db option"
  fb_opened :: bool
  fb_attached :: bool
  fb_read_only :: bool

definition MAGIC_KEY :: bytes where
  "MAGIC_KEY = replicate 8 0"

definition MAGIC_NUMBER_LEN :: nat where
  "MAGIC_NUMBER_LEN = 4"

definition matches_magic :: "('m, 'h, 'i) gram_spec \<Rightarrow> bytes \<Rightarrow> bool" where
  "matches_magic spec v \<longleftrightarrow> MAGIC_NUMBER_LEN \<le> length v \<and> take MAGIC_NUMBER_LEN v = spec_magic_number spec"

definition read_value :: "'db backend \<Rightarrow> 'db flexible_bigram \<Rightarrow> bytes \<Rightarrow> store_error + bytes option" where
  "read_value be fb key = (case fb_db fb of None \<Rightarrow> Inr None | Some db \<Rightarrow> be_get be db key)"

definition read_gram :: "'db backend \<Rightarrow> 'db flexible_bigram \<Rightarrow> bytes \<Rightarrow> store_error + bytes option" where
  "read_gram be fb key = (case fb_db fb of None \<Rightarrow> Inr None | Some db \<Rightarrow> be_get_bigram be db key)"

definition write_value :: "'db backend \<Rightarrow> 'db flexible_bigram \<Rightarrow> bytes \<Rightarrow> bytes \<Rightarrow> store_error + bool \<times> 'db flexible_bigram" where
  "write_value be fb key v = (case fb_db fb of
     None \<Rightarrow> Inr (False, fb)
   | Some db \<Rightarrow>
       if fb_read_only fb then Inr (False, fb)
       else map_sum id (\<lambda>db'. (True, fb\<lparr>fb_db := Some db'\<rparr>)) (be_put be db key v))"

definition flex_load ::
    "('m, 'h, 'i) gram_spec \<Rightarrow> 'db backend \<Rightarrow> 'db flexible_bigram \<Rightarrow> u32 \<Rightarrow> store_error + ('h, 'i) flex_gram option" where
  "flex_load spec be fb token = (case read_gram be fb (u32_le token) of
     Inl e \<Rightarrow> Inl e
   | Inr None \<Rightarrow> Inr None
   | Inr (Some v) \<Rightarrow> map_sum id Some (flex_decode_value spec v))"

definition flex_store ::
    "('m, 'h, 'i) gram_spec \<Rightarrow> 'db backend \<Rightarrow> 'db flexible_bigram \<Rightarrow> u32 \<Rightarrow> ('h, 'i) flex_gram \<Rightarrow>
     store_error + bool \<times> 'db flexible_bigram" where
  "flex_store spec be fb token g = write_value be fb (u32_le token) (flex_encode spec g)"

definition flex_remove :: "'db backend \<Rightarrow> 'db flexible_bigram \<Rightarrow> u32 \<Rightarrow> store_error + bool \<times> 'db flexible_bigram" where
  "flex_remove be fb token = (case fb_db fb of
     None \<Rightarrow> Inr (False, fb)
   | Some db \<Rightarrow>
       if fb_read_only fb then Inr (False, fb)
       else map_sum id (\<lambda>(found, db'). (found, fb\<lparr>fb_db := Some db'\<rparr>)) (be_remove be db (u32_le token)))"

definition flex_retrieve_all ::
    "('m, 'h, 'i) gram_spec \<Rightarrow> 'db backend \<Rightarrow> 'db flexible_bigram \<Rightarrow> u32 \<Rightarrow> store_error + (u32 \<times> 'i) list option" where
  "flex_retrieve_all spec be fb token = map_sum id (map_option fg_items) (flex_load spec be fb token)"

text \<open>\<open>get_magic_header\<close> of the default backend.\<close>

definition get_magic_header ::
    "('m, 'h, 'i) gram_spec \<Rightarrow> 'db backend \<Rightarrow> 'db flexible_bigram \<Rightarrow> (store_error + 'm option) option" where
  "get_magic_header spec be fb = (case read_value be fb MAGIC_KEY of
     Inl e \<Rightarrow> Some (Inl e)
   | Inr None \<Rightarrow> Some (Inr None)
   | Inr (Some v) \<Rightarrow>
       if length v \<noteq> MAGIC_NUMBER_LEN + rec_len (spec_magic spec) then
         (if length v \<noteq> MAGIC_NUMBER_LEN then None else Some (Inr None))
       else if \<not> matches_magic spec v then None
       else Some (map_sum id Some (rec_decode (spec_magic spec) (drop MAGIC_NUMBER_LEN v))))"

definition set_magic_header ::
    "('m, 'h, 'i) gram_spec \<Rightarrow> 'db backend \<Rightarrow> 'db flexible_bigram \<Rightarrow> 'm \<Rightarrow> store_error + bool \<times> 'db flexible_bigram" where
  "set_magic_header spec be fb header =
     (if fb_db fb = None \<or> fb_read_only fb then Inr (False, fb)
      else write_value be fb MAGIC_KEY (spec_magic_number spec @ rec_encode (spec_magic spec) header))"

definition get_array_header ::
    "('m, 'h, 'i) gram_spec \<Rightarrow> 'db backend \<Rightarrow> 'db flexible_bigram \<Rightarrow> u32 \<Rightarrow> (store_error + 'h option) option" where
  "get_array_header spec be fb token = (case read_value be fb (u32_le token) of
     Inl e \<Rightarrow> Some (Inl e)
   | Inr None \<Rightarrow> Some (Inr None)
   | Inr (Some v) \<Rightarrow>
       if length v < rec_len (spec_header spec) then None
       else Some (map_sum id Some (rec_decode (spec_header spec) (take (rec_len (spec_header spec)) v))))"

definition set_array_header ::
    "('m, 'h, 'i) gram_spec \<Rightarrow> 'db backend \<Rightarrow> 'db flexible_bigram \<Rightarrow> u32 \<Rightarrow> 'h \<Rightarrow> store_error + bool \<times> 'db flexible_bigram" where
  "set_array_header spec be fb token header =
     (if fb_db fb = None \<or> fb_read_only fb then Inr (False, fb)
      else case read_value be fb (u32_le token) of
        Inl e \<Rightarrow> Inl e
      | Inr stored \<Rightarrow>
          let header_len = rec_len (spec_header spec);
              v = (case stored of Some v \<Rightarrow> v | None \<Rightarrow> []);
              v = (if length v < header_len then resize v header_len 0 else v)
          in write_value be fb (u32_le token) (overwrite v 0 (rec_encode (spec_header spec) header)))"

definition flex_all_items :: "'db backend \<Rightarrow> 'db flexible_bigram \<Rightarrow> u32 list option option" where
  "flex_all_items be fb = (case fb_db fb of
     None \<Rightarrow> Some None
   | Some db \<Rightarrow>
       if \<not> fb_opened fb then Some (Some [])
       else case be_keys be db of
         Inr keys \<Rightarrow> Some (Some (map le_u32 (filter (\<lambda>key. length key = TOKEN_LEN) keys)))
       | Inl _ \<Rightarrow> None)"

definition flex_close :: "'db flexible_bigram \<Rightarrow> 'db flexible_bigram" where
  "flex_close fb = fb\<lparr>fb_db := None\<rparr>"

section \<open>The single gram is a token row\<close>

lemma get_scan_ordered: "ordered rest \<Longrightarrow> get_scan token rest = map_of rest token"
proof (induction token rest rule: get_scan.induct)
  case (2 token t item rest)
  have "token < t \<Longrightarrow> map_of rest token = None"
    using 2(2) by (fastforce simp: ordered_Cons map_of_eq_None_iff)
  then show ?case using 2 by (auto simp: ordered_Cons)
qed simp

lemma lower_bound_split:
  assumes "ordered (fg_items g)"
  shows "drop (flex_lower_bound g token) (fg_items g) = dropWhile (below token) (fg_items g)"
    and "take (flex_lower_bound g token) (fg_items g) = takeWhile (below token) (fg_items g)"
  using std_pp.drop_pp [OF ordered_partitioned [OF assms], of token] std_pp.take_pp [OF ordered_partitioned [OF assms], of token]
  by (simp_all add: flex_lower_bound_def below_def [abs_def])

lemma map_of_takeWhile: "map_of xs token = map_of (dropWhile (below token) xs) token"
  by (induction xs) (auto simp: below_def)

text \<open>After the lower bound the scan decides at its first entry.\<close>

lemma scan_head:
  assumes "ordered (fg_items g)"
  obtains (out) "drop (flex_lower_bound g token) (fg_items g) = []" "token \<notin> fst ` set (fg_items g)"
    | (above) t v rest where "drop (flex_lower_bound g token) (fg_items g) = (t, v) # rest" "token < t" "token \<notin> fst ` set (fg_items g)"
    | (hit) v rest where "drop (flex_lower_bound g token) (fg_items g) = (token, v) # rest" "map_of (fg_items g) token = Some v"
proof (cases "dropWhile (below token) (fg_items g)")
  case Nil
  then have "map_of (fg_items g) token = None" using map_of_takeWhile [of "fg_items g" token] by (simp only: Nil map_of.simps)
  then have "token \<notin> fst ` set (fg_items g)" by (simp add: map_of_eq_None_iff)
  then show ?thesis using out lower_bound_split(1) [OF assms, of token] Nil by metis
next
  case (Cons e rest)
  obtain t v where e: "e = (t, v)" by (cases e)
  have ord: "ordered (e # rest)" using ordered_splits(2) [OF assms, of token] Cons by simp
  have ge: "token \<le> t" using dropWhile_eq_Cons_conv [THEN iffD1, OF Cons] e by (auto simp: below_def)
  show ?thesis
  proof (cases "token = t")
    case True
    then show ?thesis using hit [of v rest] Cons e lower_bound_split(1) [OF assms] map_of_takeWhile [of "fg_items g" token] by simp
  next
    case False
    then have "token < t" using ge by simp
    moreover have "map_of (e # rest) token = None" using ord e \<open>token < t\<close> by (fastforce simp: ordered_Cons map_of_eq_None_iff)
    then have "map_of (fg_items g) token = None" using map_of_takeWhile [of "fg_items g" token] Cons by simp
    ultimately show ?thesis using above [of t v rest] Cons e lower_bound_split(1) [OF assms] by (simp add: map_of_eq_None_iff)
  qed
qed

lemma insert_absent:
  assumes "ordered (fg_items g)" "token \<notin> fst ` set (fg_items g)"
  shows "insert_array_item g token item = (True, g\<lparr>fg_items := oinsert token item (fg_items g)\<rparr>)"
proof -
  let ?lb = "flex_lower_bound g token" and ?items = "fg_items g"
  have split: "take ?lb ?items @ (token, item) # drop ?lb ?items = oinsert token item ?items"
    using lower_bound_split [OF assms(1), of token] by (simp add: oinsert_def)
  from assms(1) show ?thesis
  proof (cases rule: scan_head [where token = token])
    case out
    then have "take ?lb ?items = ?items" using append_take_drop_id [of ?lb ?items] by simp
    then show ?thesis using split out by (simp add: insert_array_item_def Let_def)
  next
    case (hit v rest)
    then show ?thesis using assms(2) by (metis map_of_eq_None_iff option.distinct(1))
  qed (use split in \<open>simp add: insert_array_item_def Let_def\<close>)
qed

lemma set_present:
  assumes ord: "ordered (fg_items g)" and "token \<in> fst ` set (fg_items g)"
  shows "set_array_item g token item = (True, g\<lparr>fg_items := oupdate token item (fg_items g)\<rparr>)"
    and "remove_array_item g token = (map_of (fg_items g) token, g\<lparr>fg_items := oremove token (fg_items g)\<rparr>)"
proof -
  let ?lb = "flex_lower_bound g token" and ?items = "fg_items g"
  obtain v rest where hit: "drop ?lb ?items = (token, v) # rest" "map_of ?items token = Some v"
    using scan_head [OF ord, of token] assms(2) by metis
  define pre where "pre = take ?lb ?items"
  have items: "?items = pre @ (token, v) # rest" using append_take_drop_id [of ?lb ?items] hit(1) by (simp add: pre_def)
  have len: "length pre = ?lb"
    using hit(1) by (metis drop_eq_Nil2 length_take list.distinct(1) min.absorb2 nat_le_linear pre_def)
  have "token \<notin> fst ` set pre" "token \<notin> fst ` set rest"
    using ord ordered_distinct [OF ord] unfolding items by auto
  then have "oupdate token item pre = pre" "oupdate token item rest = rest" "oremove token pre = pre" "oremove token rest = rest"
    by (auto simp: oupdate_def oremove_absent intro!: map_idI) (force simp: image_iff)+
  then have "oupdate token item ?items = pre @ (token, item) # rest" "oremove token ?items = pre @ rest"
    by (simp_all add: items oupdate_def oremove_append oremove_Cons)
  moreover have "?items[?lb := (token, item)] = pre @ (token, item) # rest" "take ?lb ?items @ drop (Suc ?lb) ?items = pre @ rest"
    by (simp_all add: items len [symmetric])
  ultimately show "set_array_item g token item = (True, g\<lparr>fg_items := oupdate token item ?items\<rparr>)"
    "remove_array_item g token = (map_of ?items token, g\<lparr>fg_items := oremove token ?items\<rparr>)"
    using hit by (simp_all add: set_array_item_def remove_array_item_def Let_def)
qed

interpretation flex_row: token_row fg_items "\<lambda>g. ordered (fg_items g)" "\<lambda>_. True" get_array_item insert_array_item set_array_item
  remove_array_item
proof (unfold_locales, goal_cases)
  case (2 g t)
  then show ?case
    using get_scan_ordered [OF ordered_splits(2) [OF 2, of t]] map_of_takeWhile [of "fg_items g" t] lower_bound_split(1) [OF 2, of t]
    by (simp add: get_array_item_def)
next
  case (3 g t v)
  then show ?case
    by (elim scan_head [of g t]) (auto simp: insert_array_item_def Let_def)
next
  case (4 g t v)
  then show ?case using insert_absent [OF 4(1,3)] ordered_oinsert [OF 4(1,3)] by simp
next
  case (5 g t v)
  then show ?case using set_present(1) [OF 5] by (simp add: ordered_oupdate)
next
  case (6 g t v)
  then show ?case
    by (elim scan_head [of g t]) (auto simp: set_array_item_def Let_def dest: map_of_SomeD intro: rev_image_eqI)
next
  case (7 g t)
  then show ?case using set_present(2) [OF 7] by (simp add: ordered_oremove)
next
  case (8 g t)
  then show ?case
    by (elim scan_head [of g t]) (auto simp: remove_array_item_def Let_def dest: map_of_SomeD intro: rev_image_eqI)
qed

lemma flex_search_range:
  fixes g :: "('h, 'i) flex_gram"
  assumes "ordered (fg_items g)"
  shows "flex_search g a b array = (True, array @ filter (\<lambda>entry. a \<le> fst entry \<and> fst entry < b) (fg_items g))"
proof -
  have "takeWhile (\<lambda>entry. \<not> b \<le> fst entry) (dropWhile (below a) xs) = filter (\<lambda>entry. a \<le> fst entry \<and> fst entry < b) xs"
    if "ordered xs" for xs :: "(u32 \<times> 'i) list"
    using that
  proof (induction xs)
    case (Cons x xs)
    have stop: "takeWhile (\<lambda>entry. \<not> b \<le> fst entry) xs = filter (\<lambda>entry. a \<le> fst entry \<and> fst entry < b) xs" if "a \<le> fst x"
    proof -
      have "dropWhile (below a) xs = xs" using Cons.prems that by (cases xs) (auto simp: ordered_Cons below_def)
      then show ?thesis using Cons by (simp add: ordered_Cons)
    qed
    have none: "filter (\<lambda>entry. a \<le> fst entry \<and> fst entry < b) xs = []" if "b \<le> fst x"
      using Cons.prems that by (auto simp: filter_empty_conv ordered_Cons)
    show ?case
    proof (cases "fst x < a")
      case True
      then show ?thesis using Cons by (simp add: below_def ordered_Cons not_le)
    next
      case False
      then show ?thesis using stop none by (auto simp: below_def not_le)
    qed
  qed simp
  then show ?thesis using assms lower_bound_split(1) [OF assms] by (simp add: flex_search_def)
qed

section \<open>The value codec\<close>

text \<open>What a record codec promises: a zero of the format, the length, and that decoding inverts encoding on that length.\<close>

definition codec_ok :: "'a record_codec \<Rightarrow> bool" where
  "codec_ok c \<longleftrightarrow> (\<forall>a. length (rec_encode c a) = rec_len c \<and> rec_decode c (rec_encode c a) = Inr a)"

lemma decode_items_encoded:
  assumes "codec_ok codec"
  shows "flex_decode_items codec (map (\<lambda>(token, item). u32_le token @ rec_encode codec item) items) = Inr items"
  using assms by (induction items) (auto simp: codec_ok_def TOKEN_LEN_def)

lemma flex_value_codec:
  assumes "codec_ok (spec_header spec)" "codec_ok (spec_item spec)"
  shows "flex_decode_value spec (flex_encode spec g) = Inr g"
proof -
  let ?n = "TOKEN_LEN + rec_len (spec_item spec)"
  let ?rows = "map (\<lambda>(token, item). u32_le token @ rec_encode (spec_item spec) item) (fg_items g)"
  have h: "length (rec_encode (spec_header spec) (fg_header g)) = rec_len (spec_header spec)"
    "rec_decode (spec_header spec) (rec_encode (spec_header spec) (fg_header g)) = Inr (fg_header g)"
    using assms(1) by (auto simp: codec_ok_def)
  have rows: "\<forall>b \<in> set ?rows. length b = ?n" using assms(2) by (auto simp: codec_ok_def TOKEN_LEN_def)
  have pos: "0 < ?n" by (simp add: TOKEN_LEN_def)
  then have chunked: "chunks ?n (concat ?rows) = ?rows" using chunks_concat(1) [OF pos rows, of "[]"] by simp
  have "?n dvd length (concat ?rows)" using length_concat_const [OF rows] by simp
  then show ?thesis
    using h chunked decode_items_encoded [OF assms(2), of "fg_items g"]
    by (cases g) (simp add: flex_decode_value_def flex_encode_def flex_encode_value_def Let_def)
qed

end
