(* ===== verification/KMixture.thy ===== *)
theory KMixture
  imports FlexGram
begin

text \<open>
  The k-mixture model of \<open>crates/oxpinyin-kmm/src\<close>: its three record types (\<open>records.rs\<close>), the container handle with
  the aborts at the reference's check sites (\<open>database.rs\<close>), the merge of two models (\<open>merge.rs\<close>) and the
  validation of one (\<open>validate.rs\<close>). The diagnostics that are printed are left out. A process that ends is
  \<open>None\<close>. The arithmetic is on \<open>u32\<close> and wraps; the invariant below keeps the counts that the
  code checks from wrapping.
\<close>

section \<open>Records\<close>

record kmm_magic =
  km_wc :: u32
  km_n :: u32
  km_total_freq :: u32

record kmm_header =
  kh_wc :: u32
  kh_freq :: u32

record kmm_item =
  ki_wc :: u32
  ki_n_n_0 :: u32
  ki_n_1 :: u32
  ki_mr :: u32

definition kmm_words :: "nat \<Rightarrow> bytes \<Rightarrow> u32 list" where
  "kmm_words n bs = map (\<lambda>i. le_u32 (take 4 (drop (i * 4) bs))) [0..<n]"

definition magic_codec :: "kmm_magic record_codec" where
  "magic_codec =
     \<lparr>rec_len = 12, rec_zeroed = \<lparr>km_wc = 0, km_n = 0, km_total_freq = 0\<rparr>,
      rec_encode = (\<lambda>r. u32_le (km_wc r) @ u32_le (km_n r) @ u32_le (km_total_freq r)),
      rec_decode = (\<lambda>bs. if length bs \<noteq> 12 then Inl (RecordLength ''k mixture magic header'' (length bs) 12)
        else let w = kmm_words 3 bs in Inr \<lparr>km_wc = w ! 0, km_n = w ! 1, km_total_freq = w ! 2\<rparr>)\<rparr>"

definition header_codec :: "kmm_header record_codec" where
  "header_codec =
     \<lparr>rec_len = 8, rec_zeroed = \<lparr>kh_wc = 0, kh_freq = 0\<rparr>,
      rec_encode = (\<lambda>r. u32_le (kh_wc r) @ u32_le (kh_freq r)),
      rec_decode = (\<lambda>bs. if length bs \<noteq> 8 then Inl (RecordLength ''k mixture array header'' (length bs) 8)
        else let w = kmm_words 2 bs in Inr \<lparr>kh_wc = w ! 0, kh_freq = w ! 1\<rparr>)\<rparr>"

definition item_codec :: "kmm_item record_codec" where
  "item_codec =
     \<lparr>rec_len = 16, rec_zeroed = \<lparr>ki_wc = 0, ki_n_n_0 = 0, ki_n_1 = 0, ki_mr = 0\<rparr>,
      rec_encode = (\<lambda>r. u32_le (ki_wc r) @ u32_le (ki_n_n_0 r) @ u32_le (ki_n_1 r) @ u32_le (ki_mr r)),
      rec_decode = (\<lambda>bs. if length bs \<noteq> 16 then Inl (RecordLength ''k mixture array item'' (length bs) 16)
        else let w = kmm_words 4 bs in Inr \<lparr>ki_wc = w ! 0, ki_n_n_0 = w ! 1, ki_n_1 = w ! 2, ki_mr = w ! 3\<rparr>)\<rparr>"

definition KMMP :: bytes where
  "KMMP = [0x4B, 0x4D, 0x4D, 0x50]"

definition kmm_spec :: "(kmm_magic, kmm_header, kmm_item) gram_spec" where
  "kmm_spec = \<lparr>spec_magic_number = KMMP, spec_magic = magic_codec, spec_header = header_codec, spec_item = item_codec\<rparr>"

type_synonym kmm_gram = "(kmm_header, kmm_item) flex_gram"

section \<open>The handle\<close>

definition db_get_magic_header :: "'db backend \<Rightarrow> 'db flexible_bigram \<Rightarrow> kmm_magic option option" where
  "db_get_magic_header be fb = map_option (\<lambda>r. case r of Inr h \<Rightarrow> h | Inl _ \<Rightarrow> None) (get_magic_header kmm_spec be fb)"

definition magic_header_checked :: "'db backend \<Rightarrow> 'db flexible_bigram \<Rightarrow> kmm_magic option" where
  "magic_header_checked be fb = Option.bind (db_get_magic_header be fb) id"

definition set_magic_header_checked :: "'db backend \<Rightarrow> 'db flexible_bigram \<Rightarrow> kmm_magic \<Rightarrow> 'db flexible_bigram option" where
  "set_magic_header_checked be fb header = (case set_magic_header kmm_spec be fb header of
     Inr (True, fb') \<Rightarrow> Some fb' | _ \<Rightarrow> None)"

definition db_all_items :: "'db backend \<Rightarrow> 'db flexible_bigram \<Rightarrow> u32 list option" where
  "db_all_items be fb = map_option (\<lambda>r. case r of Some tokens \<Rightarrow> tokens | None \<Rightarrow> []) (flex_all_items be fb)"

definition db_load :: "'db backend \<Rightarrow> 'db flexible_bigram \<Rightarrow> u32 \<Rightarrow> kmm_gram option" where
  "db_load be fb token = (case flex_load kmm_spec be fb token of Inr g \<Rightarrow> g | Inl _ \<Rightarrow> None)"

text \<open>\<open>load_checked\<close> aborts where \<open>load\<close> has no row, so both have the same answer here.\<close>

definition load_checked :: "'db backend \<Rightarrow> 'db flexible_bigram \<Rightarrow> u32 \<Rightarrow> kmm_gram option" where
  "load_checked be fb token = db_load be fb token"

definition db_store :: "'db backend \<Rightarrow> 'db flexible_bigram \<Rightarrow> u32 \<Rightarrow> kmm_gram \<Rightarrow> 'db flexible_bigram" where
  "db_store be fb token g = (case flex_store kmm_spec be fb token g of Inr (_, fb') \<Rightarrow> fb' | Inl _ \<Rightarrow> fb)"

definition array_header_checked :: "'db backend \<Rightarrow> 'db flexible_bigram \<Rightarrow> u32 \<Rightarrow> kmm_header option" where
  "array_header_checked be fb token = (case get_array_header kmm_spec be fb token of Some (Inr h) \<Rightarrow> h | _ \<Rightarrow> None)"

section \<open>Merging\<close>

definition kmm_sum_items :: "kmm_item \<Rightarrow> kmm_item \<Rightarrow> kmm_item" where
  "kmm_sum_items a b =
     \<lparr>ki_wc = ki_wc a + ki_wc b, ki_n_n_0 = ki_n_n_0 a + ki_n_n_0 b, ki_n_1 = ki_n_1 a + ki_n_1 b, ki_mr = max (ki_mr a) (ki_mr b)\<rparr>"

fun merge_two_phrase_array :: "(u32 \<times> kmm_item) list \<Rightarrow> (u32 \<times> kmm_item) list \<Rightarrow> (u32 \<times> kmm_item) list" where
  "merge_two_phrase_array ((s, a) # first) ((t, b) # second) =
     (if t < s then (t, b) # merge_two_phrase_array ((s, a) # first) second
      else if s < t then (s, a) # merge_two_phrase_array first ((t, b) # second)
      else (s, kmm_sum_items a b) # merge_two_phrase_array first second)"
| "merge_two_phrase_array first [] = first"
| "merge_two_phrase_array [] second = second"

definition merge_headers :: "kmm_header \<Rightarrow> kmm_header \<Rightarrow> kmm_header" where
  "merge_headers a b = \<lparr>kh_wc = kh_wc a + kh_wc b, kh_freq = kh_freq a + kh_freq b\<rparr>"

text \<open>Inserting the merged items into a fresh gram; a refused insert aborts.\<close>

fun insert_items :: "kmm_gram \<Rightarrow> (u32 \<times> kmm_item) list \<Rightarrow> kmm_gram option" where
  "insert_items g [] = Some g"
| "insert_items g ((token, item) # rest) =
     (case insert_array_item g token item of (True, g') \<Rightarrow> insert_items g' rest | (False, _) \<Rightarrow> None)"

definition merge_grams :: "kmm_gram \<Rightarrow> kmm_gram \<Rightarrow> kmm_gram option" where
  "merge_grams target new =
     map_option (\<lambda>g. g\<lparr>fg_header := merge_headers (fg_header target) (fg_header new)\<rparr>)
       (insert_items (flex_new kmm_spec) (merge_two_phrase_array (fg_items target) (fg_items new)))"

fun merge_kmm_rows :: "'db backend \<Rightarrow> 'db flexible_bigram \<Rightarrow> u32 list \<Rightarrow> 'db flexible_bigram \<Rightarrow> 'db flexible_bigram option" where
  "merge_kmm_rows be new_one [] target = Some target"
| "merge_kmm_rows be new_one (token # tokens) target =
     Option.bind (load_checked be new_one token) (\<lambda>new.
       case db_load be target token of
         None \<Rightarrow> merge_kmm_rows be new_one tokens (db_store be target token new)
       | Some old \<Rightarrow> Option.bind (merge_grams old new) (\<lambda>merged.
           merge_kmm_rows be new_one tokens (db_store be target token merged)))"

definition merge_array_items :: "'db backend \<Rightarrow> 'db flexible_bigram \<Rightarrow> 'db flexible_bigram \<Rightarrow> 'db flexible_bigram option" where
  "merge_array_items be target new_one = Option.bind (db_all_items be new_one) (\<lambda>tokens. merge_kmm_rows be new_one tokens target)"

definition merge_magic_header :: "'db backend \<Rightarrow> 'db flexible_bigram \<Rightarrow> 'db flexible_bigram \<Rightarrow> (bool \<times> 'db flexible_bigram) option" where
  "merge_magic_header be target new_one =
     Option.bind (db_get_magic_header be target) (\<lambda>found.
     Option.bind (magic_header_checked be new_one) (\<lambda>b.
       let a = (case found of Some h \<Rightarrow> h | None \<Rightarrow> rec_zeroed magic_codec) in
       if km_wc a + km_wc b < max (km_wc a) (km_wc b) then Some (False, target)
       else if km_total_freq a + km_total_freq b < max (km_total_freq a) (km_total_freq b) then Some (False, target)
       else map_option (\<lambda>fb. (True, fb)) (set_magic_header_checked be target
         \<lparr>km_wc = km_wc a + km_wc b, km_n = km_n a + km_n b, km_total_freq = km_total_freq a + km_total_freq b\<rparr>)))"

definition merge_two_k_mixture_model ::
    "'db backend \<Rightarrow> 'db flexible_bigram \<Rightarrow> 'db flexible_bigram \<Rightarrow> (bool \<times> 'db flexible_bigram) option" where
  "merge_two_k_mixture_model be target new_one =
     Option.bind (merge_array_items be target new_one) (\<lambda>target'. merge_magic_header be target' new_one)"

section \<open>Validating\<close>

fun header_sums :: "'db backend \<Rightarrow> 'db flexible_bigram \<Rightarrow> u32 list \<Rightarrow> u32 \<times> u32 \<Rightarrow> (u32 \<times> u32) option" where
  "header_sums be fb [] s = Some s"
| "header_sums be fb (token # tokens) s =
     Option.bind (array_header_checked be fb token) (\<lambda>h. header_sums be fb tokens (fst s + kh_wc h, snd s + kh_freq h))"

definition validate_unigram :: "'db backend \<Rightarrow> 'db flexible_bigram \<Rightarrow> bool option" where
  "validate_unigram be fb = (case db_get_magic_header be fb of
     None \<Rightarrow> None
   | Some None \<Rightarrow> Some False
   | Some (Some magic) \<Rightarrow>
       if km_wc magic = 0 \<or> km_total_freq magic = 0 \<or> km_wc magic \<noteq> km_total_freq magic then Some False
       else Option.bind (db_all_items be fb) (\<lambda>tokens.
         map_option (\<lambda>(word_count, total_freq). word_count = km_wc magic \<and> total_freq = km_total_freq magic)
           (header_sums be fb tokens (0, 0))))"

definition row_valid :: "kmm_gram \<Rightarrow> bool" where
  "row_valid g =
     (let expected = kh_wc (fg_header g); s = fold (\<lambda>(_, item) s. s + ki_wc item) (fg_items g) 0 in
      if expected = 0 \<and> kh_freq (fg_header g) \<noteq> 0 then fg_items g = []
      else \<not> expected = 0 \<and> s = expected)"

fun rows_valid :: "'db backend \<Rightarrow> 'db flexible_bigram \<Rightarrow> u32 list \<Rightarrow> bool \<Rightarrow> bool option" where
  "rows_valid be fb [] result = Some result"
| "rows_valid be fb (token # tokens) result =
     Option.bind (load_checked be fb token) (\<lambda>g. rows_valid be fb tokens (result \<and> row_valid g))"

definition validate_bigram :: "'db backend \<Rightarrow> 'db flexible_bigram \<Rightarrow> bool option" where
  "validate_bigram be fb = Option.bind (db_all_items be fb) (\<lambda>tokens. rows_valid be fb tokens True)"

section \<open>The codecs\<close>

lemma kmm_words_encoded:
  "kmm_words 2 (u32_le a @ u32_le b) = [a, b]" "kmm_words 3 (u32_le a @ u32_le b @ u32_le c) = [a, b, c]"
  "kmm_words 4 (u32_le a @ u32_le b @ u32_le c @ u32_le d) = [a, b, c, d]"
  by (simp_all add: kmm_words_def upt_rec del: le_bytes.simps)

lemma kmm_codecs: "codec_ok magic_codec" "codec_ok header_codec" "codec_ok item_codec"
  by (simp_all add: codec_ok_def magic_codec_def header_codec_def item_codec_def kmm_words_encoded del: le_bytes.simps)

section \<open>What a container holds\<close>

text \<open>The documented behaviour of a backend, over the mapping \<open>view\<close> it stores: reads answer what is stored, a put
  succeeds and stores, the walk lists every key once.\<close>

definition backend_ok :: "'db backend \<Rightarrow> ('db \<Rightarrow> bytes \<Rightarrow> bytes option) \<Rightarrow> bool" where
  "backend_ok be view \<longleftrightarrow>
     (\<forall>db k. be_get be db k = Inr (view db k) \<and> be_get_bigram be db k = Inr (view db k)) \<and>
     (\<forall>db k v. \<exists>db'. be_put be db k v = Inr db' \<and> view db' = (view db)(k \<mapsto> v)) \<and>
     (\<forall>db. \<exists>ks. be_keys be db = Inr ks \<and> distinct ks \<and> set ks = dom (view db))"

type_synonym kmm_rows = "u32 \<Rightarrow> kmm_gram option"

definition holds :: "('db \<Rightarrow> bytes \<Rightarrow> bytes option) \<Rightarrow> 'db flexible_bigram \<Rightarrow> kmm_magic \<Rightarrow> kmm_rows \<Rightarrow> bool" where
  "holds view fb magic rows \<longleftrightarrow> (\<exists>db. fb_db fb = Some db \<and> fb_opened fb \<and>
     view db MAGIC_KEY = Some (KMMP @ rec_encode magic_codec magic) \<and>
     (\<forall>t. view db (u32_le t) = map_option (flex_encode kmm_spec) (rows t)))"

lemma u32_le_not_magic: "u32_le t \<noteq> MAGIC_KEY"
proof
  assume "u32_le t = MAGIC_KEY"
  then have "length (u32_le t) = length MAGIC_KEY" by (rule arg_cong)
  then show False by (simp add: MAGIC_KEY_def del: le_bytes.simps)
qed

lemma header_len: "length (rec_encode header_codec h) = 8"
  using kmm_codecs(2) by (simp add: codec_ok_def header_codec_def del: le_bytes.simps)

lemma kmm_value: "flex_decode_value kmm_spec (flex_encode kmm_spec g) = Inr g"
  by (rule flex_value_codec) (simp_all add: kmm_spec_def kmm_codecs)

lemma kmm_value_header: "take 8 (flex_encode kmm_spec g) = rec_encode header_codec (fg_header g)" "8 \<le> length (flex_encode kmm_spec g)"
  by (simp_all add: flex_encode_def flex_encode_value_def kmm_spec_def header_len)

lemma magic_value:
  "length (KMMP @ rec_encode magic_codec m) = MAGIC_NUMBER_LEN + rec_len magic_codec"
  "rec_decode magic_codec (rec_encode magic_codec m) = Inr m"
  using kmm_codecs(1) by (simp_all add: codec_ok_def KMMP_def MAGIC_NUMBER_LEN_def)

lemma holds_magic:
  assumes be: "backend_ok be view" and "holds view fb magic rows"
  shows "db_get_magic_header be fb = Some (Some magic)"
proof -
  have "read_value be fb MAGIC_KEY = Inr (Some (KMMP @ rec_encode magic_codec magic))"
    using assms by (auto simp: holds_def read_value_def backend_ok_def)
  moreover have "matches_magic kmm_spec (KMMP @ rec_encode magic_codec magic)"
    by (simp add: matches_magic_def kmm_spec_def KMMP_def MAGIC_NUMBER_LEN_def)
  moreover have "drop MAGIC_NUMBER_LEN (KMMP @ rec_encode magic_codec magic) = rec_encode magic_codec magic"
    by (simp add: KMMP_def MAGIC_NUMBER_LEN_def)
  ultimately show ?thesis
    using magic_value by (simp add: db_get_magic_header_def get_magic_header_def kmm_spec_def)
qed

lemma holds_load:
  assumes "backend_ok be view" "holds view fb magic rows"
  shows "db_load be fb t = rows t"
  using assms
  by (auto simp: holds_def db_load_def flex_load_def read_gram_def backend_ok_def kmm_value split: option.split)

lemma holds_header:
  assumes "backend_ok be view" "holds view fb magic rows"
  shows "array_header_checked be fb t = map_option fg_header (rows t)"
proof -
  have "read_value be fb (u32_le t) = Inr (map_option (flex_encode kmm_spec) (rows t))"
    using assms by (auto simp: holds_def read_value_def backend_ok_def)
  moreover have "rec_decode header_codec (rec_encode header_codec h) = Inr h" for h using kmm_codecs(2) by (simp add: codec_ok_def)
  moreover have "rec_len (spec_header kmm_spec) = 8" "spec_header kmm_spec = header_codec" by (simp_all add: kmm_spec_def header_codec_def)
  ultimately show ?thesis
    using kmm_value_header by (cases "rows t") (simp_all add: array_header_checked_def get_array_header_def linorder_not_le [symmetric])
qed

lemma holds_write:
  assumes "backend_ok be view" "fb_db fb = Some db" "\<not> fb_read_only fb"
  obtains db' where "write_value be fb key v = Inr (True, fb\<lparr>fb_db := Some db'\<rparr>)" "view db' = (view db)(key \<mapsto> v)"
  using assms by (force simp: write_value_def backend_ok_def)

lemma holds_store:
  assumes "backend_ok be view" "holds view fb magic rows" "\<not> fb_read_only fb"
  shows "holds view (db_store be fb t g) magic (rows(t \<mapsto> g)) \<and> \<not> fb_read_only (db_store be fb t g)"
proof -
  obtain db where db: "fb_db fb = Some db" "fb_opened fb" "view db MAGIC_KEY = Some (KMMP @ rec_encode magic_codec magic)"
      "\<And>t. view db (u32_le t) = map_option (flex_encode kmm_spec) (rows t)"
    using assms(2) by (auto simp: holds_def)
  obtain db' where "write_value be fb (u32_le t) (flex_encode kmm_spec g) = Inr (True, fb\<lparr>fb_db := Some db'\<rparr>)"
      "view db' = (view db)(u32_le t \<mapsto> flex_encode kmm_spec g)"
    by (rule holds_write [OF assms(1) db(1) assms(3)])
  then show ?thesis using db assms(3) u32_le_not_magic [symmetric] by (auto simp: db_store_def flex_store_def holds_def)
qed

lemma holds_set_magic:
  assumes "backend_ok be view" "holds view fb magic rows" "\<not> fb_read_only fb"
  shows "\<exists>fb'. set_magic_header_checked be fb m = Some fb' \<and> holds view fb' m rows \<and> \<not> fb_read_only fb'"
proof -
  obtain db where db: "fb_db fb = Some db" "fb_opened fb" "\<And>t. view db (u32_le t) = map_option (flex_encode kmm_spec) (rows t)"
    using assms(2) by (auto simp: holds_def)
  obtain db' where "write_value be fb MAGIC_KEY (KMMP @ rec_encode magic_codec m) = Inr (True, fb\<lparr>fb_db := Some db'\<rparr>)"
      "view db' = (view db)(MAGIC_KEY \<mapsto> KMMP @ rec_encode magic_codec m)"
    by (rule holds_write [OF assms(1) db(1) assms(3)])
  then show ?thesis using db assms(3) u32_le_not_magic
    by (auto simp: set_magic_header_checked_def set_magic_header_def kmm_spec_def holds_def)
qed

lemma holds_items:
  assumes be: "backend_ok be view" and "holds view fb magic rows"
  shows "\<exists>ts. db_all_items be fb = Some ts \<and> distinct ts \<and> set ts = dom rows"
proof -
  obtain db where db: "fb_db fb = Some db" "fb_opened fb" "\<And>t. view db (u32_le t) = map_option (flex_encode kmm_spec) (rows t)"
    using assms(2) by (auto simp: holds_def)
  obtain ks where ks: "be_keys be db = Inr ks" "distinct ks" "set ks = dom (view db)"
    using be unfolding backend_ok_def by blast
  let ?ts = "map le_u32 (filter (\<lambda>key. length key = TOKEN_LEN) ks)"
  have inj: "inj_on le_u32 {key. length key = TOKEN_LEN}"
    by (rule inj_on_inverseI [of _ u32_le]) (simp add: TOKEN_LEN_def)
  then have "distinct ?ts" using ks(2) by (auto simp: distinct_map intro: inj_on_subset)
  moreover have "set ?ts = dom rows"
  proof (intro equalityI subsetI)
    fix t assume "t \<in> set ?ts"
    then obtain k where "k \<in> dom (view db)" "length k = 4" "t = le_u32 k" using ks(3) by (auto simp: TOKEN_LEN_def)
    then have "u32_le t \<in> dom (view db)" by simp
    then show "t \<in> dom rows" using db(3) by (simp add: dom_def)
  next
    fix t assume "t \<in> dom rows"
    then have "u32_le t \<in> set ks" using db(3) ks(3) by (auto simp: dom_def)
    then show "t \<in> set ?ts" by (force simp: TOKEN_LEN_def intro!: image_eqI [of _ _ "u32_le t"])
  qed
  moreover have "db_all_items be fb = Some ?ts" using db(1,2) ks(1) by (simp add: db_all_items_def flex_all_items_def)
  ultimately show ?thesis by blast
qed

section \<open>Merging rows\<close>

definition combine_rows :: "('a \<Rightarrow> 'a \<Rightarrow> 'a) \<Rightarrow> 'a option \<Rightarrow> 'a option \<Rightarrow> 'a option" where
  "combine_rows f a b = (case (a, b) of (Some x, Some y) \<Rightarrow> Some (f x y) | (None, _) \<Rightarrow> b | (_, None) \<Rightarrow> a)"

lemma combine_simps [simp]:
  "combine_rows f None b = b" "combine_rows f a None = a" "combine_rows f (Some x) (Some y) = Some (f x y)"
  by (auto simp: combine_rows_def split: option.split)

lemma merge_array_keys: "fst ` set (merge_two_phrase_array xs ys) = fst ` set xs \<union> fst ` set ys"
  by (induction xs ys rule: merge_two_phrase_array.induct) auto

lemma merge_array_ordered: "ordered xs \<Longrightarrow> ordered ys \<Longrightarrow> ordered (merge_two_phrase_array xs ys)"
proof (induction xs ys rule: merge_two_phrase_array.induct)
  case (1 s a first t b second)
  have above: "k < fst e" if "ordered ((k, v) # zs)" "e \<in> set zs" for k v zs and e :: "u32 \<times> kmm_item"
    using that by (simp add: ordered_Cons)
  have mem: "fst e \<in> fst ` set p \<union> fst ` set q" if "e \<in> set (merge_two_phrase_array p q)" for e p q
    using merge_array_keys [of p q] that by blast
  consider "t < s" | "s < t" | "s = t" by fastforce
  then show ?case
  proof cases
    case 1
    then show ?thesis using "1.IH"(1) "1.prems" mem by (fastforce simp: ordered_Cons)
  next
    case 2
    then show ?thesis using "1.IH"(2) "1.prems" mem by (fastforce simp: ordered_Cons)
  next
    case 3
    then show ?thesis using "1.IH"(3) "1.prems" mem by (fastforce simp: ordered_Cons)
  qed
qed simp_all

lemma merge_array_map:
  "ordered xs \<Longrightarrow> ordered ys \<Longrightarrow> map_of (merge_two_phrase_array xs ys) t = combine_rows kmm_sum_items (map_of xs t) (map_of ys t)"
proof (induction xs ys rule: merge_two_phrase_array.induct)
  case (1 s a first t' b second)
  have below: "map_of zs k = None" if "ordered ((j, v) # zs)" "k \<le> j" for j v zs and k :: u32
    using that by (fastforce simp: ordered_Cons map_of_eq_None_iff)
  consider "t' < s" | "s < t'" | "s = t'" by fastforce
  then show ?case
  proof cases
    case 1
    moreover have "map_of ((s, a) # first) t' = None" using below [OF "1.prems"(1), of t'] 1 by simp
    ultimately show ?thesis using "1.IH"(1) "1.prems" by (auto simp: ordered_Cons)
  next
    case 2
    moreover have "map_of ((t', b) # second) s = None" using below [OF "1.prems"(2), of s] 2 by simp
    ultimately show ?thesis using "1.IH"(2) "1.prems" by (auto simp: ordered_Cons)
  next
    case 3
    then show ?thesis using "1.IH"(3) "1.prems" by (auto simp: ordered_Cons)
  qed
qed simp_all

text \<open>The counts of an item array, over the integers.\<close>

definition count_sum :: "(u32 \<times> kmm_item) list \<Rightarrow> nat" where
  "count_sum xs = (\<Sum>(_, item) \<leftarrow> xs. unat (ki_wc item))"

lemma count_sum_simps [simp]: "count_sum [] = 0" "count_sum ((t, item) # xs) = unat (ki_wc item) + count_sum xs"
  by (simp_all add: count_sum_def)

lemma unat_u32: "unat w < 2 ^ 32" for w :: u32
  using unsigned_less [of w] by simp

lemma unat_no_wrap: "unat a + unat b < 2 ^ 32 \<Longrightarrow> unat (a + b) = unat a + unat b" for a b :: u32
  by (simp add: unat_word_ariths)

lemma merge_array_count:
  "count_sum xs + count_sum ys < 2 ^ 32 \<Longrightarrow> count_sum (merge_two_phrase_array xs ys) = count_sum xs + count_sum ys"
proof (induction xs ys rule: merge_two_phrase_array.induct)
  case (1 s a first t b second)
  have "unat (ki_wc a + ki_wc b) = unat (ki_wc a) + unat (ki_wc b)" if "s = t" using "1.prems" by (intro unat_no_wrap) simp
  then show ?case using "1.IH" "1.prems" by (auto simp: kmm_sum_items_def)
qed simp_all

lemma insert_items_ordered: "ordered (fg_items g @ rest) \<Longrightarrow> insert_items g rest = Some (g\<lparr>fg_items := fg_items g @ rest\<rparr>)"
proof (induction rest arbitrary: g)
  case (Cons e rest)
  obtain t v where e: "e = (t, v)" by (cases e)
  have below: "\<forall>x \<in> set (fg_items g). fst x < t" and ord: "ordered (fg_items g)"
    using Cons.prems by (auto simp: e ordered_append)
  then have all: "takeWhile (below t) (fg_items g) = fg_items g" "dropWhile (below t) (fg_items g) = []"
    by (simp_all add: below_def)
  have "t \<notin> fst ` set (fg_items g)" using below by fastforce
  then have "insert_array_item g t v = (True, g\<lparr>fg_items := fg_items g @ [e]\<rparr>)"
    using insert_absent [OF ord] all by (simp add: oinsert_def e)
  then show ?case using Cons.IH [of "g\<lparr>fg_items := fg_items g @ [e]\<rparr>"] Cons.prems by (simp add: e)
qed simp

definition joined :: "kmm_gram \<Rightarrow> kmm_gram \<Rightarrow> kmm_gram" where
  "joined g h = \<lparr>fg_header = merge_headers (fg_header g) (fg_header h), fg_items = merge_two_phrase_array (fg_items g) (fg_items h)\<rparr>"

lemma merge_grams_joined: "ordered (fg_items g) \<Longrightarrow> ordered (fg_items h) \<Longrightarrow> merge_grams g h = Some (joined g h)"
  using insert_items_ordered [of "flex_new kmm_spec"] merge_array_ordered [of "fg_items g" "fg_items h"]
  by (simp add: merge_grams_def joined_def flex_new_def)

lemma merge_kmm_rows_combine:
  assumes be: "backend_ok be view" and new: "holds view new b new_rows"
    and ord: "\<And>t g. new_rows t = Some g \<Longrightarrow> ordered (fg_items g)"
  shows "holds view target a rows \<Longrightarrow> \<not> fb_read_only target \<Longrightarrow> distinct ts \<Longrightarrow> set ts \<subseteq> dom new_rows \<Longrightarrow>
    (\<And>t g. rows t = Some g \<Longrightarrow> ordered (fg_items g)) \<Longrightarrow>
    \<exists>target'. merge_kmm_rows be new ts target = Some target' \<and> \<not> fb_read_only target' \<and>
      holds view target' a (\<lambda>t. if t \<in> set ts then combine_rows joined (rows t) (new_rows t) else rows t)"
proof (induction ts arbitrary: target rows)
  case (Cons t ts)
  obtain h where h: "new_rows t = Some h" using Cons.prems(4) by auto
  define g where "g = (case rows t of None \<Rightarrow> h | Some old \<Rightarrow> joined old h)"
  let ?target = "db_store be target t g"
  have g: "rows(t \<mapsto> g) = rows(t := combine_rows joined (rows t) (new_rows t))" using h by (auto simp: g_def split: option.split)
  note store = holds_store [OF be Cons.prems(1,2), of t g]
  have "ordered (fg_items g)"
    using ord [OF h] Cons.prems(5) merge_array_ordered by (auto simp: g_def joined_def split: option.split)
  then have keep: "ordered (fg_items k)" if "(rows(t \<mapsto> g)) u = Some k" for u k
    using that Cons.prems(5) by (auto split: if_splits)
  have ts: "distinct ts" "set ts \<subseteq> dom new_rows" using Cons.prems(3,4) by auto
  have "\<exists>target'. merge_kmm_rows be new ts ?target = Some target' \<and> \<not> fb_read_only target' \<and>
      holds view target' a (\<lambda>u. if u \<in> set ts then combine_rows joined ((rows(t \<mapsto> g)) u) (new_rows u) else (rows(t \<mapsto> g)) u)"
    by (rule Cons.IH [OF conjunct1 [OF store] conjunct2 [OF store] ts keep])
  moreover have "merge_kmm_rows be new (t # ts) target = merge_kmm_rows be new ts ?target"
    using h holds_load [OF be new, of t] holds_load [OF be Cons.prems(1), of t] merge_grams_joined ord [OF h] Cons.prems(5)
    by (auto simp: load_checked_def g_def split: option.split)
  moreover have "(\<lambda>u. if u \<in> set ts then combine_rows joined ((rows(t \<mapsto> g)) u) (new_rows u) else (rows(t \<mapsto> g)) u) =
      (\<lambda>u. if u \<in> set (t # ts) then combine_rows joined (rows u) (new_rows u) else rows u)"
    using Cons.prems(3) unfolding g by (auto simp: fun_eq_iff)
  ultimately show ?case by simp
qed simp

section \<open>Consistent models\<close>

definition kmm_row_ok :: "kmm_gram \<Rightarrow> bool" where
  "kmm_row_ok g \<longleftrightarrow> ordered (fg_items g) \<and> count_sum (fg_items g) = unat (kh_wc (fg_header g)) \<and>
     (kh_wc (fg_header g) = 0 \<longrightarrow> fg_items g = [] \<and> kh_freq (fg_header g) \<noteq> 0)"

definition total :: "(kmm_header \<Rightarrow> u32) \<Rightarrow> kmm_rows \<Rightarrow> nat" where
  "total f rows = (\<Sum>t \<in> dom rows. unat (f (fg_header (the (rows t)))))"

text \<open>The sums that validation checks, over the integers: nothing has wrapped.\<close>

definition model_ok :: "kmm_magic \<Rightarrow> kmm_rows \<Rightarrow> bool" where
  "model_ok magic rows \<longleftrightarrow> finite (dom rows) \<and> (\<forall>t g. rows t = Some g \<longrightarrow> kmm_row_ok g) \<and>
     total kh_wc rows = unat (km_wc magic) \<and> total kh_freq rows = unat (km_total_freq magic) \<and>
     km_wc magic = km_total_freq magic \<and> km_wc magic \<noteq> 0"

definition amount :: "(kmm_header \<Rightarrow> u32) \<Rightarrow> kmm_gram option \<Rightarrow> nat" where
  "amount f r = (case r of None \<Rightarrow> 0 | Some g \<Rightarrow> unat (f (fg_header g)))"

lemma total_over: "finite D \<Longrightarrow> dom rows \<subseteq> D \<Longrightarrow> total f rows = (\<Sum>t \<in> D. amount f (rows t))"
  unfolding total_def by (rule sum.mono_neutral_cong_left) (auto simp: amount_def dom_def split: option.split)

lemma amount_le_total: "finite (dom rows) \<Longrightarrow> amount f (rows t) \<le> total f rows"
  using total_over [of "insert t (dom rows)" rows f] member_le_sum [of t "insert t (dom rows)" "\<lambda>t. amount f (rows t)"]
  by (simp add: subset_insertI)

lemma combine_dom: "dom (\<lambda>t. combine_rows f (r t) (s t)) = dom r \<union> dom s"
  by (auto simp: combine_rows_def dom_def split: option.splits)

lemma total_combine:
  assumes fin: "finite (dom r)" "finite (dom s)" and bound: "total f r + total f s < 2 ^ 32"
    and f: "\<And>a b. f (merge_headers a b) = f a + f b"
  shows "total f (\<lambda>t. combine_rows joined (r t) (s t)) = total f r + total f s"
proof -
  let ?D = "dom r \<union> dom s"
  have "amount f (combine_rows joined (r t) (s t)) = amount f (r t) + amount f (s t)" for t
  proof (cases "r t"; cases "s t")
    fix g h assume gh: "r t = Some g" "s t = Some h"
    have "unat (f (fg_header g)) + unat (f (fg_header h)) < 2 ^ 32"
      using amount_le_total [OF fin(1), of f t] amount_le_total [OF fin(2), of f t] bound gh by (simp add: amount_def)
    then show ?thesis using gh by (simp add: amount_def joined_def f unat_no_wrap)
  qed (simp_all add: amount_def)
  then have "total f (\<lambda>t. combine_rows joined (r t) (s t)) = (\<Sum>t \<in> ?D. amount f (r t) + amount f (s t))"
    using total_over [of ?D "\<lambda>t. combine_rows joined (r t) (s t)" f] fin by (simp add: combine_dom)
  also have "\<dots> = total f r + total f s" using total_over [of ?D r f] total_over [of ?D s f] fin by (simp add: sum.distrib)
  finally show ?thesis .
qed

lemma merge_array_Nil: "merge_two_phrase_array xs ys = [] \<longleftrightarrow> xs = [] \<and> ys = []"
  by (induction xs ys rule: merge_two_phrase_array.induct) auto

lemma row_ok_joined:
  assumes "kmm_row_ok g" "kmm_row_ok h" and wc: "unat (kh_wc (fg_header g)) + unat (kh_wc (fg_header h)) < 2 ^ 32"
    and freq: "unat (kh_freq (fg_header g)) + unat (kh_freq (fg_header h)) < 2 ^ 32"
  shows "kmm_row_ok (joined g h)"
proof -
  have w: "unat (kh_wc (fg_header g) + kh_wc (fg_header h)) = unat (kh_wc (fg_header g)) + unat (kh_wc (fg_header h))"
    and f: "unat (kh_freq (fg_header g) + kh_freq (fg_header h)) = unat (kh_freq (fg_header g)) + unat (kh_freq (fg_header h))"
    using wc freq by (simp_all add: unat_no_wrap)
  have "fg_items g = [] \<and> fg_items h = [] \<and> kh_freq (fg_header g) + kh_freq (fg_header h) \<noteq> 0"
    if zero: "kh_wc (fg_header g) + kh_wc (fg_header h) = 0"
  proof -
    have "unat (kh_wc (fg_header g)) = 0" "unat (kh_wc (fg_header h)) = 0" using w unfolding zero by simp_all
    then have z: "kh_wc (fg_header g) = 0" "kh_wc (fg_header h) = 0" by (simp_all add: unat_eq_0)
    then have "unat (kh_freq (fg_header g)) \<noteq> 0" using assms(1) by (simp add: kmm_row_ok_def unat_eq_0)
    then have "unat (kh_freq (fg_header g) + kh_freq (fg_header h)) \<noteq> 0" using f by simp
    then show ?thesis using z assms(1,2) by (auto simp: kmm_row_ok_def)
  qed
  moreover have "count_sum (fg_items g) + count_sum (fg_items h) < 2 ^ 32" using assms by (simp add: kmm_row_ok_def)
  ultimately show ?thesis
    using assms w merge_array_count merge_array_ordered by (auto simp: kmm_row_ok_def joined_def merge_headers_def)
qed

definition merged_magic :: "kmm_magic \<Rightarrow> kmm_magic \<Rightarrow> kmm_magic" where
  "merged_magic a b = \<lparr>km_wc = km_wc a + km_wc b, km_n = km_n a + km_n b, km_total_freq = km_total_freq a + km_total_freq b\<rparr>"

lemma model_ok_merged:
  assumes a: "model_ok a r" and b: "model_ok b s" and bound: "unat (km_wc a) + unat (km_wc b) < 2 ^ 32"
  shows "model_ok (merged_magic a b) (\<lambda>t. combine_rows joined (r t) (s t))"
proof -
  have fin: "finite (dom r)" "finite (dom s)" using a b by (simp_all add: model_ok_def)
  have wc: "total kh_wc r + total kh_wc s < 2 ^ 32" and freq: "total kh_freq r + total kh_freq s < 2 ^ 32"
    using a b bound by (simp_all add: model_ok_def)
  have "kmm_row_ok k" if k: "combine_rows joined (r t) (s t) = Some k" for t k
  proof (cases "r t"; cases "s t")
    fix g h assume gh: "r t = Some g" "s t = Some h"
    have "unat (kh_wc (fg_header g)) + unat (kh_wc (fg_header h)) < 2 ^ 32"
      "unat (kh_freq (fg_header g)) + unat (kh_freq (fg_header h)) < 2 ^ 32"
      using amount_le_total [OF fin(1), of kh_wc t] amount_le_total [OF fin(2), of kh_wc t] wc
        amount_le_total [OF fin(1), of kh_freq t] amount_le_total [OF fin(2), of kh_freq t] freq gh by (simp_all add: amount_def)
    then show ?thesis using row_ok_joined [of g h] a b gh k by (simp add: model_ok_def)
  qed (use a b k in \<open>auto simp: model_ok_def\<close>)
  moreover have "unat (km_wc a + km_wc b) = unat (km_wc a) + unat (km_wc b)" using bound by (rule unat_no_wrap)
  moreover have "unat (km_wc a) \<noteq> 0" using a by (auto simp: model_ok_def unat_eq_0)
  ultimately have "km_wc a + km_wc b \<noteq> 0" by (metis add_is_0 unat_0)
  then show ?thesis
    using \<open>unat (km_wc a + km_wc b) = _\<close> \<open>\<And>t k. combine_rows joined (r t) (s t) = Some k \<Longrightarrow> kmm_row_ok k\<close> fin a b
      total_combine [OF fin wc] total_combine [OF fin freq]
    by (simp add: model_ok_def merged_magic_def combine_dom merge_headers_def)
qed

section \<open>Validation\<close>

lemma fold_count: "fold (\<lambda>(_, item) s. s + ki_wc item) xs w = w + of_nat (count_sum xs)"
  by (induction xs arbitrary: w) (auto simp: algebra_simps)

lemma row_ok_valid: "kmm_row_ok g \<Longrightarrow> row_valid g"
  by (auto simp: kmm_row_ok_def row_valid_def Let_def fold_count)

lemma header_sums_holds:
  assumes "backend_ok be view" "holds view fb magic rows" "set ts \<subseteq> dom rows"
  shows "header_sums be fb ts (w, f) = Some
    (w + of_nat (\<Sum>t \<leftarrow> ts. unat (kh_wc (fg_header (the (rows t))))), f + of_nat (\<Sum>t \<leftarrow> ts. unat (kh_freq (fg_header (the (rows t))))))"
  using assms(3)
proof (induction ts arbitrary: w f)
  case (Cons t ts)
  then obtain g where "rows t = Some g" by auto
  then show ?case using Cons holds_header [OF assms(1,2), of t] by (simp add: algebra_simps)
qed simp

lemma rows_valid_holds:
  assumes "backend_ok be view" "holds view fb magic rows" "\<And>t g. rows t = Some g \<Longrightarrow> kmm_row_ok g" "set ts \<subseteq> dom rows"
  shows "rows_valid be fb ts result = Some result"
  using assms(4)
proof (induction ts arbitrary: result)
  case (Cons t ts)
  then obtain g where "rows t = Some g" by auto
  then show ?case using Cons holds_load [OF assms(1,2), of t] row_ok_valid [OF assms(3)] by (simp add: load_checked_def)
qed simp

lemma model_ok_validates:
  assumes be: "backend_ok be view" and h: "holds view fb magic rows" and ok: "model_ok magic rows"
  shows "validate_unigram be fb = Some True" "validate_bigram be fb = Some True"
proof -
  obtain ts where ts: "db_all_items be fb = Some ts" "distinct ts" "set ts = dom rows" using holds_items [OF be h] by blast
  have "(\<Sum>t \<leftarrow> ts. unat (f (fg_header (the (rows t))))) = total f rows" for f
    using ts(2,3) by (simp add: sum_list_distinct_conv_sum_set total_def)
  then have sums: "header_sums be fb ts (0, 0) = Some (km_wc magic, km_total_freq magic)"
    using header_sums_holds [OF be h, of ts 0 0] ts(3) ok by (simp add: model_ok_def)
  show "validate_unigram be fb = Some True"
    using sums ts(1) holds_magic [OF be h] ok by (auto simp: validate_unigram_def model_ok_def)
  show "validate_bigram be fb = Some True"
    using ts rows_valid_holds [OF be h, of ts True] ok by (simp add: validate_bigram_def model_ok_def)
qed

section \<open>Properties\<close>

lemma overflow_test: "a + b < max a b \<longleftrightarrow> 2 ^ 32 \<le> unat a + unat b" for a b :: u32
proof (cases "unat a + unat b < 2 ^ 32")
  case True
  then have "a \<le> a + b" "b \<le> a + b" by (simp_all add: word_le_nat_alt unat_no_wrap)
  then show ?thesis using True by (simp add: max_def not_less)
next
  case False
  have b: "unat a < 2 ^ 32" "unat b < 2 ^ 32" by (rule unat_u32)+
  then have "unat (a + b) = unat a + unat b - 2 ^ 32"
    using False by (simp add: unat_word_ariths mod_if)
  then have "a + b < a" using b False by (simp add: word_less_nat_alt)
  then show ?thesis using False by (simp add: less_max_iff_disj)
qed

text \<open>The rows of a merged model, field by field. The three counts of an item and the two of a header are added
  as \<open>u32\<close>, the largest count of one document is the larger; a token of one side only keeps its item, a
  row of one side only is kept whole. Items stay in ascending token order, so the map determines them.\<close>

definition summed_items :: "kmm_item option \<Rightarrow> kmm_item option \<Rightarrow> kmm_item option \<Rightarrow> bool" where
  "summed_items x y z \<longleftrightarrow> (case (x, y) of
     (Some a, Some b) \<Rightarrow> z = Some \<lparr>ki_wc = ki_wc a + ki_wc b, ki_n_n_0 = ki_n_n_0 a + ki_n_n_0 b,
       ki_n_1 = ki_n_1 a + ki_n_1 b, ki_mr = (if ki_mr a \<le> ki_mr b then ki_mr b else ki_mr a)\<rparr>
   | (None, _) \<Rightarrow> z = y
   | (_, None) \<Rightarrow> z = x)"

definition summed_rows :: "kmm_gram option \<Rightarrow> kmm_gram option \<Rightarrow> kmm_gram option \<Rightarrow> bool" where
  "summed_rows x y z \<longleftrightarrow> (case (x, y) of
     (Some g, Some h) \<Rightarrow> \<exists>k. z = Some k \<and>
       kh_wc (fg_header k) = kh_wc (fg_header g) + kh_wc (fg_header h) \<and> kh_freq (fg_header k) = kh_freq (fg_header g) + kh_freq (fg_header h) \<and>
       ordered (fg_items k) \<and> (\<forall>u. summed_items (map_of (fg_items g) u) (map_of (fg_items h) u) (map_of (fg_items k) u))
   | (None, _) \<Rightarrow> z = y
   | (_, None) \<Rightarrow> z = x)"

lemma summed_combine:
  assumes "\<And>g. x = Some g \<Longrightarrow> ordered (fg_items g)" "\<And>h. y = Some h \<Longrightarrow> ordered (fg_items h)"
  shows "summed_rows x y (combine_rows joined x y)"
proof (cases x; cases y)
  fix g h assume gh: "x = Some g" "y = Some h"
  note ord = assms(1) [OF gh(1)] assms(2) [OF gh(2)]
  have "summed_items a b (combine_rows kmm_sum_items a b)" for a b
    by (auto simp: summed_items_def kmm_sum_items_def max_def split: option.split)
  then show ?thesis
    using merge_array_ordered [OF ord] merge_array_map [OF ord] by (simp add: gh summed_rows_def joined_def merge_headers_def)
qed (simp_all add: summed_rows_def)

text \<open>In consistent models whose word counts fit, the checked counts do not wrap.\<close>

definition no_wrap :: "kmm_gram \<Rightarrow> kmm_gram \<Rightarrow> bool" where
  "no_wrap g h \<longleftrightarrow> unat (kh_wc (fg_header g)) + unat (kh_wc (fg_header h)) < 2 ^ 32 \<and>
     unat (kh_freq (fg_header g)) + unat (kh_freq (fg_header h)) < 2 ^ 32 \<and>
     (\<forall>u a b. map_of (fg_items g) u = Some a \<and> map_of (fg_items h) u = Some b \<longrightarrow> unat (ki_wc a) + unat (ki_wc b) < 2 ^ 32)"

lemma count_sum_member: "map_of xs u = Some a \<Longrightarrow> unat (ki_wc a) \<le> count_sum xs"
  by (induction xs) (auto split: if_splits)

lemma model_ok_no_wrap:
  assumes ok: "model_ok a r" "model_ok b s" and fits: "unat (km_wc a) + unat (km_wc b) < 2 ^ 32" and gh: "r t = Some g" "s t = Some h"
  shows "no_wrap g h"
proof -
  have "finite (dom r)" "finite (dom s)" using ok by (simp_all add: model_ok_def)
  then have "unat (f (fg_header g)) \<le> total f r" "unat (f (fg_header h)) \<le> total f s" for f
    using amount_le_total [of r f t] amount_le_total [of s f t] gh by (simp_all add: amount_def)
  then have le: "unat (f (fg_header g)) + unat (f (fg_header h)) \<le> total f r + total f s" for f by (simp add: add_mono)
  have wc: "unat (kh_wc (fg_header g)) + unat (kh_wc (fg_header h)) < 2 ^ 32"
    and freq: "unat (kh_freq (fg_header g)) + unat (kh_freq (fg_header h)) < 2 ^ 32"
    using le [of kh_wc] le [of kh_freq] ok fits by (simp_all add: model_ok_def)
  have "count_sum (fg_items g) = unat (kh_wc (fg_header g))" "count_sum (fg_items h) = unat (kh_wc (fg_header h))"
    using ok gh by (simp_all add: model_ok_def kmm_row_ok_def)
  then have "unat (ki_wc x) + unat (ki_wc y) < 2 ^ 32" if "map_of (fg_items g) u = Some x" "map_of (fg_items h) u = Some y" for u x y
    using count_sum_member [OF that(1)] count_sum_member [OF that(2)] wc by linarith
  then show ?thesis using wc freq unfolding no_wrap_def by blast
qed

text \<open>C28: merging one consistent k-mixture model into another. The program neither aborts nor exits: every row of the
  source is folded into the target, adding headers and the items of common tokens field by field (the
  largest count of a document is the larger one) and keeping the rest. When the word counts fit, the merge
  answers true, no word count or frequency of a header or item wraps, the target is a consistent model of
  the sums and both validators accept it; otherwise it answers false, with the rows already merged and the
  magic header as it was. The document counts are not checked by the code and are added modulo \<open>2 ^ 32\<close>.\<close>

theorem merge_keeps_valid:
  assumes be: "backend_ok be view" and target: "holds view target a r" "\<not> fb_read_only target" and new: "holds view new b s"
    and ok: "model_ok a r" "model_ok b s" and fits: "fits \<longleftrightarrow> unat (km_wc a) + unat (km_wc b) < 2 ^ 32"
  shows "\<exists>target' rows. merge_two_k_mixture_model be target new = Some (fits, target') \<and>
    holds view target' (if fits then merged_magic a b else a) rows \<and> (\<forall>t. summed_rows (r t) (s t) (rows t)) \<and>
    (fits \<longrightarrow> (\<forall>t g h. r t = Some g \<and> s t = Some h \<longrightarrow> no_wrap g h) \<and> model_ok (merged_magic a b) rows \<and>
       validate_unigram be target' = Some True \<and> validate_bigram be target' = Some True)"
proof -
  let ?rows = "\<lambda>t. combine_rows joined (r t) (s t)"
  obtain ts where ts: "db_all_items be new = Some ts" "distinct ts" "set ts = dom s" using holds_items [OF be new] by blast
  have ord: "ordered (fg_items g)" if "r t = Some g \<or> s t = Some g" for t g
    using ok that by (auto simp: model_ok_def kmm_row_ok_def)
  have "(\<lambda>t. if t \<in> set ts then combine_rows joined (r t) (s t) else r t) = ?rows"
    using ts(3) by (auto simp: fun_eq_iff domIff)
  moreover have "\<exists>target'. merge_kmm_rows be new ts target = Some target' \<and> \<not> fb_read_only target' \<and>
      holds view target' a (\<lambda>t. if t \<in> set ts then combine_rows joined (r t) (s t) else r t)"
    using ts(2,3) ord by (intro merge_kmm_rows_combine [OF be new _ target]) auto
  ultimately obtain merged where m: "merge_array_items be target new = Some merged" "\<not> fb_read_only merged" "holds view merged a ?rows"
    using ts(1) by (auto simp: merge_array_items_def)
  obtain final where d: "set_magic_header_checked be merged (merged_magic a b) = Some final" "holds view final (merged_magic a b) ?rows"
    using holds_set_magic [OF be m(3,2)] by blast
  have equal: "km_total_freq a = km_wc a" "km_total_freq b = km_wc b" using ok by (simp_all add: model_ok_def)
  have magic: "merge_magic_header be merged new = Some (if fits then (True, final) else (False, merged))"
    using holds_magic [OF be m(3)] holds_magic [OF be new] d(1) fits
    by (simp add: merge_magic_header_def magic_header_checked_def overflow_test equal merged_magic_def not_le)
  have rows: "\<forall>t. summed_rows (r t) (s t) (?rows t)" using ord by (intro allI summed_combine) blast+
  show ?thesis
  proof (cases fits)
    case True
    then have "model_ok (merged_magic a b) ?rows" using model_ok_merged [OF ok] fits by simp
    moreover have "\<forall>t g h. r t = Some g \<and> s t = Some h \<longrightarrow> no_wrap g h" using model_ok_no_wrap [OF ok] fits True by blast
    ultimately show ?thesis
      using magic m(1) d(2) True rows model_ok_validates [OF be d(2)]
      by (intro exI [of _ final] exI [of _ ?rows]) (simp add: merge_two_k_mixture_model_def)
  next
    case False
    then show ?thesis
      using magic m rows by (intro exI [of _ merged] exI [of _ ?rows]) (simp add: merge_two_k_mixture_model_def)
  qed
qed

text \<open>An association list is a backend.\<close>

definition list_backend :: "(bytes \<times> bytes) list backend" where
  "list_backend =
     \<lparr>be_get = (\<lambda>db k. Inr (map_of db k)), be_get_bigram = (\<lambda>db k. Inr (map_of db k)),
      be_put = (\<lambda>db k v. Inr ((k, v) # db)),
      be_remove = (\<lambda>db k. Inr (k \<in> fst ` set db, filter (\<lambda>e. fst e \<noteq> k) db)),
      be_keys = (\<lambda>db. Inr (remdups (map fst db)))\<rparr>"

lemma list_backend_ok: "backend_ok list_backend map_of"
  by (simp add: backend_ok_def list_backend_def dom_map_of_conv_image_fst)

definition list_model :: "bool \<Rightarrow> kmm_magic \<Rightarrow> (u32 \<times> kmm_gram) list \<Rightarrow> (bytes \<times> bytes) list flexible_bigram" where
  "list_model read_only magic rows =
     \<lparr>fb_db = Some ((MAGIC_KEY, KMMP @ rec_encode magic_codec magic) # map (\<lambda>(t, g). (u32_le t, flex_encode kmm_spec g)) rows),
      fb_opened = True, fb_attached = True, fb_read_only = read_only\<rparr>"

lemma list_model_holds: "holds map_of (list_model read_only magic rows) magic (map_of rows)"
proof -
  have "(u32_le s = u32_le t) = (s = t)" for s t :: u32 by (metis u32_codec)
  then have "map_of (map (\<lambda>(t, g). (u32_le t, flex_encode kmm_spec g)) rows) (u32_le t) = map_option (flex_encode kmm_spec) (map_of rows t)" for t
    by (induction rows) auto
  then show ?thesis using u32_le_not_magic by (simp add: holds_def list_model_def)
qed

definition small_gram :: kmm_gram where
  "small_gram = \<lparr>fg_header = \<lparr>kh_wc = 3, kh_freq = 3\<rparr>, fg_items = [(7, \<lparr>ki_wc = 3, ki_n_n_0 = 1, ki_n_1 = 0, ki_mr = 3\<rparr>)]\<rparr>"

definition small_magic :: kmm_magic where
  "small_magic = \<lparr>km_wc = 3, km_n = 1, km_total_freq = 3\<rparr>"

lemma small_model_ok: "model_ok small_magic (map_of [(t, small_gram)])"
  by (auto simp: model_ok_def kmm_row_ok_def ordered_Cons total_def small_gram_def small_magic_def)

theorem merge_keeps_valid_witness:
  "\<exists>target'. merge_two_k_mixture_model list_backend (list_model False small_magic [(5, small_gram)])
      (list_model True small_magic [(5, small_gram)]) = Some (True, target') \<and>
    validate_unigram list_backend target' = Some True \<and> validate_bigram list_backend target' = Some True"
  using merge_keeps_valid [OF list_backend_ok list_model_holds _ list_model_holds small_model_ok small_model_ok refl,
      of False 5 True 5]
  by (auto simp: small_magic_def list_model_def)

end
