(* ===== verification/ArenaTable.thy ===== *)
theory ArenaTable
  imports ChewingKey RecordCodec "HOL-Library.List_Lexorder"
begin

text \<open>
  The storage that \<open>user_index.rs\<close> and \<open>user_phrase_table.rs\<close> of \<open>crates/oxpinyin-user/src\<close> share, each in its own copy:
  an append-only arena of records with a sorted offset vector, and an ordered overlay of the records a
  session has edited. The readers of the arena are total here; \<open>inside\<close> says that their slices lie inside it,
  which is when the code does not panic, and it is part of the invariant. A BTreeMap is an association
  list in ascending key order, and byte strings are ordered as slices are, lexicographically.
\<close>

section \<open>Records\<close>

record arena_table =
  at_arena :: bytes
  at_offsets :: "u32 list"
  at_overlay :: "(bytes \<times> bytes) list"

definition HEADER :: nat where
  "HEADER = 8"

definition clamp_u32 :: "nat \<Rightarrow> u32" where
  "clamp_u32 n = (case try_u32 n of Some w \<Rightarrow> w | None \<Rightarrow> -1)"

definition append_record :: "bytes \<Rightarrow> u32 list \<Rightarrow> bytes \<Rightarrow> bytes \<Rightarrow> bytes \<times> u32 list" where
  "append_record arena offsets key v =
     (arena @ u32_le (clamp_u32 (length key)) @ u32_le (clamp_u32 (length v)) @ key @ v,
      offsets @ [clamp_u32 (length arena)])"

definition key_at :: "bytes \<Rightarrow> u32 \<Rightarrow> bytes" where
  "key_at arena offset =
     (let at = unat offset; len = unat (le_u32 (take 4 (drop at arena))) in take len (drop (at + HEADER) arena))"

definition value_at :: "bytes \<Rightarrow> u32 \<Rightarrow> bytes" where
  "value_at arena offset =
     (let at = unat offset; key_len = unat (le_u32 (take 4 (drop at arena)));
          value_len = unat (le_u32 (take 4 (drop (at + 4) arena)))
      in take value_len (drop (at + HEADER + key_len) arena))"

text \<open>The overlay.\<close>

fun btree_insert :: "'k::linorder \<Rightarrow> 'v \<Rightarrow> ('k \<times> 'v) list \<Rightarrow> ('k \<times> 'v) list" where
  "btree_insert k v [] = [(k, v)]"
| "btree_insert k v ((k', v') # m) =
     (if k < k' then (k, v) # (k', v') # m else if k' < k then (k', v') # btree_insert k v m else (k, v) # m)"

section \<open>Operations\<close>

definition push_record :: "'a arena_table_scheme \<Rightarrow> bytes \<Rightarrow> bytes \<Rightarrow> 'a arena_table_scheme" where
  "push_record t key v = (case append_record (at_arena t) (at_offsets t) key v of
     (arena, offsets) \<Rightarrow> t\<lparr>at_arena := arena, at_offsets := offsets\<rparr>)"

definition finish_load :: "'a arena_table_scheme \<Rightarrow> 'a arena_table_scheme" where
  "finish_load t = t\<lparr>at_offsets := sort_key (key_at (at_arena t)) (at_offsets t)\<rparr>"

definition find_offset :: "'a arena_table_scheme \<Rightarrow> bytes \<Rightarrow> nat option" where
  "find_offset t key = binary_search_by (\<lambda>offset. cmp_of (key_at (at_arena t) offset) key) (at_offsets t)"

definition arena_record :: "'a arena_table_scheme \<Rightarrow> bytes \<Rightarrow> bytes option" where
  "arena_record t key = map_option (\<lambda>at. value_at (at_arena t) (at_offsets t ! at)) (find_offset t key)"

definition table_record :: "'a arena_table_scheme \<Rightarrow> bytes \<Rightarrow> bytes option" where
  "table_record t key = (case map_of (at_overlay t) key of Some v \<Rightarrow> Some v | None \<Rightarrow> arena_record t key)"

definition contains_key :: "'a arena_table_scheme \<Rightarrow> bytes \<Rightarrow> bool" where
  "contains_key t key \<longleftrightarrow> map_of (at_overlay t) key \<noteq> None \<or> arena_record t key \<noteq> None"

definition contains_arena_key :: "'a arena_table_scheme \<Rightarrow> bytes \<Rightarrow> bool" where
  "contains_arena_key t key \<longleftrightarrow> find_offset t key \<noteq> None"

definition put_overlay :: "'a arena_table_scheme \<Rightarrow> bytes \<Rightarrow> bytes \<Rightarrow> 'a arena_table_scheme" where
  "put_overlay t key v = t\<lparr>at_overlay := btree_insert key v (at_overlay t)\<rparr>"

text \<open>The markers of the proper prefixes, from the longest down to the first that the table holds.\<close>

fun mark_prefixes :: "('t \<Rightarrow> bytes \<Rightarrow> bool) \<Rightarrow> ('t \<Rightarrow> bytes \<Rightarrow> bytes \<Rightarrow> 't) \<Rightarrow> nat \<Rightarrow> bytes \<Rightarrow> nat \<Rightarrow> 't \<Rightarrow> 't" where
  "mark_prefixes contains put width key 0 t = t"
| "mark_prefixes contains put width key (Suc n) t =
     (let pre = take (width * Suc n) key in
      if contains t pre then t else mark_prefixes contains put width key n (put t pre []))"

text \<open>\<open>for_each_record\<close>: the visitor threads a state and may stop the walk.\<close>

fun visit_rest :: "(bytes \<Rightarrow> bytes \<Rightarrow> 's \<Rightarrow> 'e + 's) \<Rightarrow> (bytes \<times> bytes) list \<Rightarrow> 's \<Rightarrow> 'e + 's" where
  "visit_rest visit [] s = Inr s"
| "visit_rest visit ((key, v) # rest) s = (case visit key v s of Inl e \<Rightarrow> Inl e | Inr s' \<Rightarrow> visit_rest visit rest s')"

fun walk_records :: "(bytes \<Rightarrow> bytes \<Rightarrow> 's \<Rightarrow> 'e + 's) \<Rightarrow> bytes \<Rightarrow> u32 list \<Rightarrow> (bytes \<times> bytes) list \<Rightarrow> 's \<Rightarrow> 'e + 's" where
  "walk_records visit arena [] overlay s = visit_rest visit overlay s"
| "walk_records visit arena (offset # offsets) [] s =
     (case visit (key_at arena offset) (value_at arena offset) s of
        Inl e \<Rightarrow> Inl e | Inr s' \<Rightarrow> walk_records visit arena offsets [] s')"
| "walk_records visit arena (offset # offsets) ((key, v) # overlay) s =
     (if key < key_at arena offset then
        (case visit key v s of Inl e \<Rightarrow> Inl e | Inr s' \<Rightarrow> walk_records visit arena (offset # offsets) overlay s')
      else if key = key_at arena offset then
        (case visit key v s of Inl e \<Rightarrow> Inl e | Inr s' \<Rightarrow> walk_records visit arena offsets overlay s')
      else
        (case visit (key_at arena offset) (value_at arena offset) s of
           Inl e \<Rightarrow> Inl e | Inr s' \<Rightarrow> walk_records visit arena offsets ((key, v) # overlay) s'))"

definition for_each_record :: "'a arena_table_scheme \<Rightarrow> (bytes \<Rightarrow> bytes \<Rightarrow> 's \<Rightarrow> 'e + 's) \<Rightarrow> 's \<Rightarrow> 'e + 's" where
  "for_each_record t visit s = walk_records visit (at_arena t) (at_offsets t) (at_overlay t) s"

definition key_starts_with :: "bytes \<Rightarrow> bytes \<Rightarrow> bool" where
  "key_starts_with key pre \<longleftrightarrow> length pre \<le> length key \<and> take (length pre) key = pre"

definition keys_starting_with :: "'a arena_table_scheme \<Rightarrow> bytes \<Rightarrow> bytes list" where
  "keys_starting_with t pre =
     (let start = partition_point (\<lambda>offset. key_at (at_arena t) offset < pre) (at_offsets t);
          ks = takeWhile (\<lambda>key. key_starts_with key pre) (map (key_at (at_arena t)) (drop start (at_offsets t)));
          os = takeWhile (\<lambda>key. key_starts_with key pre) (map fst (filter (\<lambda>e. pre \<le> fst e) (at_overlay t)))
      in sort (ks @ filter (\<lambda>key. \<not> contains_arena_key t key) os))"

section \<open>The contract\<close>

text \<open>Every prefix, in whole units of \<open>width\<close> bytes, of a stored key is stored.\<close>

definition prefix_closed :: "nat \<Rightarrow> (bytes \<Rightarrow> bytes option) \<Rightarrow> bool" where
  "prefix_closed width m \<longleftrightarrow>
     (\<forall>k n. m k \<noteq> None \<and> 0 < n \<and> width * n \<le> length k \<longrightarrow> m (take (width * n) k) \<noteq> None)"

text \<open>What the two tables rely on: a keyed table that answers what was put, and a walk over its rows.\<close>

locale keyed_table =
  fixes ok :: "'t \<Rightarrow> bool"
    and rows :: "'t \<Rightarrow> (bytes \<times> bytes) list"
    and lookup :: "'t \<Rightarrow> bytes \<Rightarrow> bytes option"
    and contains :: "'t \<Rightarrow> bytes \<Rightarrow> bool"
    and put :: "'t \<Rightarrow> bytes \<Rightarrow> bytes \<Rightarrow> 't"
  assumes rows_ordered: "ok t \<Longrightarrow> ordered (rows t)"
    and lookup_rows: "ok t \<Longrightarrow> lookup t k = map_of (rows t) k"
    and contains_law: "ok t \<Longrightarrow> contains t k \<longleftrightarrow> lookup t k \<noteq> None"
    and put_ok: "ok t \<Longrightarrow> ok (put t k v)"
    and lookup_put: "ok t \<Longrightarrow> lookup (put t k v) k' = (if k' = k then Some v else lookup t k')"
begin

lemma marks_ok: "ok t \<Longrightarrow> ok (mark_prefixes contains put width key n t)"
  by (induction n arbitrary: t) (simp_all add: put_ok Let_def)

lemma marks_lookup:
  assumes "ok t" "0 < width" "width * n \<le> length key"
    and "\<And>i j. 0 < i \<Longrightarrow> i \<le> j \<Longrightarrow> j \<le> n \<Longrightarrow> lookup t (take (width * j) key) \<noteq> None \<Longrightarrow> lookup t (take (width * i) key) \<noteq> None"
  shows "lookup (mark_prefixes contains put width key n t) k =
    (if lookup t k = None \<and> (\<exists>j. 0 < j \<and> j \<le> n \<and> k = take (width * j) key) then Some [] else lookup t k)"
  using assms
proof (induction n arbitrary: t)
  case (Suc n)
  let ?p = "take (width * Suc n) key"
  show ?case
  proof (cases "lookup t ?p")
    case (Some v)
    have "lookup t (take (width * j) key) \<noteq> None" if "0 < j" "j \<le> Suc n" for j
      using Suc.prems(4) [of j "Suc n"] that Some by simp
    then show ?thesis using Some Suc.prems(1) by (auto simp: contains_law Let_def)
  next
    case None
    have inj: "take (width * j) key \<noteq> ?p" if "j \<le> n" for j
    proof
      assume "take (width * j) key = ?p"
      then have "length (take (width * j) key) = length ?p" by (rule arg_cong)
      moreover have "width * j < width * Suc n" using that Suc.prems(2) by (intro mult_less_mono2) simp_all
      ultimately show False using Suc.prems(3) by simp
    qed
    let ?t = "put t ?p []"
    have up: "lookup ?t k' = (if k' = ?p then Some [] else lookup t k')" for k' by (rule lookup_put [OF Suc.prems(1)])
    have "lookup ?t (take (width * i) key) \<noteq> None"
      if "0 < i" "i \<le> j" "j \<le> n" "lookup ?t (take (width * j) key) \<noteq> None" for i j
      using Suc.prems(4) [of i j] that inj [of j] unfolding up by (auto split: if_splits)
    then have "lookup (mark_prefixes contains put width key n ?t) k =
        (if lookup ?t k = None \<and> (\<exists>j. 0 < j \<and> j \<le> n \<and> k = take (width * j) key) then Some [] else lookup ?t k)"
      using Suc.prems by (intro Suc.IH put_ok) simp_all
    then show ?thesis
      using None Suc.prems(1) unfolding up by (auto simp: contains_law Let_def le_Suc_eq)
  qed
qed simp

end

section \<open>The arena\<close>

definition inside :: "bytes \<Rightarrow> u32 \<Rightarrow> bool" where
  "inside arena offset \<longleftrightarrow>
     (let at = unat offset; key_len = unat (le_u32 (take 4 (drop at arena)));
          value_len = unat (le_u32 (take 4 (drop (at + 4) arena)))
      in at + HEADER + key_len + value_len \<le> length arena)"

definition arena_rows :: "bytes \<Rightarrow> u32 list \<Rightarrow> (bytes \<times> bytes) list" where
  "arena_rows arena offsets = map (\<lambda>offset. (key_at arena offset, value_at arena offset)) offsets"

definition arena_ok :: "'a arena_table_scheme \<Rightarrow> bool" where
  "arena_ok t \<longleftrightarrow> (\<forall>offset \<in> set (at_offsets t). inside (at_arena t) offset) \<and>
     ordered (arena_rows (at_arena t) (at_offsets t)) \<and> ordered (at_overlay t)"

lemma inside_append:
  assumes "inside arena offset"
  shows "inside (arena @ suf) offset" "key_at (arena @ suf) offset = key_at arena offset"
    "value_at (arena @ suf) offset = value_at arena offset"
proof -
  have "unat offset + 8 \<le> length arena" using assms by (simp add: inside_def HEADER_def Let_def)
  then have "take 4 (drop (unat offset) (arena @ suf)) = take 4 (drop (unat offset) arena)"
    "take 4 (drop (unat offset + 4) (arena @ suf)) = take 4 (drop (unat offset + 4) arena)" by simp_all
  then show "inside (arena @ suf) offset" "key_at (arena @ suf) offset = key_at arena offset"
    "value_at (arena @ suf) offset = value_at arena offset"
    using assms by (simp_all add: inside_def key_at_def value_at_def HEADER_def Let_def)
qed

lemma clamp_u32_small: "n < 2 ^ 32 \<Longrightarrow> unat (clamp_u32 n) = n"
  by (simp add: clamp_u32_def try_u32_def unat_of_nat)

text \<open>A record that fits in four gigabytes is appended as it is, and the earlier records stay.\<close>

lemma append_record_rows:
  assumes ins: "\<forall>offset \<in> set offsets. inside arena offset" and app: "append_record arena offsets key v = (arena', offsets')"
    and fits: "length arena' < 2 ^ 32"
  shows "\<forall>offset \<in> set offsets'. inside arena' offset" "arena_rows arena' offsets' = arena_rows arena offsets @ [(key, v)]"
proof -
  let ?o = "clamp_u32 (length arena)" and ?k = "clamp_u32 (length key)" and ?v = "clamp_u32 (length v)"
  have arena': "arena' = arena @ u32_le ?k @ u32_le ?v @ key @ v" and offsets': "offsets' = offsets @ [?o]"
    using app by (simp_all add: append_record_def del: le_bytes.simps)
  have small: "unat ?o = length arena" "unat ?k = length key" "unat ?v = length v"
    using fits by (simp_all add: arena' clamp_u32_small del: le_bytes.simps)
  have words: "take 4 (drop (length arena) arena') = u32_le ?k" "take 4 (drop (length arena + 4) arena') = u32_le ?v"
    by (simp_all add: arena' del: le_bytes.simps)
  have body: "drop (length arena + 8) arena' = key @ v" "drop (length arena + 8 + length key) arena' = v"
    by (simp_all add: arena' del: le_bytes.simps)
  have "length arena' = length arena + 8 + length key + length v" by (simp add: arena' del: le_bytes.simps)
  then have new: "inside arena' ?o" "key_at arena' ?o = key" "value_at arena' ?o = v"
    by (simp_all add: inside_def key_at_def value_at_def HEADER_def Let_def small words body del: le_bytes.simps)
  obtain suf where suf: "arena' = arena @ suf" using arena' by blast
  then have old: "inside arena' offset" "key_at arena' offset = key_at arena offset" "value_at arena' offset = value_at arena offset"
    if "offset \<in> set offsets" for offset using ins inside_append that by blast+
  show "\<forall>offset \<in> set offsets'. inside arena' offset" using old(1) new(1) by (simp add: offsets')
  show "arena_rows arena' offsets' = arena_rows arena offsets @ [(key, v)]"
    using old(2,3) new(2,3) by (simp add: arena_rows_def offsets')
qed

lemma finish_load_ok:
  assumes "\<forall>offset \<in> set (at_offsets t). inside (at_arena t) offset" "distinct (map fst (arena_rows (at_arena t) (at_offsets t)))"
    "at_overlay t = []"
  shows "arena_ok (finish_load t)" "set (arena_rows (at_arena (finish_load t)) (at_offsets (finish_load t))) =
    set (arena_rows (at_arena t) (at_offsets t))"
proof -
  let ?key = "key_at (at_arena t)" and ?os = "at_offsets t"
  have "distinct (map ?key ?os)" using assms(2) by (simp add: arena_rows_def comp_def)
  then have "distinct (map ?key (sort_key ?key ?os))" by (metis distinct_map distinct_sort inj_on_cong set_sort)
  then have "sorted_wrt (<) (map ?key (sort_key ?key ?os))" by (simp add: strict_sorted_iff)
  then show "arena_ok (finish_load t)"
    using assms by (simp add: arena_ok_def finish_load_def ordered_def arena_rows_def comp_def)
  show "set (arena_rows (at_arena (finish_load t)) (at_offsets (finish_load t))) = set (arena_rows (at_arena t) (at_offsets t))"
    by (simp add: finish_load_def arena_rows_def)
qed

lemma arena_record_rows:
  assumes "arena_ok t"
  shows "arena_record t key = map_of (arena_rows (at_arena t) (at_offsets t)) key"
proof -
  let ?key = "\<lambda>i. key_at (at_arena t) (at_offsets t ! i)" and ?n = "length (at_offsets t)"
  let ?rows = "arena_rows (at_arena t) (at_offsets t)"
  have ord: "ordered ?rows" using assms by (simp add: arena_ok_def)
  then have less: "?key i < ?key j" if "i < j" "j < ?n" for i j
    using ordered_nth [OF ord that(1)] that by (simp add: arena_rows_def)
  have found: "find_offset t key = Some p \<longleftrightarrow> p < ?n \<and> ?key p = key" for p
  proof
    assume "find_offset t key = Some p"
    then show "p < ?n \<and> ?key p = key"
      using bs_loop_bound [of ?n 0 "\<lambda>i. cmp_of (?key i) key"]
      by (auto simp: find_offset_def binary_search_by_def Let_def split: if_splits)
  next
    assume p: "p < ?n \<and> ?key p = key"
    have "cmp_of (?key j) key = Greater" if "i < j" "j < ?n" "cmp_of (?key i) key \<noteq> Less" for i j
      using less [OF that(1,2)] that(3) by (auto simp: cmp_of_def split: if_splits)
    then have "bs_loop (\<lambda>i. cmp_of (?key i) key) 0 ?n = p" using p by (intro bs_loop_spec) auto
    then show "find_offset t key = Some p" using p by (auto simp: find_offset_def binary_search_by_def Let_def)
  qed
  show ?thesis
  proof (cases "find_offset t key")
    case None
    then have "key \<notin> fst ` set ?rows" using found by (force simp: arena_rows_def in_set_conv_nth)
    then show ?thesis using None map_of_eq_None_iff [of ?rows key] by (simp add: arena_record_def)
  next
    case (Some p)
    then have "(key, value_at (at_arena t) (at_offsets t ! p)) \<in> set ?rows" using found by (force simp: arena_rows_def)
    then show ?thesis using Some ordered_distinct [OF ord] by (simp add: arena_record_def)
  qed
qed

section \<open>The overlay\<close>

lemma btree_insert_keys: "fst ` set (btree_insert k v m) = insert k (fst ` set m)"
  by (induction k v m rule: btree_insert.induct) auto

lemma btree_insert_ordered: "ordered m \<Longrightarrow> ordered (btree_insert k v m)"
proof (induction k v m rule: btree_insert.induct)
  case (2 k v k' v' m)
  have "k' < fst e" if "e \<in> set (btree_insert k v m)" "k' < k" for e
    using btree_insert_keys [of k v m] that 2(2) by (force simp: ordered_Cons)
  then show ?case using 2 by (fastforce simp: ordered_Cons)
qed (simp add: ordered_Cons)

lemma btree_insert_map: "map_of (btree_insert k v m) k' = (if k' = k then Some v else map_of m k')"
  by (induction k v m rule: btree_insert.induct) auto

text \<open>The two lists merged, the overlay's row replacing the arena's.\<close>

fun merged :: "('k::linorder \<times> 'v) list \<Rightarrow> ('k \<times> 'v) list \<Rightarrow> ('k \<times> 'v) list" where
  "merged [] ys = ys"
| "merged (x # xs) [] = x # xs"
| "merged (x # xs) (y # ys) =
     (if fst y < fst x then y # merged (x # xs) ys else if fst y = fst x then y # merged xs ys else x # merged xs (y # ys))"

definition table_rows :: "'a arena_table_scheme \<Rightarrow> (bytes \<times> bytes) list" where
  "table_rows t = merged (arena_rows (at_arena t) (at_offsets t)) (at_overlay t)"

lemma merged_keys: "fst ` set (merged xs ys) = fst ` set xs \<union> fst ` set ys"
  by (induction xs ys rule: merged.induct) auto

lemma merged_ordered: "ordered xs \<Longrightarrow> ordered ys \<Longrightarrow> ordered (merged xs ys)"
proof (induction xs ys rule: merged.induct)
  case (3 x xs y ys)
  have mem: "fst e \<in> fst ` set p \<union> fst ` set q" if "e \<in> set (merged p q)" for e p q
    using merged_keys [of p q] that by blast
  consider "fst y < fst x" | "fst y = fst x" | "fst x < fst y" by fastforce
  then show ?case
  proof cases
    case 1
    then show ?thesis using "3.IH"(1) "3.prems" mem by (fastforce simp: ordered_Cons)
  next
    case 2
    then show ?thesis using "3.IH"(2) "3.prems" mem by (fastforce simp: ordered_Cons)
  next
    case 3
    then show ?thesis using "3.IH"(3) "3.prems" mem by (fastforce simp: ordered_Cons)
  qed
qed simp_all

lemma merged_map:
  "ordered xs \<Longrightarrow> ordered ys \<Longrightarrow> map_of (merged xs ys) k = (case map_of ys k of Some v \<Rightarrow> Some v | None \<Rightarrow> map_of xs k)"
proof (induction xs ys rule: merged.induct)
  case (3 x xs y ys)
  have below: "map_of zs j = None" if "ordered (z # zs)" "j \<le> fst z" for z zs j
    using that by (fastforce simp: ordered_Cons map_of_eq_None_iff)
  obtain a b c d where xy: "x = (a, b)" "y = (c, d)" by (cases x; cases y)
  consider "c < a" | "c = a" | "a < c" by fastforce
  then show ?case
  proof cases
    case 1
    then show ?thesis using "3.IH"(1) "3.prems" by (simp add: xy ordered_Cons)
  next
    case 2
    then show ?thesis using "3.IH"(2) "3.prems" by (auto simp: xy ordered_Cons split: option.split)
  next
    case 3
    then have "map_of ((c, d) # ys) a = None" using below [OF "3.prems"(2), of a] by (simp add: xy)
    then show ?thesis using "3.IH"(3) "3.prems" 3 by (auto simp: xy ordered_Cons split: option.split)
  qed
qed (auto split: option.split)

lemma walk_merged: "walk_records visit arena offsets overlay s = visit_rest visit (merged (arena_rows arena offsets) overlay) s"
proof (induction visit arena offsets overlay s rule: walk_records.induct)
  case (2 visit arena offset offsets s)
  have "merged xs [] = xs" for xs :: "(bytes \<times> bytes) list" by (cases xs) simp_all
  then show ?case using 2 by (simp add: arena_rows_def split: sum.split)
qed (auto simp: arena_rows_def split: sum.split)

lemma for_each_rows: "for_each_record t visit s = visit_rest visit (table_rows t) s"
  by (simp add: for_each_record_def walk_merged table_rows_def)

interpretation arena: keyed_table arena_ok table_rows table_record contains_key put_overlay
proof (unfold_locales, goal_cases)
  case (1 t)
  then show ?case by (simp add: arena_ok_def table_rows_def merged_ordered)
next
  case (2 t k)
  then show ?case
    using arena_record_rows [OF 2, of k] by (auto simp: table_record_def table_rows_def merged_map arena_ok_def split: option.split)
next
  case (3 t k)
  then show ?case by (auto simp: contains_key_def table_record_def split: option.split)
next
  case (4 t k v)
  then show ?case by (simp add: arena_ok_def put_overlay_def btree_insert_ordered)
next
  case (5 t k v k')
  then show ?case
    by (auto simp: table_record_def put_overlay_def btree_insert_map arena_record_def find_offset_def split: option.split)
qed

section \<open>Keys under a prefix\<close>

lemma starts_with_le: "key_starts_with key pre \<Longrightarrow> pre \<le> key"
proof (induction pre arbitrary: key)
  case (Cons b pre)
  then show ?case by (cases key) (auto simp: key_starts_with_def)
qed simp

lemma starts_with_between:
  assumes "pre \<le> a" "a \<le> b" "key_starts_with b pre"
  shows "key_starts_with a pre"
  using assms
proof (induction pre arbitrary: a b)
  case (Cons x pre)
  then show ?case by (cases a; cases b) (auto simp: key_starts_with_def)
qed (simp add: key_starts_with_def)

lemma takeWhile_starts:
  "sorted ks \<Longrightarrow> \<forall>k \<in> set ks. pre \<le> k \<Longrightarrow> takeWhile (\<lambda>k. key_starts_with k pre) ks = filter (\<lambda>k. key_starts_with k pre) ks"
proof (induction ks)
  case (Cons k ks)
  show ?case
  proof (cases "key_starts_with k pre")
    case False
    then have "\<not> key_starts_with j pre" if "j \<in> set ks" for j using Cons.prems that starts_with_between [of pre k j] by auto
    then show ?thesis using False by simp
  qed (use Cons in simp)
qed simp

lemma sorted_partitioned: "sorted (map f xs) \<Longrightarrow> partitioned (\<lambda>x. f x < a) xs"
  by (induction xs) (auto simp: partitioned_def not_less)

lemma sorted_eqI: "sorted_wrt (<) xs \<Longrightarrow> sorted_wrt (<) ys \<Longrightarrow> set xs = set ys \<Longrightarrow> xs = (ys :: 'a::linorder list)"
  by (simp add: strict_sorted_equal)

lemma keys_starting_with_rows:
  assumes "arena_ok t"
  shows "keys_starting_with t pre = filter (\<lambda>k. key_starts_with k pre) (map fst (table_rows t))"
proof -
  let ?arena = "map (key_at (at_arena t)) (at_offsets t)" and ?over = "map fst (at_overlay t)"
  let ?in = "\<lambda>k. key_starts_with k pre"
  have ao: "sorted_wrt (<) ?arena" and oo: "sorted_wrt (<) ?over"
    using assms by (simp_all add: arena_ok_def ordered_def arena_rows_def comp_def)
  have part: "partitioned (\<lambda>offset. key_at (at_arena t) offset < pre) (at_offsets t)"
    using ao by (intro sorted_partitioned) (simp add: strict_sorted_imp_sorted)
  let ?tail = "map (key_at (at_arena t)) (dropWhile (\<lambda>offset. key_at (at_arena t) offset < pre) (at_offsets t))"
  have tail: "?tail = dropWhile (\<lambda>k. k < pre) ?arena" by (simp add: dropWhile_map comp_def)
  have "\<forall>k \<in> set ?tail. pre \<le> k" using part by (auto simp: partitioned_def not_less)
  moreover have "sorted ?tail" using ao unfolding tail by (simp add: sorted_dropWhile strict_sorted_imp_sorted)
  moreover have "filter ?in ?tail = filter ?in ?arena"
  proof -
    have "filter ?in (takeWhile (\<lambda>k. k < pre) ?arena) = []"
      using starts_with_le by (fastforce simp: filter_empty_conv dest: set_takeWhileD)
    then show ?thesis unfolding tail by (metis append_Nil filter_append takeWhile_dropWhile_id)
  qed
  ultimately have ks: "takeWhile ?in ?tail = filter ?in ?arena" using takeWhile_starts by metis
  have "sorted (map fst (filter (\<lambda>e. pre \<le> fst e) (at_overlay t)))"
    using oo unfolding sorted_wrt_map by (intro sorted_wrt_filter) (auto elim: sorted_wrt_mono_rel [rotated])
  then have "takeWhile ?in (map fst (filter (\<lambda>e. pre \<le> fst e) (at_overlay t))) = filter ?in (map fst (filter (\<lambda>e. pre \<le> fst e) (at_overlay t)))"
    by (rule takeWhile_starts) auto
  also have "\<dots> = filter ?in ?over" using starts_with_le by (auto simp: filter_map comp_def intro!: arg_cong [of _ _ "map fst"] filter_cong)
  finally have os: "takeWhile ?in (map fst (filter (\<lambda>e. pre \<le> fst e) (at_overlay t))) = filter ?in ?over" .
  have arena_key: "contains_arena_key t k \<longleftrightarrow> k \<in> set ?arena" for k
    using arena_record_rows [OF assms, of k] map_of_eq_None_iff [of "arena_rows (at_arena t) (at_offsets t)" k]
    by (auto simp: contains_arena_key_def arena_record_def arena_rows_def image_image)
  let ?ks = "filter ?in ?arena @ filter (\<lambda>k. \<not> contains_arena_key t k) (filter ?in ?over)"
  have "keys_starting_with t pre = sort ?ks"
    using ks os std_pp.drop_pp [OF part] by (simp add: keys_starting_with_def Let_def)
  moreover have "sort ?ks = filter ?in (map fst (table_rows t))"
  proof (rule sorted_eqI)
    have "distinct ?ks" using ao oo arena_key by (auto simp: strict_sorted_iff)
    then show "sorted_wrt (<) (sort ?ks)" by (simp add: strict_sorted_iff)
    show "sorted_wrt (<) (filter ?in (map fst (table_rows t)))"
      using arena.rows_ordered [OF assms] by (simp add: ordered_def sorted_wrt_filter)
    show "set (sort ?ks) = set (filter ?in (map fst (table_rows t)))"
      using merged_keys [of "arena_rows (at_arena t) (at_offsets t)" "at_overlay t"]
      by (auto simp: table_rows_def arena_key arena_rows_def image_image)
  qed
  ultimately show ?thesis by simp
qed

end
