(* ===== verification/UserPhrases.thy ===== *)
theory UserPhrases
  imports ArenaTable
begin

text \<open>
  \<open>crates/oxpinyin-user/src/phrase_table.rs\<close>, the token array stored under a phrase, and \<open>user_phrase_table.rs\<close>, the
  table of the learned phrases over the shared arena. Keys are the UCS-4 words of a phrase in little-endian
  bytes. The mask walk is that of the default backend, which reuses one entry for every record. A slice
  past an entry, which would panic, is \<open>None\<close>.
\<close>

section \<open>Entries\<close>

definition SEARCH_NONE :: int where
  "SEARCH_NONE = 0"

definition SEARCH_OK :: int where
  "SEARCH_OK = 1"

definition ERROR_OK :: int where
  "ERROR_OK = 0"

definition ERROR_INSERT_ITEM_EXISTS :: int where
  "ERROR_INSERT_ITEM_EXISTS = 1"

definition ERROR_REMOVE_ITEM_DONOT_EXISTS :: int where
  "ERROR_REMOVE_ITEM_DONOT_EXISTS = 2"

datatype table_error = EmptyText | IncompleteToken

definition key_ucs4 :: "u32 list \<Rightarrow> bytes" where
  "key_ucs4 words = concat (map u32_le words)"

definition entry_validate :: "bytes \<Rightarrow> table_error + unit" where
  "entry_validate bs = (if length bs mod 4 \<noteq> 0 then Inl IncompleteToken else Inr ())"

definition entry_tokens :: "bytes \<Rightarrow> u32 list" where
  "entry_tokens bs = map le_u32 (chunks 4 bs)"

definition entry_from_bytes :: "bytes \<Rightarrow> table_error + bytes" where
  "entry_from_bytes bs = map_sum id (\<lambda>_. bs) (entry_validate bs)"

definition search_tokens :: "bytes \<Rightarrow> u32 list \<Rightarrow> (u32 \<Rightarrow> bool) \<Rightarrow> int \<times> u32 list" where
  "search_tokens bs tokens enabled =
     fold (\<lambda>token (result, out). if enabled token then (SEARCH_OK, out @ [token]) else (result, out))
       (entry_tokens bs) (SEARCH_NONE, tokens)"

definition search_bytes :: "bytes \<Rightarrow> u32 list \<Rightarrow> (u32 \<Rightarrow> bool) \<Rightarrow> table_error + int \<times> u32 list" where
  "search_bytes bs tokens enabled = map_sum id (\<lambda>_. search_tokens bs tokens enabled) (entry_validate bs)"

text \<open>Where \<open>add_index\<close> inserts, or \<open>None\<close> at an equal token.\<close>

fun add_offset :: "u32 \<Rightarrow> u32 list \<Rightarrow> nat \<Rightarrow> nat \<Rightarrow> nat option" where
  "add_offset token [] index len = Some len"
| "add_offset token (existing # rest) index len =
     (if existing = token then None else if token < existing then Some (index * 4) else add_offset token rest (index + 1) len)"

definition entry_add_index :: "bytes \<Rightarrow> u32 \<Rightarrow> int \<times> bytes" where
  "entry_add_index bs token = (case add_offset token (entry_tokens bs) 0 (length bs) of
     None \<Rightarrow> (ERROR_INSERT_ITEM_EXISTS, bs)
   | Some offset \<Rightarrow> (ERROR_OK, splice_at bs offset (u32_le token)))"

fun token_position :: "('a \<Rightarrow> bool) \<Rightarrow> 'a list \<Rightarrow> nat option" where
  "token_position P [] = None"
| "token_position P (x # xs) = (if P x then Some 0 else map_option Suc (token_position P xs))"

definition entry_remove_index :: "bytes \<Rightarrow> u32 \<Rightarrow> int \<times> bytes" where
  "entry_remove_index bs token = (case token_position (\<lambda>v. v = token) (entry_tokens bs) of
     None \<Rightarrow> (ERROR_REMOVE_ITEM_DONOT_EXISTS, bs)
   | Some index \<Rightarrow> (ERROR_OK, drain bs (index * 4) (index * 4 + 4)))"

function mask_entry :: "u32 \<Rightarrow> u32 \<Rightarrow> nat \<Rightarrow> bytes \<Rightarrow> bytes option" where
  "mask_entry m v offset bs =
     (if length bs \<le> offset then Some bs
      else if length bs < offset + 4 then None
      else if le_u32 (take 4 (drop offset bs)) AND m = v then mask_entry m v offset (drain bs offset (offset + 4))
      else mask_entry m v (offset + 4) bs)"
  by pat_completeness auto
termination
  by (relation "measure (\<lambda>(m, v, offset, bs). length bs - offset)") (auto simp: drain_def)

declare mask_entry.simps [simp del]

definition entry_mask_out :: "bytes \<Rightarrow> u32 \<Rightarrow> u32 \<Rightarrow> bytes option" where
  "entry_mask_out bs m v = mask_entry m v 0 bs"

definition entry_set_content :: "bytes \<Rightarrow> bytes \<Rightarrow> table_error + bytes" where
  "entry_set_content entry bs = (case entry_validate bs of
     Inl e \<Rightarrow> Inl e
   | Inr _ \<Rightarrow> Inr (overwrite (if length entry < length bs then resize entry (length bs) 0 else entry) 0 bs))"

section \<open>The table\<close>

definition table_new :: arena_table where
  "table_new = \<lparr>at_arena = [], at_offsets = [], at_overlay = []\<rparr>"

definition phrase_add :: "arena_table \<Rightarrow> u32 list \<Rightarrow> u32 \<Rightarrow> (table_error + int) \<times> arena_table" where
  "phrase_add t words token =
     (let key = key_ucs4 words in
      if key = [] then (Inl EmptyText, t)
      else case table_record t key of
        Some bs \<Rightarrow> (case entry_from_bytes bs of
            Inl e \<Rightarrow> (Inl e, t)
          | Inr entry \<Rightarrow> let (result, entry') = entry_add_index entry token in (Inr result, put_overlay t key entry'))
      | None \<Rightarrow>
          let (result, entry') = entry_add_index [] token in
          (Inr result, mark_prefixes contains_key put_overlay 4 key (length words - 1) (put_overlay t key entry')))"

definition phrase_check_add :: "arena_table \<Rightarrow> u32 list \<Rightarrow> table_error + unit" where
  "phrase_check_add t words =
     (let key = key_ucs4 words in
      if key = [] then Inl EmptyText
      else case table_record t key of None \<Rightarrow> Inr () | Some bs \<Rightarrow> entry_validate bs)"

definition phrase_check_mask :: "arena_table \<Rightarrow> table_error + unit" where
  "phrase_check_mask t = for_each_record t (\<lambda>_ v _. entry_validate v) ()"

definition phrase_remove :: "arena_table \<Rightarrow> u32 list \<Rightarrow> u32 \<Rightarrow> (table_error + int) \<times> arena_table" where
  "phrase_remove t words token =
     (let key = key_ucs4 words in
      case table_record t key of
        None \<Rightarrow> (Inr ERROR_REMOVE_ITEM_DONOT_EXISTS, t)
      | Some bs \<Rightarrow> (case entry_from_bytes bs of
            Inl e \<Rightarrow> (Inl e, t)
          | Inr entry \<Rightarrow> let (result, entry') = entry_remove_index entry token in (Inr result, put_overlay t key entry')))"

record mask_state =
  ms_reused :: bytes
  ms_arena :: bytes
  ms_offsets :: "u32 list"
  ms_failed :: "table_error option"

definition keep_record :: "bytes \<Rightarrow> bytes \<Rightarrow> mask_state \<Rightarrow> mask_state" where
  "keep_record key v st = (case append_record (ms_arena st) (ms_offsets st) key v of
     (arena, offsets) \<Rightarrow> st\<lparr>ms_arena := arena, ms_offsets := offsets\<rparr>)"

definition mask_visit :: "u32 \<Rightarrow> u32 \<Rightarrow> bytes \<Rightarrow> bytes \<Rightarrow> mask_state \<Rightarrow> unit + mask_state" where
  "mask_visit m v key bs st =
     (if ms_failed st \<noteq> None then Inr (keep_record key bs st)
      else case entry_set_content (ms_reused st) bs of
        Inl e \<Rightarrow> Inr (keep_record key bs (st\<lparr>ms_failed := Some e\<rparr>))
      | Inr entry \<Rightarrow> (case entry_mask_out entry m v of
            None \<Rightarrow> Inl ()
          | Some masked \<Rightarrow> Inr (keep_record key masked (st\<lparr>ms_reused := masked\<rparr>))))"

definition phrase_mask :: "arena_table \<Rightarrow> u32 \<Rightarrow> u32 \<Rightarrow> (table_error option \<times> arena_table) option" where
  "phrase_mask t m v =
     (case for_each_record t (mask_visit m v) \<lparr>ms_reused = [], ms_arena = [], ms_offsets = [], ms_failed = None\<rparr> of
        Inl _ \<Rightarrow> None
      | Inr st \<Rightarrow> Some (ms_failed st, \<lparr>at_arena = ms_arena st, at_offsets = ms_offsets st, at_overlay = []\<rparr>))"

definition phrase_tokens :: "arena_table \<Rightarrow> bytes \<Rightarrow> table_error + u32 list" where
  "phrase_tokens t key = (case table_record t key of
     None \<Rightarrow> Inr []
   | Some bs \<Rightarrow> map_sum id snd (search_bytes bs [] (\<lambda>_. True)))"

fun suggest_rows :: "arena_table \<Rightarrow> bytes \<Rightarrow> bytes list \<Rightarrow> table_error + (bytes \<times> u32 list) list" where
  "suggest_rows t pre [] = Inr []"
| "suggest_rows t pre (key # ks) =
     (if length key \<le> length pre then suggest_rows t pre ks
      else case table_record t key of
        None \<Rightarrow> suggest_rows t pre ks
      | Some bs \<Rightarrow> (case search_bytes bs [] (\<lambda>_. True) of
            Inl e \<Rightarrow> Inl e
          | Inr (_, tokens) \<Rightarrow> map_sum id ((#) (key, tokens)) (suggest_rows t pre ks)))"

definition suggest_after :: "arena_table \<Rightarrow> bytes \<Rightarrow> table_error + (bytes \<times> u32 list) list" where
  "suggest_after t pre =
     (if \<not> contains_key t pre then Inr [] else suggest_rows t pre (remdups_adj (keys_starting_with t pre)))"

section \<open>Entries as token lists\<close>

definition token_bytes :: "u32 list \<Rightarrow> bytes" where
  "token_bytes ts = concat (map u32_le ts)"

definition whole_entry :: "bytes \<Rightarrow> bool" where
  "whole_entry bs \<longleftrightarrow> length bs mod 4 = 0"

lemma token_bytes_codec: "entry_tokens (token_bytes ts) = ts" "length (token_bytes ts) = 4 * length ts" "whole_entry (token_bytes ts)"
  using u32s.array_codec_exact [of ts] u32s.length_array [of ts]
  by (simp_all add: entry_tokens_def token_bytes_def whole_entry_def del: le_bytes.simps)

lemma whole_tokens: "whole_entry bs \<Longrightarrow> token_bytes (entry_tokens bs) = bs"
  unfolding whole_entry_def token_bytes_def entry_tokens_def by (rule u32s_bytes)

lemma token_bytes_append: "token_bytes (xs @ ys) = token_bytes xs @ token_bytes ys"
  by (simp add: token_bytes_def)

lemma token_bytes_Cons: "token_bytes (x # xs) = u32_le x @ token_bytes xs"
  by (simp add: token_bytes_def del: le_bytes.simps)

lemma token_bytes_take: "take (4 * n) (token_bytes ts) = token_bytes (take n ts)"
  and token_bytes_drop: "drop (4 * n) (token_bytes ts) = token_bytes (drop n ts)"
proof -
  have "token_bytes ts = token_bytes (take n ts) @ token_bytes (drop n ts)"
    by (simp flip: token_bytes_append)
  moreover have "length (token_bytes (take n ts)) = 4 * min n (length ts)" by (simp add: token_bytes_codec min.commute)
  ultimately show "take (4 * n) (token_bytes ts) = token_bytes (take n ts)"
    "drop (4 * n) (token_bytes ts) = token_bytes (drop n ts)"
    using token_bytes_codec(2) [of ts] by (cases "n \<le> length ts"; simp add: token_bytes_def)+
qed

text \<open>What the entry operations do to the stored tokens, in whatever order these are.\<close>

definition token_insert :: "u32 \<Rightarrow> u32 list \<Rightarrow> u32 list" where
  "token_insert token ts = takeWhile (\<lambda>t. t < token) ts @ token # dropWhile (\<lambda>t. t < token) ts"

definition token_found :: "u32 \<Rightarrow> u32 list \<Rightarrow> bool" where
  "token_found token ts \<longleftrightarrow> (case dropWhile (\<lambda>t. t < token) ts of [] \<Rightarrow> False | t # _ \<Rightarrow> t = token)"

lemma add_offset_tokens:
  "add_offset token ts index len = (if token_found token ts then None
     else Some (if dropWhile (\<lambda>t. t < token) ts = [] then len else (index + length (takeWhile (\<lambda>t. t < token) ts)) * 4))"
  by (induction ts arbitrary: index) (auto simp: token_found_def)

lemma entry_add_tokens:
  "entry_add_index (token_bytes ts) token = (if token_found token ts then (ERROR_INSERT_ITEM_EXISTS, token_bytes ts)
     else (ERROR_OK, token_bytes (token_insert token ts)))"
proof -
  let ?n = "length (takeWhile (\<lambda>t. t < token) ts)"
  have "take ?n ts = takeWhile (\<lambda>t. t < token) ts" "drop ?n ts = dropWhile (\<lambda>t. t < token) ts"
    by (simp_all add: takeWhile_eq_take [symmetric] dropWhile_eq_drop [symmetric])
  then have "splice_at (token_bytes ts) (4 * ?n) (u32_le token) = token_bytes (token_insert token ts)"
    unfolding splice_at_def token_bytes_take token_bytes_drop
    by (simp add: token_insert_def token_bytes_append token_bytes_Cons del: le_bytes.simps)
  moreover have "length (token_bytes ts) = 4 * ?n" if "dropWhile (\<lambda>t. t < token) ts = []"
    using that by (metis append_Nil2 token_bytes_codec(2) takeWhile_dropWhile_id)
  ultimately show ?thesis
    by (auto simp: entry_add_index_def token_bytes_codec(1) add_offset_tokens mult.commute simp del: le_bytes.simps)
qed

lemma token_position_spec: "token_position P xs = (if \<exists>x \<in> set xs. P x then Some (length (takeWhile (\<lambda>x. \<not> P x) xs)) else None)"
  by (induction xs) auto

lemma entry_remove_tokens:
  "entry_remove_index (token_bytes ts) token = (if token \<in> set ts then (ERROR_OK, token_bytes (remove1 token ts))
     else (ERROR_REMOVE_ITEM_DONOT_EXISTS, token_bytes ts))"
proof -
  let ?n = "length (takeWhile (\<lambda>t. t \<noteq> token) ts)"
  have "remove1 token ts = take ?n ts @ drop (Suc ?n) ts" by (induction ts) auto
  then have "drain (token_bytes ts) (?n * 4) (?n * 4 + 4) = token_bytes (remove1 token ts)"
    using token_bytes_take [of ?n ts] token_bytes_drop [of "Suc ?n" ts]
    by (simp add: drain_def token_bytes_append mult.commute add.commute)
  then show ?thesis by (auto simp: entry_remove_index_def token_bytes_codec(1) token_position_spec)
qed

lemma entry_validate_whole: "entry_validate bs = (if whole_entry bs then Inr () else Inl IncompleteToken)"
  by (simp add: entry_validate_def whole_entry_def)

lemma search_bytes_whole: "search_bytes bs [] (\<lambda>_. True) =
    (if whole_entry bs then Inr (if entry_tokens bs = [] then SEARCH_NONE else SEARCH_OK, entry_tokens bs) else Inl IncompleteToken)"
proof -
  have "fold (\<lambda>token (result, out). if True then (SEARCH_OK, out @ [token]) else (result, out)) ts (r, out) =
      (if ts = [] then r else SEARCH_OK, out @ ts)" for ts r and out :: "u32 list"
    by (induction ts arbitrary: r out) auto
  then show ?thesis by (simp add: search_bytes_def search_tokens_def entry_validate_whole)
qed

section \<open>Adding, removing and suggesting\<close>

lemma key_ucs4_encode: "key_ucs4 words = token_bytes words"
  by (simp add: key_ucs4_def token_bytes_def)

lemma key_ucs4_Nil: "key_ucs4 words = [] \<longleftrightarrow> words = []"
  using token_bytes_codec(2) [of words] by (cases words) (auto simp: key_ucs4_encode)

text \<open>The keys of a phrase's proper prefixes.\<close>

definition marker_keys :: "u32 list \<Rightarrow> bytes set" where
  "marker_keys words = {key_ucs4 (take n words) | n. 0 < n \<and> n < length words}"

lemma marker_keys_take: "k \<in> marker_keys words \<longleftrightarrow> (\<exists>n. 0 < n \<and> n \<le> length words - 1 \<and> k = take (4 * n) (key_ucs4 words))"
proof -
  have "0 < n \<and> n < length words \<longleftrightarrow> 0 < n \<and> n \<le> length words - 1" for n by auto
  then show ?thesis unfolding marker_keys_def key_ucs4_encode token_bytes_take by blast
qed

definition with_markers :: "u32 list \<Rightarrow> (bytes \<Rightarrow> bytes option) \<Rightarrow> bytes \<Rightarrow> bytes option" where
  "with_markers words m k = (if m k = None \<and> k \<in> marker_keys words then Some [] else m k)"

lemma key_not_marker: "key_ucs4 words \<notin> marker_keys words"
proof
  assume "key_ucs4 words \<in> marker_keys words"
  then obtain n where n: "n < length words" "token_bytes words = token_bytes (take n words)"
    by (auto simp: marker_keys_def key_ucs4_encode)
  from arg_cong [OF n(2), of length] n(1) show False by (simp add: token_bytes_codec(2))
qed

lemma markers_record:
  fixes v
  assumes ok: "arena_ok t" and closed: "prefix_closed 4 (table_record t)" and absent: "table_record t (key_ucs4 words) = None"
    and "words \<noteq> []"
  defines "t' \<equiv> mark_prefixes contains_key put_overlay 4 (key_ucs4 words) (length words - 1) (put_overlay t (key_ucs4 words) v)"
  shows "arena_ok t'" "table_record t' = with_markers words ((table_record t)(key_ucs4 words \<mapsto> v))"
proof -
  let ?key = "key_ucs4 words" let ?t = "put_overlay t ?key v"
  have ok': "arena_ok ?t" by (rule arena.put_ok [OF ok])
  show "arena_ok t'" unfolding t'_def by (rule arena.marks_ok [OF ok'])
  have len: "length ?key = 4 * length words" by (simp add: key_ucs4_encode token_bytes_codec)
  have put: "table_record ?t k = (if k = ?key then Some v else table_record t k)" for k by (rule arena.lookup_put [OF ok])
  have diff: "take (4 * j) ?key \<noteq> ?key" if "j \<le> length words - 1" for j
  proof
    assume "take (4 * j) ?key = ?key"
    then have "length (take (4 * j) ?key) = length ?key" by simp
    then show False using that len \<open>words \<noteq> []\<close> by (cases words) simp_all
  qed
  have "table_record t (take (4 * i) ?key) \<noteq> None"
    if "0 < i" "i \<le> j" "j \<le> length words - 1" "table_record t (take (4 * j) ?key) \<noteq> None" for i j
  proof -
    have "take (4 * i) (take (4 * j) ?key) = take (4 * i) ?key" using that(2) by (simp add: min_def)
    moreover have "4 * i \<le> length (take (4 * j) ?key)" using that len by simp
    ultimately show ?thesis using closed that(1,4) unfolding prefix_closed_def by metis
  qed
  then have "table_record t' k = (if table_record ?t k = None \<and> (\<exists>j. 0 < j \<and> j \<le> length words - 1 \<and> k = take (4 * j) ?key)
      then Some [] else table_record ?t k)" for k
    unfolding t'_def using len diff by (intro arena.marks_lookup [OF ok']) (auto simp: put)
  then show "table_record t' = with_markers words ((table_record t)(?key \<mapsto> v))"
    by (auto simp: fun_eq_iff with_markers_def marker_keys_take put)
qed

lemma markers_closed:
  assumes closed: "prefix_closed 4 m" and "words \<noteq> []"
  shows "prefix_closed 4 (with_markers words (m(key_ucs4 words \<mapsto> v)))"
proof -
  let ?key = "key_ucs4 words" and ?m = "with_markers words (m(key_ucs4 words \<mapsto> v))"
  have dom: "?m k \<noteq> None \<longleftrightarrow> m k \<noteq> None \<or> k = ?key \<or> k \<in> marker_keys words" for k by (auto simp: with_markers_def)
  have pre: "take (4 * n) ?key \<in> insert ?key (marker_keys words)" if "0 < n" for n
    unfolding marker_keys_def key_ucs4_encode token_bytes_take using that by (cases "n < length words") auto
  have "?m (take (4 * n) k) \<noteq> None" if "?m k \<noteq> None" "0 < n" "4 * n \<le> length k" for k n
  proof (cases "m k")
    case (Some x)
    then show ?thesis using closed that dom unfolding prefix_closed_def by blast
  next
    case None
    then have "k = ?key \<or> k \<in> marker_keys words" using dom [of k] that(1) by simp
    then consider "k = ?key" | j where "k = take (4 * j) ?key" "0 < j" using marker_keys_take [of k words] by metis
    then show ?thesis
    proof cases
      case 2
      then have "4 * n \<le> 4 * j" using that(3) by simp
      then have "take (4 * n) k = take (4 * n) ?key" using 2 by (simp add: min_def)
      then show ?thesis using pre [OF that(2)] dom by auto
    qed (use pre [OF that(2)] dom in auto)
  qed
  then show ?thesis unfolding prefix_closed_def by blast
qed

lemma put_closed:
  assumes "prefix_closed w m" "m k \<noteq> None"
  shows "prefix_closed w (m(k \<mapsto> v))"
  using assms unfolding prefix_closed_def by (auto simp: dom_def)

lemma suggest_rows_filter:
  assumes "\<forall>k \<in> set ks. table_record t k \<noteq> None"
  shows "suggest_rows t pre ks =
    (let found = filter (\<lambda>k. length pre < length k) ks in
     if \<forall>k \<in> set found. whole_entry (the (table_record t k)) then Inr (map (\<lambda>k. (k, entry_tokens (the (table_record t k)))) found)
     else Inl IncompleteToken)"
  using assms by (induction ks) (auto simp: search_bytes_whole not_le Let_def)

lemma suggest_after_rows:
  assumes "arena_ok t"
  shows "suggest_after t pre =
    (let found = filter (\<lambda>(k, v). key_starts_with k pre \<and> length pre < length k) (table_rows t) in
     if table_record t pre = None then Inr []
     else if \<forall>(k, v) \<in> set found. whole_entry v then Inr (map (\<lambda>(k, v). (k, entry_tokens v)) found)
     else Inl IncompleteToken)"
proof -
  let ?rows = "table_rows t"
  let ?found = "filter (\<lambda>(k, v). key_starts_with k pre \<and> length pre < length k) ?rows"
  have ord: "ordered ?rows" by (rule arena.rows_ordered [OF assms])
  have look: "table_record t k = Some v" if "(k, v) \<in> set ?rows" for k v
    using that ordered_distinct [OF ord] arena.lookup_rows [OF assms] by simp
  have ks: "remdups_adj (keys_starting_with t pre) = filter (\<lambda>k. key_starts_with k pre) (map fst ?rows)"
    using keys_starting_with_rows [OF assms, of pre] ordered_distinct [OF ord] by (simp add: remdups_adj_distinct)
  have found: "filter (\<lambda>k. length pre < length k) (filter (\<lambda>k. key_starts_with k pre) (map fst ?rows)) = map fst ?found"
    by (auto simp: filter_map comp_def case_prod_unfold conj_commute intro!: arg_cong [of _ _ "map fst"] filter_cong)
  have "suggest_rows t pre (filter (\<lambda>k. key_starts_with k pre) (map fst ?rows)) =
      (if \<forall>k \<in> fst ` set ?found. whole_entry (the (table_record t k))
       then Inr (map (\<lambda>k. (k, entry_tokens (the (table_record t k)))) (map fst ?found)) else Inl IncompleteToken)"
    using look by (subst suggest_rows_filter) (force, simp add: found Let_def del: map_map filter_filter)
  moreover have "(\<forall>k \<in> fst ` set ?found. whole_entry (the (table_record t k))) \<longleftrightarrow> (\<forall>(k, v) \<in> set ?found. whole_entry v)"
    using look by force
  moreover have "map (\<lambda>k. (k, entry_tokens (the (table_record t k)))) (map fst ?found) = map (\<lambda>(k, v). (k, entry_tokens v)) ?found"
    using look by auto
  ultimately show ?thesis using arena.contains_law [OF assms, of pre] by (simp add: suggest_after_def ks Let_def)
qed

section \<open>Masking\<close>

definition kept :: "u32 \<Rightarrow> u32 \<Rightarrow> u32 \<Rightarrow> bool" where
  "kept m v token \<longleftrightarrow> token AND m \<noteq> v"

lemma mask_entry_tokens:
  "mask_entry m v (4 * length pre) (token_bytes (pre @ ts)) = Some (token_bytes (pre @ filter (kept m v) ts))"
proof (induction ts arbitrary: pre)
  case Nil
  then show ?case by (subst mask_entry.simps) (simp add: token_bytes_codec)
next
  case (Cons t ts)
  let ?bs = "token_bytes (pre @ t # ts)" and ?o = "4 * length pre"
  have "drop ?o ?bs = u32_le t @ token_bytes ts" by (simp add: token_bytes_drop token_bytes_Cons del: le_bytes.simps)
  then have word: "le_u32 (take 4 (drop ?o ?bs)) = t" by (simp del: le_bytes.simps)
  have "drop (4 * Suc (length pre)) ?bs = token_bytes ts" by (simp only: token_bytes_drop) simp
  then have drained: "drain ?bs ?o (?o + 4) = token_bytes (pre @ ts)"
    using token_bytes_take [of "length pre" "pre @ t # ts"] by (simp add: drain_def token_bytes_append add.commute)
  have len: "length ?bs = ?o + 4 + 4 * length ts" by (simp add: token_bytes_codec)
  have "mask_entry m v (?o + 4) ?bs = Some (token_bytes (pre @ t # filter (kept m v) ts))"
    using Cons.IH [of "pre @ [t]"] by (simp add: add.commute)
  then show ?case
    using Cons.IH [of pre] by (subst mask_entry.simps) (simp add: len word drained kept_def [of m v t])
qed

lemma set_content_tokens:
  "entry_set_content (token_bytes prev) (token_bytes ts) = Inr (token_bytes (ts @ drop (length ts) prev))"
proof -
  have "drop (4 * length ts) (token_bytes prev) = token_bytes (drop (length ts) prev)" by (rule token_bytes_drop)
  then show ?thesis
    by (auto simp: entry_set_content_def entry_validate_whole token_bytes_codec overwrite_def resize_def token_bytes_append)
qed

text \<open>What the walk writes. A record keeps its own survivors, and after them, where the record is shorter
  than what the reused entry held, the entry's remaining tokens.\<close>

fun carried :: "u32 \<Rightarrow> u32 \<Rightarrow> u32 list \<Rightarrow> (bytes \<times> bytes) list \<Rightarrow> (bytes \<times> bytes) list" where
  "carried m v prev [] = []"
| "carried m v prev ((key, bs) # rows) =
     (if whole_entry bs then
        (let ts = entry_tokens bs; cur = filter (kept m v) ts @ drop (length ts) prev
         in (key, token_bytes cur) # carried m v cur rows)
      else (key, bs) # rows)"

definition masked_into :: "mask_state \<Rightarrow> (bytes \<times> bytes) list \<Rightarrow> mask_state \<Rightarrow> bool" where
  "masked_into st rows st' \<longleftrightarrow> (length (ms_arena st') < 2 ^ 32 \<longrightarrow>
     (\<forall>offset \<in> set (ms_offsets st). inside (ms_arena st) offset) \<longrightarrow>
     (\<forall>offset \<in> set (ms_offsets st'). inside (ms_arena st') offset) \<and>
     arena_rows (ms_arena st') (ms_offsets st') = arena_rows (ms_arena st) (ms_offsets st) @ rows)"

lemma masked_into_step:
  assumes "masked_into (keep_record key bs st) rows st'" "length (ms_arena (keep_record key bs st)) \<le> length (ms_arena st')"
  shows "masked_into st ((key, bs) # rows) st'"
proof -
  obtain arena offsets where a: "append_record (ms_arena st) (ms_offsets st) key bs = (arena, offsets)" by fastforce
  show ?thesis
    using assms append_record_rows [OF _ a] unfolding masked_into_def by (auto simp: keep_record_def a)
qed

lemma keep_record_simps [simp]:
  "ms_reused (keep_record key bs st) = ms_reused st" "ms_failed (keep_record key bs st) = ms_failed st"
  "keep_record key bs (st\<lparr>ms_failed := f\<rparr>) = (keep_record key bs st)\<lparr>ms_failed := f\<rparr>"
  "keep_record key bs (st\<lparr>ms_reused := r\<rparr>) = (keep_record key bs st)\<lparr>ms_reused := r\<rparr>"
  "length (ms_arena (keep_record key bs st)) = length (ms_arena st) + 8 + length key + length bs"
  by (simp_all add: keep_record_def append_record_def del: le_bytes.simps)

lemma masked_into_more [simp]:
  "masked_into (st\<lparr>ms_failed := f\<rparr>) rows st' = masked_into st rows st'"
  "masked_into (st\<lparr>ms_reused := r\<rparr>) rows st' = masked_into st rows st'"
  by (simp_all add: masked_into_def)

lemma visit_failed:
  assumes "ms_failed st = Some e"
  shows "\<exists>st'. visit_rest (mask_visit m v) rows st = Inr st' \<and> ms_failed st' = Some e \<and> masked_into st rows st' \<and>
    length (ms_arena st) \<le> length (ms_arena st')"
  using assms
proof (induction rows arbitrary: st)
  case (Cons row rows)
  obtain key bs where row: "row = (key, bs)" by (cases row)
  obtain st' where "visit_rest (mask_visit m v) rows (keep_record key bs st) = Inr st'" "ms_failed st' = Some e"
      "masked_into (keep_record key bs st) rows st'" "length (ms_arena (keep_record key bs st)) \<le> length (ms_arena st')"
    using Cons.IH [of "keep_record key bs st"] Cons.prems by auto
  then show ?case using Cons.prems masked_into_step [of key bs st rows st'] by (simp add: row mask_visit_def [of m v key bs])
qed (simp add: masked_into_def)

lemma visit_masked:
  assumes "ms_failed st = None" "ms_reused st = token_bytes prev" "list_all (kept m v) prev"
  shows "\<exists>st'. visit_rest (mask_visit m v) rows st = Inr st' \<and>
    ms_failed st' = (if \<forall>(key, bs) \<in> set rows. whole_entry bs then None else Some IncompleteToken) \<and>
    masked_into st (carried m v prev rows) st' \<and> length (ms_arena st) \<le> length (ms_arena st')"
  using assms
proof (induction rows arbitrary: st prev)
  case (Cons row rows)
  obtain key bs where row: "row = (key, bs)" by (cases row)
  show ?case
  proof (cases "whole_entry bs")
    case False
    let ?st = "(keep_record key bs st)\<lparr>ms_failed := Some IncompleteToken\<rparr>"
    have "mask_visit m v key bs st = Inr ?st"
      using Cons.prems False by (simp add: mask_visit_def entry_set_content_def entry_validate_whole)
    moreover obtain st' where "visit_rest (mask_visit m v) rows ?st = Inr st'" "ms_failed st' = Some IncompleteToken"
        "masked_into ?st rows st'" "length (ms_arena ?st) \<le> length (ms_arena st')"
      using visit_failed [of ?st IncompleteToken m v rows] by auto
    ultimately show ?thesis using False masked_into_step [of key bs st rows st'] by (auto simp: row)
  next
    case True
    define ts where "ts = entry_tokens bs"
    define cur where "cur = filter (kept m v) ts @ drop (length ts) prev"
    let ?bs = "token_bytes cur"
    let ?st = "(keep_record key ?bs st)\<lparr>ms_reused := ?bs\<rparr>"
    have bs: "bs = token_bytes ts" using whole_tokens [OF True] by (simp add: ts_def)
    have "list_all (kept m v) (drop (length ts) prev)" using Cons.prems(3) by (auto simp: list_all_iff dest: in_set_dropD)
    then have cur: "filter (kept m v) (ts @ drop (length ts) prev) = cur" "list_all (kept m v) cur"
      by (auto simp: cur_def list_all_iff filter_id_conv)
    have "entry_mask_out (token_bytes (ts @ drop (length ts) prev)) m v = Some ?bs"
      using mask_entry_tokens [of m v "[]" "ts @ drop (length ts) prev"] cur(1) by (simp add: entry_mask_out_def)
    then have "mask_visit m v key bs st = Inr ?st"
      using Cons.prems set_content_tokens [of prev ts] by (simp add: mask_visit_def bs)
    moreover obtain st' where "visit_rest (mask_visit m v) rows ?st = Inr st'"
        "ms_failed st' = (if \<forall>(key, bs) \<in> set rows. whole_entry bs then None else Some IncompleteToken)"
        "masked_into ?st (carried m v cur rows) st'" "length (ms_arena ?st) \<le> length (ms_arena st')"
      using Cons.IH [of ?st cur] Cons.prems(1) cur(2) by auto
    ultimately show ?thesis
      using True masked_into_step [of key ?bs st "carried m v cur rows" st'] by (auto simp: row Let_def ts_def [symmetric] cur_def [symmetric])
  qed
qed (simp add: masked_into_def)

lemma carried_keys: "map fst (carried m v prev rows) = map fst rows"
  by (induction m v prev rows rule: carried.induct) (auto simp: Let_def)

lemma carried_clean:
  assumes "list_all (kept m v) prev" "\<forall>(key, bs) \<in> set rows. whole_entry bs" "(key, bs) \<in> set (carried m v prev rows)"
  shows "whole_entry bs \<and> list_all (kept m v) (entry_tokens bs)"
  using assms
proof (induction m v prev rows rule: carried.induct)
  case (2 m v prev key' bs' rows)
  let ?cur = "filter (kept m v) (entry_tokens bs') @ drop (length (entry_tokens bs')) prev"
  have "list_all (kept m v) ?cur" using "2.prems"(1) by (auto simp: list_all_iff dest: in_set_dropD)
  then show ?case using 2 by (auto simp: Let_def token_bytes_codec)
qed simp

lemma carried_own:
  assumes "\<forall>(key, bs) \<in> set rows. whole_entry bs" "(key, bs) \<in> set rows"
  shows "\<exists>tail. (key, token_bytes (filter (kept m v) (entry_tokens bs) @ tail)) \<in> set (carried m v prev rows)"
  using assms
proof (induction m v prev rows rule: carried.induct)
  case (2 m v prev key' bs' rows)
  let ?cur = "filter (kept m v) (entry_tokens bs') @ drop (length (entry_tokens bs')) prev"
  show ?case
  proof (cases "(key, bs) = (key', bs')")
    case True
    then show ?thesis
      using 2 by (intro exI [of _ "drop (length (entry_tokens bs')) prev"]) (auto simp: Let_def)
  next
    case False
    then have "\<exists>tail. (key, token_bytes (filter (kept m v) (entry_tokens bs) @ tail)) \<in> set (carried m v ?cur rows)"
      using 2 by (auto simp: Let_def)
    then show ?thesis using "2.prems" by (auto simp: Let_def)
  qed
qed simp

section \<open>Properties\<close>

text \<open>C29: editing the learned-phrase table, over the map of its records. The empty text is refused, as is a stored
  record with a partial token, and then nothing changes; \<open>check_add\<close> foretells exactly these. Otherwise adding
  inserts the token before the first greater one, or reports it as present, and a new phrase also gets empty
  records for exactly those of its prefixes that the table does not hold. Removing deletes the first
  occurrence of the token. Both keep the table well-formed, so that the sorted arena and the overlay stay
  readable and searchable, and closed under prefixes.\<close>

theorem phrase_edit_spec:
  assumes ok: "arena_ok t" and closed: "prefix_closed 4 (table_record t)"
    and add: "phrase_add t words token = (added, t1)" and rem: "phrase_remove t words token = (removed, t2)"
    and rec: "r = table_record t" and key: "key = key_ucs4 words"
  shows "arena_ok t1 \<and> prefix_closed 4 (table_record t1) \<and> arena_ok t2 \<and> prefix_closed 4 (table_record t2) \<and>
    phrase_check_add t words = map_sum id (\<lambda>_. ()) added \<and>
    (\<forall>e. added = Inl e \<longleftrightarrow> e = EmptyText \<and> words = [] \<or> e = IncompleteToken \<and> words \<noteq> [] \<and> r key \<noteq> None \<and> \<not> whole_entry (the (r key))) \<and>
    (\<forall>e. added = Inl e \<longrightarrow> t1 = t) \<and>
    (\<forall>code. added = Inr code \<longrightarrow> (case r key of
        Some bs \<Rightarrow> let ts = entry_tokens bs; found = token_found token ts in
          code = (if found then ERROR_INSERT_ITEM_EXISTS else ERROR_OK) \<and>
          table_record t1 = r(key \<mapsto> token_bytes (if found then ts else token_insert token ts))
      | None \<Rightarrow> code = ERROR_OK \<and> table_record t1 = with_markers words (r(key \<mapsto> u32_le token)))) \<and>
    (case r key of
        None \<Rightarrow> removed = Inr ERROR_REMOVE_ITEM_DONOT_EXISTS \<and> t2 = t
      | Some bs \<Rightarrow> if whole_entry bs then
            removed = Inr (if token \<in> set (entry_tokens bs) then ERROR_OK else ERROR_REMOVE_ITEM_DONOT_EXISTS) \<and>
            table_record t2 = r(key \<mapsto> token_bytes (remove1 token (entry_tokens bs)))
          else removed = Inl IncompleteToken \<and> t2 = t)"
proof (cases "r key")
  case None
  have single: "entry_add_index [] token = (ERROR_OK, u32_le token)"
    using entry_add_tokens [of "[]" token] by (simp add: token_found_def token_insert_def token_bytes_def del: le_bytes.simps)
  have t2: "removed = Inr ERROR_REMOVE_ITEM_DONOT_EXISTS" "t2 = t" using None rem by (simp_all add: phrase_remove_def rec key)
  show ?thesis
  proof (cases "words = []")
    case True
    then show ?thesis using add ok closed t2 None
      by (auto simp: phrase_add_def phrase_check_add_def key_ucs4_Nil Let_def key)
  next
    case False
    then have a: "added = Inr ERROR_OK"
      "t1 = mark_prefixes contains_key put_overlay 4 key (length words - 1) (put_overlay t key (u32_le token))"
      using None add by (simp_all add: phrase_add_def single key_ucs4_Nil rec key Let_def del: le_bytes.simps)
    have absent: "table_record t (key_ucs4 words) = None" using None by (simp add: rec key)
    note mark = markers_record [OF ok closed absent False, of "u32_le token"]
    have "phrase_check_add t words = Inr ()" using False None by (simp add: phrase_check_add_def key_ucs4_Nil rec key)
    then show ?thesis
      using a mark markers_closed [OF closed False, of "u32_le token"] ok closed t2 None False
      by (auto simp: rec key simp del: le_bytes.simps)
  qed
next
  case (Some bs)
  have "table_record (put_overlay t key x) = r(key \<mapsto> x)" for x using arena.lookup_put [OF ok] by (simp add: rec fun_eq_iff)
  then have put: "table_record (put_overlay t key x) = r(key \<mapsto> x)" "arena_ok (put_overlay t key x)"
    "prefix_closed 4 (table_record (put_overlay t key x))" for x
    using arena.put_ok [OF ok] put_closed [OF closed, of key x] Some by (simp_all add: rec)
  show ?thesis
  proof (cases "whole_entry bs")
    case True
    have bs: "token_bytes (entry_tokens bs) = bs" by (rule whole_tokens [OF True])
    have r: "removed = Inr (if token \<in> set (entry_tokens bs) then ERROR_OK else ERROR_REMOVE_ITEM_DONOT_EXISTS)"
      "t2 = put_overlay t key (token_bytes (remove1 token (entry_tokens bs)))"
      using rem Some True entry_remove_tokens [of "entry_tokens bs" token]
      by (auto simp: phrase_remove_def entry_from_bytes_def entry_validate_whole rec key bs remove1_idem split: if_splits)
    show ?thesis
    proof (cases "words = []")
      case True
      then show ?thesis using add ok closed r put Some \<open>whole_entry bs\<close>
        by (auto simp: phrase_add_def phrase_check_add_def key_ucs4_Nil Let_def key)
    next
      case False
      let ?new = "if token_found token (entry_tokens bs) then entry_tokens bs else token_insert token (entry_tokens bs)"
      have a: "added = Inr (if token_found token (entry_tokens bs) then ERROR_INSERT_ITEM_EXISTS else ERROR_OK)"
        "t1 = put_overlay t key (token_bytes ?new)"
        using add Some True False entry_add_tokens [of "entry_tokens bs" token]
        by (auto simp: phrase_add_def entry_from_bytes_def entry_validate_whole key_ucs4_Nil rec key bs split: if_splits)
      have "phrase_check_add t words = Inr ()"
        using Some True False by (simp add: phrase_check_add_def key_ucs4_Nil entry_validate_whole rec key)
      then show ?thesis using a r put Some True False by (simp add: Let_def)
    qed
  next
    case False
    then have "removed = Inl IncompleteToken" "t2 = t"
      using rem Some by (auto simp: phrase_remove_def entry_from_bytes_def entry_validate_whole rec key)
    moreover have "added = Inl (if words = [] then EmptyText else IncompleteToken)" "t1 = t"
      "phrase_check_add t words = Inl (if words = [] then EmptyText else IncompleteToken)"
      using add Some False
      by (auto simp: phrase_add_def phrase_check_add_def entry_from_bytes_def entry_validate_whole key_ucs4_Nil rec key Let_def split: if_splits)
    ultimately show ?thesis using Some False ok closed by auto
  qed
qed

lemma table_new_ok: "arena_ok table_new" "table_record table_new k = None"
  by (simp_all add: arena_ok_def table_new_def arena_rows_def table_record_def arena_record_def find_offset_def binary_search_by_def)

theorem phrase_edit_spec_witness:
  "\<exists>t1 t2. phrase_add table_new [0x4F60] 7 = (Inr ERROR_OK, t1) \<and> phrase_add t1 [0x4F60, 0x597D, 0x554A] 9 = (Inr ERROR_OK, t2) \<and>
    arena_ok t2 \<and> prefix_closed 4 (table_record t2) \<and> table_record t2 (key_ucs4 [0x4F60]) = Some (u32_le 7) \<and>
    table_record t2 (key_ucs4 [0x4F60, 0x597D]) = Some []"
proof -
  let ?add1 = "phrase_add table_new [0x4F60] 7"
  let ?add2 = "phrase_add (snd ?add1) [0x4F60, 0x597D, 0x554A] 9"
  have "prefix_closed 4 (table_record table_new)" by (simp add: prefix_closed_def table_new_ok)
  then have one: "arena_ok (snd ?add1)" "prefix_closed 4 (table_record (snd ?add1))"
    using phrase_edit_spec [of table_new "[0x4F60]" 7 "fst ?add1" "snd ?add1" "fst (phrase_remove table_new [0x4F60] 7)"
        "snd (phrase_remove table_new [0x4F60] 7)" _ _, OF _ _ _ _ refl refl] table_new_ok by simp_all
  then have two: "arena_ok (snd ?add2)" "prefix_closed 4 (table_record (snd ?add2))"
    using phrase_edit_spec [of "snd ?add1" "[0x4F60, 0x597D, 0x554A]" 9 "fst ?add2" "snd ?add2"
        "fst (phrase_remove (snd ?add1) [0x4F60, 0x597D, 0x554A] 9)" "snd (phrase_remove (snd ?add1) [0x4F60, 0x597D, 0x554A] 9)" _ _,
        OF _ _ _ _ refl refl] by simp_all
  have "fst ?add1 = Inr ERROR_OK" "fst ?add2 = Inr ERROR_OK" "table_record (snd ?add2) (key_ucs4 [0x4F60]) = Some (u32_le 7)"
    "table_record (snd ?add2) (key_ucs4 [0x4F60, 0x597D]) = Some []" by code_simp+
  then show ?thesis using two by (intro exI [of _ "snd ?add1"] exI [of _ "snd ?add2"]) (simp add: prod_eq_iff del: le_bytes.simps)
qed

text \<open>C30: the mask walk over the learned-phrase table. It returns, never reading past an entry, and reports an error
  exactly when some record holds a partial token, as \<open>check_mask\<close> foretells. When the rewritten records stay below four gigabytes the
  table is well-formed and holds the same keys, with the rows that the reused entry writes: without an error no masked token is left
  in any record and every record begins with its own surviving tokens in order.\<close>

theorem phrase_mask_spec:
  assumes ok: "arena_ok t"
  shows "\<exists>t'. phrase_mask t m v = Some (if phrase_check_mask t = Inr () then None else Some IncompleteToken, t') \<and>
    (phrase_check_mask t = Inr () \<longleftrightarrow> (\<forall>k bs. table_record t k = Some bs \<longrightarrow> whole_entry bs)) \<and>
    (length (at_arena t') < 2 ^ 32 \<longrightarrow>
       arena_ok t' \<and> dom (table_record t') = dom (table_record t) \<and> table_rows t' = carried m v [] (table_rows t) \<and>
       (phrase_check_mask t = Inr () \<longrightarrow> (\<forall>k bs. table_record t k = Some bs \<longrightarrow>
          (\<exists>tail. table_record t' k = Some (token_bytes (filter (kept m v) (entry_tokens bs) @ tail)) \<and> list_all (kept m v) tail))))"
proof -
  let ?rows = "table_rows t" and ?all = "\<forall>(key, bs) \<in> set (table_rows t). whole_entry bs"
  have ord: "ordered ?rows" by (rule arena.rows_ordered [OF ok])
  have look: "table_record t k = Some bs \<longleftrightarrow> (k, bs) \<in> set ?rows" for k bs
    using arena.lookup_rows [OF ok] ordered_distinct [OF ord] by simp
  have "visit_rest (\<lambda>_ x _. entry_validate x) rows () = (if \<forall>(k, bs) \<in> set rows. whole_entry bs then Inr () else Inl IncompleteToken)" for rows
    by (induction rows) (auto simp: entry_validate_whole)
  then have check: "phrase_check_mask t = Inr () \<longleftrightarrow> ?all" by (simp add: phrase_check_mask_def for_each_rows)
  let ?st = "\<lparr>ms_reused = [], ms_arena = [], ms_offsets = [], ms_failed = None\<rparr>"
  obtain st where st: "visit_rest (mask_visit m v) ?rows ?st = Inr st" "ms_failed st = (if ?all then None else Some IncompleteToken)"
      "masked_into ?st (carried m v [] ?rows) st"
    using visit_masked [of ?st "[]" m v ?rows] by (auto simp: token_bytes_def)
  let ?t = "\<lparr>at_arena = ms_arena st, at_offsets = ms_offsets st, at_overlay = []\<rparr> :: arena_table"
  have mask: "phrase_mask t m v = Some (if phrase_check_mask t = Inr () then None else Some IncompleteToken, ?t)"
    using st(1,2) check by (simp add: phrase_mask_def for_each_rows)
  have "arena_ok ?t \<and> dom (table_record ?t) = dom (table_record t) \<and> table_rows ?t = carried m v [] ?rows \<and>
      (?all \<longrightarrow> (\<forall>k bs. table_record t k = Some bs \<longrightarrow>
        (\<exists>tail. table_record ?t k = Some (token_bytes (filter (kept m v) (entry_tokens bs) @ tail)) \<and> list_all (kept m v) tail)))"
    if "length (ms_arena st) < 2 ^ 32"
  proof -
    have rows': "arena_rows (ms_arena st) (ms_offsets st) = carried m v [] ?rows"
      "\<forall>offset \<in> set (ms_offsets st). inside (ms_arena st) offset"
      using st(3) that by (simp_all add: masked_into_def arena_rows_def)
    have ord': "ordered (carried m v [] ?rows)" using ord by (simp add: ordered_def carried_keys)
    then have ok': "arena_ok ?t" using rows' by (simp add: arena_ok_def)
    have "merged xs [] = xs" for xs :: "(bytes \<times> bytes) list" by (cases xs) simp_all
    then have rows_t: "table_rows ?t = carried m v [] ?rows" using rows' by (simp add: table_rows_def)
    have look': "table_record ?t k = Some bs \<longleftrightarrow> (k, bs) \<in> set (carried m v [] ?rows)" for k bs
      using arena.lookup_rows [OF ok'] ordered_distinct [OF ord'] by (simp add: rows_t)
    have "dom (table_record x) = set (map fst (table_rows x))" if "arena_ok x" for x :: arena_table
      using arena.lookup_rows [OF that] dom_map_of_conv_image_fst [of "table_rows x"] by (simp add: dom_def)
    then have "dom (table_record ?t) = dom (table_record t)" using ok ok' by (simp only: rows_t carried_keys)
    moreover have "\<exists>tail. table_record ?t k = Some (token_bytes (filter (kept m v) (entry_tokens bs) @ tail)) \<and> list_all (kept m v) tail"
      if all: "?all" and k: "table_record t k = Some bs" for k bs
    proof -
      obtain tail where tail: "(k, token_bytes (filter (kept m v) (entry_tokens bs) @ tail)) \<in> set (carried m v [] ?rows)"
        using carried_own [OF all, of k bs m v "[]"] k look by blast
      then show ?thesis
        using carried_clean [OF _ all tail] look' by (auto simp: token_bytes_codec(1))
    qed
    ultimately show ?thesis using ok' rows_t by blast
  qed
  then show ?thesis using mask look unfolding check by (intro exI [of _ ?t]) auto
qed

definition mask_example :: arena_table where
  "mask_example = \<lparr>at_arena = [], at_offsets = [], at_overlay = [(u32_le 1, token_bytes [5, 0x1000002]), (u32_le 2, token_bytes [0x1000001])]\<rparr>"

definition masked_example :: arena_table where
  "masked_example = snd (the (phrase_mask mask_example 0xFF000000 0))"

theorem phrase_mask_spec_witness:
  "phrase_mask mask_example 0xFF000000 0 = Some (None, masked_example) \<and> arena_ok masked_example \<and>
    (\<exists>tail. table_record masked_example (u32_le 1) = Some (token_bytes (filter (kept 0xFF000000 0) [5, 0x1000002] @ tail)))"
proof -
  have ok: "arena_ok mask_example"
    by (simp add: arena_ok_def mask_example_def arena_rows_def ordered_Cons le_bytes_numeral)
  have rows: "table_rows mask_example = [(u32_le 1, token_bytes [5, 0x1000002]), (u32_le 2, token_bytes [0x1000001])]"
    by (simp add: table_rows_def mask_example_def arena_rows_def del: le_bytes.simps)
  then have check: "phrase_check_mask mask_example = Inr ()" "table_record mask_example (u32_le 1) = Some (token_bytes [5, 0x1000002])"
    using arena.lookup_rows [OF ok]
    by (simp_all add: phrase_check_mask_def for_each_rows entry_validate_whole token_bytes_codec del: le_bytes.simps)
  have "entry_set_content [] (token_bytes ts) = Inr (token_bytes ts)" "entry_mask_out (token_bytes ts) m v = Some (token_bytes (filter (kept m v) ts))"
    for ts m v using set_content_tokens [of "[]" ts] mask_entry_tokens [of m v "[]" ts] by (simp_all add: token_bytes_def entry_mask_out_def del: le_bytes.simps)
  then have small: "length (at_arena masked_example) = 32"
    by (simp add: masked_example_def phrase_mask_def for_each_rows rows mask_visit_def set_content_tokens kept_def
        token_bytes_codec del: le_bytes.simps)
  from phrase_mask_spec [OF ok, of "0xFF000000" 0] show ?thesis
  proof (elim exE conjE, goal_cases)
    case (1 t')
    then have t': "phrase_mask mask_example 0xFF000000 0 = Some (None, t')" "t' = masked_example"
      using check(1) by (simp_all add: masked_example_def)
    have "length (at_arena t') < 2 ^ 32" using small t'(2) by simp
    note spec = mp [OF 1(3) this]
    have "\<exists>tail. table_record t' (u32_le 1) = Some (token_bytes (filter (kept 0xFF000000 0) [5, 0x1000002] @ tail))"
      using spec check token_bytes_codec(1) [of "[5, 0x1000002]"] by (metis (no_types))
    then show ?thesis using spec t' by simp
  qed
qed

end
