(* ===== verification/Spec2Isabelle.thy ===== *)
theory Spec2Isabelle
  imports SingleGram PhraseText Constraint ChewingKey RowFormat ChunkFormat ChunkWrite PhraseLibrary KBestSearch ParserBound Scoring
    IndexParse CharOffset Ranking Zhuyin KMixture UserPhrases
begin

text \<open>
  A verification development of oxpinyin, a pinyin input method in Rust that reproduces the behaviour of
  libpinyin. Paths below are under \<open>src/crates/\<close>.

  \<^bold>\<open>The program.\<close> A typed buffer is matched against the frozen syllable inventory. The segment graph holds
  every spelling that starts at each byte; the exhaustive parser enumerates the readings, the fewest-keys
  search selects one, and the k-best search ranks paths under a cost from the dictionary and the language
  model. A session turns the selected parse into a scan matrix of keys, looks up the phrases that spell
  its windows, ranks and deduplicates them as candidates, and keeps the phrases a user has forced in a
  constraint store. Cursor moves and character offsets are answered from the columns of the same matrix.
  Below that, phrases live in framed library files, found through index tables, and bigram counts in raw
  rows keyed by a predecessor token.

  \<^bold>\<open>Theories and sources.\<close>

  \<^item> \<open>OxPrelude\<close>: machine integers, slices, little-endian codecs, UTF-8 facts, and the contract of a binary
    search (locale \<open>partition_search\<close>, interpreted on \<open>partition_point\<close> and on the search of \<open>cursor.rs\<close>).
  \<^item> \<open>RecordCodec\<close>, \<open>TokenRow\<close>: the interfaces of a fixed-width record (locale \<open>fixed_record\<close>, interpreted on
    the word, key, index-item and gram-item codecs) and of a token-keyed row (locale \<open>token_row\<close>,
    interpreted on the raw gram bytes and on the item array of a k-mixture row).
  \<^item> \<open>PhraseText\<close>: \<open>oxpinyin-core/src/ucs4.rs\<close>. Equality, order and hash input of a text agree across its two
    representations; skipping and joining keep texts well-formed and do what they say on the words.
  \<^item> \<open>SingleGram\<close>: \<open>oxpinyin-core/src/single_gram.rs\<close>, every operation on the bytes: lookups after an insert, a
    replacement and a removal, the masked deletion, the merged view of two rows, the checked accesses.
  \<^item> \<open>ChewingKey\<close>: \<open>oxpinyin-chewing/src/chewing_key.rs\<close>, \<open>chewing_key_data.rs\<close>, \<open>tone_symbols.rs\<close>: the packed
    16-bit key, its table row and renderings, the binary search of a spelling.
  \<^item> \<open>RowFormat\<close>: \<open>oxpinyin-data/src/row_format.rs\<close>, the layouts of the four table files with their round trips.
  \<^item> \<open>ChunkFormat\<close>, \<open>ChunkWrite\<close>, \<open>PhraseLibrary\<close>: \<open>oxpinyin-data/src/chunk_format.rs\<close>, \<open>chunk_write.rs\<close>,
    \<open>phrase_library.rs\<close> and the frame check of \<open>user_files.rs\<close>: the writer of a library file, its decoder and
    the reader over the mapped bytes. What the writer wrote is what both readers answer, a changed
    payload byte is refused, and no accepted section or view reaches past the bytes.
  \<^item> \<open>Syllables\<close>: \<open>oxpinyin-core/src/options.rs\<close>, \<open>syllables.rs\<close>, the pinned inventories under \<open>table_data/\<close> and
    the \<open>SyllableKey\<close> of \<open>vocab.rs\<close>: the option-gated lookup of a spelling.
  \<^item> \<open>SegmentGraph\<close>, \<open>FewestKeys\<close>: \<open>oxpinyin-core/src/graph.rs\<close>. The edges of a built graph are exactly the
    matches of the input, the reachability sweep is exact, and the dynamic program over packed 64-bit
    ranks finds the furthest, fewest-key, least-distance path. What the search relies on of a graph is the
    locale \<open>graph_builder\<close>, interpreted on both builders.
  \<^item> \<open>FullPinyin\<close>, \<open>PathSearch\<close>, \<open>GroupReadings\<close>, \<open>ParserSpec\<close>, \<open>ParserBound\<close>: \<open>oxpinyin-core/src/parser.rs\<close>.
    Both depth-first searches interpret the locale \<open>path_search\<close> (over \<open>syllable_steps\<close>); the parser answers
    exactly the furthest tilings of the input in longest-first order, and the option words under which
    its own assertion can fail are identified, with an input.
  \<^item> \<open>KBest\<close>, \<open>KBestSearch\<close>: \<open>oxpinyin-core/src/kbest.rs\<close>. The sweep is simulated by operations on lists of
    paths over the locale \<open>indexed_graph\<close>; the answer is the \<open>k\<close> cheapest paths.
  \<^item> \<open>Scoring\<close>: \<open>oxpinyin-core/src/scoring.rs\<close> and the integer part of \<open>cost.rs\<close>.
  \<^item> \<open>IndexParse\<close>: \<open>oxpinyin-core/src/full_pinyin_index.rs\<close> and \<open>oxpinyin-chewing/src/static_strings.rs\<close>, the parser
    of the indexed full-pinyin schemes; its dynamic program is the locale \<open>swept_steps\<close>.
  \<^item> \<open>GreedyParse\<close>, \<open>SchemeTables\<close>, \<open>DoublePinyin\<close>, \<open>Zhuyin\<close>: \<open>oxpinyin-core/src/scheme.rs\<close>, \<open>zhuyin_map.rs\<close>, \<open>direct.rs\<close> and the
    keyboard tables under \<open>table_data/\<close>. Both batch parsers interpret the locale \<open>greedy_loop\<close>, so they return the
    greedy walk of longest accepted keys; their one-key parses are shown to be the same law as the probes
    of the batch, and the tone options are settled for every keyboard family.
  \<^item> \<open>Constraint\<close>: \<open>oxpinyin-engine/src/constraint.rs\<close>. Each operation on the cell array is the expected one on
    the set of runs and no slice access of a well-formed store panics.
  \<^item> \<open>ScanMatrix\<close>: the matrix of \<open>oxpinyin-engine/src/session/mod.rs\<close>, \<open>session/split_tables.rs\<close>,
    \<open>session/matrix.rs\<close> and the fuzzy alternates of \<open>vocab.rs\<close>.
  \<^item> \<open>Cursor\<close>, \<open>CharOffset\<close>: \<open>oxpinyin-engine/src/cursor.rs\<close>, \<open>char_offset.rs\<close>, \<open>error.rs\<close>. The cursor laws are proved
    in the locale \<open>span_source\<close>, interpreted on the ordered view with its binary searches and on the
    scanning view; composed with the matrix they hold of every typed buffer.
  \<^item> \<open>Ranking\<close>: \<open>oxpinyin-engine/src/candidate.rs\<close> and the ranking, deduplication and window order of
    \<open>session/mod.rs\<close>, over the locale \<open>stable_sort\<close>, interpreted on the sort of the model.
  \<^item> \<open>FlexGram\<close>, \<open>KMixture\<close>: \<open>oxpinyin-store/src/flexible_ngram.rs\<close> and \<open>records.rs\<close>, \<open>database.rs\<close>, \<open>merge.rs\<close>, \<open>validate.rs\<close>
    of \<open>oxpinyin-kmm/src\<close>: the container of the training tools, with the tkrzw reads of its headers. Merging two
    consistent models gives their field-wise sum, which both validators accept, or is refused by the overflow
    test; the document counts, which no validator reads, are added modulo \<open>2 ^ 32\<close> as in the code.
  \<^item> \<open>ArenaTable\<close>, \<open>UserPhrases\<close>: \<open>user_phrase_table.rs\<close> and \<open>phrase_table.rs\<close> of \<open>oxpinyin-user/src\<close>, the table of learned
    phrases. The sorted arena with its overlay interprets the locale \<open>keyed_table\<close>, over which an edit is the
    expected change of a map with its prefix markers; the mask walk is characterised with the tokens that
    the reused entry carries from one record to the next.

  \<^bold>\<open>How code is rendered.\<close> A \<open>u8\<close>, \<open>u16\<close>, \<open>u32\<close>, \<open>u64\<close> is a word of that width, so that casts, shifts and wrapping
  arithmetic are the code's; an \<open>i64\<close> cost is an integer clamped as \<open>saturating_add\<close> clamps it; a \<open>usize\<close> is a
  natural number, with the code's own limit checks kept. Errors are constructors of a sum. An assertion
  that can fail is a constructor of the answer (\<open>AssertFailed\<close>), an index past a slice is \<open>None\<close>, and
  so is an abort or exit of the training tools. A hash map
  or set is an association list or a set, read only by key. A loop with no structural measure is a
  \<open>partial_function\<close> on \<open>option\<close>: \<open>None\<close> is a run that does not return, and the theorems state that the
  answer is \<open>Some\<close>. There is no fuel.

  \<^bold>\<open>Arguments.\<close> Code that the build generates (the content tables and the index string tables) is an argument
  of the definitions that read it, with its documented order as a hypothesis. So are the scorer of the
  k-best search, the dictionary and the language model of the score, the probe of \<open>validate\<close>, and the
  pronunciation test of \<open>char_offset.rs\<close>, which the sources pass as closures or trait objects (the probe, and
  the test and \<open>add\<close> of the remembering walk, take and return the state they carry between calls), and the
  database backend of the k-mixture container, whose documented reads and writes are a hypothesis that an
  association list satisfies.

  \<^bold>\<open>Not modelled.\<close> Floating point: \<open>nbest.rs\<close>, the language-model estimates
  of \<open>oxpinyin-data/src/lm\<close> and \<open>interp.rs\<close>, the probability conversions of
  \<open>cost.rs\<close>, the estimation and pruning of \<open>oxpinyin-kmm\<close> and
  \<open>oxpinyin-training\<close> rest on single- and double-precision arithmetic that is not rational
  arithmetic. Input and output: the database backends, the attach of a container and file loading of
  \<open>oxpinyin-store\<close>, the import and export of \<open>oxpinyin-kmm\<close>,
  \<open>user_files.rs\<close>, the user persistence, pinyin index, store and replay of \<open>oxpinyin-user\<close>, the
  tools of \<open>oxpinyin-utils\<close> and \<open>oxpinyin-input\<close>. The C interfaces
  (\<open>oxpinyin-capi\<close>, \<open>oxpinyin-zhuyin-capi\<close>, \<open>oxpinyin-capi-marshal\<close>)
  are raw-pointer glue over \<open>oxpinyin-facade\<close> and \<open>oxpinyin-runtime\<close>, which wire the
  modelled parts to the stores. The generated tables are data. The manifest lists each of these parts.
\<close>

end
